(* ===== verification/Prelude.thy ===== *)
theory Prelude
  imports Main "HOL-Library.Sublist"
begin

text \<open>
  Shared vocabulary of the development: identifiers, JSON values, the relational
  operations every SQL-backed store issues (select, insert with a primary key, update,
  delete, \<open>ORDER BY\<close>), JavaScript's truthiness test on optional strings, and the walk along
  parent pointers with the interface (\<open>parent_log\<close>) that makes it terminate.

  Strings are \<open>string\<close> (lists of 8-bit characters), so text is modelled for the code units
  below 256. Rows of a table are kept in insertion (rowid) order; where SQL leaves the
  order of equal keys open, rows come in that order.
\<close>

named_theorems table_simps \<open>rewriting of reads over writes of a table\<close>

type_synonym id = string

section \<open>JSON values\<close>

text \<open>Numbers are restricted to integers; object members keep their insertion order.\<close>

datatype json =
    JNull
  | JBool bool
  | JNum int
  | JStr string
  | JArr "json list"
  | JObj "(string \<times> json) list"

section \<open>Truthiness of optional strings\<close>

text \<open>\<open>if (s)\<close> for a value of type \<open>string | null\<close>: null and the empty string are falsy.\<close>

definition truthy :: "string option \<Rightarrow> bool" where
  "truthy s = (case s of None \<Rightarrow> False | Some x \<Rightarrow> x \<noteq> [])"

lemma truthy_simps [simp]:
  "\<not> truthy None"
  "truthy (Some x) = (x \<noteq> [])"
  by (simp_all add: truthy_def)

text \<open>The operator \<open>??\<close>.\<close>

definition or_else :: "'a option \<Rightarrow> 'a \<Rightarrow> 'a" where
  "or_else x d = (case x of None \<Rightarrow> d | Some y \<Rightarrow> y)"

lemma or_else_simps [simp]: "or_else None d = d" "or_else (Some y) d = y"
  by (simp_all add: or_else_def)

section \<open>Splitting text\<close>

text \<open>\<open>split\<close> at a separator character: one part more than there are separators.\<close>

fun split_on :: "char \<Rightarrow> string \<Rightarrow> string list" where
  "split_on sep [] = [[]]"
| "split_on sep (c # cs) =
     (if c = sep then [] # split_on sep cs
      else case split_on sep cs of [] \<Rightarrow> [[c]] | p # ps \<Rightarrow> (c # p) # ps)"

lemma split_on_not_Nil [simp]: "split_on sep s \<noteq> []"
  by (induction sep s rule: split_on.induct) (auto split: list.split)

lemma split_on_no_sep: "sep \<notin> set xs \<Longrightarrow> split_on sep xs = [xs]"
  by (induction xs) auto

section \<open>Strings\<close>

text \<open>
  White space of \<open>trim\<close> and \<open>trimStart\<close> for code units below 256, \<open>s.trim() === ""\<close>,
  \<open>startsWith\<close> and \<open>includes\<close>.
\<close>

definition js_space :: "char \<Rightarrow> bool" where
  "js_space c \<longleftrightarrow> c \<in> {CHR 0x09, CHR 0x0A, CHR 0x0B, CHR 0x0C, CHR 0x0D, CHR 0x20, CHR 0xA0}"

definition trim_start :: "string \<Rightarrow> string" where
  "trim_start s = dropWhile js_space s"

definition trim :: "string \<Rightarrow> string" where
  "trim s = rev (trim_start (rev (trim_start s)))"

definition blank :: "string \<Rightarrow> bool" where
  "blank s = list_all js_space s"

lemma blank_Nil [simp]: "blank []"
  by (simp add: blank_def)

lemma trim_Nil_iff: "trim s = [] \<longleftrightarrow> blank s"
  by (simp add: trim_def trim_start_def blank_def list_all_iff) (induction s; auto split: if_splits)

definition starts_with :: "string \<Rightarrow> string \<Rightarrow> bool" where
  "starts_with s p \<longleftrightarrow> take (length p) s = p"

lemma starts_with_prefix: "starts_with s p \<longleftrightarrow> prefix p s"
  by (metis append_take_drop_id starts_with_def append_eq_conv_conj prefix_def)

definition str_includes :: "string \<Rightarrow> string \<Rightarrow> bool" where
  "str_includes s t = sublist t s"

lemma str_includes_code [simp]:
  "str_includes [] t = (t = [])"
  "str_includes (c # s) t = (prefix t (c # s) \<or> str_includes s t)"
  by (auto simp: str_includes_def sublist_Cons_right)

section \<open>Ordered maps\<close>

text \<open>\<open>Map.set\<close>: a key keeps the place of its first insertion.\<close>

fun map_set :: "'k \<Rightarrow> 'v \<Rightarrow> ('k \<times> 'v) list \<Rightarrow> ('k \<times> 'v) list" where
  "map_set k v [] = [(k, v)]"
| "map_set k v ((k', v') # xs) = (if k' = k then (k, v) # xs else (k', v') # map_set k v xs)"

lemma map_of_map_set [simp]: "map_of (map_set k v xs) = (map_of xs)(k \<mapsto> v)"
  by (induction k v xs rule: map_set.induct) auto

lemma map_set_new: "k \<notin> fst ` set xs \<Longrightarrow> map_set k v xs = xs @ [(k, v)]"
  by (induction k v xs rule: map_set.induct) auto

section \<open>Tables\<close>

text \<open>
  A table is the list of its rows. \<open>get_row\<close> is \<open>SELECT .. WHERE pk = k\<close>; \<open>insert_row\<close> is
  \<open>INSERT\<close> under a primary-key constraint (\<open>None\<close> is the constraint error, which leaves
  the table as it was); \<open>update_rows\<close> and \<open>delete_rows\<close> are \<open>UPDATE\<close> and \<open>DELETE\<close> with a
  \<open>WHERE\<close> clause.
\<close>

definition get_row :: "('r \<Rightarrow> 'k) \<Rightarrow> 'k \<Rightarrow> 'r list \<Rightarrow> 'r option" where
  "get_row pk k t = find (\<lambda>r. pk r = k) t"

definition insert_row :: "('r \<Rightarrow> 'k) \<Rightarrow> 'r \<Rightarrow> 'r list \<Rightarrow> 'r list option" where
  "insert_row pk r t = (if pk r \<in> pk ` set t then None else Some (t @ [r]))"

definition update_rows :: "('r \<Rightarrow> bool) \<Rightarrow> ('r \<Rightarrow> 'r) \<Rightarrow> 'r list \<Rightarrow> 'r list" where
  "update_rows p f t = map (\<lambda>r. if p r then f r else r) t"

definition delete_rows :: "('r \<Rightarrow> bool) \<Rightarrow> 'r list \<Rightarrow> 'r list" where
  "delete_rows p t = filter (\<lambda>r. \<not> p r) t"

lemma get_row_Nil [table_simps]: "get_row pk k [] = None"
  by (simp add: get_row_def)

lemma get_row_Cons [table_simps]:
  "get_row pk k (r # t) = (if pk r = k then Some r else get_row pk k t)"
  by (simp add: get_row_def)

lemma get_row_SomeD: "get_row pk k t = Some r \<Longrightarrow> r \<in> set t \<and> pk r = k"
  by (auto simp: get_row_def find_Some_iff)

lemma get_row_None_iff: "get_row pk k t = None \<longleftrightarrow> k \<notin> pk ` set t"
  by (auto simp: get_row_def find_None_iff)

lemma get_row_member:
  "distinct (map pk t) \<Longrightarrow> r \<in> set t \<Longrightarrow> get_row pk (pk r) t = Some r"
  by (induction t) (auto simp: table_simps image_iff)

lemma get_row_eq_Some_iff:
  "distinct (map pk t) \<Longrightarrow> get_row pk k t = Some r \<longleftrightarrow> r \<in> set t \<and> pk r = k"
  using get_row_SomeD get_row_member by metis

lemma get_row_append [table_simps]:
  "get_row pk k (t @ u) = (case get_row pk k t of None \<Rightarrow> get_row pk k u | Some r \<Rightarrow> Some r)"
  by (induction t) (auto simp: table_simps)

lemma get_row_update [table_simps]:
  assumes "\<And>r. pk (f r) = pk r"
  shows "get_row pk k (update_rows p f t) =
    map_option (\<lambda>r. if p r then f r else r) (get_row pk k t)"
  by (induction t) (auto simp: table_simps update_rows_def assms)

lemma insert_row_SomeD:
  "insert_row pk r t = Some t' \<Longrightarrow> pk r \<notin> pk ` set t \<and> t' = t @ [r]"
  by (auto simp: insert_row_def split: if_splits)

lemma insert_row_distinct:
  "insert_row pk r t = Some t' \<Longrightarrow> distinct (map pk t) \<Longrightarrow> distinct (map pk t')"
  by (auto dest!: insert_row_SomeD)

lemma set_insert_row: "insert_row pk r t = Some t' \<Longrightarrow> set t' = insert r (set t)"
  by (auto dest!: insert_row_SomeD)

lemma get_row_insert:
  assumes "insert_row pk r t = Some t'"
  shows "get_row pk k t' = (if k = pk r then Some r else get_row pk k t)"
proof -
  have "get_row pk (pk r) t = None" "t' = t @ [r]"
    using insert_row_SomeD [OF assms] by (simp_all add: get_row_None_iff)
  then show ?thesis by (auto simp: table_simps split: option.split)
qed

lemma set_update_rows [table_simps]:
  "set (update_rows p f t) = (\<lambda>r. if p r then f r else r) ` set t"
  by (simp add: update_rows_def)

lemma map_update_rows:
  assumes "\<And>r. g (f r) = g r"
  shows "map g (update_rows p f t) = map g t"
  by (auto simp: update_rows_def assms)

lemma length_update_rows [simp]: "length (update_rows p f t) = length t"
  by (simp add: update_rows_def)

lemma set_delete_rows [table_simps]: "set (delete_rows p t) = {r \<in> set t. \<not> p r}"
  by (auto simp: delete_rows_def)

lemma delete_rows_distinct: "distinct (map pk t) \<Longrightarrow> distinct (map pk (delete_rows p t))"
  by (simp add: delete_rows_def distinct_map_filter)

lemma get_row_delete:
  assumes "distinct (map pk t)"
  shows "get_row pk k (delete_rows p t) =
    (case get_row pk k t of None \<Rightarrow> None | Some r \<Rightarrow> if p r then None else Some r)"
proof (cases "get_row pk k t")
  case None
  then have "k \<notin> pk ` set (delete_rows p t)"
    by (auto simp: get_row_None_iff table_simps)
  then have "get_row pk k (delete_rows p t) = None" by (simp add: get_row_None_iff)
  with None show ?thesis by simp
next
  case (Some r)
  then have r: "r \<in> set t" "pk r = k" by (auto dest: get_row_SomeD)
  have inj: "inj_on pk (set t)" using assms by (simp add: distinct_map)
  show ?thesis
  proof (cases "p r")
    case True
    then have "k \<notin> pk ` set (delete_rows p t)"
      using r inj by (auto simp: table_simps dest: inj_onD)
    then show ?thesis using Some True by (simp add: get_row_None_iff)
  next
    case False
    then have "r \<in> set (delete_rows p t)" using r by (simp add: table_simps)
    with False Some r show ?thesis
      using get_row_member [OF delete_rows_distinct [OF assms]] by fastforce
  qed
qed

text \<open>\<open>ORDER BY key\<close>, ascending and descending; equal keys stay in row order.\<close>

definition order_by :: "('r \<Rightarrow> 'k::linorder) \<Rightarrow> 'r list \<Rightarrow> 'r list" where
  "order_by key t = sort_key key t"

definition order_by_desc :: "('r \<Rightarrow> 'k::linorder) \<Rightarrow> 'r list \<Rightarrow> 'r list" where
  "order_by_desc key t = rev (sort_key key (rev t))"

lemma set_order_by [simp]: "set (order_by key t) = set t"
  by (simp add: order_by_def)

lemma set_order_by_desc [simp]: "set (order_by_desc key t) = set t"
  by (simp add: order_by_desc_def)

lemma length_order_by [simp]: "length (order_by key t) = length t"
  by (simp add: order_by_def)

lemma length_order_by_desc [simp]: "length (order_by_desc key t) = length t"
  by (simp add: order_by_desc_def)

lemma sorted_order_by: "sorted (map key (order_by key t))"
  by (simp add: order_by_def)

lemma order_by_Nil [simp]: "order_by key [] = []"
  by (simp add: order_by_def)

lemma order_by_Nil_iff [simp]: "order_by key t = [] \<longleftrightarrow> t = []"
  by (metis length_0_conv length_order_by)

lemma distinct_order_by [simp]: "distinct (order_by key t) = distinct t"
  by (simp add: order_by_def)

lemma insort_key_last:
  "\<forall>x \<in> set xs. key x \<le> key a \<Longrightarrow> sorted (map key xs) \<Longrightarrow> xs @ [a] = sort_key key (xs @ [a])"
  by (simp add: sort_key_id_if_sorted sorted_append)

lemma order_by_snoc_max:
  assumes "\<forall>x \<in> set t. key x < key a"
  shows "order_by key (t @ [a]) = order_by key t @ [a]"
proof -
  have *: "sort_key key (ys @ [a]) = sort_key key ys @ [a]" if "\<forall>x \<in> set ys. key x < key a" for ys
    using that
  proof (induction ys)
    case Nil
    then show ?case by simp
  next
    case (Cons y ys)
    have "insort_key key y (zs @ [a]) = insort_key key y zs @ [a]" for zs
      using Cons.prems by (induction zs) auto
    with Cons show ?case by simp
  qed
  show ?thesis using *[OF assms] by (simp add: order_by_def)
qed

section \<open>Walking parent pointers\<close>

text \<open>
  The loop \<open>while (current) \{ ..; current = parent(current) \}\<close>: \<open>chain\<close> is the list of the
  nodes it visits. \<open>None\<close> means that the loop does not end.
\<close>

partial_function (option) chain :: "('n \<Rightarrow> 'n option) \<Rightarrow> 'n option \<Rightarrow> 'n list option" where
  "chain parent cur =
     (case cur of
        None \<Rightarrow> Some []
      | Some n \<Rightarrow> Option.bind (chain parent (parent n)) (\<lambda>rest. Some (n # rest)))"

lemma chain_None [simp]: "chain parent None = Some []"
  by (simp add: chain.simps)

lemma chain_Some:
  "chain parent (Some n) = Option.bind (chain parent (parent n)) (\<lambda>rest. Some (n # rest))"
  by (subst chain.simps) simp

text \<open>
  The contract a store offers for its parent pointers: in a well-formed state the parent of
  a node is a node of the state with a smaller rank. Whoever walks the pointers relies on
  this alone.
\<close>

locale parent_log =
  fixes wf :: "'s \<Rightarrow> bool"
    and nodes :: "'s \<Rightarrow> 'n set"
    and parent :: "'s \<Rightarrow> 'n \<Rightarrow> 'n option"
    and rank :: "'s \<Rightarrow> 'n \<Rightarrow> nat"
  assumes parent_node: "wf s \<Longrightarrow> n \<in> nodes s \<Longrightarrow> parent s n = Some p \<Longrightarrow> p \<in> nodes s"
    and parent_rank: "wf s \<Longrightarrow> n \<in> nodes s \<Longrightarrow> parent s n = Some p \<Longrightarrow> rank s p < rank s n"
begin

lemma chain_total:
  assumes "wf s" "n \<in> nodes s"
  shows "\<exists>ns. chain (parent s) (Some n) = Some (n # ns) \<and> set ns \<subseteq> nodes s \<and>
    (\<forall>m \<in> set ns. rank s m < rank s n)"
  using assms(2)
proof (induction "rank s n" arbitrary: n rule: less_induct)
  case less
  show ?case
  proof (cases "parent s n")
    case None
    then show ?thesis by (simp add: chain_Some)
  next
    case (Some p)
    then have p: "p \<in> nodes s" "rank s p < rank s n"
      using parent_node parent_rank assms(1) less.prems by blast+
    then obtain ns where "chain (parent s) (Some p) = Some (p # ns)" "set ns \<subseteq> nodes s"
      "\<forall>m \<in> set ns. rank s m < rank s p"
      using less.hyps by blast
    with Some p show ?thesis by (fastforce simp: chain_Some)
  qed
qed

lemma chain_returns:
  assumes "wf s" "set_option cur \<subseteq> nodes s"
  shows "\<exists>ns. chain (parent s) cur = Some ns \<and> set ns \<subseteq> nodes s"
  using assms by (cases cur) (auto dest: chain_total)

lemma chain_sorted:
  assumes "wf s" "n \<in> nodes s" "chain (parent s) (Some n) = Some ns"
  shows "sorted_wrt (\<lambda>a b. rank s b < rank s a) ns"
  using assms(2,3)
proof (induction "rank s n" arbitrary: n ns rule: less_induct)
  case less
  show ?case
  proof (cases "parent s n")
    case None
    with less.prems show ?thesis by (auto simp: chain_Some)
  next
    case (Some p)
    then have p: "p \<in> nodes s" "rank s p < rank s n"
      using parent_node parent_rank assms(1) less.prems by blast+
    obtain ms where ms: "chain (parent s) (Some p) = Some (p # ms)"
      and low: "\<forall>m \<in> set ms. rank s m < rank s p"
      using chain_total [OF assms(1) p(1)] by blast
    have "sorted_wrt (\<lambda>a b. rank s b < rank s a) (p # ms)"
      using less.hyps p ms by blast
    moreover have "\<forall>m \<in> set (p # ms). rank s m < rank s n"
      using low p(2) by auto
    moreover have "ns = n # p # ms"
      using less.prems(2) Some ms by (simp add: chain_Some [of _ n])
    ultimately show ?thesis by simp
  qed
qed

lemma chain_distinct:
  assumes "wf s" "n \<in> nodes s" "chain (parent s) (Some n) = Some ns"
  shows "distinct ns"
  using chain_sorted [OF assms] by (induction ns) auto

end

text \<open>The walk only depends on the parent function along the nodes it visits.\<close>

lemma chain_fuel_free:
  "chain f cur = Some ns \<Longrightarrow> (\<And>n. n \<in> set ns \<Longrightarrow> g n = f n) \<Longrightarrow> chain g cur = Some ns"
proof (induction ns arbitrary: cur)
  case Nil
  then show ?case by (cases cur) (auto simp: chain_Some bind_eq_Some_conv)
next
  case (Cons a ns)
  then obtain n where n: "cur = Some n" by (cases cur) auto
  with Cons.prems(1) have "n = a" "chain f (f a) = Some ns"
    by (auto simp: chain_Some bind_eq_Some_conv)
  with Cons n show ?case by (auto simp: chain_Some)
qed

lemma chain_Cons_iff:
  "chain f cur = Some (a # ns) \<longleftrightarrow> cur = Some a \<and> chain f (f a) = Some ns"
  by (cases cur) (auto simp: chain_Some bind_eq_Some_conv)

lemma chain_Nil_iff: "chain f cur = Some [] \<longleftrightarrow> cur = None"
  by (cases cur) (auto simp: chain_Some bind_eq_Some_conv)

section \<open>Acyclic dependency graphs\<close>

text \<open>
  The contract of a store of dependency edges: in a well-formed state the edges are finite
  and have no cycle. Then every non-empty set of nodes has a member that depends on no
  other member.
\<close>

locale dependency_graph =
  fixes wf :: "'s \<Rightarrow> bool"
    and edges :: "'s \<Rightarrow> ('n \<times> 'n) set"
  assumes edges_finite: "wf s \<Longrightarrow> finite (edges s)"
    and edges_acyclic: "wf s \<Longrightarrow> acyclic (edges s)"
begin

lemma independent_member:
  assumes "wf s" and "x \<in> A"
  shows "\<exists>m \<in> A. \<forall>n \<in> A. (m, n) \<notin> edges s"
proof -
  have "Wellfounded.wf ((edges s)\<inverse>)"
    by (rule finite_acyclic_wf_converse [OF edges_finite [OF assms(1)] edges_acyclic [OF assms(1)]])
  then show ?thesis by (rule wfE_min [OF _ assms(2)]) (simp add: converse_iff, blast)
qed

lemma no_mutual_dependency:
  assumes "wf s" and "(a, b) \<in> (edges s)\<^sup>*" and "(b, a) \<in> (edges s)\<^sup>*"
  shows "a = b"
  by (rule antisymD [OF acyclic_impl_antisym_rtrancl [OF edges_acyclic [OF assms(1)]] assms(2,3)])

end

section \<open>Refinement\<close>

text \<open>
  A component promises its clients the behaviour of an abstract machine. \<open>ready ops s\<close> holds
  when the requests \<open>ops\<close> may be made of state \<open>s\<close>, in this order; a request that is ready
  succeeds, answers what the abstract machine answers, and leaves the rest ready. Then whole
  sequences of requests agree.
\<close>

primrec run_all :: "('o \<Rightarrow> 's \<Rightarrow> ('r \<times> 's) option) \<Rightarrow> 'o list \<Rightarrow> 's \<Rightarrow> ('r list \<times> 's) option" where
  "run_all step [] s = Some ([], s)"
| "run_all step (x # ops) s =
     (case step x s of
        None \<Rightarrow> None
      | Some (r, s') \<Rightarrow> map_option (\<lambda>(rs, s''). (r # rs, s'')) (run_all step ops s'))"

primrec run_abstract :: "('o \<Rightarrow> 'a \<Rightarrow> 'r \<times> 'a) \<Rightarrow> 'o list \<Rightarrow> 'a \<Rightarrow> 'r list \<times> 'a" where
  "run_abstract astep [] a = ([], a)"
| "run_abstract astep (x # ops) a =
     (let (r, a') = astep x a; (rs, a'') = run_abstract astep ops a' in (r # rs, a''))"

locale refinement =
  fixes ready :: "'o list \<Rightarrow> 's \<Rightarrow> bool"
    and abs_state :: "'s \<Rightarrow> 'a"
    and step :: "'o \<Rightarrow> 's \<Rightarrow> ('r \<times> 's) option"
    and astep :: "'o \<Rightarrow> 'a \<Rightarrow> 'r \<times> 'a"
  assumes step_refines: "ready (x # ops) s \<Longrightarrow>
    \<exists>r s'. step x s = Some (r, s') \<and> astep x (abs_state s) = (r, abs_state s') \<and> ready ops s'"
begin

lemma run_refines:
  "ready ops s \<Longrightarrow> \<exists>rs s'. run_all step ops s = Some (rs, s') \<and>
     run_abstract astep ops (abs_state s) = (rs, abs_state s') \<and> ready [] s'"
proof (induction ops arbitrary: s)
  case Nil
  then show ?case by simp
next
  case (Cons x ops)
  obtain r s' where s': "step x s = Some (r, s')" "astep x (abs_state s) = (r, abs_state s')"
    "ready ops s'"
    using step_refines [OF Cons.prems] by blast
  obtain rs s'' where "run_all step ops s' = Some (rs, s'')"
    "run_abstract astep ops (abs_state s') = (rs, abs_state s'')" "ready [] s''"
    using Cons.IH [OF s'(3)] by blast
  with s' show ?case by simp
qed

end

end
