(* ===== verification/Timestamps.thy ===== *)
theory Timestamps
  imports Prelude "HOL-Library.Product_Lexorder"
begin

text \<open>
  Timestamp columns. The stores write them in two formats: JavaScript's
  \<open>new Date().toISOString()\<close> (\<open>2025-01-31T12:00:00.000Z\<close>, millisecond resolution) and
  SQLite's \<open>datetime('now')\<close> (\<open>2025-01-31 12:00:00\<close>, second resolution). A column is TEXT,
  so \<open>ORDER BY\<close> compares the characters: first the date, then the separator (a blank is
  below \<open>T\<close>), then the time of day. A stamp carries the instant (seconds or milliseconds
  since the epoch) with its format, and the order below is that comparison of the
  characters, for the years 0 to 9999 that both formats print with four digits.
\<close>

datatype stamp = Sql_Stamp int | Iso_Stamp int

definition ms_per_day :: int where "ms_per_day = 86400000"

fun stamp_key :: "stamp \<Rightarrow> int \<times> int \<times> int" where
  "stamp_key (Sql_Stamp s) = (s div 86400, 0, s mod 86400)"
| "stamp_key (Iso_Stamp ms) = (ms div ms_per_day, 1, ms mod ms_per_day)"

lemma stamp_key_inj: "stamp_key a = stamp_key b \<Longrightarrow> a = b"
proof -
  have eq: "x = y" if "x div k = y div k" "x mod k = y mod k" for x y k :: int
    using that by (metis div_mult_mod_eq)
  show "stamp_key a = stamp_key b \<Longrightarrow> a = b"
    by (cases a; cases b) (auto intro: eq)
qed

instantiation stamp :: linorder
begin

definition less_eq_stamp :: "stamp \<Rightarrow> stamp \<Rightarrow> bool" where
  "less_eq_stamp a b \<longleftrightarrow> stamp_key a \<le> stamp_key b"

definition less_stamp :: "stamp \<Rightarrow> stamp \<Rightarrow> bool" where
  "less_stamp a b \<longleftrightarrow> stamp_key a < stamp_key b"

instance
  by standard (auto simp: less_eq_stamp_def less_stamp_def intro: stamp_key_inj)

end

text \<open>The instant a stamp denotes, in milliseconds since the epoch.\<close>

fun stamp_ms :: "stamp \<Rightarrow> int" where
  "stamp_ms (Sql_Stamp s) = s * 1000"
| "stamp_ms (Iso_Stamp ms) = ms"

text \<open>\<open>datetime('now')\<close> and \<open>toISOString()\<close> at a given instant.\<close>

definition sql_now :: "int \<Rightarrow> stamp" where
  "sql_now ms = Sql_Stamp (ms div 1000)"

definition iso_now :: "int \<Rightarrow> stamp" where
  "iso_now ms = Iso_Stamp ms"

text \<open>Within one format the order is the order of the instants.\<close>

lemma iso_stamp_le: "Iso_Stamp a \<le> Iso_Stamp b \<longleftrightarrow> a \<le> b"
proof -
  have "a \<le> b \<longleftrightarrow> a div k < b div k \<or> a div k = b div k \<and> a mod k \<le> b mod k" if "0 < k" for k :: int
  proof -
    have e: "x = k * (x div k) + x mod k" for x by simp
    have m: "0 \<le> x mod k" "x mod k < k" for x using that by auto
    consider "a div k < b div k" | "a div k = b div k" | "b div k < a div k" by linarith
    then show ?thesis
    proof cases
      case 1
      then have "k * (a div k + 1) \<le> k * (b div k)" using that by (intro mult_left_mono) auto
      then have "k * (a div k) + k \<le> k * (b div k)" by (simp add: distrib_left)
      then have "a \<le> b" using e[of a] e[of b] m[of a] m[of b] by linarith
      with 1 show ?thesis by simp
    next
      case 2
      have "a mod k = a - k * (a div k)" "b mod k = b - k * (b div k)"
        by (simp_all only: minus_mult_div_eq_mod)
      with 2 show ?thesis by simp
    next
      case 3
      then have "k * (b div k + 1) \<le> k * (a div k)" using that by (intro mult_left_mono) auto
      then have "k * (b div k) + k \<le> k * (a div k)" by (simp add: distrib_left)
      then have "b < a" using e[of a] e[of b] m[of a] m[of b] by linarith
      with 3 show ?thesis by simp
    qed
  qed
  from this [of ms_per_day] show ?thesis
    by (auto simp: less_eq_stamp_def ms_per_day_def)
qed

lemma iso_stamp_less: "Iso_Stamp a < Iso_Stamp b \<longleftrightarrow> a < b"
  using iso_stamp_le[of b a] by (simp add: linorder_not_le [symmetric])

text \<open>
  Across the formats it is not: on one calendar day every \<open>datetime('now')\<close> stamp sorts below
  every ISO stamp, whatever the time of day.
\<close>

lemma sql_below_iso_same_day:
  "s div 86400 = ms div ms_per_day \<Longrightarrow> Sql_Stamp s < Iso_Stamp ms"
  by (simp add: less_stamp_def)

end
