(* ===== verification/Session_Store.thy ===== *)
theory Session_Store
  imports Timestamps
begin

text \<open>
  \<open>packages/runtime/agent-runtime/src/session/session-store.ts\<close>: the sessions of an agent and
  their append-only, tree-shaped entry log. A session points at a leaf entry; every entry
  points at its parent; the LLM context is the path from the leaf to the root, cut at the
  most recent compaction. The database is a record of its two tables; each method of
  \<open>SessionStore\<close> is one definition that returns the new database. Times are arguments
  (milliseconds), as are the ids \<open>nanoid()\<close> returns. Walks along parent pointers may not
  end on arbitrary tables, so methods that walk return an option.
\<close>

section \<open>Rows\<close>

datatype role = User | Assistant | Tool_Result

record message_data =
  md_role :: role
  md_content :: json
  md_tool_call_id :: "string option"
  md_tool_name :: "string option"
  md_is_error :: "bool option"
  md_timestamp :: "int option"
  md_metadata :: "json option"

datatype entry_data =
    Message message_data
  | Compaction string id nat
  | Model_Change string string
  | Mode_Enter string
  | Mode_Exit string
  | Custom string json

record session =
  sid :: id
  sname :: string
  ssource :: string
  ssender :: "string option"
  sleaf :: "id option"
  sactive_mode :: "string option"
  screated :: stamp
  supdated :: stamp

record entry =
  eid :: id
  eparent :: "id option"
  esession :: id
  eseq :: nat
  edata :: entry_data
  ecreated :: stamp

record store =
  sessions :: "session list"
  entries :: "entry list"

datatype store_error =
    Session_Not_Found id
  | Entry_Not_Found id id
  | Create_Not_Retrieved id
  | Unique_Violation id

definition empty_store :: store where
  "empty_store = \<lparr>sessions = [], entries = []\<rparr>"

section \<open>Session CRUD\<close>

definition get_session :: "store \<Rightarrow> id \<Rightarrow> session option" where
  "get_session d s = get_row sid s (sessions d)"

definition create_session ::
  "store \<Rightarrow> id \<Rightarrow> int \<Rightarrow> string option \<Rightarrow> string option \<Rightarrow> string option \<Rightarrow>
    (store_error + session) \<times> store" where
  "create_session d nid now name source sender =
     (let row = \<lparr>sid = nid,
                 sname = (case name of None \<Rightarrow> '''' | Some n \<Rightarrow> n),
                 ssource = (case source of None \<Rightarrow> ''websocket'' | Some x \<Rightarrow> x),
                 ssender = sender, sleaf = None, sactive_mode = None,
                 screated = sql_now now, supdated = sql_now now\<rparr>
      in case insert_row sid row (sessions d) of
           None \<Rightarrow> (Inl (Unique_Violation nid), d)
         | Some rows \<Rightarrow>
             (let d' = d\<lparr>sessions := rows\<rparr>
              in case get_session d' nid of
                   None \<Rightarrow> (Inl (Create_Not_Retrieved nid), d')
                 | Some s \<Rightarrow> (Inr s, d')))"

definition find_by_source_and_sender :: "store \<Rightarrow> string \<Rightarrow> string \<Rightarrow> session option" where
  "find_by_source_and_sender d source sender =
     find (\<lambda>r. ssource r = source \<and> ssender r = Some sender) (sessions d)"

definition list_sessions :: "store \<Rightarrow> session list" where
  "list_sessions d = order_by_desc supdated (sessions d)"

text \<open>\<open>DELETE\<close> on a session removes its entries by the foreign key's \<open>ON DELETE CASCADE\<close>.\<close>

definition delete_session :: "store \<Rightarrow> id \<Rightarrow> store" where
  "delete_session d s =
     d\<lparr>sessions := delete_rows (\<lambda>r. sid r = s) (sessions d),
       entries := (if s \<in> sid ` set (sessions d)
                   then delete_rows (\<lambda>e. esession e = s) (entries d) else entries d)\<rparr>"

definition rename_session :: "store \<Rightarrow> id \<Rightarrow> string \<Rightarrow> int \<Rightarrow> store" where
  "rename_session d s name now =
     d\<lparr>sessions := update_rows (\<lambda>r. sid r = s)
          (\<lambda>r. r\<lparr>sname := name, supdated := sql_now now\<rparr>) (sessions d)\<rparr>"

section \<open>Entries\<close>

definition session_entries :: "store \<Rightarrow> id \<Rightarrow> entry list" where
  "session_entries d s = filter (\<lambda>e. esession e = s) (entries d)"

text \<open>\<open>SELECT COALESCE(MAX(seq), 0) + 1\<close>.\<close>

definition next_seq :: "store \<Rightarrow> id \<Rightarrow> nat" where
  "next_seq d s = Suc (foldr max (map eseq (session_entries d s)) 0)"

definition bump_leaf :: "id \<Rightarrow> int \<Rightarrow> entry_data \<Rightarrow> session \<Rightarrow> session" where
  "bump_leaf nid now dat r =
     (let r' = r\<lparr>sleaf := Some nid, supdated := iso_now now\<rparr>
      in case dat of
           Mode_Enter m \<Rightarrow> r'\<lparr>sactive_mode := Some m\<rparr>
         | Mode_Exit m \<Rightarrow> r'\<lparr>sactive_mode := None\<rparr>
         | _ \<Rightarrow> r')"

definition append_entry ::
  "store \<Rightarrow> id \<Rightarrow> entry_data \<Rightarrow> id \<Rightarrow> int \<Rightarrow> (store_error + entry) \<times> store" where
  "append_entry d s dat nid now =
     (case get_session d s of
        None \<Rightarrow> (Inl (Session_Not_Found s), d)
      | Some ses \<Rightarrow>
          (let e = \<lparr>eid = nid, eparent = sleaf ses, esession = s, eseq = next_seq d s,
                    edata = dat, ecreated = iso_now now\<rparr>
           in case insert_row eid e (entries d) of
                None \<Rightarrow> (Inl (Unique_Violation nid), d)
              | Some rows \<Rightarrow>
                  (Inr e,
                   d\<lparr>entries := rows,
                     sessions := update_rows (\<lambda>r. sid r = s) (bump_leaf nid now dat)
                                   (sessions d)\<rparr>)))"

definition get_entries :: "store \<Rightarrow> id \<Rightarrow> entry list" where
  "get_entries d s = order_by eseq (session_entries d s)"

definition default_page_limit :: nat where "default_page_limit = 100"

definition get_entries_paginated ::
  "store \<Rightarrow> id \<Rightarrow> nat option \<Rightarrow> nat option \<Rightarrow> entry list \<times> bool" where
  "get_entries_paginated d s lim after =
     (let limit = (case lim of None \<Rightarrow> default_page_limit | Some l \<Rightarrow> l);
          after_seq = (case after of None \<Rightarrow> 0 | Some a \<Rightarrow> a);
          rows = take (limit + 1)
                   (order_by eseq (filter (\<lambda>e. esession e = s \<and> after_seq < eseq e) (entries d)));
          has_more = limit < length rows
      in (if has_more then take limit rows else rows, has_more))"

section \<open>Walking the log\<close>

text \<open>\<open>new Map\<close> filled in the order of the entries: the last entry with an id wins.\<close>

definition entry_map :: "entry list \<Rightarrow> id \<Rightarrow> entry option" where
  "entry_map es i = find (\<lambda>e. eid e = i) (rev es)"

definition lookup_ref :: "entry list \<Rightarrow> id option \<Rightarrow> entry option" where
  "lookup_ref es r = (if truthy r then entry_map es (the r) else None)"

definition parent_entry :: "entry list \<Rightarrow> entry \<Rightarrow> entry option" where
  "parent_entry es e = lookup_ref es (eparent e)"

text \<open>The entries from the one with the given id up to the root, leaf first.\<close>

definition path_up :: "entry list \<Rightarrow> id \<Rightarrow> entry list option" where
  "path_up es leaf = chain (parent_entry es) (entry_map es leaf)"

text \<open>
  The search for the most recent compaction: from the end of the path (root first) down to
  index 0. The result is the index, the summary and the first kept id.
\<close>

fun last_compaction :: "entry list \<Rightarrow> nat \<Rightarrow> (nat \<times> string \<times> id) option" where
  "last_compaction path 0 = None"
| "last_compaction path (Suc i) =
     (case edata (path ! i) of
        Compaction summary kept _ \<Rightarrow> Some (i, summary, kept)
      | _ \<Rightarrow> last_compaction path i)"

fun find_index :: "('a \<Rightarrow> bool) \<Rightarrow> 'a list \<Rightarrow> nat option" where
  "find_index p [] = None"
| "find_index p (x # xs) = (if p x then Some 0 else map_option Suc (find_index p xs))"

record agent_message =
  am_role :: role
  am_content :: json
  am_tool_call_id :: "string option"
  am_tool_name :: "string option"
  am_is_error :: "bool option"
  am_timestamp :: int
  am_metadata :: "json option"

definition text_block :: "string \<Rightarrow> json" where
  "text_block t = JObj [(''type'', JStr ''text''), (''text'', JStr t)]"

definition to_agent_message :: "int \<Rightarrow> message_data \<Rightarrow> agent_message" where
  "to_agent_message now m =
     (let ts = (case md_timestamp m of None \<Rightarrow> now | Some t \<Rightarrow> t)
      in if md_role m = Tool_Result
         then \<lparr>am_role = Tool_Result,
               am_content = (case md_content m of JStr t \<Rightarrow> JArr [text_block t] | c \<Rightarrow> c),
               am_tool_call_id = Some (case md_tool_call_id m of None \<Rightarrow> '''' | Some i \<Rightarrow> i),
               am_tool_name = md_tool_name m, am_is_error = md_is_error m,
               am_timestamp = ts, am_metadata = md_metadata m\<rparr>
         else \<lparr>am_role = md_role m, am_content = md_content m, am_tool_call_id = None,
               am_tool_name = None, am_is_error = None,
               am_timestamp = ts, am_metadata = md_metadata m\<rparr>)"

definition summary_message :: "int \<Rightarrow> string \<Rightarrow> agent_message" where
  "summary_message now summary =
     \<lparr>am_role = User,
      am_content = JStr (''[Previous conversation summary]'' @ [CHR 0x0A, CHR 0x0A] @ summary),
      am_tool_call_id = None, am_tool_name = None, am_is_error = None,
      am_timestamp = now, am_metadata = None\<rparr>"

definition entry_message :: "int \<Rightarrow> entry \<Rightarrow> agent_message option" where
  "entry_message now e =
     (case edata e of Message m \<Rightarrow> Some (to_agent_message now m) | _ \<Rightarrow> None)"

definition context_of_path :: "int \<Rightarrow> entry list \<Rightarrow> agent_message list" where
  "context_of_path now path =
     (let (start, summary) =
        (case last_compaction path (length path) of
           None \<Rightarrow> (0, None)
         | Some (i, summary, kept) \<Rightarrow>
             ((case find_index (\<lambda>e. eid e = kept) path of Some k \<Rightarrow> k | None \<Rightarrow> i + 1),
              Some summary))
      in (if truthy summary then [summary_message now (the summary)] else []) @
         List.map_filter (entry_message now) (drop start path))"

definition build_context :: "store \<Rightarrow> id \<Rightarrow> int \<Rightarrow> agent_message list option" where
  "build_context d s now =
     (case get_session d s of
        None \<Rightarrow> Some []
      | Some ses \<Rightarrow>
          if \<not> truthy (sleaf ses) then Some []
          else let es = get_entries d s
               in if es = [] then Some []
                  else Option.bind (path_up es (the (sleaf ses)))
                         (\<lambda>up. Some (context_of_path now (rev up))))"

section \<open>Branches, modes and garbage collection\<close>

text \<open>\<open>walkActiveModeIdAt\<close>: the loop stops at the first mode change it meets.\<close>

partial_function (option) walk_mode :: "entry list \<Rightarrow> entry option \<Rightarrow> string option option" where
  "walk_mode es cur =
     (case cur of
        None \<Rightarrow> Some None
      | Some e \<Rightarrow>
          (case edata e of
             Mode_Exit m \<Rightarrow> Some None
           | Mode_Enter m \<Rightarrow> Some (Some m)
           | _ \<Rightarrow> walk_mode es (parent_entry es e)))"

definition walk_active_mode_at :: "store \<Rightarrow> id \<Rightarrow> id \<Rightarrow> string option option" where
  "walk_active_mode_at d s leaf =
     (let es = get_entries d s in walk_mode es (entry_map es leaf))"

definition branch ::
  "store \<Rightarrow> id \<Rightarrow> id \<Rightarrow> int \<Rightarrow> ((store_error + unit) \<times> store) option" where
  "branch d s from_id now =
     (case find (\<lambda>e. eid e = from_id \<and> esession e = s) (entries d) of
        None \<Rightarrow> Some (Inl (Entry_Not_Found from_id s), d)
      | Some _ \<Rightarrow>
          Option.bind (walk_active_mode_at d s from_id) (\<lambda>m.
            Some (Inr (), d\<lparr>sessions := update_rows (\<lambda>r. sid r = s)
              (\<lambda>r. r\<lparr>sleaf := Some from_id, supdated := sql_now now, sactive_mode := m\<rparr>)
              (sessions d)\<rparr>)))"

definition set_active_mode :: "store \<Rightarrow> id \<Rightarrow> string option \<Rightarrow> int \<Rightarrow> store" where
  "set_active_mode d s m now =
     d\<lparr>sessions := update_rows (\<lambda>r. sid r = s)
          (\<lambda>r. r\<lparr>sactive_mode := m, supdated := sql_now now\<rparr>) (sessions d)\<rparr>"

definition read_active_mode_id :: "store \<Rightarrow> id \<Rightarrow> string option" where
  "read_active_mode_id d s = Option.bind (get_session d s) sactive_mode"

definition gc :: "store \<Rightarrow> id \<Rightarrow> (nat \<times> store) option" where
  "gc d s =
     (case get_session d s of
        None \<Rightarrow> Some (0, d)
      | Some ses \<Rightarrow>
          if \<not> truthy (sleaf ses) then Some (0, d)
          else let es = get_entries d s
               in Option.bind (path_up es (the (sleaf ses))) (\<lambda>up.
                    let reachable = eid ` set up;
                        unreachable = filter (\<lambda>e. eid e \<notin> reachable) es
                    in if unreachable = [] then Some (0, d)
                       else Some (length unreachable,
                              d\<lparr>entries := delete_rows (\<lambda>e. eid e \<in> eid ` set unreachable)
                                             (entries d)\<rparr>)))"

section \<open>Well-formedness\<close>

text \<open>
  What the methods keep true of the tables: primary keys are unique; every entry belongs to
  a session, and its parent is an earlier entry of that session; sequence numbers are
  unique within a session; a leaf is an entry of its session.
\<close>

definition entry_of :: "store \<Rightarrow> id \<Rightarrow> id \<Rightarrow> entry \<Rightarrow> bool" where
  "entry_of d s i e \<longleftrightarrow> e \<in> set (entries d) \<and> eid e = i \<and> esession e = s"

definition wf_store :: "store \<Rightarrow> bool" where
  "wf_store d \<longleftrightarrow>
     distinct (map sid (sessions d)) \<and> distinct (map eid (entries d)) \<and>
     (\<forall>e \<in> set (entries d). eid e \<noteq> [] \<and> esession e \<in> sid ` set (sessions d)) \<and>
     (\<forall>e \<in> set (entries d). \<forall>p. eparent e = Some p \<longrightarrow>
        (\<exists>q. entry_of d (esession e) p q \<and> eseq q < eseq e)) \<and>
     (\<forall>e \<in> set (entries d). \<forall>f \<in> set (entries d).
        esession e = esession f \<longrightarrow> eseq e = eseq f \<longrightarrow> e = f) \<and>
     (\<forall>r \<in> set (sessions d). \<forall>l. sleaf r = Some l \<longrightarrow> (\<exists>e. entry_of d (sid r) l e))"

lemma wf_store_leaf:
  "wf_store d \<Longrightarrow> r \<in> set (sessions d) \<Longrightarrow> sleaf r = Some l \<Longrightarrow> \<exists>e. entry_of d (sid r) l e"
  unfolding wf_store_def by blast

lemma wf_store_parent:
  "wf_store d \<Longrightarrow> e \<in> set (entries d) \<Longrightarrow> eparent e = Some p \<Longrightarrow>
    \<exists>q. entry_of d (esession e) p q \<and> eseq q < eseq e"
  unfolding wf_store_def by blast

lemma wf_store_seq:
  "wf_store d \<Longrightarrow> e \<in> set (entries d) \<Longrightarrow> f \<in> set (entries d) \<Longrightarrow> esession e = esession f \<Longrightarrow>
    eseq e = eseq f \<Longrightarrow> e = f"
  unfolding wf_store_def by blast

lemma wf_store_keys:
  "wf_store d \<Longrightarrow> distinct (map sid (sessions d)) \<and> distinct (map eid (entries d))"
  unfolding wf_store_def by blast

lemma wf_store_entry:
  "wf_store d \<Longrightarrow> e \<in> set (entries d) \<Longrightarrow> eid e \<noteq> [] \<and> esession e \<in> sid ` set (sessions d)"
  unfolding wf_store_def by blast

definition wf_entries :: "entry list \<Rightarrow> bool" where
  "wf_entries es \<longleftrightarrow> distinct (map eid es) \<and> (\<forall>e \<in> set es. eid e \<noteq> []) \<and>
     (\<forall>e \<in> set es. \<forall>p. eparent e = Some p \<longrightarrow> (\<exists>q \<in> set es. eid q = p \<and> eseq q < eseq e))"

lemma entry_map_SomeD: "entry_map es i = Some e \<Longrightarrow> e \<in> set es \<and> eid e = i"
  by (auto simp: entry_map_def find_Some_iff rev_nth)

lemma entry_map_eq:
  assumes "distinct (map eid es)" "e \<in> set es"
  shows "entry_map es (eid e) = Some e"
proof -
  have "get_row eid (eid e) (rev es) = Some e"
    using assms by (intro get_row_member) (simp_all flip: rev_map)
  then show ?thesis by (simp add: entry_map_def get_row_def)
qed

lemma entry_map_None: "entry_map es i = None \<longleftrightarrow> i \<notin> eid ` set es"
  by (auto simp: entry_map_def find_None_iff)

lemma entry_map_snoc: "entry_map (es @ [e]) i = (if eid e = i then Some e else entry_map es i)"
  by (simp add: entry_map_def)

lemma parent_entry_SomeD:
  "parent_entry es e = Some q \<Longrightarrow> q \<in> set es \<and> eparent e = Some (eid q)"
  by (cases "eparent e")
    (auto simp: parent_entry_def lookup_ref_def dest: entry_map_SomeD split: if_splits)

interpretation entry_log: parent_log wf_entries set parent_entry "\<lambda>_. eseq"
proof
  fix es n p
  assume "wf_entries es" "n \<in> set es" "parent_entry es n = Some p"
  then show "p \<in> set es" by (simp add: parent_entry_SomeD)
next
  fix es n p
  assume *: "wf_entries es" "n \<in> set es" "parent_entry es n = Some p"
  then have "p \<in> set es" "eparent n = Some (eid p)" by (auto dest: parent_entry_SomeD)
  moreover from this * obtain q where q: "q \<in> set es" "eid q = eid p" "eseq q < eseq n"
    unfolding wf_entries_def by blast
  moreover have "inj_on eid (set es)" using * by (simp add: wf_entries_def distinct_map)
  ultimately have "q = p" by (auto dest: inj_onD)
  with q show "eseq p < eseq n" by simp
qed

lemma set_get_entries: "set (get_entries d s) = {e \<in> set (entries d). esession e = s}"
  by (auto simp: get_entries_def session_entries_def)

lemma distinct_get_entries:
  "distinct (map eid (entries d)) \<Longrightarrow> distinct (map eid (get_entries d s))"
  by (auto simp: get_entries_def session_entries_def order_by_def distinct_map
      intro: inj_on_subset)

lemma wf_get_entries:
  assumes "wf_store d"
  shows "wf_entries (get_entries d s)"
  unfolding wf_entries_def
proof (intro conjI ballI allI impI)
  show "distinct (map eid (get_entries d s))"
    using wf_store_keys [OF assms] by (simp add: distinct_get_entries)
next
  fix e assume "e \<in> set (get_entries d s)"
  then show "eid e \<noteq> []" using wf_store_entry [OF assms] by (simp add: set_get_entries)
next
  fix e p assume e: "e \<in> set (get_entries d s)" "eparent e = Some p"
  then have "e \<in> set (entries d)" "esession e = s" by (simp_all add: set_get_entries)
  with wf_store_parent [OF assms _ e(2)] obtain q where "entry_of d s p q" "eseq q < eseq e"
    by blast
  then show "\<exists>q \<in> set (get_entries d s). eid q = p \<and> eseq q < eseq e"
    by (metis (mono_tags, lifting) entry_of_def mem_Collect_eq set_get_entries)
qed

lemma get_session_SomeD: "get_session d s = Some r \<Longrightarrow> r \<in> set (sessions d) \<and> sid r = s"
  unfolding get_session_def by (rule get_row_SomeD)

lemma path_up_total:
  assumes "wf_store d" "entry_of d s i e"
  shows "\<exists>ns. path_up (get_entries d s) i = Some (e # ns) \<and> set (e # ns) \<subseteq> set (get_entries d s)"
proof -
  have e: "e \<in> set (get_entries d s)" "eid e = i"
    using assms by (auto simp: entry_of_def set_get_entries)
  moreover have wf: "wf_entries (get_entries d s)" using assms by (simp add: wf_get_entries)
  ultimately have "entry_map (get_entries d s) i = Some e"
    using entry_map_eq unfolding wf_entries_def by blast
  then show ?thesis
    using entry_log.chain_total [OF wf e(1)] e by (auto simp: path_up_def)
qed

text \<open>The path of a session, leaf first: what every walk of the class visits.\<close>

definition log_path :: "store \<Rightarrow> id \<Rightarrow> entry list option" where
  "log_path d s =
     (case get_session d s of
        None \<Rightarrow> Some []
      | Some ses \<Rightarrow> if truthy (sleaf ses) then path_up (get_entries d s) (the (sleaf ses))
                    else Some [])"

lemma log_path_total:
  assumes "wf_store d"
  shows "\<exists>up. log_path d s = Some up \<and> set up \<subseteq> set (get_entries d s)"
proof (cases "get_session d s")
  case None
  then show ?thesis by (simp add: log_path_def)
next
  case (Some r)
  then have r: "r \<in> set (sessions d)" "sid r = s" by (auto dest: get_session_SomeD)
  show ?thesis
  proof (cases "sleaf r")
    case None
    with Some show ?thesis by (simp add: log_path_def)
  next
    case (Some l)
    then obtain e where "entry_of d s l e" using wf_store_leaf [OF assms r(1)] r(2) by blast
    from path_up_total [OF assms this] Some \<open>get_session d s = Some r\<close> show ?thesis
      by (auto simp: log_path_def)
  qed
qed

lemma context_of_path_Nil [simp]: "context_of_path now [] = []"
  by (simp add: context_of_path_def)

lemma build_context_log_path:
  "build_context d s now = map_option (\<lambda>up. context_of_path now (rev up)) (log_path d s)"
proof (cases "get_session d s")
  case None
  then show ?thesis by (simp add: build_context_def log_path_def)
next
  case (Some r)
  then show ?thesis
    by (cases "get_entries d s")
      (simp_all add: build_context_def log_path_def path_up_def entry_map_def map_option_case
        Let_def split: option.split Option.bind_split)
qed

section \<open>Appending\<close>

lemma seq_bound: "e \<in> set (session_entries d s) \<Longrightarrow> eseq e < next_seq d s"
proof -
  have "x \<in> set xs \<Longrightarrow> x \<le> foldr max xs 0" for x :: nat and xs by (induction xs) auto
  then show "e \<in> set (session_entries d s) \<Longrightarrow> eseq e < next_seq d s"
    by (auto simp: next_seq_def le_imp_less_Suc)
qed

lemma append_entry_SomeD:
  assumes "append_entry d s dat nid now = (Inr e, d')"
  obtains ses where "get_session d s = Some ses"
    "e = \<lparr>eid = nid, eparent = sleaf ses, esession = s, eseq = next_seq d s,
          edata = dat, ecreated = iso_now now\<rparr>"
    "nid \<notin> eid ` set (entries d)" "entries d' = entries d @ [e]"
    "sessions d' = update_rows (\<lambda>r. sid r = s) (bump_leaf nid now dat) (sessions d)"
  using assms
  by (auto simp: append_entry_def Let_def dest!: insert_row_SomeD split: option.splits)

lemma append_entry_err: "append_entry d s dat nid now = (Inl err, d') \<Longrightarrow> d' = d"
  by (auto simp: append_entry_def Let_def split: option.splits)

lemma sid_bump_leaf [simp]: "sid (bump_leaf nid now dat r) = sid r"
  "sleaf (bump_leaf nid now dat r) = Some nid"
  by (auto simp: bump_leaf_def Let_def split: entry_data.splits)

lemma wf_append:
  assumes wf: "wf_store d" and nid: "nid \<noteq> []"
    and app: "append_entry d s dat nid now = (res, d')"
  shows "wf_store d'"
proof (cases res)
  case (Inl err)
  with app wf show ?thesis by (auto dest: append_entry_err)
next
  case (Inr e)
  with app obtain ses where ses: "get_session d s = Some ses"
    and e: "e = \<lparr>eid = nid, eparent = sleaf ses, esession = s, eseq = next_seq d s,
          edata = dat, ecreated = iso_now now\<rparr>"
    and fresh: "nid \<notin> eid ` set (entries d)" and ents: "entries d' = entries d @ [e]"
    and sess: "sessions d' = update_rows (\<lambda>r. sid r = s) (bump_leaf nid now dat) (sessions d)"
    by (metis append_entry_SomeD)
  have ids: "map sid (sessions d') = map sid (sessions d)"
    unfolding sess by (rule map_update_rows) simp
  then have sids: "sid ` set (sessions d') = sid ` set (sessions d)"
    by (metis list.set_map)
  have r: "ses \<in> set (sessions d)" "sid ses = s" using ses by (auto dest: get_session_SomeD)
  have low: "eseq f < next_seq d s" if "f \<in> set (entries d)" "esession f = s" for f
    using that by (intro seq_bound) (simp add: session_entries_def)
  have mono: "entry_of d t i q \<Longrightarrow> entry_of d' t i q" for t i q
    by (simp add: entry_of_def ents)
  have "entry_of d' s nid e" using e by (simp add: entry_of_def ents)
  have par: "\<exists>q. entry_of d' s p q \<and> eseq q < eseq e" if lf: "sleaf ses = Some p" for p
  proof -
    obtain q where "entry_of d s p q" using wf_store_leaf [OF wf r(1) lf] r(2) by blast
    then show ?thesis using low e mono by (auto simp: entry_of_def)
  qed
  have leafs: "\<exists>f. entry_of d' (sid q) l f" if "q \<in> set (sessions d')" "sleaf q = Some l" for q l
  proof -
    from that(1) obtain q0 where q0: "q0 \<in> set (sessions d)"
      "q = (if sid q0 = s then bump_leaf nid now dat q0 else q0)"
      by (auto simp: sess table_simps)
    show ?thesis
    proof (cases "sid q0 = s")
      case True
      with q0 that \<open>entry_of d' s nid e\<close> show ?thesis by auto
    next
      case False
      with q0 that wf_store_leaf [OF wf q0(1)] show ?thesis by (auto intro: mono)
    qed
  qed
  show ?thesis
    unfolding wf_store_def
  proof (intro conjI ballI allI impI)
    show "distinct (map sid (sessions d'))" using wf_store_keys [OF wf] ids by simp
    show "distinct (map eid (entries d'))" using wf_store_keys [OF wf] fresh e by (auto simp: ents)
  next
    fix f assume "f \<in> set (entries d')"
    then show "eid f \<noteq> []" "esession f \<in> sid ` set (sessions d')"
      using wf_store_entry [OF wf, of f] nid e r sids by (auto simp: ents)
  next
    fix f p assume f: "f \<in> set (entries d')" "eparent f = Some p"
    show "\<exists>q. entry_of d' (esession f) p q \<and> eseq q < eseq f"
    proof (cases "f = e")
      case True
      with f par e show ?thesis by simp
    next
      case False
      then have "f \<in> set (entries d)" using f by (simp add: ents)
      from wf_store_parent [OF wf this f(2)] mono show ?thesis by blast
    qed
  next
    fix f g assume fg: "f \<in> set (entries d')" "g \<in> set (entries d')"
      "esession f = esession g" "eseq f = eseq g"
    have "esession e = s" "eseq e = next_seq d s" using e by simp_all
    moreover have "eseq h \<noteq> next_seq d s" if "h \<in> set (entries d)" "esession h = s" for h
      using low [OF that] by simp
    ultimately have "f = e \<longleftrightarrow> g = e" using fg unfolding ents by (metis UnE empty_iff
        empty_set list.simps(15) set_append singletonD)
    with fg wf_store_seq [OF wf, of f g] show "f = g" by (auto simp: ents)
  next
    fix q l assume "q \<in> set (sessions d')" "sleaf q = Some l"
    then show "\<exists>f. entry_of d' (sid q) l f" by (rule leafs)
  qed
qed

section \<open>The other methods keep the tables well-formed\<close>

lemma wf_update_sessions:
  assumes wf: "wf_store d"
    and sid: "\<And>r. sid (f r) = sid r"
    and leaf: "\<And>r l. r \<in> set (sessions d) \<Longrightarrow> p r \<Longrightarrow> sleaf (f r) = Some l \<Longrightarrow>
      \<exists>e. entry_of d (sid r) l e"
  shows "wf_store (d\<lparr>sessions := update_rows p f (sessions d)\<rparr>)"
proof -
  let ?d = "d\<lparr>sessions := update_rows p f (sessions d)\<rparr>"
  have ids: "map sid (sessions ?d) = map sid (sessions d)"
    using sid by (simp add: map_update_rows)
  then have "sid ` set (sessions ?d) = sid ` set (sessions d)" by (metis list.set_map)
  moreover have "entry_of ?d = entry_of d" by (simp add: entry_of_def fun_eq_iff)
  moreover have "\<exists>e. entry_of d (sid r) l e" if "r \<in> set (sessions ?d)" "sleaf r = Some l" for r l
  proof -
    from that(1) obtain r0 where r0: "r0 \<in> set (sessions d)" "r = (if p r0 then f r0 else r0)"
      by (auto simp: table_simps)
    with that(2) leaf wf_store_leaf [OF wf r0(1)] sid show ?thesis by (cases "p r0") auto
  qed
  ultimately show ?thesis using wf ids unfolding wf_store_def by simp
qed

lemma wf_create:
  assumes wf: "wf_store d" and c: "create_session d nid now nm src sender = (res, d')"
  shows "wf_store d'"
proof (cases "d' = d")
  case True
  with wf show ?thesis by simp
next
  case False
  with c obtain row where rows: "insert_row sid row (sessions d) = Some (sessions d')"
    and leaf: "sleaf row = None" and ents: "entries d' = entries d"
    by (auto simp: create_session_def Let_def split: option.splits)
  then have ss: "sessions d' = sessions d @ [row]" by (auto dest: insert_row_SomeD)
  have "entry_of d' = entry_of d" by (simp add: entry_of_def fun_eq_iff ents)
  moreover have "distinct (map sid (sessions d'))"
    using insert_row_distinct [OF rows] wf_store_keys [OF wf] by blast
  ultimately show ?thesis using wf leaf unfolding wf_store_def by (auto simp: ents ss)
qed

lemma wf_rename: "wf_store d \<Longrightarrow> wf_store (rename_session d s nm now)"
  unfolding rename_session_def
  by (rule wf_update_sessions) (auto dest: wf_store_leaf)

lemma wf_set_mode: "wf_store d \<Longrightarrow> wf_store (set_active_mode d s m now)"
  unfolding set_active_mode_def
  by (rule wf_update_sessions) (auto dest: wf_store_leaf)

text \<open>Removing a set of entries that is closed under the references that remain.\<close>

lemma wf_delete_entries:
  assumes wf: "wf_store d"
    and ss: "set ss \<subseteq> set (sessions d)" "distinct (map sid ss)"
    and sess: "\<And>e. e \<in> set (entries d) \<Longrightarrow> \<not> p e \<Longrightarrow> esession e \<in> sid ` set ss"
    and par: "\<And>e q. e \<in> set (entries d) \<Longrightarrow> \<not> p e \<Longrightarrow> eparent e = Some (eid q) \<Longrightarrow>
      q \<in> set (entries d) \<Longrightarrow> esession q = esession e \<Longrightarrow> \<not> p q"
    and leaf: "\<And>r e. r \<in> set ss \<Longrightarrow> e \<in> set (entries d) \<Longrightarrow> esession e = sid r \<Longrightarrow>
      sleaf r = Some (eid e) \<Longrightarrow> \<not> p e"
  shows "wf_store \<lparr>sessions = ss, entries = delete_rows p (entries d)\<rparr>"
  unfolding wf_store_def
proof (intro conjI ballI allI impI)
  let ?d = "\<lparr>sessions = ss, entries = delete_rows p (entries d)\<rparr>"
  show "distinct (map sid (sessions ?d))" using ss by simp
  show "distinct (map eid (entries ?d))"
    using wf_store_keys [OF wf] by (simp add: delete_rows_distinct)
  fix e assume e: "e \<in> set (entries ?d)"
  then have e': "e \<in> set (entries d)" "\<not> p e" by (auto simp: table_simps)
  then show "eid e \<noteq> []" "esession e \<in> sid ` set (sessions ?d)"
    using wf_store_entry [OF wf] sess by auto
  { fix i assume i: "eparent e = Some i"
    obtain q where q: "entry_of d (esession e) i q" "eseq q < eseq e"
      using wf_store_parent [OF wf e'(1) i] by blast
    then have "q \<in> set (entries d)" "eid q = i" "esession q = esession e"
      by (auto simp: entry_of_def)
    with par [OF e', of q] i q have "entry_of ?d (esession e) i q"
      by (simp add: entry_of_def table_simps)
    with q show "\<exists>q. entry_of ?d (esession e) i q \<and> eseq q < eseq e" by blast }
  { fix f assume "f \<in> set (entries ?d)" "esession e = esession f" "eseq e = eseq f"
    with e' wf_store_seq [OF wf] show "e = f" by (auto simp: table_simps) }
next
  let ?d = "\<lparr>sessions = ss, entries = delete_rows p (entries d)\<rparr>"
  fix r l assume r: "r \<in> set (sessions ?d)" "sleaf r = Some l"
  then have "r \<in> set (sessions d)" using ss by auto
  with wf_store_leaf [OF wf _ r(2)] obtain e where e: "entry_of d (sid r) l e" by blast
  then have "e \<in> set (entries d)" "eid e = l" "esession e = sid r" by (auto simp: entry_of_def)
  with leaf [of r e] r have "\<not> p e" by simp
  with e have "entry_of ?d (sid r) l e" by (simp add: entry_of_def table_simps)
  then show "\<exists>e. entry_of ?d (sid r) l e" by blast
qed

lemma wf_delete_session:
  assumes wf: "wf_store d"
  shows "wf_store (delete_session d s)"
proof -
  have eq: "delete_session d s = \<lparr>sessions = delete_rows (\<lambda>r. sid r = s) (sessions d),
      entries = delete_rows (\<lambda>e. esession e = s) (entries d)\<rparr>"
  proof (cases "s \<in> sid ` set (sessions d)")
    case True
    then show ?thesis by (simp add: delete_session_def)
  next
    case False
    then have "esession e \<noteq> s" if "e \<in> set (entries d)" for e
      using wf_store_entry [OF wf that] by auto
    then have "delete_rows (\<lambda>e. esession e = s) (entries d) = entries d"
      by (simp add: delete_rows_def)
    with False show ?thesis by (simp add: delete_session_def)
  qed
  show ?thesis unfolding eq
  proof (rule wf_delete_entries [OF wf])
    show "distinct (map sid (delete_rows (\<lambda>r. sid r = s) (sessions d)))"
      using wf_store_keys [OF wf] by (simp add: delete_rows_distinct)
    fix e assume "e \<in> set (entries d)" "\<not> esession e = s"
    then show "esession e \<in> sid ` set (delete_rows (\<lambda>r. sid r = s) (sessions d))"
      using wf_store_entry [OF wf] by (fastforce simp: table_simps)
  qed (auto simp: table_simps)
qed

lemma walk_mode_returns:
  assumes wf: "wf_store d" and e: "entry_of d s i e"
  shows "\<exists>m. walk_active_mode_at d s i = Some m"
proof -
  have "\<exists>m. walk_mode es cur = Some m" if "chain (parent_entry es) cur = Some ns" for es cur ns
    using that
  proof (induction ns arbitrary: cur)
    case Nil
    then show ?case by (simp add: chain_Nil_iff walk_mode.simps)
  next
    case (Cons a ns)
    then show ?case
      by (subst walk_mode.simps) (auto simp: chain_Cons_iff split: entry_data.split)
  qed
  with path_up_total [OF assms] show ?thesis
    by (auto simp: walk_active_mode_at_def path_up_def Let_def)
qed

lemma branch_SomeD:
  assumes "branch d s i now = Some (res, d')"
  shows "d' = d \<and> (\<exists>err. res = Inl err) \<or>
    (\<exists>m e. entry_of d s i e \<and> walk_active_mode_at d s i = Some m \<and> res = Inr () \<and>
       d' = d\<lparr>sessions := update_rows (\<lambda>r. sid r = s)
              (\<lambda>r. r\<lparr>sleaf := Some i, supdated := sql_now now, sactive_mode := m\<rparr>)
              (sessions d)\<rparr>)"
  using assms
  by (auto simp: branch_def entry_of_def find_Some_iff bind_eq_Some_conv split: option.splits
      dest!: nth_mem)

lemma wf_branch:
  assumes wf: "wf_store d" and b: "branch d s i now = Some (res, d')"
  shows "wf_store d'"
  using branch_SomeD [OF b]
proof (elim disjE conjE exE)
  fix m e assume e: "entry_of d s i e"
    and d': "d' = d\<lparr>sessions := update_rows (\<lambda>r. sid r = s)
              (\<lambda>r. r\<lparr>sleaf := Some i, supdated := sql_now now, sactive_mode := m\<rparr>)
              (sessions d)\<rparr>"
  show ?thesis unfolding d' by (rule wf_update_sessions [OF wf]) (use e in auto)
qed (use wf in simp)

section \<open>Effect of the methods on the path of a session\<close>

lemma chain_closed:
  "chain f cur = Some ns \<Longrightarrow> n \<in> set ns \<Longrightarrow> f n = Some m \<Longrightarrow> m \<in> set ns"
proof (induction ns arbitrary: cur)
  case (Cons a ns)
  then show ?case by (cases ns) (auto simp: chain_Cons_iff chain_Nil_iff)
qed simp

lemma entry_map_filter:
  assumes "distinct (map eid es)" "\<And>q. entry_map es i = Some q \<Longrightarrow> P q"
  shows "entry_map (filter P es) i = entry_map es i"
proof (cases "entry_map es i")
  case None
  then have "i \<notin> eid ` set (filter P es)" by (auto simp: entry_map_None)
  then have "entry_map (filter P es) i = None" by (simp only: entry_map_None not_False_eq_True)
  with None show ?thesis by simp
next
  case (Some q)
  then have q: "q \<in> set (filter P es)" "eid q = i" using assms entry_map_SomeD by fastforce+
  have "distinct (map eid (filter P es))" using assms(1) by (rule distinct_map_filter)
  from entry_map_eq [OF this q(1)] Some q show ?thesis by simp
qed

lemma path_up_filter:
  assumes "wf_entries es" "path_up es i = Some up"
    and P: "\<And>e. e \<in> set up \<Longrightarrow> P e"
  shows "path_up (filter P es) i = Some up"
proof -
  have dist: "distinct (map eid es)" using assms(1) by (simp add: wf_entries_def)
  have c: "chain (parent_entry es) (entry_map es i) = Some up"
    using assms(2) by (simp add: path_up_def)
  have "entry_map (filter P es) i = entry_map es i"
    using c P by (intro entry_map_filter [OF dist]) (auto simp: chain_Some bind_eq_Some_conv)
  moreover have "parent_entry (filter P es) n = parent_entry es n" if "n \<in> set up" for n
    unfolding parent_entry_def lookup_ref_def
    using P chain_closed [OF c that] entry_map_filter [OF dist, of "the (eparent n)" P]
    by (auto simp: parent_entry_def lookup_ref_def)
  ultimately show ?thesis using chain_fuel_free [OF c] by (simp add: path_up_def)
qed

lemma path_up_snoc:
  assumes "path_up es i = Some up" "\<And>n. n \<in> set up \<Longrightarrow> eparent n \<noteq> Some (eid e)" "i \<noteq> eid e"
  shows "path_up (es @ [e]) i = Some up"
proof -
  have c: "chain (parent_entry es) (entry_map es i) = Some up"
    using assms(1) by (simp add: path_up_def)
  have "parent_entry (es @ [e]) n = parent_entry es n" if "n \<in> set up" for n
    using assms(2)[OF that]
    by (cases "eparent n") (auto simp: parent_entry_def lookup_ref_def entry_map_snoc)
  with chain_fuel_free [OF c] assms(3) show ?thesis by (simp add: path_up_def entry_map_snoc)
qed

lemma log_path_cong:
  "map_option sleaf (get_session d' s) = map_option sleaf (get_session d s) \<Longrightarrow>
   get_entries d' s = get_entries d s \<Longrightarrow> log_path d' s = log_path d s"
  by (cases "get_session d s"; cases "get_session d' s") (auto simp: log_path_def)

lemma get_session_update:
  assumes "\<And>r. sid (f r) = sid r"
  shows "get_session (d\<lparr>sessions := update_rows p f (sessions d)\<rparr>) s =
    map_option (\<lambda>r. if p r then f r else r) (get_session d s)"
  using assms by (simp add: get_session_def get_row_update)

lemma get_entries_sessions [simp]: "get_entries (d\<lparr>sessions := x\<rparr>) s = get_entries d s"
  by (simp add: get_entries_def session_entries_def)

lemma log_path_update_sessions:
  assumes "\<And>r. sid (f r) = sid r" "\<And>r. sleaf (f r) = sleaf r"
  shows "log_path (d\<lparr>sessions := update_rows p f (sessions d)\<rparr>) s = log_path d s"
  by (rule log_path_cong)
    (auto simp: get_session_update assms option.map_comp intro!: option.map_cong)

lemma append_entry_row:
  assumes "append_entry d s dat nid now = (Inr e, d')"
  shows "eid e = nid" "esession e = s" "eseq e = next_seq d s" "edata e = dat"
    "entries d' = entries d @ [e]"
    "sessions d' = update_rows (\<lambda>r. sid r = s) (bump_leaf nid now dat) (sessions d)"
  by (rule append_entry_SomeD [OF assms], simp)+

lemma get_entries_append:
  assumes app: "append_entry d s dat nid now = (Inr e, d')"
  shows "get_entries d' t = get_entries d t @ (if t = s then [e] else [])"
proof -
  note e = append_entry_row(2,3) [OF app] and ents = append_entry_row(5) [OF app]
  have "order_by eseq (session_entries d s @ [e]) = get_entries d s @ [e]"
    unfolding get_entries_def using seq_bound e by (intro order_by_snoc_max) auto
  with e ents show ?thesis by (auto simp: get_entries_def session_entries_def)
qed

lemma get_session_append:
  assumes app: "append_entry d s dat nid now = (Inr e, d')"
  shows "get_session d' t =
    map_option (\<lambda>r. if sid r = s then bump_leaf nid now dat r else r) (get_session d t)"
  by (simp add: get_session_def get_row_update append_entry_row(6) [OF app])

text \<open>Appending puts the new entry in front of the path of its session and touches no other.\<close>

lemma log_path_append:
  assumes wf: "wf_store d" and nid: "nid \<noteq> []"
    and app: "append_entry d s dat nid now = (Inr e, d')"
  shows "log_path d' t = (if t = s then map_option ((#) e) (log_path d t) else log_path d t)"
proof (cases "t = s")
  case False
  have "map_option sleaf (get_session d' t) = map_option sleaf (get_session d t)"
    using False get_session_SomeD [of d t]
    by (cases "get_session d t") (auto simp: get_session_append [OF app])
  moreover have "get_entries d' t = get_entries d t"
    using False get_entries_append [OF app, of t] by simp
  ultimately have "log_path d' t = log_path d t" by (rule log_path_cong)
  with False show ?thesis by simp
next
  case True
  from app obtain ses where ses: "get_session d s = Some ses"
    and e: "e = \<lparr>eid = nid, eparent = sleaf ses, esession = s, eseq = next_seq d s,
          edata = dat, ecreated = iso_now now\<rparr>"
    and fresh: "nid \<notin> eid ` set (entries d)"
    by (metis append_entry_SomeD)
  obtain up where up: "log_path d s = Some up" "set up \<subseteq> set (get_entries d s)"
    using log_path_total [OF wf] by blast
  let ?es = "get_entries d s"
  have noref: "eparent n \<noteq> Some nid" if "n \<in> set (entries d)" for n
    using wf_store_parent [OF wf that] fresh by (force simp: entry_of_def)
  have leafref: "sleaf ses \<noteq> Some nid"
    using wf_store_leaf [OF wf, of ses] fresh get_session_SomeD [OF ses]
    by (force simp: entry_of_def)
  have "sid ses = s" using get_session_SomeD [OF ses] by simp
  have leaf': "get_session d' s = Some (bump_leaf nid now dat ses)"
    using get_session_append [OF app, of s] ses \<open>sid ses = s\<close> by simp
  have rest: "chain (parent_entry (?es @ [e])) (parent_entry (?es @ [e]) e) = Some up"
  proof (cases "truthy (sleaf ses)")
    case True
    then obtain l where l: "sleaf ses = Some l" "l \<noteq> []" by (cases "sleaf ses") auto
    then have "path_up ?es l = Some up" using up ses by (simp add: log_path_def)
    then have "path_up (?es @ [e]) l = Some up"
      using up noref leafref l e by (intro path_up_snoc) (auto simp: set_get_entries)
    then show ?thesis using l e by (simp add: path_up_def parent_entry_def lookup_ref_def)
  next
    case False
    then show ?thesis using up ses e
      by (auto simp: log_path_def parent_entry_def lookup_ref_def)
  qed
  have "path_up (?es @ [e]) nid = Some (e # up)"
    using rest e by (simp add: path_up_def entry_map_snoc chain_Some)
  then show ?thesis
    using True up leaf' nid get_entries_append [OF app, of s] by (simp add: log_path_def)
qed

section \<open>Garbage collection\<close>

definition gc_keep :: "id \<Rightarrow> entry list \<Rightarrow> entry \<Rightarrow> bool" where
  "gc_keep s up e \<longleftrightarrow> (esession e = s \<longrightarrow> e \<in> set up)"

definition has_leaf :: "store \<Rightarrow> id \<Rightarrow> bool" where
  "has_leaf d s \<longleftrightarrow> (\<exists>r. get_session d s = Some r \<and> truthy (sleaf r))"

lemma store_entries_cong: "a = b \<Longrightarrow> d\<lparr>entries := a\<rparr> = (d::store)\<lparr>entries := b\<rparr>"
  by simp

lemma gc_eq:
  assumes wf: "wf_store d" and up: "log_path d s = Some up"
  shows "gc d s = Some (if has_leaf d s
    then (length (filter (\<lambda>e. \<not> gc_keep s up e) (entries d)),
          d\<lparr>entries := filter (gc_keep s up) (entries d)\<rparr>)
    else (0, d))"
proof (cases "has_leaf d s")
  case False
  then show ?thesis by (auto simp: gc_def has_leaf_def split: option.split)
next
  case True
  then obtain r where r: "get_session d s = Some r" "truthy (sleaf r)" by (auto simp: has_leaf_def)
  let ?es = "get_entries d s" and ?un = "filter (\<lambda>e. eid e \<notin> eid ` set up) (get_entries d s)"
  have path: "path_up ?es (the (sleaf r)) = Some up" using up r by (simp add: log_path_def)
  have sub: "set up \<subseteq> set ?es" using log_path_total [OF wf, of s] up by simp
  have inj: "inj_on eid (set (entries d))"
    using wf_store_keys [OF wf] by (simp add: distinct_map)
  have in_up: "eid e \<in> eid ` set up \<longleftrightarrow> e \<in> set up" if "e \<in> set (entries d)" for e
    using that inj sub by (auto simp: set_get_entries dest: inj_onD)
  have gone: "eid e \<in> eid ` set ?un \<longleftrightarrow> \<not> gc_keep s up e" if "e \<in> set (entries d)" for e
  proof
    assume "eid e \<in> eid ` set ?un"
    then obtain f where f: "f \<in> set ?un" "eid f = eid e" by auto
    then have "f \<in> set (entries d)" "esession f = s" by (auto simp: set_get_entries)
    with f that inj have "f = e" by (auto dest: inj_onD)
    with f in_up that show "\<not> gc_keep s up e" by (auto simp: gc_keep_def set_get_entries)
  next
    assume "\<not> gc_keep s up e"
    then have "e \<in> set ?un" using in_up that by (auto simp: gc_keep_def set_get_entries)
    then show "eid e \<in> eid ` set ?un" by (rule imageI)
  qed
  have del: "delete_rows (\<lambda>e. eid e \<in> eid ` set ?un) (entries d) = filter (gc_keep s up) (entries d)"
    unfolding delete_rows_def by (rule filter_cong [OF refl]) (use gone in blast)
  have "length ?un = length (filter (\<lambda>e. eid e \<notin> eid ` set up) (session_entries d s))"
    unfolding get_entries_def order_by_def by (metis filter_sort length_sort)
  also have "filter (\<lambda>e. eid e \<notin> eid ` set up) (session_entries d s) =
      filter (\<lambda>e. \<not> gc_keep s up e) (entries d)"
    unfolding session_entries_def filter_filter
    by (rule filter_cong) (auto simp: in_up gc_keep_def)
  finally have len: "length ?un = length (filter (\<lambda>e. \<not> gc_keep s up e) (entries d))" .
  have "gc d s = Some (if ?un = [] then (0, d) else (length ?un,
      d\<lparr>entries := delete_rows (\<lambda>e. eid e \<in> eid ` set ?un) (entries d)\<rparr>))"
    using r path by (simp add: gc_def Let_def)
  moreover have "d\<lparr>entries := filter (gc_keep s up) (entries d)\<rparr> = d" if "?un = []"
    using that del by (simp add: delete_rows_def)
  ultimately show ?thesis using True len del by auto
qed

lemma wf_gc:
  assumes wf: "wf_store d" and g: "gc d s = Some (n, d')"
  shows "wf_store d'"
proof -
  obtain up where up: "log_path d s = Some up" "set up \<subseteq> set (get_entries d s)"
    using log_path_total [OF wf] by blast
  show ?thesis
  proof (cases "has_leaf d s")
    case False
    then show ?thesis using gc_eq [OF wf up(1)] g wf by simp
  next
    case True
    then obtain ses where ses: "get_session d s = Some ses" "truthy (sleaf ses)"
      by (auto simp: has_leaf_def)
    then have path: "chain (parent_entry (get_entries d s))
        (entry_map (get_entries d s) (the (sleaf ses))) = Some up"
      using up by (simp add: log_path_def path_up_def)
    have dist: "distinct (map eid (get_entries d s))"
      using wf_get_entries [OF wf] by (simp add: wf_entries_def)
    have "wf_store \<lparr>sessions = sessions d,
        entries = delete_rows (\<lambda>e. \<not> gc_keep s up e) (entries d)\<rparr>"
    proof (rule wf_delete_entries [OF wf])
      show "distinct (map sid (sessions d))" using wf_store_keys [OF wf] by blast
      fix e assume "e \<in> set (entries d)"
      then show "esession e \<in> sid ` set (sessions d)" using wf_store_entry [OF wf] by blast
    next
      fix e q assume e: "e \<in> set (entries d)" "\<not> \<not> gc_keep s up e" "eparent e = Some (eid q)"
        "q \<in> set (entries d)" "esession q = esession e"
      show "\<not> \<not> gc_keep s up q"
      proof (cases "esession e = s")
        case True
        then have q: "q \<in> set (get_entries d s)" using e by (simp add: set_get_entries)
        have "eid q \<noteq> []" using wf_store_entry [OF wf e(4)] by simp
        then have "parent_entry (get_entries d s) e = Some q"
          using e(3) entry_map_eq [OF dist q] by (simp add: parent_entry_def lookup_ref_def)
        moreover have "e \<in> set up" using True e by (simp add: gc_keep_def)
        ultimately show ?thesis using chain_closed [OF path] by (simp add: gc_keep_def)
      qed (use e in \<open>simp add: gc_keep_def\<close>)
    next
      fix r e assume r: "r \<in> set (sessions d)" "e \<in> set (entries d)" "esession e = sid r"
        "sleaf r = Some (eid e)"
      show "\<not> \<not> gc_keep s up e"
      proof (cases "sid r = s")
        case True
        then have "get_session d s = Some r"
          using get_row_member [OF _ r(1)] wf_store_keys [OF wf] by (auto simp: get_session_def)
        then have "r = ses" using ses by simp
        moreover have "entry_map (get_entries d s) (eid e) = Some e"
          using True r by (intro entry_map_eq [OF dist]) (simp add: set_get_entries)
        ultimately have "e \<in> set up" using path r by (auto simp: chain_Some bind_eq_Some_conv)
        then show ?thesis by (simp add: gc_keep_def)
      qed (use r in \<open>simp add: gc_keep_def\<close>)
    qed auto
    moreover have "d' = \<lparr>sessions = sessions d,
        entries = delete_rows (\<lambda>e. \<not> gc_keep s up e) (entries d)\<rparr>"
      using gc_eq [OF wf up(1)] g True by (cases d) (simp add: delete_rows_def)
    ultimately show ?thesis by simp
  qed
qed

lemma get_entries_filter:
  "get_entries (d\<lparr>entries := filter P (entries d)\<rparr>) t = filter P (get_entries d t)"
  by (simp add: get_entries_def session_entries_def order_by_def filter_sort conj_commute)

lemma log_path_gc:
  assumes wf: "wf_store d" and g: "gc d s = Some (n, d')"
  shows "log_path d' t = log_path d t"
proof -
  obtain up where up: "log_path d s = Some up" using log_path_total [OF wf] by blast
  obtain vs where vs: "log_path d t = Some vs" "set vs \<subseteq> set (get_entries d t)"
    using log_path_total [OF wf] by blast
  show ?thesis
  proof (cases "has_leaf d s")
    case False
    then show ?thesis using gc_eq [OF wf up] g by simp
  next
    case True
    then have d': "d' = d\<lparr>entries := filter (gc_keep s up) (entries d)\<rparr>"
      using gc_eq [OF wf up] g by simp
    have keep: "gc_keep s up e" if "e \<in> set vs" for e
      using that vs up by (auto simp: gc_keep_def set_get_entries)
    have "path_up (get_entries d' t) l = Some vs" if "path_up (get_entries d t) l = Some vs" for l
      unfolding d' get_entries_filter
      by (rule path_up_filter [OF wf_get_entries [OF wf] that]) (rule keep)
    moreover have "get_session d' t = get_session d t" by (simp add: d' get_session_def)
    ultimately show ?thesis using vs(1) by (auto simp: log_path_def split: option.splits if_splits)
  qed
qed

section \<open>The mode cache\<close>

text \<open>The mode the log records: the most recent mode change on the path decides.\<close>

fun first_mode :: "entry list \<Rightarrow> string option" where
  "first_mode [] = None"
| "first_mode (e # es) =
     (case edata e of Mode_Exit _ \<Rightarrow> None | Mode_Enter m \<Rightarrow> Some m | _ \<Rightarrow> first_mode es)"

lemma walk_mode_first_mode:
  "chain (parent_entry es) cur = Some ns \<Longrightarrow> walk_mode es cur = Some (first_mode ns)"
proof (induction ns arbitrary: cur)
  case Nil
  then show ?case by (simp add: chain_Nil_iff walk_mode.simps)
next
  case (Cons a ns)
  then show ?case by (subst walk_mode.simps) (auto simp: chain_Cons_iff split: entry_data.split)
qed

definition modes_synced :: "store \<Rightarrow> bool" where
  "modes_synced d \<longleftrightarrow>
     (\<forall>r \<in> set (sessions d). map_option first_mode (log_path d (sid r)) = Some (sactive_mode r))"

lemma modes_synced_update:
  assumes "modes_synced d" "\<And>r. sid (f r) = sid r" "\<And>r. sleaf (f r) = sleaf r"
    "\<And>r. sactive_mode (f r) = sactive_mode r"
  shows "modes_synced (d\<lparr>sessions := update_rows p f (sessions d)\<rparr>)"
  using assms by (auto simp: modes_synced_def log_path_update_sessions table_simps)

lemma modes_synced_append:
  assumes wf: "wf_store d" and sy: "modes_synced d" and nid: "nid \<noteq> []"
    and app: "append_entry d s dat nid now = (res, d')"
  shows "modes_synced d'"
proof (cases res)
  case (Inl err)
  with app sy show ?thesis by (auto dest: append_entry_err)
next
  case (Inr e)
  note app = app [unfolded Inr]
  have mode: "sactive_mode (bump_leaf nid now dat r) = first_mode (e # up)"
    if "sactive_mode r = first_mode up" for r up
    using that append_entry_row(4) [OF app]
    by (auto simp: bump_leaf_def Let_def split: entry_data.splits)
  show ?thesis
    unfolding modes_synced_def
  proof
    fix q assume "q \<in> set (sessions d')"
    then obtain r where r: "r \<in> set (sessions d)"
      "q = (if sid r = s then bump_leaf nid now dat r else r)"
      by (auto simp: append_entry_row(6) [OF app] table_simps)
    then have "map_option first_mode (log_path d (sid r)) = Some (sactive_mode r)"
      using sy by (simp add: modes_synced_def)
    then obtain up where "log_path d (sid r) = Some up" "sactive_mode r = first_mode up" by auto
    then show "map_option first_mode (log_path d' (sid q)) = Some (sactive_mode q)"
      using r mode [of r up] log_path_append [OF wf nid app] by (cases "sid r = s") auto
  qed
qed

lemma modes_synced_create:
  assumes sy: "modes_synced d" and c: "create_session d nid now nm src sender = (res, d')"
  shows "modes_synced d'"
proof (cases "d' = d")
  case True
  with sy show ?thesis by simp
next
  case False
  with c obtain row where rows: "insert_row sid row (sessions d) = Some (sessions d')"
    and row: "sleaf row = None" "sactive_mode row = None" and ents: "entries d' = entries d"
    by (auto simp: create_session_def Let_def split: option.splits)
  then have ss: "sessions d' = sessions d @ [row]" "sid row \<notin> sid ` set (sessions d)"
    by (auto dest: insert_row_SomeD)
  have ge: "get_entries d' t = get_entries d t" for t
    by (simp add: get_entries_def session_entries_def ents)
  have "log_path d' (sid r) = log_path d (sid r)" if "r \<in> set (sessions d)" for r
  proof (rule log_path_cong [OF _ ge])
    have "get_session d (sid r) \<noteq> None"
      using that by (auto simp: get_session_def get_row_None_iff)
    then show "map_option sleaf (get_session d' (sid r)) = map_option sleaf (get_session d (sid r))"
      by (auto simp: get_session_def ss get_row_append)
  qed
  moreover have "log_path d' (sid row) = Some []"
  proof -
    have "get_session d (sid row) = None" using ss by (simp add: get_session_def get_row_None_iff)
    then have "get_session d' (sid row) = Some row"
      by (simp add: get_session_def ss get_row_append table_simps)
    then show ?thesis using row by (simp add: log_path_def)
  qed
  ultimately show ?thesis using sy row by (auto simp: modes_synced_def ss)
qed

lemma modes_synced_delete:
  assumes wf: "wf_store d" and sy: "modes_synced d"
  shows "modes_synced (delete_session d s)"
  unfolding modes_synced_def
proof
  fix r assume "r \<in> set (sessions (delete_session d s))"
  then have r: "r \<in> set (sessions d)" "sid r \<noteq> s" by (auto simp: delete_session_def table_simps)
  have "log_path (delete_session d s) (sid r) = log_path d (sid r)"
  proof (rule log_path_cong)
    have "get_session (delete_session d s) (sid r) = get_session d (sid r)"
      using r wf_store_keys [OF wf]
      by (auto simp: delete_session_def get_session_def get_row_delete dest: get_row_SomeD
          split: option.splits)
    then show "map_option sleaf (get_session (delete_session d s) (sid r)) =
        map_option sleaf (get_session d (sid r))" by simp
    have "session_entries (delete_session d s) (sid r) = session_entries d (sid r)"
      unfolding session_entries_def delete_session_def delete_rows_def using r
      by (auto intro!: filter_cong)
    then show "get_entries (delete_session d s) (sid r) = get_entries d (sid r)"
      by (simp add: get_entries_def)
  qed
  with sy r show "map_option first_mode (log_path (delete_session d s) (sid r)) =
      Some (sactive_mode r)" by (simp add: modes_synced_def)
qed

lemma modes_synced_branch:
  assumes wf: "wf_store d" and sy: "modes_synced d" and b: "branch d s i now = Some (res, d')"
  shows "modes_synced d'"
  using branch_SomeD [OF b]
proof (elim disjE conjE exE)
  fix m e assume e: "entry_of d s i e" and m: "walk_active_mode_at d s i = Some m"
    and d': "d' = d\<lparr>sessions := update_rows (\<lambda>r. sid r = s)
              (\<lambda>r. r\<lparr>sleaf := Some i, supdated := sql_now now, sactive_mode := m\<rparr>)
              (sessions d)\<rparr>" (is "_ = d\<lparr>sessions := update_rows ?p ?f _\<rparr>")
  have gs: "get_session d' t = map_option (\<lambda>r. if sid r = s then ?f r else r) (get_session d t)" for t
    unfolding d' by (rule get_session_update) simp
  obtain ns where ns: "path_up (get_entries d s) i = Some (e # ns)"
    using path_up_total [OF wf e] by blast
  have "i \<noteq> []" using e wf_store_entry [OF wf] by (auto simp: entry_of_def)
  have mm: "m = first_mode (e # ns)"
    using m ns walk_mode_first_mode by (fastforce simp: walk_active_mode_at_def path_up_def Let_def)
  show ?thesis
    unfolding modes_synced_def
  proof
    fix q assume "q \<in> set (sessions d')"
    then obtain r where r: "r \<in> set (sessions d)" "q = (if sid r = s then ?f r else r)"
      by (auto simp: d' table_simps)
    have gr: "get_session d (sid r) = Some r"
      using r wf_store_keys [OF wf] by (simp add: get_session_def get_row_member)
    show "map_option first_mode (log_path d' (sid q)) = Some (sactive_mode q)"
    proof (cases "sid r = s")
      case True
      then have "get_session d' s = Some (?f r)" using gr gs by simp
      then have "log_path d' s = Some (e # ns)"
        using ns \<open>i \<noteq> []\<close> by (simp add: log_path_def d')
      with True r mm show ?thesis by simp
    next
      case False
      have "map_option sleaf (get_session d' (sid r)) = map_option sleaf (get_session d (sid r))"
        using False gr gs by simp
      then have "log_path d' (sid r) = log_path d (sid r)"
        by (rule log_path_cong) (simp add: d')
      with False r sy show ?thesis by (simp add: modes_synced_def)
    qed
  qed
qed (use sy in simp)

lemma modes_synced_gc:
  "wf_store d \<Longrightarrow> modes_synced d \<Longrightarrow> gc d s = Some (n, d') \<Longrightarrow> modes_synced d'"
proof -
  assume a: "wf_store d" "modes_synced d" "gc d s = Some (n, d')"
  obtain up where "log_path d s = Some up" using log_path_total [OF a(1)] by blast
  from gc_eq [OF a(1) this] a(3) have "sessions d' = sessions d" by (auto split: if_splits)
  with a(2) show ?thesis by (simp add: modes_synced_def log_path_gc [OF a(1,3)])
qed

section \<open>Reachable stores\<close>

text \<open>
  \<open>log_step\<close>: one call of a method, with any arguments; \<open>store_step\<close> adds
  \<open>setActiveMode\<close>, which overwrites the mode cache without writing to the log.
\<close>

inductive log_step :: "store \<Rightarrow> store \<Rightarrow> bool" where
  log_create: "create_session d nid now nm src sender = (res, d') \<Longrightarrow> log_step d d'"
| log_append: "nid \<noteq> [] \<Longrightarrow> append_entry d s dat nid now = (res', d') \<Longrightarrow> log_step d d'"
| log_rename: "log_step d (rename_session d s nm' now)"
| log_delete: "log_step d (delete_session d s)"
| log_branch: "branch d s i now = Some (res'', d') \<Longrightarrow> log_step d d'"
| log_gc: "gc d s = Some (n, d') \<Longrightarrow> log_step d d'"

inductive store_step :: "store \<Rightarrow> store \<Rightarrow> bool" where
  step_log: "log_step d d' \<Longrightarrow> store_step d d'"
| step_set_mode: "store_step d (set_active_mode d s m now)"

inductive reachable_store :: "store \<Rightarrow> bool" where
  reachable_empty: "reachable_store empty_store"
| reachable_step: "reachable_store d \<Longrightarrow> store_step d d' \<Longrightarrow> reachable_store d'"

inductive log_reachable :: "store \<Rightarrow> bool" where
  log_reachable_empty: "log_reachable empty_store"
| log_reachable_step: "log_reachable d \<Longrightarrow> log_step d d' \<Longrightarrow> log_reachable d'"

lemmas wf_methods = wf_create wf_append wf_rename wf_delete_session wf_branch wf_gc wf_set_mode

lemma wf_log_step: "log_step d d' \<Longrightarrow> wf_store d \<Longrightarrow> wf_store d'"
  by (induction rule: log_step.induct) (auto intro: wf_methods)

lemma wf_store_step: "store_step d d' \<Longrightarrow> wf_store d \<Longrightarrow> wf_store d'"
  by (induction rule: store_step.induct) (auto intro: wf_log_step wf_methods)

lemma wf_empty_store: "wf_store empty_store"
  by (simp add: wf_store_def empty_store_def)

lemma wf_reachable_store: "reachable_store d \<Longrightarrow> wf_store d"
  by (induction rule: reachable_store.induct) (auto intro: wf_empty_store wf_store_step)

lemma wf_log_reachable: "log_reachable d \<Longrightarrow> wf_store d"
  by (induction rule: log_reachable.induct) (auto intro: wf_empty_store wf_log_step)

lemma synced_log_step: "log_step d d' \<Longrightarrow> wf_store d \<Longrightarrow> modes_synced d \<Longrightarrow> modes_synced d'"
proof (induction rule: log_step.induct)
  case (log_rename d s nm' now)
  then show ?case unfolding rename_session_def by (intro modes_synced_update) auto
qed (blast intro: modes_synced_create modes_synced_append modes_synced_delete
    modes_synced_branch modes_synced_gc)+

lemma synced_log_reachable: "log_reachable d \<Longrightarrow> modes_synced d"
proof (induction rule: log_reachable.induct)
  case log_reachable_empty
  then show ?case by (simp add: modes_synced_def empty_store_def)
next
  case (log_reachable_step d d')
  then show ?case using wf_log_reachable synced_log_step by blast
qed

text \<open>The store of the witnesses: a session with two messages and a mode change between them.\<close>

definition demo_msg :: "string \<Rightarrow> message_data" where
  "demo_msg t = \<lparr>md_role = User, md_content = JStr t, md_tool_call_id = None,
     md_tool_name = None, md_is_error = None, md_timestamp = Some 1, md_metadata = None\<rparr>"

definition demo0 :: store where
  "demo0 = snd (create_session empty_store ''s'' 1000 None None None)"

definition demo1 :: store where
  "demo1 = snd (append_entry demo0 ''s'' (Message (demo_msg ''hi'')) ''a'' 2000)"

definition demo2 :: store where
  "demo2 = snd (append_entry demo1 ''s'' (Mode_Enter ''plan'') ''b'' 3000)"

definition demo3 :: store where
  "demo3 = snd (append_entry demo2 ''s'' (Message (demo_msg ''go'')) ''c'' 4000)"

lemmas store_eval = create_session_def append_entry_def get_session_def get_row_def insert_row_def
  update_rows_def bump_leaf_def next_seq_def session_entries_def empty_store_def Let_def

lemma demo_reachable: "log_reachable demo0" "log_reachable demo1" "log_reachable demo2"
  "log_reachable demo3"
proof -
  show 0: "log_reachable demo0"
    unfolding demo0_def
    by (rule log_reachable_step [OF log_reachable_empty], rule log_create) (rule surjective_pairing)
  show 1: "log_reachable demo1"
    unfolding demo1_def
    by (rule log_reachable_step [OF 0], rule log_append [OF _ surjective_pairing]) simp
  show 2: "log_reachable demo2"
    unfolding demo2_def
    by (rule log_reachable_step [OF 1], rule log_append [OF _ surjective_pairing]) simp
  show "log_reachable demo3"
    unfolding demo3_def
    by (rule log_reachable_step [OF 2], rule log_append [OF _ surjective_pairing]) simp
qed

lemma log_reachable_reachable: "log_reachable d \<Longrightarrow> reachable_store d"
  by (induction rule: log_reachable.induct) (auto intro: reachable_store.intros store_step.intros)

lemma demo3_value:
  "demo3 = \<lparr>sessions = [\<lparr>sid = ''s'', sname = '''', ssource = ''websocket'', ssender = None,
      sleaf = Some ''c'', sactive_mode = Some ''plan'', screated = Sql_Stamp 1,
      supdated = Iso_Stamp 4000\<rparr>],
    entries = [
      \<lparr>eid = ''a'', eparent = None, esession = ''s'', eseq = 1,
        edata = Message (demo_msg ''hi''), ecreated = Iso_Stamp 2000\<rparr>,
      \<lparr>eid = ''b'', eparent = Some ''a'', esession = ''s'', eseq = 2,
        edata = Mode_Enter ''plan'', ecreated = Iso_Stamp 3000\<rparr>,
      \<lparr>eid = ''c'', eparent = Some ''b'', esession = ''s'', eseq = 3,
        edata = Message (demo_msg ''go''), ecreated = Iso_Stamp 4000\<rparr>]\<rparr>"
  by (simp add: demo3_def demo2_def demo1_def demo0_def store_eval sql_now_def iso_now_def)

section \<open>Contexts\<close>

lemma last_compaction_append:
  "i \<le> length xs \<Longrightarrow> last_compaction (xs @ ys) i = last_compaction xs i"
proof (induction i)
  case (Suc i)
  then show ?case by (auto simp: nth_append split: entry_data.split)
qed simp

lemma last_compaction_SomeD:
  "last_compaction path n = Some (i, sm, k) \<Longrightarrow>
    i < n \<and> (\<exists>tb. edata (path ! i) = Compaction sm k tb)"
  by (induction n) (fastforce split: entry_data.splits)+

lemma find_index_append:
  "find_index p (xs @ ys) = (case find_index p xs of
     Some i \<Rightarrow> Some i | None \<Rightarrow> map_option (\<lambda>i. length xs + i) (find_index p ys))"
  by (induction xs) (cases "find_index p ys"; auto split: option.split)+

lemma find_index_None_iff: "find_index p xs = None \<longleftrightarrow> (\<forall>x \<in> set xs. \<not> p x)"
  by (induction xs) auto

lemma find_index_less: "find_index p xs = Some i \<Longrightarrow> i < length xs"
  by (induction xs arbitrary: i) (auto split: if_splits)

definition kept_ids :: "entry list \<Rightarrow> id set" where
  "kept_ids es = {k. \<exists>e \<in> set es. \<exists>sm tb. edata e = Compaction sm k tb}"

lemma context_snoc_plain:
  assumes "\<nexists>sm k tb. edata e = Compaction sm k tb" "eid e \<notin> kept_ids path"
  shows "context_of_path now (path @ [e]) =
    context_of_path now path @ List.map_filter (entry_message now) [e]"
proof -
  have lc: "last_compaction (path @ [e]) (length (path @ [e])) = last_compaction path (length path)"
    using assms(1) by (cases "edata e") (simp_all add: last_compaction_append nth_append)
  show ?thesis
  proof (cases "last_compaction path (length path)")
    case None
    then show ?thesis using lc by (simp add: context_of_path_def List.map_filter_def)
  next
    case (Some r)
    obtain i sm k where r: "r = (i, sm, k)" by (cases r)
    with Some have i: "i < length path" "\<exists>tb. edata (path ! i) = Compaction sm k tb"
      using last_compaction_SomeD by blast+
    then have "eid e \<noteq> k" using assms(2) nth_mem [OF i(1)] by (auto simp: kept_ids_def)
    then have fi: "find_index (\<lambda>x. eid x = k) (path @ [e]) = find_index (\<lambda>x. eid x = k) path"
      by (simp add: find_index_append split: option.split)
    show ?thesis
    proof (cases "find_index (\<lambda>x. eid x = k) path")
      case None
      with Some lc r fi i show ?thesis
        by (simp add: context_of_path_def List.map_filter_def Let_def)
    next
      case (Some j)
      with find_index_less [OF Some] \<open>last_compaction path (length path) = Some r\<close> lc r fi
      show ?thesis by (simp add: context_of_path_def List.map_filter_def Let_def)
    qed
  qed
qed

lemma append_entry_context:
  assumes "wf_store d" "nid \<noteq> []" "nid \<notin> kept_ids (entries d)" "\<nexists>sm k tb. dat = Compaction sm k tb"
    and "append_entry d s dat nid now = (Inr e, d')"
  shows "build_context d' t now' =
    (if t = s then map_option (\<lambda>ctx. ctx @ List.map_filter (entry_message now') [e]) (build_context d t now')
     else build_context d t now')"
proof -
  obtain up where up: "log_path d t = Some up" "set up \<subseteq> set (get_entries d t)"
    using log_path_total [OF assms(1)] by blast
  then have "kept_ids (rev up) \<subseteq> kept_ids (entries d)"
    by (auto simp: kept_ids_def set_get_entries)
  with assms(3,4) append_entry_row(1,4) [OF assms(5)]
  have "context_of_path now' (rev up @ [e]) = context_of_path now' (rev up) @ List.map_filter (entry_message now') [e]"
    by (intro context_snoc_plain) auto
  then show ?thesis
    using up(1) log_path_append [OF assms(1,2,5)] by (auto simp: build_context_log_path)
qed

lemma context_snoc_compaction:
  assumes "edata e = Compaction sm (eid (path ! k)) tb" "k < length path" "distinct (map eid path)"
    "sm \<noteq> []"
  shows "context_of_path now (path @ [e]) =
    summary_message now sm # List.map_filter (entry_message now) (drop k path)"
proof -
  have lc: "last_compaction (path @ [e]) (length (path @ [e])) = Some (length path, sm, eid (path ! k))"
    using assms by (simp add: nth_append)
  have "find_index (\<lambda>x. eid x = eid (path ! k)) path = Some k"
    using assms(2,3)
  proof (induction path arbitrary: k)
    case (Cons a path)
    show ?case
    proof (cases k)
      case (Suc j)
      then have "eid a \<noteq> eid (path ! j)" using Cons.prems by (auto dest: nth_mem)
      with Suc Cons show ?thesis by auto
    qed simp
  qed simp
  then show ?thesis
    using lc assms by (simp add: context_of_path_def Let_def find_index_append
        List.map_filter_def entry_message_def)
qed

section \<open>Properties\<close>

text \<open>In every store that calls of the methods can produce, the tables are well-formed
  and the three walks along parent pointers end: building a context, branching and collecting
  garbage always return.\<close>

theorem session_walks_return:
  assumes "reachable_store d"
  shows "wf_store d \<and> (\<exists>msgs. build_context d s now = Some msgs) \<and>
    (\<exists>r. branch d s i now = Some r) \<and> (\<exists>r. gc d s = Some r)"
proof -
  have wf: "wf_store d"
    by (rule wf_reachable_store [OF assms])
  obtain up where up: "log_path d s = Some up" using log_path_total [OF wf] by blast
  have "\<exists>r. branch d s i now = Some r"
  proof (cases "find (\<lambda>e. eid e = i \<and> esession e = s) (entries d)")
    case (Some e)
    then have "entry_of d s i e" by (auto simp: entry_of_def find_Some_iff)
    from walk_mode_returns [OF wf this] Some show ?thesis by (auto simp: branch_def)
  qed (simp add: branch_def)
  then show ?thesis using wf up gc_eq [OF wf up] by (simp add: build_context_log_path)
qed

theorem session_walks_return_witness:
  "wf_store demo3 \<and> (\<exists>msgs. build_context demo3 ''s'' 9 = Some msgs) \<and>
    (\<exists>r. branch demo3 ''s'' ''a'' 9 = Some r) \<and> (\<exists>r. gc demo3 ''s'' = Some r)"
  by (rule session_walks_return [OF log_reachable_reachable [OF demo_reachable(4)]])

lemma context_total: "wf_store d \<Longrightarrow> \<exists>ctx. build_context d s now = Some ctx"
  using log_path_total by (fastforce simp: build_context_log_path)

text \<open>Appending a message to a session adds exactly that message at the end of its LLM
  context and leaves the context of every other session as it was, provided the fresh id is
  not one that a compaction entry already names as its first kept entry.\<close>

theorem append_extends_context:
  assumes "reachable_store d" and "nid \<noteq> []" and "nid \<notin> kept_ids (entries d)"
    and "append_entry d s (Message m) nid now = (Inr e, d')"
  shows "build_context d' t now' =
    (if t = s then map_option (\<lambda>ctx. ctx @ [to_agent_message now' m]) (build_context d t now')
     else build_context d t now')"
  using append_entry_context [OF wf_reachable_store [OF assms(1)] assms(2,3) _ assms(4)] append_entry_row(4) [OF assms(4)]
  by (simp add: List.map_filter_def entry_message_def)

theorem append_extends_context_witness:
  "build_context demo3 ''s'' 9 =
    map_option (\<lambda>ctx. ctx @ [to_agent_message 9 (demo_msg ''go'')]) (build_context demo2 ''s'' 9)"
proof -
  have "\<exists>e. append_entry demo2 ''s'' (Message (demo_msg ''go'')) ''c'' 4000 = (Inr e, demo3)"
    by (simp add: demo3_value demo2_def demo1_def demo0_def store_eval sql_now_def iso_now_def)
  moreover have "''c'' \<notin> kept_ids (entries demo2)"
    by (simp add: kept_ids_def demo2_def demo1_def demo0_def store_eval sql_now_def iso_now_def)
  ultimately show ?thesis
    using append_extends_context [OF log_reachable_reachable [OF demo_reachable(3)], of "''c''" "''s''"]
    by fastforce
qed

text \<open>After a compaction entry with a non-empty summary whose first kept entry lies on the
  path of the session, the context is the summary followed by the messages of the path from
  that entry on; everything before it is gone from the context.\<close>

theorem compaction_cuts_context:
  assumes "reachable_store d" and "nid \<noteq> []" and "sm \<noteq> []"
    and "log_path d s = Some up" and "k < length up"
    and "append_entry d s (Compaction sm (eid (rev up ! k)) tb) nid now = (Inr e, d')"
  shows "build_context d' s now' =
    Some (summary_message now' sm # List.map_filter (entry_message now') (drop k (rev up)))"
proof -
  have wf: "wf_store d"
    by (rule wf_reachable_store [OF assms(1)])
  have "set up \<subseteq> set (get_entries d s)" using log_path_total [OF wf, of s] assms(4) by simp
  moreover have "inj_on eid (set (get_entries d s))"
    using wf_get_entries [OF wf] by (simp add: wf_entries_def distinct_map)
  moreover have "distinct up"
  proof (cases "get_session d s")
    case (Some r)
    show ?thesis
    proof (cases "entry_map (get_entries d s) (the (sleaf r))")
      case (Some x)
      then show ?thesis
        using assms(4) \<open>get_session d s = Some r\<close>
          entry_log.chain_distinct [OF wf_get_entries [OF wf]] entry_map_SomeD [OF Some]
        by (auto simp: log_path_def path_up_def split: if_splits)
    qed (use assms(4) Some in \<open>auto simp: log_path_def path_up_def split: if_splits\<close>)
  qed (use assms(4) in \<open>auto simp: log_path_def\<close>)
  ultimately have "distinct (map eid (rev up))" by (auto simp: distinct_map intro: inj_on_subset)
  then have "context_of_path now' (rev up @ [e]) =
      summary_message now' sm # List.map_filter (entry_message now') (drop k (rev up))"
    using append_entry_row(4) [OF assms(6)] assms(3,5) by (intro context_snoc_compaction) auto
  then show ?thesis
    using assms(4) log_path_append [OF wf assms(2,6)] by (simp add: build_context_log_path)
qed

definition demo_path :: "entry list" where "demo_path = rev (entries demo3)"

lemma demo_log_path: "log_path demo3 ''s'' = Some demo_path"
  by (simp add: demo_path_def log_path_def demo3_value get_session_def get_row_def path_up_def
      get_entries_def session_entries_def order_by_def entry_map_def chain_Some
      parent_entry_def lookup_ref_def)

theorem compaction_cuts_context_witness:
  "\<exists>d'. build_context d' ''s'' 9 =
    Some [summary_message 9 ''sum'', to_agent_message 9 (demo_msg ''go'')]"
proof -
  obtain e d' where app:
    "append_entry demo3 ''s'' (Compaction ''sum'' (eid (rev demo_path ! 2)) 7) ''d'' 5000 = (Inr e, d')"
    by (simp add: demo3_value demo_path_def store_eval)
  have "build_context d' ''s'' 9 =
      Some (summary_message 9 ''sum'' # List.map_filter (entry_message 9) (drop 2 (rev demo_path)))"
    by (rule compaction_cuts_context [OF log_reachable_reachable [OF demo_reachable(4)] _ _
          demo_log_path _ app]) (simp_all add: demo_path_def demo3_value)
  then show ?thesis
    by (auto simp: demo_path_def demo3_value List.map_filter_def entry_message_def)
qed

text \<open>Garbage collection deletes exactly the entries of the session that are not on its
  leaf-to-root path. It changes the context and the active mode of no session, the number it
  returns is the number of rows removed, and a second collection finds nothing.\<close>

theorem gc_preserves_contexts:
  assumes "reachable_store d" and "gc d s = Some (n, d')"
  shows "build_context d' t now = build_context d t now \<and>
    read_active_mode_id d' t = read_active_mode_id d t \<and>
    length (entries d) = length (entries d') + n \<and> gc d' s = Some (0, d')"
proof -
  have wf: "wf_store d"
    by (rule wf_reachable_store [OF assms(1)])
  obtain up where up: "log_path d s = Some up" using log_path_total [OF wf] by blast
  have up': "log_path d' s = Some up" using up log_path_gc [OF wf assms(2)] by simp
  have split: "length xs = length (filter P xs) + length (filter (\<lambda>x. \<not> P x) xs)" for P and xs :: "entry list"
    by (simp add: sum_length_filter_compl)
  have "sessions d' = sessions d" "length (entries d) = length (entries d') + n"
    using gc_eq [OF wf up] assms(2) split [of "entries d" "gc_keep s up"] by (auto split: if_splits)
  moreover have "gc d' s = Some (0, d')"
  proof (cases "has_leaf d s")
    case True
    then have "d' = d\<lparr>entries := filter (gc_keep s up) (entries d)\<rparr>"
      using gc_eq [OF wf up] assms(2) by simp
    then show ?thesis using gc_eq [OF wf_gc [OF wf assms(2)] up'] by simp
  qed (use gc_eq [OF wf up] assms(2) in simp)
  ultimately show ?thesis
    using log_path_gc [OF wf assms(2)]
    by (simp add: build_context_log_path read_active_mode_id_def get_session_def)
qed

theorem gc_preserves_contexts_witness:
  "\<exists>n d'. gc demo3 ''s'' = Some (n, d') \<and> build_context d' ''s'' 9 = build_context demo3 ''s'' 9 \<and>
    length (entries demo3) = length (entries d') + n"
proof -
  have r: "reachable_store demo3" by (rule log_reachable_reachable [OF demo_reachable(4)])
  have "\<exists>r. gc demo3 ''s'' = Some r"
    using gc_eq [OF wf_log_reachable [OF demo_reachable(4)] demo_log_path] by simp
  then obtain n d' where "gc demo3 ''s'' = Some (n, d')" by auto
  with gc_preserves_contexts [OF r this] show ?thesis by blast
qed

text \<open>The cached active mode of a session is the one its log records. In every store
  reached without the repair method \<open>setActiveMode\<close>, walking the parents of the leaf finds
  exactly the mode the metadata row holds.\<close>

theorem mode_cache_agrees:
  assumes "log_reachable d" and "get_session d s = Some r" and "sleaf r = Some leaf"
  shows "walk_active_mode_at d s leaf = Some (read_active_mode_id d s)"
proof -
  have r: "r \<in> set (sessions d)" "sid r = s" using get_session_SomeD [OF assms(2)] by auto
  have wf: "wf_store d" using wf_log_reachable [OF assms(1)] .
  obtain e where e: "entry_of d s leaf e" using wf_store_leaf [OF wf r(1) assms(3)] r by blast
  then have "leaf \<noteq> []" using wf_store_entry [OF wf] by (auto simp: entry_of_def)
  obtain ns where ns: "path_up (get_entries d s) leaf = Some ns"
    using path_up_total [OF wf e] by blast
  then have "log_path d s = Some ns" using assms \<open>leaf \<noteq> []\<close> by (simp add: log_path_def)
  then have "first_mode ns = sactive_mode r"
    using synced_log_reachable [OF assms(1)] r by (auto simp: modes_synced_def)
  then show ?thesis
    using ns assms(2) walk_mode_first_mode
    by (fastforce simp: walk_active_mode_at_def path_up_def read_active_mode_id_def Let_def)
qed

theorem mode_cache_agrees_witness:
  "walk_active_mode_at demo3 ''s'' ''c'' = Some (read_active_mode_id demo3 ''s'') \<and>
    read_active_mode_id demo3 ''s'' = Some ''plan''"
proof -
  obtain r where "get_session demo3 ''s'' = Some r" "sleaf r = Some ''c''"
    by (simp add: demo3_value get_session_def get_row_def)
  from mode_cache_agrees [OF demo_reachable(4) this]
  show ?thesis by (simp add: demo3_value read_active_mode_id_def get_session_def get_row_def)
qed

definition entries_after :: "store \<Rightarrow> id \<Rightarrow> nat \<Rightarrow> entry list" where
  "entries_after d s a = filter (\<lambda>e. a < eseq e) (get_entries d s)"

lemma order_by_filter: "order_by key (filter P xs) = filter P (order_by key xs)"
  by (simp add: order_by_def filter_sort)

lemma strict_sorted_entries:
  assumes "wf_store d"
  shows "sorted_wrt (\<lambda>e f. eseq e < eseq f) (get_entries d s)"
proof -
  let ?es = "get_entries d s"
  have "distinct ?es" using wf_store_keys [OF assms] distinct_get_entries [of d s] by (simp add: distinct_map)
  moreover have "inj_on eseq (set ?es)"
    using wf_store_seq [OF assms] by (auto simp: set_get_entries intro!: inj_onI)
  ultimately have "distinct (map eseq ?es)" by (simp add: distinct_map)
  moreover have "sorted (map eseq ?es)" unfolding get_entries_def by (rule sorted_order_by)
  ultimately show ?thesis
    by (simp add: sorted_wrt_map [symmetric] strict_sorted_iff)
qed

lemma filter_above_last:
  fixes key :: "'r \<Rightarrow> nat"
  assumes "sorted_wrt (\<lambda>e f. key e < key f) (xs @ ys)" and "xs \<noteq> []"
  shows "filter (\<lambda>e. key (last xs) < key e) (xs @ ys) = ys"
proof -
  have xs: "xs = butlast xs @ [last xs]" using assms(2) by simp
  have "sorted_wrt (\<lambda>e f. key e < key f) (butlast xs @ [last xs])"
    using assms xs by (simp add: sorted_wrt_append)
  then have "\<forall>x \<in> set (butlast xs). key x < key (last xs)" by (simp add: sorted_wrt_append)
  then have "\<forall>x \<in> set xs. \<not> key (last xs) < key x"
    by (subst xs) (auto dest: less_not_sym)
  moreover have "\<forall>y \<in> set ys. key (last xs) < key y"
    using assms by (simp add: sorted_wrt_append)
  ultimately show ?thesis by (simp add: filter_empty_conv filter_id_conv)
qed

text \<open>Reading a log page by page loses and repeats nothing. A page is a prefix of the entries
  after the cursor, it is not longer than the limit, the flag says whether something is left,
  and what is left is what the next request, with the last sequence number as its cursor,
  starts from.\<close>

theorem pages_cover_log:
  assumes "reachable_store d" and "get_entries_paginated d s (Some lim) (Some a) = (page, has_more)"
  shows "page = take lim (entries_after d s a) \<and> (has_more \<longleftrightarrow> lim < length (entries_after d s a)) \<and>
    (page \<noteq> [] \<longrightarrow> entries_after d s a = page @ entries_after d s (eseq (last page)))"
proof -
  have wf: "wf_store d"
    by (rule wf_reachable_store [OF assms(1)])
  let ?es = "entries_after d s a"
  have "order_by eseq (filter (\<lambda>e. esession e = s \<and> a < eseq e) (entries d)) = ?es"
    unfolding entries_after_def get_entries_def session_entries_def order_by_filter [symmetric] filter_filter
    by (simp add: conj_commute)
  note rows = this
  have pg: "page = take lim ?es" "has_more \<longleftrightarrow> lim < length ?es"
    using assms(2) unfolding get_entries_paginated_def Let_def option.case rows
    by (auto simp: min_def split: if_splits)
  have rest: "drop lim ?es = entries_after d s (eseq (last page))" if "page \<noteq> []"
  proof -
    have sw: "sorted_wrt (\<lambda>e f. eseq e < eseq f) (page @ drop lim ?es)"
      using strict_sorted_entries [OF wf] pg by (simp add: entries_after_def sorted_wrt_filter)
    have "filter (\<lambda>e. eseq (last page) < eseq e) (page @ drop lim ?es) = drop lim ?es"
      by (rule filter_above_last [OF sw that])
    moreover have "filter (\<lambda>e. eseq (last page) < eseq e) ?es = entries_after d s (eseq (last page))"
    proof -
      have "a < eseq (last page)"
      proof -
        have "last page \<in> set ?es" using last_in_set [OF that] pg(1) by (metis in_set_takeD)
        then show ?thesis by (simp add: entries_after_def)
      qed
      then show ?thesis unfolding entries_after_def filter_filter
        by (intro filter_cong) auto
    qed
    ultimately show ?thesis using pg by simp
  qed
  then show ?thesis using pg append_take_drop_id [of lim ?es] by metis
qed

theorem pages_cover_log_witness:
  "\<exists>page. get_entries_paginated demo3 ''s'' (Some 2) (Some 0) = (page, True) \<and>
    entries_after demo3 ''s'' 0 = page @ entries_after demo3 ''s'' (eseq (last page)) \<and> length page = 2"
proof -
  obtain page where p: "get_entries_paginated demo3 ''s'' (Some 2) (Some 0) = (page, True)" "length page = 2"
    by (simp add: demo3_value get_entries_paginated_def order_by_def)
  then have "page \<noteq> []" by auto
  with pages_cover_log [OF log_reachable_reachable [OF demo_reachable(4)] p(1)] p
  show ?thesis by blast
qed

text \<open>The session list is not ordered by the time of the last update. A session whose entry
  log was written to at any time of a day is listed before a session that was renamed,
  branched or created later on the same day, because the two kinds of write store the time
  in formats that do not compare.\<close>

theorem list_sessions_format_order:
  assumes "a \<in> set (sessions d)" and "b \<in> set (sessions d)"
    and "supdated a = iso_now t1" and "supdated b = sql_now t2"
    and "t1 div ms_per_day = t2 div ms_per_day"
  shows "\<exists>xs ys zs. list_sessions d = xs @ a # ys @ b # zs"
proof -
  have "t2 div 1000 div 86400 = t2 div ms_per_day"
    by (simp add: ms_per_day_def zdiv_zmult2_eq [symmetric])
  then have lt: "supdated b < supdated a"
    using assms by (simp add: iso_now_def sql_now_def sql_below_iso_same_day)
  let ?l = "rev (list_sessions d)"
  have sorted: "sorted (map supdated ?l)" and mem: "a \<in> set ?l" "b \<in> set ?l"
    using assms(1,2) by (simp_all add: list_sessions_def order_by_desc_def)
  from mem(1) obtain xs zs where l: "?l = xs @ a # zs" by (meson split_list)
  have "b \<notin> set zs" using sorted lt l by (auto simp: sorted_append)
  moreover have "b \<noteq> a" using lt by auto
  ultimately have "b \<in> set xs" using mem l by auto
  then obtain us vs where "xs = us @ b # vs" by (meson split_list)
  with l have "list_sessions d = rev zs @ a # rev vs @ b # rev us"
    by (metis append.assoc append_Cons append_Nil rev.simps(2) rev_append rev_rev_ident)
  then show ?thesis by blast
qed

theorem list_sessions_format_order_witness:
  "\<exists>xs ys zs. list_sessions (rename_session (snd (create_session demo3 ''t'' 5000 None None None)) ''t'' ''new'' 80000000) =
     xs @ hd (sessions demo3) # ys @
     (\<lparr>sid = ''t'', sname = ''new'', ssource = ''websocket'', ssender = None, sleaf = None,
       sactive_mode = None, screated = sql_now 5000, supdated = sql_now 80000000\<rparr>) # zs"
  by (rule list_sessions_format_order [where ?t1.0 = 4000 and ?t2.0 = 80000000])
    (simp_all add: demo3_value store_eval rename_session_def iso_now_def ms_per_day_def)

end
