(* ===== verification/Task_Tracker.thy ===== *)
theory Task_Tracker
  imports Timestamps
begin

text \<open>
  The task tracker: \<open>TaskStore\<close> of
  \<open>packages/capabilities/task-tracker/src/task-store.ts\<close> and the types of \<open>types.ts\<close>. The two
  SQL tables are lists of records. Every method that can throw returns a sum together with
  the tables, because a method may throw after it has written. The session-authority check
  (\<open>AuthChecker\<close>), the fresh row id (\<open>nanoid\<close>) and the clock are arguments. \<open>SqlResult.one()\<close>
  follows its declared type: null when there is no row.
\<close>

section \<open>Data\<close>

datatype task_status = Open | In_Progress | Blocked | Closed

datatype task_type = Plain_Task | Epic | Bug

datatype dep_type = Blocks | Parent_Child | Related

definition blocking :: "dep_type \<Rightarrow> bool" where
  "blocking ty \<longleftrightarrow> ty = Blocks \<or> ty = Parent_Child"

fun valid_transitions :: "task_status \<Rightarrow> task_status set" where
  "valid_transitions Open = {In_Progress, Closed}"
| "valid_transitions In_Progress = {Closed, Blocked}"
| "valid_transitions Blocked = {In_Progress, Closed}"
| "valid_transitions Closed = {}"

record task =
  tid :: id
  tparent :: "id option"
  towner :: id
  ttitle :: string
  tdescription :: string
  tacceptance :: string
  tstatus :: task_status
  tpriority :: int
  ttype :: task_type
  tcreated :: stamp
  tupdated :: stamp
  tclosed :: "stamp option"
  treason :: "string option"

record dep =
  dsource :: id
  dtarget :: id
  dtype :: dep_type
  dcreated :: stamp

record tracker =
  tasks :: "task list"
  deps :: "dep list"

record create_input =
  in_title :: string
  in_description :: "string option"
  in_acceptance :: "string option"
  in_type :: "task_type option"
  in_priority :: "int option"
  in_parent :: "id option"
  in_depends_on :: "id list"

record update_input =
  up_status :: "task_status option"
  up_priority :: "int option"
  up_description :: "string option"
  up_acceptance :: "string option"

datatype tree_node = Tree_Node task nat "tree_node list"

datatype task_error =
    Task_Not_Found id
  | Task_Auth id id
  | Task_Cycle "id list"
  | Invalid_Transition task_status task_status
  | Dep_Exists id id
  | Task_Id_Exists id
  | Retrieve_Failed id

type_synonym auth = "id \<Rightarrow> id \<Rightarrow> bool"

definition empty_tracker :: tracker where
  "empty_tracker = \<lparr>tasks = [], deps = []\<rparr>"

definition default_auth :: auth where
  "default_auth caller owner \<longleftrightarrow> caller = owner"

section \<open>Reading\<close>

definition get_task :: "tracker \<Rightarrow> id \<Rightarrow> task option" where
  "get_task d i = get_row tid i (tasks d)"

definition list_tasks :: "tracker \<Rightarrow> id option \<Rightarrow> task list" where
  "list_tasks d owner =
     (if truthy owner
      then order_by tcreated (filter (\<lambda>t. towner t = the owner) (tasks d))
      else order_by tcreated (tasks d))"

definition get_deps :: "tracker \<Rightarrow> id \<Rightarrow> dep list" where
  "get_deps d i = filter (\<lambda>e. dsource e = i \<or> dtarget e = i) (deps d)"

section \<open>Cycle detection\<close>

definition blocking_targets :: "dep list \<Rightarrow> id \<Rightarrow> id list" where
  "blocking_targets es i = map dtarget (filter (\<lambda>e. dsource e = i \<and> blocking (dtype e)) es)"

lemma blocking_targets_source: "x \<in> set (blocking_targets es i) \<Longrightarrow> i \<in> dsource ` set es"
  by (auto simp: blocking_targets_def)

text \<open>
  The loop of \<open>assertNoCycle\<close>: the head of the list is the top of the stack. \<open>True\<close> means the
  loop threw the cycle error. A node that is expanded for the first time and has outgoing
  edges leaves the set of unvisited sources; any other iteration makes the stack shorter.
\<close>

function reaches :: "dep list \<Rightarrow> id \<Rightarrow> id list \<Rightarrow> id set \<Rightarrow> bool" where
  "reaches es source [] visited = False"
| "reaches es source (current # stack) visited =
     (if current = source then True
      else if current \<in> visited then reaches es source stack visited
      else reaches es source (rev (blocking_targets es current) @ stack) (insert current visited))"
  by pat_completeness auto
termination
proof (relation "(\<lambda>(es, _, stack, visited). card (dsource ` set es - visited)) <*mlex*>
    measure (\<lambda>(_, _, stack, _). length stack)", goal_cases)
  case 1
  then show ?case by (simp add: wf_mlex)
next
  case (2 es source current stack visited)
  then show ?case by (intro mlex_leq) auto
next
  case (3 es source current stack visited)
  show ?case
  proof (cases "current \<in> dsource ` set es")
    case True
    then have "dsource ` set es - insert current visited \<subset> dsource ` set es - visited"
      using 3 by blast
    then have "card (dsource ` set es - insert current visited) < card (dsource ` set es - visited)"
      by (intro psubset_card_mono) auto
    then show ?thesis by (intro mlex_less) simp
  next
    case False
    then have "blocking_targets es current = []"
      using blocking_targets_source by (metis list.set_intros(1) neq_Nil_conv)
    moreover have "dsource ` set es - insert current visited = dsource ` set es - visited"
      using False by blast
    ultimately show ?thesis by (intro mlex_leq) auto
  qed
qed

definition assert_no_cycle :: "dep list \<Rightarrow> id \<Rightarrow> id \<Rightarrow> task_error option" where
  "assert_no_cycle es source target =
     (if reaches es source [target] {} then Some (Task_Cycle [source, target]) else None)"

section \<open>Writing\<close>

definition add_dep_internal ::
  "tracker \<Rightarrow> id \<Rightarrow> id \<Rightarrow> dep_type \<Rightarrow> int \<Rightarrow> (task_error + dep) \<times> tracker" where
  "add_dep_internal d source target ty now =
     (if source = target then (Inl (Task_Cycle [source]), d)
      else case (if blocking ty then assert_no_cycle (deps d) source target else None) of
             Some e \<Rightarrow> (Inl e, d)
           | None \<Rightarrow>
               let row = \<lparr>dsource = source, dtarget = target, dtype = ty, dcreated = sql_now now\<rparr>
               in case insert_row (\<lambda>e. (dsource e, dtarget e)) row (deps d) of
                    None \<Rightarrow> (Inl (Dep_Exists source target), d)
                  | Some es \<Rightarrow> (Inr row, d\<lparr>deps := es\<rparr>))"

fun add_blocks :: "tracker \<Rightarrow> id \<Rightarrow> id list \<Rightarrow> int \<Rightarrow> (task_error + unit) \<times> tracker" where
  "add_blocks d source [] now = (Inr (), d)"
| "add_blocks d source (target # ts) now =
     (case add_dep_internal d source target Blocks now of
        (Inl e, d') \<Rightarrow> (Inl e, d')
      | (Inr _, d') \<Rightarrow> add_blocks d' source ts now)"

definition check_parent :: "auth \<Rightarrow> tracker \<Rightarrow> id \<Rightarrow> id option \<Rightarrow> task_error option" where
  "check_parent auth d caller parent =
     (if truthy parent
      then case get_task d (the parent) of
             None \<Rightarrow> Some (Task_Not_Found (the parent))
           | Some p \<Rightarrow> if auth caller (towner p) then None else Some (Task_Auth caller (towner p))
      else None)"

definition new_task :: "id \<Rightarrow> create_input \<Rightarrow> id \<Rightarrow> int \<Rightarrow> task" where
  "new_task caller i nid now =
     \<lparr>tid = nid, tparent = in_parent i, towner = caller, ttitle = in_title i,
      tdescription = (case in_description i of None \<Rightarrow> '''' | Some x \<Rightarrow> x),
      tacceptance = (case in_acceptance i of None \<Rightarrow> '''' | Some x \<Rightarrow> x),
      tstatus = Open, tpriority = (case in_priority i of None \<Rightarrow> 2 | Some p \<Rightarrow> p),
      ttype = (case in_type i of None \<Rightarrow> Plain_Task | Some ty \<Rightarrow> ty),
      tcreated = iso_now now, tupdated = iso_now now, tclosed = None, treason = None\<rparr>"

definition add_parent_dep ::
  "tracker \<Rightarrow> id \<Rightarrow> id option \<Rightarrow> int \<Rightarrow> (task_error + unit) \<times> tracker" where
  "add_parent_dep d source parent now =
     (if truthy parent
      then case add_dep_internal d source (the parent) Parent_Child now of
             (Inl e, d') \<Rightarrow> (Inl e, d')
           | (Inr _, d') \<Rightarrow> (Inr (), d')
      else (Inr (), d))"

definition create_task ::
  "auth \<Rightarrow> tracker \<Rightarrow> id \<Rightarrow> create_input \<Rightarrow> id \<Rightarrow> int \<Rightarrow> (task_error + task) \<times> tracker" where
  "create_task auth d caller i nid now =
     (case check_parent auth d caller (in_parent i) of
        Some e \<Rightarrow> (Inl e, d)
      | None \<Rightarrow>
          (case insert_row tid (new_task caller i nid now) (tasks d) of
             None \<Rightarrow> (Inl (Task_Id_Exists nid), d)
           | Some ts \<Rightarrow>
               (case add_parent_dep (d\<lparr>tasks := ts\<rparr>) nid (in_parent i) now of
                  (Inl e, d2) \<Rightarrow> (Inl e, d2)
                | (Inr _, d2) \<Rightarrow>
                    (case add_blocks d2 nid (in_depends_on i) now of
                       (Inl e, d3) \<Rightarrow> (Inl e, d3)
                     | (Inr _, d3) \<Rightarrow>
                         (case get_task d3 nid of
                            None \<Rightarrow> (Inl (Retrieve_Failed nid), d3)
                          | Some t \<Rightarrow> (Inr t, d3))))))"

definition assert_valid_transition :: "task_status \<Rightarrow> task_status \<Rightarrow> task_error option" where
  "assert_valid_transition a b =
     (if b \<in> valid_transitions a then None else Some (Invalid_Transition a b))"

definition apply_update :: "update_input \<Rightarrow> int \<Rightarrow> task \<Rightarrow> task" where
  "apply_update u now t =
     t\<lparr>tstatus := (case up_status u of None \<Rightarrow> tstatus t | Some x \<Rightarrow> x),
       tpriority := (case up_priority u of None \<Rightarrow> tpriority t | Some x \<Rightarrow> x),
       tdescription := (case up_description u of None \<Rightarrow> tdescription t | Some x \<Rightarrow> x),
       tacceptance := (case up_acceptance u of None \<Rightarrow> tacceptance t | Some x \<Rightarrow> x),
       tupdated := sql_now now\<rparr>"

definition update_task ::
  "auth \<Rightarrow> tracker \<Rightarrow> id \<Rightarrow> id \<Rightarrow> update_input \<Rightarrow> int \<Rightarrow> (task_error + task option) \<times> tracker" where
  "update_task auth d caller i u now =
     (case get_task d i of
        None \<Rightarrow> (Inl (Task_Not_Found i), d)
      | Some t \<Rightarrow>
          if \<not> auth caller (towner t) then (Inl (Task_Auth caller (towner t)), d)
          else case Option.bind (up_status u) (assert_valid_transition (tstatus t)) of
                 Some e \<Rightarrow> (Inl e, d)
               | None \<Rightarrow>
                   if up_status u = None \<and> up_priority u = None \<and> up_description u = None \<and>
                      up_acceptance u = None
                   then (Inr (Some t), d)
                   else let d' = d\<lparr>tasks := update_rows (\<lambda>r. tid r = i) (apply_update u now) (tasks d)\<rparr>
                        in (Inr (get_task d' i), d'))"

definition close_row :: "string \<Rightarrow> int \<Rightarrow> task \<Rightarrow> task" where
  "close_row reason now t =
     t\<lparr>tstatus := Closed, treason := Some reason, tclosed := Some (sql_now now),
       tupdated := sql_now now\<rparr>"

definition close_task ::
  "auth \<Rightarrow> tracker \<Rightarrow> id \<Rightarrow> id \<Rightarrow> string \<Rightarrow> int \<Rightarrow> (task_error + task option) \<times> tracker" where
  "close_task auth d caller i reason now =
     (case get_task d i of
        None \<Rightarrow> (Inl (Task_Not_Found i), d)
      | Some t \<Rightarrow>
          if \<not> auth caller (towner t) then (Inl (Task_Auth caller (towner t)), d)
          else case assert_valid_transition (tstatus t) Closed of
                 Some e \<Rightarrow> (Inl e, d)
               | None \<Rightarrow>
                   let d' = d\<lparr>tasks := update_rows (\<lambda>r. tid r = i) (close_row reason now) (tasks d)\<rparr>
                   in (Inr (get_task d' i), d'))"

definition delete_by_session :: "tracker \<Rightarrow> id \<Rightarrow> nat \<times> tracker" where
  "delete_by_session d caller =
     (let ts = list_tasks d (Some caller)
      in if ts = [] then (0, d)
         else (length ts,
               d\<lparr>deps := delete_rows
                          (\<lambda>e. \<exists>t \<in> set (tasks d). towner t = caller \<and> tid t = dsource e) (deps d),
                 tasks := delete_rows (\<lambda>t. towner t = caller) (tasks d)\<rparr>))"

definition add_dep ::
  "auth \<Rightarrow> tracker \<Rightarrow> id \<Rightarrow> id \<Rightarrow> id \<Rightarrow> dep_type \<Rightarrow> int \<Rightarrow> (task_error + dep) \<times> tracker" where
  "add_dep auth d caller source target ty now =
     (case get_task d source of
        None \<Rightarrow> (Inl (Task_Not_Found source), d)
      | Some s \<Rightarrow>
          if \<not> auth caller (towner s) then (Inl (Task_Auth caller (towner s)), d)
          else case get_task d target of
                 None \<Rightarrow> (Inl (Task_Not_Found target), d)
               | Some _ \<Rightarrow> add_dep_internal d source target ty now)"

definition remove_dep ::
  "auth \<Rightarrow> tracker \<Rightarrow> id \<Rightarrow> id \<Rightarrow> id \<Rightarrow> (task_error + unit) \<times> tracker" where
  "remove_dep auth d caller source target =
     (case get_task d source of
        None \<Rightarrow> (Inl (Task_Not_Found source), d)
      | Some s \<Rightarrow>
          if \<not> auth caller (towner s) then (Inl (Task_Auth caller (towner s)), d)
          else (Inr (), d\<lparr>deps := delete_rows (\<lambda>e. dsource e = source \<and> dtarget e = target) (deps d)\<rparr>))"

section \<open>Ready work and trees\<close>

definition unclosed_blocker :: "tracker \<Rightarrow> task \<Rightarrow> bool" where
  "unclosed_blocker d t \<longleftrightarrow>
     (\<exists>e \<in> set (deps d). \<exists>b \<in> set (tasks d).
        tid b = dtarget e \<and> dsource e = tid t \<and> blocking (dtype e) \<and> tstatus b \<noteq> Closed)"

definition ready :: "tracker \<Rightarrow> id option \<Rightarrow> task list" where
  "ready d owner =
     order_by (\<lambda>t. (tpriority t, tcreated t))
       (filter (\<lambda>t. tstatus t = Open \<and> (truthy owner \<longrightarrow> towner t = the owner) \<and>
                    \<not> unclosed_blocker d t) (tasks d))"

definition children_of :: "tracker \<Rightarrow> id \<Rightarrow> task list" where
  "children_of d i = order_by tcreated (filter (\<lambda>t. tparent t = Some i) (tasks d))"

text \<open>\<open>buildTreeRecursive\<close>; the first argument bounds the depth of the recursion.\<close>

fun build_tree :: "nat \<Rightarrow> tracker \<Rightarrow> nat \<Rightarrow> task \<Rightarrow> tree_node option" where
  "build_tree 0 d depth t = None"
| "build_tree (Suc n) d depth t =
     map_option (Tree_Node t depth) (those (map (build_tree n d (depth + 1)) (children_of d (tid t))))"

definition tree :: "nat \<Rightarrow> tracker \<Rightarrow> id \<Rightarrow> tree_node option option" where
  "tree n d root =
     (case get_task d root of
        None \<Rightarrow> Some None
      | Some t \<Rightarrow> map_option Some (build_tree n d 0 t))"

section \<open>The graph of blocking edges\<close>

definition block_edges :: "dep list \<Rightarrow> (id \<times> id) set" where
  "block_edges es = {(dsource e, dtarget e) | e. e \<in> set es \<and> blocking (dtype e)}"

lemma set_blocking_targets: "set (blocking_targets es i) = {j. (i, j) \<in> block_edges es}"
  by (auto simp: blocking_targets_def block_edges_def)

lemma finite_block_edges [simp]: "finite (block_edges es)"
proof -
  have "block_edges es = (\<lambda>e. (dsource e, dtarget e)) ` {e \<in> set es. blocking (dtype e)}"
    by (auto simp: block_edges_def)
  then show ?thesis by simp
qed

lemma block_edges_append [simp]: "block_edges (xs @ ys) = block_edges xs \<union> block_edges ys"
  by (auto simp: block_edges_def)

lemma block_edges_single [simp]:
  "block_edges [e] = (if blocking (dtype e) then {(dsource e, dtarget e)} else {})"
  by (auto simp: block_edges_def)

lemma block_edges_Nil [simp]: "block_edges [] = {}"
  by (simp add: block_edges_def)

lemma block_edges_delete: "block_edges (delete_rows p es) \<subseteq> block_edges es"
  by (auto simp: block_edges_def table_simps)

text \<open>The search of \<open>assertNoCycle\<close> decides reachability along blocking edges.\<close>

lemma closed_set_escape:
  assumes "(a, b) \<in> r\<^sup>*" and "a \<in> V" and "b \<notin> V" and "\<forall>x \<in> V. \<forall>y. (x, y) \<in> r \<longrightarrow> y \<in> V \<union> S"
  shows "\<exists>c \<in> S. (c, b) \<in> r\<^sup>*"
  using assms(1,2)
proof (induction rule: converse_rtrancl_induct)
  case base
  with assms(3) show ?case by simp
next
  case (step y z)
  show ?case
  proof (cases "z \<in> V")
    case False
    with assms(4) step.prems step.hyps(1) have "z \<in> S" by blast
    with step.hyps(2) show ?thesis by blast
  qed (use step in blast)
qed

lemma reaches_correct:
  assumes "source \<notin> visited"
    and "\<forall>x \<in> visited. \<forall>y. (x, y) \<in> block_edges es \<longrightarrow> y \<in> visited \<union> set stack"
  shows "reaches es source stack visited \<longleftrightarrow> (\<exists>c \<in> set stack. (c, source) \<in> (block_edges es)\<^sup>*)"
  using assms
proof (induction es source stack visited rule: reaches.induct)
  case (1 es source visited)
  then show ?case by simp
next
  case (2 es source current stack visited)
  consider "current = source" | "current \<noteq> source" "current \<in> visited"
    | "current \<noteq> source" "current \<notin> visited" by blast
  then show ?case
  proof cases
    case 1
    then show ?thesis by auto
  next
    case 2
    have cl: "\<forall>x \<in> visited. \<forall>y. (x, y) \<in> block_edges es \<longrightarrow> y \<in> visited \<union> set stack"
      using "2.prems"(2) 2 by auto
    have "\<exists>c \<in> set stack. (c, source) \<in> (block_edges es)\<^sup>*"
      if "(current, source) \<in> (block_edges es)\<^sup>*"
      using closed_set_escape [OF that 2(2) "2.prems"(1) cl] .
    with "2.IH"(1) [OF 2 "2.prems"(1) cl] 2 show ?thesis by auto
  next
    case 3
    let ?st = "rev (blocking_targets es current) @ stack"
    have cl: "\<forall>x \<in> insert current visited. \<forall>y. (x, y) \<in> block_edges es \<longrightarrow>
        y \<in> insert current visited \<union> set ?st"
      using "2.prems"(2) by (auto simp: set_blocking_targets)
    have "(current, source) \<in> (block_edges es)\<^sup>* \<longleftrightarrow>
        (\<exists>c. (current, c) \<in> block_edges es \<and> (c, source) \<in> (block_edges es)\<^sup>*)"
      using 3(1) by (metis converse_rtranclE converse_rtrancl_into_rtrancl)
    with "2.IH"(2) [OF 3 _ cl] "2.prems"(1) 3 show ?thesis
      by (auto simp: set_blocking_targets)
  qed
qed

lemma assert_no_cycle_iff:
  "assert_no_cycle es source target = None \<longleftrightarrow> (target, source) \<notin> (block_edges es)\<^sup>*"
  by (simp add: assert_no_cycle_def reaches_correct del: reaches.simps)

section \<open>Well-formedness\<close>

text \<open>
  Task ids are unique and non-empty, there is one edge for a pair of tasks, the blocking
  edges have no cycle, and the parent of a task, while its row exists, comes earlier in the
  table.
\<close>

definition wf_tracker :: "tracker \<Rightarrow> bool" where
  "wf_tracker d \<longleftrightarrow>
     distinct (map tid (tasks d)) \<and> distinct (map (\<lambda>e. (dsource e, dtarget e)) (deps d)) \<and>
     acyclic (block_edges (deps d)) \<and>
     sorted_wrt (\<lambda>a b. tparent a \<noteq> Some (tid b)) (tasks d) \<and>
     (\<forall>t \<in> set (tasks d). tid t \<noteq> [] \<and> tparent t \<noteq> Some (tid t))"

interpretation task_graph: dependency_graph wf_tracker "\<lambda>d. block_edges (deps d)"
  by unfold_locales (simp_all add: wf_tracker_def)

lemma wf_empty_tracker [simp]: "wf_tracker empty_tracker"
  by (simp add: wf_tracker_def empty_tracker_def acyclic_def)

lemma wf_add_dep_internal:
  assumes "wf_tracker d"
  shows "wf_tracker (snd (add_dep_internal d s t ty now))"
proof -
  have "acyclic (block_edges (deps d @ [\<lparr>dsource = s, dtarget = t, dtype = ty, dcreated = n\<rparr>]))"
    if "s \<noteq> t" "blocking ty \<longrightarrow> assert_no_cycle (deps d) s t = None" for n
    using assms that by (auto simp: assert_no_cycle_iff wf_tracker_def Un_commute)
  then show ?thesis
    using assms
    by (auto simp: add_dep_internal_def Let_def wf_tracker_def insert_row_def
        split: option.splits if_splits)
qed

lemma add_dep_internal_tasks [simp]: "tasks (snd (add_dep_internal d s t ty now)) = tasks d"
  by (auto simp: add_dep_internal_def Let_def split: option.splits)

lemma add_blocks_Cons:
  "snd (add_blocks d s (t # ts) now) =
    (let r = add_dep_internal d s t Blocks now
     in if isl (fst r) then snd r else snd (add_blocks (snd r) s ts now))"
  by (auto simp: Let_def split: prod.splits sum.splits)

lemma wf_add_blocks: "wf_tracker d \<Longrightarrow> wf_tracker (snd (add_blocks d s ts now))"
  by (induction ts arbitrary: d)
    (auto simp: add_blocks_Cons Let_def wf_add_dep_internal simp del: add_blocks.simps(2))

lemma add_blocks_tasks [simp]: "tasks (snd (add_blocks d s ts now)) = tasks d"
  by (induction ts arbitrary: d)
    (auto simp: add_blocks_Cons Let_def simp del: add_blocks.simps(2))

lemma add_parent_dep_snd:
  "snd (add_parent_dep d s p now) =
    (if truthy p then snd (add_dep_internal d s (the p) Parent_Child now) else d)"
  by (auto simp: add_parent_dep_def split: prod.splits sum.splits)

lemma create_task_snd:
  "snd (create_task auth d caller i nid now) =
    (if check_parent auth d caller (in_parent i) = None \<and> nid \<notin> tid ` set (tasks d)
     then let d1 = d\<lparr>tasks := tasks d @ [new_task caller i nid now]\<rparr>;
              r = add_parent_dep d1 nid (in_parent i) now
          in if isl (fst r) then snd r else snd (add_blocks (snd r) nid (in_depends_on i) now)
     else d)"
proof (cases "check_parent auth d caller (in_parent i) = None \<and> nid \<notin> tid ` set (tasks d)")
  case True
  let ?d1 = "d\<lparr>tasks := tasks d @ [new_task caller i nid now]\<rparr>"
  have ins: "insert_row tid (new_task caller i nid now) (tasks d) =
      Some (tasks d @ [new_task caller i nid now])"
    using True by (simp add: insert_row_def new_task_def)
  obtain r d2 where r: "add_parent_dep ?d1 nid (in_parent i) now = (r, d2)" by fastforce
  obtain q d3 where q: "add_blocks d2 nid (in_depends_on i) now = (q, d3)" by fastforce
  show ?thesis
    using True ins r q
    by (cases r; cases q) (simp_all add: create_task_def split: option.split)
next
  case False
  then show ?thesis by (auto simp: create_task_def insert_row_def new_task_def split: option.split)
qed

text \<open>What \<open>nanoid\<close> promises: the id of a new task is not in the tables.\<close>

definition fresh_id :: "tracker \<Rightarrow> id \<Rightarrow> bool" where
  "fresh_id d i \<longleftrightarrow> i \<noteq> [] \<and> (\<forall>t \<in> set (tasks d). tid t \<noteq> i \<and> tparent t \<noteq> Some i) \<and>
     (\<forall>e \<in> set (deps d). dsource e \<noteq> i \<and> dtarget e \<noteq> i)"

lemma wf_create_task:
  assumes "wf_tracker d" "fresh_id d nid" "in_parent i \<noteq> Some nid"
  shows "wf_tracker (snd (create_task auth d caller i nid now))"
proof -
  have "wf_tracker (d\<lparr>tasks := tasks d @ [new_task caller i nid now]\<rparr>)"
    using assms by (auto simp: wf_tracker_def fresh_id_def new_task_def sorted_wrt_append)
  then show ?thesis
    by (auto simp: create_task_snd Let_def add_parent_dep_snd
        intro!: wf_add_blocks wf_add_dep_internal assms(1))
qed

lemma wf_update_rows:
  assumes "wf_tracker d" and "\<And>t. tid (f t) = tid t \<and> tparent (f t) = tparent t"
  shows "wf_tracker (d\<lparr>tasks := update_rows p f (tasks d)\<rparr>)"
proof -
  have g: "tid (if p t then f t else t) = tid t" "tparent (if p t then f t else t) = tparent t" for t
    using assms(2) by simp_all
  have "sorted_wrt (\<lambda>a b. tparent a \<noteq> Some (tid b)) (update_rows p f (tasks d))"
    using assms(1) by (simp add: wf_tracker_def update_rows_def sorted_wrt_map g)
  moreover have "map tid (update_rows p f (tasks d)) = map tid (tasks d)"
    using assms(2) by (simp add: map_update_rows)
  moreover have "\<forall>t \<in> set (update_rows p f (tasks d)). tid t \<noteq> [] \<and> tparent t \<noteq> Some (tid t)"
  proof
    fix u assume "u \<in> set (update_rows p f (tasks d))"
    then obtain t where t: "t \<in> set (tasks d)" "u = (if p t then f t else t)"
      unfolding set_update_rows by blast
    have "tid t \<noteq> [] \<and> tparent t \<noteq> Some (tid t)" using assms(1) t(1) by (simp add: wf_tracker_def)
    then show "tid u \<noteq> [] \<and> tparent u \<noteq> Some (tid u)" by (simp only: t(2) g not_False_eq_True)
  qed
  ultimately show ?thesis using assms(1) by (simp add: wf_tracker_def)
qed

lemma wf_update_task: "wf_tracker d \<Longrightarrow> wf_tracker (snd (update_task auth d caller i u now))"
  by (auto simp: update_task_def Let_def apply_update_def split: option.splits intro!: wf_update_rows)

lemma wf_close_task: "wf_tracker d \<Longrightarrow> wf_tracker (snd (close_task auth d caller i reason now))"
  by (auto simp: close_task_def Let_def close_row_def split: option.splits intro!: wf_update_rows)

lemma sorted_wrt_delete_rows: "sorted_wrt P xs \<Longrightarrow> sorted_wrt P (delete_rows p xs)"
  by (simp add: delete_rows_def sorted_wrt_filter)

lemma wf_subtables:
  assumes "wf_tracker d"
  shows "wf_tracker (d\<lparr>deps := delete_rows p (deps d), tasks := delete_rows q (tasks d)\<rparr>)"
    and "wf_tracker (d\<lparr>deps := delete_rows p (deps d)\<rparr>)"
  using assms
  by (auto simp: wf_tracker_def delete_rows_distinct sorted_wrt_delete_rows table_simps
      intro: acyclic_subset [OF _ block_edges_delete])

lemma wf_delete_by_session: "wf_tracker d \<Longrightarrow> wf_tracker (snd (delete_by_session d caller))"
  by (auto simp: delete_by_session_def Let_def wf_subtables)

lemma wf_add_dep: "wf_tracker d \<Longrightarrow> wf_tracker (snd (add_dep auth d caller s t ty now))"
  by (auto simp: add_dep_def wf_add_dep_internal split: option.splits)

lemma wf_remove_dep: "wf_tracker d \<Longrightarrow> wf_tracker (snd (remove_dep auth d caller s t))"
  by (auto simp: remove_dep_def wf_subtables split: option.splits)

section \<open>Reachable trackers\<close>

inductive tracker_step :: "auth \<Rightarrow> id \<Rightarrow> tracker \<Rightarrow> tracker \<Rightarrow> bool" for auth caller where
  step_create: "fresh_id d nid \<Longrightarrow> in_parent i \<noteq> Some nid \<Longrightarrow>
    tracker_step auth caller d (snd (create_task auth d caller i nid now))"
| step_update: "tracker_step auth caller d (snd (update_task auth d caller i u now))"
| step_close: "tracker_step auth caller d (snd (close_task auth d caller i reason now))"
| step_delete: "tracker_step auth caller d (snd (delete_by_session d caller))"
| step_add_dep: "tracker_step auth caller d (snd (add_dep auth d caller s t ty now))"
| step_remove_dep: "tracker_step auth caller d (snd (remove_dep auth d caller s t))"

inductive reachable_tracker :: "auth \<Rightarrow> tracker \<Rightarrow> bool" for auth where
  reach_empty: "reachable_tracker auth empty_tracker"
| reach_step: "reachable_tracker auth d \<Longrightarrow> tracker_step auth caller d d' \<Longrightarrow> reachable_tracker auth d'"

lemma wf_tracker_step: "tracker_step auth caller d d' \<Longrightarrow> wf_tracker d \<Longrightarrow> wf_tracker d'"
  by (induction rule: tracker_step.induct)
    (auto intro: wf_create_task wf_update_task wf_close_task wf_delete_by_session wf_add_dep wf_remove_dep)

lemma wf_reachable_tracker: "reachable_tracker auth d \<Longrightarrow> wf_tracker d"
  by (induction rule: reachable_tracker.induct) (auto intro: wf_tracker_step)

section \<open>What a step leaves alone\<close>

lemma get_task_SomeD: "get_task d i = Some t \<Longrightarrow> t \<in> set (tasks d) \<and> tid t = i"
  unfolding get_task_def by (rule get_row_SomeD)

lemma get_task_update_rows:
  "(\<And>t. tid (f t) = tid t) \<Longrightarrow>
    get_task (d\<lparr>tasks := update_rows p f (tasks d)\<rparr>) i =
      map_option (\<lambda>t. if p t then f t else t) (get_task d i)"
  by (simp add: get_task_def table_simps)

lemma get_task_snoc:
  "get_task (d\<lparr>tasks := tasks d @ [r]\<rparr>) i =
    (case get_task d i of None \<Rightarrow> if tid r = i then Some r else None | Some t \<Rightarrow> Some t)"
  by (simp add: get_task_def table_simps split: option.split)

lemma get_task_deps [simp]: "get_task (d\<lparr>deps := es\<rparr>) i = get_task d i"
  by (simp add: get_task_def)

lemma get_task_add_dep_internal [simp]:
  "get_task (snd (add_dep_internal d s t ty now)) i = get_task d i"
  by (simp add: get_task_def)

lemma get_task_add_blocks [simp]: "get_task (snd (add_blocks d s ts now)) i = get_task d i"
  by (simp add: get_task_def)

lemma get_task_add_parent_dep [simp]: "get_task (snd (add_parent_dep d s p now)) i = get_task d i"
  by (simp add: add_parent_dep_snd)

lemma get_task_create:
  "get_task d i = Some t \<Longrightarrow> get_task (snd (create_task auth d caller inp nid now)) i = Some t"
  by (simp add: create_task_snd Let_def get_task_snoc)

lemma get_task_add_dep: "get_task (snd (add_dep auth d caller s t ty now)) i = get_task d i"
  by (simp add: add_dep_def split: option.split)

lemma get_task_remove_dep: "get_task (snd (remove_dep auth d caller s t)) i = get_task d i"
  by (simp add: remove_dep_def split: option.split)

lemma update_task_cases:
  "snd (update_task auth d caller i u now) = d \<or>
    (\<exists>t. get_task d i = Some t \<and> auth caller (towner t) \<and>
      (\<forall>s. up_status u = Some s \<longrightarrow> s \<in> valid_transitions (tstatus t)) \<and>
      snd (update_task auth d caller i u now) =
        d\<lparr>tasks := update_rows (\<lambda>r. tid r = i) (apply_update u now) (tasks d)\<rparr>)"
  by (auto simp: update_task_def Let_def assert_valid_transition_def split: option.splits if_splits)

lemma close_task_cases:
  "snd (close_task auth d caller i reason now) = d \<or>
    (\<exists>t. get_task d i = Some t \<and> auth caller (towner t) \<and> Closed \<in> valid_transitions (tstatus t) \<and>
      snd (close_task auth d caller i reason now) =
        d\<lparr>tasks := update_rows (\<lambda>r. tid r = i) (close_row reason now) (tasks d)\<rparr>)"
  by (auto simp: close_task_def Let_def assert_valid_transition_def split: option.splits if_splits)

lemma apply_update_tid [simp]: "tid (apply_update u now t) = tid t"
  by (simp add: apply_update_def)

lemma close_row_tid [simp]: "tid (close_row reason now t) = tid t"
  by (simp add: close_row_def)

lemma get_task_delete:
  assumes "wf_tracker d" and "get_task d i = Some t"
  shows "get_task (snd (delete_by_session d caller)) i = (if towner t = caller then None else Some t)"
proof -
  have dist: "distinct (map tid (tasks d))" using assms(1) by (simp add: wf_tracker_def)
  have "list_tasks d (Some caller) \<noteq> []" if "towner t = caller"
    using get_task_SomeD [OF assms(2)] that by (auto simp: list_tasks_def filter_empty_conv)
  then show ?thesis
    using assms(2) by (auto simp: delete_by_session_def Let_def get_task_def get_row_delete [OF dist])
qed

section \<open>Edges a step adds or removes\<close>

definition out_deps :: "tracker \<Rightarrow> id \<Rightarrow> dep set" where
  "out_deps d i = {e \<in> set (deps d). dsource e = i}"

lemma out_deps_add_dep_internal:
  "i \<noteq> s \<Longrightarrow> out_deps (snd (add_dep_internal d s t ty now)) i = out_deps d i"
  by (auto simp: add_dep_internal_def Let_def out_deps_def insert_row_def split: option.splits)

lemma out_deps_add_blocks:
  "i \<noteq> s \<Longrightarrow> out_deps (snd (add_blocks d s ts now)) i = out_deps d i"
  by (induction ts arbitrary: d)
    (auto simp: add_blocks_Cons Let_def out_deps_add_dep_internal simp del: add_blocks.simps(2))

lemma out_deps_tasks [simp]: "out_deps (d\<lparr>tasks := ts\<rparr>) i = out_deps d i"
  by (simp add: out_deps_def)

lemma out_deps_create:
  "i \<noteq> nid \<Longrightarrow> out_deps (snd (create_task auth d caller inp nid now)) i = out_deps d i"
  by (simp add: create_task_snd Let_def add_parent_dep_snd out_deps_add_blocks
      out_deps_add_dep_internal)

lemma out_deps_delete:
  assumes "wf_tracker d" "get_task d i = Some t" "towner t \<noteq> caller"
  shows "out_deps (snd (delete_by_session d caller)) i = out_deps d i"
proof -
  have "u = t" if "u \<in> set (tasks d)" "tid u = i" for u
    using that assms(1) get_task_SomeD [OF assms(2)]
    by (auto simp: wf_tracker_def distinct_map dest: inj_onD)
  with assms(3) show ?thesis
    by (auto simp: delete_by_session_def Let_def out_deps_def delete_rows_def)
qed

section \<open>The tree of a task\<close>

text \<open>The position of a task in its table; a parent has a smaller position.\<close>

definition position :: "tracker \<Rightarrow> task \<Rightarrow> nat" where
  "position d t = length (takeWhile (\<lambda>u. u \<noteq> t) (tasks d))"

lemma length_takeWhile_member: "x \<in> set xs \<Longrightarrow> length (takeWhile (\<lambda>u. u \<noteq> x) xs) < length xs"
  by (induction xs) auto

lemma position_less: "t \<in> set (tasks d) \<Longrightarrow> position d t < length (tasks d)"
  unfolding position_def by (rule length_takeWhile_member)

lemma nth_position: "t \<in> set (tasks d) \<Longrightarrow> tasks d ! position d t = t"
  unfolding position_def by (drule length_takeWhile_member, drule nth_length_takeWhile) simp

lemma position_parent:
  assumes "wf_tracker d" "t \<in> set (tasks d)" "p \<in> set (tasks d)" "tparent t = Some (tid p)"
  shows "position d p < position d t"
proof (rule ccontr)
  assume "\<not> position d p < position d t"
  then consider "position d t < position d p" | "position d t = position d p" by linarith
  then show False
  proof cases
    case 1
    have "sorted_wrt (\<lambda>a b. tparent a \<noteq> Some (tid b)) (tasks d)"
      using assms(1) by (simp add: wf_tracker_def)
    from sorted_wrt_nth_less [OF this 1 position_less [OF assms(3)]] show False
      using assms by (simp add: nth_position)
  next
    case 2
    then have "t = p" using nth_position assms(2,3) by metis
    with assms(1,2,4) show False by (auto simp: wf_tracker_def)
  qed
qed

definition parent_task :: "tracker \<Rightarrow> task \<Rightarrow> task option" where
  "parent_task d t = Option.bind (tparent t) (get_task d)"

lemma parent_task_SomeD:
  "parent_task d t = Some p \<Longrightarrow> p \<in> set (tasks d) \<and> tparent t = Some (tid p)"
  by (auto simp: parent_task_def bind_eq_Some_conv dest: get_task_SomeD)

interpretation task_log: parent_log wf_tracker "\<lambda>d. set (tasks d)" parent_task position
  by unfold_locales (auto dest: parent_task_SomeD intro: position_parent)

text \<open>The tasks of a subtree: those whose chain of parents meets its root.\<close>

definition below :: "tracker \<Rightarrow> task \<Rightarrow> task \<Rightarrow> bool" where
  "below d root t \<longleftrightarrow> (\<exists>ns. chain (parent_task d) (Some t) = Some ns \<and> root \<in> set ns)"

fun tree_tasks :: "tree_node \<Rightarrow> task list" where
  "tree_tasks (Tree_Node t depth cs) = t # concat (map tree_tasks cs)"

lemma set_children_of: "set (children_of d i) = {t \<in> set (tasks d). tparent t = Some i}"
  by (auto simp: children_of_def)

lemma parent_of_child:
  assumes "wf_tracker d" "t \<in> set (tasks d)" "c \<in> set (children_of d (tid t))"
  shows "parent_task d c = Some t"
proof -
  have "get_task d (tid t) = Some t"
    using assms by (simp add: get_task_def get_row_member wf_tracker_def)
  with assms(3) show ?thesis by (simp add: set_children_of parent_task_def)
qed

lemma below_refl: "wf_tracker d \<Longrightarrow> t \<in> set (tasks d) \<Longrightarrow> below d t t"
  using task_log.chain_total by (fastforce simp: below_def)

lemma below_parent_iff:
  assumes "wf_tracker d" "t \<in> set (tasks d)"
  shows "below d root t \<longleftrightarrow> t = root \<or> (\<exists>p. parent_task d t = Some p \<and> below d root p)"
proof (cases "parent_task d t")
  case None
  then show ?thesis by (auto simp: below_def chain_Some)
next
  case (Some p)
  then have "p \<in> set (tasks d)" by (auto dest: parent_task_SomeD)
  then obtain ns where "chain (parent_task d) (Some p) = Some (p # ns)"
    using task_log.chain_total [OF assms(1)] by blast
  with Some show ?thesis by (auto simp: below_def chain_Some [of _ t])
qed

lemma below_position:
  assumes "wf_tracker d" "t \<in> set (tasks d)" "below d root t"
  shows "root \<in> set (tasks d) \<and> position d root \<le> position d t"
proof -
  obtain ns where "chain (parent_task d) (Some t) = Some (t # ns)" "set ns \<subseteq> set (tasks d)"
    "\<forall>m \<in> set ns. position d m < position d t"
    using task_log.chain_total [OF assms(1,2)] by blast
  with assms(2,3) show ?thesis by (auto simp: below_def)
qed

text \<open>A subtree is its root together with the subtrees of its children.\<close>

lemma below_children:
  assumes "wf_tracker d" "root \<in> set (tasks d)" "t \<in> set (tasks d)"
  shows "below d root t \<longleftrightarrow> t = root \<or> (\<exists>c \<in> set (children_of d (tid root)). below d c t)"
  using assms(3)
proof (induction "position d t" arbitrary: t rule: less_induct)
  case less
  show ?case
  proof (cases "parent_task d t")
    case None
    then have "below d c t \<longleftrightarrow> t = c" for c
      using below_parent_iff [OF assms(1) less.prems] by simp
    then show ?thesis
      using None parent_of_child [OF assms(1,2)] by auto
  next
    case (Some p)
    then have p: "p \<in> set (tasks d)" "tparent t = Some (tid p)"
      by (auto dest: parent_task_SomeD)
    then have pos: "position d p < position d t"
      using position_parent [OF assms(1) less.prems] by simp
    have "t \<in> set (children_of d (tid root)) \<longleftrightarrow> p = root"
    proof
      assume "t \<in> set (children_of d (tid root))"
      from parent_of_child [OF assms(1,2) this] Some show "p = root" by simp
    next
      assume "p = root"
      with less.prems p show "t \<in> set (children_of d (tid root))" by (simp add: set_children_of)
    qed
    with less.hyps [OF pos p(1)] Some below_parent_iff [OF assms(1) less.prems]
    show ?thesis by auto
  qed
qed

lemma siblings_disjoint:
  assumes "wf_tracker d" "root \<in> set (tasks d)" "t \<in> set (tasks d)"
    and "a \<in> set (children_of d (tid root))" "b \<in> set (children_of d (tid root))"
    and "below d a t" "below d b t"
  shows "a = b"
  using assms(3,6,7)
proof (induction "position d t" arbitrary: t rule: less_induct)
  case less
  have pa: "parent_task d a = Some root" "parent_task d b = Some root"
    using parent_of_child [OF assms(1,2)] assms(4,5) by simp_all
  have "False" if "below d x root" "parent_task d x = Some root" "x \<in> set (tasks d)" for x
    using below_position [OF assms(1,2) that(1)]
      task_log.parent_rank [OF assms(1) that(3,2)] by simp
  moreover have "a \<in> set (tasks d)" "b \<in> set (tasks d)" using assms(4,5) by (auto simp: set_children_of)
  ultimately have no: "\<not> below d a root" "\<not> below d b root" using pa by blast+
  show ?case
  proof (cases "parent_task d t")
    case None
    then show ?thesis using less.prems below_parent_iff [OF assms(1)] by auto
  next
    case (Some p)
    then have p: "p \<in> set (tasks d)" "position d p < position d t"
      using task_log.parent_rank [OF assms(1) less.prems(1)] by (auto dest: parent_task_SomeD)
    have "t = x \<Longrightarrow> parent_task d x = Some root \<Longrightarrow> p = root" for x using Some by simp
    have up: "t = x \<or> below d x p" if "below d x t" for x
      using that below_parent_iff [OF assms(1) less.prems(1), of x] Some by simp
    have top: "p = root" if "t = a \<or> t = b" using that pa Some by auto
    from up [OF less.prems(2)] up [OF less.prems(3)] top no
    have "t = a \<and> t = b \<or> below d a p \<and> below d b p" by blast
    with less.hyps [OF p(2,1)] show ?thesis by blast
  qed
qed

lemma those_map_Some:
  "(\<And>x. x \<in> set xs \<Longrightarrow> \<exists>y. f x = Some y \<and> Q x y) \<Longrightarrow>
    \<exists>ys. those (map f xs) = Some ys \<and> list_all2 Q xs ys"
proof (induction xs)
  case (Cons x xs)
  then obtain y where "f x = Some y" "Q x y" by fastforce
  moreover obtain ys where "those (map f xs) = Some ys" "list_all2 Q xs ys"
    using Cons by fastforce
  ultimately show ?case by simp
qed simp

lemma concat_disjoint:
  assumes "list_all2 (\<lambda>c y. set (f y) = S c \<and> distinct (f y)) cs ys"
    and "distinct cs" and "\<And>a b. a \<in> set cs \<Longrightarrow> b \<in> set cs \<Longrightarrow> a \<noteq> b \<Longrightarrow> S a \<inter> S b = {}"
  shows "set (concat (map f ys)) = (\<Union>c \<in> set cs. S c) \<and> distinct (concat (map f ys))"
  using assms
proof (induction rule: list_all2_induct)
  case (Cons c cs y ys)
  then have "set (concat (map f ys)) = (\<Union>c \<in> set cs. S c) \<and> distinct (concat (map f ys))"
    by simp
  moreover have "S c \<inter> (\<Union>b \<in> set cs. S b) = {}" using Cons.prems by fastforce
  ultimately show ?case using Cons.hyps by simp
qed simp

lemma build_tree_returns:
  assumes "wf_tracker d" "t \<in> set (tasks d)" "length (tasks d) - position d t \<le> n"
  shows "\<exists>node. build_tree n d k t = Some node \<and>
    set (tree_tasks node) = {u \<in> set (tasks d). below d t u} \<and> distinct (tree_tasks node)"
  using assms(2,3)
proof (induction n arbitrary: t k)
  case 0
  with position_less show ?case by fastforce
next
  case (Suc n)
  let ?cs = "children_of d (tid t)" and ?S = "\<lambda>c. {u \<in> set (tasks d). below d c u}"
  have child: "c \<in> set (tasks d)" "position d t < position d c" if "c \<in> set ?cs" for c
    using that position_parent [OF assms(1) _ Suc.prems(1)] by (auto simp: set_children_of)
  have "\<exists>y. build_tree n d (k + 1) c = Some y \<and> set (tree_tasks y) = ?S c \<and> distinct (tree_tasks y)"
    if "c \<in> set ?cs" for c
    using child [OF that] Suc.prems(2) by (intro Suc.IH) auto
  then obtain ys where ys: "those (map (build_tree n d (k + 1)) ?cs) = Some ys"
    "list_all2 (\<lambda>c y. set (tree_tasks y) = ?S c \<and> distinct (tree_tasks y)) ?cs ys"
    using those_map_Some [of ?cs "build_tree n d (k + 1)"
        "\<lambda>c y. set (tree_tasks y) = ?S c \<and> distinct (tree_tasks y)"] by blast
  have "distinct ?cs"
    using assms(1) by (auto simp: children_of_def wf_tracker_def distinct_map)
  moreover have "?S a \<inter> ?S b = {}" if "a \<in> set ?cs" "b \<in> set ?cs" "a \<noteq> b" for a b
    using siblings_disjoint [OF assms(1) Suc.prems(1) _ that(1,2)] that(3) by blast
  ultimately have cs: "set (concat (map tree_tasks ys)) = (\<Union>c \<in> set ?cs. ?S c)"
    "distinct (concat (map tree_tasks ys))"
    using concat_disjoint [OF ys(2)] by blast+
  have "t \<notin> ?S c" if "c \<in> set ?cs" for c
    using below_position [OF assms(1) Suc.prems(1)] child(2) [OF that] by (metis (no_types, lifting) mem_Collect_eq not_le)
  then have "t \<notin> set (concat (map tree_tasks ys))" unfolding cs(1) by blast
  moreover have "insert t (\<Union>c \<in> set ?cs. ?S c) = ?S t"
    using below_children [OF assms(1) Suc.prems(1)] Suc.prems(1) by blast
  ultimately have "set (tree_tasks (Tree_Node t k ys)) = ?S t \<and> distinct (tree_tasks (Tree_Node t k ys))"
    unfolding tree_tasks.simps list.set distinct.simps using cs by metis
  with ys(1) show ?case by (intro exI [of _ "Tree_Node t k ys"]) simp
qed

section \<open>A small tracker for the witnesses\<close>

definition demo_input :: "id option \<Rightarrow> id list \<Rightarrow> create_input" where
  "demo_input p ds = \<lparr>in_title = ''t'', in_description = None, in_acceptance = None, in_type = None,
     in_priority = None, in_parent = p, in_depends_on = ds\<rparr>"

definition tracker1 :: tracker where
  "tracker1 = snd (create_task default_auth empty_tracker ''s'' (demo_input None []) ''a'' 1000)"

definition tracker2 :: tracker where
  "tracker2 = snd (create_task default_auth tracker1 ''s'' (demo_input (Some ''a'') []) ''b'' 2000)"

definition tracker3 :: tracker where
  "tracker3 = snd (create_task default_auth tracker2 ''s'' (demo_input None [''b'']) ''c'' 3000)"

lemma block_edges_Cons:
  "block_edges (e # es) =
    (if blocking (dtype e) then insert (dsource e, dtarget e) (block_edges es) else block_edges es)"
  by (auto simp: block_edges_def)

lemmas tracker_eval = create_task_snd check_parent_def demo_input_def new_task_def empty_tracker_def
  add_parent_dep_def add_dep_internal_def Let_def insert_row_def assert_no_cycle_def blocking_targets_def
  blocking_def get_task_def get_row_def default_auth_def

definition demo_task :: "id \<Rightarrow> id option \<Rightarrow> int \<Rightarrow> task" where
  "demo_task i p now = new_task ''s'' (demo_input p []) i now"

lemma tracker_values:
  "tracker1 = \<lparr>tasks = [demo_task ''a'' None 1000], deps = []\<rparr>"
  "tracker2 = \<lparr>tasks = [demo_task ''a'' None 1000, demo_task ''b'' (Some ''a'') 2000],
     deps = [\<lparr>dsource = ''b'', dtarget = ''a'', dtype = Parent_Child, dcreated = sql_now 2000\<rparr>]\<rparr>"
  "tracker3 = \<lparr>tasks = [demo_task ''a'' None 1000, demo_task ''b'' (Some ''a'') 2000, demo_task ''c'' None 3000],
     deps = [\<lparr>dsource = ''b'', dtarget = ''a'', dtype = Parent_Child, dcreated = sql_now 2000\<rparr>,
             \<lparr>dsource = ''c'', dtarget = ''b'', dtype = Blocks, dcreated = sql_now 3000\<rparr>]\<rparr>"
  by (simp_all add: tracker1_def tracker2_def tracker3_def demo_task_def tracker_eval)

lemma demo_task_simps [simp]:
  "tid (demo_task i p now) = i" "tparent (demo_task i p now) = p" "towner (demo_task i p now) = ''s''"
  "tstatus (demo_task i p now) = Open"
  by (simp_all add: demo_task_def new_task_def demo_input_def)

lemma reachable_demo: "reachable_tracker default_auth tracker3"
proof -
  have "reachable_tracker default_auth tracker1" unfolding tracker1_def
    by (rule reach_step [OF reach_empty step_create])
      (simp_all add: fresh_id_def empty_tracker_def demo_input_def)
  then have "reachable_tracker default_auth tracker2" unfolding tracker2_def
    by (rule reach_step [OF _ step_create])
      (simp_all add: fresh_id_def tracker_values demo_input_def)
  then show ?thesis unfolding tracker3_def
    by (rule reach_step [OF _ step_create])
      (simp_all add: fresh_id_def tracker_values demo_input_def)
qed

lemma demo_task_neq [simp]: "i \<noteq> j \<Longrightarrow> demo_task i p n \<noteq> demo_task j q m"
  by (metis demo_task_simps(1))

lemma get_task_update:
  assumes "get_task d i = Some t"
  shows "\<exists>t'. get_task (snd (update_task auth d caller j u now)) i = Some t' \<and>
    (t' = t \<or> auth caller (towner t) \<and> t' = apply_update u now t \<and>
      (\<forall>s. up_status u = Some s \<longrightarrow> s \<in> valid_transitions (tstatus t)))"
proof (cases "j = i")
  case True
  from update_task_cases [of auth d caller i u now] True assms show ?thesis
    by (auto simp: get_task_update_rows)
next
  case False
  have "tid t = i" using assms by (simp add: get_task_SomeD)
  with update_task_cases [of auth d caller j u now] False assms show ?thesis
    by (auto simp: get_task_update_rows)
qed

lemma get_task_close:
  assumes "get_task d i = Some t"
  shows "\<exists>t'. get_task (snd (close_task auth d caller j reason now)) i = Some t' \<and>
    (t' = t \<or> auth caller (towner t) \<and> t' = close_row reason now t \<and>
      Closed \<in> valid_transitions (tstatus t))"
proof (cases "j = i")
  case True
  from close_task_cases [of auth d caller i reason now] True assms show ?thesis
    by (auto simp: get_task_update_rows)
next
  case False
  have "tid t = i" using assms by (simp add: get_task_SomeD)
  with close_task_cases [of auth d caller j reason now] False assms show ?thesis
    by (auto simp: get_task_update_rows)
qed

section \<open>Properties\<close>

text \<open>C24: In every tracker the methods can produce the blocking edges have no cycle, and the
  cycle check rejects exactly the edges that would close one: its depth-first search, which
  always ends, finds the source from the target iff the target already depends on it.\<close>

theorem blocking_edges_acyclic:
  assumes "reachable_tracker auth d"
  shows "acyclic (block_edges (deps d)) \<and>
    (\<forall>source target ty now. source \<noteq> target \<longrightarrow> blocking ty \<longrightarrow>
      (fst (add_dep_internal d source target ty now) = Inl (Task_Cycle [source, target]) \<longleftrightarrow>
       (target, source) \<in> (block_edges (deps d))\<^sup>*))"
proof (intro conjI allI impI)
  show "acyclic (block_edges (deps d))"
    by (rule task_graph.edges_acyclic [OF wf_reachable_tracker [OF assms]])
next
  fix source target :: id and ty and now :: int
  assume "source \<noteq> target" "blocking ty"
  then have "fst (add_dep_internal d source target ty now) = Inl (Task_Cycle [source, target]) \<longleftrightarrow>
      assert_no_cycle (deps d) source target \<noteq> None"
    by (auto simp: add_dep_internal_def Let_def assert_no_cycle_def split: option.split)
  then show "fst (add_dep_internal d source target ty now) = Inl (Task_Cycle [source, target]) \<longleftrightarrow>
      (target, source) \<in> (block_edges (deps d))\<^sup>*"
    by (simp add: assert_no_cycle_iff del: not_None_eq)
qed

theorem blocking_edges_acyclic_witness:
  "fst (add_dep_internal tracker3 ''a'' ''c'' Blocks 9) = Inl (Task_Cycle [''a'', ''c'']) \<and>
    acyclic (block_edges (deps tracker3))"
proof -
  have "(''c'', ''b'') \<in> block_edges (deps tracker3)" "(''b'', ''a'') \<in> block_edges (deps tracker3)"
    by (simp_all add: tracker_values block_edges_Cons blocking_def)
  then have "(''c'', ''a'') \<in> (block_edges (deps tracker3))\<^sup>*" by (meson rtrancl.simps)
  then show ?thesis
    using blocking_edges_acyclic [OF reachable_demo] by (simp add: blocking_def)
qed

text \<open>work never starves. If no task is in progress or blocked and some task is open, then
  some task is ready, whatever edges were added.\<close>

theorem ready_work_exists:
  assumes "reachable_tracker auth d" and "t \<in> set (tasks d)" and "tstatus t = Open"
    and "\<forall>u \<in> set (tasks d). tstatus u = Open \<or> tstatus u = Closed"
  shows "ready d None \<noteq> []"
proof -
  let ?A = "tid ` {u \<in> set (tasks d). tstatus u = Open}"
  have "tid t \<in> ?A" using assms(2,3) by blast
  from task_graph.independent_member [OF wf_reachable_tracker [OF assms(1)] this]
  obtain u where u: "u \<in> set (tasks d)" "tstatus u = Open"
    "\<forall>n \<in> ?A. (tid u, n) \<notin> block_edges (deps d)" by blast
  have "\<not> unclosed_blocker d u"
  proof
    assume "unclosed_blocker d u"
    then obtain e b where "e \<in> set (deps d)" "b \<in> set (tasks d)" "tid b = dtarget e"
      "dsource e = tid u" "blocking (dtype e)" "tstatus b \<noteq> Closed"
      by (auto simp: unclosed_blocker_def)
    then have "(tid u, tid b) \<in> block_edges (deps d)"
      unfolding block_edges_def by (intro CollectI exI [of _ e]) simp
    moreover have "tid b \<in> ?A" using assms(4) \<open>b \<in> set (tasks d)\<close> \<open>tstatus b \<noteq> Closed\<close> by blast
    ultimately show False using u(3) by blast
  qed
  with u have "u \<in> set (ready d None)" by (simp add: ready_def)
  then show ?thesis by auto
qed

theorem ready_work_exists_witness: "ready tracker3 None \<noteq> []"
  by (rule ready_work_exists [OF reachable_demo, of "demo_task ''a'' None 1000"])
    (simp_all add: tracker_values)

text \<open>Closing a task makes every open task ready that was waiting for it alone, and takes
  no other task out of the ready list.\<close>

theorem close_unblocks:
  assumes "close_task auth d caller i reason now = (Inr r, d')"
    and "t \<in> set (tasks d)" and "tstatus t = Open" and "tid t \<noteq> i"
    and "\<forall>e \<in> set (deps d). \<forall>b \<in> set (tasks d). dsource e = tid t \<longrightarrow> blocking (dtype e) \<longrightarrow>
      tid b = dtarget e \<longrightarrow> tstatus b = Closed \<or> tid b = i"
  shows "t \<in> set (ready d' None) \<and> {u \<in> set (ready d None). tid u \<noteq> i} \<subseteq> set (ready d' None)"
proof -
  have d': "d' = d\<lparr>tasks := update_rows (\<lambda>r. tid r = i) (close_row reason now) (tasks d)\<rparr>"
    using assms(1) by (auto simp: close_task_def Let_def split: option.splits if_splits)
  have keep: "u \<in> set (tasks d')" if "u \<in> set (tasks d)" "tid u \<noteq> i" for u
    using that by (force simp: d' update_rows_def)
  have blockers: "\<exists>b \<in> set (tasks d). tid b = tid b' \<and> tstatus b \<noteq> Closed \<and> tid b \<noteq> i"
    if "b' \<in> set (tasks d')" "tstatus b' \<noteq> Closed" for b'
    using that by (auto simp: d' update_rows_def close_row_def split: if_splits)
  have "\<not> unclosed_blocker d' t"
    using blockers assms(5) by (fastforce simp: unclosed_blocker_def d')
  moreover have "\<not> unclosed_blocker d' u" if "\<not> unclosed_blocker d u" for u
    using blockers that by (fastforce simp: unclosed_blocker_def d')
  ultimately show ?thesis
    using keep assms(2-4) by (auto simp: ready_def)
qed

theorem close_unblocks_witness:
  "\<exists>d'. demo_task ''b'' (Some ''a'') 2000 \<in> set (ready d' None) \<and>
    demo_task ''b'' (Some ''a'') 2000 \<notin> set (ready tracker3 None)"
proof -
  obtain r d' where c: "close_task default_auth tracker3 ''s'' ''a'' ''done'' 9 = (Inr r, d')"
    by (simp add: tracker_values close_task_def get_task_def get_row_def default_auth_def
        assert_valid_transition_def Let_def)
  have "demo_task ''b'' (Some ''a'') 2000 \<in> set (ready d' None)"
    using close_unblocks [OF c, of "demo_task ''b'' (Some ''a'') 2000"]
    by (simp add: tracker_values demo_task_def new_task_def demo_input_def)
  moreover have "demo_task ''b'' (Some ''a'') 2000 \<notin> set (ready tracker3 None)"
    by (simp add: ready_def unclosed_blocker_def tracker_values blocking_def)
  ultimately show ?thesis by blast
qed


text \<open>The status of a task moves only along the transition table, whichever method runs, and
  a closed task stays closed with the reason and the time of its closing.\<close>

theorem task_status_machine:
  assumes "reachable_tracker auth d" and "tracker_step auth caller d d'"
    and "get_task d i = Some t" and "get_task d' i = Some t'"
  shows "(tstatus t' = tstatus t \<or> tstatus t' \<in> valid_transitions (tstatus t)) \<and>
    (tstatus t = Closed \<longrightarrow> treason t' = treason t \<and> tclosed t' = tclosed t)"
  using assms(2)
proof cases
  case (step_update j u now)
  with get_task_update [OF assms(3), of auth caller j u now] assms(4) show ?thesis
    by (auto simp: apply_update_def split: option.splits)
next
  case (step_close j reason now)
  with get_task_close [OF assms(3), of auth caller j reason now] assms(4) show ?thesis
    by (auto simp: close_row_def)
next
  case step_delete
  then show ?thesis
    using assms(3,4) get_task_delete [OF wf_reachable_tracker [OF assms(1)]] by (simp split: if_splits)
qed (use assms(3,4) in \<open>simp_all add: get_task_create get_task_add_dep get_task_remove_dep\<close>)

theorem task_status_machine_witness:
  "tstatus (close_row ''done'' 9 (demo_task ''a'' None 1000)) \<in> valid_transitions Open"
proof -
  let ?d' = "snd (close_task default_auth tracker3 ''s'' ''a'' ''done'' 9)"
  have "get_task ?d' ''a'' = Some (close_row ''done'' 9 (demo_task ''a'' None 1000))"
    by (simp add: tracker_values close_task_def get_task_def get_row_def default_auth_def
        assert_valid_transition_def Let_def update_rows_def)
  moreover have "get_task tracker3 ''a'' = Some (demo_task ''a'' None 1000)"
    by (simp add: tracker_values get_task_def get_row_def)
  ultimately have "tstatus (close_row ''done'' 9 (demo_task ''a'' None 1000)) = Open \<or>
      tstatus (close_row ''done'' 9 (demo_task ''a'' None 1000)) \<in> valid_transitions Open"
    using task_status_machine [OF reachable_demo step_close, of "''a''"] by fastforce
  then show ?thesis by (simp add: close_row_def)
qed

text \<open>Only a session with authority over its owner changes a task. If a call changes or
  removes the row of a task, or the edges that start at it, then the caller passed the
  authority check for the owner of the task or is the owner.\<close>

theorem task_writes_authorized:
  assumes "reachable_tracker auth d" and "tracker_step auth caller d d'"
    and "get_task d i = Some t" and "get_task d' i \<noteq> Some t \<or> out_deps d' i \<noteq> out_deps d i"
  shows "auth caller (towner t) \<or> caller = towner t"
proof -
  have wf: "wf_tracker d" by (rule wf_reachable_tracker [OF assms(1)])
  from assms(2) show ?thesis
  proof cases
    case (step_create nid inp now)
    moreover have "nid \<noteq> i" using step_create get_task_SomeD [OF assms(3)] by (auto simp: fresh_id_def)
    ultimately show ?thesis using assms(3,4) get_task_create out_deps_create by simp
  next
    case (step_update j u now)
    have "out_deps (snd (update_task auth d caller j u now)) i = out_deps d i"
      using update_task_cases [of auth d caller j u now] by auto
    with step_update get_task_update [OF assms(3), of auth caller j u now] assms(4) show ?thesis by auto
  next
    case (step_close j reason now)
    have "out_deps (snd (close_task auth d caller j reason now)) i = out_deps d i"
      using close_task_cases [of auth d caller j reason now] by auto
    with step_close get_task_close [OF assms(3), of auth caller j reason now] assms(4) show ?thesis by auto
  next
    case step_delete
    then show ?thesis
      using assms(3,4) get_task_delete [OF wf assms(3)] out_deps_delete [OF wf assms(3)]
      by (auto split: if_splits)
  next
    case (step_add_dep s u ty now)
    then show ?thesis
      using assms(3,4) out_deps_add_dep_internal [of i s]
      by (cases "i = s") (auto simp: get_task_add_dep add_dep_def split: option.splits if_splits)
  next
    case (step_remove_dep s u)
    then show ?thesis
      using assms(3,4)
      by (cases "i = s") (auto simp: get_task_remove_dep remove_dep_def out_deps_def delete_rows_def
          split: option.splits if_splits)
  qed
qed

theorem task_writes_authorized_witness:
  "default_auth ''s'' (towner (demo_task ''c'' None 3000)) \<or> ''s'' = towner (demo_task ''c'' None 3000)"
proof (rule task_writes_authorized [OF reachable_demo step_remove_dep [of default_auth "''s''" _ "''c''" "''b''"]])
  show "get_task tracker3 ''c'' = Some (demo_task ''c'' None 3000)"
    by (simp add: tracker_values get_task_def get_row_def)
  have "out_deps (snd (remove_dep default_auth tracker3 ''s'' ''c'' ''b'')) ''c'' = {}"
    by (simp add: tracker_values remove_dep_def get_task_def get_row_def default_auth_def out_deps_def
        delete_rows_def)
  moreover have "\<lparr>dsource = ''c'', dtarget = ''b'', dtype = Blocks, dcreated = sql_now 3000\<rparr>
      \<in> out_deps tracker3 ''c''"
    by (simp add: tracker_values out_deps_def)
  ultimately show "get_task (snd (remove_dep default_auth tracker3 ''s'' ''c'' ''b'')) ''c'' \<noteq>
      Some (demo_task ''c'' None 3000) \<or>
    out_deps (snd (remove_dep default_auth tracker3 ''s'' ''c'' ''b'')) ''c'' \<noteq> out_deps tracker3 ''c''"
    by (metis empty_iff)
qed

text \<open>The tree of a task is complete. Building it ends, and it holds exactly the tasks whose
  chain of parents meets the root, each of them once.\<close>

theorem tree_complete:
  assumes "reachable_tracker auth d" and "get_task d root = Some t" and "length (tasks d) \<le> n"
  shows "\<exists>node. tree n d root = Some (Some node) \<and>
    set (tree_tasks node) = {u \<in> set (tasks d). below d t u} \<and> distinct (tree_tasks node)"
  using build_tree_returns [OF wf_reachable_tracker [OF assms(1)], of t n 0]
    get_task_SomeD [OF assms(2)] assms(2,3) by (fastforce simp: tree_def)

theorem tree_complete_witness:
  "\<exists>node. tree 3 tracker3 ''a'' = Some (Some node) \<and> distinct (tree_tasks node)"
  using tree_complete [OF reachable_demo, of "''a''" "demo_task ''a'' None 1000" 3]
  by (auto simp: tracker_values get_task_def get_row_def)

lemma add_dep_internal_existing:
  "(s, t) \<in> (\<lambda>e. (dsource e, dtarget e)) ` set (deps d) \<Longrightarrow>
    isl (fst (add_dep_internal d s t ty now))"
  by (auto simp: add_dep_internal_def Let_def insert_row_def split: option.split)

lemma add_dep_internal_keeps:
  "k \<in> (\<lambda>e. (dsource e, dtarget e)) ` set (deps d) \<Longrightarrow>
    k \<in> (\<lambda>e. (dsource e, dtarget e)) ` set (deps (snd (add_dep_internal d s t ty now)))"
  by (auto simp: add_dep_internal_def Let_def insert_row_def split: option.split)

lemma add_dep_internal_adds:
  "\<not> isl (fst (add_dep_internal d s t ty now)) \<Longrightarrow>
    (s, t) \<in> (\<lambda>e. (dsource e, dtarget e)) ` set (deps (snd (add_dep_internal d s t ty now)))"
  by (auto simp: add_dep_internal_def Let_def insert_row_def split: option.splits if_splits)

lemma add_blocks_existing:
  "(s, t) \<in> (\<lambda>e. (dsource e, dtarget e)) ` set (deps d) \<Longrightarrow> t \<in> set ts \<Longrightarrow>
    isl (fst (add_blocks d s ts now))"
proof (induction ts arbitrary: d)
  case (Cons a ts)
  obtain r d2 where r: "add_dep_internal d s a Blocks now = (r, d2)" by fastforce
  show ?case
  proof (cases r)
    case (Inr e)
    then have "a \<noteq> t" using add_dep_internal_existing [OF Cons.prems(1), of Blocks now] r by auto
    moreover have "(s, t) \<in> (\<lambda>e. (dsource e, dtarget e)) ` set (deps d2)"
      using add_dep_internal_keeps [OF Cons.prems(1), of s a Blocks now] r by simp
    ultimately show ?thesis using Cons r Inr by simp
  qed (use r in simp)
qed simp

text \<open>Creating a task with its dependencies is not atomic. When the parent is also listed as
  an explicit dependency the call throws, yet the row of the new task stays in the table.\<close>

theorem create_not_atomic:
  assumes "fresh_id d nid" and "in_parent i = Some p" and "p \<in> set (in_depends_on i)"
    and "p \<noteq> []" and "check_parent auth d caller (in_parent i) = None"
  shows "\<exists>e d'. create_task auth d caller i nid now = (Inl e, d') \<and>
    get_task d' nid = Some (new_task caller i nid now)"
proof -
  let ?d1 = "d\<lparr>tasks := tasks d @ [new_task caller i nid now]\<rparr>"
  have ins: "insert_row tid (new_task caller i nid now) (tasks d) =
      Some (tasks d @ [new_task caller i nid now])"
    using assms(1) by (auto simp: insert_row_def new_task_def fresh_id_def)
  have "get_task d nid = None"
    using assms(1) by (auto simp: get_task_def get_row_None_iff fresh_id_def)
  then have row: "get_task ?d1 nid = Some (new_task caller i nid now)"
    by (simp add: get_task_snoc new_task_def)
  obtain r d2 where r: "add_dep_internal ?d1 nid p Parent_Child now = (r, d2)" by fastforce
  then have row2: "get_task d2 nid = Some (new_task caller i nid now)"
    using row get_task_add_dep_internal [of ?d1] by (metis snd_conv)
  show ?thesis
  proof (cases r)
    case (Inl e)
    then show ?thesis using ins r row2 assms(2,4,5)
      by (simp add: create_task_def add_parent_dep_def)
  next
    case (Inr e)
    then have "(nid, p) \<in> (\<lambda>e. (dsource e, dtarget e)) ` set (deps d2)"
      using add_dep_internal_adds [of ?d1 nid p Parent_Child now] r by simp
    from add_blocks_existing [OF this assms(3), of now]
    obtain e d3 where b: "add_blocks d2 nid (in_depends_on i) now = (Inl e, d3)"
      by (metis isl_def prod.collapse)
    then have "get_task d3 nid = Some (new_task caller i nid now)"
      using row2 get_task_add_blocks [of d2 nid "in_depends_on i" now] by simp
    with b Inr show ?thesis using ins r assms(2,4,5)
      by (simp add: create_task_def add_parent_dep_def)
  qed
qed

theorem create_not_atomic_witness:
  "\<exists>e d'. create_task default_auth tracker1 ''s'' (demo_input (Some ''a'') [''a'']) ''x'' 9 = (Inl e, d') \<and>
    get_task d' ''x'' = Some (new_task ''s'' (demo_input (Some ''a'') [''a'']) ''x'' 9)"
  by (rule create_not_atomic [where p = "''a''"])
    (simp_all add: fresh_id_def tracker_values demo_input_def check_parent_def get_task_def
      get_row_def default_auth_def)

end
