(* ===== verification/A2A_Tasks.thy ===== *)
theory A2A_Tasks
  imports Timestamps
begin

text \<open>
  The task tables of the A2A server: \<open>TaskStore\<close> of
  \<open>packages/federation/a2a/src/server/task-store.ts\<close> with the protocol types of \<open>types.ts\<close>.
  Tables are lists of records; the foreign keys of artifacts and push configurations cascade
  on delete. A constraint error is \<open>None\<close> and leaves the tables as they were. Columns that
  hold JSON text hold the value itself.
\<close>

section \<open>Protocol types\<close>

datatype task_state =
    Submitted | Working | Completed | Failed | Canceled | Rejected
  | Input_Required | Auth_Required | Unknown_State

definition terminal_states :: "task_state set" where
  "terminal_states = {Completed, Canceled, Failed, Rejected}"

definition interrupted_states :: "task_state set" where
  "interrupted_states = {Input_Required, Auth_Required}"

definition is_terminal_state :: "task_state \<Rightarrow> bool" where
  "is_terminal_state s \<longleftrightarrow> s \<in> terminal_states"

definition is_interrupted_state :: "task_state \<Rightarrow> bool" where
  "is_interrupted_state s \<longleftrightarrow> s \<in> interrupted_states"

datatype a2a_part = Text_Part string | File_Part json | Data_Part json

record a2a_message =
  msg_id :: "string option"
  msg_role :: "string option"
  msg_parts :: "a2a_part list option"
  msg_context :: "id option"
  msg_task :: "id option"
  msg_metadata :: "json option"

record a2a_status =
  ts_state :: task_state
  ts_message :: "a2a_message option"
  ts_timestamp :: stamp

record artifact =
  art_id :: id
  art_name :: "string option"
  art_description :: "string option"
  art_parts :: "a2a_part list"
  art_metadata :: "json option"

record a2a_task =
  task_id :: id
  task_context :: id
  task_status :: a2a_status
  task_artifacts :: "artifact list option"
  task_metadata :: "json option"

record push_config =
  push_url :: string
  push_token :: "string option"
  push_schemes :: "string list option"

section \<open>Rows\<close>

record task_row =
  tr_id :: id
  tr_context :: id
  tr_session :: id
  tr_status :: a2a_status
  tr_metadata :: "json option"
  tr_created :: stamp
  tr_updated :: stamp

record artifact_row =
  ar_id :: id
  ar_task :: id
  ar_artifact :: artifact
  ar_seq :: int

record push_row =
  pr_task :: id
  pr_config :: push_config

record a2a_db =
  db_tasks :: "task_row list"
  db_artifacts :: "artifact_row list"
  db_push :: "push_row list"

definition empty_a2a_db :: a2a_db where
  "empty_a2a_db = \<lparr>db_tasks = [], db_artifacts = [], db_push = []\<rparr>"

definition row_to_task :: "task_row \<Rightarrow> a2a_task" where
  "row_to_task r =
     \<lparr>task_id = tr_id r, task_context = tr_context r, task_status = tr_status r,
      task_artifacts = None, task_metadata = tr_metadata r\<rparr>"

text \<open>A name or description that is the empty string is read back as absent.\<close>

definition row_to_artifact :: "artifact_row \<Rightarrow> artifact" where
  "row_to_artifact r =
     (let a = ar_artifact r
      in a\<lparr>art_name := (if truthy (art_name a) then art_name a else None),
           art_description := (if truthy (art_description a) then art_description a else None)\<rparr>)"

section \<open>Tasks\<close>

definition task_exists :: "a2a_db \<Rightarrow> id \<Rightarrow> bool" where
  "task_exists d i \<longleftrightarrow> i \<in> tr_id ` set (db_tasks d)"

definition create_a2a_task ::
  "a2a_db \<Rightarrow> id \<Rightarrow> id \<Rightarrow> id \<Rightarrow> json option \<Rightarrow> int \<Rightarrow> (a2a_task \<times> a2a_db) option" where
  "create_a2a_task d i ctx session meta now =
     (let st = \<lparr>ts_state = Submitted, ts_message = None, ts_timestamp = iso_now now\<rparr>;
          row = \<lparr>tr_id = i, tr_context = ctx, tr_session = session, tr_status = st,
                 tr_metadata = meta, tr_created = iso_now now, tr_updated = iso_now now\<rparr>
      in map_option (\<lambda>rows.
           (\<lparr>task_id = i, task_context = ctx, task_status = st, task_artifacts = None,
             task_metadata = None\<rparr>, d\<lparr>db_tasks := rows\<rparr>))
         (insert_row tr_id row (db_tasks d)))"

definition get_a2a_task :: "a2a_db \<Rightarrow> id \<Rightarrow> a2a_task option" where
  "get_a2a_task d i = map_option row_to_task (get_row tr_id i (db_tasks d))"

text \<open>
  \<open>None\<close> is the syntax error of a query that has an \<open>OFFSET\<close> and no \<open>LIMIT\<close>. A limit or
  offset of 0 is falsy and adds no clause.
\<close>

definition list_a2a_tasks ::
  "a2a_db \<Rightarrow> id option \<Rightarrow> nat option \<Rightarrow> nat option \<Rightarrow> a2a_task list option" where
  "list_a2a_tasks d ctx limit offset =
     (let rows = (if truthy ctx then filter (\<lambda>r. tr_context r = the ctx) (db_tasks d) else db_tasks d);
          sorted = order_by_desc tr_created rows;
          n = (case limit of None \<Rightarrow> 0 | Some l \<Rightarrow> l);
          k = (case offset of None \<Rightarrow> 0 | Some l \<Rightarrow> l)
      in if n = 0 then (if k = 0 then Some (map row_to_task sorted) else None)
         else Some (map row_to_task (take n (drop k sorted))))"

definition update_status :: "a2a_db \<Rightarrow> id \<Rightarrow> a2a_status \<Rightarrow> int \<Rightarrow> a2a_db" where
  "update_status d i st now =
     d\<lparr>db_tasks := update_rows (\<lambda>r. tr_id r = i)
        (\<lambda>r. r\<lparr>tr_status := st, tr_updated := iso_now now\<rparr>) (db_tasks d)\<rparr>"

definition get_session_id :: "a2a_db \<Rightarrow> id \<Rightarrow> id option" where
  "get_session_id d i = map_option tr_session (get_row tr_id i (db_tasks d))"

definition session_for_context :: "a2a_db \<Rightarrow> id \<Rightarrow> id option" where
  "session_for_context d ctx =
     (case order_by_desc tr_created (filter (\<lambda>r. tr_context r = ctx) (db_tasks d)) of
        [] \<Rightarrow> None
      | r # _ \<Rightarrow> Some (tr_session r))"

definition delete_a2a_task :: "a2a_db \<Rightarrow> id \<Rightarrow> a2a_db" where
  "delete_a2a_task d i =
     \<lparr>db_tasks = delete_rows (\<lambda>r. tr_id r = i) (db_tasks d),
      db_artifacts = delete_rows (\<lambda>r. ar_task r = i \<and> task_exists d i) (db_artifacts d),
      db_push = delete_rows (\<lambda>r. pr_task r = i \<and> task_exists d i) (db_push d)\<rparr>"

section \<open>Artifacts\<close>

definition next_artifact_seq :: "a2a_db \<Rightarrow> id \<Rightarrow> int" where
  "next_artifact_seq d i =
     foldr max (map ar_seq (filter (\<lambda>r. ar_task r = i) (db_artifacts d))) (-1) + 1"

definition add_artifact :: "a2a_db \<Rightarrow> id \<Rightarrow> artifact \<Rightarrow> id \<Rightarrow> a2a_db option" where
  "add_artifact d i a nid =
     (if \<not> task_exists d i then None
      else map_option (\<lambda>rows. d\<lparr>db_artifacts := rows\<rparr>)
             (insert_row ar_id
                \<lparr>ar_id = nid, ar_task = i, ar_artifact = a, ar_seq = next_artifact_seq d i\<rparr>
                (db_artifacts d)))"

definition append_artifact_parts :: "a2a_db \<Rightarrow> id \<Rightarrow> id \<Rightarrow> a2a_part list \<Rightarrow> a2a_db" where
  "append_artifact_parts d i aid ps =
     (case order_by_desc ar_seq
             (filter (\<lambda>r. ar_task r = i \<and> art_id (ar_artifact r) = aid) (db_artifacts d)) of
        [] \<Rightarrow> d
      | row # _ \<Rightarrow>
          d\<lparr>db_artifacts := update_rows (\<lambda>r. ar_id r = ar_id row)
             (\<lambda>r. r\<lparr>ar_artifact := (ar_artifact r)\<lparr>art_parts := art_parts (ar_artifact row) @ ps\<rparr>\<rparr>)
             (db_artifacts d)\<rparr>)"

definition artifact_rows :: "a2a_db \<Rightarrow> id \<Rightarrow> artifact_row list" where
  "artifact_rows d i = order_by ar_seq (filter (\<lambda>r. ar_task r = i) (db_artifacts d))"

definition get_artifacts :: "a2a_db \<Rightarrow> id \<Rightarrow> artifact list" where
  "get_artifacts d i = map row_to_artifact (artifact_rows d i)"

section \<open>Push configurations\<close>

definition set_push_config :: "a2a_db \<Rightarrow> id \<Rightarrow> push_config \<Rightarrow> a2a_db option" where
  "set_push_config d i c =
     (if \<not> task_exists d i then None
      else Some (d\<lparr>db_push := delete_rows (\<lambda>r. pr_task r = i) (db_push d) @
                               [\<lparr>pr_task = i, pr_config = c\<rparr>]\<rparr>))"

definition get_push_config :: "a2a_db \<Rightarrow> id \<Rightarrow> push_config option" where
  "get_push_config d i =
     map_option (\<lambda>r. (pr_config r)\<lparr>push_token :=
         (if truthy (push_token (pr_config r)) then push_token (pr_config r) else None)\<rparr>)
       (get_row pr_task i (db_push d))"

definition delete_push_config :: "a2a_db \<Rightarrow> id \<Rightarrow> a2a_db" where
  "delete_push_config d i = d\<lparr>db_push := delete_rows (\<lambda>r. pr_task r = i) (db_push d)\<rparr>"

section \<open>Laws of the tables\<close>

lemma get_a2a_task_update_status:
  "get_a2a_task (update_status d i st now) j =
    (if j = i then map_option (\<lambda>t. t\<lparr>task_status := st\<rparr>) (get_a2a_task d j) else get_a2a_task d j)"
  by (cases "get_row tr_id j (db_tasks d)")
    (auto simp: get_a2a_task_def update_status_def table_simps row_to_task_def dest: get_row_SomeD)

lemma get_a2a_task_create:
  assumes "create_a2a_task d i ctx session meta now = Some (t, d')"
  shows "get_a2a_task d' j = (if j = i then Some (t\<lparr>task_metadata := meta\<rparr>) else get_a2a_task d j)"
    and "get_a2a_task d i = None"
proof -
  obtain rows row where r: "insert_row tr_id row (db_tasks d) = Some rows" "d' = d\<lparr>db_tasks := rows\<rparr>"
    "row_to_task row = t\<lparr>task_metadata := meta\<rparr>" "tr_id row = i"
    using assms by (auto simp: create_a2a_task_def Let_def row_to_task_def)
  then show "get_a2a_task d' j = (if j = i then Some (t\<lparr>task_metadata := meta\<rparr>) else get_a2a_task d j)"
    by (auto simp: get_a2a_task_def get_row_insert [OF r(1)])
  show "get_a2a_task d i = None"
    using r insert_row_SomeD [OF r(1)] by (simp add: get_a2a_task_def get_row_None_iff)
qed

lemma get_a2a_task_push [simp]:
  "set_push_config d i c = Some d' \<Longrightarrow> get_a2a_task d' j = get_a2a_task d j"
  by (auto simp: set_push_config_def get_a2a_task_def split: if_splits)

lemma foldr_max_ge: "x \<in> set xs \<Longrightarrow> x \<le> foldr max xs (a::int)"
  by (induction xs) auto

lemma next_artifact_seq_greater:
  "r \<in> set (db_artifacts d) \<Longrightarrow> ar_task r = i \<Longrightarrow> ar_seq r < next_artifact_seq d i"
  using foldr_max_ge [of "ar_seq r" "map ar_seq (filter (\<lambda>r. ar_task r = i) (db_artifacts d))" "- 1"]
  by (simp add: next_artifact_seq_def)

section \<open>Artifacts\<close>

lemma artifact_rows_add:
  assumes "add_artifact d i a nid = Some d'"
  shows "artifact_rows d' i = artifact_rows d i @
    [\<lparr>ar_id = nid, ar_task = i, ar_artifact = a, ar_seq = next_artifact_seq d i\<rparr>]"
proof -
  let ?r = "\<lparr>ar_id = nid, ar_task = i, ar_artifact = a, ar_seq = next_artifact_seq d i\<rparr>"
  have "db_artifacts d' = db_artifacts d @ [?r]"
    using assms by (auto simp: add_artifact_def insert_row_def split: if_splits)
  moreover have "\<forall>x \<in> set (filter (\<lambda>r. ar_task r = i) (db_artifacts d)). ar_seq x < ar_seq ?r"
    by (auto intro: next_artifact_seq_greater)
  ultimately show ?thesis
    unfolding artifact_rows_def by (simp add: order_by_snoc_max)
qed

lemma last_artifact_row:
  assumes "add_artifact d i a nid = Some d'"
  shows "\<exists>rest. order_by_desc ar_seq
      (filter (\<lambda>r. ar_task r = i \<and> art_id (ar_artifact r) = art_id a) (db_artifacts d')) =
    \<lparr>ar_id = nid, ar_task = i, ar_artifact = a, ar_seq = next_artifact_seq d i\<rparr> # rest"
proof -
  let ?r = "\<lparr>ar_id = nid, ar_task = i, ar_artifact = a, ar_seq = next_artifact_seq d i\<rparr>"
  let ?P = "\<lambda>r. ar_task r = i \<and> art_id (ar_artifact r) = art_id a"
  let ?l = "order_by_desc ar_seq (filter ?P (db_artifacts d'))"
  have d': "db_artifacts d' = db_artifacts d @ [?r]"
    using assms by (auto simp: add_artifact_def insert_row_def split: if_splits)
  have top: "ar_seq x < ar_seq ?r" if "x \<in> set (filter ?P (db_artifacts d))" for x
    using that by (auto intro: next_artifact_seq_greater)
  have "?r \<in> set ?l" using d' by simp
  then obtain x xs where l: "?l = x # xs" by (cases ?l) auto
  have "sorted (map ar_seq (rev ?l))" by (simp add: order_by_desc_def)
  then have "\<forall>y \<in> set ?l. ar_seq y \<le> ar_seq x" unfolding l by (auto simp: sorted_append)
  then have "ar_seq ?r \<le> ar_seq x" using \<open>?r \<in> set ?l\<close> by blast
  moreover have "x \<in> set ?l" by (simp add: l)
  ultimately have "x = ?r" using d' top by fastforce
  with l show ?thesis by blast
qed

text \<open>Artifacts are kept in the order they were added, and appended parts reach the newest
  artifact with the given id: adding an artifact and then appending chunks to it leaves the
  earlier artifacts of the task, and all artifacts of other tasks, as they were, and the new
  artifact last with the chunks at the end of its parts.\<close>

theorem artifact_chunks_in_order:
  assumes "add_artifact d i a nid = Some d'"
  shows "get_artifacts (append_artifact_parts d' i (art_id a) ps) i =
      get_artifacts d i @ [row_to_artifact \<lparr>ar_id = nid, ar_task = i,
        ar_artifact = a\<lparr>art_parts := art_parts a @ ps\<rparr>, ar_seq = next_artifact_seq d i\<rparr>] \<and>
    (j \<noteq> i \<longrightarrow> get_artifacts (append_artifact_parts d' i (art_id a) ps) j = get_artifacts d j)"
proof -
  let ?r = "\<lparr>ar_id = nid, ar_task = i, ar_artifact = a, ar_seq = next_artifact_seq d i\<rparr>"
  let ?r' = "?r\<lparr>ar_artifact := a\<lparr>art_parts := art_parts a @ ps\<rparr>\<rparr>"
  have d': "db_artifacts d' = db_artifacts d @ [?r]" and new: "nid \<notin> ar_id ` set (db_artifacts d)"
    using assms by (auto simp: add_artifact_def insert_row_def split: if_splits)
  obtain rest where "order_by_desc ar_seq
      (filter (\<lambda>r. ar_task r = i \<and> art_id (ar_artifact r) = art_id a) (db_artifacts d')) = ?r # rest"
    using last_artifact_row [OF assms] by blast
  then have rows: "db_artifacts (append_artifact_parts d' i (art_id a) ps) = db_artifacts d @ [?r']"
    using d' new unfolding append_artifact_parts_def
    by (auto simp: update_rows_def intro!: map_idI)
  have "\<forall>x \<in> set (filter (\<lambda>r. ar_task r = i) (db_artifacts d)). ar_seq x < ar_seq ?r'"
    by (auto intro: next_artifact_seq_greater)
  then have "artifact_rows (append_artifact_parts d' i (art_id a) ps) i = artifact_rows d i @ [?r']"
    unfolding artifact_rows_def rows by (simp add: order_by_snoc_max)
  then show ?thesis
    by (simp add: get_artifacts_def artifact_rows_def rows)
qed

theorem artifact_chunks_in_order_witness:
  "\<exists>d' a. get_artifacts (append_artifact_parts d' ''t'' ''a'' [Text_Part ''y'']) ''t'' = [a] \<and>
    art_parts a = [Text_Part ''x'', Text_Part ''y'']"
proof -
  let ?a = "\<lparr>art_id = ''a'', art_name = None, art_description = None, art_parts = [Text_Part ''x''],
    art_metadata = None\<rparr>"
  obtain t d where c: "create_a2a_task empty_a2a_db ''t'' ''c'' ''s'' None 5 = Some (t, d)"
    by (simp add: create_a2a_task_def insert_row_def empty_a2a_db_def Let_def)
  then have d: "task_exists d ''t''" "db_artifacts d = []"
    by (auto simp: create_a2a_task_def insert_row_def empty_a2a_db_def task_exists_def Let_def)
  then obtain d' where a: "add_artifact d ''t'' ?a ''n'' = Some d'"
    by (simp add: add_artifact_def insert_row_def)
  have old: "get_artifacts d ''t'' = []" using d(2) by (simp add: get_artifacts_def artifact_rows_def)
  have "get_artifacts (append_artifact_parts d' ''t'' ''a'' [Text_Part ''y'']) ''t'' =
      [?a\<lparr>art_parts := [Text_Part ''x'', Text_Part ''y'']\<rparr>]"
    using artifact_chunks_in_order [OF a, of "[Text_Part ''y'']" "''t''"] old by (simp add: row_to_artifact_def)
  then show ?thesis by (intro exI conjI) (assumption, simp)
qed

end
