(* ===== verification/A2A_Server.thy ===== *)
theory A2A_Server
  imports A2A_Tasks Session_Store
begin

text \<open>
  The A2A server above its tables: the event queue of \<open>event-bus.ts\<close>, the executor of
  \<open>claw-executor.ts\<close>, the JSON-RPC handler of \<open>handler.ts\<close> and the error codes of
  \<open>errors.ts\<close> (all under \<open>packages/federation/a2a/src\<close>). Inference (\<open>sendPrompt\<close>) is
  external: a request that starts it becomes a job, and the job is finished by a later step
  with the outcome as an argument, so every interleaving of requests, completions and
  cancellations is a sequence of steps. Each request has its own event bus and only the
  stream of that request listens to it, so the state keeps one queue for a streaming task.
\<close>

section \<open>Events and the queue of a stream\<close>

datatype bus_event =
    Status_Update id id a2a_status bool
  | Artifact_Update id id artifact bool bool
  | Task_Complete id "a2a_task option"
  | Task_Error id string

fun event_task :: "bus_event \<Rightarrow> id" where
  "event_task (Status_Update t _ _ _) = t"
| "event_task (Artifact_Update t _ _ _ _) = t"
| "event_task (Task_Complete t _) = t"
| "event_task (Task_Error t _) = t"

text \<open>
  The generator runs its body, and so subscribes, at the first \<open>next()\<close>. \<open>q_waiting\<close> says
  that a \<open>next()\<close> is pending on the promise.
\<close>

record equeue =
  q_task :: id
  q_subscribed :: bool
  q_buffer :: "bus_event list"
  q_done :: bool
  q_closed :: bool
  q_yielded :: "bus_event list"

definition new_queue :: "id \<Rightarrow> equeue" where
  "new_queue t =
     \<lparr>q_task = t, q_subscribed = False, q_buffer = [], q_done = False, q_closed = False,
      q_yielded = []\<rparr>"

fun streamed :: "bus_event \<Rightarrow> bool" where
  "streamed (Task_Error _ _) = False"
| "streamed _ = True"

fun ends_stream :: "bus_event \<Rightarrow> bool" where
  "ends_stream (Status_Update _ _ st final) =
     (final \<or> is_terminal_state (ts_state st) \<or> is_interrupted_state (ts_state st))"
| "ends_stream (Artifact_Update _ _ _ _ _) = False"
| "ends_stream (Task_Complete _ _) = True"
| "ends_stream (Task_Error _ _) = True"

text \<open>The callback given to \<open>subscribe\<close>, behind its filter on the task id.\<close>

definition on_event :: "bus_event \<Rightarrow> equeue \<Rightarrow> equeue" where
  "on_event e q =
     (if q_subscribed q \<and> event_task e = q_task q
      then q\<lparr>q_buffer := q_buffer q @ (if streamed e then [e] else []),
             q_done := q_done q \<or> ends_stream e\<rparr>
      else q)"

definition subscribe :: "equeue \<Rightarrow> equeue" where
  "subscribe q = q\<lparr>q_subscribed := True\<rparr>"

text \<open>
  One turn of the generator's loop on behalf of a consumer that asks for the next event: it
  yields the first buffered event, or closes when the queue is done, or keeps waiting.
\<close>

definition pull :: "equeue \<Rightarrow> equeue" where
  "pull q =
     (if q_closed q then q
      else case q_buffer q of
             e # es \<Rightarrow> q\<lparr>q_buffer := es, q_yielded := q_yielded q @ [e]\<rparr>
           | [] \<Rightarrow> if q_done q then q\<lparr>q_closed := True, q_subscribed := False\<rparr> else q)"

section \<open>JSON-RPC errors\<close>

datatype rpc_error =
    Invalid_Params string
  | Method_Not_Found string
  | Internal_Error string
  | Rpc_Task_Not_Found id
  | Task_Not_Cancelable id
  | Unsupported_Operation string

fun error_code :: "rpc_error \<Rightarrow> int" where
  "error_code (Invalid_Params _) = -32602"
| "error_code (Method_Not_Found _) = -32601"
| "error_code (Internal_Error _) = -32603"
| "error_code (Rpc_Task_Not_Found _) = -32001"
| "error_code (Task_Not_Cancelable _) = -32002"
| "error_code (Unsupported_Operation _) = -32004"

definition http_status_for_error :: "int \<Rightarrow> nat" where
  "http_status_for_error c =
     (case map_of [(-32700, 400), (-32600, 400), (-32601, 404), (-32602, 400), (-32603, 500),
                   (-32001, 404), (-32002, 409), (-32003, 400), (-32004, 400), (-32005, 415),
                   (-32006, 502), (-32009, 400)] c of
        None \<Rightarrow> 500 | Some s \<Rightarrow> s)"

datatype rpc_reply =
    Reply_Error rpc_error
  | Reply_Task "a2a_task option"
  | Reply_Tasks "a2a_task list"

section \<open>The server state\<close>

record send_params =
  sp_message :: "a2a_message option"
  sp_blocking :: "bool option"
  sp_push :: "push_config option"

record job =
  j_task :: id
  j_context :: id
  j_session :: id
  j_text :: string
  j_blocking :: bool

record server =
  sv_db :: a2a_db
  sv_sessions :: store
  sv_jobs :: "job list"
  sv_streams :: "equeue list"
  sv_pushes :: "(push_config \<times> bus_event) list"

definition emit :: "bus_event \<Rightarrow> server \<Rightarrow> server" where
  "emit e s = s\<lparr>sv_streams := map (on_event e) (sv_streams s)\<rparr>"

section \<open>The executor\<close>

definition agent_text :: "id \<Rightarrow> string \<Rightarrow> a2a_message" where
  "agent_text mid t =
     \<lparr>msg_id = Some mid, msg_role = Some ''agent'', msg_parts = Some [Text_Part t],
      msg_context = None, msg_task = None, msg_metadata = None\<rparr>"

text \<open>\<open>extractText\<close>: the text parts joined by newlines, \<open>None\<close> when there is none.\<close>

fun join_lines :: "string list \<Rightarrow> string" where
  "join_lines [] = []"
| "join_lines [t] = t"
| "join_lines (t # ts) = t @ [CHR 0x0A] @ join_lines ts"

fun text_of_part :: "a2a_part \<Rightarrow> string option" where
  "text_of_part (Text_Part t) = Some t"
| "text_of_part _ = None"

definition extract_text :: "a2a_part list \<Rightarrow> string option" where
  "extract_text ps =
     (let texts = List.map_filter text_of_part ps
      in if texts = [] then None else Some (join_lines texts))"

definition parts_of :: "a2a_message \<Rightarrow> a2a_part list" where
  "parts_of m = (case msg_parts m of None \<Rightarrow> [] | Some ps \<Rightarrow> ps)"

definition context_of :: "id \<Rightarrow> a2a_message \<Rightarrow> id" where
  "context_of tid m = (case msg_context m of None \<Rightarrow> tid | Some c \<Rightarrow> c)"

text \<open>The session of a context: the recorded one if it exists, a new one otherwise.\<close>

definition resolve_session :: "server \<Rightarrow> id \<Rightarrow> string \<Rightarrow> id \<Rightarrow> int \<Rightarrow> id \<times> server" where
  "resolve_session s ctx text nid now =
     (let known = session_for_context (sv_db s) ctx
      in if truthy known \<and> get_session (sv_sessions s) (the known) \<noteq> None
         then (the known, s)
         else (nid, s\<lparr>sv_sessions :=
                 snd (create_session (sv_sessions s) nid now (Some (''A2A: '' @ take 50 text))
                        (Some ''a2a'') None)\<rparr>))"

definition set_status :: "id \<Rightarrow> id \<Rightarrow> a2a_status \<Rightarrow> bool \<Rightarrow> int \<Rightarrow> server \<Rightarrow> server" where
  "set_status tid ctx st final now s =
     emit (Status_Update tid ctx st final) (s\<lparr>sv_db := update_status (sv_db s) tid st now\<rparr>)"

text \<open>
  \<open>execute\<close> up to the call of \<open>sendPrompt\<close>. The second component is the result when the
  call returns without waiting: the failed task of a message without text, or the working
  task of a non-blocking request.
\<close>

definition execute_start ::
  "id \<Rightarrow> a2a_message \<Rightarrow> bool option \<Rightarrow> id \<Rightarrow> int \<Rightarrow> server \<Rightarrow> server \<times> a2a_task option option" where
  "execute_start tid m blocking nid now s =
     (if \<not> truthy (extract_text (parts_of m))
      then let st = \<lparr>ts_state = Failed,
                     ts_message = Some (agent_text (tid @ ''-error'') ''Message contained no text content''),
                     ts_timestamp = iso_now now\<rparr>;
               s1 = set_status tid tid st True now s
           in (s1, Some (get_a2a_task (sv_db s1) tid))
      else let text = the (extract_text (parts_of m));
               ctx = context_of tid m;
               (ses, s1) = resolve_session s ctx text nid now;
               s2 = emit (Status_Update tid ctx \<lparr>ts_state = Submitted, ts_message = None,
                            ts_timestamp = iso_now now\<rparr> False) s1;
               s3 = set_status tid ctx \<lparr>ts_state = Working, ts_message = None,
                            ts_timestamp = iso_now now\<rparr> False now s2;
               wait = (blocking \<noteq> Some False);
               s4 = s3\<lparr>sv_jobs := sv_jobs s3 @ [\<lparr>j_task = tid, j_context = ctx, j_session = ses,
                                                j_text = text, j_blocking = wait\<rparr>]\<rparr>
           in (s4, if wait then None else Some (get_a2a_task (sv_db s4) tid)))"

definition fire_push :: "id \<Rightarrow> bus_event \<Rightarrow> server \<Rightarrow> server" where
  "fire_push tid e s =
     (case get_push_config (sv_db s) tid of
        None \<Rightarrow> s
      | Some c \<Rightarrow> s\<lparr>sv_pushes := sv_pushes s @ [(c, e)]\<rparr>)"

definition final_status :: "id \<Rightarrow> string + string \<Rightarrow> int \<Rightarrow> a2a_status" where
  "final_status tid outcome now =
     (case outcome of
        Inr response \<Rightarrow> \<lparr>ts_state = Completed, ts_message = Some (agent_text (tid @ ''-response'') response),
                       ts_timestamp = iso_now now\<rparr>
      | Inl err \<Rightarrow> \<lparr>ts_state = Failed, ts_message = Some (agent_text (tid @ ''-error'') err),
                  ts_timestamp = iso_now now\<rparr>)"

definition with_artifacts :: "a2a_db \<Rightarrow> id \<Rightarrow> a2a_task option \<Rightarrow> a2a_task option" where
  "with_artifacts d tid = map_option (\<lambda>t. t\<lparr>task_artifacts := Some (get_artifacts d tid)\<rparr>)"

text \<open>
  The rest of the execution, once \<open>sendPrompt\<close> has settled. A blocking execution emits the
  final status and the completed task; a non-blocking one emits nothing when it failed, and
  delivers a push notification instead of the completed task.
\<close>

definition execute_finish ::
  "job \<Rightarrow> string + string \<Rightarrow> int \<Rightarrow> server \<Rightarrow> server \<times> a2a_task option" where
  "execute_finish j outcome now s =
     (let tid = j_task j;
          st = final_status tid outcome now;
          upd = Status_Update tid (j_context j) st True
      in if j_blocking j
         then let s1 = set_status tid (j_context j) st True now s;
                  task = (if isl outcome then get_a2a_task (sv_db s1) tid
                          else with_artifacts (sv_db s1) tid (get_a2a_task (sv_db s1) tid))
              in (emit (Task_Complete tid task) s1, task)
         else let s1 = (if isl outcome
                        then s\<lparr>sv_db := update_status (sv_db s) tid st now\<rparr>
                        else set_status tid (j_context j) st True now s)
              in (fire_push tid upd s1, None))"

definition cancel_execution :: "(id \<Rightarrow> bool option) option \<Rightarrow> server \<Rightarrow> id \<Rightarrow> bool" where
  "cancel_execution handles s tid =
     (case handles of
        None \<Rightarrow> False
      | Some handle \<Rightarrow>
          (let ses = get_session_id (sv_db s) tid
           in truthy ses \<and> handle (the ses) = Some True))"

section \<open>The handler\<close>

definition validate_params :: "send_params \<Rightarrow> rpc_error option" where
  "validate_params p =
     (case sp_message p of
        None \<Rightarrow> Some (Invalid_Params ''Missing required field: message'')
      | Some m \<Rightarrow>
          if parts_of m = [] then Some (Invalid_Params ''Message must contain at least one part'')
          else if \<not> truthy (msg_role m) then Some (Invalid_Params ''Message must have a role'')
          else if \<not> truthy (msg_id m) then Some (Invalid_Params ''Message must have a messageId'')
          else None)"

definition check_referenced :: "a2a_db \<Rightarrow> a2a_message \<Rightarrow> rpc_error option" where
  "check_referenced d m =
     (if truthy (msg_task m)
      then case get_a2a_task d (the (msg_task m)) of
             None \<Rightarrow> Some (Rpc_Task_Not_Found (the (msg_task m)))
           | Some t \<Rightarrow>
               if is_terminal_state (ts_state (task_status t))
               then Some (Unsupported_Operation (the (msg_task m))) else None
      else None)"

text \<open>The part \<open>message/send\<close> and \<open>message/stream\<close> share: the row of the task and its push configuration.\<close>

definition open_task :: "id \<Rightarrow> a2a_message \<Rightarrow> push_config option \<Rightarrow> int \<Rightarrow> server \<Rightarrow> server option" where
  "open_task tid m push now s =
     (let ctx = context_of tid m;
          ses = (case session_for_context (sv_db s) ctx of None \<Rightarrow> ctx | Some x \<Rightarrow> x)
      in case create_a2a_task (sv_db s) tid ctx ses (msg_metadata m) now of
           None \<Rightarrow> None
         | Some (_, d) \<Rightarrow>
             (case push of
                None \<Rightarrow> Some (s\<lparr>sv_db := d\<rparr>)
              | Some c \<Rightarrow> map_option (\<lambda>d'. s\<lparr>sv_db := d'\<rparr>) (set_push_config d tid c)))"

text \<open>
  \<open>handleSendMessage\<close> up to its first wait. The reply is \<open>None\<close> while it waits for the job
  (a blocking request with text). A constraint error of the insert would escape the handler;
  with a fresh task id there is none, and the model answers with an internal error.
\<close>

definition handle_send ::
  "id \<Rightarrow> id \<Rightarrow> int \<Rightarrow> send_params \<Rightarrow> server \<Rightarrow> server \<times> rpc_reply option" where
  "handle_send tid nid now p s =
     (case validate_params p of
        Some e \<Rightarrow> (s, Some (Reply_Error e))
      | None \<Rightarrow>
          (let m = the (sp_message p)
           in case check_referenced (sv_db s) m of
                Some e \<Rightarrow> (s, Some (Reply_Error e))
              | None \<Rightarrow>
                  (case open_task tid m (sp_push p) now s of
                     None \<Rightarrow> (s, Some (Reply_Error (Internal_Error ''constraint'')))
                   | Some s1 \<Rightarrow>
                       (let (s2, r) = execute_start tid m (sp_blocking p) nid now s1
                        in (s2, map_option (\<lambda>t. Reply_Task (with_artifacts (sv_db s2) tid t)) r)))))"

text \<open>
  \<open>handleStreamMessage\<close>: the queue object is made first, the executor then runs up to its
  first wait, and only after that the pipe asks for the first event and the queue subscribes.
\<close>

definition handle_stream ::
  "id \<Rightarrow> id \<Rightarrow> int \<Rightarrow> send_params \<Rightarrow> server \<Rightarrow> server \<times> rpc_error option" where
  "handle_stream tid nid now p s =
     (case validate_params p of
        Some e \<Rightarrow> (s, Some e)
      | None \<Rightarrow>
          (let m = the (sp_message p)
           in case open_task tid m (sp_push p) now s of
                None \<Rightarrow> (s, Some (Internal_Error ''constraint''))
              | Some s1 \<Rightarrow>
                  (let s2 = s1\<lparr>sv_streams := sv_streams s1 @ [new_queue tid]\<rparr>;
                       s3 = fst (execute_start tid m (sp_blocking p) nid now s2)
                   in (s3\<lparr>sv_streams :=
                           map (\<lambda>q. if q_task q = tid then subscribe q else q) (sv_streams s3)\<rparr>,
                       None))))"

definition handle_get :: "server \<Rightarrow> id option \<Rightarrow> rpc_reply" where
  "handle_get s i =
     (if \<not> truthy i then Reply_Error (Invalid_Params ''Missing required field: id'')
      else case get_a2a_task (sv_db s) (the i) of
             None \<Rightarrow> Reply_Error (Rpc_Task_Not_Found (the i))
           | Some t \<Rightarrow> Reply_Task (with_artifacts (sv_db s) (the i) (Some t)))"

text \<open>
  Between the check that the task is not final and the update the handler awaits
  \<open>executor.cancel\<close>, which asks the session's agent to abort and returns at once; the model
  takes the three as one step, so nothing else runs in the one microtask between them.
\<close>

definition handle_cancel ::
  "(id \<Rightarrow> bool option) option \<Rightarrow> int \<Rightarrow> id option \<Rightarrow> server \<Rightarrow> server \<times> rpc_reply" where
  "handle_cancel handles now i s =
     (if \<not> truthy i then (s, Reply_Error (Invalid_Params ''Missing required field: id''))
      else case get_a2a_task (sv_db s) (the i) of
             None \<Rightarrow> (s, Reply_Error (Rpc_Task_Not_Found (the i)))
           | Some t \<Rightarrow>
               if is_terminal_state (ts_state (task_status t))
               then (s, Reply_Error (Task_Not_Cancelable (the i)))
               else if \<not> cancel_execution handles s (the i)
               then (s, Reply_Error (Task_Not_Cancelable (the i)))
               else let st = \<lparr>ts_state = Canceled, ts_message = None, ts_timestamp = iso_now now\<rparr>;
                        d = update_status (sv_db s) (the i) st now
                    in (s\<lparr>sv_db := d\<rparr>, Reply_Task (get_a2a_task d (the i))))"

definition handle_list :: "server \<Rightarrow> id option \<Rightarrow> nat option \<Rightarrow> nat option \<Rightarrow> rpc_reply option" where
  "handle_list s ctx limit offset =
     map_option Reply_Tasks (list_a2a_tasks (sv_db s) ctx limit offset)"

section \<open>Steps\<close>

text \<open>What \<open>nanoid\<close> promises of a new task id and of a new session id.\<close>

definition fresh_task :: "server \<Rightarrow> id \<Rightarrow> bool" where
  "fresh_task s tid \<longleftrightarrow> tid \<noteq> [] \<and> (\<forall>r \<in> set (db_tasks (sv_db s)). tr_id r \<noteq> tid) \<and>
     (\<forall>q \<in> set (sv_streams s). q_task q \<noteq> tid) \<and> (\<forall>j \<in> set (sv_jobs s). j_task j \<noteq> tid)"

definition pull_stream :: "id \<Rightarrow> server \<Rightarrow> server" where
  "pull_stream tid s =
     s\<lparr>sv_streams := map (\<lambda>q. if q_task q = tid then pull q else q) (sv_streams s)\<rparr>"

definition finish_job :: "job \<Rightarrow> string + string \<Rightarrow> int \<Rightarrow> server \<Rightarrow> server" where
  "finish_job j outcome now s = fst (execute_finish j outcome now (s\<lparr>sv_jobs := remove1 j (sv_jobs s)\<rparr>))"

inductive server_step :: "(id \<Rightarrow> bool option) option \<Rightarrow> server \<Rightarrow> server \<Rightarrow> bool" for handles where
  step_send: "fresh_task s tid \<Longrightarrow> server_step handles s (fst (handle_send tid nid now p s))"
| step_stream: "fresh_task s tid \<Longrightarrow> server_step handles s (fst (handle_stream tid nid now p s))"
| step_finish: "j \<in> set (sv_jobs s) \<Longrightarrow> server_step handles s (finish_job j outcome now s)"
| step_cancel: "server_step handles s (fst (handle_cancel handles now i s))"
| step_pull: "server_step handles s (pull_stream tid s)"

definition empty_server :: server where
  "empty_server = \<lparr>sv_db = empty_a2a_db, sv_sessions = empty_store, sv_jobs = [], sv_streams = [],
     sv_pushes = []\<rparr>"

inductive reachable_server :: "(id \<Rightarrow> bool option) option \<Rightarrow> server \<Rightarrow> bool" for handles where
  reach_empty_server: "reachable_server handles empty_server"
| reach_server_step: "reachable_server handles s \<Longrightarrow> server_step handles s s' \<Longrightarrow> reachable_server handles s'"

section \<open>What the executor touches\<close>

named_theorems server_frame \<open>parts of the state an operation leaves alone\<close>

lemma emit_frame [simp, server_frame]:
  "sv_db (emit e s) = sv_db s" "sv_jobs (emit e s) = sv_jobs s"
  "sv_sessions (emit e s) = sv_sessions s" "sv_pushes (emit e s) = sv_pushes s"
  "sv_streams (emit e s) = map (on_event e) (sv_streams s)"
  by (simp_all add: emit_def)

lemma set_status_frame [simp, server_frame]:
  "sv_db (set_status tid ctx st final now s) = update_status (sv_db s) tid st now"
  "sv_jobs (set_status tid ctx st final now s) = sv_jobs s"
  "sv_sessions (set_status tid ctx st final now s) = sv_sessions s"
  "sv_streams (set_status tid ctx st final now s) =
    map (on_event (Status_Update tid ctx st final)) (sv_streams s)"
  by (simp_all add: set_status_def)

lemma resolve_session_frame [simp, server_frame]:
  "sv_db (snd (resolve_session s ctx text nid now)) = sv_db s"
  "sv_jobs (snd (resolve_session s ctx text nid now)) = sv_jobs s"
  "sv_streams (snd (resolve_session s ctx text nid now)) = sv_streams s"
  by (simp_all add: resolve_session_def Let_def)

lemma fire_push_frame [simp, server_frame]:
  "sv_db (fire_push tid e s) = sv_db s" "sv_jobs (fire_push tid e s) = sv_jobs s"
  "sv_streams (fire_push tid e s) = sv_streams s" "sv_sessions (fire_push tid e s) = sv_sessions s"
  by (simp_all add: fire_push_def split: option.split)

lemma on_event_other: "event_task e \<noteq> q_task q \<Longrightarrow> on_event e q = q"
  by (simp add: on_event_def)

lemma on_event_task [simp]: "q_task (on_event e q) = q_task q"
  by (simp add: on_event_def)

lemma on_event_unsubscribed: "\<not> q_subscribed q \<Longrightarrow> on_event e q = q"
  by (simp add: on_event_def)

text \<open>The queues of the other tasks are the same after an execution step of task \<open>tid\<close>.\<close>

definition streams_of :: "server \<Rightarrow> id \<Rightarrow> equeue list" where
  "streams_of s t = filter (\<lambda>q. q_task q = t) (sv_streams s)"

lemma streams_of_map:
  assumes "\<And>q. q_task (f q) = q_task q" and "\<And>q. q_task q = t \<Longrightarrow> f q = q"
  shows "filter (\<lambda>q. q_task q = t) (map f qs) = filter (\<lambda>q. q_task q = t) qs"
  by (induction qs) (auto simp: assms)

lemma streams_of_emit: "event_task e \<noteq> t \<Longrightarrow> streams_of (emit e s) t = streams_of s t"
  unfolding streams_of_def emit_frame by (rule streams_of_map) (auto simp: on_event_other)

lemma streams_of_set_status:
  "tid \<noteq> t \<Longrightarrow> streams_of (set_status tid ctx st final now s) t = streams_of s t"
  unfolding set_status_def by (simp add: streams_of_emit) (simp add: streams_of_def)

lemma streams_of_frame [simp]:
  "streams_of (s\<lparr>sv_db := d\<rparr>) t = streams_of s t"
  "streams_of (s\<lparr>sv_jobs := js\<rparr>) t = streams_of s t"
  "streams_of (fire_push tid e s) t = streams_of s t"
  "streams_of (snd (resolve_session s ctx text nid now)) t = streams_of s t"
  by (simp_all add: streams_of_def)

text \<open>The state after \<open>execute_start\<close>, with the session resolved.\<close>

definition after_start :: "id \<Rightarrow> id \<Rightarrow> int \<Rightarrow> job \<Rightarrow> server \<Rightarrow> server" where
  "after_start tid ctx now j s =
     (let s1 = set_status tid ctx \<lparr>ts_state = Working, ts_message = None, ts_timestamp = iso_now now\<rparr>
                 False now
               (emit (Status_Update tid ctx \<lparr>ts_state = Submitted, ts_message = None,
                  ts_timestamp = iso_now now\<rparr> False) s)
      in s1\<lparr>sv_jobs := sv_jobs s1 @ [j]\<rparr>)"

definition text_job :: "id \<Rightarrow> a2a_message \<Rightarrow> bool option \<Rightarrow> id \<Rightarrow> job" where
  "text_job tid m b ses =
     \<lparr>j_task = tid, j_context = context_of tid m, j_session = ses,
      j_text = the (extract_text (parts_of m)), j_blocking = (b \<noteq> Some False)\<rparr>"

definition no_text_status :: "id \<Rightarrow> int \<Rightarrow> a2a_status" where
  "no_text_status tid now =
     \<lparr>ts_state = Failed,
      ts_message = Some (agent_text (tid @ ''-error'') ''Message contained no text content''),
      ts_timestamp = iso_now now\<rparr>"

lemma execute_start_text:
  assumes "truthy (extract_text (parts_of m))"
    and "resolve_session s (context_of tid m) (the (extract_text (parts_of m))) nid now = (ses, s1)"
  shows "fst (execute_start tid m b nid now s) =
    after_start tid (context_of tid m) now (text_job tid m b ses) s1"
  using assms by (simp add: execute_start_def after_start_def text_job_def Let_def)

lemma execute_start_no_text:
  assumes "\<not> truthy (extract_text (parts_of m))"
  shows "fst (execute_start tid m b nid now s) = set_status tid tid (no_text_status tid now) True now s"
  using assms by (simp add: execute_start_def no_text_status_def Let_def)

lemma after_start_frame:
  "tid \<noteq> t \<Longrightarrow> streams_of (after_start tid ctx now j s) t = streams_of s t"
  "sv_jobs (after_start tid ctx now j s) = sv_jobs s @ [j]"
  "sv_sessions (after_start tid ctx now j s) = sv_sessions s"
  "sv_db (after_start tid ctx now j s) = update_status (sv_db s) tid
     \<lparr>ts_state = Working, ts_message = None, ts_timestamp = iso_now now\<rparr> now"
  by (simp_all add: after_start_def Let_def streams_of_set_status streams_of_emit)

lemma execute_start_frame:
  "tid \<noteq> t \<Longrightarrow> streams_of (fst (execute_start tid m b nid now s)) t = streams_of s t"
  "\<exists>js. sv_jobs (fst (execute_start tid m b nid now s)) = sv_jobs s @ js \<and>
    (\<forall>j \<in> set js. j_task j = tid)"
  "\<exists>st. sv_db (fst (execute_start tid m b nid now s)) = update_status (sv_db s) tid st now"
proof -
  obtain ses s1 where r: "resolve_session s (context_of tid m) (the (extract_text (parts_of m))) nid now = (ses, s1)"
    by fastforce
  have s1: "sv_db s1 = sv_db s" "sv_jobs s1 = sv_jobs s" "streams_of s1 t = streams_of s t" for t
    using resolve_session_frame [of s "context_of tid m" "the (extract_text (parts_of m))" nid now] r
    by (simp_all add: streams_of_def)
  show "streams_of (fst (execute_start tid m b nid now s)) t = streams_of s t" if "tid \<noteq> t"
    using that s1(3)
    by (cases "truthy (extract_text (parts_of m))")
      (simp_all add: execute_start_text [OF _ r] execute_start_no_text after_start_frame streams_of_set_status)
  show "\<exists>js. sv_jobs (fst (execute_start tid m b nid now s)) = sv_jobs s @ js \<and> (\<forall>j \<in> set js. j_task j = tid)"
    using s1(2)
    by (cases "truthy (extract_text (parts_of m))")
      (simp_all add: execute_start_text [OF _ r] execute_start_no_text after_start_frame text_job_def)
  show "\<exists>st. sv_db (fst (execute_start tid m b nid now s)) = update_status (sv_db s) tid st now"
    using s1(1)
    by (cases "truthy (extract_text (parts_of m))")
      (auto simp: execute_start_text [OF _ r] execute_start_no_text after_start_frame)
qed

lemma execute_finish_streams_of:
  "j_task j \<noteq> t \<Longrightarrow> streams_of (fst (execute_finish j r now s)) t = streams_of s t"
  by (simp add: execute_finish_def Let_def streams_of_set_status streams_of_emit)

lemma execute_finish_jobs [simp]: "sv_jobs (fst (execute_finish j r now s)) = sv_jobs s"
  by (simp add: execute_finish_def Let_def)

lemma execute_finish_db:
  "sv_db (fst (execute_finish j r now s)) =
    update_status (sv_db s) (j_task j) (final_status (j_task j) r now) now"
  by (simp add: execute_finish_def Let_def)

lemma open_task_frame:
  assumes "open_task tid m push now s = Some s'"
  shows "sv_jobs s' = sv_jobs s" "sv_streams s' = sv_streams s" "sv_sessions s' = sv_sessions s"
    "t \<noteq> tid \<Longrightarrow> get_a2a_task (sv_db s') t = get_a2a_task (sv_db s) t"
    "\<exists>r. tr_id r = tid \<and> tr_context r = context_of tid m \<and>
      tr_session r = (case session_for_context (sv_db s) (context_of tid m) of
        None \<Rightarrow> context_of tid m | Some x \<Rightarrow> x) \<and>
      db_tasks (sv_db s') = db_tasks (sv_db s) @ [r]"
  using assms
  by (auto simp: open_task_def Let_def create_a2a_task_def get_a2a_task_create set_push_config_def
      get_a2a_task_def table_simps insert_row_def split: option.splits if_splits)

lemma handle_send_cases:
  "fst (handle_send tid nid now p s) = s \<or>
    (\<exists>m s1. sp_message p = Some m \<and> open_task tid m (sp_push p) now s = Some s1 \<and>
      fst (handle_send tid nid now p s) = fst (execute_start tid m (sp_blocking p) nid now s1))"
  by (auto simp: handle_send_def Let_def validate_params_def split: option.splits prod.splits if_splits)

lemma handle_stream_cases:
  "fst (handle_stream tid nid now p s) = s \<or>
    (\<exists>m s1. sp_message p = Some m \<and> open_task tid m (sp_push p) now s = Some s1 \<and>
      (let s3 = fst (execute_start tid m (sp_blocking p) nid now
                  (s1\<lparr>sv_streams := sv_streams s1 @ [new_queue tid]\<rparr>))
       in fst (handle_stream tid nid now p s) =
          s3\<lparr>sv_streams := map (\<lambda>q. if q_task q = tid then subscribe q else q) (sv_streams s3)\<rparr>))"
  by (auto simp: handle_stream_def Let_def validate_params_def split: option.splits if_splits)

lemma subscribe_task [simp]: "q_task (subscribe q) = q_task q"
  by (simp add: subscribe_def)

lemma pull_task [simp]: "q_task (pull q) = q_task q"
  by (simp add: pull_def split: list.split)

lemma new_queue_task [simp]: "q_task (new_queue t) = t"
  by (simp add: new_queue_def)

lemma map_update_status:
  assumes "\<And>r st n. g (r\<lparr>tr_status := st, tr_updated := n\<rparr>) = g r"
  shows "g ` set (db_tasks (update_status d i st now)) = g ` set (db_tasks d)"
proof -
  have "map g (db_tasks (update_status d i st now)) = map g (db_tasks d)"
    using assms by (simp add: update_status_def map_update_rows)
  then have "set (map g (db_tasks (update_status d i st now))) = set (map g (db_tasks d))" by simp
  then show ?thesis by simp
qed

lemma tasks_update_status [simp]:
  "tr_id ` set (db_tasks (update_status d i st now)) = tr_id ` set (db_tasks d)"
  by (rule map_update_status) simp

lemma contexts_update_status [simp]:
  "(\<forall>r \<in> set (db_tasks (update_status d i st now)). tr_session r = tr_context r) \<longleftrightarrow>
    (\<forall>r \<in> set (db_tasks d). tr_session r = tr_context r)"
proof -
  let ?g = "\<lambda>r. (tr_session r, tr_context r)"
  have g: "?g ` set (db_tasks (update_status d i st now)) = ?g ` set (db_tasks d)"
    by (rule map_update_status) simp
  have all: "(\<forall>r \<in> set xs. tr_session r = tr_context r) \<longleftrightarrow> (\<forall>x \<in> ?g ` set xs. fst x = snd x)"
    for xs :: "task_row list" by simp
  show ?thesis unfolding all g ..
qed

lemma filter_task_map:
  assumes "\<And>q. q_task (f q) = q_task q"
  shows "filter (\<lambda>q. q_task q = t) (map f qs) = map f (filter (\<lambda>q. q_task q = t) qs)"
  by (induction qs) (auto simp: assms)

section \<open>A stream nobody feeds\<close>

definition idle_stream :: "server \<Rightarrow> id \<Rightarrow> bool" where
  "idle_stream s t \<longleftrightarrow> streams_of s t = [subscribe (new_queue t)] \<and>
     (\<forall>j \<in> set (sv_jobs s). j_task j \<noteq> t) \<and> t \<in> tr_id ` set (db_tasks (sv_db s))"

lemma streams_of_subscribe:
  "tid \<noteq> t \<Longrightarrow>
    streams_of (s\<lparr>sv_streams := map (\<lambda>q. if q_task q = tid then subscribe q else q) (sv_streams s)\<rparr>) t =
      streams_of s t"
  by (simp add: streams_of_def streams_of_map)

lemma idle_execute_start:
  assumes "idle_stream s t" and "tid \<noteq> t"
  shows "idle_stream (fst (execute_start tid m b nid now s)) t"
proof -
  obtain js st where "sv_jobs (fst (execute_start tid m b nid now s)) = sv_jobs s @ js"
    "\<forall>j \<in> set js. j_task j = tid"
    "sv_db (fst (execute_start tid m b nid now s)) = update_status (sv_db s) tid st now"
    using execute_start_frame(2,3) by metis
  then show ?thesis
    using assms execute_start_frame(1) [OF assms(2)] unfolding idle_stream_def by auto
qed

lemma idle_open_task:
  assumes "idle_stream s t" and "open_task tid m push now s = Some s1"
  shows "idle_stream s1 t"
  using assms(1) open_task_frame [OF assms(2)] by (auto simp: idle_stream_def streams_of_def)

lemma pull_waiting: "pull (subscribe (new_queue t)) = subscribe (new_queue t)"
  by (simp add: pull_def subscribe_def new_queue_def)

lemma idle_pull: "idle_stream s t \<Longrightarrow> idle_stream (pull_stream tid s) t"
  by (simp add: idle_stream_def streams_of_def pull_stream_def filter_task_map pull_waiting)

lemma idle_step:
  assumes "server_step handles s s'" and "idle_stream s t"
  shows "idle_stream s' t"
  using assms(1)
proof cases
  case (step_send tid nid now p)
  then have "tid \<noteq> t" using assms(2) by (auto simp: fresh_task_def idle_stream_def)
  with handle_send_cases [of tid nid now p s] step_send(1) assms(2) show ?thesis
    using idle_execute_start idle_open_task by metis
next
  case (step_stream tid nid now p)
  then have ne: "tid \<noteq> t" using assms(2) by (auto simp: fresh_task_def idle_stream_def)
  from handle_stream_cases [of tid nid now p s] show ?thesis
  proof (elim disjE exE conjE)
    assume "fst (handle_stream tid nid now p s) = s"
    with step_stream assms(2) show ?thesis by simp
  next
    fix m and s1 :: server
    let ?s2 = "s1\<lparr>sv_streams := sv_streams s1 @ [new_queue tid]\<rparr>"
    let ?s3 = "fst (execute_start tid m (sp_blocking p) nid now ?s2)"
    assume op: "open_task tid m (sp_push p) now s = Some s1" and
      res: "let s3 = ?s3 in fst (handle_stream tid nid now p s) =
          s3\<lparr>sv_streams := map (\<lambda>q. if q_task q = tid then subscribe q else q) (sv_streams s3)\<rparr>"
    have "idle_stream ?s2 t"
      using idle_open_task [OF assms(2) op] ne by (simp add: idle_stream_def streams_of_def)
    from idle_execute_start [OF this ne] have "idle_stream ?s3 t" .
    then show ?thesis
      using res step_stream(1) streams_of_subscribe [OF ne]
      by (simp add: Let_def idle_stream_def)
  qed
next
  case (step_finish j outcome now)
  then have "j_task j \<noteq> t" using assms(2) by (auto simp: idle_stream_def)
  then show ?thesis
    using assms(2) step_finish(1) execute_finish_streams_of [of j t]
    by (auto simp: idle_stream_def finish_job_def execute_finish_db dest: notin_set_remove1)
next
  case (step_cancel now i)
  then show ?thesis
    using assms(2)
    by (auto simp: handle_cancel_def idle_stream_def Let_def split: option.splits if_splits)
next
  case (step_pull tid)
  with assms(2) show ?thesis by (simp add: idle_pull)
qed

lemma idle_steps: "(server_step handles)\<^sup>*\<^sup>* s s' \<Longrightarrow> idle_stream s t \<Longrightarrow> idle_stream s' t"
  by (induction rule: rtranclp_induct) (auto intro: idle_step)

section \<open>Sessions of a context\<close>

definition placeholder_sessions :: "server \<Rightarrow> bool" where
  "placeholder_sessions s \<longleftrightarrow> (\<forall>r \<in> set (db_tasks (sv_db s)). tr_session r = tr_context r)"

lemma session_for_context_placeholder:
  assumes "placeholder_sessions s"
  shows "session_for_context (sv_db s) c = None \<or> session_for_context (sv_db s) c = Some c"
proof -
  have "set (order_by_desc tr_created (filter (\<lambda>r. tr_context r = c) (db_tasks (sv_db s)))) =
      {r \<in> set (db_tasks (sv_db s)). tr_context r = c}" by simp
  with assms show ?thesis
    unfolding session_for_context_def placeholder_sessions_def
    by (cases "order_by_desc tr_created (filter (\<lambda>r. tr_context r = c) (db_tasks (sv_db s)))") auto
qed

lemma session_for_context_row:
  assumes "placeholder_sessions s" and "r \<in> set (db_tasks (sv_db s))" and "tr_context r = c"
  shows "session_for_context (sv_db s) c = Some c"
proof -
  have "r \<in> set (order_by_desc tr_created (filter (\<lambda>r. tr_context r = c) (db_tasks (sv_db s))))"
    using assms(2,3) by simp
  then have "session_for_context (sv_db s) c \<noteq> None"
    unfolding session_for_context_def by (metis empty_iff empty_set list.case(2) list.exhaust option.distinct(1))
  with session_for_context_placeholder [OF assms(1), of c] show ?thesis by blast
qed

lemma placeholder_open_task:
  assumes "placeholder_sessions s" and "open_task tid m push now s = Some s1"
  shows "placeholder_sessions s1"
  using open_task_frame(5) [OF assms(2)] session_for_context_placeholder [OF assms(1), of "context_of tid m"] assms(1)
  by (auto simp: placeholder_sessions_def split: option.splits)

lemma placeholder_execute_start:
  assumes "placeholder_sessions s"
  shows "placeholder_sessions (fst (execute_start tid m b nid now s))"
  using execute_start_frame(3) [of tid m b nid now s] assms
  unfolding placeholder_sessions_def by (metis contexts_update_status)

lemma placeholder_step: "server_step handles s s' \<Longrightarrow> placeholder_sessions s \<Longrightarrow> placeholder_sessions s'"
proof (induction rule: server_step.induct)
  case (step_send s tid nid now p)
  then show ?case
    using handle_send_cases [of tid nid now p s] placeholder_open_task placeholder_execute_start by metis
next
  case (step_stream s tid nid now p)
  from handle_stream_cases [of tid nid now p s] show ?case
  proof (elim disjE exE conjE)
    fix m and s1 :: server
    let ?s2 = "s1\<lparr>sv_streams := sv_streams s1 @ [new_queue tid]\<rparr>"
    assume op: "open_task tid m (sp_push p) now s = Some s1" and
      res: "let s3 = fst (execute_start tid m (sp_blocking p) nid now ?s2)
       in fst (handle_stream tid nid now p s) =
          s3\<lparr>sv_streams := map (\<lambda>q. if q_task q = tid then subscribe q else q) (sv_streams s3)\<rparr>"
    have "placeholder_sessions ?s2"
      using placeholder_open_task [OF step_stream.prems op] by (simp add: placeholder_sessions_def)
    from placeholder_execute_start [OF this] show ?thesis
      using res by (simp add: Let_def placeholder_sessions_def)
  qed (use step_stream in simp)
next
  case (step_finish j s outcome now)
  then show ?case
    by (simp add: placeholder_sessions_def finish_job_def execute_finish_db)
next
  case (step_cancel s now i)
  then show ?case
    by (auto simp: placeholder_sessions_def handle_cancel_def Let_def
        split: option.splits)
next
  case (step_pull s tid)
  then show ?case by (simp add: placeholder_sessions_def pull_stream_def)
qed

lemma placeholder_reachable: "reachable_server handles s \<Longrightarrow> placeholder_sessions s"
proof (induction rule: reachable_server.induct)
  case reach_empty_server
  then show ?case by (simp add: placeholder_sessions_def empty_server_def empty_a2a_db_def)
qed (rule placeholder_step)

section \<open>Concrete requests for the witnesses\<close>

definition demo_message :: "a2a_part list \<Rightarrow> id option \<Rightarrow> a2a_message" where
  "demo_message ps ctx = \<lparr>msg_id = Some ''m'', msg_role = Some ''user'', msg_parts = Some ps,
     msg_context = ctx, msg_task = None, msg_metadata = None\<rparr>"

definition demo_params :: "a2a_part list \<Rightarrow> id option \<Rightarrow> bool option \<Rightarrow> send_params" where
  "demo_params ps ctx b = \<lparr>sp_message = Some (demo_message ps ctx), sp_blocking = b, sp_push = None\<rparr>"

lemmas server_eval = empty_server_def empty_a2a_db_def handle_stream_def handle_send_def
  validate_params_def demo_params_def demo_message_def parts_of_def open_task_def context_of_def
  session_for_context_def order_by_desc_def create_a2a_task_def insert_row_def Let_def
  check_referenced_def

definition hung :: server where
  "hung = fst (handle_stream ''t'' ''n'' 5 (demo_params [Data_Part JNull] None None) empty_server)"

lemma fresh_empty_server: "tid \<noteq> [] \<Longrightarrow> fresh_task empty_server tid"
  by (simp add: fresh_task_def empty_server_def empty_a2a_db_def)

section \<open>Properties of the server\<close>

lemma open_task_fresh:
  assumes "fresh_task s tid" and "validate_params p = None" and "sp_push p = None"
  shows "\<exists>s1. open_task tid (the (sp_message p)) (sp_push p) now s = Some s1"
proof -
  have "tid \<notin> tr_id ` set (db_tasks (sv_db s))" using assms(1) by (auto simp: fresh_task_def)
  with assms(3) show ?thesis by (simp add: open_task_def create_a2a_task_def insert_row_def Let_def)
qed

text \<open>a streaming request whose message has no text never ends its stream. The executor reports
  the failure before the queue has subscribed, so whatever the server does afterwards the stream
  has delivered nothing and stays open, although the task is stored as failed.\<close>

theorem stream_without_text_hangs:
  assumes "fresh_task s tid" and "validate_params p = None" and "sp_push p = None"
    and "\<not> truthy (extract_text (parts_of (the (sp_message p))))"
    and "(server_step handles)\<^sup>*\<^sup>* (fst (handle_stream tid nid now p s)) s'"
  shows "\<exists>q. streams_of s' tid = [q] \<and> q_yielded q = [] \<and> q_buffer q = [] \<and> \<not> q_done q \<and> \<not> q_closed q"
proof -
  let ?m = "the (sp_message p)"
  obtain s1 where op: "open_task tid ?m (sp_push p) now s = Some s1"
    using open_task_fresh [OF assms(1-3)] by blast
  let ?s2 = "s1\<lparr>sv_streams := sv_streams s1 @ [new_queue tid]\<rparr>"
  have none: "filter (\<lambda>q. q_task q = tid) (sv_streams s) = []"
    using assms(1) by (simp add: fresh_task_def filter_empty_conv)
  have s2: "streams_of ?s2 tid = [new_queue tid]"
    using none open_task_frame(2) [OF op] by (simp add: streams_of_def)
  let ?s3 = "fst (execute_start tid ?m (sp_blocking p) nid now ?s2)"
  have s3: "?s3 = set_status tid tid (no_text_status tid now) True now ?s2"
    by (rule execute_start_no_text [OF assms(4)])
  have "streams_of ?s3 tid = [new_queue tid]"
    using s2 unfolding s3 streams_of_def set_status_frame(4)
    by (simp add: filter_task_map on_event_def new_queue_def)
  moreover have "fst (handle_stream tid nid now p s) =
      ?s3\<lparr>sv_streams := map (\<lambda>q. if q_task q = tid then subscribe q else q) (sv_streams ?s3)\<rparr>"
    using op assms(2) by (simp add: handle_stream_def Let_def)
  ultimately have "streams_of (fst (handle_stream tid nid now p s)) tid = [subscribe (new_queue tid)]"
    by (simp add: streams_of_def filter_task_map)
  moreover have "\<forall>j \<in> set (sv_jobs ?s3). j_task j \<noteq> tid"
    using assms(1) open_task_frame(1) [OF op] unfolding s3 by (auto simp: fresh_task_def)
  moreover have "tid \<in> tr_id ` set (db_tasks (sv_db ?s3))"
    using open_task_frame(5) [OF op] unfolding s3 by auto
  ultimately have "idle_stream (fst (handle_stream tid nid now p s)) tid"
    using \<open>fst (handle_stream tid nid now p s) = _\<close> by (simp add: idle_stream_def)
  from idle_steps [OF assms(5) this] show ?thesis
    by (simp add: idle_stream_def subscribe_def new_queue_def)
qed

theorem stream_without_text_hangs_witness:
  "\<exists>q. streams_of (pull_stream ''t'' hung) ''t'' = [q] \<and> \<not> q_closed q \<and> q_yielded q = []"
proof -
  have "(server_step None)\<^sup>*\<^sup>*
      (fst (handle_stream ''t'' ''n'' 5 (demo_params [Data_Part JNull] None None) empty_server))
      (pull_stream ''t'' hung)"
    unfolding hung_def by (rule r_into_rtranclp) (rule step_pull)
  from stream_without_text_hangs [OF fresh_empty_server _ _ _ this] show ?thesis
    by (auto simp: validate_params_def demo_params_def demo_message_def parts_of_def
        extract_text_def List.map_filter_def)
qed

lemma create_session_fresh:
  assumes "get_session d nid = None"
  shows "\<exists>row. sid row = nid \<and>
    snd (create_session d nid now name source sender) = d\<lparr>sessions := sessions d @ [row]\<rparr>"
proof -
  have "nid \<notin> sid ` set (sessions d)" using assms by (simp add: get_session_def get_row_None_iff)
  then show ?thesis
    by (intro exI [of _ "\<lparr>sid = nid, sname = (case name of None \<Rightarrow> '''' | Some n \<Rightarrow> n),
          ssource = (case source of None \<Rightarrow> ''websocket'' | Some x \<Rightarrow> x), ssender = sender, sleaf = None,
          sactive_mode = None, screated = sql_now now, supdated = sql_now now\<rparr>"])
      (auto simp: create_session_def insert_row_def Let_def split: option.split)
qed

text \<open>Messages of one context do not continue one session. The session that the executor
  creates for a message is not recorded with the task, so every later message of the same
  context creates a session of its own, unless a session's id is the context id itself.\<close>

theorem context_message_creates_session:
  assumes "reachable_server handles s" and "fresh_task s tid"
    and "validate_params p = None" and "sp_push p = None"
    and "check_referenced (sv_db s) (the (sp_message p)) = None"
    and "truthy (extract_text (parts_of (the (sp_message p))))"
    and "msg_context (the (sp_message p)) = Some ctx" and "get_session (sv_sessions s) ctx = None"
    and "get_session (sv_sessions s) nid = None"
  shows "\<exists>row j. sessions (sv_sessions (fst (handle_send tid nid now p s))) =
      sessions (sv_sessions s) @ [row] \<and> sid row = nid \<and>
    sv_jobs (fst (handle_send tid nid now p s)) = sv_jobs s @ [j] \<and> j_session j = nid \<and>
    session_for_context (sv_db (fst (handle_send tid nid now p s))) ctx = Some ctx"
proof -
  let ?m = "the (sp_message p)"
  have ph: "placeholder_sessions s" by (rule placeholder_reachable [OF assms(1)])
  obtain s1 where op: "open_task tid ?m (sp_push p) now s = Some s1"
    using open_task_fresh [OF assms(2-4)] by blast
  have ctx: "context_of tid ?m = ctx" using assms(7) by (simp add: context_of_def)
  have ph1: "placeholder_sessions s1" by (rule placeholder_open_task [OF ph op])
  obtain r where r: "r \<in> set (db_tasks (sv_db s1))" "tr_context r = ctx"
    using open_task_frame(5) [OF op] ctx by (metis in_set_conv_decomp)
  have known: "session_for_context (sv_db s1) ctx = Some ctx"
    by (rule session_for_context_row [OF ph1 r])
  let ?text = "the (extract_text (parts_of ?m))"
  obtain row where row: "sid row = nid" and
    res: "resolve_session s1 ctx ?text nid now =
      (nid, s1\<lparr>sv_sessions := (sv_sessions s)\<lparr>sessions := sessions (sv_sessions s) @ [row]\<rparr>\<rparr>)"
    using create_session_fresh [OF assms(9), of now "Some (''A2A: '' @ take 50 ?text)" "Some ''a2a''" None]
      assms(8) known open_task_frame(3) [OF op]
    by (auto simp: resolve_session_def)
  have st: "fst (handle_send tid nid now p s) =
      after_start tid ctx now (text_job tid ?m (sp_blocking p) nid)
        (s1\<lparr>sv_sessions := (sv_sessions s)\<lparr>sessions := sessions (sv_sessions s) @ [row]\<rparr>\<rparr>)"
    using execute_start_text [OF assms(6) res [folded ctx]] op assms(3,5) ctx
    by (simp add: handle_send_def Let_def split: prod.split) (metis fst_conv)
  have db: "sv_db (fst (handle_send tid nid now p s)) = update_status (sv_db s1) tid
      \<lparr>ts_state = Working, ts_message = None, ts_timestamp = iso_now now\<rparr> now"
    by (simp add: st after_start_frame)
  have ph2: "placeholder_sessions (fst (handle_send tid nid now p s))"
    using placeholder_step [OF step_send [OF assms(2)] ph] .
  have "tr_context r' = ctx \<Longrightarrow> r' \<in> set (db_tasks (sv_db (fst (handle_send tid nid now p s)))) \<Longrightarrow>
      session_for_context (sv_db (fst (handle_send tid nid now p s))) ctx = Some ctx" for r'
    by (rule session_for_context_row [OF ph2])
  moreover have "ctx \<in> tr_context ` set (db_tasks (sv_db (fst (handle_send tid nid now p s))))"
    using r map_update_status [of tr_context] unfolding db by auto
  ultimately show ?thesis
    using row open_task_frame(1) [OF op] by (auto simp: st after_start_frame text_job_def)
qed


theorem context_message_creates_session_witness:
  "\<exists>row. sessions (sv_sessions (fst (handle_send ''t'' ''n'' 5
      (demo_params [Text_Part ''hi''] (Some ''ctx'') None) empty_server))) = [row] \<and> sid row = ''n''"
  using context_message_creates_session [OF reach_empty_server fresh_empty_server, of "''t''"
      "demo_params [Text_Part ''hi''] (Some ''ctx'') None" "''ctx''" "''n''" 5]
  by (auto simp: validate_params_def demo_params_def demo_message_def parts_of_def check_referenced_def
      extract_text_def List.map_filter_def get_session_def get_row_def empty_server_def empty_store_def)

lemma get_a2a_task_execute_start:
  "tid \<noteq> i \<Longrightarrow> get_a2a_task (sv_db (fst (execute_start tid m b nid now s))) i = get_a2a_task (sv_db s) i"
  using execute_start_frame(3) [of tid m b nid now s] by (auto simp: get_a2a_task_update_status)

lemma fresh_task_get: "fresh_task s tid \<Longrightarrow> get_a2a_task (sv_db s) i = Some t \<Longrightarrow> tid \<noteq> i"
  by (auto simp: fresh_task_def get_a2a_task_def dest: get_row_SomeD)

text \<open>C36: Once a task is in a terminal state and no inference runs for it, no request, completion
  or cancellation changes its stored status.\<close>

theorem settled_task_final:
  assumes "server_step handles s s'" and "get_a2a_task (sv_db s) i = Some t"
    and "is_terminal_state (ts_state (task_status t))" and "\<forall>j \<in> set (sv_jobs s). j_task j \<noteq> i"
  shows "get_a2a_task (sv_db s') i = Some t"
  using assms(1)
proof cases
  case (step_send tid nid now p)
  have ne: "tid \<noteq> i" by (rule fresh_task_get [OF step_send(2) assms(2)])
  from handle_send_cases [of tid nid now p s] show ?thesis
    using step_send(1) assms(2) get_a2a_task_execute_start [OF ne] open_task_frame(4) ne by metis
next
  case (step_stream tid nid now p)
  have ne: "tid \<noteq> i" by (rule fresh_task_get [OF step_stream(2) assms(2)])
  from handle_stream_cases [of tid nid now p s] show ?thesis
    using step_stream(1) assms(2) get_a2a_task_execute_start [OF ne] open_task_frame(4) ne
    by (auto simp: Let_def)
next
  case (step_finish j outcome now)
  then show ?thesis
    using assms(2,4) by (auto simp: finish_job_def execute_finish_db get_a2a_task_update_status)
next
  case (step_cancel now k)
  then show ?thesis
    using assms(2,3)
    by (auto simp: handle_cancel_def Let_def get_a2a_task_update_status split: option.splits if_splits)
next
  case (step_pull tid)
  then show ?thesis using assms(2) by (simp add: pull_stream_def)
qed

theorem settled_task_final_witness:
  "get_a2a_task (sv_db (fst (handle_cancel None 9 (Some ''t'') hung))) ''t'' = get_a2a_task (sv_db hung) ''t''"
proof -
  obtain t where t: "get_a2a_task (sv_db hung) ''t'' = Some t" "ts_state (task_status t) = Failed"
    by (simp add: hung_def server_eval execute_start_def extract_text_def List.map_filter_def
        get_a2a_task_def get_row_def update_status_def update_rows_def row_to_task_def)
  have "sv_jobs hung = []"
    by (simp add: hung_def server_eval execute_start_def extract_text_def List.map_filter_def)
  then show ?thesis
    using settled_task_final [OF step_cancel t(1)] t by (simp add: is_terminal_state_def terminal_states_def)
qed

text \<open>Cancelling a running task does not settle it. The cancelled state is terminal, but the
  job is still pending, and when the aborted inference returns it overwrites the state with
  completed or failed.\<close>

theorem canceled_task_overwritten:
  assumes "handle_cancel handles now (Some i) s = (s1, Reply_Task (Some t))"
    and "j \<in> set (sv_jobs s)" and "j_task j = i"
  shows "j \<in> set (sv_jobs s1) \<and> ts_state (task_status t) = Canceled \<and>
    (\<exists>t'. get_a2a_task (sv_db (finish_job j outcome later s1)) i = Some t' \<and>
      ts_state (task_status t') = (if isl outcome then Failed else Completed))"
proof -
  have s1: "sv_jobs s1 = sv_jobs s" "get_a2a_task (sv_db s1) i = Some t" "ts_state (task_status t) = Canceled"
    using assms(1)
    by (auto simp: handle_cancel_def Let_def get_a2a_task_update_status split: option.splits if_splits)
  then show ?thesis
    using assms(2,3)
    by (auto simp: finish_job_def execute_finish_db get_a2a_task_update_status final_status_def
        split: sum.split)
qed

definition running :: server where
  "running = fst (handle_send ''t'' ''n'' 5 (demo_params [Text_Part ''hi''] None None) empty_server)"

lemma running_job: "\<exists>j. sv_jobs running = [j] \<and> j_task j = ''t''"
  by (simp add: running_def server_eval execute_start_def resolve_session_def extract_text_def
      List.map_filter_def get_session_def get_row_def empty_store_def create_session_def
      split: prod.split)

lemma running_cancel:
  "\<exists>s1 t. handle_cancel (Some (\<lambda>_. Some True)) 9 (Some ''t'') running = (s1, Reply_Task (Some t))"
  by (simp add: running_def server_eval execute_start_def resolve_session_def extract_text_def
      List.map_filter_def get_session_def get_row_def empty_store_def create_session_def
      handle_cancel_def get_a2a_task_def update_status_def update_rows_def row_to_task_def
      is_terminal_state_def terminal_states_def cancel_execution_def get_session_id_def
      split: prod.split)

theorem canceled_task_overwritten_witness:
  "\<exists>s1 j t'. get_a2a_task (sv_db (finish_job j (Inr ''late'') 10 s1)) ''t'' = Some t' \<and>
    ts_state (task_status t') = Completed"
proof -
  obtain j where "sv_jobs running = [j]" "j_task j = ''t''" using running_job by blast
  moreover obtain s1 t where
    "handle_cancel (Some (\<lambda>_. Some True)) 9 (Some ''t'') running = (s1, Reply_Task (Some t))"
    using running_cancel by blast
  ultimately show ?thesis
    using canceled_task_overwritten [where j = j and outcome = "Inr ''late''" and later = 10] by fastforce
qed

section \<open>The queue delivers in order\<close>

datatype queue_op = Deliver bus_event | Pull

fun queue_step :: "queue_op \<Rightarrow> equeue \<Rightarrow> equeue" where
  "queue_step (Deliver e) q = on_event e q"
| "queue_step Pull q = pull q"

fun delivered :: "id \<Rightarrow> queue_op list \<Rightarrow> bus_event list" where
  "delivered t [] = []"
| "delivered t (Deliver e # ops) = (if event_task e = t then e # delivered t ops else delivered t ops)"
| "delivered t (Pull # ops) = delivered t ops"

lemma delivered_append: "delivered t (xs @ ys) = delivered t xs @ delivered t ys"
  by (induction t xs rule: delivered.induct) auto

definition queue_inv :: "id \<Rightarrow> queue_op list \<Rightarrow> equeue \<Rightarrow> bool" where
  "queue_inv t ops q \<longleftrightarrow>
     q_task q = t \<and> (q_subscribed q \<longleftrightarrow> \<not> q_closed q) \<and> (q_closed q \<longrightarrow> q_done q \<and> q_buffer q = []) \<and>
     (\<exists>before after. ops = before @ after \<and> (q_closed q \<or> after = []) \<and>
       q_yielded q @ q_buffer q = filter streamed (delivered t before) \<and>
       (q_done q \<longleftrightarrow> (\<exists>e \<in> set (delivered t before). ends_stream e)))"

lemma queue_inv_step:
  assumes "queue_inv t ops q"
  shows "queue_inv t (ops @ [op]) (queue_step op q)"
proof -
  from assms obtain before after where q: "q_task q = t" "q_subscribed q \<longleftrightarrow> \<not> q_closed q"
    "q_closed q \<longrightarrow> q_done q \<and> q_buffer q = []" "ops = before @ after" "q_closed q \<or> after = []"
    "q_yielded q @ q_buffer q = filter streamed (delivered t before)"
    "q_done q \<longleftrightarrow> (\<exists>e \<in> set (delivered t before). ends_stream e)"
    unfolding queue_inv_def by blast
  show ?thesis
  proof (cases "q_closed q")
    case True
    then have "queue_step op q = q" using q(2) by (cases op) (auto simp: on_event_def pull_def)
    moreover have "ops @ [op] = before @ (after @ [op])" using q(4) by simp
    ultimately show ?thesis using q True unfolding queue_inv_def by metis
  next
    case False
    then have ops: "before = ops" using q(4,5) by simp
    let ?q = "queue_step op q"
    have fin: "q_task ?q = t \<and> (q_subscribed ?q \<longleftrightarrow> \<not> q_closed ?q) \<and> (q_closed ?q \<longrightarrow> q_done ?q \<and> q_buffer ?q = []) \<and>
        q_yielded ?q @ q_buffer ?q = filter streamed (delivered t (ops @ [op])) \<and>
        (q_done ?q \<longleftrightarrow> (\<exists>e \<in> set (delivered t (ops @ [op])). ends_stream e))"
    proof (cases op)
      case (Deliver e)
      then show ?thesis
        using q(1,2,6,7) False unfolding ops by (auto simp: on_event_def delivered_append)
    next
      case Pull
      then show ?thesis
        using q(1,2,6,7) False unfolding ops
        by (cases "q_buffer q") (simp_all add: pull_def delivered_append)
    qed
    then show ?thesis unfolding queue_inv_def by blast
  qed
qed

lemma queue_run: "queue_inv t ops (fold queue_step ops (subscribe (new_queue t)))"
proof (induction ops rule: rev_induct)
  case Nil
  then show ?case by (simp add: queue_inv_def subscribe_def new_queue_def)
qed (simp add: queue_inv_step)

text \<open>A subscribed stream delivers the events of its task in the order they were emitted and
  loses none before it closes; it closes only after an event that ends a stream, and then
  everything emitted before the close has been delivered.\<close>

theorem stream_delivers_in_order:
  assumes "q = fold queue_step ops (subscribe (new_queue t))"
  shows "\<exists>before after. ops = before @ after \<and> (q_closed q \<or> after = []) \<and>
    q_yielded q @ q_buffer q = filter streamed (delivered t before) \<and>
    (q_closed q \<longrightarrow> q_buffer q = [] \<and> (\<exists>e \<in> set (delivered t before). ends_stream e))"
  using queue_run [of t ops] unfolding assms queue_inv_def by blast

theorem stream_delivers_in_order_witness:
  "\<exists>q before after. q = fold queue_step [Deliver (Task_Complete ''t'' None), Pull, Pull] (subscribe (new_queue ''t'')) \<and>
    q_closed q \<and> [Deliver (Task_Complete ''t'' None), Pull, Pull] = before @ after \<and>
    q_yielded q = filter streamed (delivered ''t'' before)"
proof -
  let ?ops = "[Deliver (Task_Complete ''t'' None), Pull, Pull]"
  let ?q = "fold queue_step ?ops (subscribe (new_queue ''t''))"
  have c: "q_closed ?q" by (simp add: subscribe_def new_queue_def on_event_def pull_def)
  obtain before after where "?ops = before @ after"
    "q_yielded ?q @ q_buffer ?q = filter streamed (delivered ''t'' before)" "q_buffer ?q = []"
    using stream_delivers_in_order [OF refl, of ?ops "''t''"] c by blast
  with c show ?thesis by (metis append_Nil2)
qed

end
