(* ===== verification/Compaction.thy ===== *)
theory Compaction
  imports Complex_Main Session_Store Json_Text
begin

text \<open>
  Context compaction: the token estimates, cut point, staged summarization, truncation and
  emergency truncation of \<open>packages/runtime/agent-runtime/src/compaction/compaction.ts\<close>, the
  pruning of tool results of \<open>packages/capabilities/compaction-summary/src/prune.ts\<close> and the
  \<open>beforeInference\<close> hook of \<open>capability.ts\<close> beside it. The summarizer (an LLM call) is an
  argument; it may throw. Token counts are exact: every quotient the code takes is by 2.5, 3,
  3.5 or multiplied by 1.15 before \<open>Math.ceil\<close>, which rounds to the same integer in floating
  point and in the rationals. The ratios of the configuration are reals.
\<close>

section \<open>Token estimates\<close>

definition ceil_div :: "nat \<Rightarrow> nat \<Rightarrow> nat" where
  "ceil_div a b = (a + b - 1) div b"

definition code_chars :: string where
  "code_chars = [CHR 0x7B, CHR 0x7D, CHR ''['', CHR '']'', CHR ''('', CHR '')'', CHR '';'', CHR ''='',
     CHR ''>'', CHR ''<'', CHR ''|'', CHR ''&'', CHR ''!'', CHR ''~'', CHR ''^'', CHR ''%'']"

definition json_like :: "string \<Rightarrow> bool" where
  "json_like t = (case t of [] \<Rightarrow> False | c # _ \<Rightarrow> c = CHR 0x7B \<or> c = CHR ''['')"

definition estimate_text_tokens :: "string \<Rightarrow> nat" where
  "estimate_text_tokens t =
     (if t = [] then 0
      else if json_like t then ceil_div (2 * length t) 5
      else if list_ex (\<lambda>c. c \<in> set code_chars) t then ceil_div (length t) 3
      else ceil_div (2 * length t) 7)"

definition tool_call_text :: "json \<Rightarrow> string" where
  "tool_call_text b =
     (case member b ''arguments'' of
        None \<Rightarrow> stringify (JObj [])
      | Some JNull \<Rightarrow> stringify (JObj [])
      | Some (JStr s) \<Rightarrow> s
      | Some a \<Rightarrow> stringify a)"

definition block_tokens :: "json \<Rightarrow> nat" where
  "block_tokens b =
     (case b of
        JStr t \<Rightarrow> estimate_text_tokens t
      | _ \<Rightarrow> (case member b ''text'' of Some (JStr t) \<Rightarrow> estimate_text_tokens t | _ \<Rightarrow> 0) +
            (if member b ''type'' = Some (JStr ''toolCall'')
             then estimate_text_tokens (tool_call_text b) + 5 else 0))"

definition content_tokens :: "json \<Rightarrow> nat" where
  "content_tokens c =
     (case c of
        JStr t \<Rightarrow> estimate_text_tokens t
      | JArr bs \<Rightarrow> sum_list (map block_tokens bs)
      | _ \<Rightarrow> 0)"

definition estimate_tokens :: "agent_message \<Rightarrow> nat" where
  "estimate_tokens m = ceil_div (23 * (5 + content_tokens (am_content m))) 20"

definition estimate_messages_tokens :: "agent_message list \<Rightarrow> nat" where
  "estimate_messages_tokens ms = sum_list (map estimate_tokens ms)"

section \<open>Cut point\<close>

record compaction_config =
  cc_threshold :: real
  cc_window :: nat
  cc_keep_recent :: nat
  cc_base_ratio :: "real option"
  cc_min_ratio :: "real option"

definition should_compact :: "nat \<Rightarrow> compaction_config \<Rightarrow> bool" where
  "should_compact n c \<longleftrightarrow> real n > cc_threshold c * real (cc_window c)"

text \<open>The loop over the indices below \<open>i\<close>, from the last one down.\<close>

fun cut_loop :: "agent_message list \<Rightarrow> nat \<Rightarrow> nat \<Rightarrow> nat \<Rightarrow> (nat \<times> nat) option" where
  "cut_loop ms keep acc 0 = None"
| "cut_loop ms keep acc (Suc i) =
     (let acc' = acc + estimate_tokens (ms ! i)
      in if acc' \<ge> keep then (if i = 0 then None else Some (i, acc'))
         else cut_loop ms keep acc' i)"

definition find_cut_point :: "agent_message list \<Rightarrow> nat \<Rightarrow> (nat \<times> nat) option" where
  "find_cut_point ms keep = cut_loop ms keep 0 (length ms)"

section \<open>Staged summaries\<close>

text \<open>
  \<open>splitByTokenShare\<close>; \<open>None\<close> as the number of chunks is \<open>Infinity\<close>, which the caller computes
  when the chunk size rounds down to 0.
\<close>

fun split_loop ::
  "nat \<Rightarrow> nat option \<Rightarrow> agent_message list list \<Rightarrow> agent_message list \<Rightarrow> nat \<Rightarrow> agent_message list \<Rightarrow>
    agent_message list list" where
  "split_loop tot n chunks cur tokens [] = (if cur = [] then chunks else chunks @ [cur])"
| "split_loop tot n chunks cur tokens (m # ms) =
     (let cur' = cur @ [m]; tokens' = tokens + estimate_tokens m
      in if (case n of None \<Rightarrow> True | Some k \<Rightarrow> tokens' * k \<ge> tot \<and> length chunks + 1 < k)
         then split_loop tot n (chunks @ [cur']) [] 0 ms
         else split_loop tot n chunks cur' tokens' ms)"

definition split_by_token_share :: "agent_message list \<Rightarrow> nat option \<Rightarrow> agent_message list list" where
  "split_by_token_share ms n =
     (if (case n of None \<Rightarrow> False | Some k \<Rightarrow> k \<le> 1) then [ms]
      else split_loop (estimate_messages_tokens ms) n [] [] 0 ms)"

definition num_chunks :: "compaction_config \<Rightarrow> nat \<Rightarrow> nat option" where
  "num_chunks c tot =
     (let base = (case cc_base_ratio c of None \<Rightarrow> 2 / 5 | Some r \<Rightarrow> r);
          low = (case cc_min_ratio c of None \<Rightarrow> 3 / 20 | Some r \<Rightarrow> r);
          ratio = max low (base * (if tot = 0 then 1
                                   else min 1 (real (cc_window c) / (real tot * 2))));
          size = \<lfloor>real (cc_window c) * ratio\<rfloor>
      in if size = 0 then None
         else Some (nat (max 1 \<lceil>real tot / real_of_int size\<rceil>)))"

type_synonym summarizer = "agent_message list \<Rightarrow> string option \<Rightarrow> string + string"

text \<open>The loop over the chunks; \<open>aborted\<close> says whether the signal is set before the i-th chunk.\<close>

fun summarize_chunks ::
  "summarizer \<Rightarrow> (nat \<Rightarrow> bool) \<Rightarrow> nat \<Rightarrow> string option \<Rightarrow> string list \<Rightarrow> agent_message list list \<Rightarrow>
    string + string list" where
  "summarize_chunks f aborted i prev acc [] = Inr acc"
| "summarize_chunks f aborted i prev acc (ch # chs) =
     (if aborted i then Inl ''aborted''
      else case f ch prev of
             Inl e \<Rightarrow> Inl e
           | Inr s \<Rightarrow> summarize_chunks f aborted (Suc i) (Some s) (acc @ [s]) chs)"

definition part_message :: "int \<Rightarrow> nat \<Rightarrow> nat \<Rightarrow> string \<Rightarrow> agent_message" where
  "part_message now n i s =
     \<lparr>am_role = User,
      am_content = JStr (''[Summary part '' @ show_nat (i + 1) @ ''/'' @ show_nat n @ '']'' @
                         [CHR 0x0A, CHR 0x0A] @ s),
      am_tool_call_id = None, am_tool_name = None, am_is_error = None, am_timestamp = now,
      am_metadata = None\<rparr>"

definition summarize_in_stages ::
  "compaction_config \<Rightarrow> summarizer \<Rightarrow> (nat \<Rightarrow> bool) \<Rightarrow> int \<Rightarrow> agent_message list \<Rightarrow> string + string" where
  "summarize_in_stages c f aborted now ms =
     (let chunks = split_by_token_share ms (num_chunks c (estimate_messages_tokens ms))
      in if length chunks = 1 then f (hd chunks) None
         else case summarize_chunks f aborted 0 None [] chunks of
                Inl e \<Rightarrow> Inl e
              | Inr ps \<Rightarrow> f (map (\<lambda>(i, s). part_message now (length ps) i s)
                             (zip [0..<length ps] ps)) None)"

record compaction_result =
  cr_summary :: string
  cr_first_kept :: "id option"
  cr_tokens_before :: nat

definition compact_session ::
  "compaction_config \<Rightarrow> summarizer \<Rightarrow> (nat \<Rightarrow> bool) \<Rightarrow> int \<Rightarrow> agent_message list \<Rightarrow> id list \<Rightarrow>
    string + compaction_result option" where
  "compact_session c f aborted now ms ids =
     (let tot = estimate_messages_tokens ms
      in if \<not> should_compact tot c then Inr None
         else case find_cut_point ms (cc_keep_recent c) of
                None \<Rightarrow> Inr None
              | Some (cix, _) \<Rightarrow>
                  (case summarize_in_stages c f aborted now (take cix ms) of
                     Inl e \<Rightarrow> Inl e
                   | Inr s \<Rightarrow> Inr (Some \<lparr>cr_summary = s,
                         cr_first_kept = (if cix < length ids then Some (ids ! cix) else None),
                         cr_tokens_before = tot\<rparr>)))"

section \<open>Truncation\<close>

text \<open>
  Text with units above 255 is a list of 16-bit code units. \<open>fmt\<close> is \<open>toLocaleString\<close>, whose
  result depends on the locale. \<open>js_slice\<close> is \<open>String.prototype.slice\<close> with its treatment of
  negative indices.
\<close>

type_synonym units = "nat list"

definition units_of :: "string \<Rightarrow> units" where
  "units_of s = map of_char s"

definition js_slice :: "'a list \<Rightarrow> int \<Rightarrow> int option \<Rightarrow> 'a list" where
  "js_slice xs a b =
     (let n = int (length xs);
          from = (if a < 0 then max (n + a) 0 else min a n);
          to = (case b of None \<Rightarrow> n | Some e \<Rightarrow> if e < 0 then max (n + e) 0 else min e n)
      in take (nat (to - from)) (drop (nat from) xs))"

definition truncation_marker :: "(nat \<Rightarrow> units) \<Rightarrow> nat \<Rightarrow> nat \<Rightarrow> units" where
  "truncation_marker fmt n limit =
     [10, 10, 0x26A0, 0xFE0F] @ units_of '' [Content truncated '' @ [0x2014] @
     units_of '' original was '' @ fmt n @ units_of '' chars, limit is '' @ fmt limit @
     units_of '']'' @ [10, 10]"

definition truncate_tool_result :: "(nat \<Rightarrow> units) \<Rightarrow> units \<Rightarrow> nat \<Rightarrow> units" where
  "truncate_tool_result fmt content limit =
     (if length content \<le> limit then content
      else let marker = truncation_marker fmt (length content) limit;
               available = int limit - int (length marker);
               prefix_len = available div 2;
               suffix_len = available - prefix_len
           in js_slice content 0 (Some prefix_len) @ marker @ js_slice content (- suffix_len) None)"

fun emergency_loop ::
  "nat \<Rightarrow> nat \<Rightarrow> agent_message list \<Rightarrow> agent_message list \<Rightarrow> agent_message list" where
  "emergency_loop budget tokens [] kept = kept"
| "emergency_loop budget tokens (m # older) kept =
     (if tokens + estimate_tokens m > budget then kept
      else emergency_loop budget (tokens + estimate_tokens m) older (m # kept))"

definition emergency_notice :: "int \<Rightarrow> agent_message" where
  "emergency_notice now =
     \<lparr>am_role = User,
      am_content = JStr (''[System notice: Earlier conversation context was lost due to context window overflow. '' @
        ''The conversation continues from the most recent messages below.]''),
      am_tool_call_id = None, am_tool_name = None, am_is_error = None, am_timestamp = now,
      am_metadata = None\<rparr>"

definition emergency_truncate :: "int \<Rightarrow> agent_message list \<Rightarrow> nat \<Rightarrow> agent_message list" where
  "emergency_truncate now ms window =
     emergency_notice now # emergency_loop (window div 2) 0 (rev ms) []"

section \<open>Pruning tool results\<close>

definition pruned_marker :: string where
  "pruned_marker = ''[pruned]''"

definition prune_text_tokens :: "string \<Rightarrow> nat" where
  "prune_text_tokens t = (if t = [] then 0 else ceil_div (2 * length t) 7)"

definition is_tool_result :: "agent_message \<Rightarrow> bool" where
  "is_tool_result m \<longleftrightarrow> am_role m = Tool_Result"

definition block_text :: "json \<Rightarrow> string option" where
  "block_text b = (case member b ''text'' of Some (JStr t) \<Rightarrow> Some t | _ \<Rightarrow> None)"

definition tool_result_tokens :: "agent_message \<Rightarrow> nat" where
  "tool_result_tokens m =
     (case am_content m of
        JStr t \<Rightarrow> prune_text_tokens t
      | JArr bs \<Rightarrow> sum_list (map (\<lambda>b. case block_text b of None \<Rightarrow> 0 | Some t \<Rightarrow> prune_text_tokens t) bs)
      | _ \<Rightarrow> 0)"

text \<open>\<open>\{ ...block, text \}\<close>: the member keeps its place.\<close>

definition set_text :: "string \<Rightarrow> json \<Rightarrow> json" where
  "set_text t b =
     (case b of JObj ms \<Rightarrow> JObj (map (\<lambda>(k, v). if k = ''text'' then (k, JStr t) else (k, v)) ms) | _ \<Rightarrow> b)"

definition prune_message :: "agent_message \<Rightarrow> agent_message" where
  "prune_message m =
     (case am_content m of
        JStr _ \<Rightarrow> m\<lparr>am_content := JStr pruned_marker\<rparr>
      | JArr bs \<Rightarrow> m\<lparr>am_content := JArr (map (\<lambda>b. if block_text b = None then b else set_text pruned_marker b) bs)\<rparr>
      | _ \<Rightarrow> m)"

text \<open>
  The budget loop over the tool results, newest first: a result that does not fit is skipped,
  and an older, smaller one may still be kept.
\<close>

fun keep_loop :: "nat \<Rightarrow> (nat \<times> nat) list \<Rightarrow> nat set" where
  "keep_loop remaining [] = {}"
| "keep_loop remaining ((i, n) # rest) =
     (if remaining \<ge> n then insert i (keep_loop (remaining - n) rest) else keep_loop remaining rest)"

definition tool_indices :: "agent_message list \<Rightarrow> (nat \<times> nat) list" where
  "tool_indices ms =
     map (\<lambda>i. (i, tool_result_tokens (ms ! i)))
       (filter (\<lambda>i. is_tool_result (ms ! i)) (rev [0..<length ms]))"

definition prune_tool_outputs :: "agent_message list \<Rightarrow> nat \<Rightarrow> agent_message list" where
  "prune_tool_outputs ms budget =
     (let keep = keep_loop budget (tool_indices ms)
      in map (\<lambda>(i, m). if is_tool_result m \<and> i \<notin> keep then prune_message m else m)
           (zip [0..<length ms] ms))"

section \<open>The hook\<close>

definition message_entry :: "entry \<Rightarrow> bool" where
  "message_entry e \<longleftrightarrow> (case edata e of Message _ \<Rightarrow> True | _ \<Rightarrow> False)"

text \<open>
  \<open>beforeInference\<close>. An exception of the summarizer is caught and the messages are returned as
  they came. A first kept id that is undefined is stored as the empty id, which no entry has.
\<close>

definition before_inference ::
  "compaction_config \<Rightarrow> nat \<Rightarrow> summarizer \<Rightarrow> store \<Rightarrow> id \<Rightarrow> agent_message list \<Rightarrow> id \<Rightarrow> int \<Rightarrow>
    (agent_message list \<times> store) option" where
  "before_inference c budget f d s ms nid now =
     (if \<not> should_compact (estimate_messages_tokens ms) c then Some (ms, d)
      else let pruned = prune_tool_outputs ms budget
           in if \<not> should_compact (estimate_messages_tokens pruned) c then Some (pruned, d)
              else let ids = map eid (filter message_entry (get_entries d s))
                   in case compact_session c f (\<lambda>_. False) now pruned ids of
                        Inr (Some r) \<Rightarrow>
                          (case append_entry d s
                                  (Compaction (cr_summary r)
                                     (case cr_first_kept r of None \<Rightarrow> '''' | Some i \<Rightarrow> i)
                                     (cr_tokens_before r)) nid now of
                             (Inl _, d') \<Rightarrow> Some (ms, d')
                           | (Inr _, d') \<Rightarrow> map_option (\<lambda>ctx. (ctx, d')) (build_context d' s now))
                      | _ \<Rightarrow> Some (ms, d))"

section \<open>Sums over suffixes\<close>

abbreviation suffix_tokens :: "agent_message list \<Rightarrow> nat \<Rightarrow> nat" where
  "suffix_tokens ms i \<equiv> estimate_messages_tokens (drop i ms)"

lemma estimate_messages_tokens_simps [simp]:
  "estimate_messages_tokens [] = 0"
  "estimate_messages_tokens (m # ms) = estimate_tokens m + estimate_messages_tokens ms"
  "estimate_messages_tokens (xs @ ys) = estimate_messages_tokens xs + estimate_messages_tokens ys"
  by (simp_all add: estimate_messages_tokens_def)

lemma suffix_tokens_Suc:
  "i < length ms \<Longrightarrow> suffix_tokens ms i = estimate_tokens (ms ! i) + suffix_tokens ms (Suc i)"
  by (simp flip: Cons_nth_drop_Suc)

lemma suffix_tokens_mono: "i \<le> j \<Longrightarrow> suffix_tokens ms j \<le> suffix_tokens ms i"
proof (induction i rule: inc_induct)
  case (step n)
  have "suffix_tokens ms (Suc n) \<le> suffix_tokens ms n"
    by (cases "n < length ms") (simp_all add: suffix_tokens_Suc)
  with step show ?case by linarith
qed simp

section \<open>The cut point\<close>

definition is_cut :: "agent_message list \<Rightarrow> nat \<Rightarrow> nat \<Rightarrow> bool" where
  "is_cut ms keep c \<longleftrightarrow> 0 < c \<and> c < length ms \<and> keep \<le> suffix_tokens ms c \<and>
     (\<forall>c'. c < c' \<longrightarrow> c' < length ms \<longrightarrow> suffix_tokens ms c' < keep)"

lemma cut_loop_Some:
  assumes "cut_loop ms keep acc i = Some (c, t)" "i \<le> length ms" "acc = suffix_tokens ms i"
    and "\<forall>c'. i \<le> c' \<longrightarrow> c' < length ms \<longrightarrow> suffix_tokens ms c' < keep"
  shows "is_cut ms keep c \<and> t = suffix_tokens ms c"
  using assms
proof (induction i arbitrary: acc)
  case (Suc i)
  have acc: "acc + estimate_tokens (ms ! i) = suffix_tokens ms i"
    using Suc.prems by (simp add: suffix_tokens_Suc)
  show ?case
  proof (cases "suffix_tokens ms i \<ge> keep")
    case True
    then have "c = i" "t = suffix_tokens ms i" "0 < i"
      using Suc.prems(1) acc by (auto simp: Let_def split: if_splits)
    then show ?thesis using True Suc.prems(2,4) by (auto simp: is_cut_def)
  next
    case False
    then have "cut_loop ms keep (suffix_tokens ms i) i = Some (c, t)"
      using Suc.prems(1) acc by (simp add: Let_def)
    moreover have "\<forall>c'. i \<le> c' \<longrightarrow> c' < length ms \<longrightarrow> suffix_tokens ms c' < keep"
    proof (intro allI impI)
      fix c' assume "i \<le> c'" "c' < length ms"
      show "suffix_tokens ms c' < keep"
        using suffix_tokens_mono [OF \<open>i \<le> c'\<close>, of ms] False by linarith
    qed
    ultimately show ?thesis using Suc.IH [OF _ _ refl] Suc.prems(2) by simp
  qed
qed simp

lemma cut_loop_None:
  assumes "cut_loop ms keep acc i = None" "i \<le> length ms" "acc = suffix_tokens ms i"
    and "0 < c" "c < i"
  shows "suffix_tokens ms c < keep"
  using assms
proof (induction i arbitrary: acc)
  case (Suc i)
  have acc: "acc + estimate_tokens (ms ! i) = suffix_tokens ms i"
    using Suc.prems by (simp add: suffix_tokens_Suc)
  show ?case
  proof (cases "suffix_tokens ms i \<ge> keep")
    case True
    then show ?thesis using Suc.prems(1,4,5) acc by (auto simp: Let_def split: if_splits)
  next
    case False
    then have "cut_loop ms keep (suffix_tokens ms i) i = None"
      using Suc.prems(1) acc by (simp add: Let_def)
    then show ?thesis
      using Suc.IH [OF _ _ refl] Suc.prems(2,4,5) False by (cases "c = i") auto
  qed
qed simp

lemma is_cut_unique: "is_cut ms keep c \<Longrightarrow> is_cut ms keep c' \<Longrightarrow> c = c'"
  unfolding is_cut_def by (metis not_le nat_neq_iff)

section \<open>Chunks\<close>

lemma split_loop_concat: "concat (split_loop tot n chunks cur tokens ms) = concat chunks @ cur @ ms"
  by (induction tot n chunks cur tokens ms rule: split_loop.induct) (simp_all add: Let_def)

lemma split_loop_nonempty:
  "[] \<notin> set chunks \<Longrightarrow> [] \<notin> set (split_loop tot n chunks cur tokens ms)"
  by (induction tot n chunks cur tokens ms rule: split_loop.induct) (auto simp: Let_def)

lemma split_loop_length:
  "length chunks < k \<Longrightarrow> length (split_loop tot (Some k) chunks cur tokens ms) \<le> k"
proof (induction tot "Some k" chunks cur tokens ms rule: split_loop.induct)
  case (2 tot chunks cur tokens m ms)
  show ?case
  proof (cases "(tokens + estimate_tokens m) * k \<ge> tot \<and> length chunks + 1 < k")
    case True
    with 2(1) [OF refl refl] show ?thesis by (simp add: Let_def)
  next
    case False
    with 2(2) [OF refl refl] 2(3) show ?thesis by (auto simp: Let_def)
  qed
qed auto

section \<open>Truncation\<close>

lemma js_slice_prefix: "0 \<le> p \<Longrightarrow> js_slice xs 0 (Some p) = take (nat p) xs"
  by (simp add: js_slice_def Let_def min_def)

lemma js_slice_suffix:
  "0 < q \<Longrightarrow> q \<le> int (length xs) \<Longrightarrow> js_slice xs (- q) None = drop (length xs - nat q) xs"
  by (simp add: js_slice_def Let_def nat_diff_distrib' max_def)

lemma js_slice_zero: "js_slice xs 0 None = xs"
  by (simp add: js_slice_def Let_def)

section \<open>Emergency truncation\<close>

lemma emergency_loop_suffix:
  assumes "tokens = suffix_tokens ms i" "i \<le> length ms" "tokens \<le> budget"
  shows "\<exists>j. emergency_loop budget tokens (rev (take i ms)) (drop i ms) = drop j ms \<and> j \<le> i \<and>
    suffix_tokens ms j \<le> budget \<and> (j = 0 \<or> budget < suffix_tokens ms (j - 1))"
  using assms
proof (induction i arbitrary: tokens)
  case 0
  then show ?case by (intro exI [of _ 0]) simp
next
  case (Suc i)
  have sum: "tokens + estimate_tokens (ms ! i) = suffix_tokens ms i"
    using Suc.prems by (simp add: suffix_tokens_Suc)
  have step: "rev (take (Suc i) ms) = ms ! i # rev (take i ms)"
    using Suc.prems(2) by (simp add: take_Suc_conv_app_nth)
  show ?case
  proof (cases "suffix_tokens ms i > budget")
    case True
    then show ?thesis
      using Suc.prems sum by (intro exI [of _ "Suc i"]) (simp add: step)
  next
    case False
    have cons: "ms ! i # drop (Suc i) ms = drop i ms"
      using Suc.prems(2) by (simp add: Cons_nth_drop_Suc)
    from Suc.IH [OF refl] Suc.prems(2) False obtain j where
      "emergency_loop budget (suffix_tokens ms i) (rev (take i ms)) (drop i ms) = drop j ms" "j \<le> i"
      "suffix_tokens ms j \<le> budget" "j = 0 \<or> budget < suffix_tokens ms (j - 1)" by auto
    then show ?thesis using False sum
      by (intro exI [of _ j]) (simp add: step cons)
  qed
qed

section \<open>Pruning\<close>

lemma tool_indices_fst: "map fst (tool_indices ms) = filter (\<lambda>i. is_tool_result (ms ! i)) (rev [0..<length ms])"
  by (simp add: tool_indices_def o_def)

lemma keep_loop_subset: "keep_loop budget ts \<subseteq> fst ` set ts"
  by (induction budget ts rule: keep_loop.induct) auto

lemma filter_insert_fresh:
  "j \<notin> fst ` set xs \<Longrightarrow> filter (\<lambda>(x, y). x \<in> insert j A) xs = filter (\<lambda>(x, y). x \<in> A) xs"
  by (induction xs) auto

lemma keep_loop_sum:
  "distinct (map fst ts) \<Longrightarrow>
    sum_list (map snd (filter (\<lambda>(i, n). i \<in> keep_loop budget ts) ts)) \<le> budget"
proof (induction budget ts rule: keep_loop.induct)
  case (2 b i n rest)
  have other: "filter (\<lambda>(j, k). j \<in> insert i A) rest = filter (\<lambda>(j, k). j \<in> A) rest" for A
    using 2(3) by (intro filter_insert_fresh) simp
  have "i \<notin> keep_loop c rest" for c
    using 2(3) keep_loop_subset [of c rest] by force
  with 2 other show ?case by (auto simp: Let_def)
qed simp

lemma keep_loop_skipped:
  assumes "distinct (map fst ts)" and "(i, n) \<in> set ts" and "i \<notin> keep_loop budget ts"
  shows "\<exists>newer older. ts = newer @ (i, n) # older \<and>
    budget < n + sum_list (map snd (filter (\<lambda>(j, k). j \<in> keep_loop budget ts) newer))"
  using assms
proof (induction budget ts rule: keep_loop.induct)
  case (2 b j k rest)
  show ?case
  proof (cases "b \<ge> k")
    case False
    show ?thesis
    proof (cases "i = j")
      case True
      with 2(3,4) have "n = k" by force
      with True False show ?thesis by (intro exI [of _ "[]"] exI [of _ rest]) simp
    next
      case ne: False
      with 2(4) have "(i, n) \<in> set rest" by simp
      with 2 False obtain newer older where *: "rest = newer @ (i, n) # older"
        "b < n + sum_list (map snd (filter (\<lambda>(j, k). j \<in> keep_loop b rest) newer))" by auto
      moreover have "j \<notin> keep_loop b rest" using keep_loop_subset [of b rest] 2(3) by force
      ultimately show ?thesis using False
        by (intro exI [of _ "(j, k) # newer"] exI [of _ older]) simp
    qed
  next
    case True
    with 2(5) have "i \<noteq> j" by auto
    with 2(4) have "(i, n) \<in> set rest" by simp
    with 2(1) [OF True] 2(3,5) True have "\<exists>newer older. rest = newer @ (i, n) # older \<and>
      b - k < n + sum_list (map snd (filter (\<lambda>(x, y). x \<in> keep_loop (b - k) rest) newer))"
      by simp
    then obtain newer older where *: "rest = newer @ (i, n) # older"
      "b - k < n + sum_list (map snd (filter (\<lambda>(x, y). x \<in> keep_loop (b - k) rest) newer))" by blast
    have "j \<notin> fst ` set newer" using 2(3) *(1) by auto
    note filter_insert_fresh [OF this, of "keep_loop (b - k) rest"]
    with * True show ?thesis
      by (intro exI [of _ "(j, k) # newer"] exI [of _ older]) simp
  qed
qed simp

section \<open>Properties\<close>

text \<open>Compaction cuts as late as it can. The cut point is the largest index, other than 0,
  from which the messages to the end still reach the number of tokens to keep, and there is no
  cut exactly when no such index exists.\<close>

theorem cut_point_is_latest:
  "find_cut_point ms keep = Some (c, t) \<longleftrightarrow> is_cut ms keep c \<and> t = suffix_tokens ms c"
proof
  assume "find_cut_point ms keep = Some (c, t)"
  then show "is_cut ms keep c \<and> t = suffix_tokens ms c"
    using cut_loop_Some [of ms keep 0 "length ms" c t] by (simp add: find_cut_point_def)
next
  assume c: "is_cut ms keep c \<and> t = suffix_tokens ms c"
  show "find_cut_point ms keep = Some (c, t)"
  proof (cases "find_cut_point ms keep")
    case None
    then have "suffix_tokens ms c < keep"
      using cut_loop_None [of ms keep 0 "length ms" c] c by (simp add: is_cut_def find_cut_point_def)
    with c show ?thesis by (simp add: is_cut_def)
  next
    case (Some r)
    obtain c' t' where r: "r = (c', t')" by fastforce
    with Some have "is_cut ms keep c'" "t' = suffix_tokens ms c'"
      using cut_loop_Some [of ms keep 0 "length ms" c' t'] by (simp_all add: find_cut_point_def)
    with Some r c is_cut_unique show ?thesis by metis
  qed
qed

text \<open>Splitting messages for staged summaries loses none and keeps their order; it makes at
  most the requested number of chunks, and none of them is empty.\<close>

theorem split_partitions_messages:
  assumes "ms \<noteq> []" and "1 \<le> k"
  shows "concat (split_by_token_share ms (Some k)) = ms \<and> length (split_by_token_share ms (Some k)) \<le> k \<and>
    [] \<notin> set (split_by_token_share ms (Some k))"
proof (cases "k \<le> 1")
  case True
  with assms show ?thesis by (simp add: split_by_token_share_def)
next
  case False
  then show ?thesis
    using split_loop_concat [of "estimate_messages_tokens ms" "Some k" "[]" "[]" 0 ms]
      split_loop_nonempty [of "[]" "estimate_messages_tokens ms" "Some k" "[]" 0 ms]
      split_loop_length [of "[]" k "estimate_messages_tokens ms" "[]" 0 ms]
    by (simp add: split_by_token_share_def)
qed

definition demo_note :: "string \<Rightarrow> agent_message" where
  "demo_note t = \<lparr>am_role = User, am_content = JStr t, am_tool_call_id = None, am_tool_name = None,
     am_is_error = None, am_timestamp = 0, am_metadata = None\<rparr>"

theorem split_partitions_messages_witness:
  "concat (split_by_token_share [demo_note ''a'', demo_note ''b'', demo_note ''c''] (Some 2)) =
      [demo_note ''a'', demo_note ''b'', demo_note ''c''] \<and>
    length (split_by_token_share [demo_note ''a'', demo_note ''b'', demo_note ''c''] (Some 2)) \<le> 2"
  using split_partitions_messages [of "[demo_note ''a'', demo_note ''b'', demo_note ''c'']" 2] by simp

text \<open>Truncating a tool result keeps the limit exactly when the limit exceeds the length of the
  inserted marker; then the result has the length of the limit and consists of a prefix, the
  marker and a suffix of the content. With a smaller limit the result is longer than the limit.\<close>

theorem truncation_respects_limit:
  assumes "limit < length content"
  shows "let ml = length (truncation_marker fmt (length content) limit) in
    if ml < limit
    then length (truncate_tool_result fmt content limit) = limit \<and>
      (\<exists>p q. p + q + ml = limit \<and> truncate_tool_result fmt content limit =
        take p content @ truncation_marker fmt (length content) limit @ drop (length content - q) content)
    else limit < length (truncate_tool_result fmt content limit)"
proof -
  let ?m = "truncation_marker fmt (length content) limit"
  let ?a = "int limit - int (length ?m)"
  have long: "\<not> length content \<le> limit" using assms by simp
  show ?thesis
  proof (cases "length ?m < limit")
    case True
    let ?p = "nat (?a div 2)" and ?q = "nat (?a - ?a div 2)"
    have pq: "?p + ?q + length ?m = limit" "0 < ?a - ?a div 2" "0 \<le> ?a div 2"
      "?a - ?a div 2 \<le> int (length content)" using True assms by linarith+
    have "truncate_tool_result fmt content limit = take ?p content @ ?m @ drop (length content - ?q) content"
      using long pq js_slice_suffix [of "?a - ?a div 2" content]
      by (simp add: truncate_tool_result_def Let_def js_slice_prefix)
    moreover have "?p \<le> length content" "?q \<le> length content" using pq(4) True assms by linarith+
    ultimately show ?thesis using True pq(1) by (auto simp: Let_def)
  next
    case False
    have "js_slice content (- (?a - ?a div 2)) None = content" if "length ?m = limit"
      using that by (simp add: js_slice_zero)
    then have "limit < length (truncate_tool_result fmt content limit)"
      using False assms long by (cases "length ?m = limit") (auto simp: truncate_tool_result_def Let_def)
    with False show ?thesis by (simp add: Let_def)
  qed
qed

theorem truncation_respects_limit_witness:
  "length (truncate_tool_result (\<lambda>_. [48]) (replicate 200 65) 90) = 90"
proof -
  have "length (truncation_marker (\<lambda>_. [48]) (length (replicate 200 (65::nat))) 90) < 90"
    by (simp add: truncation_marker_def units_of_def)
  then show ?thesis
    using truncation_respects_limit [of 90 "replicate 200 65" "\<lambda>_. [48]"] by (simp add: Let_def)
qed

text \<open>Emergency truncation returns a notice followed by the longest run of most recent messages
  that fits in half the context window.\<close>

theorem emergency_truncate_longest_suffix:
  "\<exists>j \<le> length ms. emergency_truncate now ms window = emergency_notice now # drop j ms \<and>
    suffix_tokens ms j \<le> window div 2 \<and> (j = 0 \<or> window div 2 < suffix_tokens ms (j - 1))"
  using emergency_loop_suffix [where tokens = 0 and ms = ms and i = "length ms" and budget = "window div 2"]
  by (auto simp: emergency_truncate_def)

definition kept_tokens :: "agent_message list \<Rightarrow> nat \<Rightarrow> nat list \<Rightarrow> nat" where
  "kept_tokens ms budget is =
     sum_list (map (\<lambda>i. tool_result_tokens (ms ! i))
       (filter (\<lambda>i. is_tool_result (ms ! i) \<and> i \<in> keep_loop budget (tool_indices ms)) is))"

lemma distinct_tool_indices: "distinct (map fst (tool_indices ms))"
  by (simp add: tool_indices_fst distinct_rev)

lemma kept_tokens_rev: "kept_tokens ms budget (rev is) = kept_tokens ms budget is"
  by (induction "is") (simp_all add: kept_tokens_def)

lemma kept_tokens_indices:
  "sum_list (map snd (filter (\<lambda>(i, n). i \<in> keep_loop budget (tool_indices ms))
     (map (\<lambda>i. (i, tool_result_tokens (ms ! i))) (filter (\<lambda>i. is_tool_result (ms ! i)) is)))) =
   kept_tokens ms budget is"
  by (induction "is") (simp_all add: kept_tokens_def)

text \<open>Pruning changes nothing but the text of tool results, keeps results of at most the budget
  in all, and is greedy from the newest one: a result is pruned only if it did not fit beside the
  newer results that were kept.\<close>

theorem prune_greedy_from_newest:
  "length (prune_tool_outputs ms budget) = length ms \<and>
   (\<forall>i < length ms. prune_tool_outputs ms budget ! i =
      (if is_tool_result (ms ! i) \<and> i \<notin> keep_loop budget (tool_indices ms)
       then prune_message (ms ! i) else ms ! i)) \<and>
   kept_tokens ms budget [0..<length ms] \<le> budget \<and>
   (\<forall>i < length ms. is_tool_result (ms ! i) \<longrightarrow> i \<notin> keep_loop budget (tool_indices ms) \<longrightarrow>
      budget < tool_result_tokens (ms ! i) + kept_tokens ms budget [Suc i..<length ms])"
proof (intro conjI allI impI)
  show "length (prune_tool_outputs ms budget) = length ms"
    by (simp add: prune_tool_outputs_def Let_def)
next
  fix i assume "i < length ms"
  then show "prune_tool_outputs ms budget ! i =
      (if is_tool_result (ms ! i) \<and> i \<notin> keep_loop budget (tool_indices ms)
       then prune_message (ms ! i) else ms ! i)"
    by (simp add: prune_tool_outputs_def Let_def)
next
  have "sum_list (map snd (filter (\<lambda>(i, n). i \<in> keep_loop budget (tool_indices ms)) (tool_indices ms))) =
      kept_tokens ms budget [0..<length ms]"
    unfolding kept_tokens_rev [of _ _ "[0..<length ms]", symmetric]
    by (subst (2) tool_indices_def) (rule kept_tokens_indices)
  then show "kept_tokens ms budget [0..<length ms] \<le> budget"
    using keep_loop_sum [OF distinct_tool_indices, of budget ms] by simp
next
  fix i assume i: "i < length ms" "is_tool_result (ms ! i)" "i \<notin> keep_loop budget (tool_indices ms)"
  let ?n = "tool_result_tokens (ms ! i)"
  let ?F = "\<lambda>is. map (\<lambda>i. (i, tool_result_tokens (ms ! i))) (filter (\<lambda>i. is_tool_result (ms ! i)) is)"
  have "[0..<length ms] = [0..<i] @ i # [Suc i..<length ms]"
    using i(1) upt_add_eq_append [of 0 i "length ms - i"] upt_conv_Cons [of i "length ms"] by simp
  then have ts: "tool_indices ms = ?F (rev [Suc i..<length ms]) @ (i, ?n) # ?F (rev [0..<i])"
    using i(2) by (simp add: tool_indices_def)
  then have "(i, ?n) \<in> set (tool_indices ms)" by simp
  from keep_loop_skipped [OF distinct_tool_indices this i(3)] obtain newer older where
    n: "tool_indices ms = newer @ (i, ?n) # older"
    "budget < ?n + sum_list (map snd (filter (\<lambda>(j, k). j \<in> keep_loop budget (tool_indices ms)) newer))"
    by blast
  have "distinct (tool_indices ms)" using distinct_tool_indices by (simp add: distinct_map)
  then have "(i, ?n) \<notin> set newer" "(i, ?n) \<notin> set older" using n(1) by simp_all
  from append_Cons_eq_iff [OF this] have "newer = ?F (rev [Suc i..<length ms])"
    using n(1) ts by metis
  then show "budget < ?n + kept_tokens ms budget [Suc i..<length ms]"
    using n(2) kept_tokens_rev [of ms budget "[Suc i..<length ms]"] by (simp only: kept_tokens_indices)
qed

theorem prune_greedy_from_newest_witness:
  "kept_tokens [(demo_note ''long result'')\<lparr>am_role := Tool_Result\<rparr>] 2 [0..<1] \<le> 2"
  using prune_greedy_from_newest [of "[(demo_note ''long result'')\<lparr>am_role := Tool_Result\<rparr>]" 2] by simp

lemma nth_filter_position:
  assumes "k < length (filter P xs)"
  shows "\<exists>p < length xs. xs ! p = filter P xs ! k \<and> filter P (drop p xs) = drop k (filter P xs)"
  using assms
proof (induction xs arbitrary: k)
  case (Cons x xs)
  show ?case
  proof (cases "P x \<and> k = 0")
    case True
    then show ?thesis by (intro exI [of _ 0]) simp
  next
    case False
    then have "(if P x then k - 1 else k) < length (filter P xs)"
      using Cons.prems by (auto split: if_splits)
    from Cons.IH [OF this] obtain p where "p < length xs"
      "xs ! p = filter P xs ! (if P x then k - 1 else k)"
      "filter P (drop p xs) = drop (if P x then k - 1 else k) (filter P xs)" by blast
    with False show ?thesis by (intro exI [of _ "Suc p"]) (auto simp: nth_Cons' drop_Cons')
  qed
qed simp

lemma map_filter_messages:
  "List.map_filter (entry_message now) xs =
    map (the \<circ> entry_message now) (filter message_entry xs)"
  unfolding List.map_filter_def
  by (induction xs) (auto simp: entry_message_def message_entry_def split: entry_data.split)

lemma append_entry_succeeds:
  assumes "get_session d s \<noteq> None" and "nid \<notin> eid ` set (entries d)"
  shows "\<exists>e d'. append_entry d s dat nid now = (Inr e, d')"
  using assms by (auto simp: append_entry_def insert_row_def Let_def)

text \<open>The hook counts the messages to keep from the start of the log. In a session whose log is
  one branch, compaction at cut index k leaves the summary and the log's messages from number k
  on. That is the cut part of the context only while the context is the whole log; after an
  earlier compaction it brings back messages that compaction had removed.\<close>

theorem compaction_cuts_log_by_index:
  assumes "reachable_store d" and "log_path d s = Some up" and "get_entries d s = rev up"
    and "nid \<noteq> []" and "nid \<notin> eid ` set (entries d)"
    and "should_compact (estimate_messages_tokens ms) c"
    and "should_compact (estimate_messages_tokens (prune_tool_outputs ms budget)) c"
    and "find_cut_point (prune_tool_outputs ms budget) (cc_keep_recent c) = Some (k, t)"
    and "summarize_in_stages c f (\<lambda>_. False) now (take k (prune_tool_outputs ms budget)) = Inr sm"
    and "sm \<noteq> []" and "k < length (filter message_entry (rev up))"
  shows "\<exists>d'. before_inference c budget f d s ms nid now =
    Some (summary_message now sm # drop k (List.map_filter (entry_message now) (rev up)), d')"
proof -
  have wf: "wf_store d" by (rule wf_reachable_store [OF assms(1)])
  let ?msgs = "filter message_entry (rev up)"
  have kept: "map eid ?msgs ! k = eid (?msgs ! k)" using assms(11) by simp
  obtain p where p: "p < length (rev up)" "rev up ! p = ?msgs ! k"
    "filter message_entry (drop p (rev up)) = drop k ?msgs"
    using nth_filter_position [OF assms(11)] by blast
  have "rev up ! p \<in> set (get_entries d s)" using p(1) nth_mem unfolding assms(3) by blast
  then have "esession (rev up ! p) = s" "rev up ! p \<in> set (entries d)" by (simp_all add: set_get_entries)
  then have "get_session d s \<noteq> None"
    using wf_store_entry [OF wf] by (auto simp: get_session_def get_row_None_iff)
  then obtain e d' where app: "append_entry d s
      (Compaction sm (eid (rev up ! p)) (estimate_messages_tokens (prune_tool_outputs ms budget))) nid now = (Inr e, d')"
    using append_entry_succeeds assms(5) by blast
  have "distinct (map eid (get_entries d s))"
    using wf_get_entries [OF wf] by (simp add: wf_entries_def)
  then have dist: "distinct (map eid (rev up))" unfolding assms(3) .
  have "build_context d' s now =
      Some (summary_message now sm # List.map_filter (entry_message now) (drop p (rev up)))"
    using context_snoc_compaction [OF append_entry_row(4) [OF app] p(1) dist assms(10)]
      log_path_append [OF wf assms(4) app] assms(2)
    by (simp add: build_context_log_path)
  moreover have "List.map_filter (entry_message now) (drop p (rev up)) =
      drop k (List.map_filter (entry_message now) (rev up))"
    using p(3) by (simp add: map_filter_messages drop_map)
  moreover have "compact_session c f (\<lambda>_. False) now (prune_tool_outputs ms budget) (map eid ?msgs) =
      Inr (Some \<lparr>cr_summary = sm, cr_first_kept = Some (eid (rev up ! p)),
        cr_tokens_before = estimate_messages_tokens (prune_tool_outputs ms budget)\<rparr>)"
    using assms(7-9,11) kept p(2) by (simp add: compact_session_def Let_def)
  ultimately show ?thesis
    using assms(3,6,7) app by (simp add: before_inference_def Let_def)
qed

text \<open>A log with two messages compacted away and a third one kept.\<close>

definition demo4 :: store where
  "demo4 = snd (append_entry demo3 ''s'' (Message (demo_msg ''on'')) ''d'' 5000)"

definition demo5 :: store where
  "demo5 = snd (append_entry demo4 ''s'' (Compaction ''sum'' ''d'' 9) ''e'' 6000)"

lemma demo5_reachable: "reachable_store demo5"
proof -
  have "log_reachable demo4" unfolding demo4_def
    by (rule log_reachable_step [OF demo_reachable(4)], rule log_append [OF _ surjective_pairing]) simp
  then have "log_reachable demo5" unfolding demo5_def
    by (rule log_reachable_step, intro log_append [OF _ surjective_pairing]) simp
  then show ?thesis by (rule log_reachable_reachable)
qed

lemma demo5_value:
  "demo5 = \<lparr>sessions = [(hd (sessions demo3))\<lparr>sleaf := Some ''e'', supdated := Iso_Stamp 6000\<rparr>],
    entries = entries demo3 @ [
      \<lparr>eid = ''d'', eparent = Some ''c'', esession = ''s'', eseq = 4,
        edata = Message (demo_msg ''on''), ecreated = Iso_Stamp 5000\<rparr>,
      \<lparr>eid = ''e'', eparent = Some ''d'', esession = ''s'', eseq = 5,
        edata = Compaction ''sum'' ''d'' 9, ecreated = Iso_Stamp 6000\<rparr>]\<rparr>"
  by (simp add: demo5_def demo4_def demo3_value store_eval iso_now_def)

lemma demo5_path:
  "log_path demo5 ''s'' = Some (rev (entries demo5))" "get_entries demo5 ''s'' = entries demo5"
  by (simp_all add: log_path_def demo5_value demo3_value get_session_def get_row_def path_up_def
      get_entries_def session_entries_def order_by_def entry_map_def chain_Some
      parent_entry_def lookup_ref_def)

definition demo_config :: compaction_config where
  "demo_config = \<lparr>cc_threshold = 0, cc_window = 100, cc_keep_recent = 1, cc_base_ratio = Some 1,
     cc_min_ratio = Some 1\<rparr>"

lemma demo_context:
  "build_context demo5 ''s'' 9 = Some [summary_message 9 ''sum'', to_agent_message 9 (demo_msg ''on'')]"
  by (simp add: build_context_log_path demo5_path)
    (simp add: demo5_value demo3_value context_of_path_def List.map_filter_def entry_message_def)

lemma summarize_chunks_total:
  assumes "\<And>ms p. \<exists>s. f ms p = Inr s"
  shows "\<exists>ps. summarize_chunks f (\<lambda>_. False) i prev acc chs = Inr ps"
proof (induction chs arbitrary: i prev acc)
  case (Cons ch chs)
  obtain s where "f ch prev = Inr s" using assms by blast
  with Cons show ?case by simp
qed simp

lemma constant_summary: "summarize_in_stages c (\<lambda>_ _. Inr s) (\<lambda>_. False) now ms = Inr s"
proof -
  let ?chs = "split_by_token_share ms (num_chunks c (estimate_messages_tokens ms))"
  obtain ps where "summarize_chunks (\<lambda>_ _. Inr s) (\<lambda>_. False) 0 None [] ?chs = Inr ps"
    using summarize_chunks_total [of "\<lambda>_ _. Inr s"] by blast
  then show ?thesis by (simp add: summarize_in_stages_def Let_def)
qed

theorem compaction_cuts_log_by_index_witness:
  "build_context demo5 ''s'' 9 = Some [summary_message 9 ''sum'', to_agent_message 9 (demo_msg ''on'')] \<and>
   (\<exists>d'. before_inference demo_config 0 (\<lambda>_ _. Inr ''new'') demo5 ''s''
      [summary_message 9 ''sum'', to_agent_message 9 (demo_msg ''on'')] ''f'' 9 =
    Some ([summary_message 9 ''new'', to_agent_message 9 (demo_msg ''go''),
      to_agent_message 9 (demo_msg ''on'')], d'))"
proof -
  let ?ms = "[summary_message 9 ''sum'', to_agent_message 9 (demo_msg ''on'')]"
  have pr: "prune_tool_outputs ?ms 0 = ?ms"
    by (simp add: prune_tool_outputs_def Let_def is_tool_result_def summary_message_def
        to_agent_message_def demo_msg_def)
  have pos: "0 < estimate_tokens m" for m by (simp add: estimate_tokens_def ceil_div_def)
  have "should_compact (estimate_messages_tokens ?ms) demo_config"
    using pos by (simp add: should_compact_def demo_config_def add_pos_pos)
  moreover have "find_cut_point (prune_tool_outputs ?ms 0) (cc_keep_recent demo_config) =
      Some (1, estimate_tokens (to_agent_message 9 (demo_msg ''on'')))"
    unfolding pr using pos [of "to_agent_message 9 (demo_msg ''on'')"]
    by (simp add: find_cut_point_def demo_config_def Let_def numeral_2_eq_2)
  moreover have "summarize_in_stages demo_config (\<lambda>_ _. Inr ''new'') (\<lambda>_. False) 9
      (take 1 (prune_tool_outputs ?ms 0)) = Inr ''new''"
    by (rule constant_summary)
  moreover have "get_entries demo5 ''s'' = rev (rev (entries demo5))" using demo5_path(2) by simp
  ultimately have "\<exists>d'. before_inference demo_config 0 (\<lambda>_ _. Inr ''new'') demo5 ''s'' ?ms ''f'' 9 =
      Some (summary_message 9 ''new'' # drop 1 (List.map_filter (entry_message 9) (rev (rev (entries demo5)))), d')"
    by (intro compaction_cuts_log_by_index [OF demo5_reachable demo5_path(1)]; (assumption | simp only:)?)
      (simp_all add: demo5_value demo3_value message_entry_def pr)
  then have "\<exists>d'. before_inference demo_config 0 (\<lambda>_ _. Inr ''new'') demo5 ''s'' ?ms ''f'' 9 =
      Some ([summary_message 9 ''new'', to_agent_message 9 (demo_msg ''go''),
        to_agent_message 9 (demo_msg ''on'')], d')"
    by (simp add: demo5_value demo3_value List.map_filter_def entry_message_def)
  with demo_context show ?thesis by blast
qed

end
