(* ===== verification/Cron.thy ===== *)
theory Cron
  imports Json_Text
begin

text \<open>
  The cron parser and the search for the next fire time:
  \<open>packages/runtime/agent-runtime/src/scheduling/cron.ts\<close>. Instants are milliseconds since the
  epoch (\<open>int\<close>). The fields of an instant come from a wall clock, an argument of the search:
  UTC, computed as \<open>Date\<close> does, or a time zone, which \<open>Intl\<close> supplies and the model leaves
  open. Numbers in cron strings are unbounded integers.
\<close>

section \<open>Text\<close>

definition is_digit :: "char \<Rightarrow> bool" where
  "is_digit c \<longleftrightarrow> 48 \<le> (of_char c :: nat) \<and> (of_char c :: nat) \<le> 57"

definition digit_value :: "char \<Rightarrow> int" where
  "digit_value c = of_char c - 48"

definition is_letter :: "char \<Rightarrow> bool" where
  "is_letter c \<longleftrightarrow> (let n = (of_char c :: nat) in 65 \<le> n \<and> n \<le> 90 \<or> 97 \<le> n \<and> n \<le> 122)"

definition upper :: "char \<Rightarrow> char" where
  "upper c = (let n = (of_char c :: nat) in if 97 \<le> n \<and> n \<le> 122 then char_of (n - 32) else c)"

definition is_space :: "char \<Rightarrow> bool" where
  "is_space c \<longleftrightarrow> (let n = (of_char c :: nat) in 9 \<le> n \<and> n \<le> 13 \<or> n = 32 \<or> n = 160)"

definition digits_value :: "string \<Rightarrow> int" where
  "digits_value ds = foldl (\<lambda>n c. 10 * n + digit_value c) 0 ds"

text \<open>\<open>Number.parseInt(s, 10)\<close>: a sign, then the longest run of digits; \<open>None\<close> is \<open>NaN\<close>.\<close>

definition parse_digits :: "string \<Rightarrow> int option" where
  "parse_digits s =
     (let ds = takeWhile is_digit s in if ds = [] then None else Some (digits_value ds))"

definition parse_int :: "string \<Rightarrow> int option" where
  "parse_int s =
     (case dropWhile is_space s of
        [] \<Rightarrow> None
      | c # r \<Rightarrow> if c = CHR ''-'' then map_option uminus (parse_digits r)
                else if c = CHR ''+'' then parse_digits r else parse_digits (c # r))"

text \<open>
  \<open>s.trim().split(/\s+/)\<close>: the words of the text; the empty text has the single word ''''.
\<close>

fun words_loop :: "string \<Rightarrow> string \<Rightarrow> string list" where
  "words_loop cur [] = (if cur = [] then [] else [cur])"
| "words_loop cur (c # cs) =
     (if is_space c then (if cur = [] then words_loop [] cs else cur # words_loop [] cs)
      else words_loop (cur @ [c]) cs)"

definition split_words :: "string \<Rightarrow> string list" where
  "split_words s = (case words_loop [] s of [] \<Rightarrow> [[]] | ws \<Rightarrow> ws)"

section \<open>Errors and fields\<close>

datatype cron_error =
    Bad_Interval string
  | Interval_Range int
  | Bad_Duration string
  | Field_Count nat
  | Unknown_Name string
  | Bad_Step string
  | Bad_Start string
  | Bad_Range string
  | Bad_Value string

record cron_fields =
  minutes :: "int set"
  hours :: "int set"
  days_of_month :: "int set"
  months :: "int set"
  days_of_week :: "int set"

record date_fields =
  f_month :: int
  f_day :: int
  f_dow :: int
  f_hour :: int
  f_minute :: int

section \<open>Intervals and durations\<close>

text \<open>\<open>/^(\d+)(m|h)$/\<close> and \<open>/^(\d+)(m|h|d)$/\<close>: the number and the unit.\<close>

definition match_unit :: "char set \<Rightarrow> string \<Rightarrow> (int \<times> char) option" where
  "match_unit us s =
     (let ds = takeWhile is_digit s
      in case dropWhile is_digit s of
           [u] \<Rightarrow> if ds \<noteq> [] \<and> u \<in> us then Some (digits_value ds, u) else None
         | _ \<Rightarrow> None)"

definition is_interval :: "string \<Rightarrow> bool" where
  "is_interval s \<longleftrightarrow> match_unit {CHR ''m'', CHR ''h''} s \<noteq> None"

definition interval_to_cron :: "string \<Rightarrow> cron_error + string" where
  "interval_to_cron s =
     (case match_unit {CHR ''m'', CHR ''h''} s of
        None \<Rightarrow> Inl (Bad_Interval s)
      | Some (v, u) \<Rightarrow>
          if u = CHR ''m''
          then if v < 1 \<or> v > 59 then Inl (Interval_Range v)
               else Inr (''*/'' @ show_int v @ '' * * * *'')
          else if v < 1 \<or> v > 23 then Inl (Interval_Range v)
          else Inr (''0 */'' @ show_int v @ '' * * *''))"

definition expires_at_from_duration :: "string \<Rightarrow> int \<Rightarrow> cron_error + int" where
  "expires_at_from_duration s from_ms =
     (case match_unit {CHR ''m'', CHR ''h'', CHR ''d''} s of
        None \<Rightarrow> Inl (Bad_Duration s)
      | Some (v, u) \<Rightarrow>
          Inr (from_ms + (if u = CHR ''m'' then v * 60 * 1000
                          else if u = CHR ''h'' then v * 60 * 60 * 1000
                          else v * 24 * 60 * 60 * 1000)))"

section \<open>Parsing\<close>

definition day_names :: "(string \<times> int) list" where
  "day_names = [(''SUN'', 0), (''MON'', 1), (''TUE'', 2), (''WED'', 3), (''THU'', 4), (''FRI'', 5),
     (''SAT'', 6)]"

definition month_names :: "(string \<times> int) list" where
  "month_names = [(''JAN'', 1), (''FEB'', 2), (''MAR'', 3), (''APR'', 4), (''MAY'', 5), (''JUN'', 6),
     (''JUL'', 7), (''AUG'', 8), (''SEP'', 9), (''OCT'', 10), (''NOV'', 11), (''DEC'', 12)]"

text \<open>The replacement of every three letters in a row, from the left.\<close>

fun resolve_names :: "(string \<times> int) list \<Rightarrow> string \<Rightarrow> cron_error + string" where
  "resolve_names names (a # b # c # cs) =
     (if is_letter a \<and> is_letter b \<and> is_letter c
      then case map_of names [upper a, upper b, upper c] of
             None \<Rightarrow> Inl (Unknown_Name [a, b, c])
           | Some v \<Rightarrow> map_sum (\<lambda>e. e) (\<lambda>r. show_int v @ r) (resolve_names names cs)
      else map_sum (\<lambda>e. e) (\<lambda>r. a # r) (resolve_names names (b # c # cs)))"
| "resolve_names names s = Inr s"

function step_loop :: "int \<Rightarrow> int \<Rightarrow> int \<Rightarrow> int list" where
  "step_loop i mx step = (if i \<le> mx \<and> 0 < step then i # step_loop (i + step) mx step else [])"
  by pat_completeness auto
termination by (relation "measure (\<lambda>(i, mx, step). nat (mx + 1 - i))") auto

declare step_loop.simps [simp del]

text \<open>
  One part of a list. Destructuring \<open>[a, b] = part.split(..)\<close> takes the first two pieces and
  ignores the rest.
\<close>

definition parse_part :: "int \<Rightarrow> int \<Rightarrow> string \<Rightarrow> cron_error + int list" where
  "parse_part mn mx part =
     (if part = ''*'' then Inr [mn..mx]
      else if CHR ''/'' \<in> set part
      then let ps = split_on (CHR ''/'') part
           in case parse_int (ps ! 1) of
                None \<Rightarrow> Inl (Bad_Step (ps ! 1))
              | Some step \<Rightarrow>
                  if step \<le> 0 then Inl (Bad_Step (ps ! 1))
                  else (case (if ps ! 0 = ''*'' then Some mn else parse_int (ps ! 0)) of
                          None \<Rightarrow> Inl (Bad_Start (ps ! 0))
                        | Some start \<Rightarrow>
                            if start < mn \<or> start > mx then Inl (Bad_Start (ps ! 0))
                            else Inr (step_loop start mx step))
      else if CHR ''-'' \<in> set part
      then let ps = split_on (CHR ''-'') part
           in case (parse_int (ps ! 0), parse_int (ps ! 1)) of
                (Some start, Some end_v) \<Rightarrow>
                  if start < mn \<or> end_v > mx \<or> start > end_v then Inl (Bad_Range part)
                  else Inr [start..end_v]
              | _ \<Rightarrow> Inl (Bad_Range part)
      else case parse_int part of
             None \<Rightarrow> Inl (Bad_Value part)
           | Some v \<Rightarrow> if v < mn \<or> v > mx then Inl (Bad_Value part) else Inr [v])"

fun parse_parts :: "int \<Rightarrow> int \<Rightarrow> string list \<Rightarrow> cron_error + int set" where
  "parse_parts mn mx [] = Inr {}"
| "parse_parts mn mx (p # ps) =
     (case parse_part mn mx p of
        Inl e \<Rightarrow> Inl e
      | Inr vs \<Rightarrow> (case parse_parts mn mx ps of Inl e \<Rightarrow> Inl e | Inr ws \<Rightarrow> Inr (set vs \<union> ws)))"

definition parse_field :: "string \<Rightarrow> int \<Rightarrow> int \<Rightarrow> cron_error + int set" where
  "parse_field field mn mx =
     (case (if mx = 7 then resolve_names day_names field
            else if mx = 12 then resolve_names month_names field else Inr field) of
        Inl e \<Rightarrow> Inl e
      | Inr resolved \<Rightarrow>
          (case parse_parts mn mx (split_on (CHR '','') resolved) of
             Inl e \<Rightarrow> Inl e
           | Inr vs \<Rightarrow> Inr (if mx = 7 \<and> 7 \<in> vs then insert 0 vs - {7} else vs)))"

definition parse_cron :: "string \<Rightarrow> cron_error + cron_fields" where
  "parse_cron expr =
     (case split_words expr of
        [a, b, c, d, e] \<Rightarrow>
          (case parse_field a 0 59 of Inl x \<Rightarrow> Inl x | Inr mi \<Rightarrow>
          (case parse_field b 0 23 of Inl x \<Rightarrow> Inl x | Inr h \<Rightarrow>
          (case parse_field c 1 31 of Inl x \<Rightarrow> Inl x | Inr dm \<Rightarrow>
          (case parse_field d 1 12 of Inl x \<Rightarrow> Inl x | Inr mo \<Rightarrow>
          (case parse_field e 0 7 of Inl x \<Rightarrow> Inl x | Inr dw \<Rightarrow>
            Inr \<lparr>minutes = mi, hours = h, days_of_month = dm, months = mo, days_of_week = dw\<rparr>)))))
      | ws \<Rightarrow> Inl (Field_Count (length ws)))"

definition resolve_expr :: "string \<Rightarrow> cron_error + string" where
  "resolve_expr cron = (if is_interval cron then interval_to_cron cron else Inr cron)"

definition validate_cron :: "string \<Rightarrow> bool" where
  "validate_cron cron =
     (case resolve_expr cron of
        Inl _ \<Rightarrow> False
      | Inr e \<Rightarrow> (case parse_cron e of Inl _ \<Rightarrow> False | Inr _ \<Rightarrow> True))"

section \<open>The UTC calendar\<close>

text \<open>
  The proleptic Gregorian calendar of \<open>Date\<close>: month and day of a day number, counted from
  1970-01-01. Years start on March 1 in the computation, so that the leap day comes last.
\<close>

definition civil_month_day :: "int \<Rightarrow> int \<times> int" where
  "civil_month_day days =
     (let z = days + 719468;
          doe = z mod 146097;
          yoe = (doe - doe div 1460 + doe div 36524 - doe div 146096) div 365;
          doy = doe - (365 * yoe + yoe div 4 - yoe div 100);
          mp = (5 * doy + 2) div 153
      in (if mp < 10 then mp + 3 else mp - 9, doy - (153 * mp + 2) div 5 + 1))"

definition utc_fields :: "int \<Rightarrow> date_fields" where
  "utc_fields ms =
     (let m = ms div 60000; day = m div 1440; (mo, dm) = civil_month_day day
      in \<lparr>f_month = mo, f_day = dm, f_dow = (day + 4) mod 7, f_hour = m mod 1440 div 60,
          f_minute = m mod 60\<rparr>)"

section \<open>The search\<close>

definition matches :: "cron_fields \<Rightarrow> date_fields \<Rightarrow> bool" where
  "matches c f \<longleftrightarrow> f_month f \<in> months c \<and> f_day f \<in> days_of_month c \<and> f_dow f \<in> days_of_week c \<and>
     f_hour f \<in> hours c \<and> f_minute f \<in> minutes c"

definition max_iterations :: nat where
  "max_iterations = 366 * 24 * 60"

definition add_minutes :: "int \<Rightarrow> int \<Rightarrow> int" where
  "add_minutes d n = d + n * 60000"

definition to_next_day :: "date_fields \<Rightarrow> int" where
  "to_next_day f = (23 - f_hour f) * 60 + (60 - f_minute f)"

function search_loop :: "(int \<Rightarrow> date_fields) \<Rightarrow> cron_fields \<Rightarrow> nat \<Rightarrow> int \<Rightarrow> int option" where
  "search_loop clock c n d =
     (if n = 0 then None
      else let f = clock d
           in if f_month f \<notin> months c then search_loop clock c (n - 1) (add_minutes d (to_next_day f))
              else if f_day f \<notin> days_of_month c \<or> f_dow f \<notin> days_of_week c
              then search_loop clock c (n - 1) (add_minutes d (to_next_day f))
              else if f_hour f \<notin> hours c then search_loop clock c (n - 1) (add_minutes d (60 - f_minute f))
              else if f_minute f \<notin> minutes c then search_loop clock c (n - 1) (add_minutes d 1)
              else Some d)"
  by pat_completeness auto
termination by (relation "measure (\<lambda>(_, _, n, _). n)") auto

declare search_loop.simps [simp del]

definition first_candidate :: "int \<Rightarrow> int" where
  "first_candidate from_ms = add_minutes (from_ms div 60000 * 60000) 1"

definition compute_next :: "(int \<Rightarrow> date_fields) \<Rightarrow> cron_fields \<Rightarrow> int \<Rightarrow> int option" where
  "compute_next clock c from_ms = search_loop clock c max_iterations (first_candidate from_ms)"

text \<open>\<open>Inr None\<close> is the error that no time was found.\<close>

definition next_fire_time :: "(int \<Rightarrow> date_fields) \<Rightarrow> string \<Rightarrow> int \<Rightarrow> cron_error + int option" where
  "next_fire_time clock cron from_ms =
     (case resolve_expr cron of
        Inl e \<Rightarrow> Inl e
      | Inr r \<Rightarrow> (case parse_cron r of Inl e \<Rightarrow> Inl e | Inr c \<Rightarrow> Inr (compute_next clock c from_ms)))"

section \<open>Wall clocks\<close>

text \<open>
  What the search relies on: the hour and minute are in range, a day keeps its date until its
  last minute, and an hour keeps its number until its last minute.
\<close>

locale wall_clock =
  fixes clock :: "int \<Rightarrow> date_fields"
  assumes hour_range: "0 \<le> f_hour (clock d) \<and> f_hour (clock d) \<le> 23"
    and minute_range: "0 \<le> f_minute (clock d) \<and> f_minute (clock d) \<le> 59"
    and same_day: "0 \<le> k \<Longrightarrow> k < to_next_day (clock d) \<Longrightarrow>
      f_month (clock (add_minutes d k)) = f_month (clock d) \<and>
      f_day (clock (add_minutes d k)) = f_day (clock d) \<and> f_dow (clock (add_minutes d k)) = f_dow (clock d)"
    and same_hour: "0 \<le> k \<Longrightarrow> k < 60 - f_minute (clock d) \<Longrightarrow>
      f_hour (clock (add_minutes d k)) = f_hour (clock d)"
begin

text \<open>How far one iteration advances when the instant does not match.\<close>

definition advance :: "cron_fields \<Rightarrow> int \<Rightarrow> int" where
  "advance c d =
     (let f = clock d
      in if f_month f \<notin> months c \<or> f_day f \<notin> days_of_month c \<or> f_dow f \<notin> days_of_week c then to_next_day f
         else if f_hour f \<notin> hours c then 60 - f_minute f else 1)"

lemma advance_pos: "0 < advance c d"
  using hour_range [of d] minute_range [of d] by (simp add: advance_def Let_def to_next_day_def)

lemma search_step:
  "search_loop clock c (Suc n) d =
    (if matches c (clock d) then Some d else search_loop clock c n (add_minutes d (advance c d)))"
  by (subst search_loop.simps) (auto simp: Let_def matches_def advance_def)

lemma search_zero: "search_loop clock c 0 d = None"
  by (subst search_loop.simps) simp

lemma no_match_skipped:
  assumes "\<not> matches c (clock d)" "0 \<le> k" "k < advance c d"
  shows "\<not> matches c (clock (add_minutes d k))"
proof (cases "f_month (clock d) \<in> months c \<and> f_day (clock d) \<in> days_of_month c \<and>
    f_dow (clock d) \<in> days_of_week c")
  case False
  then have "k < to_next_day (clock d)" using assms(3) by (auto simp: advance_def Let_def)
  with same_day [OF assms(2) this] False show ?thesis by (auto simp: matches_def)
next
  case day: True
  show ?thesis
  proof (cases "f_hour (clock d) \<in> hours c")
    case False
    then have "k < 60 - f_minute (clock d)" using assms(3) day by (simp add: advance_def Let_def)
    with same_hour [OF assms(2) this] False show ?thesis by (simp add: matches_def)
  next
    case True
    then have "k = 0" using assms(2,3) day by (simp add: advance_def Let_def)
    with assms(1) show ?thesis by (simp add: add_minutes_def)
  qed
qed

lemma search_sound:
  assumes "search_loop clock c n d = Some e"
  shows "\<exists>k \<ge> 0. e = add_minutes d k \<and> matches c (clock e) \<and>
    (\<forall>j. 0 \<le> j \<longrightarrow> j < k \<longrightarrow> \<not> matches c (clock (add_minutes d j)))"
  using assms
proof (induction n arbitrary: d)
  case 0
  then show ?case by (simp add: search_zero)
next
  case (Suc n)
  show ?case
  proof (cases "matches c (clock d)")
    case True
    with Suc.prems show ?thesis by (intro exI [of _ 0]) (simp add: search_step add_minutes_def)
  next
    case False
    let ?a = "advance c d"
    from False Suc.prems Suc.IH [of "add_minutes d ?a"] obtain k where k: "0 \<le> k"
      "e = add_minutes (add_minutes d ?a) k" "matches c (clock e)"
      "\<forall>j. 0 \<le> j \<longrightarrow> j < k \<longrightarrow> \<not> matches c (clock (add_minutes (add_minutes d ?a) j))"
      by (auto simp: search_step)
    have add: "add_minutes (add_minutes d ?a) j = add_minutes d (?a + j)" for j
      by (simp add: add_minutes_def algebra_simps)
    have "\<not> matches c (clock (add_minutes d j))" if "0 \<le> j" "j < ?a + k" for j
    proof (cases "j < ?a")
      case True
      then show ?thesis using no_match_skipped [OF False that(1)] by blast
    next
      case ge: False
      then show ?thesis using k(4) [rule_format, of "j - ?a"] that by (simp add: add)
    qed
    then show ?thesis using k advance_pos [of c d]
      by (intro exI [of _ "?a + k"]) (auto simp: add)
  qed
qed

lemma search_complete:
  assumes "matches c (clock (add_minutes d k))" "0 \<le> k" "k < int n"
  shows "\<exists>e \<le> add_minutes d k. search_loop clock c n d = Some e"
  using assms
proof (induction n arbitrary: d k)
  case (Suc n)
  show ?case
  proof (cases "matches c (clock d)")
    case True
    with Suc.prems(2) show ?thesis by (simp add: search_step add_minutes_def)
  next
    case False
    let ?a = "advance c d"
    have "?a \<le> k" using no_match_skipped [OF False Suc.prems(2)] Suc.prems(1) by (meson not_le)
    moreover have "add_minutes (add_minutes d ?a) (k - ?a) = add_minutes d k"
      by (simp add: add_minutes_def algebra_simps)
    ultimately show ?thesis
      using Suc.IH [of "add_minutes d ?a" "k - ?a"] Suc.prems advance_pos [of c d] False
      by (simp add: search_step)
  qed
qed simp

end

section \<open>Clocks at a fixed offset from UTC\<close>

definition zone_fields :: "int \<Rightarrow> int \<Rightarrow> date_fields" where
  "zone_fields offset ms = utc_fields (ms + offset * 60000)"

lemma minute_index: "(d + k * 60000 + off * 60000) div 60000 = (d + off * 60000) div 60000 + (k::int)"
proof -
  have "d + k * 60000 + off * 60000 = (d + off * 60000) + 60000 * k" by simp
  then show ?thesis by (simp only: div_mult_self2)
qed

lemma div_add_within: "0 < b \<Longrightarrow> 0 \<le> k \<Longrightarrow> m mod b + k < b \<Longrightarrow> (m + k) div b = (m::int) div b"
proof -
  assume b: "0 < b" "0 \<le> k" "m mod b + k < b"
  have "m + k = (m mod b + k) + b * (m div b)" by simp
  then have "(m + k) div b = (m mod b + k) div b + m div b"
    using b(1) by (metis div_mult_self2 less_irrefl add.commute)
  moreover have "(m mod b + k) div b = 0" using b by (intro div_pos_pos_trivial) auto
  ultimately show ?thesis by simp
qed

lemma hour_eq: "(m::int) mod 1440 div 60 = m div 60 mod 24"
proof -
  have "m mod (60 * 24) = 60 * (m div 60 mod 24) + m mod 60" by (rule zmod_zmult2_eq) simp
  then show ?thesis by simp
qed

lemma day_minutes: "(m::int) mod 1440 = 60 * (m mod 1440 div 60) + m mod 60"
proof -
  have "m mod (60 * 24) = 60 * (m div 60 mod 24) + m mod 60" by (rule zmod_zmult2_eq) simp
  then show ?thesis by (simp add: hour_eq)
qed

lemma zone_fields_hm:
  "f_hour (zone_fields offset d) = (d + offset * 60000) div 60000 div 60 mod 24"
  "f_minute (zone_fields offset d) = (d + offset * 60000) div 60000 mod 60"
  unfolding zone_fields_def utc_fields_def Let_def
  by (simp_all only: case_prod_beta date_fields.select_convs hour_eq)

lemma utc_fields_date:
  "f_month (utc_fields ms) = fst (civil_month_day (ms div 60000 div 1440))"
  "f_day (utc_fields ms) = snd (civil_month_day (ms div 60000 div 1440))"
  "f_dow (utc_fields ms) = (ms div 60000 div 1440 + 4) mod 7"
  unfolding utc_fields_def Let_def by (simp_all only: case_prod_beta date_fields.select_convs)

lemma zone_fields_date:
  assumes "(d + offset * 60000) div 60000 div 1440 = (e + offset * 60000) div 60000 div 1440"
  shows "f_month (zone_fields offset d) = f_month (zone_fields offset e) \<and>
    f_day (zone_fields offset d) = f_day (zone_fields offset e) \<and>
    f_dow (zone_fields offset d) = f_dow (zone_fields offset e)"
  unfolding zone_fields_def utc_fields_date assms by (intro conjI refl)

lemma add_minutes_index:
  "(add_minutes d k + offset * 60000) div 60000 = (d + offset * 60000) div 60000 + k"
  unfolding add_minutes_def by (rule minute_index)

interpretation fixed: wall_clock "zone_fields offset"
proof
  fix d :: int
  show "0 \<le> f_hour (zone_fields offset d) \<and> f_hour (zone_fields offset d) \<le> 23"
    using pos_mod_bound [of 24 "(d + offset * 60000) div 60000 div 60"] by (simp add: zone_fields_hm)
  show "0 \<le> f_minute (zone_fields offset d) \<and> f_minute (zone_fields offset d) \<le> 59"
    using pos_mod_bound [of 60 "(d + offset * 60000) div 60000"] by (simp add: zone_fields_hm)
next
  fix k d :: int
  let ?m = "(d + offset * 60000) div 60000"
  assume k: "0 \<le> k" "k < to_next_day (zone_fields offset d)"
  then have "k < 1440 - (60 * (?m mod 1440 div 60) + ?m mod 60)"
    by (simp add: to_next_day_def zone_fields_hm hour_eq)
  then have "?m mod 1440 + k < 1440" by (simp flip: day_minutes)
  then have "(?m + k) div 1440 = ?m div 1440" using k(1) by (intro div_add_within) simp_all
  then show "f_month (zone_fields offset (add_minutes d k)) = f_month (zone_fields offset d) \<and>
      f_day (zone_fields offset (add_minutes d k)) = f_day (zone_fields offset d) \<and>
      f_dow (zone_fields offset (add_minutes d k)) = f_dow (zone_fields offset d)"
    by (intro zone_fields_date) (simp only: add_minutes_index)
next
  fix k d :: int
  let ?m = "(d + offset * 60000) div 60000"
  assume "0 \<le> k" "k < 60 - f_minute (zone_fields offset d)"
  then have "(?m + k) div 60 = ?m div 60"
    by (intro div_add_within) (simp_all add: zone_fields_hm)
  then show "f_hour (zone_fields offset (add_minutes d k)) = f_hour (zone_fields offset d)"
    by (simp only: zone_fields_hm add_minutes_index)
qed

section \<open>Properties\<close>

lemma first_candidate_bounds:
  "from_ms < first_candidate from_ms" "(first_candidate from_ms + k * 60000) mod 60000 = 0"
proof -
  have f: "from_ms = 60000 * (from_ms div 60000) + from_ms mod 60000" "from_ms mod 60000 < 60000"
    by simp_all
  then show "from_ms < first_candidate from_ms"
    unfolding first_candidate_def add_minutes_def by linarith
  have "first_candidate from_ms + k * 60000 = (from_ms div 60000 + 1 + k) * 60000"
    by (simp add: first_candidate_def add_minutes_def)
  then show "(first_candidate from_ms + k * 60000) mod 60000 = 0" by simp
qed

lemma search_loop_mono:
  "search_loop clock c n d = Some e \<Longrightarrow> search_loop clock c (n + m) d = Some e"
proof (induction n arbitrary: d)
  case 0
  then show ?case by (subst (asm) search_loop.simps) simp
next
  case (Suc n)
  then show ?case
    by (subst (asm) (2) search_loop.simps, subst search_loop.simps) (auto simp: Let_def split: if_splits)
qed

lemma search_loop_iterations:
  assumes "search_loop clock c 100 d = Some e"
  shows "search_loop clock c max_iterations d = Some e"
proof -
  have "max_iterations = 100 + 526940" by (simp add: max_iterations_def)
  then show ?thesis using search_loop_mono [OF assms, of 526940] by (simp only:)
qed

lemma whole_minute_after:
  assumes "from_ms < e" "e mod 60000 = 0"
  shows "\<exists>k \<ge> 0. e = add_minutes (first_candidate from_ms) k"
proof -
  let ?k = "e div 60000 - from_ms div 60000 - 1"
  have e: "e = 60000 * (e div 60000)" using assms(2) mult_div_mod_eq [of 60000 e] by linarith
  have f: "from_ms = 60000 * (from_ms div 60000) + from_ms mod 60000" "0 \<le> from_ms mod 60000"
    by simp_all
  have "from_ms div 60000 < e div 60000" using assms(1) e f by linarith
  moreover have "e = add_minutes (first_candidate from_ms) ?k"
  proof -
    have "p * 60000 + 1 * 60000 + (q - p - 1) * 60000 = 60000 * q" for p q :: int by simp
    then show ?thesis unfolding first_candidate_def add_minutes_def using e by simp
  qed
  ultimately show ?thesis by (intro exI [of _ ?k]) simp
qed

text \<open>C7: In UTC and in every zone with a fixed offset, the next fire time is the earliest whole
  minute after the start that matches the cron fields, although the search skips whole days and
  hours.\<close>

theorem next_fire_is_earliest:
  assumes "compute_next (zone_fields offset) c from_ms = Some d"
  shows "from_ms < d \<and> d mod 60000 = 0 \<and> matches c (zone_fields offset d) \<and>
    (\<forall>e. from_ms < e \<longrightarrow> e < d \<longrightarrow> e mod 60000 = 0 \<longrightarrow> \<not> matches c (zone_fields offset e))"
proof -
  obtain k where k: "0 \<le> k" "d = add_minutes (first_candidate from_ms) k" "matches c (zone_fields offset d)"
    "\<And>j. 0 \<le> j \<Longrightarrow> j < k \<Longrightarrow> \<not> matches c (zone_fields offset (add_minutes (first_candidate from_ms) j))"
    using fixed.search_sound assms unfolding compute_next_def by metis
  have "\<not> matches c (zone_fields offset e)" if e: "from_ms < e" "e < d" "e mod 60000 = 0" for e
  proof -
    obtain j where "0 \<le> j" "e = add_minutes (first_candidate from_ms) j"
      using whole_minute_after [OF e(1,3)] by blast
    moreover have "j < k" using calculation(2) e(2) k(2) by (simp add: add_minutes_def)
    ultimately show ?thesis using k(4) by blast
  qed
  then show ?thesis
    using k first_candidate_bounds [of from_ms] by (simp add: add_minutes_def)
qed

definition noon_fields :: cron_fields where
  "noon_fields = \<lparr>minutes = {0}, hours = {12}, days_of_month = {1..31}, months = {1..12},
     days_of_week = {0..6}\<rparr>"

lemma noon_from_morning: "compute_next (zone_fields 0) noon_fields 43000000 = Some 43200000"
  unfolding compute_next_def by (rule search_loop_iterations) code_simp

theorem next_fire_is_earliest_witness:
  "matches noon_fields (zone_fields 0 43200000) \<and> \<not> matches noon_fields (zone_fields 0 43140000)"
proof -
  note earliest = next_fire_is_earliest [OF noon_from_morning]
  have "\<not> matches noon_fields (zone_fields 0 43140000)"
    by (rule earliest [THEN conjunct2, THEN conjunct2, THEN conjunct2, rule_format]) simp_all
  then show ?thesis using earliest by blast
qed

text \<open>C25: In a zone with a fixed offset from UTC (UTC itself among them) the search finds every
  fire time of the coming 366 days: if some whole minute in that span matches, a fire time no
  later than it is returned, so the error is raised only when nothing matches for a year. In a
  zone with daylight saving the search can jump over a fire time, as
  \<open>daylight_saving_skips_midnight\<close> shows.\<close>

theorem next_fire_found_within_year:
  assumes "matches c (zone_fields offset e)" and "e mod 60000 = 0" and "from_ms < e"
    and "e \<le> from_ms + 366 * 24 * 60 * 60000"
  shows "\<exists>d \<le> e. compute_next (zone_fields offset) c from_ms = Some d"
proof -
  obtain k where k: "0 \<le> k" "e = add_minutes (first_candidate from_ms) k"
    using whole_minute_after [OF assms(3,2)] by blast
  have "from_ms div 60000 * 60000 + 60000 + k * 60000 \<le> from_ms + 366 * 24 * 60 * 60000"
    using assms(4) k(2) by (simp add: add_minutes_def first_candidate_def)
  moreover have "from_ms = 60000 * (from_ms div 60000) + from_ms mod 60000" "from_ms mod 60000 < 60000"
    by simp_all
  ultimately have "60000 * k < 60000 * (366 * 24 * 60)" by linarith
  then have "k < int max_iterations" by (simp add: max_iterations_def)
  with fixed.search_complete [of c offset "first_candidate from_ms" k max_iterations] k assms(1)
  show ?thesis by (simp add: compute_next_def)
qed

theorem next_fire_found_within_year_witness:
  "\<exists>d \<le> 43200000. compute_next (zone_fields 0) noon_fields 0 = Some d"
proof (rule next_fire_found_within_year)
  show "matches noon_fields (zone_fields 0 43200000)" by code_simp
qed simp_all

text \<open>
  A clock with a spring-forward change: New York around 2026-03-08T07:00Z, where the offset
  goes from -300 to -240 minutes, as a time zone database gives it.
\<close>

definition spring_clock :: "int \<Rightarrow> date_fields" where
  "spring_clock ms = zone_fields (if ms < 1772953200000 then -300 else -240) ms"

definition monday_midnight :: cron_fields where
  "monday_midnight = \<lparr>minutes = {0}, hours = {0}, days_of_month = {1..31}, months = {1..12},
     days_of_week = {1}\<rparr>"

text \<open>with a time zone the search can miss a fire time. Skipping to the end of a day assumes a
  day of 24 hours, so on the day the clocks go forward it lands at 01:00 of the next day, and a
  schedule for midnight of that day fires a week late.\<close>

theorem daylight_saving_skips_midnight:
  "matches monday_midnight (spring_clock 1773028800000) \<and>
    compute_next spring_clock monday_midnight 1772942400000 = Some 1773633600000"
proof
  show "matches monday_midnight (spring_clock 1773028800000)" by code_simp
  have "search_loop spring_clock monday_midnight 100 (first_candidate 1772942400000) = Some 1773633600000"
    by code_simp
  then show "compute_next spring_clock monday_midnight 1772942400000 = Some 1773633600000"
    unfolding compute_next_def by (rule search_loop_iterations)
qed

section \<open>Parsed fields\<close>

lemma step_loop_set:
  "0 < step \<Longrightarrow> set (step_loop i mx step) = {x. i \<le> x \<and> x \<le> mx \<and> step dvd (x - i)}"
proof (induction i mx step rule: step_loop.induct)
  case (1 i mx step)
  show ?case
  proof (cases "i \<le> mx")
    case True
    have "{x. i \<le> x \<and> x \<le> mx \<and> step dvd (x - i)} =
        insert i {x. i + step \<le> x \<and> x \<le> mx \<and> step dvd (x - (i + step))}" (is "?A = insert i ?B")
    proof (intro equalityI subsetI)
      fix x assume "x \<in> ?A"
      then have x: "i \<le> x" "x \<le> mx" "step dvd (x - i)" by auto
      show "x \<in> insert i ?B"
      proof (cases "x = i")
        case False
        then have "step \<le> x - i" using x by (intro zdvd_imp_le) auto
        moreover have "step dvd x - (i + step)"
          using dvd_diff [OF x(3) dvd_refl] by (simp only: diff_diff_eq)
        ultimately show ?thesis using x by simp
      qed simp
    next
      fix x assume "x \<in> insert i ?B"
      then show "x \<in> ?A"
      proof
        assume "x \<in> ?B"
        then have x: "step dvd x - (i + step)" "i + step \<le> x" "x \<le> mx" by simp_all
        have "x - i = (x - (i + step)) + step" by simp
        then have "step dvd x - i" using dvd_add [OF x(1) dvd_refl] by (simp only:)
        then show ?thesis using x(2,3) 1(2) by simp
      qed (use True in simp)
    qed
    with 1 True show ?thesis by (subst step_loop.simps) simp
  next
    case False
    then show ?thesis by (subst step_loop.simps) auto
  qed
qed

lemma parse_part_range:
  assumes "parse_part mn mx p = Inr vs" "mn \<le> mx"
  shows "vs \<noteq> [] \<and> set vs \<subseteq> {mn..mx}"
proof -
  have ne: "step_loop start mx step \<noteq> []" if "start \<le> mx" "0 < step" for start step
    using that by (subst step_loop.simps) simp
  have mem: "start \<le> x \<and> x \<le> mx" if "x \<in> set (step_loop start mx step)" "0 < step" for x start step
    using that by (simp add: step_loop_set)
  show ?thesis
    using assms
    by (auto simp: parse_part_def Let_def ne not_le not_less split: if_splits option.splits dest!: mem)
qed

lemma parse_parts_range:
  assumes "parse_parts mn mx ps = Inr vs" "mn \<le> mx" "ps \<noteq> []"
  shows "vs \<noteq> {} \<and> vs \<subseteq> {mn..mx}"
proof -
  have sub: "vs \<subseteq> {mn..mx}" if "parse_parts mn mx ps = Inr vs" for ps vs
    using that
  proof (induction ps arbitrary: vs)
    case (Cons p ps)
    then show ?case using parse_part_range [OF _ assms(2), of p] by (fastforce split: sum.splits)
  qed simp
  obtain p qs where "ps = p # qs" using assms(3) by (cases ps) auto
  then have "vs \<noteq> {}"
    using assms(1) parse_part_range [OF _ assms(2), of p] by (auto split: sum.splits)
  with sub [OF assms(1)] show ?thesis by blast
qed

lemma parse_field_range:
  assumes "parse_field f mn mx = Inr vs" "0 \<le> mn" "mn \<le> mx"
  shows "vs \<noteq> {} \<and> vs \<subseteq> {mn..mx} \<union> {0} \<and> (mx = 7 \<longrightarrow> 7 \<notin> vs) \<and> (mx \<noteq> 7 \<longrightarrow> 0 < mn \<longrightarrow> 0 \<notin> vs)"
proof -
  obtain r ws where r: "parse_parts mn mx (split_on (CHR '','') r) = Inr ws"
    "vs = (if mx = 7 \<and> 7 \<in> ws then insert 0 ws - {7} else ws)"
    using assms(1) by (auto simp: parse_field_def split: sum.splits)
  with parse_parts_range [OF r(1) assms(3)] assms(2) show ?thesis by auto
qed

text \<open>A cron expression that parses has five fields that are not empty and in range: minutes
  0-59, hours 0-23, days of the month 1-31, months 1-12 and days of the week 0-6, the name or
  number of Sunday always being 0.\<close>

theorem parsed_fields_in_range:
  assumes "parse_cron expr = Inr c"
  shows "minutes c \<noteq> {} \<and> minutes c \<subseteq> {0..59} \<and> hours c \<noteq> {} \<and> hours c \<subseteq> {0..23} \<and>
    days_of_month c \<noteq> {} \<and> days_of_month c \<subseteq> {1..31} \<and> months c \<noteq> {} \<and> months c \<subseteq> {1..12} \<and>
    days_of_week c \<noteq> {} \<and> days_of_week c \<subseteq> {0..6}"
proof -
  obtain p q r s t where "parse_field p 0 59 = Inr (minutes c)" "parse_field q 0 23 = Inr (hours c)"
    "parse_field r 1 31 = Inr (days_of_month c)" "parse_field s 1 12 = Inr (months c)"
    "parse_field t 0 7 = Inr (days_of_week c)"
    using assms by (auto simp: parse_cron_def split: list.splits sum.splits)
  note f = this [THEN parse_field_range]
  have "days_of_week c \<subseteq> {0..7} - {7}" using f(5) by auto
  also have "\<dots> \<subseteq> {0..6::int}" by auto
  finally have "days_of_week c \<subseteq> {0..6}" .
  moreover have "days_of_month c \<subseteq> {1..31}" "months c \<subseteq> {1..12}" using f(3,4) by auto
  moreover have "minutes c \<subseteq> {0..59}" "hours c \<subseteq> {0..23}" using f(1,2) by auto
  ultimately show ?thesis using f by simp
qed

theorem parsed_fields_in_range_witness:
  "\<exists>c. parse_cron ''*/15 9-17 * JAN,JUL mon-fri'' = Inr c \<and> days_of_week c \<subseteq> {0..6}"
proof -
  have "\<not> isl (parse_cron ''*/15 9-17 * JAN,JUL mon-fri'')" by code_simp
  then obtain c where c: "parse_cron ''*/15 9-17 * JAN,JUL mon-fri'' = Inr c"
    by (cases "parse_cron ''*/15 9-17 * JAN,JUL mon-fri''") auto
  with parsed_fields_in_range [OF c] show ?thesis by blast
qed

section \<open>Interval shorthands\<close>

definition every_minutes :: "int \<Rightarrow> cron_fields" where
  "every_minutes v = \<lparr>minutes = {i. 0 \<le> i \<and> i \<le> 59 \<and> v dvd i}, hours = {0..23},
     days_of_month = {1..31}, months = {1..12}, days_of_week = {0..6}\<rparr>"

definition every_hours :: "int \<Rightarrow> cron_fields" where
  "every_hours v = \<lparr>minutes = {0}, hours = {i. 0 \<le> i \<and> i \<le> 23 \<and> v dvd i},
     days_of_month = {1..31}, months = {1..12}, days_of_week = {0..6}\<rparr>"

definition parses_to :: "string \<Rightarrow> cron_fields \<Rightarrow> bool" where
  "parses_to s c \<longleftrightarrow> (\<exists>e. resolve_expr s = Inr e \<and> parse_cron e = Inr c)"

lemma digit_facts:
  "is_digit (digit n)" "digit_value (digit n) = int (n mod 10)"
proof -
  have n: "(of_char (digit n) :: nat) = 48 + n mod 10" by (simp add: digit_def)
  then show "is_digit (digit n)" by (simp add: is_digit_def)
  have "(of_char (digit n) :: int) = int (of_char (digit n))" by (rule of_nat_of_char [symmetric])
  then show "digit_value (digit n) = int (n mod 10)" by (simp add: digit_value_def n)
qed

lemma show_nat_digits: "c \<in> set (show_nat n) \<Longrightarrow> is_digit c"
  by (induction n rule: show_nat.induct) (subst (asm) (2) show_nat.simps, auto simp: digit_facts split: if_splits)

lemma digits_value_snoc: "digits_value (ds @ [c]) = 10 * digits_value ds + digit_value c"
  by (simp add: digits_value_def)

lemma digits_value_show_nat: "digits_value (show_nat n) = int n"
proof (induction n rule: show_nat.induct)
  case (1 n)
  show ?case
  proof (cases "n < 10")
    case True
    then show ?thesis by (subst show_nat.simps) (simp add: digits_value_def digit_facts)
  next
    case False
    then have "digits_value (show_nat n) = 10 * int (n div 10) + int (n mod 10)"
      using 1 by (subst show_nat.simps) (simp add: digits_value_snoc digit_facts)
    also have "\<dots> = int (10 * (n div 10) + n mod 10)"
      by (simp only: of_nat_add of_nat_mult of_nat_numeral)
    finally show ?thesis by simp
  qed
qed

lemma takeWhile_show_nat:
  "takeWhile is_digit (show_nat n @ u) = show_nat n @ takeWhile is_digit u"
  "dropWhile is_digit (show_nat n @ u) = dropWhile is_digit u"
  using show_nat_digits by (simp_all add: takeWhile_append2 dropWhile_append2)

lemma show_int_pos: "0 < v \<Longrightarrow> show_int v = show_nat (nat v)"
  by (simp add: show_int_def)

lemma parse_int_show_nat: "parse_int (show_nat n) = Some (int n)"
proof -
  obtain c r where c: "show_nat n = c # r" by (cases "show_nat n") auto
  then have d: "is_digit c" using show_nat_digits [of c n] by simp
  then have "\<not> is_space c" "c \<noteq> CHR ''-''" "c \<noteq> CHR ''+''"
    by (auto simp: is_digit_def is_space_def Let_def)
  then show ?thesis
    using takeWhile_show_nat(1) [of n "[]"] digits_value_show_nat [of n] c
    by (simp add: parse_int_def parse_digits_def Let_def)
qed

lemma digit_not_special:
  "is_digit c \<Longrightarrow> \<not> is_space c \<and> c \<noteq> CHR '','' \<and> c \<noteq> CHR ''/'' \<and> c \<noteq> CHR ''-'' \<and> c \<noteq> CHR ''*''"
  by (auto simp: is_digit_def is_space_def Let_def)

lemma words_loop_no_space:
  "\<forall>c \<in> set xs. \<not> is_space c \<Longrightarrow> words_loop cur (xs @ ys) = words_loop (cur @ xs) ys"
  by (induction xs arbitrary: cur) auto

lemma star_step_field:
  assumes "0 < v" "v \<le> mx" "0 \<le> mx" "mx \<noteq> 7" "mx \<noteq> 12"
  shows "parse_field (''*/'' @ show_int v) 0 mx = Inr {i. 0 \<le> i \<and> i \<le> mx \<and> v dvd i}"
proof -
  let ?n = "show_nat (nat v)"
  have no: "CHR '','' \<notin> set ?n" "CHR ''/'' \<notin> set ?n"
    using show_nat_digits [of _ "nat v"] digit_not_special by blast+
  have "split_on (CHR '','') (''*/'' @ ?n) = [''*/'' @ ?n]"
    using no(1) by (intro split_on_no_sep) simp
  moreover have "split_on (CHR ''/'') (''*/'' @ ?n) = [''*'', ?n]"
    using split_on_no_sep [OF no(2)] by simp
  ultimately show ?thesis
    using assms step_loop_set [OF assms(1), of 0 mx]
    by (simp add: parse_field_def parse_part_def Let_def show_int_pos parse_int_show_nat)
qed

lemma star_field:
  "parse_field ''*'' 0 23 = Inr {0..23}" "parse_field ''*'' 1 31 = Inr {1..31}"
  "parse_field ''*'' 1 12 = Inr {1..12}" "parse_field ''*'' 0 7 = Inr {0..6}"
  "parse_field ''0'' 0 59 = Inr {0}"
  by (auto simp: parse_field_def parse_part_def is_letter_def Let_def parse_int_def parse_digits_def
      is_digit_def is_space_def digits_value_def digit_value_def)

lemma shorthand_number:
  assumes "0 < v" "u \<in> us" "\<not> is_digit u"
  shows "match_unit us (show_int v @ [u]) = Some (v, u)"
  using assms by (simp add: match_unit_def Let_def show_int_pos takeWhile_show_nat digits_value_show_nat)

lemma show_int_no_space: "0 < v \<Longrightarrow> \<forall>c \<in> set (show_int v). \<not> is_space c"
  using show_nat_digits digit_not_special by (auto simp: show_int_pos)

lemma minute_words:
  assumes "0 < v"
  shows "split_words (''*/'' @ show_int v @ '' * * * *'') = [''*/'' @ show_int v, ''*'', ''*'', ''*'', ''*'']"
proof -
  have "words_loop [] ((''*/'' @ show_int v) @ '' * * * *'') = words_loop (''*/'' @ show_int v) '' * * * *''"
    using show_int_no_space [OF assms]
    by (subst words_loop_no_space) (auto simp: is_space_def)
  then show ?thesis by (simp add: split_words_def is_space_def)
qed

lemma hour_words:
  assumes "0 < v"
  shows "split_words (''0 */'' @ show_int v @ '' * * *'') = [''0'', ''*/'' @ show_int v, ''*'', ''*'', ''*'']"
proof -
  have "words_loop [] ((''*/'' @ show_int v) @ '' * * *'') = words_loop (''*/'' @ show_int v) '' * * *''"
    using show_int_no_space [OF assms]
    by (subst words_loop_no_space) (auto simp: is_space_def)
  then show ?thesis by (simp add: split_words_def is_space_def)
qed

text \<open>Every interval shorthand from 1m to 59m and from 1h to 23h is a valid schedule: the minutes
  of \<open>vm\<close> are the multiples of v in every hour, the hours of \<open>vh\<close> the multiples of v, at minute 0.\<close>

theorem interval_shorthand_valid:
  "(1 \<le> v \<longrightarrow> v \<le> 59 \<longrightarrow> parses_to (show_int v @ ''m'') (every_minutes v)) \<and>
   (1 \<le> v \<longrightarrow> v \<le> 23 \<longrightarrow> parses_to (show_int v @ ''h'') (every_hours v))"
proof (intro conjI impI)
  assume v: "1 \<le> v" "v \<le> 59"
  have "match_unit {CHR ''m'', CHR ''h''} (show_int v @ ''m'') = Some (v, CHR ''m'')"
    using v by (intro shorthand_number) (simp_all add: is_digit_def)
  then have "resolve_expr (show_int v @ ''m'') = Inr (''*/'' @ show_int v @ '' * * * *'')"
    using v by (simp add: resolve_expr_def is_interval_def interval_to_cron_def)
  moreover have "parse_cron (''*/'' @ show_int v @ '' * * * *'') = Inr (every_minutes v)"
    using v minute_words [of v] star_step_field [of v 59] star_field
    by (simp add: parse_cron_def every_minutes_def)
  ultimately show "parses_to (show_int v @ ''m'') (every_minutes v)" by (simp add: parses_to_def)
next
  assume v: "1 \<le> v" "v \<le> 23"
  have "match_unit {CHR ''m'', CHR ''h''} (show_int v @ ''h'') = Some (v, CHR ''h'')"
    using v by (intro shorthand_number) (simp_all add: is_digit_def)
  then have "resolve_expr (show_int v @ ''h'') = Inr (''0 */'' @ show_int v @ '' * * *'')"
    using v by (simp add: resolve_expr_def is_interval_def interval_to_cron_def)
  moreover have "parse_cron (''0 */'' @ show_int v @ '' * * *'') = Inr (every_hours v)"
    using v hour_words [of v] star_step_field [of v 23] star_field
    by (simp add: parse_cron_def every_hours_def)
  ultimately show "parses_to (show_int v @ ''h'') (every_hours v)" by (simp add: parses_to_def)
qed

theorem interval_shorthand_valid_witness:
  "parses_to (show_int 30 @ ''m'') (every_minutes 30)"
  using interval_shorthand_valid [of 30] by simp

end
