(* ===== verification/Schedule_Store.thy ===== *)
theory Schedule_Store
  imports Timestamps "HOL-Library.Option_ord"
begin

text \<open>
  \<open>packages/runtime/agent-runtime/src/scheduling/schedule-store.ts\<close>: the table of schedules
  behind the alarm. Each method of \<open>ScheduleStore\<close> is one definition on the list of rows;
  the clock (milliseconds) and the id \<open>nanoid()\<close> returns are arguments. Absent fields of a
  configuration or an update are \<open>None\<close>; where the code tells null from undefined, the
  field is an option of an option. The lemmas say what every method does to the row with a
  given id, that ids stay unique, and when a row is due.
\<close>

section \<open>Rows\<close>

datatype handler = Prompt_Handler | Callback_Handler | Timer_Handler

datatype schedule_status = Idle | Running | Failed

record schedule =
  sch_id :: id
  sch_name :: string
  sch_cron :: string
  sch_enabled :: bool
  sch_handler :: handler
  sch_prompt :: "string option"
  sch_prefix :: "string option"
  sch_owner :: "id option"
  sch_next_fire :: "stamp option"
  sch_last_fired :: "stamp option"
  sch_timezone :: "string option"
  sch_expires :: "stamp option"
  sch_status :: schedule_status
  sch_error :: "string option"
  sch_retention :: int
  sch_created :: stamp
  sch_updated :: stamp

record schedule_config =
  cfg_id :: "id option"
  cfg_name :: string
  cfg_cron :: string
  cfg_enabled :: "bool option"
  cfg_handler :: handler
  cfg_prompt :: "string option"
  cfg_prefix :: "string option"
  cfg_owner :: "id option"
  cfg_timezone :: "string option"
  cfg_expires :: "stamp option"
  cfg_next_fire :: "stamp option"
  cfg_retention :: "int option"

record schedule_update =
  upd_name :: "string option"
  upd_cron :: "string option"
  upd_enabled :: "bool option"
  upd_prompt :: "string option"
  upd_prefix :: "string option"
  upd_timezone :: "string option option"
  upd_next_fire :: "stamp option option"
  upd_last_fired :: "stamp option option"
  upd_status :: "schedule_status option"
  upd_error :: "string option option"
  upd_retention :: "int option"

definition no_update :: schedule_update where
  "no_update = \<lparr>upd_name = None, upd_cron = None, upd_enabled = None, upd_prompt = None,
     upd_prefix = None, upd_timezone = None, upd_next_fire = None, upd_last_fired = None,
     upd_status = None, upd_error = None, upd_retention = None\<rparr>"

section \<open>Methods\<close>

definition default_retention :: int where "default_retention = 10"

definition get_schedule :: "schedule list \<Rightarrow> id \<Rightarrow> schedule option" where
  "get_schedule t i = get_row sch_id i t"

definition schedule_row :: "schedule_config \<Rightarrow> id \<Rightarrow> int \<Rightarrow> schedule" where
  "schedule_row c nid now =
     \<lparr>sch_id = or_else (cfg_id c) nid,
      sch_name = cfg_name c, sch_cron = cfg_cron c,
      sch_enabled = (cfg_enabled c \<noteq> Some False),
      sch_handler = cfg_handler c, sch_prompt = cfg_prompt c,
      sch_prefix = Some (or_else (cfg_prefix c) (cfg_name c)),
      sch_owner = cfg_owner c, sch_next_fire = cfg_next_fire c, sch_last_fired = None,
      sch_timezone = cfg_timezone c, sch_expires = cfg_expires c,
      sch_status = Idle, sch_error = None,
      sch_retention = or_else (cfg_retention c) default_retention,
      sch_created = iso_now now, sch_updated = iso_now now\<rparr>"

text \<open>\<open>None\<close> is the primary-key error.\<close>

definition insert_schedule ::
  "schedule list \<Rightarrow> schedule_config \<Rightarrow> id \<Rightarrow> int \<Rightarrow> (schedule \<times> schedule list) option" where
  "insert_schedule t c nid now =
     (let r = schedule_row c nid now
      in case insert_row sch_id r t of None \<Rightarrow> None | Some t' \<Rightarrow> Some (r, t'))"

definition list_schedule_rows :: "schedule list \<Rightarrow> schedule list" where
  "list_schedule_rows t = order_by sch_created t"

definition apply_schedule_update :: "schedule_update \<Rightarrow> int \<Rightarrow> schedule \<Rightarrow> schedule" where
  "apply_schedule_update u now r =
     r\<lparr>sch_name := or_else (upd_name u) (sch_name r),
       sch_cron := or_else (upd_cron u) (sch_cron r),
       sch_enabled := or_else (upd_enabled u) (sch_enabled r),
       sch_prompt := (case upd_prompt u of None \<Rightarrow> sch_prompt r | Some p \<Rightarrow> Some p),
       sch_prefix := (case upd_prefix u of None \<Rightarrow> sch_prefix r | Some p \<Rightarrow> Some p),
       sch_timezone := or_else (upd_timezone u) (sch_timezone r),
       sch_next_fire := or_else (upd_next_fire u) (sch_next_fire r),
       sch_last_fired := or_else (upd_last_fired u) (sch_last_fired r),
       sch_status := or_else (upd_status u) (sch_status r),
       sch_error := or_else (upd_error u) (sch_error r),
       sch_retention := or_else (upd_retention u) (sch_retention r),
       sch_updated := sql_now now\<rparr>"

definition update_schedule_row ::
  "schedule list \<Rightarrow> id \<Rightarrow> schedule_update \<Rightarrow> int \<Rightarrow> schedule option \<times> schedule list" where
  "update_schedule_row t i u now =
     (case get_schedule t i of
        None \<Rightarrow> (None, t)
      | Some _ \<Rightarrow>
          (let t' = update_rows (\<lambda>r. sch_id r = i) (apply_schedule_update u now) t
           in (get_schedule t' i, t')))"

definition delete_schedule_row :: "schedule list \<Rightarrow> id \<Rightarrow> schedule list" where
  "delete_schedule_row t i = delete_rows (\<lambda>r. sch_id r = i) t"

definition is_due :: "int \<Rightarrow> schedule \<Rightarrow> bool" where
  "is_due now r \<longleftrightarrow> sch_enabled r \<and>
     (case sch_next_fire r of None \<Rightarrow> False | Some f \<Rightarrow> f \<le> iso_now now)"

definition get_due_schedules :: "schedule list \<Rightarrow> int \<Rightarrow> schedule list" where
  "get_due_schedules t now = order_by sch_next_fire (filter (is_due now) t)"

definition fire_stamps :: "schedule list \<Rightarrow> stamp list" where
  "fire_stamps t = List.map_filter (\<lambda>r. if sch_enabled r then sch_next_fire r else None) t"

definition get_earliest_fire_time :: "schedule list \<Rightarrow> int option" where
  "get_earliest_fire_time t =
     (case order_by id (fire_stamps t) of [] \<Rightarrow> None | f # _ \<Rightarrow> Some (stamp_ms f))"

definition mark_running :: "schedule list \<Rightarrow> id \<Rightarrow> int \<Rightarrow> schedule list" where
  "mark_running t i now = update_rows (\<lambda>r. sch_id r = i)
     (\<lambda>r. r\<lparr>sch_status := Running, sch_last_fired := Some (iso_now now),
            sch_updated := iso_now now\<rparr>) t"

definition mark_idle :: "schedule list \<Rightarrow> id \<Rightarrow> int \<Rightarrow> schedule list" where
  "mark_idle t i now = update_rows (\<lambda>r. sch_id r = i)
     (\<lambda>r. r\<lparr>sch_status := Idle, sch_error := None, sch_updated := sql_now now\<rparr>) t"

definition mark_failed :: "schedule list \<Rightarrow> id \<Rightarrow> string \<Rightarrow> int \<Rightarrow> schedule list" where
  "mark_failed t i e now = update_rows (\<lambda>r. sch_id r = i)
     (\<lambda>r. r\<lparr>sch_status := Failed, sch_error := Some e, sch_updated := sql_now now\<rparr>) t"

section \<open>What the methods do to rows\<close>

lemma get_schedule_SomeD: "get_schedule t i = Some r \<Longrightarrow> r \<in> set t \<and> sch_id r = i"
  unfolding get_schedule_def by (rule get_row_SomeD)

lemma sch_id_apply_schedule_update [simp]: "sch_id (apply_schedule_update u now r) = sch_id r"
  by (simp add: apply_schedule_update_def)

lemma insert_schedule_SomeD:
  assumes "insert_schedule t c nid now = Some (r, t')"
  shows "r = schedule_row c nid now" "t' = t @ [r]" "sch_id r \<notin> sch_id ` set t"
    "get_schedule t' (sch_id r) = Some r"
proof -
  have *: "insert_row sch_id (schedule_row c nid now) t = Some t'" "r = schedule_row c nid now"
    using assms by (auto simp: insert_schedule_def Let_def split: option.splits)
  then show "r = schedule_row c nid now" "t' = t @ [r]" "sch_id r \<notin> sch_id ` set t"
    using insert_row_SomeD by fastforce+
  show "get_schedule t' (sch_id r) = Some r"
    using get_row_insert [OF *(1)] * by (simp add: get_schedule_def)
qed

lemma update_schedule_row_table:
  "snd (update_schedule_row t i u now) = update_rows (\<lambda>r. sch_id r = i) (apply_schedule_update u now) t"
proof (cases "get_schedule t i")
  case None
  then have "\<forall>r \<in> set t. sch_id r \<noteq> i"
    by (auto simp: get_schedule_def get_row_None_iff)
  then have "update_rows (\<lambda>r. sch_id r = i) (apply_schedule_update u now) t = t"
    by (simp add: update_rows_def map_idI)
  with None show ?thesis by (simp add: update_schedule_row_def)
qed (simp add: update_schedule_row_def Let_def)

lemma ids_unchanged [simp]:
  "map sch_id (snd (update_schedule_row t i u now)) = map sch_id t"
  "map sch_id (mark_running t i now) = map sch_id t"
  "map sch_id (mark_idle t i now) = map sch_id t"
  "map sch_id (mark_failed t i e now) = map sch_id t"
  by (simp_all add: update_schedule_row_table mark_running_def mark_idle_def mark_failed_def
        map_update_rows)

lemma set_delete_schedule [simp]: "set (delete_schedule_row t i) = {r \<in> set t. sch_id r \<noteq> i}"
  by (auto simp: delete_schedule_row_def table_simps)

text \<open>The marks change neither the fire time nor whether the schedule is enabled.\<close>

lemma is_due_marked [simp]:
  "is_due now (r\<lparr>sch_status := st, sch_last_fired := lf, sch_updated := up\<rparr>) = is_due now r"
  "is_due now (r\<lparr>sch_status := st, sch_error := er, sch_updated := up\<rparr>) = is_due now r"
  by (simp_all add: is_due_def)

lemma is_due_next_fire:
  "is_due now (apply_schedule_update (no_update\<lparr>upd_next_fire := Some (Some (iso_now f))\<rparr>) now' r) \<longleftrightarrow>
    sch_enabled r \<and> f \<le> now"
  by (simp add: is_due_def apply_schedule_update_def no_update_def iso_now_def iso_stamp_le)

lemma get_due_iff: "r \<in> set (get_due_schedules t now) \<longleftrightarrow> r \<in> set t \<and> is_due now r"
  by (auto simp: get_due_schedules_def)

lemma fire_stamps_iff:
  "f \<in> set (fire_stamps t) \<longleftrightarrow> (\<exists>r \<in> set t. sch_enabled r \<and> sch_next_fire r = Some f)"
  by (force simp: fire_stamps_def map_filter_def)

text \<open>While every fire time is an ISO stamp, the earliest one in text order is the earliest instant.\<close>

definition iso_fire_times :: "schedule list \<Rightarrow> bool" where
  "iso_fire_times t \<longleftrightarrow> (\<forall>r \<in> set t. \<forall>f. sch_next_fire r = Some f \<longrightarrow> (\<exists>ms. f = Iso_Stamp ms))"

lemma earliest_None: "get_earliest_fire_time t = None \<longleftrightarrow> fire_stamps t = []"
  by (auto simp: get_earliest_fire_time_def split: list.splits)

lemma earliest_is_least:
  assumes "iso_fire_times t" "get_earliest_fire_time t = Some ms"
  shows "Iso_Stamp ms \<in> set (fire_stamps t)" "\<And>f. Iso_Stamp f \<in> set (fire_stamps t) \<Longrightarrow> ms \<le> f"
proof -
  obtain f fs where fs: "order_by id (fire_stamps t) = f # fs" "ms = stamp_ms f"
    using assms(2) by (auto simp: get_earliest_fire_time_def split: list.splits)
  have set_eq: "set (f # fs) = set (fire_stamps t)" by (metis fs(1) set_order_by)
  then have f_in: "f \<in> set (fire_stamps t)" by auto
  then obtain k where k: "f = Iso_Stamp k"
    using assms(1) by (auto simp: fire_stamps_iff iso_fire_times_def)
  with fs f_in show "Iso_Stamp ms \<in> set (fire_stamps t)" by simp
  fix g assume "Iso_Stamp g \<in> set (fire_stamps t)"
  moreover have "sorted (f # fs)"
    using sorted_order_by [of id "fire_stamps t"] fs(1) by simp
  ultimately have "f \<le> Iso_Stamp g" using set_eq by auto
  then show "ms \<le> g" using fs(2) k by (simp add: iso_stamp_le)
qed

end
