(* ===== verification/Queue_Store.thy ===== *)
theory Queue_Store
  imports Timestamps
begin

text \<open>
  \<open>packages/runtime/agent-runtime/src/queue/queue-store.ts\<close>: messages that arrive while the
  agent of a session is busy. One table for all sessions; each method of \<open>QueueStore\<close> is one
  definition on its rows. The contract is a first-in-first-out queue per session, stated as
  an abstract machine that the table refines while the clock does not run backwards.
\<close>

section \<open>The table\<close>

record queued_message =
  qm_id :: id
  qm_session :: id
  qm_text :: string
  qm_created :: stamp

text \<open>\<open>None\<close> is the primary-key error.\<close>

definition enqueue ::
  "queued_message list \<Rightarrow> id \<Rightarrow> id \<Rightarrow> string \<Rightarrow> int \<Rightarrow> (queued_message \<times> queued_message list) option" where
  "enqueue q nid s text now =
     (let r = \<lparr>qm_id = nid, qm_session = s, qm_text = text, qm_created = iso_now now\<rparr>
      in case insert_row qm_id r q of None \<Rightarrow> None | Some q' \<Rightarrow> Some (r, q'))"

definition list_queue :: "queued_message list \<Rightarrow> id \<Rightarrow> queued_message list" where
  "list_queue q s = order_by qm_created (filter (\<lambda>r. qm_session r = s) q)"

definition dequeue ::
  "queued_message list \<Rightarrow> id \<Rightarrow> queued_message option \<times> queued_message list" where
  "dequeue q s =
     (case take 1 (order_by qm_created (filter (\<lambda>r. qm_session r = s) q)) of
        [] \<Rightarrow> (None, q)
      | item # _ \<Rightarrow> (Some item, delete_rows (\<lambda>r. qm_id r = qm_id item) q))"

definition get_queued :: "queued_message list \<Rightarrow> id \<Rightarrow> queued_message option" where
  "get_queued q i = get_row qm_id i q"

definition delete_queued :: "queued_message list \<Rightarrow> id \<Rightarrow> bool \<times> queued_message list" where
  "delete_queued q i =
     (case get_queued q i of
        None \<Rightarrow> (False, q)
      | Some _ \<Rightarrow> (True, delete_rows (\<lambda>r. qm_id r = i) q))"

definition delete_all_queued :: "queued_message list \<Rightarrow> id \<Rightarrow> queued_message list" where
  "delete_all_queued q s = delete_rows (\<lambda>r. qm_session r = s) q"

section \<open>The contract\<close>

text \<open>Requests, their answers, and the two machines that serve them.\<close>

datatype queue_request = Enqueue id id string int | Dequeue id | Delete id | Delete_All id | List_Items id

datatype queue_answer = Item queued_message | Nothing | Found bool | Items "queued_message list"

fun queue_serve :: "queue_request \<Rightarrow> queued_message list \<Rightarrow> (queue_answer \<times> queued_message list) option" where
  "queue_serve (Enqueue i s t now) q = map_option (\<lambda>(r, q'). (Item r, q')) (enqueue q i s t now)"
| "queue_serve (Dequeue s) q =
     (let (r, q') = dequeue q s in Some (case r of None \<Rightarrow> Nothing | Some m \<Rightarrow> Item m, q'))"
| "queue_serve (Delete i) q = (let (b, q') = delete_queued q i in Some (Found b, q'))"
| "queue_serve (Delete_All s) q = Some (Nothing, delete_all_queued q s)"
| "queue_serve (List_Items s) q = Some (Items (list_queue q s), q)"

text \<open>The abstract machine keeps one list per session and never looks at a clock.\<close>

type_synonym queues = "id \<Rightarrow> queued_message list"

fun fifo_step :: "queue_request \<Rightarrow> queues \<Rightarrow> queue_answer \<times> queues" where
  "fifo_step (Enqueue i s t now) a =
     (let r = \<lparr>qm_id = i, qm_session = s, qm_text = t, qm_created = iso_now now\<rparr>
      in (Item r, a(s := a s @ [r])))"
| "fifo_step (Dequeue s) a =
     (case a s of [] \<Rightarrow> (Nothing, a) | m # ms \<Rightarrow> (Item m, a(s := ms)))"
| "fifo_step (Delete i) a =
     (Found (\<exists>s. i \<in> qm_id ` set (a s)), \<lambda>s. filter (\<lambda>m. qm_id m \<noteq> i) (a s))"
| "fifo_step (Delete_All s) a = (Nothing, a(s := []))"
| "fifo_step (List_Items s) a = (Items (a s), a)"

definition queues_of :: "queued_message list \<Rightarrow> queues" where
  "queues_of q s = filter (\<lambda>r. qm_session r = s) q"

text \<open>What the requests must respect: ids are not reused, and the clock does not go back.\<close>

fun new_ids :: "queue_request list \<Rightarrow> id list" where
  "new_ids [] = []"
| "new_ids (Enqueue i _ _ _ # ops) = i # new_ids ops"
| "new_ids (_ # ops) = new_ids ops"

fun times :: "queue_request list \<Rightarrow> int list" where
  "times [] = []"
| "times (Enqueue _ _ _ now # ops) = now # times ops"
| "times (_ # ops) = times ops"

definition queue_ready :: "queue_request list \<Rightarrow> queued_message list \<Rightarrow> bool" where
  "queue_ready ops q \<longleftrightarrow>
     distinct (map qm_id q @ new_ids ops) \<and>
     sorted (map qm_created q @ map iso_now (times ops))"

section \<open>The table refines the contract\<close>

lemma order_by_sorted: "sorted (map key xs) \<Longrightarrow> order_by key xs = xs"
  by (simp add: order_by_def sort_key_id_if_sorted)

lemma list_queue_sorted:
  "sorted (map qm_created q) \<Longrightarrow> list_queue q s = queues_of q s"
  by (simp add: list_queue_def queues_of_def order_by_sorted sorted_filter)

lemma ready_delete:
  assumes "distinct (map qm_id q @ ids)" "sorted (map qm_created q @ ts)"
  shows "distinct (map qm_id (delete_rows p q) @ ids)" "sorted (map qm_created (delete_rows p q) @ ts)"
  using assms by (auto simp: delete_rows_def distinct_map_filter sorted_append sorted_filter)

lemma queues_of_delete:
  assumes "distinct (map qm_id q)" "queues_of q s = m # ms"
  shows "queues_of (delete_rows (\<lambda>r. qm_id r = qm_id m) q) = (queues_of q)(s := ms)"
proof
  fix s'
  have m: "m \<in> set q" "qm_session m = s"
    using assms(2) by (auto simp: queues_of_def filter_eq_Cons_iff)
  have inj: "inj_on qm_id (set q)" using assms(1) by (simp add: distinct_map)
  have split: "queues_of (delete_rows (\<lambda>r. qm_id r = qm_id m) q) s' =
      filter (\<lambda>r. qm_id r \<noteq> qm_id m) (queues_of q s')"
    by (simp add: queues_of_def delete_rows_def conj_commute)
  show "queues_of (delete_rows (\<lambda>r. qm_id r = qm_id m) q) s' = ((queues_of q)(s := ms)) s'"
  proof (cases "s' = s")
    case True
    have "distinct (map qm_id (m # ms))"
      using assms unfolding queues_of_def by (metis distinct_map_filter)
    then have "filter (\<lambda>r. qm_id r \<noteq> qm_id m) (m # ms) = ms"
      by (simp add: filter_id_conv) (metis image_eqI)
    with True split assms(2) show ?thesis by simp
  next
    case False
    have "qm_id r \<noteq> qm_id m" if "r \<in> set (queues_of q s')" for r
      using that m False inj by (auto simp: queues_of_def inj_on_def)
    then have "filter (\<lambda>r. qm_id r \<noteq> qm_id m) (queues_of q s') = queues_of q s'"
      by (simp add: filter_id_conv)
    with False split show ?thesis by simp
  qed
qed

lemma dequeue_sorted:
  assumes "sorted (map qm_created q)"
  shows "dequeue q s = (case queues_of q s of [] \<Rightarrow> (None, q)
     | m # _ \<Rightarrow> (Some m, delete_rows (\<lambda>r. qm_id r = qm_id m) q))"
  using list_queue_sorted [OF assms, of s]
  by (cases "queues_of q s") (simp_all add: dequeue_def list_queue_def)

interpretation fifo: refinement queue_ready queues_of queue_serve fifo_step
proof
  fix x ops and q :: "queued_message list"
  assume ready: "queue_ready (x # ops) q"
  show "\<exists>r q'. queue_serve x q = Some (r, q') \<and> fifo_step x (queues_of q) = (r, queues_of q') \<and>
      queue_ready ops q'"
  proof (cases x)
    case (Enqueue i s t now)
    let ?r = "\<lparr>qm_id = i, qm_session = s, qm_text = t, qm_created = iso_now now\<rparr>"
    have "insert_row qm_id ?r q = Some (q @ [?r])"
      using ready Enqueue by (auto simp: queue_ready_def insert_row_def)
    moreover have "queues_of (q @ [?r]) = (queues_of q)(s := queues_of q s @ [?r])"
      by (auto simp: queues_of_def fun_eq_iff)
    moreover have "queue_ready ops (q @ [?r])"
      using ready Enqueue by (auto simp: queue_ready_def)
    ultimately show ?thesis using Enqueue by (simp add: enqueue_def Let_def)
  next
    case (Dequeue s)
    then have st: "sorted (map qm_created q)" "distinct (map qm_id q)"
      using ready by (auto simp: queue_ready_def sorted_append)
    show ?thesis
    proof (cases "queues_of q s")
      case Nil
      with Dequeue ready st show ?thesis
        by (simp add: dequeue_sorted queue_ready_def)
    next
      case (Cons m ms)
      with Dequeue ready st show ?thesis
        using ready_delete [of q "new_ids ops" "map iso_now (times ops)"]
        by (simp add: dequeue_sorted queue_ready_def queues_of_delete)
    qed
  next
    case (Delete i)
    have found: "get_queued q i \<noteq> None \<longleftrightarrow> (\<exists>s. i \<in> qm_id ` set (queues_of q s))"
      by (auto simp: get_queued_def get_row_None_iff queues_of_def image_iff
            simp del: not_None_eq)
    have del: "queues_of (delete_rows (\<lambda>r. qm_id r = i) q) =
        (\<lambda>s. filter (\<lambda>m. qm_id m \<noteq> i) (queues_of q s))"
      by (simp add: queues_of_def delete_rows_def conj_commute fun_eq_iff)
    have same: "queues_of q = (\<lambda>s. filter (\<lambda>m. qm_id m \<noteq> i) (queues_of q s))"
      if "get_queued q i = None"
    proof
      fix s
      have "\<forall>m \<in> set (queues_of q s). qm_id m \<noteq> i" using that found by force
      then show "queues_of q s = filter (\<lambda>m. qm_id m \<noteq> i) (queues_of q s)"
        by (simp add: filter_id_conv)
    qed
    show ?thesis
    proof (cases "get_queued q i")
      case None
      then show ?thesis
        using Delete ready found same by (simp add: delete_queued_def queue_ready_def)
    next
      case (Some r)
      then show ?thesis
        using Delete ready found del ready_delete [of q "new_ids ops" "map iso_now (times ops)"]
        by (simp add: delete_queued_def queue_ready_def)
    qed
  next
    case (Delete_All s)
    have "queues_of (delete_rows (\<lambda>r. qm_session r = s) q) = (queues_of q)(s := [])"
      by (auto simp: queues_of_def delete_rows_def fun_eq_iff filter_empty_conv intro!: filter_cong)
    with Delete_All ready show ?thesis
      using ready_delete [of q "new_ids ops" "map iso_now (times ops)"]
      by (simp add: delete_all_queued_def queue_ready_def)
  next
    case (List_Items s)
    with ready show ?thesis
      by (simp add: queue_ready_def list_queue_sorted sorted_append)
  qed
qed

text \<open>C14: Requests made of an empty queue table, with ids that are not reused and a clock that
  does not run backwards, never fail and are answered exactly as one first-in-first-out list
  per session would answer them: \<open>dequeue\<close> hands out the oldest message of its session and
  removes it, and no request touches another session's messages.\<close>

theorem queue_is_fifo:
  assumes "distinct (new_ids ops)" and "sorted (times ops)"
  shows "\<exists>rs q. run_all queue_serve ops [] = Some (rs, q) \<and>
    run_abstract fifo_step ops (\<lambda>s. []) = (rs, queues_of q) \<and> (\<forall>s. list_queue q s = queues_of q s)"
proof -
  have "sorted (map iso_now (times ops))"
    using assms(2) by (simp add: sorted_map iso_now_def iso_stamp_le)
  then have "queue_ready ops []" using assms(1) by (simp add: queue_ready_def)
  from fifo.run_refines [OF this] obtain rs q where
    "run_all queue_serve ops [] = Some (rs, q)" "queue_ready [] q"
    "run_abstract fifo_step ops (queues_of []) = (rs, queues_of q)" by blast
  moreover have "queues_of [] = (\<lambda>s. [])" by (simp add: queues_of_def fun_eq_iff)
  ultimately show ?thesis by (auto simp: queue_ready_def intro: list_queue_sorted)
qed

theorem queue_is_fifo_witness:
  "let ops = [Enqueue ''a'' ''s'' ''one'' 1, Enqueue ''b'' ''s'' ''two'' 1,
              Enqueue ''c'' ''z'' ''other'' 2, Dequeue ''s'', Dequeue ''z'']
   in \<exists>rs q. run_all queue_serve ops [] = Some (rs, q) \<and>
      run_abstract fifo_step ops (\<lambda>s. []) = (rs, queues_of q) \<and> (\<forall>s. list_queue q s = queues_of q s)"
  unfolding Let_def by (rule queue_is_fifo) simp_all

end
