(* ===== verification/Agent_Runtime.thy ===== *)
theory Agent_Runtime
  imports Session_Store Cron Schedule_Store Queue_Store
begin

text \<open>
  The scheduling and prompt handling of
  \<open>packages/runtime/agent-runtime/src/agent-runtime.ts\<close>: timers, schedules, the alarm
  handler, and how a prompt is logged, queued or run. The state is a record of the stores
  the class owns with its maps of callbacks and timer owners, the wake time it has asked
  for, and the clock. What is not this class's code is a field of \<open>env\<close>: hooks, callbacks
  and the agent's turn are functions that return a result (\<open>Inl\<close> a thrown error) with the
  state they leave behind, which may differ in any part, the clock included. Broadcasts and
  log messages are not modelled.
\<close>

section \<open>State and environment\<close>

datatype runtime_error =
    Bad_Cron cron_error
  | No_Fire_Time
  | No_Timer_Callback id
  | No_Callback id
  | Thrown string
  | Store_Failure store_error
  | Duplicate_Id id

record 'cb runtime =
  rt_schedules :: "schedule list"
  rt_callbacks :: "(id \<times> 'cb) list"
  rt_timer_owners :: "id \<rightharpoonup> id"
  rt_store :: store
  rt_queue :: "queued_message list"
  rt_wake :: "int option"
  rt_now :: int

record hook_result =
  hr_skip :: bool
  hr_prompt :: "string option"

text \<open>
  \<open>env_zone\<close> is the wall clock of a time zone (\<open>None\<close> is the default zone). \<open>env_alarm\<close> and
  \<open>env_bundle\<close> are \<open>None\<close> when no bundle is installed. \<open>env_turn\<close> is \<open>ensureAgent\<close> with the
  agent's turn (\<open>agent.prompt\<close>, whose errors are reported to the client), and \<open>env_steer\<close> is
  \<open>agent.steer\<close>. \<open>env_message\<close> is the text of the errors whose text is not written here.
\<close>

record 'cb env =
  env_zone :: "string option \<Rightarrow> int \<Rightarrow> date_fields"
  env_new_id :: "'cb runtime \<Rightarrow> id"
  env_on_fire :: "schedule \<Rightarrow> 'cb runtime \<Rightarrow> (string + hook_result option) \<times> 'cb runtime"
  env_alarm :: "(schedule \<Rightarrow> 'cb runtime \<Rightarrow> (string + hook_result option) \<times> 'cb runtime) option"
  env_callback :: "'cb \<Rightarrow> schedule \<Rightarrow> 'cb runtime \<Rightarrow> (string + unit) \<times> 'cb runtime"
  env_capabilities :: "(id \<times> 'cb) list"
  env_bundle :: "(id \<Rightarrow> string \<Rightarrow> 'cb runtime \<Rightarrow> (string + bool) \<times> 'cb runtime) option"
  env_streaming :: "'cb runtime \<Rightarrow> id \<Rightarrow> bool"
  env_turn :: "id \<Rightarrow> string \<Rightarrow> 'cb runtime \<Rightarrow> (string + unit) \<times> 'cb runtime"
  env_steer :: "id \<Rightarrow> string \<Rightarrow> 'cb runtime \<Rightarrow> 'cb runtime"
  env_time_text :: "int \<Rightarrow> string"
  env_message :: "runtime_error \<Rightarrow> string"

text \<open>\<open>err.message\<close>. \<open>put\<close> and \<open>drop_key\<close> are \<open>Map.set\<close> and \<open>Map.delete\<close>.\<close>

definition error_text :: "(runtime_error \<Rightarrow> string) \<Rightarrow> runtime_error \<Rightarrow> string" where
  "error_text other e =
     (case e of
        Thrown m \<Rightarrow> m
      | No_Callback i \<Rightarrow> ''No callback registered for schedule '' @ [CHR 0x22] @ i @ [CHR 0x22]
      | _ \<Rightarrow> other e)"

definition drop_key :: "id \<Rightarrow> (id \<times> 'v) list \<Rightarrow> (id \<times> 'v) list" where
  "drop_key i m = filter (\<lambda>(k, _). k \<noteq> i) m"

definition put_key :: "id \<Rightarrow> 'v \<Rightarrow> (id \<times> 'v) list \<Rightarrow> (id \<times> 'v) list" where
  "put_key i v m = (i, v) # drop_key i m"

lemma map_of_drop_key [simp]: "map_of (drop_key i m) = (map_of m)(i := None)"
  by (induction m) (auto simp: drop_key_def fun_eq_iff)

lemma map_of_put_key [simp]: "map_of (put_key i v m) = (map_of m)(i \<mapsto> v)"
  by (simp add: put_key_def)

type_synonym ('a, 'cb) outcome = "(runtime_error + 'a) \<times> 'cb runtime"

section \<open>Alarm and timers\<close>

definition refresh_alarm :: "'cb runtime \<Rightarrow> 'cb runtime" where
  "refresh_alarm rt = rt\<lparr>rt_wake := get_earliest_fire_time (rt_schedules rt)\<rparr>"

definition next_fire :: "'cb env \<Rightarrow> string \<Rightarrow> int \<Rightarrow> string option \<Rightarrow> runtime_error + int" where
  "next_fire E cron from_ms tz =
     (case next_fire_time (env_zone E tz) cron from_ms of
        Inl e \<Rightarrow> Inl (Bad_Cron e)
      | Inr None \<Rightarrow> Inl No_Fire_Time
      | Inr (Some t) \<Rightarrow> Inr t)"

definition timer_dummy_cron :: string where "timer_dummy_cron = ''0 0 1 1 *''"

definition set_timer ::
  "'cb env \<Rightarrow> 'cb runtime \<Rightarrow> id \<Rightarrow> int \<Rightarrow> 'cb option \<Rightarrow> (unit, 'cb) outcome" where
  "set_timer E rt i delay_seconds cb =
     (let known = map_of (rt_callbacks rt) i;
          rt1 = (case get_schedule (rt_schedules rt) i of
                   None \<Rightarrow> rt
                 | Some _ \<Rightarrow> rt\<lparr>rt_schedules := delete_schedule_row (rt_schedules rt) i\<rparr>)
      in case (case cb of None \<Rightarrow> known | Some c \<Rightarrow> Some c) of
           None \<Rightarrow> (Inl (No_Timer_Callback i), rt1)
         | Some c \<Rightarrow>
             (case insert_schedule (rt_schedules rt1)
                     \<lparr>cfg_id = Some i, cfg_name = i, cfg_cron = timer_dummy_cron,
                      cfg_enabled = None, cfg_handler = Timer_Handler, cfg_prompt = None,
                      cfg_prefix = None, cfg_owner = rt_timer_owners rt i, cfg_timezone = None,
                      cfg_expires = None,
                      cfg_next_fire = Some (iso_now (rt_now rt + delay_seconds * 1000)),
                      cfg_retention = None\<rparr> (env_new_id E rt1) (rt_now rt) of
                None \<Rightarrow> (Inl (Duplicate_Id i), rt1)
              | Some (_, t) \<Rightarrow>
                  (Inr (), refresh_alarm
                     (rt1\<lparr>rt_schedules := t, rt_callbacks := put_key i c (rt_callbacks rt1)\<rparr>))))"

definition cancel_timer :: "'cb runtime \<Rightarrow> id \<Rightarrow> 'cb runtime" where
  "cancel_timer rt i =
     (let rt1 = (case get_schedule (rt_schedules rt) i of
                   None \<Rightarrow> rt
                 | Some s \<Rightarrow> if sch_handler s = Timer_Handler
                            then rt\<lparr>rt_schedules := delete_schedule_row (rt_schedules rt) i\<rparr>
                            else rt)
      in refresh_alarm (rt1\<lparr>rt_callbacks := drop_key i (rt_callbacks rt1)\<rparr>))"

section \<open>Managing schedules\<close>

text \<open>\<open>config.maxDuration ? expiresAtFromDuration(..) : undefined\<close>.\<close>

definition expiry :: "string option \<Rightarrow> int \<Rightarrow> runtime_error + stamp option" where
  "expiry max_duration now =
     (if truthy max_duration
      then (case expires_at_from_duration (the max_duration) now of
              Inl e \<Rightarrow> Inl (Bad_Cron e) | Inr t \<Rightarrow> Inr (Some (iso_now t)))
      else Inr None)"

text \<open>
  The part that \<open>createSchedule\<close> and \<open>syncCapabilitySchedules\<close> share: compute the next fire
  time, then the expiry, then insert the row. The configuration comes with no expiry and
  no fire time.
\<close>

definition insert_planned ::
  "'cb env \<Rightarrow> 'cb runtime \<Rightarrow> schedule_config \<Rightarrow> string option \<Rightarrow> (schedule, 'cb) outcome" where
  "insert_planned E rt c max_duration =
     (case next_fire E (cfg_cron c) (rt_now rt) (cfg_timezone c) of
        Inl e \<Rightarrow> (Inl e, rt)
      | Inr t \<Rightarrow>
          (case expiry max_duration (rt_now rt) of
             Inl e \<Rightarrow> (Inl e, rt)
           | Inr ex \<Rightarrow>
               (case insert_schedule (rt_schedules rt)
                       (c\<lparr>cfg_expires := ex, cfg_next_fire := Some (iso_now t)\<rparr>)
                       (env_new_id E rt) (rt_now rt) of
                  None \<Rightarrow> (Inl (Duplicate_Id (or_else (cfg_id c) (env_new_id E rt))), rt)
                | Some (s, rows) \<Rightarrow> (Inr s, rt\<lparr>rt_schedules := rows\<rparr>))))"

record prompt_config =
  pc_id :: id
  pc_name :: string
  pc_cron :: string
  pc_enabled :: "bool option"
  pc_timezone :: "string option"
  pc_max_duration :: "string option"
  pc_prompt :: string
  pc_prefix :: "string option"
  pc_retention :: "int option"

definition prompt_row :: "prompt_config \<Rightarrow> schedule_config" where
  "prompt_row c =
     \<lparr>cfg_id = Some (pc_id c), cfg_name = pc_name c, cfg_cron = pc_cron c,
      cfg_enabled = pc_enabled c, cfg_handler = Prompt_Handler, cfg_prompt = Some (pc_prompt c),
      cfg_prefix = pc_prefix c, cfg_owner = None, cfg_timezone = pc_timezone c,
      cfg_expires = None, cfg_next_fire = None, cfg_retention = pc_retention c\<rparr>"

definition create_schedule ::
  "'cb env \<Rightarrow> 'cb runtime \<Rightarrow> prompt_config \<Rightarrow> (schedule, 'cb) outcome" where
  "create_schedule E rt c =
     (case insert_planned E rt (prompt_row c) (pc_max_duration c) of
        (Inl e, rt1) \<Rightarrow> (Inl e, rt1)
      | (Inr s, rt1) \<Rightarrow> (Inr s, refresh_alarm rt1))"

definition owned :: "'cb runtime \<Rightarrow> id \<Rightarrow> bool" where
  "owned rt i =
     (case get_schedule (rt_schedules rt) i of None \<Rightarrow> False | Some s \<Rightarrow> sch_owner s \<noteq> None)"

text \<open>The update carries no fire time of its own; \<open>Inr None\<close> stands for the null result.\<close>

definition update_schedule ::
  "'cb env \<Rightarrow> 'cb runtime \<Rightarrow> id \<Rightarrow> schedule_update \<Rightarrow> (schedule option, 'cb) outcome" where
  "update_schedule E rt i u =
     (if owned rt i then (Inr None, rt)
      else
        let existing = get_schedule (rt_schedules rt) i;
            planned =
              (if truthy (upd_cron u) \<or> upd_timezone u \<noteq> None
               then
                 let cron = or_else (upd_cron u) (case existing of
                              None \<Rightarrow> ''* * * * *'' | Some s \<Rightarrow> sch_cron s);
                     tz = or_else (upd_timezone u) (Option.bind existing sch_timezone)
                 in map_sum id Some (next_fire E cron (rt_now rt) tz)
               else Inr None)
        in case planned of
             Inl e \<Rightarrow> (Inl e, rt)
           | Inr fire \<Rightarrow>
               (let u' = (case fire of None \<Rightarrow> u
                          | Some t \<Rightarrow> u\<lparr>upd_next_fire := Some (Some (iso_now t))\<rparr>);
                    (result, rows) = update_schedule_row (rt_schedules rt) i u' (rt_now rt);
                    rt1 = rt\<lparr>rt_schedules := rows\<rparr>
                in (Inr result, if result \<noteq> None then refresh_alarm rt1 else rt1)))"

definition delete_schedule :: "'cb runtime \<Rightarrow> id \<Rightarrow> 'cb runtime" where
  "delete_schedule rt i =
     (if owned rt i then rt
      else refresh_alarm (rt\<lparr>rt_schedules := delete_schedule_row (rt_schedules rt) i,
                            rt_callbacks := drop_key i (rt_callbacks rt)\<rparr>))"

definition list_schedules :: "'cb runtime \<Rightarrow> schedule list" where
  "list_schedules rt = filter (\<lambda>s. sch_owner s = None) (list_schedule_rows (rt_schedules rt))"

definition manager_get :: "'cb runtime \<Rightarrow> id \<Rightarrow> schedule option" where
  "manager_get rt i =
     (case get_schedule (rt_schedules rt) i of
        None \<Rightarrow> None | Some s \<Rightarrow> if sch_owner s \<noteq> None then None else Some s)"


section \<open>Capability schedules\<close>

record callback_config =
  cc_id :: id
  cc_name :: string
  cc_cron :: string
  cc_enabled :: "bool option"
  cc_timezone :: "string option"
  cc_max_duration :: "string option"
  cc_retention :: "int option"

datatype 'cb schedule_decl =
    Prompt_Decl prompt_config
  | Callback_Decl callback_config 'cb
  | Timer_Decl id 'cb

definition callback_row :: "callback_config \<Rightarrow> schedule_config" where
  "callback_row c =
     \<lparr>cfg_id = Some (cc_id c), cfg_name = cc_name c, cfg_cron = cc_cron c,
      cfg_enabled = Some (or_else (cc_enabled c) True), cfg_handler = Callback_Handler,
      cfg_prompt = None, cfg_prefix = None, cfg_owner = None, cfg_timezone = cc_timezone c,
      cfg_expires = None, cfg_next_fire = None, cfg_retention = cc_retention c\<rparr>"

definition sync_row ::
  "'cb env \<Rightarrow> 'cb runtime \<Rightarrow> schedule_config \<Rightarrow> string option \<Rightarrow> id \<Rightarrow> (unit, 'cb) outcome" where
  "sync_row E rt c max_duration owner =
     (case get_schedule (rt_schedules rt) (the (cfg_id c)) of
        Some s \<Rightarrow>
          if sch_cron s \<noteq> cfg_cron c \<or> sch_timezone s \<noteq> cfg_timezone c
          then (case next_fire E (cfg_cron c) (rt_now rt) (cfg_timezone c) of
                  Inl e \<Rightarrow> (Inl e, rt)
                | Inr t \<Rightarrow>
                    (Inr (), rt\<lparr>rt_schedules := snd (update_schedule_row (rt_schedules rt)
                       (the (cfg_id c))
                       (no_update\<lparr>upd_cron := Some (cfg_cron c),
                          upd_timezone := Some (cfg_timezone c),
                          upd_next_fire := Some (Some (iso_now t))\<rparr>) (rt_now rt))\<rparr>))
          else (Inr (), rt)
      | None \<Rightarrow>
          (case insert_planned E rt (c\<lparr>cfg_owner := Some owner\<rparr>) max_duration of
             (Inl e, rt1) \<Rightarrow> (Inl e, rt1)
           | (Inr _, rt1) \<Rightarrow> (Inr (), rt1)))"

definition sync_one ::
  "'cb env \<Rightarrow> 'cb runtime \<Rightarrow> 'cb schedule_decl \<Rightarrow> id \<Rightarrow> (unit, 'cb) outcome" where
  "sync_one E rt d owner =
     (case d of
        Prompt_Decl c \<Rightarrow>
          sync_row E rt ((prompt_row c)\<lparr>cfg_enabled := Some (or_else (pc_enabled c) True)\<rparr>)
            (pc_max_duration c) owner
      | Callback_Decl c cb \<Rightarrow>
          sync_row E (rt\<lparr>rt_callbacks := put_key (cc_id c) cb (rt_callbacks rt)\<rparr>)
            (callback_row c) (cc_max_duration c) owner
      | Timer_Decl i cb \<Rightarrow>
          (Inr (), rt\<lparr>rt_callbacks := put_key i cb (rt_callbacks rt),
                     rt_timer_owners := (rt_timer_owners rt)(i \<mapsto> owner)\<rparr>))"

primrec sync_loop ::
  "'cb env \<Rightarrow> ('cb schedule_decl \<times> id) list \<Rightarrow> 'cb runtime \<Rightarrow> (unit, 'cb) outcome" where
  "sync_loop E [] rt = (Inr (), rt)"
| "sync_loop E (d # ds) rt =
     (case sync_one E rt (fst d) (snd d) of
        (Inl e, rt1) \<Rightarrow> (Inl e, rt1)
      | (Inr _, rt1) \<Rightarrow> sync_loop E ds rt1)"

definition sync_capability_schedules ::
  "'cb env \<Rightarrow> 'cb runtime \<Rightarrow> ('cb schedule_decl \<times> id) list \<Rightarrow> (unit, 'cb) outcome" where
  "sync_capability_schedules E rt ds =
     (case sync_loop E ds rt of
        (Inl e, rt1) \<Rightarrow> (Inl e, rt1)
      | (Inr _, rt1) \<Rightarrow> (Inr (), refresh_alarm rt1))"

section \<open>Prompts and the message queue\<close>

definition max_session_name_length :: nat where "max_session_name_length = 50"

definition prompt_message :: "string \<Rightarrow> int \<Rightarrow> entry_data" where
  "prompt_message text now =
     Message \<lparr>md_role = User, md_content = JStr text, md_tool_call_id = None,
       md_tool_name = None, md_is_error = None, md_timestamp = Some now, md_metadata = None\<rparr>"

definition name_session :: "'cb runtime \<Rightarrow> id \<Rightarrow> string \<Rightarrow> 'cb runtime" where
  "name_session rt s text =
     (case get_session (rt_store rt) s of
        None \<Rightarrow> rt
      | Some ses \<Rightarrow>
          if sname ses = []
          then rt\<lparr>rt_store := rename_session (rt_store rt) s
                 (if max_session_name_length < length text
                  then take max_session_name_length text @ ''...'' else text) (rt_now rt)\<rparr>
          else rt)"

definition log_prompt :: "'cb env \<Rightarrow> 'cb runtime \<Rightarrow> id \<Rightarrow> string \<Rightarrow> (unit, 'cb) outcome" where
  "log_prompt E rt s text =
     (case append_entry (rt_store rt) s (prompt_message text (rt_now rt)) (env_new_id E rt)
             (rt_now rt) of
        (Inl e, d) \<Rightarrow> (Inl (Store_Failure e), rt\<lparr>rt_store := d\<rparr>)
      | (Inr _, d) \<Rightarrow> (Inr (), rt\<lparr>rt_store := d\<rparr>))"

definition enqueue_text :: "'cb env \<Rightarrow> 'cb runtime \<Rightarrow> id \<Rightarrow> string \<Rightarrow> (unit, 'cb) outcome" where
  "enqueue_text E rt s text =
     (case enqueue (rt_queue rt) (env_new_id E rt) s text (rt_now rt) of
        None \<Rightarrow> (Inl (Duplicate_Id (env_new_id E rt)), rt)
      | Some (_, q) \<Rightarrow> (Inr (), rt\<lparr>rt_queue := q\<rparr>))"

definition thrown :: "(string + 'a) \<times> 'cb runtime \<Rightarrow> ('a, 'cb) outcome" where
  "thrown r = (map_sum Thrown id (fst r), snd r)"

definition run_static :: "'cb env \<Rightarrow> 'cb runtime \<Rightarrow> id \<Rightarrow> string \<Rightarrow> (unit, 'cb) outcome" where
  "run_static E rt s text =
     (if env_streaming E rt s then enqueue_text E rt s text else thrown (env_turn E s text rt))"

definition handle_prompt :: "'cb env \<Rightarrow> 'cb runtime \<Rightarrow> id \<Rightarrow> string \<Rightarrow> (unit, 'cb) outcome" where
  "handle_prompt E rt s text =
     (case log_prompt E (name_session rt s text) s text of
        (Inl e, rt1) \<Rightarrow> (Inl e, rt1)
      | (Inr _, rt1) \<Rightarrow>
          (case env_bundle E of
             None \<Rightarrow> run_static E rt1 s text
           | Some f \<Rightarrow>
               (case f s text rt1 of
                  (Inr True, rt2) \<Rightarrow> (Inr (), rt2)
                | (_, rt2) \<Rightarrow> run_static E rt2 s text)))"

definition handle_steer :: "'cb env \<Rightarrow> 'cb runtime \<Rightarrow> id \<Rightarrow> string \<Rightarrow> (unit, 'cb) outcome" where
  "handle_steer E rt s text =
     (case log_prompt E rt s text of
        (Inl e, rt1) \<Rightarrow> (Inl e, rt1)
      | (Inr _, rt1) \<Rightarrow>
          (Inr (), if env_streaming E rt1 s then env_steer E s text rt1 else rt1))"

definition process_queue :: "'cb env \<Rightarrow> 'cb runtime \<Rightarrow> id \<Rightarrow> (unit, 'cb) outcome" where
  "process_queue E rt s =
     (case dequeue (rt_queue rt) s of
        (None, _) \<Rightarrow> (Inr (), rt)
      | (Some m, q) \<Rightarrow> handle_prompt E (rt\<lparr>rt_queue := q\<rparr>) s (qm_text m))"

text \<open>The queue actions of \<open>capability_action\<close>.\<close>

datatype queue_action = Queue_Message string | Queue_Delete id | Queue_Steer id

definition handle_queue_action ::
  "'cb env \<Rightarrow> 'cb runtime \<Rightarrow> id \<Rightarrow> queue_action \<Rightarrow> (unit, 'cb) outcome" where
  "handle_queue_action E rt s a =
     (case a of
        Queue_Message text \<Rightarrow>
          if \<not> env_streaming E rt s then handle_prompt E rt s text else enqueue_text E rt s text
      | Queue_Delete i \<Rightarrow> (Inr (), rt\<lparr>rt_queue := snd (delete_queued (rt_queue rt) i)\<rparr>)
      | Queue_Steer i \<Rightarrow>
          (case get_queued (rt_queue rt) i of
             None \<Rightarrow> (Inr (), rt)
           | Some m \<Rightarrow>
               handle_steer E (rt\<lparr>rt_queue := snd (delete_queued (rt_queue rt) i)\<rparr>) s (qm_text m)))"

section \<open>The alarm handler\<close>

definition ensure_callbacks :: "'cb env \<Rightarrow> 'cb runtime \<Rightarrow> 'cb runtime" where
  "ensure_callbacks E rt =
     (if length (rt_callbacks rt) > 0 then rt
      else rt\<lparr>rt_callbacks := fold (\<lambda>(i, cb). put_key i cb) (env_capabilities E) (rt_callbacks rt)\<rparr>)"

definition execute_callback :: "'cb env \<Rightarrow> 'cb runtime \<Rightarrow> schedule \<Rightarrow> (unit, 'cb) outcome" where
  "execute_callback E rt s =
     (let rt1 = ensure_callbacks E rt
      in case map_of (rt_callbacks rt1) (sch_id s) of
           None \<Rightarrow> (Inl (No_Callback (sch_id s)), rt1)
         | Some cb \<Rightarrow> thrown (env_callback E cb s rt1))"

definition schedule_sessions :: "store \<Rightarrow> schedule \<Rightarrow> session list" where
  "schedule_sessions d s =
     filter (\<lambda>r. ssource r = ''scheduled'' \<and>
         starts_with (sname r) (or_else (sch_prefix s) (sch_name s)))
       (list_sessions d)"

definition cleanup_schedule_sessions :: "store \<Rightarrow> schedule \<Rightarrow> store" where
  "cleanup_schedule_sessions d s =
     (let found = schedule_sessions d s
      in if int (length found) > sch_retention s
         then fold (\<lambda>r d. delete_session d (sid r))
                (take (nat (int (length found) - sch_retention s)) found) d
         else d)"

definition execute_prompt ::
  "'cb env \<Rightarrow> 'cb runtime \<Rightarrow> schedule \<Rightarrow> string \<Rightarrow> (unit, 'cb) outcome" where
  "execute_prompt E rt s prompt =
     (let name = or_else (sch_prefix s) (sch_name s) @ '' '' @ env_time_text E (rt_now rt)
      in case create_session (rt_store rt) (env_new_id E rt) (rt_now rt) (Some name)
                (Some ''scheduled'') None of
           (Inl e, d) \<Rightarrow> (Inl (Store_Failure e), rt\<lparr>rt_store := d\<rparr>)
         | (Inr ses, d) \<Rightarrow>
             (case handle_prompt E (rt\<lparr>rt_store := d\<rparr>) (sid ses) prompt of
                (Inl e, rt1) \<Rightarrow> (Inl e, rt1)
              | (Inr _, rt1) \<Rightarrow>
                  (Inr (), rt1\<lparr>rt_store := cleanup_schedule_sessions (rt_store rt1) s\<rparr>)))"

definition forget :: "id \<Rightarrow> 'cb runtime \<Rightarrow> 'cb runtime" where
  "forget i rt = rt\<lparr>rt_schedules := delete_schedule_row (rt_schedules rt) i,
                   rt_callbacks := drop_key i (rt_callbacks rt)\<rparr>"

definition set_running :: "id \<Rightarrow> 'cb runtime \<Rightarrow> 'cb runtime" where
  "set_running i rt = rt\<lparr>rt_schedules := mark_running (rt_schedules rt) i (rt_now rt)\<rparr>"

definition failed :: "'cb env \<Rightarrow> id \<Rightarrow> runtime_error \<Rightarrow> 'cb runtime \<Rightarrow> 'cb runtime" where
  "failed E i e rt =
     rt\<lparr>rt_schedules := mark_failed (rt_schedules rt) i (error_text (env_message E) e) (rt_now rt)\<rparr>"

definition expired :: "int \<Rightarrow> schedule \<Rightarrow> bool" where
  "expired now s = (case sch_expires s of None \<Rightarrow> False | Some e \<Rightarrow> stamp_ms e \<le> now)"

definition fire_timer :: "'cb env \<Rightarrow> schedule \<Rightarrow> 'cb runtime \<Rightarrow> 'cb runtime" where
  "fire_timer E s rt =
     (case execute_callback E (set_running (sch_id s) rt) s of
        (Inr _, rt1) \<Rightarrow> forget (sch_id s) rt1
      | (Inl e, rt1) \<Rightarrow> failed E (sch_id s) e rt1)"

definition plan_next :: "id \<Rightarrow> int \<Rightarrow> 'cb runtime \<Rightarrow> 'cb runtime" where
  "plan_next i t rt =
     rt\<lparr>rt_schedules := snd (update_schedule_row (rt_schedules rt) i
          (no_update\<lparr>upd_next_fire := Some (Some (iso_now t))\<rparr>) (rt_now rt))\<rparr>"

text \<open>Both hooks run; the result of the bundle's hook counts as absent when it throws.\<close>

definition ask_hooks ::
  "'cb env \<Rightarrow> schedule \<Rightarrow> 'cb runtime \<Rightarrow> (bool \<times> string option, 'cb) outcome" where
  "ask_hooks E s rt =
     (case env_on_fire E s rt of
        (Inl m, rt1) \<Rightarrow> (Inl (Thrown m), rt1)
      | (Inr static, rt1) \<Rightarrow>
          (let (bundle, rt2) =
             (case env_alarm E of
                None \<Rightarrow> (None, rt1)
              | Some f \<Rightarrow> (case f s rt1 of (Inl _, rt2) \<Rightarrow> (None, rt2) | (Inr b, rt2) \<Rightarrow> (b, rt2)));
               skips = (\<lambda>h. case h of None \<Rightarrow> False | Some x \<Rightarrow> hr_skip x);
               prompt_of = (\<lambda>h. Option.bind h hr_prompt)
           in (Inr (skips static \<or> skips bundle,
                    case prompt_of bundle of None \<Rightarrow> prompt_of static | Some p \<Rightarrow> Some p), rt2)))"

definition run_schedule :: "'cb env \<Rightarrow> schedule \<Rightarrow> string option \<Rightarrow> 'cb runtime \<Rightarrow> 'cb runtime" where
  "run_schedule E s override rt =
     (let rt1 = set_running (sch_id s) rt;
          prompt = (case override of None \<Rightarrow> sch_prompt s | Some p \<Rightarrow> Some p);
          outcome =
            (if sch_handler s = Prompt_Handler
             then if truthy prompt then execute_prompt E rt1 s (the prompt) else (Inr (), rt1)
             else execute_callback E rt1 s)
      in case outcome of
           (Inr _, rt2) \<Rightarrow>
             rt2\<lparr>rt_schedules := mark_idle (rt_schedules rt2) (sch_id s) (rt_now rt2)\<rparr>
         | (Inl e, rt2) \<Rightarrow> failed E (sch_id s) e rt2)"

definition fire_one :: "'cb env \<Rightarrow> int \<Rightarrow> schedule \<Rightarrow> 'cb runtime \<Rightarrow> (unit, 'cb) outcome" where
  "fire_one E now s rt =
     (if expired now s then (Inr (), forget (sch_id s) rt)
      else if sch_handler s = Timer_Handler then (Inr (), fire_timer E s rt)
      else
        (case next_fire E (sch_cron s) now (sch_timezone s) of
           Inl e \<Rightarrow> (Inl e, rt)
         | Inr t \<Rightarrow>
             (case ask_hooks E s (plan_next (sch_id s) t rt) of
                (Inl e, rt1) \<Rightarrow> (Inl e, rt1)
              | (Inr (skip, override), rt1) \<Rightarrow>
                  (Inr (), if skip then rt1 else run_schedule E s override rt1))))"

primrec fire_loop :: "'cb env \<Rightarrow> int \<Rightarrow> schedule list \<Rightarrow> 'cb runtime \<Rightarrow> (unit, 'cb) outcome" where
  "fire_loop E now [] rt = (Inr (), rt)"
| "fire_loop E now (s # ss) rt =
     (case fire_one E now s rt of
        (Inl e, rt1) \<Rightarrow> (Inl e, rt1)
      | (Inr _, rt1) \<Rightarrow> fire_loop E now ss rt1)"

definition handle_alarm_fired :: "'cb env \<Rightarrow> 'cb runtime \<Rightarrow> (unit, 'cb) outcome" where
  "handle_alarm_fired E rt =
     (let now = rt_now rt
      in case fire_loop E now (get_due_schedules (rt_schedules rt) now) rt of
           (Inl e, rt1) \<Rightarrow> (Inl e, rt1)
         | (Inr _, rt1) \<Rightarrow> (Inr (), refresh_alarm rt1))"

section \<open>Environments that leave the schedule table alone\<close>

text \<open>
  Hooks, callbacks and turns may do anything to the state. A quiet environment does not
  touch the table of schedules. The clocks of a sane environment show hours below 24 and
  minutes below 60.
\<close>

definition quiet :: "'cb env \<Rightarrow> bool" where
  "quiet E \<longleftrightarrow>
     (\<forall>s rt. rt_schedules (snd (env_on_fire E s rt)) = rt_schedules rt) \<and>
     (\<forall>f s rt. env_alarm E = Some f \<longrightarrow> rt_schedules (snd (f s rt)) = rt_schedules rt) \<and>
     (\<forall>cb s rt. rt_schedules (snd (env_callback E cb s rt)) = rt_schedules rt) \<and>
     (\<forall>f i p rt. env_bundle E = Some f \<longrightarrow> rt_schedules (snd (f i p rt)) = rt_schedules rt) \<and>
     (\<forall>i p rt. rt_schedules (snd (env_turn E i p rt)) = rt_schedules rt) \<and>
     (\<forall>i p rt. rt_schedules (env_steer E i p rt) = rt_schedules rt)"

definition sane_clocks :: "'cb env \<Rightarrow> bool" where
  "sane_clocks E \<longleftrightarrow> (\<forall>tz ms. f_hour (env_zone E tz ms) \<le> 23 \<and> f_minute (env_zone E tz ms) \<le> 59)"

lemma search_loop_later:
  assumes "\<And>ms. f_hour (clock ms) \<le> 23 \<and> f_minute (clock ms) \<le> 59"
  shows "search_loop clock c n d = Some e \<Longrightarrow> d \<le> e"
proof (induction n arbitrary: d)
  case 0
  then show ?case by (subst (asm) search_loop.simps) simp
next
  case (Suc n)
  have later: "d \<le> e" if "search_loop clock c n (add_minutes d k) = Some e" "0 \<le> k" for k
    using Suc.IH [OF that(1)] that(2) by (simp add: add_minutes_def)
  have "0 \<le> to_next_day (clock d)" "0 \<le> 60 - f_minute (clock d)"
    using assms [of d] by (auto simp: to_next_day_def)
  then show ?case
    using Suc.prems by (subst (asm) search_loop.simps)
      (auto simp: Let_def split: if_splits intro: later)
qed

lemma next_fire_later:
  assumes "sane_clocks E" "next_fire E cron from_ms tz = Inr t"
  shows "from_ms < t"
proof -
  obtain c where "compute_next (env_zone E tz) c from_ms = Some t"
    using assms(2) by (auto simp: next_fire_def next_fire_time_def split: sum.splits option.splits)
  then have "first_candidate from_ms \<le> t"
    unfolding compute_next_def using assms(1)
    by (intro search_loop_later) (auto simp: sane_clocks_def)
  then show ?thesis using first_candidate_bounds [of from_ms] by linarith
qed

lemma schedules_simps [simp]:
  "rt_schedules (ensure_callbacks E rt) = rt_schedules rt"
  "rt_schedules (refresh_alarm rt) = rt_schedules rt"
  "rt_schedules (name_session rt s p) = rt_schedules rt"
  "rt_schedules (snd (log_prompt E rt s p)) = rt_schedules rt"
  "rt_schedules (snd (enqueue_text E rt s p)) = rt_schedules rt"
  by (auto simp: ensure_callbacks_def refresh_alarm_def name_session_def log_prompt_def
      enqueue_text_def split: option.splits prod.splits sum.splits)

lemma snd_thrown [simp]: "snd (thrown r) = snd r"
  by (simp add: thrown_def)

lemma quiet_run_static: "quiet E \<Longrightarrow> rt_schedules (snd (run_static E rt s p)) = rt_schedules rt"
  by (simp add: run_static_def quiet_def)

lemma quiet_handle_prompt:
  assumes "quiet E"
  shows "rt_schedules (snd (handle_prompt E rt s p)) = rt_schedules rt"
proof -
  have via_bundle: "rt_schedules (snd (case f s p rt1 of (Inr True, rt2) \<Rightarrow> (Inr (), rt2)
      | (_, rt2) \<Rightarrow> run_static E rt2 s p)) = rt_schedules rt1" if "env_bundle E = Some f" for f rt1
  proof -
    have "rt_schedules (snd (f s p rt1)) = rt_schedules rt1"
      using assms that by (simp add: quiet_def)
    then show ?thesis
      using quiet_run_static [OF assms]
      by (auto split: prod.splits sum.splits bool.splits)
  qed
  obtain r rt1 where l: "log_prompt E (name_session rt s p) s p = (r, rt1)" by force
  then have "rt_schedules rt1 = rt_schedules rt"
    using schedules_simps(4) [of E "name_session rt s p" s p] by simp
  then show ?thesis
    using l via_bundle quiet_run_static [OF assms, of rt1 s p]
    by (auto simp: handle_prompt_def split: sum.splits option.splits)
qed

lemma quiet_execute_callback:
  "quiet E \<Longrightarrow> rt_schedules (snd (execute_callback E rt s)) = rt_schedules rt"
  by (auto simp: execute_callback_def Let_def quiet_def split: option.splits)

lemma quiet_execute_prompt:
  assumes "quiet E"
  shows "rt_schedules (snd (execute_prompt E rt s p)) = rt_schedules rt"
proof -
  have "rt_schedules (snd (case handle_prompt E rt1 i p of
        (Inl e, rt1) \<Rightarrow> (Inl e, rt1)
      | (Inr _, rt1) \<Rightarrow> (Inr (), rt1\<lparr>rt_store := cleanup_schedule_sessions (rt_store rt1) s\<rparr>))) =
    rt_schedules rt1" for rt1 i
    using quiet_handle_prompt [OF assms, of rt1 i p] by (auto split: prod.splits sum.splits)
  then show ?thesis
    by (auto simp: execute_prompt_def Let_def split: prod.splits sum.splits)
qed

lemma quiet_ask_hooks:
  assumes "quiet E"
  shows "rt_schedules (snd (ask_hooks E s rt)) = rt_schedules rt"
proof -
  have fire: "rt_schedules (snd (env_on_fire E s rt)) = rt_schedules rt"
    using assms by (simp add: quiet_def)
  have alarm: "env_alarm E = Some f \<Longrightarrow> rt_schedules (snd (f s rt1)) = rt_schedules rt1" for f rt1
    using assms by (simp add: quiet_def)
  show ?thesis
    using fire alarm
    by (fastforce simp: ask_hooks_def Let_def split: prod.splits sum.splits option.splits
        dest: arg_cong [where f = snd])
qed

section \<open>What firing one schedule does to the table\<close>

text \<open>\<open>only_row i P t t'\<close>: \<open>t'\<close> has rows of \<open>t\<close>, except that the row with id \<open>i\<close> may be gone or
  changed into one that satisfies \<open>P\<close>.\<close>

definition only_row :: "id \<Rightarrow> (schedule \<Rightarrow> bool) \<Rightarrow> schedule list \<Rightarrow> schedule list \<Rightarrow> bool" where
  "only_row i P t t' \<longleftrightarrow>
     (\<forall>r \<in> set t'. if sch_id r = i then P r \<and> (\<exists>q \<in> set t. sch_id q = i \<and> sch_handler q = sch_handler r)
                   else r \<in> set t)"

lemma only_rowI:
  assumes "\<And>r. r \<in> set t' \<Longrightarrow> sch_id r = i \<Longrightarrow>
      P r \<and> (\<exists>q \<in> set t. sch_id q = i \<and> sch_handler q = sch_handler r)"
    and "\<And>r. r \<in> set t' \<Longrightarrow> sch_id r \<noteq> i \<Longrightarrow> r \<in> set t"
  shows "only_row i P t t'"
  using assms unfolding only_row_def by simp

lemma only_rowD:
  assumes "only_row i P t t'" "r \<in> set t'"
  shows "sch_id r = i \<Longrightarrow> P r"
    "sch_id r = i \<Longrightarrow> \<exists>q \<in> set t. sch_id q = i \<and> sch_handler q = sch_handler r"
    "sch_id r \<noteq> i \<Longrightarrow> r \<in> set t"
  using bspec [OF assms(1) [unfolded only_row_def] assms(2)] by auto

lemma only_row_delete: "only_row i P t (delete_schedule_row t i)"
  by (simp add: only_row_def)

lemma only_row_update:
  assumes "\<And>r. sch_id (f r) = sch_id r" "\<And>r. sch_handler (f r) = sch_handler r"
    and "\<And>r. r \<in> set t \<Longrightarrow> sch_id r = i \<Longrightarrow> P (f r)"
  shows "only_row i P t (update_rows (\<lambda>r. sch_id r = i) f t)"
  using assms by (auto simp: only_row_def table_simps)

lemma only_row_trans:
  assumes "only_row i Q t t1" "only_row i P t1 t2"
  shows "only_row i P t t2"
proof (rule only_rowI)
  fix r assume r: "r \<in> set t2"
  show "r \<in> set t" if "sch_id r \<noteq> i"
    by (rule only_rowD(3) [OF assms(1) only_rowD(3) [OF assms(2) r that] that])
  assume id: "sch_id r = i"
  obtain q where q: "q \<in> set t1" "sch_id q = i" "sch_handler q = sch_handler r"
    using only_rowD(2) [OF assms(2) r id] by blast
  then obtain q0 where "q0 \<in> set t" "sch_id q0 = i" "sch_handler q0 = sch_handler q"
    using only_rowD(2) [OF assms(1)] by blast
  with q show "P r \<and> (\<exists>q\<in>set t. sch_id q = i \<and> sch_handler q = sch_handler r)"
    using only_rowD(1) [OF assms(2) r id] by auto
qed

abbreviation not_due :: "int \<Rightarrow> schedule \<Rightarrow> bool" where
  "not_due now r \<equiv> \<not> is_due now r"

lemma only_row_marks:
  "only_row i (\<lambda>_. True) t (mark_running t i now)"
  "only_row i (\<lambda>r. sch_status r = Failed) t (mark_failed t i e now)"
  "(\<And>r. r \<in> set t \<Longrightarrow> sch_id r = i \<Longrightarrow> not_due at r) \<Longrightarrow> only_row i (not_due at) t (mark_running t i now)"
  "(\<And>r. r \<in> set t \<Longrightarrow> sch_id r = i \<Longrightarrow> not_due at r) \<Longrightarrow> only_row i (not_due at) t (mark_failed t i e now)"
  "(\<And>r. r \<in> set t \<Longrightarrow> sch_id r = i \<Longrightarrow> not_due at r) \<Longrightarrow> only_row i (not_due at) t (mark_idle t i now)"
  unfolding mark_running_def mark_failed_def mark_idle_def
  by (rule only_row_update; simp)+

lemma only_row_planned:
  assumes "at < f"
  shows "only_row i (not_due at) (rt_schedules rt) (rt_schedules (plan_next i f rt))"
proof -
  have "not_due at (apply_schedule_update (no_update\<lparr>upd_next_fire := Some (Some (iso_now f))\<rparr>) now r)" for now r
    using assms is_due_next_fire [of at f now r] by simp
  moreover have "sch_handler (apply_schedule_update u now r) = sch_handler r" for u now r
    by (simp add: apply_schedule_update_def)
  ultimately show ?thesis
    by (auto simp: plan_next_def update_schedule_row_table intro!: only_row_update)
qed

lemma fire_timer_row:
  assumes "quiet E"
  shows "only_row (sch_id s) (\<lambda>r. sch_status r = Failed) (rt_schedules rt)
    (rt_schedules (fire_timer E s rt))"
proof -
  obtain r rt1 where ex: "execute_callback E (set_running (sch_id s) rt) s = (r, rt1)" by force
  then have t1: "rt_schedules rt1 = mark_running (rt_schedules rt) (sch_id s) (rt_now rt)"
    using quiet_execute_callback [OF assms, of "set_running (sch_id s) rt" s] by (simp add: set_running_def)
  note run = only_row_marks(1) [of "sch_id s" "rt_schedules rt" "rt_now rt"]
  show ?thesis
  proof (cases r)
    case (Inl e)
    then show ?thesis
      using ex t1 only_row_trans [OF run only_row_marks(2)] by (simp add: fire_timer_def failed_def)
  next
    case (Inr u)
    then show ?thesis
      using ex t1 only_row_trans [OF run only_row_delete] by (simp add: fire_timer_def forget_def)
  qed
qed

lemma run_schedule_row:
  assumes "quiet E" and due: "\<And>r. r \<in> set (rt_schedules rt) \<Longrightarrow> sch_id r = sch_id s \<Longrightarrow> not_due at r"
  shows "only_row (sch_id s) (not_due at) (rt_schedules rt) (rt_schedules (run_schedule E s ov rt))"
proof -
  let ?rt1 = "set_running (sch_id s) rt"
  define res where "res = (if sch_handler s = Prompt_Handler
    then let prompt = (case ov of None \<Rightarrow> sch_prompt s | Some p \<Rightarrow> Some p)
         in if truthy prompt then execute_prompt E ?rt1 s (the prompt) else (Inr (), ?rt1)
    else execute_callback E ?rt1 s)"
  have t1: "rt_schedules (snd res) = mark_running (rt_schedules rt) (sch_id s) (rt_now rt)"
    using quiet_execute_prompt [OF assms(1), of ?rt1 s] quiet_execute_callback [OF assms(1), of ?rt1 s]
    by (simp add: res_def Let_def set_running_def)
  have eq: "run_schedule E s ov rt =
      (case res of
         (Inr _, rt2) \<Rightarrow> rt2\<lparr>rt_schedules := mark_idle (rt_schedules rt2) (sch_id s) (rt_now rt2)\<rparr>
       | (Inl e, rt2) \<Rightarrow> failed E (sch_id s) e rt2)"
    by (simp add: run_schedule_def res_def Let_def)
  note run = only_row_marks(3) [where i = "sch_id s" and now = "rt_now rt", OF due]
  have due1: "not_due at r" if "r \<in> set (mark_running (rt_schedules rt) (sch_id s) (rt_now rt))"
      "sch_id r = sch_id s" for r
    using only_rowD(1) [OF run that] .
  obtain r rt2 where res: "res = (r, rt2)" by force
  show ?thesis
  proof (cases r)
    case (Inl e)
    have "rt_schedules (run_schedule E s ov rt) =
        mark_failed (mark_running (rt_schedules rt) (sch_id s) (rt_now rt)) (sch_id s)
          (error_text (env_message E) e) (rt_now rt2)"
      using t1 unfolding eq res Inl by (simp add: failed_def)
    then show ?thesis using only_row_trans [OF run only_row_marks(4) [OF due1]] by (simp only:)
  next
    case (Inr u)
    have "rt_schedules (run_schedule E s ov rt) =
        mark_idle (mark_running (rt_schedules rt) (sch_id s) (rt_now rt)) (sch_id s) (rt_now rt2)"
      using t1 unfolding eq res Inr by simp
    then show ?thesis using only_row_trans [OF run only_row_marks(5) [OF due1]] by (simp only:)
  qed
qed

lemma fire_one_row:
  assumes "quiet E" "sane_clocks E" "fire_one E now s rt = (Inr u, rt1)"
  shows "only_row (sch_id s) (\<lambda>r. not_due now r \<or> sch_handler s = Timer_Handler \<and> sch_status r = Failed)
    (rt_schedules rt) (rt_schedules rt1)"
proof -
  have weaken: "only_row i P t t' \<Longrightarrow> (\<And>r. P r \<Longrightarrow> Q r) \<Longrightarrow> only_row i Q t t'" for i P Q t t'
    by (rule only_rowI) (blast dest: only_rowD)+
  consider (gone) "rt1 = forget (sch_id s) rt"
    | (timer) "sch_handler s = Timer_Handler" "rt1 = fire_timer E s rt"
    | (plan) t skip ov rt2 where "next_fire E (sch_cron s) now (sch_timezone s) = Inr t"
        "ask_hooks E s (plan_next (sch_id s) t rt) = (Inr (skip, ov), rt2)"
        "rt1 = (if skip then rt2 else run_schedule E s ov rt2)"
    using assms(3) by (auto simp: fire_one_def split: if_splits sum.splits prod.splits)
  then show ?thesis
  proof cases
    case gone
    then show ?thesis by (simp add: forget_def only_row_delete)
  next
    case timer
    then show ?thesis using fire_timer_row [OF assms(1), of s rt] by (auto elim: weaken)
  next
    case plan
    have planned: "only_row (sch_id s) (not_due now) (rt_schedules rt) (rt_schedules rt2)"
      using only_row_planned [OF next_fire_later [OF assms(2) plan(1)], of "sch_id s" rt]
        quiet_ask_hooks [OF assms(1), of s "plan_next (sch_id s) t rt"] plan(2) by simp
    have "only_row (sch_id s) (not_due now) (rt_schedules rt2) (rt_schedules (run_schedule E s ov rt2))"
      using only_rowD(1) [OF planned] by (intro run_schedule_row [OF assms(1)])
    from only_row_trans [OF planned this] planned plan(3) show ?thesis
      by (auto elim: weaken)
  qed
qed

text \<open>The loop over the due schedules leaves due only timers that failed, or rows it was not given.\<close>

lemma fire_loop_rows:
  assumes "quiet E" "sane_clocks E" "fire_loop E now ss rt = (Inr u, rt')"
    and "\<forall>s \<in> set ss. \<forall>r \<in> set (rt_schedules rt). sch_id r = sch_id s \<longrightarrow> sch_handler r = sch_handler s"
    and "r \<in> set (rt_schedules rt')" "is_due now r"
  shows "r \<in> set (rt_schedules rt) \<and> sch_id r \<notin> sch_id ` set ss \<or>
    sch_handler r = Timer_Handler \<and> sch_status r = Failed"
  using assms(3-)
proof (induction ss arbitrary: rt u)
  case Nil
  then show ?case by simp
next
  case (Cons s ss)
  obtain v rt1 where st: "fire_one E now s rt = (Inr v, rt1)" "fire_loop E now ss rt1 = (Inr u, rt')"
    using Cons.prems(1) by (auto split: prod.splits sum.splits)
  note row = fire_one_row [OF assms(1,2) st(1)]
  have handlers: "\<forall>s \<in> set ss. \<forall>r \<in> set (rt_schedules rt1). sch_id r = sch_id s \<longrightarrow> sch_handler r = sch_handler s"
  proof (intro ballI impI)
    fix x q assume x: "x \<in> set ss" "q \<in> set (rt_schedules rt1)" "sch_id q = sch_id x"
    obtain q0 where "q0 \<in> set (rt_schedules rt)" "sch_id q0 = sch_id q" "sch_handler q0 = sch_handler q"
      using only_rowD(2,3) [OF row x(2)] by metis
    with x Cons.prems(2) show "sch_handler q = sch_handler x" by (metis list.set_intros(2))
  qed
  have "r \<in> set (rt_schedules rt1) \<and> sch_id r \<notin> sch_id ` set ss \<or>
    sch_handler r = Timer_Handler \<and> sch_status r = Failed"
    by (rule Cons.IH [OF st(2) handlers Cons.prems(3,4)])
  then show ?case
  proof
    assume r1: "r \<in> set (rt_schedules rt1) \<and> sch_id r \<notin> sch_id ` set ss"
    show ?thesis
    proof (cases "sch_id r = sch_id s")
      case True
      then have "sch_handler s = Timer_Handler" "sch_status r = Failed"
        using only_rowD(1) [OF row] r1 Cons.prems(4) by blast+
      moreover obtain q where "q \<in> set (rt_schedules rt)" "sch_id q = sch_id s" "sch_handler q = sch_handler r"
        using only_rowD(2) [OF row] r1 True by blast
      ultimately show ?thesis using Cons.prems(2) by (metis list.set_intros(1))
    next
      case False
      then show ?thesis using only_rowD(3) [OF row] r1 by auto
    qed
  qed simp
qed

section \<open>The alarm\<close>

definition demo_env :: "bool env" where
  "demo_env = \<lparr>env_zone = \<lambda>_. zone_fields 0,
     env_new_id = \<lambda>rt. replicate (Suc (sum_list (map (length \<circ> eid) (entries (rt_store rt))))) CHR ''x'',
     env_on_fire = \<lambda>_ rt. (Inr None, rt), env_alarm = None,
     env_callback = \<lambda>ok _ rt. (if ok then Inr () else Inl ''boom'', rt),
     env_capabilities = [(''t'', True)], env_bundle = None, env_streaming = \<lambda>_ _. False,
     env_turn = \<lambda>_ _ rt. (Inr (), rt), env_steer = \<lambda>_ _ rt. rt,
     env_time_text = \<lambda>_. ''now'', env_message = \<lambda>_. ''error''\<rparr>"

lemma demo_env_quiet: "quiet demo_env"
  by (simp add: quiet_def demo_env_def)

lemma demo_env_sane: "sane_clocks demo_env"
  using fixed.hour_range fixed.minute_range by (simp add: sane_clocks_def demo_env_def)

definition demo_schedule :: "id \<Rightarrow> handler \<Rightarrow> stamp \<Rightarrow> schedule" where
  "demo_schedule i h fire = schedule_row
     \<lparr>cfg_id = Some i, cfg_name = i, cfg_cron = ''0 12 * * *'', cfg_enabled = None, cfg_handler = h,
      cfg_prompt = None, cfg_prefix = None, cfg_owner = None, cfg_timezone = None,
      cfg_expires = None, cfg_next_fire = Some fire, cfg_retention = None\<rparr> i 0"

definition demo_runtime :: "schedule list \<Rightarrow> bool runtime" where
  "demo_runtime t = \<lparr>rt_schedules = t, rt_callbacks = [], rt_timer_owners = Map.empty,
     rt_store = empty_store, rt_queue = [], rt_wake = None, rt_now = 43199999\<rparr>"

definition demo_alarm :: "bool runtime" where
  "demo_alarm = demo_runtime [demo_schedule ''p'' Prompt_Handler (Iso_Stamp 1000),
     demo_schedule ''t'' Timer_Handler (Iso_Stamp 2000)]"

lemma demo_cron: "parse_cron ''0 12 * * *'' =
    Inr \<lparr>minutes = {0}, hours = {12}, days_of_month = set (map int [1..<32]),
         months = set (map int [1..<13]), days_of_week = set (map int [0..<7])\<rparr>"
  "resolve_expr ''0 12 * * *'' = Inr ''0 12 * * *''"
  by code_simp+


lemma demo_next_fire: "next_fire demo_env ''0 12 * * *'' 43199999 None = Inr 43200000"
proof -
  have "search_loop (zone_fields 0) \<lparr>minutes = {0}, hours = {12}, days_of_month = set (map int [1..<32]),
      months = set (map int [1..<13]), days_of_week = set (map int [0..<7])\<rparr> 100
      (first_candidate 43199999) = Some 43200000"
    by code_simp
  then show ?thesis
    by (simp add: next_fire_def next_fire_time_def demo_cron compute_next_def demo_env_def
        search_loop_iterations)
qed

text \<open>C4: The alarm makes progress. Assume that the hooks, callbacks, bundles and turns the
  handler calls leave the table of schedules alone, that the zones' clocks show hours and
  minutes in range, and that the schedules have distinct ids. When the handler returns without
  error, then of the schedules that were due at the time it read when it began, the only ones
  still due at that time are timers whose callback failed (they stay due and are tried again);
  all others have been deleted or moved to a time after that one. The wake time is then that of
  the earliest schedule; if the fire times are ISO stamps and no timer has failed, it is later
  than the time the handler read when it began. It need not be later than the time it ends at:
  the next fire times are computed from the time read at the beginning, so after slow callbacks
  the alarm may be due again at once.\<close>

theorem alarm_leaves_only_failed_timers:
  assumes "quiet E" and "sane_clocks E" and "handle_alarm_fired E rt = (Inr u, rt')"
    and "distinct (map sch_id (rt_schedules rt))"
  shows "(\<forall>r \<in> set (rt_schedules rt'). is_due (rt_now rt) r \<longrightarrow>
      sch_handler r = Timer_Handler \<and> sch_status r = Failed) \<and>
    rt_wake rt' = get_earliest_fire_time (rt_schedules rt') \<and>
    (iso_fire_times (rt_schedules rt') \<longrightarrow>
      (\<forall>r \<in> set (rt_schedules rt'). \<not> (sch_handler r = Timer_Handler \<and> sch_status r = Failed)) \<longrightarrow>
      (\<forall>w. rt_wake rt' = Some w \<longrightarrow> rt_now rt < w))"
proof -
  let ?now = "rt_now rt" and ?due = "get_due_schedules (rt_schedules rt) (rt_now rt)"
  obtain v rt1 where loop: "fire_loop E ?now ?due rt = (Inr v, rt1)" "rt' = refresh_alarm rt1"
    using assms(3) by (auto simp: handle_alarm_fired_def Let_def split: prod.splits sum.splits)
  have same: "r = s" if "s \<in> set ?due" "r \<in> set (rt_schedules rt)" "sch_id r = sch_id s" for r s
    using that assms(4) by (auto simp: get_due_iff distinct_map dest: inj_onD)
  then have handlers: "\<forall>s \<in> set ?due. \<forall>r \<in> set (rt_schedules rt).
      sch_id r = sch_id s \<longrightarrow> sch_handler r = sch_handler s"
    by blast
  have left: "sch_handler r = Timer_Handler \<and> sch_status r = Failed"
    if "r \<in> set (rt_schedules rt')" "is_due ?now r" for r
  proof -
    have "r \<in> set (rt_schedules rt1)" using that(1) loop(2) by simp
    from fire_loop_rows [OF assms(1,2) loop(1) handlers this that(2)] show ?thesis
      using that(2) by (auto simp: get_due_iff)
  qed
  have "?now < w" if iso: "iso_fire_times (rt_schedules rt')"
      and ok: "\<forall>r \<in> set (rt_schedules rt'). \<not> (sch_handler r = Timer_Handler \<and> sch_status r = Failed)"
      and w: "rt_wake rt' = Some w" for w
  proof -
    have "get_earliest_fire_time (rt_schedules rt') = Some w"
      using w loop(2) by (simp add: refresh_alarm_def)
    from earliest_is_least(1) [OF iso this] obtain r where
      "r \<in> set (rt_schedules rt')" "sch_enabled r" "sch_next_fire r = Some (Iso_Stamp w)"
      by (auto simp: fire_stamps_iff)
    moreover from this have "\<not> is_due ?now r" using left ok by blast
    ultimately show ?thesis by (simp add: is_due_def iso_now_def iso_stamp_le)
  qed
  moreover have "rt_wake rt' = get_earliest_fire_time (rt_schedules rt')"
    using loop(2) by (simp add: refresh_alarm_def)
  ultimately show ?thesis using left by blast
qed

lemmas alarm_eval = handle_alarm_fired_def get_due_schedules_def is_due_def order_by_def
  demo_alarm_def demo_runtime_def demo_schedule_def schedule_row_def iso_now_def iso_stamp_le
  expired_def ask_hooks_def plan_next_def update_schedule_row_def get_schedule_def
  fire_one_def fire_timer_def execute_callback_def ensure_callbacks_def set_running_def
  run_schedule_def thrown_def Let_def update_rows_def get_row_def mark_running_def
  mark_idle_def forget_def delete_schedule_row_def delete_rows_def put_key_def drop_key_def
  apply_schedule_update_def no_update_def

lemma demo_alarm_fires:
  "\<exists>u rt'. handle_alarm_fired demo_env demo_alarm = (Inr u, rt') \<and> length (rt_schedules rt') = 1"
  using demo_next_fire
  by (simp add: alarm_eval) (simp add: alarm_eval demo_env_def)

theorem alarm_leaves_only_failed_timers_witness:
  "\<exists>u rt'. handle_alarm_fired demo_env demo_alarm = (Inr u, rt') \<and> length (rt_schedules rt') = 1 \<and>
    (\<forall>r \<in> set (rt_schedules rt'). is_due 43199999 r \<longrightarrow>
      sch_handler r = Timer_Handler \<and> sch_status r = Failed)"
proof -
  obtain u rt' where run: "handle_alarm_fired demo_env demo_alarm = (Inr u, rt')"
    "length (rt_schedules rt') = 1"
    using demo_alarm_fires by blast
  have "distinct (map sch_id (rt_schedules demo_alarm))" and now: "rt_now demo_alarm = 43199999"
    by (simp_all add: demo_alarm_def demo_runtime_def demo_schedule_def schedule_row_def)
  from alarm_leaves_only_failed_timers [OF demo_env_quiet demo_env_sane run(1) this(1)] run show ?thesis
    unfolding now by blast
qed

text \<open>one schedule can block the alarm for all of them. If the first due schedule is not expired,
  not a timer, and its next fire time cannot be computed (its expression does not parse or
  matches no minute), the handler fails and the state is exactly what it was: no other due
  schedule runs, nothing is deleted, and the wake time is not refreshed.\<close>

theorem unplannable_schedule_blocks_alarm:
  assumes "get_due_schedules (rt_schedules rt) (rt_now rt) = s # ss"
    and "\<not> expired (rt_now rt) s" and "sch_handler s \<noteq> Timer_Handler"
    and "next_fire E (sch_cron s) (rt_now rt) (sch_timezone s) = Inl e"
  shows "handle_alarm_fired E rt = (Inl e, rt)"
  using assms by (simp add: handle_alarm_fired_def fire_one_def Let_def)

definition blocked_runtime :: "bool runtime" where
  "blocked_runtime = demo_runtime
     [(demo_schedule ''bad'' Prompt_Handler (Iso_Stamp 1000))\<lparr>sch_cron := ''hourly''\<rparr>,
      demo_schedule ''t'' Timer_Handler (Iso_Stamp 2000)]"

theorem unplannable_schedule_blocks_alarm_witness:
  "\<exists>e. handle_alarm_fired demo_env blocked_runtime = (Inl e, blocked_runtime) \<and>
    length (get_due_schedules (rt_schedules blocked_runtime) (rt_now blocked_runtime)) = 2"
proof -
  let ?s = "(demo_schedule ''bad'' Prompt_Handler (Iso_Stamp 1000))\<lparr>sch_cron := ''hourly''\<rparr>"
  have due: "get_due_schedules (rt_schedules blocked_runtime) (rt_now blocked_runtime) =
      [?s, demo_schedule ''t'' Timer_Handler (Iso_Stamp 2000)]"
    by (simp add: blocked_runtime_def alarm_eval)
  have "resolve_expr ''hourly'' = Inr ''hourly''" "parse_cron ''hourly'' = Inl (Field_Count 1)"
    by code_simp+
  then have bad: "next_fire demo_env (sch_cron ?s) (rt_now blocked_runtime) (sch_timezone ?s) =
      Inl (Bad_Cron (Field_Count 1))"
    by (simp add: next_fire_def next_fire_time_def)
  have "handle_alarm_fired demo_env blocked_runtime = (Inl (Bad_Cron (Field_Count 1)), blocked_runtime)"
    by (rule unplannable_schedule_blocks_alarm [OF due _ _ bad])
      (simp_all add: demo_schedule_def schedule_row_def expired_def)
  with due show ?thesis by simp
qed

text \<open>A timer that fires and succeeds is gone with its callback, whatever the callback did, so a
  callback that sets its own timer again loses the new one; a timer that fails keeps its row,
  with the error text, and stays due, so the next alarm runs it again.\<close>

theorem timer_outcome:
  assumes "execute_callback E (set_running (sch_id s) rt) s = (res, rt1)"
    and "fire_timer E s rt = rt'"
  shows "case res of
      Inr _ \<Rightarrow> (\<forall>r \<in> set (rt_schedules rt'). sch_id r \<noteq> sch_id s) \<and>
        map_of (rt_callbacks rt') (sch_id s) = None
    | Inl e \<Rightarrow> (\<forall>r \<in> set (rt_schedules rt1). \<exists>r' \<in> set (rt_schedules rt').
          sch_id r' = sch_id r \<and> is_due (rt_now rt) r' = is_due (rt_now rt) r \<and>
          (sch_id r = sch_id s \<longrightarrow>
             sch_status r' = Failed \<and> sch_error r' = Some (error_text (env_message E) e)))"
proof (cases res)
  case (Inr u)
  then have "rt' = forget (sch_id s) rt1" using assms by (simp add: fire_timer_def)
  then show ?thesis using Inr by (simp add: forget_def)
next
  case (Inl e)
  then have rt': "rt_schedules rt' =
      mark_failed (rt_schedules rt1) (sch_id s) (error_text (env_message E) e) (rt_now rt1)"
    using assms by (auto simp: fire_timer_def failed_def)
  let ?f = "\<lambda>r. r\<lparr>sch_status := Failed, sch_error := Some (error_text (env_message E) e),
      sch_updated := sql_now (rt_now rt1)\<rparr>"
  have "\<exists>r' \<in> set (rt_schedules rt'). sch_id r' = sch_id r \<and>
      is_due (rt_now rt) r' = is_due (rt_now rt) r \<and>
      (sch_id r = sch_id s \<longrightarrow>
         sch_status r' = Failed \<and> sch_error r' = Some (error_text (env_message E) e))"
    if "r \<in> set (rt_schedules rt1)" for r
    by (rule bexI [of _ "if sch_id r = sch_id s then ?f r else r"])
      (use that in \<open>simp_all add: rt' mark_failed_def set_update_rows\<close>)
  then show ?thesis unfolding Inl sum.case by blast
qed

text \<open>A callback that re-arms its timer for one more minute.\<close>

definition rearming_env :: "bool env" where
  "rearming_env = demo_env\<lparr>env_callback := \<lambda>_ s rt.
     (Inr (), snd (set_timer demo_env rt (sch_id s) 60 None))\<rparr>"

theorem timer_outcome_witness:
  "let s = demo_schedule ''t'' Timer_Handler (Iso_Stamp 2000);
       rt = (demo_runtime [s])\<lparr>rt_callbacks := [(''t'', True)]\<rparr>;
       rt1 = snd (execute_callback rearming_env (set_running ''t'' rt) s)
   in map sch_next_fire (rt_schedules rt1) = [Some (Iso_Stamp 43259999)] \<and>
      (\<forall>r \<in> set (rt_schedules (fire_timer rearming_env s rt)). sch_id r \<noteq> ''t'')"
proof -
  let ?s = "demo_schedule ''t'' Timer_Handler (Iso_Stamp 2000)"
  let ?rt = "(demo_runtime [?s])\<lparr>rt_callbacks := [(''t'', True)]\<rparr>"
  have id: "sch_id ?s = ''t''" by (simp add: demo_schedule_def schedule_row_def)
  obtain rt1 where rt1: "execute_callback rearming_env (set_running (sch_id ?s) ?rt) ?s = (Inr (), rt1)"
    "map sch_next_fire (rt_schedules rt1) = [Some (Iso_Stamp 43259999)]"
    by (simp add: alarm_eval rearming_env_def set_timer_def insert_schedule_def insert_row_def
        refresh_alarm_def)
  from timer_outcome [OF rt1(1) refl]
  have "\<forall>r \<in> set (rt_schedules (fire_timer rearming_env ?s ?rt)). sch_id r \<noteq> ''t''"
    by (simp add: id)
  moreover have "snd (execute_callback rearming_env (set_running ''t'' ?rt) ?s) = rt1"
    using rt1(1) id by simp
  ultimately show ?thesis unfolding Let_def using rt1(2) by blast
qed

section \<open>The wake time follows the table\<close>

definition wake_synced :: "'cb runtime \<Rightarrow> bool" where
  "wake_synced rt \<longleftrightarrow> rt_wake rt = get_earliest_fire_time (rt_schedules rt)"

lemma wake_synced_refresh [simp]: "wake_synced (refresh_alarm rt)"
  by (simp add: wake_synced_def refresh_alarm_def)

lemma update_missing: "fst (update_schedule_row t i u now) = None \<Longrightarrow> snd (update_schedule_row t i u now) = t"
proof (rule ccontr)
  assume a: "fst (update_schedule_row t i u now) = None" "snd (update_schedule_row t i u now) \<noteq> t"
  then obtain r where "get_schedule t i = Some r"
    by (cases "get_schedule t i") (auto simp: update_schedule_row_def)
  then have "get_schedule (update_rows (\<lambda>r. sch_id r = i) (apply_schedule_update u now) t) i \<noteq> None"
    by (simp add: get_schedule_def get_row_update)
  with \<open>get_schedule t i = Some r\<close> a(1) show False by (simp add: update_schedule_row_def Let_def)
qed

text \<open>The wake time asked of the platform stays the earliest fire time of the enabled schedules
  through every operation of the schedule manager: creating (failed or not), updating,
  deleting, cancelling a timer; and setting a timer, syncing the capabilities' schedules and
  handling the alarm establish it whenever they return normally.\<close>

theorem wake_follows_table:
  assumes "wake_synced rt"
  shows "wake_synced (snd (create_schedule E rt c)) \<and> wake_synced (snd (update_schedule E rt i u)) \<and>
    wake_synced (delete_schedule rt i) \<and> wake_synced (cancel_timer rt i) \<and>
    (\<forall>rt'. set_timer E rt i delay cb = (Inr (), rt') \<longrightarrow> wake_synced rt') \<and>
    (\<forall>rt'. sync_capability_schedules E rt ds = (Inr (), rt') \<longrightarrow> wake_synced rt') \<and>
    (\<forall>rt'. handle_alarm_fired E rt = (Inr (), rt') \<longrightarrow> wake_synced rt')"
proof (intro conjI allI impI)
  have "fst (insert_planned E rt r m) = Inl e \<Longrightarrow> snd (insert_planned E rt r m) = rt" for r m e
    by (auto simp: insert_planned_def split: sum.splits option.splits)
  then show "wake_synced (snd (create_schedule E rt c))"
    using assms by (auto simp: create_schedule_def split: prod.splits sum.splits) (metis fst_conv snd_conv)
  have keep: "wake_synced (if fst (update_schedule_row (rt_schedules rt) i w (rt_now rt)) \<noteq> None
      then refresh_alarm (rt\<lparr>rt_schedules := snd (update_schedule_row (rt_schedules rt) i w (rt_now rt))\<rparr>)
      else rt\<lparr>rt_schedules := snd (update_schedule_row (rt_schedules rt) i w (rt_now rt))\<rparr>)" for w
    using assms update_missing [of "rt_schedules rt" i w "rt_now rt"]
    by (cases "fst (update_schedule_row (rt_schedules rt) i w (rt_now rt))")
      (simp_all add: wake_synced_def refresh_alarm_def)
  show "wake_synced (snd (update_schedule E rt i u))"
    using assms keep by (auto simp: update_schedule_def Let_def case_prod_beta split: sum.splits)
  show "wake_synced (delete_schedule rt i)" "wake_synced (cancel_timer rt i)"
    using assms by (simp_all add: delete_schedule_def cancel_timer_def Let_def)
  fix rt'
  show "set_timer E rt i delay cb = (Inr (), rt') \<Longrightarrow> wake_synced rt'"
    by (auto simp: set_timer_def Let_def split: option.splits)
  show "sync_capability_schedules E rt ds = (Inr (), rt') \<Longrightarrow> wake_synced rt'"
    by (auto simp: sync_capability_schedules_def split: prod.splits sum.splits)
  show "handle_alarm_fired E rt = (Inr (), rt') \<Longrightarrow> wake_synced rt'"
    by (auto simp: handle_alarm_fired_def Let_def split: prod.splits sum.splits)
qed

theorem wake_follows_table_witness:
  "wake_synced (delete_schedule (demo_runtime []) ''t'') \<and>
    (\<exists>rt'. set_timer demo_env (demo_runtime []) ''t'' 60 (Some True) = (Inr (), rt') \<and>
       length (rt_schedules rt') = 1 \<and> wake_synced rt')"
proof -
  have empty: "wake_synced (demo_runtime [])"
    by (simp add: wake_synced_def demo_runtime_def get_earliest_fire_time_def fire_stamps_def map_filter_def)
  obtain rt' where "set_timer demo_env (demo_runtime []) ''t'' 60 (Some True) = (Inr (), rt')"
    "length (rt_schedules rt') = 1"
    by (simp add: set_timer_def demo_runtime_def get_schedule_def get_row_def insert_schedule_def
        insert_row_def Let_def refresh_alarm_def)
  with wake_follows_table [OF empty] show ?thesis by blast
qed

section \<open>Old sessions of a schedule\<close>

lemma list_sessions_delete:
  "list_sessions (delete_session d i) = filter (\<lambda>r. sid r \<noteq> i) (list_sessions d)"
proof -
  have "sort_key supdated (rev (filter P xs)) = filter P (sort_key supdated (rev xs))" for P xs
    by (simp only: rev_filter filter_sort)
  then show ?thesis
    by (simp add: list_sessions_def delete_session_def order_by_desc_def delete_rows_def rev_filter [symmetric])
qed

lemma list_sessions_fold:
  "list_sessions (fold (\<lambda>r d. delete_session d (sid r)) rs d) =
     filter (\<lambda>r. sid r \<notin> sid ` set rs) (list_sessions d)"
  by (induction rs arbitrary: d) (simp_all add: list_sessions_delete conj_commute)

lemma list_sessions_sorted: "sorted_wrt (\<lambda>x y. supdated y \<le> supdated x) (list_sessions d)"
proof -
  have "sorted_wrt (\<lambda>x y. supdated x \<le> supdated y) (sort_key supdated xs)" for xs
    using sorted_sort_key [of supdated xs] by (simp add: sorted_wrt_map)
  then show ?thesis by (simp add: list_sessions_def order_by_desc_def sorted_wrt_rev)
qed

lemma distinct_list_sessions:
  "distinct (map sid (sessions d)) \<Longrightarrow> distinct (map sid (list_sessions d))"
  by (simp add: list_sessions_def order_by_desc_def rev_map [symmetric] distinct_map)

lemma filter_drop:
  assumes "distinct (map f xs)"
  shows "filter (\<lambda>x. f x \<notin> f ` set (take k xs)) xs = drop k xs"
proof -
  let ?P = "\<lambda>x. f x \<notin> f ` set (take k xs)"
  have d: "f ` set (take k xs) \<inter> f ` set (drop k xs) = {}" "distinct (map f (take k xs @ drop k xs))"
    using assms by (auto simp del: map_append simp: append_take_drop_id)
      (metis (no_types, lifting) IntI append_take_drop_id assms distinct_append empty_iff image_eqI list.set_map map_append)
  have "filter ?P (take k xs @ drop k xs) = drop k xs"
    unfolding filter_append using d(1) by (auto simp: filter_empty_conv filter_id_conv)
  then show ?thesis by simp
qed

text \<open>After a scheduled prompt the sessions of the schedule are cut down to the retention count
  by deleting from the front of the session list. That list is newest first, so the sessions
  deleted are the most recently updated ones, and those kept are the oldest.\<close>

theorem cleanup_deletes_newest:
  assumes "distinct (map sid (sessions d))"
  shows "let found = schedule_sessions d s; k = length found - nat (sch_retention s)
    in schedule_sessions (cleanup_schedule_sessions d s) s = drop k found \<and>
       (\<forall>x \<in> set (take k found). get_session (cleanup_schedule_sessions d s) (sid x) = None \<and>
          (\<forall>y \<in> set (drop k found). supdated y \<le> supdated x))"
proof -
  let ?P = "\<lambda>r. ssource r = ''scheduled'' \<and> starts_with (sname r) (or_else (sch_prefix s) (sch_name s))"
  define found where "found = schedule_sessions d s"
  define k where "k = length found - nat (sch_retention s)"
  let ?d = "fold (\<lambda>r d. delete_session d (sid r)) (take k found) d"
  have found: "found = filter ?P (list_sessions d)"
    by (simp add: found_def schedule_sessions_def)
  have "nat (int (length found) - sch_retention s) \<ge> k" by (simp add: k_def)
  have eq: "cleanup_schedule_sessions d s = ?d"
  proof (cases "int (length found) > sch_retention s")
    case True
    show ?thesis
    proof (cases "sch_retention s \<ge> 0")
      case True
      then have "nat (int (length found) - sch_retention s) = k" by (simp add: k_def nat_diff_distrib)
      with \<open>int (length found) > sch_retention s\<close> show ?thesis
        by (simp add: cleanup_schedule_sessions_def found_def)
    next
      case False
      then have "take (nat (int (length found) - sch_retention s)) found = take k found"
        by (simp add: k_def)
      with True show ?thesis by (simp add: cleanup_schedule_sessions_def found_def Let_def)
    qed
  next
    case False
    then have "k = 0" by (simp add: k_def nat_le_eq_zle)
    with False show ?thesis by (simp add: cleanup_schedule_sessions_def found_def)
  qed
  have dist: "distinct (map sid found)"
    using distinct_list_sessions [OF assms] by (simp add: found distinct_map_filter)
  have "schedule_sessions ?d s = filter (\<lambda>r. sid r \<notin> sid ` set (take k found)) found"
    unfolding schedule_sessions_def list_sessions_fold
    by (simp add: found conj_commute)
  then have kept: "schedule_sessions ?d s = drop k found" by (simp add: filter_drop [OF dist])
  have gone: "get_session ?d (sid x) = None" if "x \<in> set (take k found)" for x
  proof -
    have "sid x \<notin> sid ` set (list_sessions ?d)"
      using that by (simp add: list_sessions_fold image_iff) metis
    then show ?thesis by (simp add: get_session_def get_row_None_iff list_sessions_def)
  qed
  have "sorted_wrt (\<lambda>x y. supdated y \<le> supdated x) (take k found @ drop k found)"
    using sorted_wrt_filter [OF list_sessions_sorted [of d], of ?P] by (simp add: found)
  then have "\<forall>x \<in> set (take k found). \<forall>y \<in> set (drop k found). supdated y \<le> supdated x"
    unfolding sorted_wrt_append by blast
  with kept gone show ?thesis
    by (simp add: eq Let_def found_def [symmetric] k_def [symmetric])
qed

definition three_runs :: store where
  "three_runs = \<lparr>sessions = map (\<lambda>(i, t). \<lparr>sid = i, sname = ''daily'' @ i, ssource = ''scheduled'',
     ssender = None, sleaf = None, sactive_mode = None, screated = Sql_Stamp t, supdated = Sql_Stamp t\<rparr>)
     [(''a'', 1), (''b'', 2), (''c'', 3)], entries = []\<rparr>"

theorem cleanup_deletes_newest_witness:
  "let s = (demo_schedule ''daily'' Prompt_Handler (Iso_Stamp 0))\<lparr>sch_retention := 2\<rparr>
   in map sid (schedule_sessions (cleanup_schedule_sessions three_runs s) s) = [''b'', ''a''] \<and>
      get_session (cleanup_schedule_sessions three_runs s) ''c'' = None"
proof -
  let ?s = "(demo_schedule ''daily'' Prompt_Handler (Iso_Stamp 0))\<lparr>sch_retention := 2\<rparr>"
  have found: "map sid (schedule_sessions three_runs ?s) = [''c'', ''b'', ''a'']" by code_simp
  then obtain c b a where cba: "schedule_sessions three_runs ?s = [c, b, a]"
    "sid c = ''c''" "sid b = ''b''" "sid a = ''a''" by (auto simp: map_eq_Cons_conv)
  have "distinct (map sid (sessions three_runs))" by (simp add: three_runs_def)
  from cleanup_deletes_newest [OF this, of ?s] cba show ?thesis
    by (simp add: Let_def)
qed

section \<open>Prompts that arrive while the agent is busy\<close>

definition logged :: "'cb runtime \<Rightarrow> id \<Rightarrow> entry_data list" where
  "logged rt s = map edata (get_entries (rt_store rt) s)"

definition fresh_ids :: "'cb env \<Rightarrow> bool" where
  "fresh_ids E \<longleftrightarrow> (\<forall>rt. env_new_id E rt \<notin> eid ` set (entries (rt_store rt)) \<and>
     env_new_id E rt \<notin> qm_id ` set (rt_queue rt))"

lemma name_session_simps:
  "logged (name_session rt s p) s = logged rt s"
  "get_session (rt_store (name_session rt s p)) s = None \<longleftrightarrow> get_session (rt_store rt) s = None"
  "rt_now (name_session rt s p) = rt_now rt" "rt_queue (name_session rt s p) = rt_queue rt"
  by (auto simp: name_session_def logged_def rename_session_def get_session_update split: option.splits)

lemma log_prompt_appends:
  assumes "fresh_ids E" "get_session (rt_store rt) s \<noteq> None"
  shows "\<exists>rt1. log_prompt E rt s p = (Inr (), rt1) \<and>
    logged rt1 s = logged rt s @ [prompt_message p (rt_now rt)] \<and>
    get_session (rt_store rt1) s \<noteq> None \<and> rt_queue rt1 = rt_queue rt \<and> rt_now rt1 = rt_now rt"
proof -
  obtain e d' where app: "append_entry (rt_store rt) s (prompt_message p (rt_now rt)) (env_new_id E rt)
      (rt_now rt) = (Inr e, d')"
    using assms by (auto simp: append_entry_def insert_row_def fresh_ids_def Let_def)
  have "get_session d' s \<noteq> None" using assms(2) by (simp add: get_session_append [OF app])
  then show ?thesis
    using app append_entry_row(4) [OF app]
    by (simp add: log_prompt_def logged_def get_entries_append [OF app])
qed

text \<open>A prompt that arrives while the agent of its session is busy is written to the session's
  log twice: once when it arrives, before it is queued, and once more when the queue is
  processed, because both go through \<open>handlePrompt\<close>.\<close>

theorem queued_prompt_logged_twice:
  assumes "fresh_ids E" and "get_session (rt_store rt) s \<noteq> None" and "rt_queue rt = []"
    and "env_bundle E = None" and "\<And>rt. env_streaming E rt s"
    and "\<And>i p rt. rt_store (snd (env_turn E i p rt)) = rt_store rt"
    and "handle_prompt E rt s msg = (res, rt1)"
    and "process_queue (E\<lparr>env_streaming := \<lambda>_ _. False\<rparr>) (rt1\<lparr>rt_now := later\<rparr>) s = (res', rt2)"
  shows "res = Inr () \<and> map qm_text (list_queue (rt_queue rt1) s) = [msg] \<and>
    logged rt2 s = logged rt s @ [prompt_message msg (rt_now rt), prompt_message msg later]"
proof -
  let ?rt0 = "name_session rt s msg"
  obtain rta where a: "log_prompt E ?rt0 s msg = (Inr (), rta)"
    "logged rta s = logged rt s @ [prompt_message msg (rt_now rt)]"
    "get_session (rt_store rta) s \<noteq> None" "rt_queue rta = []"
    using log_prompt_appends [OF assms(1), of ?rt0 s msg] assms(2,3) by (auto simp: name_session_simps)
  let ?m = "\<lparr>qm_id = env_new_id E rta, qm_session = s, qm_text = msg, qm_created = iso_now (rt_now rta)\<rparr>"
  have rt1: "res = Inr ()" "rt1 = rta\<lparr>rt_queue := [?m]\<rparr>"
    using assms(4,5,7) a(1,4)
    by (auto simp: handle_prompt_def run_static_def enqueue_text_def enqueue_def insert_row_def Let_def)
  then have "list_queue (rt_queue rt1) s = [?m]" by (simp add: list_queue_def order_by_def)
  moreover have "dequeue (rt_queue rt1) s = (Some ?m, [])"
    by (simp add: rt1(2) dequeue_def order_by_def delete_rows_def)
  moreover have "logged rt2 s = logged rt1 s @ [prompt_message msg later]"
  proof -
    let ?E = "E\<lparr>env_streaming := \<lambda>_ _. False\<rparr>"
    let ?rtb = "name_session (rt1\<lparr>rt_now := later, rt_queue := []\<rparr>) s msg"
    have "fresh_ids ?E" using assms(1) by (simp add: fresh_ids_def)
    moreover have "logged ?rtb s = logged rt1 s"
      unfolding name_session_simps(1) by (simp add: logged_def)
    moreover have "get_session (rt_store ?rtb) s \<noteq> None" "rt_now ?rtb = later"
      using a(3) by (simp_all add: name_session_simps rt1(2))
    ultimately obtain rtc where c: "log_prompt ?E ?rtb s msg = (Inr (), rtc)"
      "logged rtc s = logged rt1 s @ [prompt_message msg later]"
      using log_prompt_appends [of ?E ?rtb s msg] by auto
    have "rt2 = snd (env_turn E s msg rtc)"
      using assms(4,8) c(1) \<open>dequeue (rt_queue rt1) s = (Some ?m, [])\<close>
      by (auto simp: process_queue_def handle_prompt_def run_static_def thrown_def)
    then show ?thesis using c(2) assms(6) by (simp add: logged_def)
  qed
  ultimately show ?thesis using rt1 a(2) by (simp add: logged_def)
qed

lemma replicate_fresh: "replicate (Suc (sum_list (map length ws))) c \<notin> set ws"
proof
  let ?w = "replicate (Suc (sum_list (map length ws))) c"
  assume "?w \<in> set ws"
  then have "length ?w \<in> set (map length ws)" by (metis imageI list.set_map)
  then have "length ?w \<le> sum_list (map length ws)" by (rule member_le_sum_list) simp
  then show False by simp
qed

definition busy_env :: "bool env" where
  "busy_env = demo_env\<lparr>env_streaming := \<lambda>_ _. True,
     env_new_id := \<lambda>rt. replicate (Suc (sum_list (map length
       (map eid (entries (rt_store rt)) @ map qm_id (rt_queue rt))))) CHR ''x''\<rparr>"

lemma busy_env_fresh: "fresh_ids busy_env"
  unfolding fresh_ids_def
proof
  fix rt :: "bool runtime"
  show "env_new_id busy_env rt \<notin> eid ` set (entries (rt_store rt)) \<and>
      env_new_id busy_env rt \<notin> qm_id ` set (rt_queue rt)"
    using replicate_fresh [of "map eid (entries (rt_store rt)) @ map qm_id (rt_queue rt)" "CHR ''x''"]
    by (simp add: busy_env_def)
qed

definition busy_runtime :: "bool runtime" where
  "busy_runtime = (demo_runtime [])\<lparr>rt_store := three_runs\<rparr>"

theorem queued_prompt_logged_twice_witness:
  "\<exists>res rt1 res' rt2. handle_prompt busy_env busy_runtime ''a'' ''hi'' = (res, rt1) \<and>
    process_queue (busy_env\<lparr>env_streaming := \<lambda>_ _. False\<rparr>) (rt1\<lparr>rt_now := 7\<rparr>) ''a'' = (res', rt2) \<and>
    logged rt2 ''a'' = logged busy_runtime ''a'' @
      [prompt_message ''hi'' (rt_now busy_runtime), prompt_message ''hi'' 7]"
proof -
  obtain res rt1 where one: "handle_prompt busy_env busy_runtime ''a'' ''hi'' = (res, rt1)" by force
  obtain res' rt2 where two:
    "process_queue (busy_env\<lparr>env_streaming := \<lambda>_ _. False\<rparr>) (rt1\<lparr>rt_now := 7\<rparr>) ''a'' = (res', rt2)"
    by force
  have "get_session (rt_store busy_runtime) ''a'' \<noteq> None" "rt_queue busy_runtime = []"
    "env_bundle busy_env = None" "\<And>rt. env_streaming busy_env rt ''a''"
    "\<And>i p rt. rt_store (snd (env_turn busy_env i p rt)) = rt_store rt"
    by (simp_all add: busy_runtime_def demo_runtime_def three_runs_def get_session_def get_row_def
        busy_env_def demo_env_def)
  from queued_prompt_logged_twice [OF busy_env_fresh this one two] one two show ?thesis by blast
qed

end
