(* ===== verification/Rate_Limiter.thy ===== *)
theory Rate_Limiter
  imports Prelude
begin

text \<open>
  \<open>packages/runtime/agent-runtime/src/rate-limit/sliding-window.ts\<close>: the rate limiter every
  channel of the runtime goes through. One row per bucket key and kind of window; \<open>consume\<close>
  reads the minute bucket (and the hour bucket when an hourly limit is given), decides, and
  writes both. The clock is an argument, in milliseconds. The lemmas follow one bucket
  through a run of calls and bound how many of them are allowed in any window.
\<close>

section \<open>The limiter\<close>

datatype window_kind = Minute | Hour

definition minute_ms :: int where "minute_ms = 60000"
definition hour_ms :: int where "hour_ms = 60 * 60000"

record bucket =
  bk_key :: string
  bk_kind :: window_kind
  bk_start :: int
  bk_count :: int

datatype verdict = Allowed | Minute_Exceeded | Hour_Exceeded

record request =
  rq_key :: string
  rq_minute :: int
  rq_hour :: "int option"
  rq_now :: int

definition bucket_pk :: "bucket \<Rightarrow> string \<times> window_kind" where
  "bucket_pk b = (bk_key b, bk_kind b)"

definition read_bucket :: "bucket list \<Rightarrow> string \<Rightarrow> window_kind \<Rightarrow> bucket option" where
  "read_bucket t k kind = get_row bucket_pk (k, kind) t"

text \<open>\<open>None\<close> is the primary-key error of the insert.\<close>

definition write_bucket ::
  "bucket list \<Rightarrow> string \<Rightarrow> window_kind \<Rightarrow> bool \<Rightarrow> int \<Rightarrow> int \<Rightarrow> bucket list option" where
  "write_bucket t k kind row_exists start cnt =
     (if row_exists
      then Some (update_rows (\<lambda>b. bucket_pk b = (k, kind))
                  (\<lambda>b. b\<lparr>bk_start := start, bk_count := cnt\<rparr>) t)
      else insert_row bucket_pk \<lparr>bk_key = k, bk_kind = kind, bk_start = start, bk_count = cnt\<rparr> t)"

definition window_start :: "bucket option \<Rightarrow> int \<Rightarrow> int \<Rightarrow> int" where
  "window_start row now window =
     (case row of
        None \<Rightarrow> now
      | Some b \<Rightarrow> if now - bk_start b \<ge> window then now else bk_start b)"

definition window_count :: "bucket option \<Rightarrow> int \<Rightarrow> int" where
  "window_count row start =
     (case row of None \<Rightarrow> 0 | Some b \<Rightarrow> if bk_start b = start then bk_count b else 0)"

definition consume :: "bucket list \<Rightarrow> request \<Rightarrow> (verdict \<times> bucket list) option" where
  "consume t r =
     (let k = rq_key r; now = rq_now r;
          minute_row = read_bucket t k Minute;
          hour_row = (if rq_hour r \<noteq> None then read_bucket t k Hour else None);
          minute_start = window_start minute_row now minute_ms;
          minute_count = window_count minute_row minute_start;
          hour_start = (if rq_hour r \<noteq> None then window_start hour_row now hour_ms else 0);
          hour_count = (if rq_hour r \<noteq> None then window_count hour_row hour_start else 0)
      in if minute_count \<ge> rq_minute r then Some (Minute_Exceeded, t)
         else if rq_hour r \<noteq> None \<and> hour_count \<ge> the (rq_hour r) then Some (Hour_Exceeded, t)
         else case write_bucket t k Minute (minute_row \<noteq> None) minute_start (minute_count + 1) of
                None \<Rightarrow> None
              | Some t1 \<Rightarrow>
                  if rq_hour r \<noteq> None
                  then case write_bucket t1 k Hour (hour_row \<noteq> None) hour_start (hour_count + 1) of
                         None \<Rightarrow> None
                       | Some t2 \<Rightarrow> Some (Allowed, t2)
                  else Some (Allowed, t1))"

text \<open>A run of calls; \<open>allowed_times\<close> lists when the calls for a key were let through.\<close>

primrec consume_all :: "request list \<Rightarrow> bucket list \<Rightarrow> (verdict list \<times> bucket list) option" where
  "consume_all [] t = Some ([], t)"
| "consume_all (r # rs) t =
     (case consume t r of
        None \<Rightarrow> None
      | Some (v, t') \<Rightarrow> map_option (\<lambda>(vs, t''). (v # vs, t'')) (consume_all rs t'))"

definition allowed_times :: "string \<Rightarrow> request list \<Rightarrow> verdict list \<Rightarrow> int list" where
  "allowed_times k rs vs =
     map (rq_now \<circ> fst) (filter (\<lambda>(r, v). rq_key r = k \<and> v = Allowed) (zip rs vs))"

definition count_in :: "int \<Rightarrow> int \<Rightarrow> int list \<Rightarrow> nat" where
  "count_in lo hi ts = length (filter (\<lambda>t. lo \<le> t \<and> t < hi) ts)"

section \<open>One call, bucket by bucket\<close>

text \<open>What a call does to the bucket of a key and kind: nothing, or one more in its window.\<close>

definition charged :: "bucket option \<Rightarrow> int \<Rightarrow> int \<Rightarrow> int \<times> int" where
  "charged row now window =
     (let s = window_start row now window in (s, window_count row s + 1))"

definition bucket_value :: "bucket list \<Rightarrow> string \<Rightarrow> window_kind \<Rightarrow> (int \<times> int) option" where
  "bucket_value t k kind = map_option (\<lambda>b. (bk_start b, bk_count b)) (read_bucket t k kind)"

lemma write_bucket_value:
  "\<exists>t'. write_bucket t k kind (read_bucket t k kind \<noteq> None) s c = Some t' \<and>
     (\<forall>k' kind'. bucket_value t' k' kind' =
        (if k' = k \<and> kind' = kind then Some (s, c) else bucket_value t k' kind'))"
proof (cases "read_bucket t k kind")
  case None
  let ?b = "\<lparr>bk_key = k, bk_kind = kind, bk_start = s, bk_count = c\<rparr>"
  have pk: "bucket_pk ?b = (k, kind)" by (simp add: bucket_pk_def)
  from None have ins: "insert_row bucket_pk ?b t = Some (t @ [?b])"
    by (auto simp: read_bucket_def get_row_None_iff insert_row_def pk)
  show ?thesis
    using None ins get_row_insert [OF ins]
    by (simp add: write_bucket_def bucket_value_def read_bucket_def pk)
next
  case (Some b)
  have keep: "bucket_pk (x\<lparr>bk_start := s, bk_count := c\<rparr>) = bucket_pk x" for x
    by (simp add: bucket_pk_def)
  have upd: "read_bucket (update_rows (\<lambda>b. bucket_pk b = (k, kind))
      (\<lambda>b. b\<lparr>bk_start := s, bk_count := c\<rparr>) t) k' kind' =
    map_option (\<lambda>b. if bucket_pk b = (k, kind) then b\<lparr>bk_start := s, bk_count := c\<rparr> else b)
      (read_bucket t k' kind')" for k' kind'
    unfolding read_bucket_def by (rule get_row_update) (rule keep)
  have pk: "read_bucket t k' kind' = Some x \<Longrightarrow> bucket_pk x = (k', kind')" for k' kind' x
    unfolding read_bucket_def by (drule get_row_SomeD) simp
  have "bucket_value (update_rows (\<lambda>b. bucket_pk b = (k, kind))
      (\<lambda>b. b\<lparr>bk_start := s, bk_count := c\<rparr>) t) k' kind' =
    (if k' = k \<and> kind' = kind then Some (s, c) else bucket_value t k' kind')" for k' kind'
    using Some pk [of k' kind']
    by (cases "read_bucket t k' kind'") (auto simp: bucket_value_def upd)
  then show ?thesis using Some by (auto simp: write_bucket_def)
qed

lemma consume_cases:
  obtains (minute) "consume t r = Some (Minute_Exceeded, t)"
      "rq_minute r \<le> snd (charged (read_bucket t (rq_key r) Minute) (rq_now r) minute_ms) - 1"
  | (hour) h where "consume t r = Some (Hour_Exceeded, t)" "rq_hour r = Some h"
      "h \<le> snd (charged (read_bucket t (rq_key r) Hour) (rq_now r) hour_ms) - 1"
  | (allowed) t' where "consume t r = Some (Allowed, t')"
      "snd (charged (read_bucket t (rq_key r) Minute) (rq_now r) minute_ms) \<le> rq_minute r"
      "\<And>h. rq_hour r = Some h \<Longrightarrow>
         snd (charged (read_bucket t (rq_key r) Hour) (rq_now r) hour_ms) \<le> h"
      "\<And>k. bucket_value t' k Minute =
         (if k = rq_key r then Some (charged (read_bucket t k Minute) (rq_now r) minute_ms)
          else bucket_value t k Minute)"
      "\<And>k. bucket_value t' k Hour =
         (if k = rq_key r \<and> rq_hour r \<noteq> None
          then Some (charged (read_bucket t k Hour) (rq_now r) hour_ms)
          else bucket_value t k Hour)"
proof -
  let ?k = "rq_key r"
  obtain ms mc where m: "charged (read_bucket t ?k Minute) (rq_now r) minute_ms = (ms, mc + 1)"
    "window_start (read_bucket t ?k Minute) (rq_now r) minute_ms = ms"
    "window_count (read_bucket t ?k Minute) ms = mc"
    by (simp add: charged_def)
  obtain hs hc where h: "charged (read_bucket t ?k Hour) (rq_now r) hour_ms = (hs, hc + 1)"
    "window_start (read_bucket t ?k Hour) (rq_now r) hour_ms = hs"
    "window_count (read_bucket t ?k Hour) hs = hc"
    by (simp add: charged_def)
  obtain t1 where t1: "write_bucket t ?k Minute (read_bucket t ?k Minute \<noteq> None) ms (mc + 1) = Some t1"
    "\<And>k' kind'. bucket_value t1 k' kind' =
        (if k' = ?k \<and> kind' = Minute then Some (ms, mc + 1) else bucket_value t k' kind')"
    using write_bucket_value by blast
  have same: "(read_bucket t1 ?k Hour = None) = (read_bucket t ?k Hour = None)"
    using t1(2) [of ?k Hour] by (auto simp: bucket_value_def)
  obtain t2 where t2: "write_bucket t1 ?k Hour (read_bucket t ?k Hour \<noteq> None) hs (hc + 1) = Some t2"
    "\<And>k' kind'. bucket_value t2 k' kind' =
        (if k' = ?k \<and> kind' = Hour then Some (hs, hc + 1) else bucket_value t1 k' kind')"
    using write_bucket_value [of t1 ?k Hour hs "hc + 1"] same by auto
  show thesis
  proof (cases "rq_minute r \<le> mc")
    case True
    then show thesis using minute m by (simp add: consume_def Let_def)
  next
    case small: False
    show thesis
    proof (cases "rq_hour r")
      case None
      then show thesis
        using allowed [of t1] small m t1 by (simp add: consume_def Let_def)
    next
      case (Some l)
      show thesis
      proof (cases "l \<le> hc")
        case True
        then show thesis using hour [of l] small Some m h by (simp add: consume_def Let_def)
      next
        case False
        then show thesis
          using allowed [of t2] small Some m h t1 t2 by (simp add: consume_def Let_def)
      qed
    qed
  qed
qed

section \<open>The calls one bucket lets through\<close>

lemma count_in_append [simp]: "count_in lo hi (xs @ ys) = count_in lo hi xs + count_in lo hi ys"
  by (simp add: count_in_def)

lemma count_in_simps [simp]:
  "count_in lo hi [] = 0"
  "count_in lo hi (t # ts) = (if lo \<le> t \<and> t < hi then Suc (count_in lo hi ts) else count_in lo hi ts)"
  by (simp_all add: count_in_def)

lemma count_in_length: "count_in lo hi ts \<le> length ts"
  by (simp add: count_in_def)

lemma count_in_mono: "lo \<le> lo' \<Longrightarrow> hi' \<le> hi \<Longrightarrow> count_in lo' hi' ts \<le> count_in lo hi ts"
  by (induction ts) auto

lemma count_in_none: "(\<And>t. t \<in> set ts \<Longrightarrow> t < lo \<or> hi \<le> t) \<Longrightarrow> count_in lo hi ts = 0"
  by (induction ts) (auto simp: linorder_not_less [symmetric])

text \<open>
  The times \<open>ts\<close> a bucket of window \<open>W\<close> and limit \<open>m\<close> let through: the last window starts
  with its first call, holds as many calls as the row counts, and the window before it
  left at most \<open>m - 1\<close> calls within reach of it.
\<close>

definition bucket_trace :: "int \<Rightarrow> int \<Rightarrow> (int \<times> int) option \<Rightarrow> int list \<Rightarrow> bool" where
  "bucket_trace W m b ts \<longleftrightarrow>
     (\<forall>T. count_in T (T + W) ts \<le> 2 * nat m - 1) \<and>
     (case b of
        None \<Rightarrow> ts = []
      | Some (w, c) \<Rightarrow> \<exists>old new. ts = old @ w # new \<and> c = 1 + int (length new) \<and> c \<le> m \<and>
          (\<forall>t \<in> set new. w \<le> t \<and> t < w + W) \<and> (\<forall>t \<in> set old. t < w) \<and>
          Suc (count_in (w - W + 1) w old) \<le> nat m)"

lemma bucket_trace_empty: "bucket_trace W m None []"
  by (simp add: bucket_trace_def)

lemma bucket_trace_charged:
  assumes tr: "bucket_trace W m (map_option (\<lambda>b. (bk_start b, bk_count b)) row) ts"
    and W: "0 < W" and past: "\<forall>t \<in> set ts. t \<le> now"
    and le: "snd (charged row now W) \<le> m"
  shows "bucket_trace W m (Some (charged row now W)) (ts @ [now])"
proof (cases row)
  case None
  then have "ts = []" "charged row now W = (now, 1)"
    using tr by (simp_all add: bucket_trace_def charged_def window_start_def window_count_def)
  moreover from this(2) le have "1 \<le> m" by simp
  ultimately show ?thesis
    unfolding bucket_trace_def by auto
next
  case (Some b)
  let ?w = "bk_start b"
  obtain old new where ts: "ts = old @ ?w # new" "bk_count b = 1 + int (length new)" "bk_count b \<le> m"
    and new: "\<forall>t \<in> set new. ?w \<le> t \<and> t < ?w + W" and old: "\<forall>t \<in> set old. t < ?w"
    and gap: "Suc (count_in (?w - W + 1) ?w old) \<le> nat m"
    and all: "\<forall>T. count_in T (T + W) ts \<le> 2 * nat m - 1"
    using tr Some by (auto simp: bucket_trace_def)
  have w_le: "?w \<le> now" using past ts(1) by simp
  have bound: "count_in T (T + W) (o' @ now' @ [now]) \<le> 2 * nat m - 1"
    if "ts = o' @ now'" "Suc (length now') \<le> nat m" "Suc (count_in (now - W + 1) (now + 1) o') \<le> nat m"
    for T o' now'
  proof (cases "T \<le> now \<and> now < T + W")
    case False
    then have "count_in T (T + W) (o' @ now' @ [now]) = count_in T (T + W) ts"
      using that(1) by auto
    with all show ?thesis by metis
  next
    case True
    have "filter (\<lambda>t. T \<le> t \<and> t < T + W) o' = filter (\<lambda>t. T \<le> t \<and> t < now + 1) o'"
    proof (rule filter_cong [OF refl])
      fix x assume "x \<in> set o'"
      then have "x \<le> now" using past that(1) by simp
      then show "(T \<le> x \<and> x < T + W) = (T \<le> x \<and> x < now + 1)" using True by linarith
    qed
    then have "count_in T (T + W) o' = count_in T (now + 1) o'" by (simp add: count_in_def)
    also have "\<dots> \<le> count_in (now - W + 1) (now + 1) o'" using True by (intro count_in_mono) auto
    finally have "count_in T (T + W) o' \<le> nat m - 1" using that(3) by linarith
    moreover have "count_in T (T + W) now' \<le> nat m - 1"
      using count_in_length [of T "T + W" now'] that(2) by linarith
    ultimately show ?thesis using True that(2) by simp
  qed
  show ?thesis
  proof (cases "W \<le> now - ?w")
    case True
    have ch: "charged row now W = (now, 1)"
      using Some True W by (simp add: charged_def window_start_def window_count_def)
    have "count_in (now - W + 1) (now + 1) (old @ [?w]) = 0"
      using old True by (intro count_in_none) auto
    then have few: "Suc (count_in (now - W + 1) (now + 1) ts) \<le> nat m"
      using ts count_in_length [of "now - W + 1" "now + 1" new] by auto
    then have "Suc (count_in (now - W + 1) now ts) \<le> nat m"
      using count_in_mono [of "now - W + 1" "now - W + 1" now "now + 1" ts] by simp
    moreover have "\<forall>t \<in> set ts. t < now" using ts(1) old new True W by auto
    moreover have "count_in T (T + W) (ts @ [now]) \<le> 2 * nat m - 1" for T
      using bound [of ts "[]"] few by simp
    ultimately show ?thesis
      unfolding bucket_trace_def ch using le ch by auto
  next
    case False
    have ch: "charged row now W = (?w, 1 + int (length (new @ [now])))"
      using Some False ts(2) by (simp add: charged_def window_start_def window_count_def)
    have len: "Suc (length (?w # new)) \<le> nat m" using le ch by simp
    have "count_in (now - W + 1) (now + 1) old \<le> count_in (?w - W + 1) ?w old"
    proof -
      have "filter (\<lambda>t. now - W + 1 \<le> t \<and> t < now + 1) old = filter (\<lambda>t. now - W + 1 \<le> t \<and> t < ?w) old"
        using old w_le by (intro filter_cong) auto
      then show ?thesis
        using count_in_mono [of "?w - W + 1" "now - W + 1" ?w ?w old] w_le
        by (simp add: count_in_def)
    qed
    then have "Suc (count_in (now - W + 1) (now + 1) old) \<le> nat m" using gap by linarith
    then have "count_in T (T + W) (ts @ [now]) \<le> 2 * nat m - 1" for T
      using bound [of old "?w # new"] ts(1) len by simp
    moreover have "ts @ [now] = old @ ?w # (new @ [now])" using ts(1) by simp
    moreover have "\<forall>t \<in> set (new @ [now]). ?w \<le> t \<and> t < ?w + W" using new w_le False by auto
    ultimately show ?thesis
      unfolding bucket_trace_def ch option.case prod.case using le ch old gap by fastforce
  qed
qed

text \<open>A full bucket has let its limit through within the window.\<close>

lemma bucket_trace_full:
  assumes "bucket_trace W m (map_option (\<lambda>b. (bk_start b, bk_count b)) row) ts"
    and "0 < W" "0 < l" "l \<le> snd (charged row now W) - 1" "\<forall>t \<in> set ts. t \<le> now"
  shows "nat l \<le> count_in (now - W + 1) (now + 1) ts"
proof (cases row)
  case None
  then show ?thesis using assms(3,4) by (simp add: charged_def window_start_def window_count_def)
next
  case (Some b)
  let ?w = "bk_start b"
  obtain old new where ts: "ts = old @ ?w # new" "bk_count b = 1 + int (length new)"
    and new: "\<forall>t \<in> set new. ?w \<le> t \<and> t < ?w + W"
    using assms(1) Some by (auto simp: bucket_trace_def)
  have inw: "now - ?w < W"
  proof (rule ccontr)
    assume "\<not> ?thesis"
    then have "charged row now W = (now, 1)"
      using Some assms(2) by (simp add: charged_def window_start_def window_count_def)
    with assms(3,4) show False by simp
  qed
  then have "charged row now W = (?w, bk_count b + 1)"
    using Some by (simp add: charged_def window_start_def window_count_def)
  with assms(4) ts(2) have "nat l \<le> length (?w # new)" by auto
  moreover have "filter (\<lambda>t. now - W + 1 \<le> t \<and> t < now + 1) (?w # new) = ?w # new"
    using new inw assms(5) ts(1) by (auto simp: filter_id_conv)
  ultimately have "nat l \<le> count_in (now - W + 1) (now + 1) (?w # new)"
    by (simp only: count_in_def)
  then show ?thesis using ts(1) by simp
qed

section \<open>Runs of calls\<close>

lemma consume_total: "\<exists>v t'. consume t r = Some (v, t')"
  by (rule consume_cases [of t r]) auto

lemma consume_all_total: "\<exists>vs t'. consume_all rs t = Some (vs, t')"
proof (induction rs arbitrary: t)
  case (Cons r rs)
  obtain v t1 where "consume t r = Some (v, t1)" using consume_total by blast
  moreover obtain vs t2 where "consume_all rs t1 = Some (vs, t2)" using Cons by blast
  ultimately show ?case by simp
qed simp

lemma consume_all_Cons:
  assumes "consume_all (r # rs) t = Some (vs, t')"
  obtains v t1 vs' where "consume t r = Some (v, t1)" "consume_all rs t1 = Some (vs', t')" "vs = v # vs'"
  using assms by (auto split: option.splits)

lemma allowed_times_Cons:
  "allowed_times k (r # rs) (v # vs) =
     (if rq_key r = k \<and> v = Allowed then rq_now r # allowed_times k rs vs else allowed_times k rs vs)"
  by (simp add: allowed_times_def)

text \<open>The bucket of one key and kind, charged by exactly the calls that are let through.\<close>

definition window_of :: "window_kind \<Rightarrow> int" where
  "window_of kind = (case kind of Minute \<Rightarrow> minute_ms | Hour \<Rightarrow> hour_ms)"

definition limit_of :: "window_kind \<Rightarrow> request \<Rightarrow> int option" where
  "limit_of kind r = (case kind of Minute \<Rightarrow> Some (rq_minute r) | Hour \<Rightarrow> rq_hour r)"

lemma window_pos: "0 < window_of kind"
  by (cases kind) (simp_all add: window_of_def minute_ms_def hour_ms_def)

lemma consume_bucket:
  assumes "consume t r = Some (v, t')" "rq_key r = k \<longrightarrow> limit_of kind r = Some m"
  shows "if rq_key r = k \<and> v = Allowed
    then bucket_value t' k kind = Some (charged (read_bucket t k kind) (rq_now r) (window_of kind)) \<and>
         snd (charged (read_bucket t k kind) (rq_now r) (window_of kind)) \<le> m
    else bucket_value t' k kind = bucket_value t k kind"
  by (rule consume_cases [of t r]; cases kind)
     (use assms in \<open>auto simp: window_of_def limit_of_def\<close>)

lemma run_bucket_trace:
  assumes "consume_all rs t = Some (vs, t')" "sorted (map rq_now rs)"
    and "\<forall>r \<in> set rs. rq_key r = k \<longrightarrow> limit_of kind r = Some m"
    and "bucket_trace (window_of kind) m (bucket_value t k kind) ts"
    and "\<forall>s \<in> set ts. \<forall>r \<in> set rs. s \<le> rq_now r"
  shows "bucket_trace (window_of kind) m (bucket_value t' k kind) (ts @ allowed_times k rs vs)"
  using assms
proof (induction rs arbitrary: t ts vs)
  case Nil
  then show ?case by (simp add: allowed_times_def)
next
  case (Cons r rs)
  obtain v t1 vs' where st: "consume t r = Some (v, t1)" "consume_all rs t1 = Some (vs', t')"
    "vs = v # vs'"
    by (rule consume_all_Cons [OF Cons.prems(1)])
  have lim: "rq_key r = k \<longrightarrow> limit_of kind r = Some m" using Cons.prems(3) by simp
  note step = consume_bucket [OF st(1) lim]
  show ?case
  proof (cases "rq_key r = k \<and> v = Allowed")
    case True
    then have val: "bucket_value t1 k kind =
        Some (charged (read_bucket t k kind) (rq_now r) (window_of kind))"
      "snd (charged (read_bucket t k kind) (rq_now r) (window_of kind)) \<le> m"
      using step by simp_all
    have "bucket_trace (window_of kind) m (bucket_value t1 k kind) (ts @ [rq_now r])"
      unfolding val(1) using Cons.prems(4,5) val(2) window_pos [of kind]
      by (intro bucket_trace_charged) (simp_all add: bucket_value_def)
    then have "bucket_trace (window_of kind) m (bucket_value t' k kind)
        ((ts @ [rq_now r]) @ allowed_times k rs vs')"
      using Cons.prems(2,3,5) by (intro Cons.IH [OF st(2)]) auto
    with True st(3) show ?thesis by (simp add: allowed_times_Cons)
  next
    case False
    then have "bucket_trace (window_of kind) m (bucket_value t1 k kind) ts"
      using step Cons.prems(4) by simp
    then have "bucket_trace (window_of kind) m (bucket_value t' k kind) (ts @ allowed_times k rs vs')"
      using Cons.prems(2,3,5) by (intro Cons.IH [OF st(2)]) auto
    with False st(3) show ?thesis by (auto simp: allowed_times_Cons)
  qed
qed

lemma run_from_empty:
  assumes "consume_all rs [] = Some (vs, t)" "sorted (map rq_now rs)"
    and "\<forall>r \<in> set rs. rq_key r = k \<longrightarrow> limit_of kind r = Some m"
  shows "bucket_trace (window_of kind) m (bucket_value t k kind) (allowed_times k rs vs)"
  using run_bucket_trace [OF assms, of "[]"]
  by (simp add: bucket_value_def read_bucket_def table_simps bucket_trace_empty)

text \<open>C19: Whatever calls are made, for any keys, at times that do not run backwards, \<open>consume\<close>
  never fails; and the calls for one key under a limit of \<open>m\<close> per minute are let through at
  most \<open>2m - 1\<close> times in any 60 seconds (under an hourly limit \<open>h\<close>, at most \<open>2h - 1\<close> times in
  any hour).\<close>

theorem rate_limit_bound:
  assumes "sorted (map rq_now rs)"
    and "\<forall>r \<in> set rs. rq_key r = k \<longrightarrow> rq_minute r = m"
  shows "\<exists>vs t. consume_all rs [] = Some (vs, t) \<and>
    (\<forall>T. count_in T (T + minute_ms) (allowed_times k rs vs) \<le> 2 * nat m - 1) \<and>
    (\<forall>h. (\<forall>r \<in> set rs. rq_key r = k \<longrightarrow> rq_hour r = Some h) \<longrightarrow>
       (\<forall>T. count_in T (T + hour_ms) (allowed_times k rs vs) \<le> 2 * nat h - 1))"
proof -
  obtain vs t where run: "consume_all rs [] = Some (vs, t)" using consume_all_total by blast
  have bound: "count_in T (T + window_of kind) (allowed_times k rs vs) \<le> 2 * nat l - 1"
    if "\<forall>r \<in> set rs. rq_key r = k \<longrightarrow> limit_of kind r = Some l" for kind l T
    using run_from_empty [OF run assms(1) that] by (simp add: bucket_trace_def)
  show ?thesis
    using run assms(2) bound [of Minute m] bound [of Hour]
    by (auto simp: window_of_def limit_of_def)
qed

definition demo_requests :: "request list" where
  "demo_requests = map (\<lambda>t. \<lparr>rq_key = ''k'', rq_minute = 2, rq_hour = Some 100, rq_now = t\<rparr>)
     [0, 59999, 59999, 60000, 60001, 60002]"

theorem rate_limit_bound_witness:
  "\<exists>vs t. consume_all demo_requests [] = Some (vs, t) \<and>
    (\<forall>T. count_in T (T + minute_ms) (allowed_times ''k'' demo_requests vs) \<le> 2 * nat 2 - 1) \<and>
    (\<forall>h. (\<forall>r \<in> set demo_requests. rq_key r = ''k'' \<longrightarrow> rq_hour r = Some h) \<longrightarrow>
       (\<forall>T. count_in T (T + hour_ms) (allowed_times ''k'' demo_requests vs) \<le> 2 * nat h - 1))"
  by (rule rate_limit_bound) (simp_all add: demo_requests_def)

text \<open>A refused call leaves the table as it is, and a refusal is deserved: when \<open>consume\<close>
  says that the limit of \<open>m\<close> per minute is exceeded, at least \<open>m\<close> calls for this key were let
  through in the last 60 seconds.\<close>

theorem refusal_is_deserved:
  assumes "consume_all rs [] = Some (vs, t)" and "sorted (map rq_now (rs @ [r]))"
    and "\<forall>x \<in> set (rs @ [r]). rq_key x = rq_key r \<longrightarrow> rq_minute x = m" and "0 < m"
    and "consume t r = Some (v, t')" and "v \<noteq> Allowed"
  shows "t' = t \<and> (v = Minute_Exceeded \<longrightarrow>
    nat m \<le> count_in (rq_now r - minute_ms + 1) (rq_now r + 1) (allowed_times (rq_key r) rs vs))"
proof (intro conjI impI)
  show "t' = t" using assms(5,6) by (rule_tac consume_cases [of t r]) auto
  assume v: "v = Minute_Exceeded"
  have "m \<le> snd (charged (read_bucket t (rq_key r) Minute) (rq_now r) minute_ms) - 1"
    using assms(3,5) v by (rule_tac consume_cases [of t r]) auto
  moreover have "bucket_trace minute_ms m
      (map_option (\<lambda>b. (bk_start b, bk_count b)) (read_bucket t (rq_key r) Minute))
      (allowed_times (rq_key r) rs vs)"
    using run_from_empty [OF assms(1), of "rq_key r" Minute m] assms(2,3)
    by (simp add: sorted_append limit_of_def window_of_def bucket_value_def)
  moreover have "\<forall>x \<in> set (allowed_times (rq_key r) rs vs). x \<le> rq_now r"
    using assms(2) by (auto simp: allowed_times_def sorted_append dest: set_zip_leftD)
  ultimately show "nat m \<le> count_in (rq_now r - minute_ms + 1) (rq_now r + 1)
      (allowed_times (rq_key r) rs vs)"
    using assms(4) by (intro bucket_trace_full) (simp_all add: minute_ms_def)
qed

theorem refusal_is_deserved_witness:
  "\<exists>vs t t'. consume_all demo_requests [] = Some (vs, t) \<and>
    consume t (demo_requests ! 5) = Some (Minute_Exceeded, t') \<and> t' = t \<and>
    nat 2 \<le> count_in (60002 - minute_ms + 1) (60002 + 1) (allowed_times ''k'' demo_requests vs)"
proof -
  let ?r = "demo_requests ! 5"
  obtain vs t t' where run: "consume_all demo_requests [] = Some (vs, t)"
    "consume t ?r = Some (Minute_Exceeded, t')"
    by (simp add: demo_requests_def consume_def Let_def read_bucket_def get_row_def
        window_start_def window_count_def write_bucket_def insert_row_def update_rows_def
        bucket_pk_def minute_ms_def hour_ms_def)
  have key: "rq_key ?r = ''k''" "rq_now ?r = 60002" by (simp_all add: demo_requests_def)
  have "t' = t \<and> (Minute_Exceeded = Minute_Exceeded \<longrightarrow>
    nat 2 \<le> count_in (rq_now ?r - minute_ms + 1) (rq_now ?r + 1)
      (allowed_times (rq_key ?r) demo_requests vs))"
    by (rule refusal_is_deserved [OF run(1) _ _ _ run(2)]) (simp_all add: demo_requests_def)
  with run key show ?thesis by auto
qed

text \<open>The bound is reached: 1, then 2 calls at the end of the window, then 3 in two milliseconds.\<close>

lemma demo_burst:
  "map_option fst (consume_all demo_requests []) =
     Some [Allowed, Allowed, Minute_Exceeded, Allowed, Allowed, Minute_Exceeded]"
  by (simp add: demo_requests_def consume_def Let_def read_bucket_def get_row_def
      window_start_def window_count_def write_bucket_def insert_row_def update_rows_def
      bucket_pk_def minute_ms_def hour_ms_def)

end
