(* ===== verification/Tool_Repair.thy ===== *)
theory Tool_Repair
  imports Json_Text
begin

text \<open>
  \<open>packages/runtime/agent-core/src/tool-call-repair.ts\<close>: what the agent loop does with a tool
  name it does not know. The edit distance is computed in place in a matrix, row by row; the
  lemmas show that the matrix holds the edit distance of all prefixes, so that the loop
  agrees with the recursive definition. \<open>toLowerCase\<close> is modelled for ASCII letters and the
  accented Latin-1 letters.
\<close>

section \<open>The matrix\<close>

type_synonym matrix = "nat list list"

definition cell :: "matrix \<Rightarrow> nat \<Rightarrow> nat \<Rightarrow> nat" where
  "cell dp i j = dp ! i ! j"

definition set_cell :: "nat \<Rightarrow> nat \<Rightarrow> nat \<Rightarrow> matrix \<Rightarrow> matrix" where
  "set_cell i j v dp = dp[i := (dp ! i)[j := v]]"

definition zero_matrix :: "nat \<Rightarrow> nat \<Rightarrow> matrix" where
  "zero_matrix m n = replicate (m + 1) (replicate (n + 1) 0)"

definition first_column :: "nat \<Rightarrow> matrix \<Rightarrow> matrix" where
  "first_column m dp = fold (\<lambda>i. set_cell i 0 i) [0..<m + 1] dp"

definition first_row :: "nat \<Rightarrow> matrix \<Rightarrow> matrix" where
  "first_row n dp = fold (\<lambda>j. set_cell 0 j j) [0..<n + 1] dp"

definition lev_cell :: "string \<Rightarrow> string \<Rightarrow> nat \<Rightarrow> nat \<Rightarrow> matrix \<Rightarrow> matrix" where
  "lev_cell a b i j dp =
     set_cell i j
       (if a ! (i - 1) = b ! (j - 1) then cell dp (i - 1) (j - 1)
        else 1 + min (cell dp (i - 1) j) (min (cell dp i (j - 1)) (cell dp (i - 1) (j - 1)))) dp"

definition levenshtein :: "string \<Rightarrow> string \<Rightarrow> nat" where
  "levenshtein a b =
     (let m = length a; n = length b;
          dp = first_row n (first_column m (zero_matrix m n));
          dp = fold (\<lambda>i. fold (lev_cell a b i) [1..<n + 1]) [1..<m + 1] dp
      in cell dp m n)"

section \<open>Choosing a tool\<close>

definition lower_char :: "char \<Rightarrow> char" where
  "lower_char c =
     (let n = (of_char c :: nat)
      in if 65 \<le> n \<and> n \<le> 90 \<or> 192 \<le> n \<and> n \<le> 222 \<and> n \<noteq> 215 then char_of (n + 32) else c)"

definition to_lower :: "string \<Rightarrow> string" where
  "to_lower = map lower_char"

fun closest_loop ::
  "string \<Rightarrow> string list \<Rightarrow> (string \<times> nat) option \<Rightarrow> (string \<times> nat) option" where
  "closest_loop name [] best = best"
| "closest_loop name (t # ts) best =
     (let d = levenshtein (to_lower name) (to_lower t)
      in closest_loop name ts
           (case best of
              None \<Rightarrow> Some (t, d)
            | Some (_, md) \<Rightarrow> if d < md then Some (t, d) else best))"

definition find_closest_tool :: "string \<Rightarrow> string list \<Rightarrow> string option" where
  "find_closest_tool name tools =
     (case closest_loop name tools None of
        None \<Rightarrow> None
      | Some (t, d) \<Rightarrow> if t \<noteq> [] \<and> d \<le> (length name + 1) div 2 then Some t else None)"

definition repair_tool_name :: "('t \<Rightarrow> string) \<Rightarrow> string \<Rightarrow> 't list \<Rightarrow> 't option" where
  "repair_tool_name tname name tools = find (\<lambda>t. to_lower (tname t) = to_lower name) tools"

definition tool_not_found_error :: "string \<Rightarrow> string list \<Rightarrow> string" where
  "tool_not_found_error name available =
     ''Tool '' @ [CHR 0x27] @ name @ [CHR 0x27] @ '' not found.'' @
     (case find_closest_tool name available of
        None \<Rightarrow> []
      | Some c \<Rightarrow> '' Did you mean '' @ [CHR 0x27] @ c @ [CHR 0x27] @ ''?'') @
     '' Available tools: '' @ join '', '' available"

section \<open>The edit distance\<close>

text \<open>The textbook recursion on the ends of the two strings (here: on reversed prefixes).\<close>

fun edit_distance :: "string \<Rightarrow> string \<Rightarrow> nat" where
  "edit_distance [] b = length b"
| "edit_distance a [] = length a"
| "edit_distance (x # a) (y # b) =
     (if x = y then edit_distance a b
      else 1 + min (edit_distance a (y # b)) (min (edit_distance (x # a) b) (edit_distance a b)))"

definition prefix_distance :: "string \<Rightarrow> string \<Rightarrow> nat \<Rightarrow> nat \<Rightarrow> nat" where
  "prefix_distance a b i j = edit_distance (rev (take i a)) (rev (take j b))"

lemma edit_distance_Nil2 [simp]: "edit_distance a [] = length a"
  by (cases a) simp_all

lemma prefix_distance_0: "i \<le> length a \<Longrightarrow> prefix_distance a b i 0 = i"
  "j \<le> length b \<Longrightarrow> prefix_distance a b 0 j = j"
  by (simp_all add: prefix_distance_def)

lemma prefix_distance_Suc:
  assumes "i < length a" "j < length b"
  shows "prefix_distance a b (Suc i) (Suc j) =
    (if a ! i = b ! j then prefix_distance a b i j
     else 1 + min (prefix_distance a b i (Suc j))
       (min (prefix_distance a b (Suc i) j) (prefix_distance a b i j)))"
  using assms by (simp add: prefix_distance_def take_Suc_conv_app_nth)

section \<open>What the matrix holds\<close>

definition shaped :: "nat \<Rightarrow> nat \<Rightarrow> matrix \<Rightarrow> bool" where
  "shaped m n dp \<longleftrightarrow> length dp = Suc m \<and> (\<forall>r \<in> set dp. length r = Suc n)"

lemma shaped_zero: "shaped m n (zero_matrix m n)"
  by (simp add: shaped_def zero_matrix_def)

lemma shaped_set_cell: "shaped m n dp \<Longrightarrow> i \<le> m \<Longrightarrow> shaped m n (set_cell i j v dp)"
  unfolding shaped_def set_cell_def
  by (auto dest!: set_update_subset_insert [THEN subsetD])

lemma cell_set_cell:
  assumes "shaped m n dp" "i \<le> m" "j \<le> n"
  shows "cell (set_cell i j v dp) i' j' = (if i' = i \<and> j' = j then v else cell dp i' j')"
proof -
  have "length dp = Suc m" "length (dp ! i) = Suc n"
    using assms by (auto simp: shaped_def)
  with assms show ?thesis
    by (cases "i' = i"; cases "j' = j") (simp_all add: cell_def set_cell_def)
qed

lemma first_column_cells:
  assumes "shaped m n dp" "k \<le> Suc m"
  shows "shaped m n (fold (\<lambda>i. set_cell i 0 i) [0..<k] dp) \<and>
    (\<forall>i j. cell (fold (\<lambda>i. set_cell i 0 i) [0..<k] dp) i j = (if i < k \<and> j = 0 then i else cell dp i j))"
  using assms(2)
proof (induction k)
  case (Suc k)
  then have "shaped m n (fold (\<lambda>i. set_cell i 0 i) [0..<k] dp)" "k \<le> m" by simp_all
  then show ?case using Suc by (auto simp: cell_set_cell shaped_set_cell less_Suc_eq)
qed (simp add: assms(1))

lemma first_row_cells:
  assumes "shaped m n dp" "k \<le> Suc n"
  shows "shaped m n (fold (\<lambda>j. set_cell 0 j j) [0..<k] dp) \<and>
    (\<forall>i j. cell (fold (\<lambda>j. set_cell 0 j j) [0..<k] dp) i j = (if i = 0 \<and> j < k then j else cell dp i j))"
  using assms(2)
proof (induction k)
  case (Suc k)
  then have "shaped m n (fold (\<lambda>j. set_cell 0 j j) [0..<k] dp)" "k \<le> n" by simp_all
  then show ?case using Suc by (auto simp: cell_set_cell shaped_set_cell less_Suc_eq)
qed (simp add: assms(1))

text \<open>\<open>known i j\<close>: rows below \<open>i\<close> are done, and row \<open>i\<close> is done up to column \<open>j\<close>.\<close>

definition known :: "string \<Rightarrow> string \<Rightarrow> nat \<Rightarrow> nat \<Rightarrow> matrix \<Rightarrow> bool" where
  "known a b i j dp \<longleftrightarrow> shaped (length a) (length b) dp \<and>
     (\<forall>i' \<le> length a. \<forall>j' \<le> length b. i' < i \<or> i' = i \<and> j' < j \<or> j' = 0 \<longrightarrow>
        cell dp i' j' = prefix_distance a b i' j')"

lemma knownD:
  "known a b i j dp \<Longrightarrow> i' \<le> length a \<Longrightarrow> j' \<le> length b \<Longrightarrow> i' < i \<or> i' = i \<and> j' < j \<or> j' = 0 \<Longrightarrow>
    cell dp i' j' = prefix_distance a b i' j'"
  unfolding known_def by blast

lemma known_cell:
  assumes "known a b i j dp" "0 < i" "i \<le> length a" "0 < j" "j \<le> length b"
  shows "known a b i (Suc j) (lev_cell a b i j dp)"
proof -
  obtain i0 j0 where ij: "i = Suc i0" "j = Suc j0" "i0 < length a" "j0 < length b"
    using assms by (cases i; cases j) auto
  have sh: "shaped (length a) (length b) dp" using assms(1) by (simp add: known_def)
  let ?v = "if a ! (i - 1) = b ! (j - 1) then cell dp (i - 1) (j - 1)
        else 1 + min (cell dp (i - 1) j) (min (cell dp i (j - 1)) (cell dp (i - 1) (j - 1)))"
  have "cell dp (i - 1) (j - 1) = prefix_distance a b i0 j0" "cell dp (i - 1) j = prefix_distance a b i0 (Suc j0)"
    "cell dp i (j - 1) = prefix_distance a b (Suc i0) j0"
    using ij by (auto intro!: knownD [OF assms(1)])
  then have v: "?v = prefix_distance a b i j"
    using ij prefix_distance_Suc [OF ij(3,4)] by simp
  have "cell (lev_cell a b i j dp) i' j' = (if i' = i \<and> j' = j then prefix_distance a b i j else cell dp i' j')"
    for i' j'
    unfolding lev_cell_def v using assms by (intro cell_set_cell [OF sh])
  moreover have "shaped (length a) (length b) (lev_cell a b i j dp)"
    unfolding lev_cell_def using assms(3) by (intro shaped_set_cell [OF sh])
  ultimately show ?thesis
    using assms(2,4) knownD [OF assms(1)] by (auto simp: known_def less_Suc_eq)
qed

lemma known_row:
  assumes "known a b i 1 dp" "0 < i" "i \<le> length a" "k \<le> length b"
  shows "known a b i (Suc k) (fold (lev_cell a b i) [1..<Suc k] dp)"
  using assms(4)
proof (induction k)
  case 0
  then show ?case using assms(1) by simp
next
  case (Suc k)
  then show ?case using known_cell [of a b i "Suc k"] assms by simp
qed

lemma known_next_row: "known a b i (Suc (length b)) dp \<Longrightarrow> known a b (Suc i) 1 dp"
  unfolding known_def by (metis less_Suc_eq less_one le_imp_less_Suc)

lemma known_rows:
  assumes "known a b 1 1 dp" "k \<le> length a"
  shows "known a b (Suc k) 1 (fold (\<lambda>i. fold (lev_cell a b i) [1..<length b + 1]) [1..<Suc k] dp)"
  using assms(2)
proof (induction k)
  case 0
  then show ?case using assms(1) by simp
next
  case (Suc k)
  then have "known a b (Suc k) (Suc (length b))
      (fold (lev_cell a b (Suc k)) [1..<Suc (length b)]
        (fold (\<lambda>i. fold (lev_cell a b i) [1..<length b + 1]) [1..<Suc k] dp))"
    by (intro known_row) auto
  from known_next_row [OF this] show ?case by simp
qed

lemma known_start: "known a b 1 1 (first_row (length b) (first_column (length a) (zero_matrix (length a) (length b))))"
proof -
  let ?z = "zero_matrix (length a) (length b)"
  let ?c = "first_column (length a) ?z"
  note col = first_column_cells [OF shaped_zero, of "length a + 1" "length a" "length b", simplified]
  have c: "shaped (length a) (length b) ?c" "\<And>i j. cell ?c i j = (if i < Suc (length a) \<and> j = 0 then i else cell ?z i j)"
    using col by (simp_all add: first_column_def)
  note row = first_row_cells [OF c(1), of "length b + 1", simplified]
  have "shaped (length a) (length b) (first_row (length b) ?c)"
    "\<And>i j. cell (first_row (length b) ?c) i j = (if i = 0 \<and> j < Suc (length b) then j else cell ?c i j)"
    using row by (simp_all add: first_row_def)
  then show ?thesis
    by (auto simp: known_def c(2) prefix_distance_0)
qed

text \<open>C22: The edit distance that the nested loops compute in the matrix equals the recursive
  definition of the edit distance of the reversed strings, for all strings.\<close>

theorem levenshtein_is_edit_distance: "levenshtein a b = edit_distance (rev a) (rev b)"
proof -
  have "known a b (Suc (length a)) 1
      (fold (\<lambda>i. fold (lev_cell a b i) [1..<length b + 1]) [1..<Suc (length a)]
        (first_row (length b) (first_column (length a) (zero_matrix (length a) (length b)))))"
    by (intro known_rows known_start) simp
  from knownD [OF this, of "length a" "length b"] show ?thesis
    by (simp add: levenshtein_def Let_def prefix_distance_def)
qed

end
