(* ===== verification/Agent_Loop.thy ===== *)
theory Agent_Loop
  imports Tool_Repair "HOL-Library.Multiset" "HOL-Library.Sublist"
begin

text \<open>
  \<open>packages/runtime/agent-core/src/agent-loop.ts\<close>: the loop that asks the model for a
  response, runs the tools it calls, injects steering and follow-up messages, and emits
  events. The state of a run is its context, the messages it has added, the events it has
  emitted and a world of the caller's own type. The model, the tools, the hooks, the clock
  and the listener are functions of a configuration that read and change the world; \<open>Inl\<close> is
  a thrown error. The lemmas show that the loop ends, that every tool call is answered once,
  and how the events, the context and the new messages fit together.
\<close>

section \<open>Messages, events and configuration\<close>

record tool_call =
  tc_id :: id
  tc_name :: string
  tc_args :: json

datatype block = Text_Block string | Tool_Call_Block tool_call | Other_Block json

datatype stop_reason = Stop_End | Stop_Length | Stop_Tool_Use | Stop_Error | Stop_Aborted

record assistant =
  as_content :: "block list"
  as_api :: string
  as_provider :: string
  as_model :: string
  as_usage :: json
  as_stop :: stop_reason
  as_error :: "string option"
  as_time :: int

record tool_outcome =
  to_content :: "block list"
  to_details :: json

record tool_result =
  tr_call_id :: id
  tr_name :: string
  tr_content :: "block list"
  tr_details :: json
  tr_is_error :: bool
  tr_time :: int

text \<open>User and custom messages are opaque to the loop.\<close>

datatype message = Other_Message json | Assistant_Message assistant | Result_Message tool_result

datatype event =
    Agent_Start
  | Agent_End "message list"
  | Turn_Start
  | Turn_End message "tool_result list"
  | Message_Start message
  | Message_Update message json
  | Message_End message
  | Tool_Start id string json
  | Tool_Update id string json tool_outcome
  | Tool_End id string tool_outcome bool

text \<open>
  The events of a model response: the first partial message, a later partial message with
  the delta that led to it (text, thinking or tool call), and the end.
\<close>

datatype stream_event = SE_Start assistant | SE_Delta assistant json | SE_Done | SE_Error

record before_result =
  br_block :: bool
  br_reason :: "string option"

record after_result =
  ar_content :: "block list option"
  ar_details :: "json option"
  ar_is_error :: "bool option"

record 'w tool =
  tl_name :: string
  tl_validate :: "json \<Rightarrow> string + json"
  tl_execute :: "json \<Rightarrow> id \<Rightarrow> 'w \<Rightarrow> (tool_outcome list \<times> (string + tool_outcome)) \<times> 'w"

text \<open>
  \<open>cf_llm\<close> stands for \<open>convertToLlm\<close>, the API key and the stream function: it returns the
  response's events with its final message. \<open>cf_execution_order\<close> is the order in which tool
  calls that run concurrently happen to complete, as indices of the runnable calls.
\<close>

record 'w config =
  cf_tools :: "'w tool list"
  cf_listener :: "event \<Rightarrow> 'w \<Rightarrow> 'w"
  cf_steering :: "'w \<Rightarrow> message list \<times> 'w"
  cf_follow_up :: "'w \<Rightarrow> message list \<times> 'w"
  cf_transform :: "(message list \<Rightarrow> 'w \<Rightarrow> (string + message list) \<times> 'w) option"
  cf_llm :: "message list \<Rightarrow> 'w \<Rightarrow> (string + stream_event list \<times> assistant) \<times> 'w"
  cf_aborted :: "'w \<Rightarrow> bool"
  cf_sleep :: "nat \<Rightarrow> 'w \<Rightarrow> 'w"
  cf_now :: "'w \<Rightarrow> int"
  cf_max_iterations :: "nat option"
  cf_max_retries :: "nat option"
  cf_base_delay :: "nat option"
  cf_sequential :: bool
  cf_before :: "(assistant \<Rightarrow> tool_call \<Rightarrow> json \<Rightarrow> message list \<Rightarrow> 'w \<Rightarrow>
    (string + before_result option) \<times> 'w) option"
  cf_after :: "(assistant \<Rightarrow> tool_call \<Rightarrow> json \<Rightarrow> tool_outcome \<Rightarrow> bool \<Rightarrow> message list \<Rightarrow> 'w \<Rightarrow>
    (string + after_result option) \<times> 'w) option"
  cf_execution_order :: "'w \<Rightarrow> nat list"

record 'w loop =
  lp_ctx :: "message list"
  lp_new :: "message list"
  lp_trace :: "event list"
  lp_world :: 'w

type_synonym ('a, 'w) run = "(string + 'a) \<times> 'w loop"

section \<open>Primitive steps\<close>

definition emit_event :: "'w config \<Rightarrow> event \<Rightarrow> 'w loop \<Rightarrow> 'w loop" where
  "emit_event C e st = st\<lparr>lp_trace := lp_trace st @ [e], lp_world := cf_listener C e (lp_world st)\<rparr>"

definition push_ctx :: "message \<Rightarrow> 'w loop \<Rightarrow> 'w loop" where
  "push_ctx m st = st\<lparr>lp_ctx := lp_ctx st @ [m]\<rparr>"

definition push_new :: "message \<Rightarrow> 'w loop \<Rightarrow> 'w loop" where
  "push_new m st = st\<lparr>lp_new := lp_new st @ [m]\<rparr>"

definition set_last :: "message \<Rightarrow> 'w loop \<Rightarrow> 'w loop" where
  "set_last m st = st\<lparr>lp_ctx := butlast (lp_ctx st) @ [m]\<rparr>"

definition emit_message :: "'w config \<Rightarrow> message \<Rightarrow> 'w loop \<Rightarrow> 'w loop" where
  "emit_message C m st = emit_event C (Message_End m) (emit_event C (Message_Start m) st)"

text \<open>Lift a step of the world; a thrown error stops the run.\<close>

definition in_world :: "('w \<Rightarrow> 'a \<times> 'w) \<Rightarrow> 'w loop \<Rightarrow> 'a \<times> 'w loop" where
  "in_world f st = (let (a, w) = f (lp_world st) in (a, st\<lparr>lp_world := w\<rparr>))"

definition and_then :: "('a, 'w) run \<Rightarrow> ('a \<Rightarrow> 'w loop \<Rightarrow> ('b, 'w) run) \<Rightarrow> ('b, 'w) run" where
  "and_then r k = (case r of (Inl e, st) \<Rightarrow> (Inl e, st) | (Inr a, st) \<Rightarrow> k a st)"

section \<open>Transient errors\<close>

definition is_word_char :: "char \<Rightarrow> bool" where
  "is_word_char c =
     (let n = (of_char c :: nat)
      in 48 \<le> n \<and> n \<le> 57 \<or> 65 \<le> n \<and> n \<le> 90 \<or> n = 95 \<or> 97 \<le> n \<and> n \<le> 122)"

definition has_prefix :: "string \<Rightarrow> string \<Rightarrow> bool" where
  "has_prefix p s = (take (length p) s = p)"

text \<open>\<open>/\bword\b/\<close> for a word of word characters; the flag says if a word character came before.\<close>

fun has_word :: "string \<Rightarrow> bool \<Rightarrow> string \<Rightarrow> bool" where
  "has_word w before [] = False"
| "has_word w before (c # s) =
     (\<not> before \<and> has_prefix w (c # s) \<and>
        (case drop (length w) (c # s) of [] \<Rightarrow> True | d # _ \<Rightarrow> \<not> is_word_char d) \<or>
      has_word w (is_word_char c) s)"

fun has_infix :: "string \<Rightarrow> string \<Rightarrow> bool" where
  "has_infix p [] = (p = [])"
| "has_infix p (c # s) = (has_prefix p (c # s) \<or> has_infix p s)"

text \<open>\<open>/rate.?limit/i\<close>: the dot matches any character except a line break.\<close>

fun has_rate_limit :: "string \<Rightarrow> bool" where
  "has_rate_limit [] = False"
| "has_rate_limit (c # s) =
     (has_prefix ''rate'' (c # s) \<and>
        (has_prefix ''limit'' (drop 4 (c # s)) \<or>
         (case drop 4 (c # s) of
            [] \<Rightarrow> False
          | d # r \<Rightarrow> d \<noteq> CHR 0x0A \<and> d \<noteq> CHR 0x0D \<and> has_prefix ''limit'' r)) \<or>
      has_rate_limit s)"

definition is_transient_error :: "string option \<Rightarrow> bool" where
  "is_transient_error e =
     (if \<not> truthy e then False
      else let s = the e; l = to_lower s
           in has_word ''429'' False s \<or> has_word ''500'' False s \<or> has_word ''502'' False s \<or>
              has_word ''503'' False s \<or> has_word ''529'' False s \<or>
              has_infix ''timeout'' l \<or> has_infix ''econnreset'' l \<or> has_infix ''econnrefused'' l \<or>
              has_infix ''network'' l \<or> has_infix ''overloaded'' l \<or> has_rate_limit l)"

definition transient :: "assistant \<Rightarrow> bool" where
  "transient m \<longleftrightarrow> as_stop m = Stop_Error \<and> is_transient_error (as_error m)"

section \<open>The model's response\<close>

definition finish_response :: "'w config \<Rightarrow> bool \<Rightarrow> assistant \<Rightarrow> 'w loop \<Rightarrow> 'w loop" where
  "finish_response C added final st =
     (let m = Assistant_Message final
      in emit_event C (Message_End m)
           (if added then set_last m st else emit_event C (Message_Start m) (push_ctx m st)))"

fun stream_loop ::
  "'w config \<Rightarrow> stream_event list \<Rightarrow> assistant \<Rightarrow> bool \<Rightarrow> 'w loop \<Rightarrow> 'w loop" where
  "stream_loop C [] final added st = finish_response C added final st"
| "stream_loop C (SE_Start p # es) final added st =
     stream_loop C es final True
       (emit_event C (Message_Start (Assistant_Message p)) (push_ctx (Assistant_Message p) st))"
| "stream_loop C (SE_Delta p d # es) final added st =
     stream_loop C es final added
       (if added
        then emit_event C (Message_Update (Assistant_Message p) d) (set_last (Assistant_Message p) st)
        else st)"
| "stream_loop C (SE_Done # es) final added st = finish_response C added final st"
| "stream_loop C (SE_Error # es) final added st = finish_response C added final st"

definition stream_assistant :: "'w config \<Rightarrow> 'w loop \<Rightarrow> (assistant, 'w) run" where
  "stream_assistant C st =
     and_then
       (case cf_transform C of
          None \<Rightarrow> (Inr (lp_ctx st), st)
        | Some f \<Rightarrow> in_world (f (lp_ctx st)) st)
       (\<lambda>ms st. and_then (in_world (cf_llm C ms) st)
         (\<lambda>(es, final) st. (Inr final, stream_loop C es final False st)))"

text \<open>\<open>remaining\<close> retries are left; the first one is number \<open>attempt\<close>.\<close>

fun retry_stream ::
  "'w config \<Rightarrow> nat \<Rightarrow> nat \<Rightarrow> assistant \<Rightarrow> 'w loop \<Rightarrow> (assistant, 'w) run" where
  "retry_stream C 0 attempt m st = (Inr m, st)"
| "retry_stream C (Suc remaining) attempt m st =
     (if cf_aborted C (lp_world st) then (Inr m, st)
      else
        let st1 = st\<lparr>lp_world := cf_sleep C (or_else (cf_base_delay C) 1000 * 2 ^ attempt)
                       (lp_world st)\<rparr>
        in if cf_aborted C (lp_world st1) then (Inr m, st1)
           else
             let st2 = (if lp_ctx st1 \<noteq> [] \<and> last (lp_ctx st1) = Assistant_Message m
                        then st1\<lparr>lp_ctx := butlast (lp_ctx st1)\<rparr> else st1)
             in and_then (stream_assistant C st2) (\<lambda>m' st3.
                  if \<not> transient m' then (Inr m', st3)
                  else retry_stream C remaining (Suc attempt) m' st3))"

definition respond :: "'w config \<Rightarrow> 'w loop \<Rightarrow> (assistant, 'w) run" where
  "respond C st =
     and_then (stream_assistant C st) (\<lambda>m st.
       if transient m then retry_stream C (or_else (cf_max_retries C) 2) 0 m st
       else (Inr m, st))"

section \<open>Tool calls\<close>

definition error_result :: "string \<Rightarrow> tool_outcome" where
  "error_result m = \<lparr>to_content = [Text_Block m], to_details = JObj []\<rparr>"

definition tool_calls :: "assistant \<Rightarrow> tool_call list" where
  "tool_calls m = List.map_filter (\<lambda>b. case b of Tool_Call_Block c \<Rightarrow> Some c | _ \<Rightarrow> None) (as_content m)"

text \<open>A call is either answered at once or ready to run with its tool and arguments.\<close>

datatype 'w preparation =
    Immediate tool_call tool_outcome bool
  | Prepared tool_call "'w tool" json

definition find_tool :: "'w config \<Rightarrow> string \<Rightarrow> 'w tool option" where
  "find_tool C name =
     (case find (\<lambda>t. tl_name t = name) (cf_tools C) of
        Some t \<Rightarrow> Some t
      | None \<Rightarrow> repair_tool_name tl_name name (cf_tools C))"

definition prepare_call ::
  "'w config \<Rightarrow> assistant \<Rightarrow> tool_call \<Rightarrow> 'w loop \<Rightarrow> 'w preparation \<times> 'w loop" where
  "prepare_call C m c st =
     (case find_tool C (tc_name c) of
        None \<Rightarrow>
          (Immediate c (error_result (tool_not_found_error (tc_name c) (map tl_name (cf_tools C)))) True, st)
      | Some t \<Rightarrow>
          (case tl_validate t (tc_args c) of
             Inl e \<Rightarrow> (Immediate c (error_result e) True, st)
           | Inr args \<Rightarrow>
               (case cf_before C of
                  None \<Rightarrow> (Prepared c t args, st)
                | Some f \<Rightarrow>
                    (let (r, st') = in_world (f m c args (lp_ctx st)) st
                     in case r of
                          Inl e \<Rightarrow> (Immediate c (error_result e) True, st')
                        | Inr (Some b) \<Rightarrow>
                            if br_block b
                            then (Immediate c (error_result
                                    (if truthy (br_reason b) then the (br_reason b)
                                     else ''Tool execution was blocked'')) True, st')
                            else (Prepared c t args, st')
                        | Inr None \<Rightarrow> (Prepared c t args, st')))))"

definition execute_prepared ::
  "'w config \<Rightarrow> tool_call \<Rightarrow> 'w tool \<Rightarrow> json \<Rightarrow> 'w loop \<Rightarrow> (tool_outcome \<times> bool) \<times> 'w loop" where
  "execute_prepared C c t args st =
     (let ((updates, r), st1) = in_world (tl_execute t args (tc_id c)) st;
          st2 = fold (\<lambda>u. emit_event C (Tool_Update (tc_id c) (tc_name c) (tc_args c) u)) updates st1
      in (case r of Inl e \<Rightarrow> (error_result e, True) | Inr x \<Rightarrow> (x, False), st2))"

definition emit_outcome ::
  "'w config \<Rightarrow> tool_call \<Rightarrow> tool_outcome \<Rightarrow> bool \<Rightarrow> 'w loop \<Rightarrow> tool_result \<times> 'w loop" where
  "emit_outcome C c r is_error st =
     (let st1 = emit_event C (Tool_End (tc_id c) (tc_name c) r is_error) st;
          res = \<lparr>tr_call_id = tc_id c, tr_name = tc_name c, tr_content = to_content r,
                 tr_details = to_details r, tr_is_error = is_error, tr_time = cf_now C (lp_world st1)\<rparr>
      in (res, emit_message C (Result_Message res) st1))"

definition override_outcome :: "after_result \<Rightarrow> tool_outcome \<Rightarrow> bool \<Rightarrow> tool_outcome \<times> bool" where
  "override_outcome a r is_error =
     (\<lparr>to_content = or_else (ar_content a) (to_content r),
       to_details = or_else (ar_details a) (to_details r)\<rparr>,
      or_else (ar_is_error a) is_error)"

text \<open>An error thrown by the after hook is not caught: it ends the run.\<close>

definition apply_after_hook ::
  "'w config \<Rightarrow> assistant \<Rightarrow> tool_call \<Rightarrow> json \<Rightarrow> tool_outcome \<times> bool \<Rightarrow> 'w loop \<Rightarrow>
    (tool_outcome \<times> bool, 'w) run" where
  "apply_after_hook C m c args executed st =
     (case cf_after C of
        None \<Rightarrow> (Inr executed, st)
      | Some f \<Rightarrow>
          and_then (in_world (f m c args (fst executed) (snd executed) (lp_ctx st)) st)
            (\<lambda>a st. (Inr (case a of None \<Rightarrow> executed
               | Some x \<Rightarrow> override_outcome x (fst executed) (snd executed)), st)))"

definition finalize_call ::
  "'w config \<Rightarrow> assistant \<Rightarrow> tool_call \<Rightarrow> json \<Rightarrow> tool_outcome \<times> bool \<Rightarrow> 'w loop \<Rightarrow>
    (tool_result, 'w) run" where
  "finalize_call C m c args executed st =
     and_then (apply_after_hook C m c args executed st)
       (\<lambda>(r, is_error) st. let (res, st') = emit_outcome C c r is_error st in (Inr res, st'))"

definition start_call :: "'w config \<Rightarrow> tool_call \<Rightarrow> 'w loop \<Rightarrow> 'w loop" where
  "start_call C c st = emit_event C (Tool_Start (tc_id c) (tc_name c) (tc_args c)) st"

fun run_sequential ::
  "'w config \<Rightarrow> assistant \<Rightarrow> tool_call list \<Rightarrow> 'w loop \<Rightarrow> (tool_result list, 'w) run" where
  "run_sequential C m [] st = (Inr [], st)"
| "run_sequential C m (c # cs) st =
     (let (p, st1) = prepare_call C m c (start_call C c st)
      in and_then
           (case p of
              Immediate _ r is_error \<Rightarrow> (let (res, st2) = emit_outcome C c r is_error st1 in (Inr res, st2))
            | Prepared _ t args \<Rightarrow>
                (let (ex, st2) = execute_prepared C c t args st1 in finalize_call C m c args ex st2))
           (\<lambda>res st. and_then (run_sequential C m cs st) (\<lambda>rs st. (Inr (res # rs), st))))"

text \<open>
  Parallel execution. First every call is prepared, and the immediate ones are answered; then
  the others run. They complete in the order the environment chooses (each call's effect is
  one step, at its completion), and call \<open>k\<close> is finalised once it and all calls before it are
  complete. \<open>complete\<close> runs calls in that order until call \<open>k\<close> is among the completed ones.
\<close>

fun prepare_all ::
  "'w config \<Rightarrow> assistant \<Rightarrow> tool_call list \<Rightarrow> 'w loop \<Rightarrow>
    (tool_result list \<times> (tool_call \<times> 'w tool \<times> json) list) \<times> 'w loop" where
  "prepare_all C m [] st = (([], []), st)"
| "prepare_all C m (c # cs) st =
     (let (p, st1) = prepare_call C m c (start_call C c st)
      in case p of
           Immediate _ r is_error \<Rightarrow>
             (let (res, st2) = emit_outcome C c r is_error st1;
                  ((rs, ps), st3) = prepare_all C m cs st2
              in ((res # rs, ps), st3))
         | Prepared _ t args \<Rightarrow>
             (let ((rs, ps), st2) = prepare_all C m cs st1 in ((rs, (c, t, args) # ps), st2)))"

type_synonym completed = "(nat \<times> (tool_outcome \<times> bool)) list"

definition complete_one ::
  "'w config \<Rightarrow> (tool_call \<times> 'w tool \<times> json) list \<Rightarrow> nat \<Rightarrow> completed \<Rightarrow> 'w loop \<Rightarrow> completed \<times> 'w loop" where
  "complete_one C ps i ds st =
     (if i < length ps \<and> map_of ds i = None
      then let (c, t, args) = ps ! i; (ex, st') = execute_prepared C c t args st in ((i, ex) # ds, st')
      else (ds, st))"

fun complete ::
  "'w config \<Rightarrow> (tool_call \<times> 'w tool \<times> json) list \<Rightarrow> nat \<Rightarrow> nat list \<Rightarrow> completed \<Rightarrow> 'w loop \<Rightarrow>
    nat list \<times> completed \<times> 'w loop" where
  "complete C ps k [] ds st = (let (ds', st') = complete_one C ps k ds st in ([], ds', st'))"
| "complete C ps k (i # order) ds st =
     (if map_of ds k \<noteq> None then (i # order, ds, st)
      else let (ds', st') = complete_one C ps i ds st in complete C ps k order ds' st')"

fun finalize_all ::
  "'w config \<Rightarrow> assistant \<Rightarrow> (tool_call \<times> 'w tool \<times> json) list \<Rightarrow> nat list \<Rightarrow> nat list \<Rightarrow> completed \<Rightarrow>
    'w loop \<Rightarrow> (tool_result list, 'w) run" where
  "finalize_all C m ps [] order ds st = (Inr [], st)"
| "finalize_all C m ps (k # ks) order ds st =
     (let (order', ds', st1) = complete C ps k order ds st; (c, t, args) = ps ! k
      in and_then (finalize_call C m c args (the (map_of ds' k)) st1)
           (\<lambda>res st. and_then (finalize_all C m ps ks order' ds' st) (\<lambda>rs st. (Inr (res # rs), st))))"

definition run_parallel ::
  "'w config \<Rightarrow> assistant \<Rightarrow> tool_call list \<Rightarrow> 'w loop \<Rightarrow> (tool_result list, 'w) run" where
  "run_parallel C m cs st =
     (let ((rs, ps), st1) = prepare_all C m cs st
      in and_then (finalize_all C m ps [0..<length ps] (cf_execution_order C (lp_world st1)) [] st1)
           (\<lambda>rs' st. (Inr (rs @ rs'), st)))"

definition execute_calls :: "'w config \<Rightarrow> assistant \<Rightarrow> 'w loop \<Rightarrow> (tool_result list, 'w) run" where
  "execute_calls C m st =
     (if cf_sequential C then run_sequential C m (tool_calls m) st
      else run_parallel C m (tool_calls m) st)"

section \<open>The loop\<close>

definition default_max_iterations :: nat where "default_max_iterations = 100"

definition max_iterations_of :: "'w config \<Rightarrow> nat" where
  "max_iterations_of C = or_else (cf_max_iterations C) default_max_iterations"

definition zero_usage :: json where
  "zero_usage = JObj [(''input'', JNum 0), (''output'', JNum 0), (''cacheRead'', JNum 0),
     (''cacheWrite'', JNum 0), (''totalTokens'', JNum 0),
     (''cost'', JObj [(''input'', JNum 0), (''output'', JNum 0), (''cacheRead'', JNum 0),
        (''cacheWrite'', JNum 0), (''total'', JNum 0)])]"

definition limit_message :: "nat \<Rightarrow> int \<Rightarrow> assistant" where
  "limit_message mx now =
     \<lparr>as_content = [Text_Block (''Agent loop terminated: exceeded maximum iterations ('' @ show_nat mx @ '').'')],
      as_api = ''openai-completions'', as_provider = ''unknown'', as_model = ''unknown'',
      as_usage = zero_usage, as_stop = Stop_Error,
      as_error = Some (''Maximum loop iterations ('' @ show_nat mx @ '') exceeded''), as_time = now\<rparr>"

definition limit_reached :: "'w config \<Rightarrow> 'w loop \<Rightarrow> 'w loop" where
  "limit_reached C st =
     (let m = Assistant_Message (limit_message (max_iterations_of C) (cf_now C (lp_world st)));
          st1 = emit_event C (Turn_End m []) (emit_message C m (push_new m (push_ctx m st)))
      in emit_event C (Agent_End (lp_new st1)) st1)"

text \<open>One message enters the conversation: a pending message, or a tool result.\<close>

definition inject :: "'w config \<Rightarrow> message \<Rightarrow> 'w loop \<Rightarrow> 'w loop" where
  "inject C m st = push_new m (push_ctx m (emit_message C m st))"

definition add_result :: "tool_result \<Rightarrow> 'w loop \<Rightarrow> 'w loop" where
  "add_result r st = push_new (Result_Message r) (push_ctx (Result_Message r) st)"

text \<open>
  One pass of the inner loop after the iteration count: \<open>None\<close> when an error or abort has
  ended the run, otherwise whether the response had tool calls.
\<close>

definition turn :: "'w config \<Rightarrow> bool \<Rightarrow> message list \<Rightarrow> 'w loop \<Rightarrow> (bool option, 'w) run" where
  "turn C first pending st =
     and_then (respond C (fold (inject C) pending (if first then st else emit_event C Turn_Start st)))
       (\<lambda>m st1.
          let st2 = push_new (Assistant_Message m) st1
          in if as_stop m = Stop_Error \<or> as_stop m = Stop_Aborted
             then (let st3 = emit_event C (Turn_End (Assistant_Message m) []) st2
                   in (Inr None, emit_event C (Agent_End (lp_new st3)) st3))
             else
               and_then
                 (if tool_calls m \<noteq> []
                  then and_then (execute_calls C m st2) (\<lambda>rs st. (Inr rs, fold add_result rs st))
                  else (Inr [], st2))
                 (\<lambda>rs st3. (Inr (Some (tool_calls m \<noteq> [])),
                            emit_event C (Turn_End (Assistant_Message m) rs) st3)))"

function run_iterations ::
  "'w config \<Rightarrow> nat \<Rightarrow> bool \<Rightarrow> message list \<Rightarrow> 'w loop \<Rightarrow> (unit, 'w) run" where
  "run_iterations C iters first pending st =
     (if max_iterations_of C < Suc iters then (Inr (), limit_reached C st)
      else and_then (turn C first pending st) (\<lambda>r st1.
        case r of
          None \<Rightarrow> (Inr (), st1)
        | Some has_more \<Rightarrow>
            (let (pending', st2) = in_world (cf_steering C) st1
             in if has_more \<or> pending' \<noteq> [] then run_iterations C (Suc iters) False pending' st2
                else let (follow_ups, st3) = in_world (cf_follow_up C) st2
                     in if follow_ups \<noteq> [] then run_iterations C (Suc iters) False follow_ups st3
                        else (Inr (), emit_event C (Agent_End (lp_new st3)) st3))))"
  by pat_completeness auto
termination
  by (relation "measure (\<lambda>(C, iters, _, _, _). max_iterations_of C - iters)") auto

declare run_iterations.simps [simp del]

definition run_loop :: "'w config \<Rightarrow> 'w loop \<Rightarrow> (unit, 'w) run" where
  "run_loop C st =
     (let (pending, st1) = in_world (cf_steering C) st in run_iterations C 0 True pending st1)"

definition run_agent_loop :: "'w config \<Rightarrow> message list \<Rightarrow> message list \<Rightarrow> 'w \<Rightarrow> (unit, 'w) run" where
  "run_agent_loop C prompts ctx w =
     run_loop C (fold (emit_message C) prompts (emit_event C Turn_Start (emit_event C Agent_Start
       \<lparr>lp_ctx = ctx @ prompts, lp_new = prompts, lp_trace = [], lp_world = w\<rparr>)))"

definition is_assistant :: "message \<Rightarrow> bool" where
  "is_assistant m = (case m of Assistant_Message _ \<Rightarrow> True | _ \<Rightarrow> False)"

definition run_agent_loop_continue :: "'w config \<Rightarrow> message list \<Rightarrow> 'w \<Rightarrow> (unit, 'w) run" where
  "run_agent_loop_continue C ctx w =
     (let st = \<lparr>lp_ctx = ctx, lp_new = [], lp_trace = [], lp_world = w\<rparr>
      in if ctx = [] then (Inl ''Cannot continue: no messages in context'', st)
         else if is_assistant (last ctx)
         then (Inl ''Cannot continue from message role: assistant'', st)
         else run_loop C (emit_event C Turn_Start (emit_event C Agent_Start st)))"

section \<open>Steps that only emit_event\<close>

definition adds :: "'w loop \<Rightarrow> event list \<Rightarrow> 'w loop \<Rightarrow> bool" where
  "adds st es st' \<longleftrightarrow> lp_ctx st' = lp_ctx st \<and> lp_new st' = lp_new st \<and> lp_trace st' = lp_trace st @ es"

fun lifecycle :: "event \<Rightarrow> bool" where
  "lifecycle Agent_Start = True"
| "lifecycle (Agent_End ms) = True"
| "lifecycle Turn_Start = True"
| "lifecycle (Turn_End m rs) = True"
| "lifecycle _ = False"

fun ended_message :: "event \<Rightarrow> message option" where
  "ended_message (Message_End m) = Some m"
| "ended_message _ = None"

definition ended :: "event list \<Rightarrow> message list" where
  "ended es = List.map_filter ended_message es"

definition inner :: "event list \<Rightarrow> bool" where
  "inner es \<longleftrightarrow> list_all (\<lambda>e. \<not> lifecycle e) es"

lemma ended_simps [simp]:
  "ended [] = []"
  "ended (e # es) = (case ended_message e of None \<Rightarrow> ended es | Some m \<Rightarrow> m # ended es)"
  "ended (es @ fs) = ended es @ ended fs"
  by (simp_all add: ended_def map_filter_simps map_filter_def split: option.split)

lemma inner_simps [simp]:
  "inner []" "inner (e # es) \<longleftrightarrow> \<not> lifecycle e \<and> inner es" "inner (es @ fs) \<longleftrightarrow> inner es \<and> inner fs"
  by (simp_all add: inner_def)

text \<open>
  The order in which a listener sees messages: a response is a start, updates and an end, and
  meanwhile no other response starts and no tool call ends. The flag tells whether a response
  is open.
\<close>

fun frame_step :: "bool \<Rightarrow> event \<Rightarrow> bool option" where
  "frame_step b (Message_Start m) =
     (if is_assistant m then if b then None else Some True else Some b)"
| "frame_step b (Message_Update m d) = (if b \<and> is_assistant m then Some True else None)"
| "frame_step b (Message_End m) =
     (if is_assistant m then if b then Some False else None else Some b)"
| "frame_step b (Tool_End i n r e) = (if b then None else Some b)"
| "frame_step b e = Some b"

fun frame :: "bool \<Rightarrow> event list \<Rightarrow> bool option" where
  "frame b [] = Some b"
| "frame b (e # es) = (case frame_step b e of None \<Rightarrow> None | Some b' \<Rightarrow> frame b' es)"

lemma frame_append [simp]:
  "frame b (es @ fs) = (case frame b es of None \<Rightarrow> None | Some b' \<Rightarrow> frame b' fs)"
  by (induction es arbitrary: b) (auto split: option.split)

lemma is_assistant_simps [simp]:
  "is_assistant (Assistant_Message a)" "\<not> is_assistant (Result_Message r)" "\<not> is_assistant (Other_Message j)"
  by (simp_all add: is_assistant_def)

definition framed_events :: "event list \<Rightarrow> bool" where
  "framed_events es \<longleftrightarrow> frame False es = Some False"

lemma framed_events_append [simp]: "framed_events es \<Longrightarrow> framed_events fs \<Longrightarrow> framed_events (es @ fs)"
  by (simp add: framed_events_def)

lemma framed_events_Nil [simp]: "framed_events []"
  by (simp add: framed_events_def)

lemma framed_events_Cons [simp]:
  "frame_step False e = Some False \<Longrightarrow> framed_events (e # es) = framed_events es"
  by (simp add: framed_events_def)

lemma framed_message [simp]:
  "framed_events (Message_Start m # Message_End m # es) = framed_events es"
  by (simp add: framed_events_def split: if_splits)

lemma framed_response [simp]:
  "framed_events (Message_Start (Assistant_Message p) # es) = (frame True es = Some False)"
  by (simp add: framed_events_def)

lemma adds_refl: "adds st [] st"
  by (simp add: adds_def)

lemma adds_trans: "adds st es st' \<Longrightarrow> adds st' fs st'' \<Longrightarrow> adds st (es @ fs) st''"
  by (simp add: adds_def)

lemma adds_emit: "adds st [e] (emit_event C e st)"
  by (simp add: adds_def emit_event_def)

lemma adds_emit_message: "adds st [Message_Start m, Message_End m] (emit_message C m st)"
  by (simp add: adds_def emit_event_def emit_message_def)

lemma adds_in_world: "in_world f st = (a, st') \<Longrightarrow> adds st [] st'"
  by (auto simp: in_world_def adds_def split: prod.splits)

lemma and_then_InrD:
  assumes "and_then r k = (Inr b, st')"
  obtains a st where "r = (Inr a, st)" "k a st = (Inr b, st')"
  using assms by (auto simp: and_then_def split: prod.splits sum.splits)

lemma and_then_simps [simp]:
  "and_then (Inr a, st) k = k a st" "and_then (Inl e, st) k = (Inl e, st)"
  by (simp_all add: and_then_def)

section \<open>Answering tool calls\<close>

text \<open>Steps that answer calls: no lifecycle events, and the ended messages are the results.\<close>

definition answers :: "'w loop \<Rightarrow> tool_result list \<Rightarrow> 'w loop \<Rightarrow> bool" where
  "answers st rs st' \<longleftrightarrow> (\<exists>es. adds st es st' \<and> inner es \<and> ended es = map Result_Message rs \<and> framed_events es)"

lemma answers_trans: "answers st rs st' \<Longrightarrow> answers st' qs st'' \<Longrightarrow> answers st (rs @ qs) st''"
proof -
  assume "answers st rs st'" "answers st' qs st''"
  then obtain es fs where "adds st es st'" "inner es" "ended es = map Result_Message rs" "framed_events es"
    "adds st' fs st''" "inner fs" "ended fs = map Result_Message qs" "framed_events fs"
    unfolding answers_def by blast
  then show ?thesis
    unfolding answers_def using adds_trans framed_events_append by (intro exI [of _ "es @ fs"]) simp
qed

lemma answers_adds: "adds st es st' \<Longrightarrow> inner es \<Longrightarrow> ended es = [] \<Longrightarrow> framed_events es \<Longrightarrow> answers st [] st'"
  unfolding answers_def by auto

lemmas answers_first = answers_trans [where rs = "[]", unfolded append_Nil]

lemma prepare_call_answers: "prepare_call C m c st = (p, st') \<Longrightarrow> answers st [] st'"
  by (rule answers_adds [of _ "[]"])
    (auto simp: prepare_call_def Let_def adds_refl dest: adds_in_world
      split: option.splits sum.splits prod.splits if_splits)

lemma start_call_answers: "answers st [] (start_call C c st)"
  unfolding start_call_def by (rule answers_adds [OF adds_emit]) simp_all

lemma fold_updates:
  "answers st [] (fold (\<lambda>u. emit_event C (Tool_Update i n a u)) us st)"
proof (induction us arbitrary: st)
  case Nil
  show ?case by (simp add: answers_adds [OF adds_refl])
next
  case (Cons u us)
  have "answers st [] (emit_event C (Tool_Update i n a u) st)" by (rule answers_adds [OF adds_emit]) simp_all
  from answers_first [OF this Cons] show ?case by simp
qed

lemma execute_prepared_answers:
  assumes "execute_prepared C c t args st = (x, st')"
  shows "answers st [] st'"
proof -
  obtain us r st1 where w: "in_world (tl_execute t args (tc_id c)) st = ((us, r), st1)"
    by (metis prod.exhaust)
  then have "st' = fold (\<lambda>u. emit_event C (Tool_Update (tc_id c) (tc_name c) (tc_args c) u)) us st1"
    using assms by (auto simp: execute_prepared_def Let_def)
  with answers_first [OF answers_adds [OF adds_in_world [OF w]] fold_updates] show ?thesis by simp
qed

lemma emit_outcome_answers:
  "emit_outcome C c r b st = (res, st') \<Longrightarrow> answers st [res] st' \<and> tr_call_id res = tc_id c"
  unfolding emit_outcome_def Let_def answers_def
  by (auto simp: adds_def emit_message_def emit_event_def
      intro!: exI [of _ "[Tool_End (tc_id c) (tc_name c) r b, Message_Start (Result_Message res),
        Message_End (Result_Message res)]"])

lemma finalize_call_answers:
  assumes "finalize_call C m c args ex st = (Inr res, st')"
  shows "answers st [res] st' \<and> tr_call_id res = tc_id c"
proof -
  obtain x st1 where a: "apply_after_hook C m c args ex st = (Inr x, st1)"
    "(let (res, st') = emit_outcome C c (fst x) (snd x) st1 in (Inr res :: string + tool_result, st')) = (Inr res, st')"
    using assms unfolding finalize_call_def by (auto elim!: and_then_InrD)
  have "adds st [] st1"
    using a(1) by (auto simp: apply_after_hook_def adds_refl split: option.splits
        elim!: and_then_InrD dest: adds_in_world)
  then have "answers st [] st1" by (rule answers_adds) simp_all
  moreover have "answers st1 [res] st' \<and> tr_call_id res = tc_id c"
    using a(2) emit_outcome_answers [of C c "fst x" "snd x" st1] by (auto split: prod.splits)
  ultimately show ?thesis using answers_first by blast
qed

lemma run_sequential_answers:
  "run_sequential C m cs st = (Inr rs, st') \<Longrightarrow>
    answers st rs st' \<and> map tr_call_id rs = map tc_id cs"
proof (induction cs arbitrary: st rs)
  case Nil
  then show ?case by (simp add: answers_adds [OF adds_refl])
next
  case (Cons c cs)
  obtain p st1 where p: "prepare_call C m c (start_call C c st) = (p, st1)" by force
  have pre: "answers st [] st1"
    using answers_first [OF start_call_answers prepare_call_answers [OF p]] .
  from Cons.prems p obtain res st2 rs' st3 where
    one: "(case p of
            Immediate _ r is_error \<Rightarrow> (let (res, st2) = emit_outcome C c r is_error st1 in (Inr res, st2))
          | Prepared _ t args \<Rightarrow>
              (let (ex, st2) = execute_prepared C c t args st1 in finalize_call C m c args ex st2)) =
          (Inr res, st2)"
    and rest: "run_sequential C m cs st2 = (Inr rs', st')" "rs = res # rs'"
    by (auto elim!: and_then_InrD)
  have "answers st1 [res] st2 \<and> tr_call_id res = tc_id c"
  proof (cases p)
    case (Immediate d r b)
    then show ?thesis using one emit_outcome_answers by (fastforce split: prod.splits)
  next
    case (Prepared d t args)
    obtain ex sta where e: "execute_prepared C c t args st1 = (ex, sta)" by (metis surj_pair)
    have "answers sta [res] st2 \<and> tr_call_id res = tc_id c"
      using one Prepared e finalize_call_answers by simp
    then show ?thesis using answers_first [OF execute_prepared_answers [OF e]] by blast
  qed
  moreover have "answers st2 rs' st' \<and> map tr_call_id rs' = map tc_id cs"
    by (rule Cons.IH [OF rest(1)])
  ultimately show ?case
    using answers_trans [of st1 "[res]" st2 rs' st'] answers_first [OF pre] rest(2) by simp
qed

text \<open>Parallel execution: the immediate answers first, then the others in the order of the calls.\<close>

fun is_immediate :: "'w preparation \<Rightarrow> bool" where
  "is_immediate (Immediate _ _ _) = True"
| "is_immediate (Prepared _ _ _) = False"

lemma prepare_all_answers:
  "prepare_all C m cs st = ((rs, ps), st') \<Longrightarrow>
    answers st rs st' \<and>
    mset (map tr_call_id rs) + mset (map (tc_id \<circ> fst) ps) = mset (map tc_id cs)"
proof (induction cs arbitrary: st rs ps st')
  case Nil
  then show ?case by (simp add: answers_adds [OF adds_refl])
next
  case (Cons c cs)
  obtain p st1 where p: "prepare_call C m c (start_call C c st) = (p, st1)" by force
  have pre: "answers st [] st1"
    using answers_first [OF start_call_answers prepare_call_answers [OF p]] .
  show ?case
  proof (cases p)
    case (Immediate d r b)
    obtain res st2 where e: "emit_outcome C c r b st1 = (res, st2)" by force
    obtain rs' ps' st3 where r: "prepare_all C m cs st2 = ((rs', ps'), st3)" by (metis prod.exhaust)
    have "rs = res # rs'" "ps = ps'" "st' = st3"
      using Cons.prems p Immediate e r by simp_all
    then show ?thesis
      using Cons.IH [OF r] emit_outcome_answers [OF e] answers_trans [of st1 "[res]" st2 rs' st3]
        answers_first [OF pre] by simp
  next
    case (Prepared d t args)
    obtain rs' ps' st3 where r: "prepare_all C m cs st1 = ((rs', ps'), st3)" by (metis prod.exhaust)
    have "rs = rs'" "ps = (c, t, args) # ps'" "st' = st3"
      using Cons.prems p Prepared r by simp_all
    then show ?thesis using Cons.IH [OF r] answers_first [OF pre] by simp
  qed
qed

lemma complete_one_answers:
  "complete_one C ps i ds st = (ds', st') \<Longrightarrow> answers st [] st'"
  unfolding complete_one_def
  by (auto simp: answers_adds [OF adds_refl] dest: execute_prepared_answers split: if_splits prod.splits)

lemma complete_answers:
  "complete C ps k order ds st = (order', ds', st') \<Longrightarrow> answers st [] st'"
proof (induction order arbitrary: ds st)
  case Nil
  then show ?case by (auto split: prod.splits dest: complete_one_answers)
next
  case (Cons i order)
  show ?case
  proof (cases "map_of ds k")
    case (Some x)
    then show ?thesis using Cons.prems by (simp add: answers_adds [OF adds_refl])
  next
    case None
    obtain d1 st1 where one: "complete_one C ps i ds st = (d1, st1)" by force
    have "complete C ps k order d1 st1 = (order', ds', st')"
      using Cons.prems None one by simp
    from answers_first [OF complete_one_answers [OF one] Cons.IH [OF this]] show ?thesis .
  qed
qed

lemma finalize_all_answers:
  "finalize_all C m ps ks order ds st = (Inr rs, st') \<Longrightarrow>
    answers st rs st' \<and> map tr_call_id rs = map (\<lambda>k. tc_id (fst (ps ! k))) ks"
proof (induction ks arbitrary: order ds st rs)
  case Nil
  then show ?case by (simp add: answers_adds [OF adds_refl])
next
  case (Cons k ks)
  obtain order' ds' st1 where c: "complete C ps k order ds st = (order', ds', st1)" by (metis prod.exhaust)
  obtain d t args where pk: "ps ! k = (d, t, args)" by (metis prod.exhaust)
  from Cons.prems c pk obtain res st2 rs' where
    f: "finalize_call C m d args (the (map_of ds' k)) st1 = (Inr res, st2)"
    and r: "finalize_all C m ps ks order' ds' st2 = (Inr rs', st')" "rs = res # rs'"
    by (auto elim!: and_then_InrD)
  show ?case
    using finalize_call_answers [OF f] Cons.IH [OF r(1)] complete_answers [OF c] pk r(2)
      answers_trans [of st1 "[res]" st2 rs' st'] answers_first [of st st1 "res # rs'" st'] by simp
qed

lemma run_parallel_answers:
  assumes "run_parallel C m cs st = (Inr rs, st')"
  shows "answers st rs st' \<and> mset (map tr_call_id rs) = mset (map tc_id cs)"
proof -
  obtain ims ps st1 where p: "prepare_all C m cs st = ((ims, ps), st1)" by (metis prod.exhaust)
  obtain rs' where f: "finalize_all C m ps [0..<length ps] (cf_execution_order C (lp_world st1)) [] st1 =
      (Inr rs', st')" "rs = ims @ rs'"
    using assms p by (auto simp: run_parallel_def elim!: and_then_InrD)
  have "map (\<lambda>k. tc_id (fst (ps ! k))) [0..<length ps] = map (tc_id \<circ> fst) ps"
    by (rule nth_equalityI) simp_all
  then have "mset (map tr_call_id rs') = mset (map (tc_id \<circ> fst) ps)"
    using finalize_all_answers [OF f(1)] by simp
  then show ?thesis
    using prepare_all_answers [OF p] finalize_all_answers [OF f(1)] answers_trans [of st ims st1 rs' st'] f(2)
    by simp
qed

lemma execute_calls_answers:
  assumes "execute_calls C m st = (Inr rs, st')"
  shows "answers st rs st' \<and> mset (map tr_call_id rs) = mset (map tc_id (tool_calls m)) \<and>
    (cf_sequential C \<longrightarrow> map tr_call_id rs = map tc_id (tool_calls m))"
proof (cases "cf_sequential C")
  case True
  then show ?thesis
    using assms run_sequential_answers [of C m "tool_calls m" st rs st'] by (auto simp: execute_calls_def)
next
  case False
  then show ?thesis
    using assms run_parallel_answers [of C m "tool_calls m" st rs st'] by (auto simp: execute_calls_def)
qed

section \<open>Responses\<close>

text \<open>
  The contract of a stream: at most one start event before it ends. Without it the loop would
  leave a stale partial message in the context.
\<close>

fun starts :: "stream_event list \<Rightarrow> nat" where
  "starts [] = 0"
| "starts (SE_Start p # es) = Suc (starts es)"
| "starts (SE_Delta p d # es) = starts es"
| "starts (SE_Done # es) = 0"
| "starts (SE_Error # es) = 0"

definition proper_streams :: "'w config \<Rightarrow> bool" where
  "proper_streams C \<longleftrightarrow> (\<forall>ms w es m w'. cf_llm C ms w = (Inr (es, m), w') \<longrightarrow> starts es \<le> 1)"

definition responds :: "'w loop \<Rightarrow> assistant list \<Rightarrow> assistant \<Rightarrow> 'w loop \<Rightarrow> bool" where
  "responds st tries m st' \<longleftrightarrow>
     lp_ctx st' = lp_ctx st @ [Assistant_Message m] \<and> lp_new st' = lp_new st \<and>
     (\<exists>es. lp_trace st' = lp_trace st @ es \<and> inner es \<and>
        ended es = map Assistant_Message (tries @ [m]) \<and> framed_events es)"

lemma emit_simps [simp]:
  "lp_ctx (emit_event C e st) = lp_ctx st" "lp_new (emit_event C e st) = lp_new st"
  "lp_trace (emit_event C e st) = lp_trace st @ [e]"
  by (simp_all add: emit_event_def)

lemma push_simps [simp]:
  "lp_ctx (push_ctx m st) = lp_ctx st @ [m]" "lp_new (push_ctx m st) = lp_new st"
  "lp_trace (push_ctx m st) = lp_trace st"
  "lp_ctx (push_new m st) = lp_ctx st" "lp_new (push_new m st) = lp_new st @ [m]"
  "lp_trace (push_new m st) = lp_trace st"
  "lp_ctx (set_last m st) = butlast (lp_ctx st) @ [m]" "lp_new (set_last m st) = lp_new st"
  "lp_trace (set_last m st) = lp_trace st"
  by (simp_all add: push_ctx_def push_new_def set_last_def)

lemma stream_loop_started:
  "starts es = 0 \<Longrightarrow> lp_ctx st = ctx @ [x] \<Longrightarrow>
    lp_ctx (stream_loop C es m True st) = ctx @ [Assistant_Message m] \<and>
    lp_new (stream_loop C es m True st) = lp_new st \<and>
    (\<exists>fs. lp_trace (stream_loop C es m True st) = lp_trace st @ fs \<and> inner fs \<and>
       ended fs = [Assistant_Message m] \<and> frame True fs = Some False)"
proof (induction es arbitrary: st x)
  case Nil
  then show ?case by (simp add: finish_response_def Let_def)
next
  case (Cons e es)
  show ?case
  proof (cases e)
    case (SE_Start p)
    then show ?thesis using Cons.prems by simp
  next
    case (SE_Delta p d)
    let ?st = "emit_event C (Message_Update (Assistant_Message p) d) (set_last (Assistant_Message p) st)"
    have "lp_ctx ?st = ctx @ [Assistant_Message p]" using Cons.prems by simp
    from Cons.IH [OF _ this] Cons.prems SE_Delta obtain fs where
      "lp_trace (stream_loop C es m True ?st) = lp_trace ?st @ fs" "inner fs"
      "ended fs = [Assistant_Message m]" "frame True fs = Some False"
      "lp_ctx (stream_loop C es m True ?st) = ctx @ [Assistant_Message m]"
      "lp_new (stream_loop C es m True ?st) = lp_new st"
      by auto
    then show ?thesis
      using SE_Delta by (auto intro!: exI [of _ "Message_Update (Assistant_Message p) d # fs"])
  qed (use Cons.prems in \<open>simp_all add: finish_response_def Let_def\<close>)
qed

lemma stream_loop_responds:
  "starts es \<le> 1 \<Longrightarrow> responds st [] m (stream_loop C es m False st)"
proof (induction es arbitrary: st)
  case Nil
  then show ?case by (simp add: finish_response_def Let_def responds_def)
next
  case (Cons e es)
  show ?case
  proof (cases e)
    case (SE_Start p)
    let ?st = "emit_event C (Message_Start (Assistant_Message p)) (push_ctx (Assistant_Message p) st)"
    have "starts es = 0" "lp_ctx ?st = lp_ctx st @ [Assistant_Message p]"
      using Cons.prems SE_Start by simp_all
    from stream_loop_started [OF this, of C m] SE_Start show ?thesis
      by (auto simp: responds_def)
  next
    case (SE_Delta p d)
    then show ?thesis using Cons by simp
  qed (simp_all add: finish_response_def Let_def responds_def)
qed

definition same :: "'w loop \<Rightarrow> 'w loop \<Rightarrow> bool" where
  "same st st' \<longleftrightarrow> lp_ctx st' = lp_ctx st \<and> lp_new st' = lp_new st \<and> lp_trace st' = lp_trace st"

lemma same_in_world: "in_world f st = (a, st') \<Longrightarrow> same st st'"
  by (auto simp: in_world_def same_def split: prod.splits)

lemma stream_assistant_cases:
  assumes "proper_streams C" "stream_assistant C st = (r, st')"
  shows "case r of Inl e \<Rightarrow> same st st' | Inr m \<Rightarrow> responds st [] m st'"
proof -
  let ?pre = "case cf_transform C of None \<Rightarrow> (Inr (lp_ctx st), st) | Some f \<Rightarrow> in_world (f (lp_ctx st)) st"
  obtain t st1 where t: "?pre = (t, st1)" by force
  then have s1: "same st st1"
    by (auto simp: same_def split: option.splits dest!: same_in_world)
  show ?thesis
  proof (cases t)
    case (Inl e)
    then show ?thesis using assms(2) t s1 by (auto simp: stream_assistant_def)
  next
    case (Inr ms)
    obtain r1 st2 where r1: "in_world (cf_llm C ms) st1 = (r1, st2)" by force
    have s2: "same st st2" using s1 same_in_world [OF r1] by (simp add: same_def)
    show ?thesis
    proof (cases r1)
      case (Inl e)
      then show ?thesis using assms(2) t Inr r1 s2 by (auto simp: stream_assistant_def)
    next
      case final: (Inr p)
      obtain es m where p: "p = (es, m)" by force
      obtain w' where "cf_llm C ms (lp_world st1) = (Inr (es, m), w')"
        using r1 final p by (auto simp: in_world_def split: prod.splits)
      then have "starts es \<le> 1" using assms(1) unfolding proper_streams_def by blast
      from stream_loop_responds [OF this, of st2 m C] s2
      have "responds st [] m (stream_loop C es m False st2)" by (simp add: responds_def same_def)
      then show ?thesis using assms(2) t Inr r1 final p by (auto simp: stream_assistant_def)
    qed
  qed
qed

lemma retry_stream_responds:
  assumes "proper_streams C" "responds st0 tries m st" "retry_stream C n k m st = (r, st')" "transient m"
    and "\<forall>t \<in> set tries. transient t"
  shows "case r of
      Inl e \<Rightarrow> lp_ctx st' = lp_ctx st0 \<and> lp_new st' = lp_new st0
    | Inr m' \<Rightarrow> \<exists>tries'. responds st0 (tries @ tries') m' st' \<and> (\<forall>t \<in> set tries'. transient t) \<and>
        length tries' \<le> n"
  using assms(2-)
proof (induction n arbitrary: k m st tries)
  case 0
  then show ?case by (auto intro!: exI [of _ "[]"])
next
  case (Suc n)
  let ?st1 = "st\<lparr>lp_world := cf_sleep C (or_else (cf_base_delay C) 1000 * 2 ^ k) (lp_world st)\<rparr>"
  show ?case
  proof (cases "cf_aborted C (lp_world st) \<or> cf_aborted C (lp_world ?st1)")
    case True
    have "responds st0 (tries @ []) m ?st1" "responds st0 (tries @ []) m st"
      using Suc.prems(1) by (simp_all add: responds_def)
    moreover have "r = Inr m \<and> (st' = st \<or> st' = ?st1)"
      using True Suc.prems(2) by (auto simp: Let_def split: if_splits)
    ultimately show ?thesis by (auto intro!: exI [of _ "[]"])
  next
    case False
    let ?st2 = "?st1\<lparr>lp_ctx := butlast (lp_ctx ?st1)\<rparr>"
    have ctx: "lp_ctx st = lp_ctx st0 @ [Assistant_Message m]" using Suc.prems(1) by (simp add: responds_def)
    obtain r3 st3 where r3: "stream_assistant C ?st2 = (r3, st3)" by force
    have run: "and_then (r3, st3) (\<lambda>m' st3. if \<not> transient m' then (Inr m', st3)
        else retry_stream C n (Suc k) m' st3) = (r, st')"
      using Suc.prems(2) False ctx r3 by (simp add: Let_def)
    note cases = stream_assistant_cases [OF assms(1) r3]
    show ?thesis
    proof (cases r3)
      case (Inl e)
      then have "same ?st2 st'" "r = Inl e" using cases run by auto
      then show ?thesis using ctx Suc.prems(1) by (simp add: same_def responds_def)
    next
      case (Inr m3)
      have "responds ?st2 [] m3 st3" using cases Inr by simp
      then have resp: "responds st0 (tries @ [m]) m3 st3"
        using Suc.prems(1) ctx by (auto simp: responds_def)
      show ?thesis
      proof (cases "transient m3")
        case False
        then have "r = Inr m3" "st' = st3" using run Inr by simp_all
        then show ?thesis using resp Suc.prems(3) by (auto intro!: exI [of _ "[m]"])
      next
        case True
        have "retry_stream C n (Suc k) m3 st3 = (r, st')" using run Inr True by simp
        from Suc.IH [OF resp this True] Suc.prems(3,4)
        have IH: "case r of
            Inl e \<Rightarrow> lp_ctx st' = lp_ctx st0 \<and> lp_new st' = lp_new st0
          | Inr m' \<Rightarrow> \<exists>tries'. responds st0 ((tries @ [m]) @ tries') m' st' \<and>
              (\<forall>t \<in> set tries'. transient t) \<and> length tries' \<le> n" by auto
        show ?thesis
        proof (cases r)
          case (Inl e)
          then show ?thesis using IH by simp
        next
          case (Inr m')
          then obtain tries' where "responds st0 (tries @ (m # tries')) m' st'"
            "\<forall>t \<in> set tries'. transient t" "length tries' \<le> n" using IH by auto
          then show ?thesis using Inr Suc.prems(3) by (auto intro!: exI [of _ "m # tries'"])
        qed
      qed
    qed
  qed
qed

definition max_retries_of :: "'w config \<Rightarrow> nat" where
  "max_retries_of C = or_else (cf_max_retries C) 2"

lemma respond_cases:
  assumes "proper_streams C" "respond C st = (r, st')"
  shows "case r of
      Inl e \<Rightarrow> lp_ctx st' = lp_ctx st \<and> lp_new st' = lp_new st
    | Inr m \<Rightarrow> \<exists>tries. responds st tries m st' \<and> (\<forall>t \<in> set tries. transient t) \<and>
        length tries \<le> max_retries_of C"
proof -
  obtain r1 st1 where r1: "stream_assistant C st = (r1, st1)" by force
  note cases = stream_assistant_cases [OF assms(1) r1]
  show ?thesis
  proof (cases r1)
    case (Inl e)
    then show ?thesis using cases assms(2) r1 by (auto simp: respond_def same_def)
  next
    case (Inr m)
    then have m: "responds st [] m st1" using cases by simp
    show ?thesis
    proof (cases "transient m")
      case False
      then show ?thesis using assms(2) r1 Inr m by (auto simp: respond_def intro!: exI [of _ "[]"])
    next
      case True
      then have "retry_stream C (max_retries_of C) 0 m st1 = (r, st')"
        using assms(2) r1 Inr by (simp add: respond_def max_retries_of_def)
      from retry_stream_responds [OF assms(1) m this True] show ?thesis by (cases r) auto
    qed
  qed
qed

section \<open>One turn\<close>

lemma fold_inject:
  "lp_ctx (fold (inject C) ms st) = lp_ctx st @ ms \<and> lp_new (fold (inject C) ms st) = lp_new st @ ms \<and>
   (\<exists>es. lp_trace (fold (inject C) ms st) = lp_trace st @ es \<and> inner es \<and> ended es = ms \<and> framed_events es)"
proof (induction ms arbitrary: st)
  case (Cons m ms)
  let ?st = "inject C m st"
  have "lp_ctx ?st = lp_ctx st @ [m]" "lp_new ?st = lp_new st @ [m]"
    "lp_trace ?st = lp_trace st @ [Message_Start m, Message_End m]"
    by (simp_all add: inject_def emit_message_def)
  moreover obtain es where "lp_trace (fold (inject C) ms ?st) = lp_trace ?st @ es" "inner es" "ended es = ms"
    "framed_events es"
    using Cons.IH [of ?st] by blast
  ultimately show ?case
    using Cons.IH [of ?st] by (auto intro!: exI [of _ "Message_Start m # Message_End m # es"])
qed simp

lemma fold_add_result:
  "lp_ctx (fold add_result rs st) = lp_ctx st @ map Result_Message rs \<and>
   lp_new (fold add_result rs st) = lp_new st @ map Result_Message rs \<and>
   lp_trace (fold add_result rs st) = lp_trace st"
  by (induction rs arbitrary: st) (simp_all add: add_result_def)

lemma emit_message_simps [simp]:
  "lp_ctx (emit_message C m st) = lp_ctx st" "lp_new (emit_message C m st) = lp_new st"
  "lp_trace (emit_message C m st) = lp_trace st @ [Message_Start m, Message_End m]"
  by (simp_all add: emit_message_def)

definition stopped :: "assistant \<Rightarrow> bool" where
  "stopped m \<longleftrightarrow> as_stop m = Stop_Error \<or> as_stop m = Stop_Aborted"

definition answered :: "assistant \<Rightarrow> tool_result list \<Rightarrow> bool" where
  "answered m rs \<longleftrightarrow> mset (map tr_call_id rs) = mset (map tc_id (tool_calls m))"

text \<open>A turn that returns: the messages it adds and the events it emits.\<close>

lemma turn_cases:
  assumes "proper_streams C" "turn C first pending st = (Inr r, st')"
  obtains m rs tries es where
    "lp_ctx st' = lp_ctx st @ pending @ Assistant_Message m # map Result_Message rs"
    "lp_new st' = lp_new st @ pending @ Assistant_Message m # map Result_Message rs"
    "lp_trace st' = lp_trace st @ (if first then [] else [Turn_Start]) @ es @
       Turn_End (Assistant_Message m) rs # (if r = None then [Agent_End (lp_new st')] else [])"
    "inner es" "ended es = pending @ map Assistant_Message (tries @ [m]) @ map Result_Message rs"
    "framed_events es"
    "\<forall>t \<in> set tries. transient t" "length tries \<le> max_retries_of C"
    "r = None \<Longrightarrow> stopped m \<and> rs = []"
    "\<And>b. r = Some b \<Longrightarrow> \<not> stopped m \<and> answered m rs \<and> b = (tool_calls m \<noteq> [])"
proof -
  let ?st0 = "if first then st else emit_event C Turn_Start st"
  let ?st1 = "fold (inject C) pending ?st0"
  obtain es1 where st1: "lp_ctx ?st1 = lp_ctx st @ pending" "lp_new ?st1 = lp_new st @ pending"
    "lp_trace ?st1 = lp_trace st @ (if first then [] else [Turn_Start]) @ es1" "inner es1" "ended es1 = pending"
    "framed_events es1"
    using fold_inject [of C pending ?st0] by auto
  obtain m st2 where m: "respond C ?st1 = (Inr m, st2)"
    using assms(2) unfolding turn_def by (auto elim!: and_then_InrD)
  obtain tries where tries: "responds ?st1 tries m st2" "\<forall>t \<in> set tries. transient t"
    "length tries \<le> max_retries_of C"
    using respond_cases [OF assms(1) m] by auto
  then obtain es2 where st2: "lp_ctx st2 = lp_ctx ?st1 @ [Assistant_Message m]" "lp_new st2 = lp_new ?st1"
    "lp_trace st2 = lp_trace ?st1 @ es2" "inner es2" "ended es2 = map Assistant_Message (tries @ [m])"
    "framed_events es2"
    by (auto simp: responds_def)
  let ?st3 = "push_new (Assistant_Message m) st2"
  show thesis
  proof (cases "stopped m")
    case True
    then have "r = None" "st' = (let st3 = emit_event C (Turn_End (Assistant_Message m) []) ?st3
        in emit_event C (Agent_End (lp_new st3)) st3)"
      using assms(2) m by (auto simp: turn_def stopped_def Let_def)
    then show thesis
      using that [of m "[]" "es1 @ es2" tries] st1 st2 tries True by (simp add: Let_def)
  next
    case False
    show thesis
    proof (cases "tool_calls m = []")
      case True
      then have "r = Some False" "st' = emit_event C (Turn_End (Assistant_Message m) []) ?st3"
        using assms(2) m False by (auto simp: turn_def stopped_def Let_def)
      then show thesis
        using that [of m "[]" "es1 @ es2" tries] st1 st2 tries False True by (simp add: answered_def)
    next
      case calls: False
      obtain rs st4 where rs: "execute_calls C m ?st3 = (Inr rs, st4)" "r = Some True"
        "st' = emit_event C (Turn_End (Assistant_Message m) rs) (fold add_result rs st4)"
        using assms(2) m False calls
        by (auto simp: turn_def stopped_def Let_def elim!: and_then_InrD)
      from execute_calls_answers [OF rs(1)] obtain es3 where es3: "lp_trace st4 = lp_trace ?st3 @ es3"
        "inner es3" "ended es3 = map Result_Message rs" "framed_events es3" "answered m rs" "lp_ctx st4 = lp_ctx ?st3"
        "lp_new st4 = lp_new ?st3"
        by (auto simp: answered_def answers_def adds_def)
      show thesis
        using that [of m rs "es1 @ es2 @ es3" tries] st1 st2 tries es3 rs(2,3) False calls
          fold_add_result [of rs st4] by simp
    qed
  qed
qed

section \<open>The whole run\<close>

text \<open>
  Every assistant message that is not an error is followed by the results of its tool calls,
  in some order, before anything else; an error ends the list.
\<close>

definition is_result :: "message \<Rightarrow> bool" where
  "is_result m = (case m of Result_Message _ \<Rightarrow> True | _ \<Rightarrow> False)"

definition result_ids :: "message list \<Rightarrow> id list" where
  "result_ids ms = List.map_filter (\<lambda>m. case m of Result_Message r \<Rightarrow> Some (tr_call_id r) | _ \<Rightarrow> None) ms"

function well_answered :: "message list \<Rightarrow> bool" where
  "well_answered [] = True"
| "well_answered (Other_Message j # ms) = well_answered ms"
| "well_answered (Result_Message r # ms) = False"
| "well_answered (Assistant_Message m # ms) =
     (if stopped m then ms = []
      else let n = length (tool_calls m)
           in n \<le> length ms \<and> list_all is_result (take n ms) \<and>
              mset (result_ids (take n ms)) = mset (map tc_id (tool_calls m)) \<and>
              well_answered (drop n ms))"
  by pat_completeness auto
termination by (relation "measure length") auto

definition plain :: "message list \<Rightarrow> bool" where
  "plain ms \<longleftrightarrow> (\<forall>m \<in> set ms. \<not> is_assistant m \<and> \<not> is_result m)"

lemma well_answered_plain: "plain ms \<Longrightarrow> well_answered (ms @ rest) = well_answered rest"
proof (induction ms)
  case (Cons m ms)
  then show ?case by (cases m) (auto simp: plain_def is_assistant_def is_result_def)
qed simp

lemma result_ids_map: "result_ids (map Result_Message rs) = map tr_call_id rs"
  by (induction rs) (simp_all add: result_ids_def map_filter_def)

lemma well_answered_turn:
  assumes "\<not> stopped m" "answered m rs"
  shows "well_answered (Assistant_Message m # map Result_Message rs @ rest) = well_answered rest"
proof -
  have len: "length (tool_calls m) = length rs"
    using assms(2) unfolding answered_def by (metis length_map size_mset)
  have "list_all is_result (map Result_Message rs)"
    by (simp add: list_all_iff is_result_def)
  with assms show ?thesis by (simp add: len result_ids_map answered_def)
qed

fun is_agent_event :: "event \<Rightarrow> bool" where
  "is_agent_event Agent_Start = True"
| "is_agent_event (Agent_End ms) = True"
| "is_agent_event _ = False"

fun is_turn_end :: "event \<Rightarrow> bool" where
  "is_turn_end (Turn_End m rs) = True"
| "is_turn_end _ = False"

definition turn_starts :: "event list \<Rightarrow> nat" where
  "turn_starts es = length (filter (\<lambda>e. e = Turn_Start) es)"

definition turn_ends :: "event list \<Rightarrow> nat" where
  "turn_ends es = length (filter is_turn_end es)"

lemma inner_counts: "inner es \<Longrightarrow> turn_starts es = 0 \<and> turn_ends es = 0 \<and> (\<forall>e \<in> set es. \<not> is_agent_event e)"
proof -
  assume "inner es"
  then have *: "e \<in> set es \<Longrightarrow> e \<noteq> Turn_Start \<and> \<not> is_turn_end e \<and> \<not> is_agent_event e" for e
    by (cases e) (auto simp: inner_def list_all_iff)
  then show ?thesis by (auto simp: turn_starts_def turn_ends_def filter_empty_conv)
qed

lemma count_simps [simp]:
  "turn_starts (es @ fs) = turn_starts es + turn_starts fs"
  "turn_ends (es @ fs) = turn_ends es + turn_ends fs"
  "turn_starts [] = 0" "turn_ends [] = 0"
  "turn_starts (e # es) = (if e = Turn_Start then Suc (turn_starts es) else turn_starts es)"
  "turn_ends (e # es) = (if is_turn_end e then Suc (turn_ends es) else turn_ends es)"
  by (simp_all add: turn_starts_def turn_ends_def)

definition plain_input :: "'w config \<Rightarrow> bool" where
  "plain_input C \<longleftrightarrow> (\<forall>w. plain (fst (cf_steering C w)) \<and> plain (fst (cf_follow_up C w)))"

text \<open>
  Events as a sequence of turns: outside a turn only a turn start is allowed, inside one
  everything but a turn start and the events of the run. The flag says whether a turn is open.
\<close>

fun turns :: "bool \<Rightarrow> event list \<Rightarrow> bool option" where
  "turns b [] = Some b"
| "turns b (Turn_Start # es) = (if b then None else turns True es)"
| "turns b (Turn_End m rs # es) = (if b then turns False es else None)"
| "turns b (e # es) = (if b \<and> \<not> is_agent_event e then turns b es else None)"

lemma turns_append: "turns b (es @ fs) = Option.bind (turns b es) (\<lambda>c. turns c fs)"
  by (induction b es rule: turns.induct) simp_all

lemma turns_inner: "inner es \<Longrightarrow> turns True es = Some True"
proof (induction es)
  case (Cons e es)
  then show ?case by (cases e) (auto simp: inner_def)
qed simp

lemma turns_no_agent_event: "turns b es = Some c \<Longrightarrow> \<forall>e \<in> set es. \<not> is_agent_event e"
  by (induction b es rule: turns.induct) (auto split: if_splits)

text \<open>A run cut off by the limit reports its message and the end of a turn that did not begin.\<close>

definition cut_off :: "message \<Rightarrow> event list" where
  "cut_off m = [Message_Start m, Message_End m, Turn_End m []]"

definition in_turns :: "'w config \<Rightarrow> bool \<Rightarrow> message list \<Rightarrow> event list \<Rightarrow> bool" where
  "in_turns C first new es \<longleftrightarrow> turns first es = Some False \<or>
     (\<exists>es0 now. es = es0 @ cut_off (last new) \<and> turns first es0 = Some False \<and>
        last new = Assistant_Message (limit_message (max_iterations_of C) now))"

lemma in_turns_next:
  "turns first es = Some b \<Longrightarrow> in_turns C b new es' \<Longrightarrow> in_turns C first new (es @ es')"
  by (fastforce simp: in_turns_def turns_append)

text \<open>
  With \<open>left\<close> iterations left, the events have one turn end per turn start (the first turn may
  have been started by the caller); a run cut off by the limit has one turn end too many,
  unless no turn of its own had begun.
\<close>

definition limit_last :: "'w config \<Rightarrow> message list \<Rightarrow> bool" where
  "limit_last C ms \<longleftrightarrow> (\<exists>now. last ms = Assistant_Message (limit_message (max_iterations_of C) now))"

definition balanced :: "'w config \<Rightarrow> nat \<Rightarrow> bool \<Rightarrow> message list \<Rightarrow> event list \<Rightarrow> bool" where
  "balanced C left first new es \<longleftrightarrow> in_turns C first new es \<and>
     (turn_ends es = turn_starts es + of_bool first \<and> turn_ends es \<le> left \<or>
      turn_ends es = turn_starts es + (if left = 0 then 1 else 1 + of_bool first) \<and>
        turn_ends es \<le> Suc left \<and> limit_last C new)"

lemma balanced_next:
  assumes "balanced C left False new es'" "turn_ends es = turn_starts es + of_bool first" "turn_ends es = 1"
    and "turns first es = Some False"
  shows "balanced C (Suc left) first new (es @ es')"
proof -
  have "in_turns C first new (es @ es')"
    using assms(1) in_turns_next [OF assms(4)] unfolding balanced_def by blast
  moreover
  consider (even) "turn_ends es' = turn_starts es'" "turn_ends es' \<le> left"
    | (limit) "turn_ends es' = turn_starts es' + 1" "turn_ends es' \<le> Suc left" "limit_last C new"
    using assms(1) by (cases "left = 0") (auto simp: balanced_def)
  then show ?thesis
    by cases (use assms(2,3) calculation in \<open>simp_all add: balanced_def\<close>)
qed

text \<open>What a run from a given point adds, when it returns.\<close>

definition adds_run :: "'w config \<Rightarrow> nat \<Rightarrow> bool \<Rightarrow> bool \<Rightarrow> 'w loop \<Rightarrow> 'w loop \<Rightarrow> bool" where
  "adds_run C left first ok st st' \<longleftrightarrow>
     (\<exists>ms es. lp_ctx st' = lp_ctx st @ ms \<and> lp_new st' = lp_new st @ ms \<and>
        (plain_input C \<and> ok \<longrightarrow> well_answered ms) \<and>
        lp_trace st' = lp_trace st @ es @ [Agent_End (lp_new st')] \<and>
        (\<forall>e \<in> set es. \<not> is_agent_event e) \<and> balanced C left first (lp_new st') es \<and>
        framed_events es \<and>
        subseq ms (ended es) \<and> (max_retries_of C = 0 \<longrightarrow> ended es = ms))"

lemma adds_runI:
  assumes "lp_ctx st' = lp_ctx st @ ms" "lp_new st' = lp_new st @ ms"
    "plain_input C \<and> ok \<longrightarrow> well_answered ms"
    "lp_trace st' = lp_trace st @ es @ [Agent_End (lp_new st')]"
    "\<forall>e \<in> set es. \<not> is_agent_event e" "balanced C left first (lp_new st') es"
    "framed_events es" "subseq ms (ended es)" "max_retries_of C = 0 \<longrightarrow> ended es = ms"
  shows "adds_run C left first ok st st'"
  unfolding adds_run_def using assms by (intro exI [of _ ms] exI [of _ es] conjI)

lemma limit_reached_adds:
  "adds_run C 0 first ok st (limit_reached C st)"
proof -
  let ?m = "Assistant_Message (limit_message (max_iterations_of C) (cf_now C (lp_world st)))"
  have "well_answered [?m]" by (simp add: stopped_def limit_message_def)
  moreover have "in_turns C first (new @ [?m]) (cut_off ?m)" for new
  proof (cases first)
    case True
    then show ?thesis by (simp add: in_turns_def cut_off_def)
  next
    case False
    then have "turns first [] = Some False" by simp
    then show ?thesis unfolding in_turns_def by (metis append_Nil last_snoc)
  qed
  ultimately show ?thesis
    by (auto simp: adds_run_def limit_reached_def Let_def balanced_def limit_last_def cut_off_def
        intro!: exI [of _ "[?m]"] exI [of _ "[Message_Start ?m, Message_End ?m, Turn_End ?m []]"])
qed

lemma same_world:
  assumes "in_world f st = (a, st')"
  shows "lp_ctx st' = lp_ctx st" "lp_new st' = lp_new st" "lp_trace st' = lp_trace st"
  using same_in_world [OF assms] by (simp_all add: same_def)

lemma ended_turn:
  assumes "ended es = pending @ map Assistant_Message (tries @ [m]) @ map Result_Message rs"
    and "length tries \<le> max_retries_of C"
  shows "subseq (pending @ Assistant_Message m # map Result_Message rs) (ended es)"
    "max_retries_of C = 0 \<Longrightarrow> ended es = pending @ Assistant_Message m # map Result_Message rs"
proof -
  show "subseq (pending @ Assistant_Message m # map Result_Message rs) (ended es)"
    unfolding assms(1) by (simp add: list_emb_append_mono list_emb_append2)
  show "max_retries_of C = 0 \<Longrightarrow> ended es = pending @ Assistant_Message m # map Result_Message rs"
    using assms by simp
qed

lemma in_world_fst: "in_world f st = (a, st') \<Longrightarrow> a = fst (f (lp_world st))"
  by (auto simp: in_world_def split: prod.splits)

lemma run_iterations_adds:
  assumes "proper_streams C"
  shows "run_iterations C iters first pending st = (Inr (), st') \<Longrightarrow>
    adds_run C (max_iterations_of C - iters) first (plain pending) st st'"
proof (induction "max_iterations_of C - iters" arbitrary: iters first pending st rule: less_induct)
  case less
  show ?case
  proof (cases "max_iterations_of C < Suc iters")
    case True
    then have "st' = limit_reached C st" "max_iterations_of C - iters = 0"
      using less.prems by (simp_all add: run_iterations.simps [of C iters])
    then show ?thesis using limit_reached_adds by metis
  next
    case False
    let ?left = "max_iterations_of C - iters"
    have left: "?left = Suc (max_iterations_of C - Suc iters)" using False by simp
    obtain r st1 where turn: "turn C first pending st = (Inr r, st1)"
      using less.prems False by (auto simp: run_iterations.simps [of C iters] elim!: and_then_InrD)
    obtain m rs tries es where t:
      "lp_ctx st1 = lp_ctx st @ pending @ Assistant_Message m # map Result_Message rs"
      "lp_new st1 = lp_new st @ pending @ Assistant_Message m # map Result_Message rs"
      "lp_trace st1 = lp_trace st @ (if first then [] else [Turn_Start]) @ es @
         Turn_End (Assistant_Message m) rs # (if r = None then [Agent_End (lp_new st1)] else [])"
      "inner es" "ended es = pending @ map Assistant_Message (tries @ [m]) @ map Result_Message rs"
      "length tries \<le> max_retries_of C"
      "r = None \<Longrightarrow> stopped m \<and> rs = []"
      "\<And>b. r = Some b \<Longrightarrow> \<not> stopped m \<and> answered m rs \<and> b = (tool_calls m \<noteq> [])"
      "framed_events es"
      using turn_cases [OF assms turn] by metis
    let ?ms = "pending @ Assistant_Message m # map Result_Message rs"
    let ?es = "(if first then [] else [Turn_Start]) @ es @ [Turn_End (Assistant_Message m) rs]"
    note counts = inner_counts [OF t(4)]
    have es_facts: "turn_ends ?es = turn_starts ?es + of_bool first" "turn_ends ?es = 1"
      "\<forall>e \<in> set ?es. \<not> is_agent_event e" "ended ?es = ended es" "framed_events ?es"
      "turns first ?es = Some False"
      using counts t(9) turns_inner [OF t(4)] by (auto simp: turns_append)
    note sub = ended_turn [OF t(5,6)]
    show ?thesis
    proof (cases r)
      case None
      then have "st' = st1"
        using less.prems False turn by (simp add: run_iterations.simps [of C iters])
      moreover have "well_answered ?ms" if "plain pending"
        using None t(7) that by (simp add: well_answered_plain)
      ultimately show ?thesis
        unfolding adds_run_def using None t es_facts sub left
        by (intro exI [of _ ?ms] exI [of _ ?es]) (simp add: balanced_def in_turns_def)
    next
      case (Some b)
      obtain pend2 st2 where s2: "in_world (cf_steering C) st1 = (pend2, st2)" by force
      obtain fu st3 where s3: "in_world (cf_follow_up C) st2 = (fu, st3)" by force
      note same2 = same_world [OF s2] and same3 = same_world [OF s3]
      have wa: "well_answered (?ms @ rest) = well_answered rest" if "plain pending" for rest
        using t(8) [OF Some] that well_answered_turn [of m rs rest] by (simp add: well_answered_plain)
      have next_round: "adds_run C ?left first (plain pending) st st'"
        if rec: "run_iterations C (Suc iters) False pend st4 = (Inr (), st')"
          and same4: "lp_ctx st4 = lp_ctx st1" "lp_new st4 = lp_new st1" "lp_trace st4 = lp_trace st1"
          and pl: "plain_input C \<Longrightarrow> plain pend" for pend st4
      proof -
        have "adds_run C (max_iterations_of C - Suc iters) False (plain pend) st4 st'"
          by (rule less.hyps [OF _ rec]) (use left in simp)
        then obtain ms' es' where IH:
          "lp_ctx st' = lp_ctx st4 @ ms'" "lp_new st' = lp_new st4 @ ms'"
          "plain_input C \<and> plain pend \<longrightarrow> well_answered ms'"
          "lp_trace st' = lp_trace st4 @ es' @ [Agent_End (lp_new st')]"
          "\<forall>e \<in> set es'. \<not> is_agent_event e"
          "balanced C (max_iterations_of C - Suc iters) False (lp_new st') es'"
          "framed_events es'" "subseq ms' (ended es')" "max_retries_of C = 0 \<longrightarrow> ended es' = ms'"
          unfolding adds_run_def by (elim exE conjE) (rule that)
        have "lp_ctx st' = lp_ctx st @ ?ms @ ms'" "lp_new st' = lp_new st @ ?ms @ ms'"
          using IH(1,2) t(1,2) same4 by simp_all
        moreover have "plain_input C \<and> plain pending \<longrightarrow> well_answered (?ms @ ms')"
          using wa IH(3) pl by blast
        moreover have "lp_trace st' = lp_trace st @ (?es @ es') @ [Agent_End (lp_new st')]"
          using IH(4) t(3) same4 Some by simp
        moreover have "\<forall>e \<in> set (?es @ es'). \<not> is_agent_event e" using es_facts(3) IH(5) by auto
        moreover have "balanced C ?left first (lp_new st') (?es @ es')"
          unfolding left by (rule balanced_next [OF IH(6) es_facts(1,2,6)])
        moreover have "framed_events (?es @ es')" by (rule framed_events_append [OF es_facts(5) IH(7)])
        moreover have "subseq (?ms @ ms') (ended (?es @ es'))"
          unfolding ended_simps(3) [of ?es es'] es_facts(4) by (rule list_emb_append_mono [OF sub(1) IH(8)])
        moreover have "max_retries_of C = 0 \<longrightarrow> ended (?es @ es') = ?ms @ ms'"
          unfolding ended_simps(3) [of ?es es'] es_facts(4) using sub(2) IH(9) by simp
        ultimately show ?thesis by (rule adds_runI)
      qed
      show ?thesis
      proof (cases "b \<or> pend2 \<noteq> []")
        case True
        then have "run_iterations C (Suc iters) False pend2 st2 = (Inr (), st')"
          using less.prems False turn Some s2 by (simp add: run_iterations.simps [of C iters])
        then show ?thesis
          by (rule next_round) (use same2 in_world_fst [OF s2] in \<open>simp_all add: plain_input_def\<close>)
      next
        case no_more: False
        show ?thesis
        proof (cases "fu = []")
          case False
          then have "run_iterations C (Suc iters) False fu st3 = (Inr (), st')"
            using less.prems \<open>\<not> max_iterations_of C < Suc iters\<close> turn Some s2 s3 no_more
            by (simp add: run_iterations.simps [of C iters])
          then show ?thesis
            by (rule next_round) (use same2 same3 in_world_fst [OF s3] in \<open>simp_all add: plain_input_def\<close>)
        next
          case True
          then have st': "st' = emit_event C (Agent_End (lp_new st3)) st3"
            using less.prems False turn Some s2 s3 no_more by (simp add: run_iterations.simps [of C iters])
          have "well_answered ?ms" if "plain pending" using wa [OF that, of "[]"] by simp
          then show ?thesis
            unfolding adds_run_def using st' Some t same2 same3 es_facts sub left
            by (intro exI [of _ ?ms] exI [of _ ?es]) (simp add: balanced_def in_turns_def)
        qed
      qed
    qed
  qed
qed

lemma fold_emit_message:
  "lp_ctx (fold (emit_message C) ms st) = lp_ctx st \<and> lp_new (fold (emit_message C) ms st) = lp_new st \<and>
   (\<exists>es. lp_trace (fold (emit_message C) ms st) = lp_trace st @ es \<and> inner es \<and> ended es = ms \<and>
      framed_events es)"
proof (induction ms arbitrary: st)
  case (Cons m ms)
  obtain es where "lp_trace (fold (emit_message C) ms (emit_message C m st)) =
      lp_trace (emit_message C m st) @ es" "inner es" "ended es = ms" "framed_events es"
    using Cons.IH [of "emit_message C m st"] by blast
  then show ?case
    using Cons.IH [of "emit_message C m st"]
    by (auto intro!: exI [of _ "Message_Start m # Message_End m # es"])
qed simp

lemma run_agent_loop_adds:
  assumes "proper_streams C" "run_agent_loop C prompts ctx w = (Inr (), st)"
  obtains ms es es0 where "lp_ctx st = ctx @ prompts @ ms" "lp_new st = prompts @ ms"
    "plain_input C \<Longrightarrow> well_answered ms" "inner es0" "ended es0 = prompts"
    "lp_trace st = [Agent_Start, Turn_Start] @ (es0 @ es) @ [Agent_End (lp_new st)]"
    "\<forall>e \<in> set es. \<not> is_agent_event e" "balanced C (max_iterations_of C) True (lp_new st) es"
    "subseq ms (ended es)" "max_retries_of C = 0 \<Longrightarrow> ended es = ms"
    "framed_events es0" "framed_events es"
proof -
  let ?base = "emit_event C Turn_Start (emit_event C Agent_Start
      \<lparr>lp_ctx = ctx @ prompts, lp_new = prompts, lp_trace = [], lp_world = w\<rparr>)"
  let ?st0 = "fold (emit_message C) prompts ?base"
  obtain es0 where st0: "lp_ctx ?st0 = ctx @ prompts" "lp_new ?st0 = prompts"
    "lp_trace ?st0 = [Agent_Start, Turn_Start] @ es0" "inner es0" "ended es0 = prompts" "framed_events es0"
    using fold_emit_message [of C prompts ?base] by auto
  obtain pend st1 where s: "in_world (cf_steering C) ?st0 = (pend, st1)" by force
  then have "run_iterations C 0 True pend st1 = (Inr (), st)"
    using assms(2) by (simp add: run_agent_loop_def run_loop_def)
  from run_iterations_adds [OF assms(1) this]
  have "adds_run C (max_iterations_of C) True (plain pend) st1 st" by simp
  then obtain ms es where "lp_ctx st = lp_ctx st1 @ ms" "lp_new st = lp_new st1 @ ms"
    "plain_input C \<and> plain pend \<longrightarrow> well_answered ms"
    "lp_trace st = lp_trace st1 @ es @ [Agent_End (lp_new st)]"
    "\<forall>e \<in> set es. \<not> is_agent_event e" "balanced C (max_iterations_of C) True (lp_new st) es"
    "framed_events es" "subseq ms (ended es)" "max_retries_of C = 0 \<longrightarrow> ended es = ms"
    unfolding adds_run_def by (elim exE conjE) (rule that)
  with st0 same_world [OF s] in_world_fst [OF s] show thesis
    by (intro that [of ms es0 es]) (auto simp: plain_input_def)
qed

section \<open>A model that follows a script\<close>

text \<open>The world counts the requests; response \<open>n\<close> is the \<open>n\<close>-th of a list.\<close>

definition reply :: "block list \<Rightarrow> stop_reason \<Rightarrow> string option \<Rightarrow> assistant" where
  "reply bs stop err = \<lparr>as_content = bs, as_api = ''a'', as_provider = ''p'', as_model = ''m'',
     as_usage = JNull, as_stop = stop, as_error = err, as_time = 0\<rparr>"

definition echo_tool :: "nat tool" where
  "echo_tool = \<lparr>tl_name = ''echo'', tl_validate = Inr,
     tl_execute = \<lambda>args _ w. (([], Inr \<lparr>to_content = [Other_Block args], to_details = JNull\<rparr>), w)\<rparr>"

definition scripted :: "assistant list \<Rightarrow> nat option \<Rightarrow> nat config" where
  "scripted rs mx = \<lparr>cf_tools = [echo_tool], cf_listener = \<lambda>_ w. w,
     cf_steering = \<lambda>w. ([], w), cf_follow_up = \<lambda>w. ([], w), cf_transform = None,
     cf_llm = \<lambda>_ w. (Inr ([SE_Start (rs ! w), SE_Done], rs ! w), Suc w),
     cf_aborted = \<lambda>_. False, cf_sleep = \<lambda>_ w. w, cf_now = \<lambda>_. 0, cf_max_iterations = mx,
     cf_max_retries = None, cf_base_delay = None, cf_sequential = False, cf_before = None,
     cf_after = None, cf_execution_order = \<lambda>_. []\<rparr>"

lemma scripted_proper: "proper_streams (scripted rs mx)"
  by (auto simp: proper_streams_def scripted_def)

lemma scripted_plain: "plain_input (scripted rs mx)"
  by (simp add: plain_input_def scripted_def plain_def)

definition call_block :: "id \<Rightarrow> string \<Rightarrow> block" where
  "call_block i n = Tool_Call_Block \<lparr>tc_id = i, tc_name = n, tc_args = JNull\<rparr>"

definition two_turns :: "assistant list" where
  "two_turns = [reply [call_block ''1'' ''Echo'', call_block ''2'' ''nope''] Stop_Tool_Use None,
     reply [Text_Block ''bye''] Stop_End None]"

definition hello :: message where "hello = Other_Message (JStr ''hello'')"

definition demo_start :: "nat config \<Rightarrow> nat loop" where
  "demo_start C = emit_message C hello (emit_event C Turn_Start (emit_event C Agent_Start
     \<lparr>lp_ctx = [hello], lp_new = [hello], lp_trace = [], lp_world = 0\<rparr>))"

lemma run_demo: "run_agent_loop (scripted rs mx) [hello] [] 0 =
    run_iterations (scripted rs mx) 0 True [] (demo_start (scripted rs mx))"
  by (simp add: run_agent_loop_def run_loop_def demo_start_def in_world_def scripted_def)

lemma run_more:
  assumes "iters < max_iterations_of (scripted rs mx)"
    "fst (turn (scripted rs mx) first pending st) = Inr (Some True)"
  shows "run_iterations (scripted rs mx) iters first pending st =
    run_iterations (scripted rs mx) (Suc iters) False [] (snd (turn (scripted rs mx) first pending st))"
proof -
  obtain st1 where "turn (scripted rs mx) first pending st = (Inr (Some True), st1)"
    using assms(2) by (metis prod.collapse)
  moreover have "in_world (cf_steering (scripted rs mx)) x = ([], x)" for x
    by (simp add: in_world_def scripted_def)
  ultimately show ?thesis using assms(1) by (simp add: run_iterations.simps [of _ iters])
qed

lemma run_ends:
  assumes "iters < max_iterations_of (scripted rs mx)"
    "fst (turn (scripted rs mx) first pending st) = Inr (Some False)"
  shows "run_iterations (scripted rs mx) iters first pending st =
    (let st1 = snd (turn (scripted rs mx) first pending st)
     in (Inr (), emit_event (scripted rs mx) (Agent_End (lp_new st1)) st1))"
proof -
  obtain st1 where "turn (scripted rs mx) first pending st = (Inr (Some False), st1)"
    using assms(2) by (metis prod.collapse)
  moreover have "in_world (cf_steering (scripted rs mx)) x = ([], x)"
    "in_world (cf_follow_up (scripted rs mx)) x = ([], x)" for x
    by (simp_all add: in_world_def scripted_def)
  ultimately show ?thesis using assms(1) by (simp add: run_iterations.simps [of _ iters])
qed

lemma and_then_cong: "r = r' \<Longrightarrow> and_then r k = and_then r' k"
  by simp

lemmas loop_eval = turn_def respond_def stream_assistant_def scripted_def demo_start_def
  two_turns_def reply_def call_block_def hello_def in_world_def emit_event_def emit_message_def push_ctx_def
  push_new_def set_last_def finish_response_def transient_def tool_calls_def map_filter_simps
  execute_calls_def run_parallel_def prepare_call_def start_call_def find_tool_def echo_tool_def
  emit_outcome_def error_result_def execute_prepared_def complete_one_def finalize_call_def
  apply_after_hook_def add_result_def max_iterations_of_def default_max_iterations_def

lemma echo_found:
  "to_lower ''Echo'' = ''echo''" "to_lower ''echo'' = ''echo''" "to_lower ''nope'' = ''nope''"
  by code_simp+

lemma turn1:
  "\<exists>st. turn (scripted two_turns None) True [] (demo_start (scripted two_turns None)) = (Inr (Some True), st) \<and>
     lp_world st = 1 \<and> length (lp_new st) = 4 \<and> result_ids (lp_new st) = [''2'', ''1''] \<and>
     turn_ends (lp_trace st) = 1 \<and> turn_starts (lp_trace st) = 1"
  by (simp add: loop_eval repair_tool_name_def echo_found Let_def result_ids_def cong: and_then_cong)

lemma turn2:
  "lp_world st = 1 \<Longrightarrow> \<exists>st'. turn (scripted two_turns None) False [] st = (Inr (Some False), st') \<and>
     lp_new st' = lp_new st @ [Assistant_Message (two_turns ! 1)] \<and>
     turn_ends (lp_trace st') = Suc (turn_ends (lp_trace st)) \<and>
     turn_starts (lp_trace st') = Suc (turn_starts (lp_trace st))"
  by (simp add: loop_eval Let_def cong: and_then_cong)

lemma two_turns_run:
  "\<exists>st. run_agent_loop (scripted two_turns None) [hello] [] 0 = (Inr (), st) \<and>
     length (lp_new st) = 5 \<and> result_ids (lp_new st) = [''2'', ''1''] \<and>
     turn_ends (lp_trace st) = 2 \<and> turn_starts (lp_trace st) = 2"
proof -
  obtain st1 where st1: "turn (scripted two_turns None) True [] (demo_start (scripted two_turns None)) = (Inr (Some True), st1)"
    "lp_world st1 = 1" "length (lp_new st1) = 4" "result_ids (lp_new st1) = [''2'', ''1'']"
    "turn_ends (lp_trace st1) = 1" "turn_starts (lp_trace st1) = 1"
    using turn1 by blast
  obtain st2 where st2: "turn (scripted two_turns None) False [] st1 = (Inr (Some False), st2)"
    "lp_new st2 = lp_new st1 @ [Assistant_Message (two_turns ! 1)]"
    "turn_ends (lp_trace st2) = Suc (turn_ends (lp_trace st1))"
    "turn_starts (lp_trace st2) = Suc (turn_starts (lp_trace st1))"
    using turn2 [OF st1(2)] by blast
  have mx: "max_iterations_of (scripted two_turns None) = 100"
    by (simp add: max_iterations_of_def default_max_iterations_def scripted_def)
  show ?thesis
    unfolding run_demo using st1 st2
    by (simp add: run_more mx run_ends Let_def result_ids_def map_filter_def)
qed

text \<open>C1: When a run returns, the context is the old context followed by the new messages, and the
  new messages are the prompts followed by a well-formed conversation: every response is
  followed at once by exactly the results of its tool calls, and an error or abort ends it.
  (Responses are proper streams; steering and follow-up messages are user messages.)\<close>

theorem conversation_answered:
  assumes "proper_streams C" and "run_agent_loop C prompts ctx w = (Inr (), st)"
  shows "lp_ctx st = ctx @ lp_new st \<and>
    (\<exists>ms. lp_new st = prompts @ ms \<and> (plain_input C \<longrightarrow> well_answered ms))"
  by (rule run_agent_loop_adds [OF assms]) auto

theorem conversation_answered_witness:
  "\<exists>st ms. run_agent_loop (scripted two_turns None) [hello] [] 0 = (Inr (), st) \<and>
    lp_ctx st = lp_new st \<and> lp_new st = hello # ms \<and> length ms = 4 \<and> well_answered ms"
proof -
  obtain st where st: "run_agent_loop (scripted two_turns None) [hello] [] 0 = (Inr (), st)"
    "length (lp_new st) = 5"
    using two_turns_run by blast
  from conversation_answered [OF scripted_proper st(1)] scripted_plain st show ?thesis by auto
qed

text \<open>C9: When a run whose streams are in protocol order returns, its events are one agent start, a sequence of turns and one agent end
  that carries the new messages. Each turn is a turn start, events of messages and tools, and
  a turn end; nothing is emitted between turns. The one exception is a run cut off by the
  iteration limit, which may report, after its turns, the error message and a turn end without
  a turn start. There is at most one turn end more than the limit allows. The messages
  reported as ended contain the new messages in their order, and are exactly the new messages
  when responses are not retried. A response is a start, updates and an end; meanwhile no
  other response starts and no tool call ends.\<close>

theorem events_frame_run:
  assumes "proper_streams C" and "run_agent_loop C prompts ctx w = (Inr (), st)"
  shows "\<exists>es. lp_trace st = Agent_Start # es @ [Agent_End (lp_new st)] \<and>
    (turns False es = Some False \<or>
      (\<exists>es0 m now. es = es0 @ [Message_Start m, Message_End m, Turn_End m []] \<and> turns False es0 = Some False \<and>
        m = Assistant_Message (limit_message (max_iterations_of C) now) \<and> m = last (lp_new st))) \<and>
    turn_ends es \<le> Suc (max_iterations_of C) \<and>
    subseq (lp_new st) (ended es) \<and> (max_retries_of C = 0 \<longrightarrow> ended es = lp_new st) \<and>
    framed_events es"
proof (rule run_agent_loop_adds [OF assms])
  fix ms es es0
  assume new: "lp_new st = prompts @ ms" and es0: "inner es0" "ended es0 = prompts"
    and trace: "lp_trace st = [Agent_Start, Turn_Start] @ (es0 @ es) @ [Agent_End (lp_new st)]"
    and es: "\<forall>e \<in> set es. \<not> is_agent_event e" "balanced C (max_iterations_of C) True (lp_new st) es"
      "subseq ms (ended es)" "max_retries_of C = 0 \<Longrightarrow> ended es = ms"
    and framed: "framed_events es0" "framed_events es"
  note counts = inner_counts [OF es0(1)]
  show ?thesis
  proof (intro exI conjI)
    show "lp_trace st = Agent_Start # (Turn_Start # es0 @ es) @ [Agent_End (lp_new st)]" using trace by simp
    have "turns False (Turn_Start # es0) = Some True" using turns_inner [OF es0(1)] by simp
    from in_turns_next [OF this, of C "lp_new st" es] es(2)
    show "turns False (Turn_Start # es0 @ es) = Some False \<or>
      (\<exists>es1 m now. Turn_Start # es0 @ es = es1 @ [Message_Start m, Message_End m, Turn_End m []] \<and>
        turns False es1 = Some False \<and>
        m = Assistant_Message (limit_message (max_iterations_of C) now) \<and> m = last (lp_new st))"
      by (auto simp: balanced_def in_turns_def cut_off_def)
    show "turn_ends (Turn_Start # es0 @ es) \<le> Suc (max_iterations_of C)"
      using es(2) counts by (auto simp: balanced_def)
    show "subseq (lp_new st) (ended (Turn_Start # es0 @ es))"
      using es(3) es0(2) new by (simp add: list_emb_append_mono)
    show "max_retries_of C = 0 \<longrightarrow> ended (Turn_Start # es0 @ es) = lp_new st"
      using es(4) es0(2) new by simp
    show "framed_events (Turn_Start # es0 @ es)" using framed by simp
  qed
qed

lemma run_framed:
  assumes "proper_streams C" "run_agent_loop C prompts ctx w = (Inr (), st)"
  shows "frame False (lp_trace st) = Some False"
  by (rule run_agent_loop_adds [OF assms]) (simp add: framed_events_def)

theorem events_frame_run_witness:
  "\<exists>st es. run_agent_loop (scripted two_turns None) [hello] [] 0 = (Inr (), st) \<and>
    lp_trace st = Agent_Start # es @ [Agent_End (lp_new st)] \<and> turn_ends es \<le> 101 \<and>
    subseq (lp_new st) (ended es)"
proof -
  obtain st where st: "run_agent_loop (scripted two_turns None) [hello] [] 0 = (Inr (), st)"
    using two_turns_run by blast
  have "max_iterations_of (scripted two_turns None) = 100"
    by (simp add: max_iterations_of_def default_max_iterations_def scripted_def)
  with events_frame_run [OF scripted_proper st] st show ?thesis by auto
qed

section \<open>The loop always returns\<close>

definition never_throws :: "'w config \<Rightarrow> bool" where
  "never_throws C \<longleftrightarrow>
     (\<forall>f ms w. cf_transform C = Some f \<longrightarrow> (\<exists>x. fst (f ms w) = Inr x)) \<and>
     (\<forall>ms w. \<exists>x. fst (cf_llm C ms w) = Inr x) \<and>
     (\<forall>f m c a r b ms w. cf_after C = Some f \<longrightarrow> (\<exists>x. fst (f m c a r b ms w) = Inr x))"

definition returns :: "('a, 'w) run \<Rightarrow> bool" where
  "returns r \<longleftrightarrow> (\<exists>a st. r = (Inr a, st))"

lemma returns_simps [simp]: "returns (Inr a, st)" "\<not> returns (Inl e, st)"
  by (simp_all add: returns_def)

lemma returns_and_then [intro]:
  "returns r \<Longrightarrow> (\<And>a st. returns (k a st)) \<Longrightarrow> returns (and_then r k)"
  by (auto simp: returns_def [of r])

lemma returns_in_world [intro]: "(\<And>w. \<exists>x. fst (f w) = Inr x) \<Longrightarrow> returns (in_world f st)"
  by (auto simp: returns_def in_world_def split: prod.split) (metis fst_conv)

lemma returns_stream: "never_throws C \<Longrightarrow> returns (stream_assistant C st)"
  unfolding stream_assistant_def never_throws_def
  by (intro returns_and_then) (auto split: option.split)

lemma returns_retry: "never_throws C \<Longrightarrow> returns (retry_stream C n k m st)"
  by (induction n arbitrary: k m st) (auto simp: Let_def intro!: returns_and_then returns_stream)

lemma returns_respond: "never_throws C \<Longrightarrow> returns (respond C st)"
  unfolding respond_def by (intro returns_and_then returns_stream) (auto intro: returns_retry)

lemma returns_finalize: "never_throws C \<Longrightarrow> returns (finalize_call C m c args ex st)"
  unfolding finalize_call_def apply_after_hook_def never_throws_def
  by (intro returns_and_then)
    (auto simp: case_prod_beta split: option.split intro!: returns_and_then returns_in_world)

lemma returns_sequential: "never_throws C \<Longrightarrow> returns (run_sequential C m cs st)"
  by (induction cs arbitrary: st)
    (auto simp: case_prod_beta Let_def intro!: returns_and_then returns_finalize split: preparation.split)

lemma returns_finalize_all: "never_throws C \<Longrightarrow> returns (finalize_all C m ps ks order ds st)"
  by (induction ks arbitrary: order ds st)
    (auto simp: case_prod_beta Let_def intro!: returns_and_then returns_finalize)

lemma returns_execute: "never_throws C \<Longrightarrow> returns (execute_calls C m st)"
  unfolding execute_calls_def run_parallel_def Let_def case_prod_beta
  by (auto intro!: returns_and_then returns_sequential returns_finalize_all)

lemma returns_turn: "never_throws C \<Longrightarrow> returns (turn C first pending st)"
  unfolding turn_def Let_def
  by (auto intro!: returns_and_then returns_respond returns_execute)

lemma returns_iterations: "never_throws C \<Longrightarrow> returns (run_iterations C iters first pending st)"
proof (induction "max_iterations_of C - iters" arbitrary: iters first pending st rule: less_induct)
  case less
  show ?case
  proof (cases "max_iterations_of C < Suc iters")
    case True
    then show ?thesis by (simp add: run_iterations.simps [of C iters])
  next
    case False
    have next_ok: "returns (run_iterations C (Suc iters) False pend st')" for pend st'
      by (rule less.hyps) (use False less.prems in auto)
    obtain r st1 where t: "turn C first pending st = (Inr r, st1)"
      using returns_turn [OF less.prems] unfolding returns_def by blast
    show ?thesis
    proof (cases r)
      case None
      with t False show ?thesis by (simp add: run_iterations.simps [of C iters])
    next
      case (Some b)
      with t False next_ok show ?thesis
        by (simp add: run_iterations.simps [of C iters] case_prod_beta Let_def)
    qed
  qed
qed

text \<open>C2: The loop always ends, whatever the model asks for: when the hooks and the stream keep
  their contract not to throw, a run returns, however many tool calls, steering messages and
  follow-ups arrive, and it has reported at most one turn more than the iteration limit.\<close>

theorem run_always_returns:
  assumes "never_throws C" and "proper_streams C"
  shows "\<exists>st. run_agent_loop C prompts ctx w = (Inr (), st) \<and>
    turn_ends (lp_trace st) \<le> Suc (max_iterations_of C)"
proof -
  have "returns (run_agent_loop C prompts ctx w)"
    by (simp add: run_agent_loop_def run_loop_def case_prod_beta Let_def returns_iterations assms(1))
  then obtain st where st: "run_agent_loop C prompts ctx w = (Inr (), st)"
    by (auto simp: returns_def)
  have "turn_ends (lp_trace st) \<le> Suc (max_iterations_of C)"
  proof (rule run_agent_loop_adds [OF assms(2) st])
    fix es es0
    assume "inner es0" "lp_trace st = [Agent_Start, Turn_Start] @ (es0 @ es) @ [Agent_End (lp_new st)]"
      "balanced C (max_iterations_of C) True (lp_new st) es"
    then show ?thesis using inner_counts [of es0] by (auto simp: balanced_def)
  qed
  with st show ?thesis by blast
qed

text \<open>A model that asks for a tool in every response.\<close>

definition insatiable :: "nat config" where
  "insatiable = (scripted [] (Some 3))\<lparr>cf_llm := \<lambda>_ w.
     (Inr ([SE_Done], reply [call_block ''1'' ''echo''] Stop_Tool_Use None), Suc w)\<rparr>"

theorem run_always_returns_witness:
  "\<exists>st. run_agent_loop insatiable [hello] [] 0 = (Inr (), st) \<and> turn_ends (lp_trace st) \<le> 4"
proof -
  have "never_throws insatiable" by (simp add: never_throws_def insatiable_def scripted_def)
  moreover have "proper_streams insatiable" by (auto simp: proper_streams_def insatiable_def)
  moreover have "Suc (max_iterations_of insatiable) = 4"
    by (simp add: max_iterations_of_def insatiable_def scripted_def)
  ultimately show ?thesis using run_always_returns [of insatiable "[hello]" "[]" 0] by simp
qed

text \<open>C17: When the tool calls of a response have been executed, every call has exactly one result,
  under its id: in sequential mode in the order of the calls, in parallel mode as a
  permutation. Nothing but tool and message events is emitted on the way, one ended message
  per result, in the order of the results, and the conversation is not touched.\<close>

theorem calls_answered_once:
  assumes "execute_calls C m st = (Inr rs, st')"
  shows "mset (map tr_call_id rs) = mset (map tc_id (tool_calls m)) \<and>
    (cf_sequential C \<longrightarrow> map tr_call_id rs = map tc_id (tool_calls m)) \<and>
    lp_ctx st' = lp_ctx st \<and> lp_new st' = lp_new st \<and>
    (\<exists>es. lp_trace st' = lp_trace st @ es \<and> inner es \<and> ended es = map Result_Message rs)"
  using execute_calls_answers [OF assms] by (auto simp: answers_def adds_def)

theorem calls_answered_once_witness:
  "\<exists>rs st'. execute_calls (scripted two_turns None) (two_turns ! 0)
      (demo_start (scripted two_turns None)) = (Inr rs, st') \<and>
    mset (map tr_call_id rs) = {#''1'', ''2''#} \<and> lp_new st' = [hello]"
proof -
  let ?C = "scripted two_turns None"
  obtain rs st' where r: "execute_calls ?C (two_turns ! 0) (demo_start ?C) = (Inr rs, st')"
    using returns_execute [of ?C "two_turns ! 0" "demo_start ?C"]
    by (auto simp: returns_def scripted_def never_throws_def)
  have "map tc_id (tool_calls (two_turns ! 0)) = [''1'', ''2'']" "lp_new (demo_start ?C) = [hello]"
    by code_simp+
  with calls_answered_once [OF r] r show ?thesis by simp
qed

text \<open>Which calls run: the others are answered while the calls are prepared.\<close>

lemma prepare_all_splits:
  "prepare_all C m cs st = ((rs, ps), st') \<Longrightarrow>
    \<exists>I. map fst ps = nths cs I \<and> map tr_call_id rs = map tc_id (nths cs (- I))"
proof (induction cs arbitrary: st rs ps st')
  case Nil
  then show ?case by simp
next
  case (Cons c cs)
  obtain p st1 where p: "prepare_call C m c (start_call C c st) = (p, st1)" by force
  show ?case
  proof (cases p)
    case (Immediate d r b)
    obtain res st2 where e: "emit_outcome C c r b st1 = (res, st2)" by force
    obtain rs' ps' st3 where r: "prepare_all C m cs st2 = ((rs', ps'), st3)" by (metis prod.exhaust)
    have eqs: "rs = res # rs'" "ps = ps'" using Cons.prems p Immediate e r by simp_all
    obtain I where "map fst ps' = nths cs I" "map tr_call_id rs' = map tc_id (nths cs (- I))"
      using Cons.IH [OF r] by blast
    moreover have "{j. Suc j \<in> Suc ` I} = I" "{j. Suc j \<in> - (Suc ` I)} = - I" by auto
    ultimately show ?thesis
      using eqs emit_outcome_answers [OF e] by (intro exI [of _ "Suc ` I"]) (simp add: nths_Cons)
  next
    case (Prepared d t args)
    obtain rs' ps' st3 where r: "prepare_all C m cs st1 = ((rs', ps'), st3)" by (metis prod.exhaust)
    have eqs: "rs = rs'" "ps = (c, t, args) # ps'" using Cons.prems p Prepared r by simp_all
    obtain I where "map fst ps' = nths cs I" "map tr_call_id rs' = map tc_id (nths cs (- I))"
      using Cons.IH [OF r] by blast
    moreover have "{j. Suc j \<in> insert 0 (Suc ` I)} = I" "{j. Suc j \<in> - insert 0 (Suc ` I)} = - I" by auto
    ultimately show ?thesis
      using eqs by (intro exI [of _ "insert 0 (Suc ` I)"]) (simp add: nths_Cons)
  qed
qed

lemma nths_in_order:
  "distinct xs \<Longrightarrow> nths xs (- I) @ nths xs I = xs \<longleftrightarrow> (\<forall>i j. i \<in> I \<and> j \<notin> I \<and> j < length xs \<longrightarrow> j < i)"
proof (induction xs arbitrary: I)
  case Nil
  then show ?case by simp
next
  case (Cons x xs)
  let ?I = "{j. Suc j \<in> I}"
  have comp: "{j. Suc j \<notin> I} = - ?I" by auto
  have split: "nths (x # xs) (- I) @ nths (x # xs) I = (x # xs) \<longleftrightarrow>
      (if 0 \<in> I then nths xs (- ?I) @ x # nths xs ?I = x # xs else nths xs (- ?I) @ nths xs ?I = xs)"
    by (simp add: nths_Cons comp)
  show ?case
  proof (cases "0 \<in> I")
    case True
    have "nths xs (- ?I) @ x # nths xs ?I = x # xs \<longleftrightarrow> nths xs (- ?I) = []"
    proof
      assume eq: "nths xs (- ?I) @ x # nths xs ?I = x # xs"
      have "x \<notin> set (nths xs (- ?I))" using Cons.prems set_nths_subset [of xs "- ?I"] by auto
      then show "nths xs (- ?I) = []" using eq by (cases "nths xs (- ?I)") auto
    next
      assume "nths xs (- ?I) = []"
      then have "\<forall>j < length xs. j \<in> ?I" by (auto simp: set_nths simp flip: set_empty)
      then have "nths xs ?I = xs" by (intro nths_all) auto
      then show "nths xs (- ?I) @ x # nths xs ?I = x # xs" using \<open>nths xs (- ?I) = []\<close> by simp
    qed
    also have "\<dots> \<longleftrightarrow> (\<forall>j < length xs. Suc j \<in> I)" by (auto simp: set_nths simp flip: set_empty)
    also have "\<dots> \<longleftrightarrow> (\<forall>i j. i \<in> I \<and> j \<notin> I \<and> j < length (x # xs) \<longrightarrow> j < i)"
      using True by (metis Suc_less_eq length_Cons not_less_zero not0_implies_Suc)
    finally show ?thesis using split True by simp
  next
    case False
    have "(\<forall>i j. i \<in> ?I \<and> j \<notin> ?I \<and> j < length xs \<longrightarrow> j < i) \<longleftrightarrow>
        (\<forall>i j. i \<in> I \<and> j \<notin> I \<and> j < length (x # xs) \<longrightarrow> j < i)"
    proof (intro iffI allI impI)
      fix i j
      assume *: "\<forall>i j. i \<in> ?I \<and> j \<notin> ?I \<and> j < length xs \<longrightarrow> j < i" and ij: "i \<in> I \<and> j \<notin> I \<and> j < length (x # xs)"
      obtain k where "i = Suc k" using False ij by (cases i) auto
      then show "j < i" using * [rule_format, of k "j - 1"] ij by (cases j) auto
    next
      fix i j
      assume *: "\<forall>i j. i \<in> I \<and> j \<notin> I \<and> j < length (x # xs) \<longrightarrow> j < i" and "i \<in> ?I \<and> j \<notin> ?I \<and> j < length xs"
      then show "j < i" using * [rule_format, of "Suc i" "Suc j"] by auto
    qed
    then show ?thesis using split False Cons by simp
  qed
qed

text \<open>C39: The order of results in parallel mode. The calls split into those that run and those that
  are answered while they are prepared (unknown tool, invalid arguments, blocked). The results
  are those of the second kind in the order of the calls, then those of the first kind in the
  order of the calls. So the results have the order of the calls exactly if no call that runs
  stands before one that is answered at once.\<close>

theorem parallel_errors_first:
  assumes "run_parallel C m cs st = (Inr rs, st')" and "prepare_all C m cs st = ((ims, ps), st1)"
    and "distinct (map tc_id cs)"
  shows "\<exists>I. map fst ps = nths cs I \<and> map tr_call_id ims = map tc_id (nths cs (- I)) \<and>
    map tr_call_id rs = map tc_id (nths cs (- I) @ nths cs I) \<and>
    (map tr_call_id rs = map tc_id cs \<longleftrightarrow> (\<forall>i j. i \<in> I \<and> j \<notin> I \<and> j < length cs \<longrightarrow> j < i))"
proof -
  obtain rs' where f: "finalize_all C m ps [0..<length ps] (cf_execution_order C (lp_world st1)) [] st1 =
      (Inr rs', st')" "rs = ims @ rs'"
    using assms by (auto simp: run_parallel_def elim!: and_then_InrD)
  obtain I where I: "map fst ps = nths cs I" "map tr_call_id ims = map tc_id (nths cs (- I))"
    using prepare_all_splits [OF assms(2)] by blast
  have "map (\<lambda>k. tc_id (fst (ps ! k))) [0..<length ps] = map tc_id (map fst ps)"
    by (rule nth_equalityI) simp_all
  then have "map tr_call_id rs = map tc_id (nths cs (- I) @ nths cs I)"
    using finalize_all_answers [OF f(1)] f(2) I by simp
  then show ?thesis
    using I nths_in_order [OF assms(3), of I] by (intro exI [of _ I]) (simp add: nths_map)
qed

theorem parallel_errors_first_witness:
  "\<exists>rs st'. run_parallel (scripted two_turns None) (two_turns ! 0) (tool_calls (two_turns ! 0))
      (demo_start (scripted two_turns None)) = (Inr rs, st') \<and>
    map tc_id (tool_calls (two_turns ! 0)) = [''1'', ''2''] \<and> map tr_call_id rs = [''2'', ''1'']"
proof -
  let ?C = "scripted two_turns None" and ?cs = "tool_calls (two_turns ! 0)"
  obtain ims ps st1 where p: "prepare_all ?C (two_turns ! 0) ?cs (demo_start ?C) = ((ims, ps), st1)"
    "map tr_call_id ims = [''2'']" "map (tc_id \<circ> fst) ps = [''1'']"
    by (simp add: loop_eval repair_tool_name_def echo_found Let_def)
  obtain rs st' where r: "run_parallel ?C (two_turns ! 0) ?cs (demo_start ?C) = (Inr rs, st')"
    using returns_execute [of ?C "two_turns ! 0" "demo_start ?C"]
    by (auto simp: execute_calls_def returns_def scripted_def never_throws_def)
  have ids: "map tc_id ?cs = [''1'', ''2'']" by code_simp
  then have "distinct (map tc_id ?cs)" by simp
  from parallel_errors_first [OF r p(1) this] obtain I where
    "map fst ps = nths ?cs I" "map tr_call_id ims = map tc_id (nths ?cs (- I))"
    "map tr_call_id rs = map tc_id (nths ?cs (- I)) @ map tc_id (nths ?cs I)"
    by auto
  then have "map tr_call_id rs = map tr_call_id ims @ map (tc_id \<circ> fst) ps" by (metis map_map)
  with p ids r show ?thesis by auto
qed

text \<open>
  What a client of the loop has to check for an invariant of the events and the world: that
  each event together with the listener's reaction keeps it, and that every function the loop
  calls keeps it. A turn then keeps it, and if polling the queues keeps it too, the loop does,
  whether it returns or throws.
\<close>

locale turn_invariant =
  fixes C :: "'w config" and Q :: "event list \<Rightarrow> 'w \<Rightarrow> bool"
  assumes emit_ok: "Q tr w \<Longrightarrow> Q (tr @ [e]) (cf_listener C e w)"
    and transform_ok: "cf_transform C = Some f \<Longrightarrow> Q tr w \<Longrightarrow> Q tr (snd (f ms w))"
    and llm_ok: "Q tr w \<Longrightarrow> Q tr (snd (cf_llm C ms w))"
    and sleep_ok: "Q tr w \<Longrightarrow> Q tr (cf_sleep C n w)"
    and before_ok: "cf_before C = Some g \<Longrightarrow> Q tr w \<Longrightarrow> Q tr (snd (g m c a ms w))"
    and after_ok: "cf_after C = Some h \<Longrightarrow> Q tr w \<Longrightarrow> Q tr (snd (h m c a r b ms w))"
    and execute_ok: "t \<in> set (cf_tools C) \<Longrightarrow> Q tr w \<Longrightarrow> Q tr (snd (tl_execute t a i w))"
begin

definition ok :: "'w loop \<Rightarrow> bool" where
  "ok st \<longleftrightarrow> Q (lp_trace st) (lp_world st)"

lemma ok_emit [simp]: "ok st \<Longrightarrow> ok (emit_event C e st)"
  by (simp add: ok_def emit_event_def emit_ok)

lemma ok_push [simp]: "ok (push_ctx m st) = ok st" "ok (push_new m st) = ok st" "ok (set_last m st) = ok st"
  by (simp_all add: ok_def push_ctx_def push_new_def set_last_def)

lemma ok_emit_message [simp, intro]: "ok st \<Longrightarrow> ok (emit_message C m st)"
  by (auto simp: emit_message_def)

lemma ok_and_then_snd [intro]:
  assumes "ok (snd r)" "\<And>a st. ok st \<Longrightarrow> ok (snd (k a st))"
  shows "ok (snd (and_then r k))"
proof (cases r)
  case (Pair x st)
  then show ?thesis using assms by (cases x) simp_all
qed

lemma ok_snd_in_world: "ok st \<Longrightarrow> (\<And>tr w. Q tr w \<Longrightarrow> Q tr (snd (f w))) \<Longrightarrow> ok (snd (in_world f st))"
  by (auto simp: ok_def in_world_def split: prod.split) (metis snd_conv)

lemma ok_finish [simp, intro]: "ok st \<Longrightarrow> ok (finish_response C b m st)"
  by (auto simp: finish_response_def Let_def)

lemma ok_stream_loop [simp, intro]: "ok st \<Longrightarrow> ok (stream_loop C es m b st)"
proof (induction es arbitrary: b st)
  case (Cons e es)
  then show ?case by (cases e) simp_all
qed simp

lemma ok_stream_assistant [simp, intro]: "ok st \<Longrightarrow> ok (snd (stream_assistant C st))"
  unfolding stream_assistant_def
  by (auto split: option.split intro!: ok_and_then_snd ok_snd_in_world transform_ok llm_ok)

lemma ok_sleep: "ok st \<Longrightarrow> ok (st\<lparr>lp_world := cf_sleep C n (lp_world st)\<rparr>)"
  by (simp add: ok_def sleep_ok)

lemma ok_ctx [simp]: "ok (st\<lparr>lp_ctx := x\<rparr>) = ok st" "ok (st\<lparr>lp_new := x\<rparr>) = ok st"
  by (simp_all add: ok_def)

lemma ok_retry [simp, intro]: "ok st \<Longrightarrow> ok (snd (retry_stream C n k m st))"
proof (induction n arbitrary: k m st)
  case (Suc n)
  then show ?case by (auto simp: Let_def intro!: ok_and_then_snd ok_stream_assistant ok_sleep)
qed simp

lemma ok_respond [simp, intro]: "ok st \<Longrightarrow> ok (snd (respond C st))"
  unfolding respond_def by (rule ok_and_then_snd) auto

lemma find_tool_member: "find_tool C n = Some t \<Longrightarrow> t \<in> set (cf_tools C)"
  by (auto simp: find_tool_def repair_tool_name_def find_Some_iff split: option.splits)

lemma ok_prepare:
  assumes "ok st"
  shows "ok (snd (prepare_call C m c st))"
    and "fst (prepare_call C m c st) = Prepared d t a \<Longrightarrow> t \<in> set (cf_tools C)"
proof -
  have g: "ok (snd (in_world (g m c a (lp_ctx st)) st))" if "cf_before C = Some g" for g a
    by (rule ok_snd_in_world [OF assms before_ok [OF that]])
  show "ok (snd (prepare_call C m c st))"
    using assms g by (auto simp: prepare_call_def Let_def case_prod_beta split: option.split sum.split)
  show "fst (prepare_call C m c st) = Prepared d t a \<Longrightarrow> t \<in> set (cf_tools C)"
    using find_tool_member
    by (auto simp: prepare_call_def Let_def case_prod_beta split: option.splits sum.splits if_splits)
qed

lemma ok_fold_updates: "ok st \<Longrightarrow> ok (fold (\<lambda>u. emit_event C (f u)) us st)"
  by (induction us arbitrary: st) auto

lemma ok_execute_prepared:
  "t \<in> set (cf_tools C) \<Longrightarrow> ok st \<Longrightarrow> ok (snd (execute_prepared C c t a st))"
  unfolding execute_prepared_def Let_def case_prod_beta
  by (auto intro!: ok_fold_updates ok_snd_in_world execute_ok)

lemma ok_emit_outcome [simp, intro]: "ok st \<Longrightarrow> ok (snd (emit_outcome C c r b st))"
  by (auto simp: emit_outcome_def Let_def)

lemma ok_finalize [simp, intro]: "ok st \<Longrightarrow> ok (snd (finalize_call C m c a ex st))"
  unfolding finalize_call_def apply_after_hook_def
  by (auto simp: case_prod_beta split: option.split intro!: ok_and_then_snd ok_snd_in_world after_ok)

lemma ok_start [simp, intro]: "ok st \<Longrightarrow> ok (start_call C c st)"
  by (auto simp: start_call_def)

lemma ok_sequential [simp, intro]: "ok st \<Longrightarrow> ok (snd (run_sequential C m cs st))"
proof (induction cs arbitrary: st)
  case (Cons c cs)
  note prep = ok_prepare [OF ok_start [OF Cons.prems, of c], of m c]
  show ?case
    using prep Cons.IH
    by (auto simp: case_prod_beta Let_def split: preparation.split intro!: ok_and_then_snd ok_execute_prepared)
qed simp

lemma ok_prepare_all:
  "ok st \<Longrightarrow> ok (snd (prepare_all C m cs st)) \<and>
    (\<forall>(c, t, a) \<in> set (snd (fst (prepare_all C m cs st))). t \<in> set (cf_tools C))"
proof (induction cs arbitrary: st)
  case (Cons c cs)
  note prep = ok_prepare [OF ok_start [OF Cons.prems, of c], of m c]
  show ?case
  proof (cases "fst (prepare_call C m c (start_call C c st))")
    case (Immediate d r b)
    let ?st = "snd (emit_outcome C c r b (snd (prepare_call C m c (start_call C c st))))"
    have "ok ?st" using prep by auto
    from Cons.IH [OF this] Immediate show ?thesis by (simp add: case_prod_beta Let_def)
  next
    case (Prepared d t a)
    from Cons.IH [OF prep(1)] prep(2) [OF Prepared] Prepared show ?thesis
      by (simp add: case_prod_beta Let_def)
  qed
qed simp

lemma ok_complete_one:
  assumes "\<forall>(c, t, a) \<in> set ps. t \<in> set (cf_tools C)" "ok st"
  shows "ok (snd (complete_one C ps i ds st))"
proof (cases "i < length ps \<and> map_of ds i = None")
  case True
  then have "fst (snd (ps ! i)) \<in> set (cf_tools C)"
    using assms(1) by (metis (no_types, lifting) case_prodE fst_conv nth_mem snd_conv)
  with True assms(2) show ?thesis
    by (simp add: complete_one_def case_prod_beta Let_def ok_execute_prepared)
next
  case False
  then have "complete_one C ps i ds st = (ds, st)" unfolding complete_one_def by (rule if_not_P)
  with assms(2) show ?thesis by simp
qed

lemma ok_complete:
  assumes "\<forall>(c, t, a) \<in> set ps. t \<in> set (cf_tools C)"
  shows "ok st \<Longrightarrow> ok (snd (snd (complete C ps k order ds st)))"
  by (induction order arbitrary: ds st) (simp_all add: case_prod_beta Let_def ok_complete_one [OF assms])

lemma ok_finalize_all:
  assumes "\<forall>(c, t, a) \<in> set ps. t \<in> set (cf_tools C)"
  shows "ok st \<Longrightarrow> ok (snd (finalize_all C m ps ks order ds st))"
  by (induction ks arbitrary: order ds st)
    (auto simp: case_prod_beta Let_def intro!: ok_and_then_snd ok_finalize ok_complete [OF assms])

lemma ok_execute_calls [simp, intro]: "ok st \<Longrightarrow> ok (snd (execute_calls C m st))"
  using ok_prepare_all [of st m "tool_calls m"]
  by (auto simp: execute_calls_def run_parallel_def case_prod_beta Let_def
      intro!: ok_and_then_snd ok_finalize_all)

lemma ok_fold_inject: "ok st \<Longrightarrow> ok (fold (inject C) ms st)"
  by (induction ms arbitrary: st) (auto simp: inject_def)

lemma ok_fold_result: "ok st \<Longrightarrow> ok (fold add_result rs st)"
  by (induction rs arbitrary: st) (auto simp: add_result_def)

lemma ok_turn [simp, intro]:
  assumes "ok st"
  shows "ok (snd (turn C first pending st))"
proof -
  have "ok (fold (inject C) pending (if first then st else emit_event C Turn_Start st))"
    using assms by (auto intro: ok_fold_inject)
  then show ?thesis
    unfolding turn_def Let_def
    by (auto intro!: ok_and_then_snd ok_fold_result)
qed

lemma ok_limit [simp, intro]: "ok st \<Longrightarrow> ok (limit_reached C st)"
  by (auto simp: limit_reached_def Let_def)

lemma ok_fold_message: "ok st \<Longrightarrow> ok (fold (emit_message C) ms st)"
  by (induction ms arbitrary: st) auto

end

locale loop_invariant = turn_invariant +
  assumes steering_ok: "Q tr w \<Longrightarrow> Q tr (snd (cf_steering C w))"
    and follow_up_ok: "Q tr w \<Longrightarrow> Q tr (snd (cf_follow_up C w))"
begin

lemma ok_iterations: "ok st \<Longrightarrow> ok (snd (run_iterations C iters first pending st))"
proof (induction "max_iterations_of C - iters" arbitrary: iters first pending st rule: less_induct)
  case less
  show ?case
  proof (cases "max_iterations_of C < Suc iters")
    case True
    then show ?thesis using less.prems by (auto simp: run_iterations.simps [of C iters])
  next
    case False
    have next_ok: "ok st' \<Longrightarrow> ok (snd (run_iterations C (Suc iters) False pend st'))" for pend st'
      by (rule less.hyps) (use False in auto)
    have s: "ok st' \<Longrightarrow> ok (snd (in_world (cf_steering C) st'))"
      "ok st' \<Longrightarrow> ok (snd (in_world (cf_follow_up C) st'))" for st'
      by (auto intro!: ok_snd_in_world steering_ok follow_up_ok)
    show ?thesis
      unfolding run_iterations.simps [of C iters] if_not_P [OF False]
      by (rule ok_and_then_snd [OF ok_turn [OF less.prems]])
        (auto simp: case_prod_beta Let_def split: option.split intro!: next_ok s ok_emit)
  qed
qed

theorem run_loop_ok: "ok st \<Longrightarrow> ok (snd (run_loop C st))"
  unfolding run_loop_def case_prod_beta Let_def
  by (intro ok_iterations ok_snd_in_world steering_ok)

lemma run_agent_loop_ok:
  assumes "Q [] w" "run_agent_loop C prompts ctx w = (r, st)"
  shows "Q (lp_trace st) (lp_world st)"
proof -
  have "ok (snd (run_agent_loop C prompts ctx w))"
    unfolding run_agent_loop_def
    by (intro run_loop_ok ok_fold_message ok_emit) (simp add: ok_def assms(1))
  then show ?thesis using assms(2) by (simp add: ok_def)
qed

lemma run_agent_loop_continue_ok:
  assumes "Q [] w" "run_agent_loop_continue C ctx w = (r, st)"
  shows "Q (lp_trace st) (lp_world st)"
proof -
  have "ok (snd (run_agent_loop_continue C ctx w))"
    unfolding run_agent_loop_continue_def Let_def
    by (auto simp: ok_def assms(1) intro!: run_loop_ok [unfolded ok_def] ok_emit [unfolded ok_def])
  then show ?thesis using assms(2) by (simp add: ok_def)
qed

end

definition failed_run :: "message list \<Rightarrow> bool" where
  "failed_run ms \<longleftrightarrow> (\<exists>m. ms \<noteq> [] \<and> last ms = Assistant_Message m \<and> stopped m)"

lemma turn_stopped: "turn C first pending st = (Inr None, st') \<Longrightarrow> failed_run (lp_new st')"
  by (auto simp: turn_def failed_run_def stopped_def Let_def split: if_splits elim!: and_then_InrD)

lemma limit_failed: "failed_run (lp_new (limit_reached C st))"
  by (simp add: failed_run_def limit_reached_def limit_message_def stopped_def Let_def)

text \<open>
  Nothing that was queued gets lost. Beside an invariant, the client has a multiset of queued
  messages and a record of all messages that its functions ever put into the queues. If they
  are honest they only add to the queues what they add to the record; a poll takes from the
  queues exactly what it returns.
\<close>

locale queue_account = loop_invariant C Q
  for C :: "'w config" and Q :: "event list \<Rightarrow> 'w \<Rightarrow> bool" +
  fixes honest :: bool and queued recorded :: "'w \<Rightarrow> message multiset"
  assumes emit_account: "honest \<Longrightarrow>
      queued (cf_listener C e w) + recorded w = queued w + recorded (cf_listener C e w)"
    and transform_account: "honest \<Longrightarrow> cf_transform C = Some f \<Longrightarrow>
      queued (snd (f ms w)) + recorded w = queued w + recorded (snd (f ms w))"
    and llm_account: "honest \<Longrightarrow>
      queued (snd (cf_llm C ms w)) + recorded w = queued w + recorded (snd (cf_llm C ms w))"
    and sleep_account: "honest \<Longrightarrow> queued (cf_sleep C n w) + recorded w = queued w + recorded (cf_sleep C n w)"
    and before_account: "honest \<Longrightarrow> cf_before C = Some g \<Longrightarrow>
      queued (snd (g m c a ms w)) + recorded w = queued w + recorded (snd (g m c a ms w))"
    and after_account: "honest \<Longrightarrow> cf_after C = Some h \<Longrightarrow>
      queued (snd (h m c a r b ms w)) + recorded w = queued w + recorded (snd (h m c a r b ms w))"
    and execute_account: "honest \<Longrightarrow> t \<in> set (cf_tools C) \<Longrightarrow>
      queued (snd (tl_execute t a i w)) + recorded w = queued w + recorded (snd (tl_execute t a i w))"
    and poll_account:
      "queued (snd (cf_steering C w)) + mset (fst (cf_steering C w)) = queued w"
      "recorded (snd (cf_steering C w)) = recorded w"
      "queued (snd (cf_follow_up C w)) + mset (fst (cf_follow_up C w)) = queued w"
      "recorded (snd (cf_follow_up C w)) = recorded w"

lemma account_step:
  fixes a b :: "'a multiset"
  assumes "q' + r = q + r'" "q + a = b + r"
  shows "q' + a = b + r'"
proof -
  have "(q' + a) + r = (b + r') + r" using assms by (metis add.assoc add.commute)
  then show ?thesis by simp
qed

lemma account_trans:
  fixes A M X b0 b1 b2 :: "'a multiset"
  assumes "A + b1 \<subseteq># M + b0" "M + b2 \<subseteq># X + b1"
  shows "A + b2 \<subseteq># X + b0"
proof -
  have "(A + b2) + b1 \<subseteq># (M + b2) + b0" using mset_subset_eq_mono_add [OF assms(1), of b2 b2] by (simp add: ac_simps)
  also have "\<dots> \<subseteq># (X + b0) + b1" using mset_subset_eq_mono_add [OF assms(2), of b0 b0] by (simp add: ac_simps)
  finally show ?thesis by simp
qed

sublocale queue_account \<subseteq> balance: turn_invariant C "\<lambda>tr w. honest \<longrightarrow> queued w + a = b + recorded w" for a b
  by unfold_locales
    (assumption | rule impI | drule (1) mp | rule emit_account transform_account llm_account sleep_account before_account
      after_account execute_account account_step)+

context queue_account
begin

lemma ok_in_world:
  assumes "ok st" "\<And>tr w. Q tr w \<Longrightarrow> Q tr (snd (f w))" "in_world f st = (a, st')"
  shows "ok st'"
proof -
  have "ok (snd (in_world f st))" by (rule ok_snd_in_world [OF assms(1)]) (rule assms(2))
  then show ?thesis using assms(3) by simp
qed

text \<open>The messages of a state: delivered, about to be injected, queued.\<close>

definition accounted :: "'w loop \<Rightarrow> message list \<Rightarrow> message multiset" where
  "accounted st pending = mset (lp_new st) + mset pending + queued (lp_world st)"

lemma turn_account:
  assumes "proper_streams C" "honest" "turn C first pending st = (Inr r, st1)"
  shows "accounted st pending + recorded (lp_world st1) \<subseteq># accounted st1 [] + recorded (lp_world st)"
proof -
  let ?a = "recorded (lp_world st)" and ?b = "queued (lp_world st)"
  have "balance.ok ?a ?b st" by (simp add: balance.ok_def)
  then have "balance.ok ?a ?b (snd (turn C first pending st))" by (rule balance.ok_turn)
  then have "queued (lp_world st1) + ?a = ?b + recorded (lp_world st1)"
    using assms(2,3) unfolding balance.ok_def by simp
  moreover have "mset (lp_new st) + mset pending \<subseteq># mset (lp_new st1)"
    by (rule turn_cases [OF assms(1,3)]) simp
  ultimately show ?thesis
    unfolding accounted_def
    using mset_subset_eq_mono_add [of "mset (lp_new st) + mset pending" "mset (lp_new st1)"
        "?b + recorded (lp_world st1)" "queued (lp_world st1) + ?a"]
    by (simp add: ac_simps)
qed

lemma poll_accounted:
  assumes "in_world (cf_steering C) st = (p, st') \<or> in_world (cf_follow_up C) st = (p, st')"
  shows "accounted st' p = accounted st []" "recorded (lp_world st') = recorded (lp_world st)"
  using assms poll_account [of "lp_world st"]
  by (auto simp: in_world_def accounted_def ac_simps split: prod.splits)

definition drained :: "'w loop \<Rightarrow> message list \<Rightarrow> 'w loop \<Rightarrow> bool" where
  "drained st pending st' \<longleftrightarrow> (\<exists>st1 st2 st3. ok st1 \<and> in_world (cf_steering C) st1 = ([], st2) \<and>
     in_world (cf_follow_up C) st2 = ([], st3) \<and> st' = emit_event C (Agent_End (lp_new st3)) st3 \<and>
     accounted st pending + recorded (lp_world st3) \<subseteq># accounted st3 [] + recorded (lp_world st))"

lemma drained_later:
  assumes "drained st1 p st'"
    and "accounted st pending + recorded (lp_world st1) \<subseteq># accounted st1 p + recorded (lp_world st)"
  shows "drained st pending st'"
  using assms account_trans [OF assms(2)] unfolding drained_def by blast

lemma iterations_drain:
  assumes "proper_streams C" "honest"
  shows "ok st \<Longrightarrow> run_iterations C iters first pending st = (Inr (), st') \<Longrightarrow>
    failed_run (lp_new st') \<or> drained st pending st'"
proof (induction "max_iterations_of C - iters" arbitrary: iters first pending st rule: less_induct)
  case less
  show ?case
  proof (cases "max_iterations_of C < Suc iters")
    case True
    then show ?thesis using less.prems by (auto simp: run_iterations.simps [of C iters] limit_failed)
  next
    case False
    have step: "failed_run (lp_new st') \<or> drained x p st'"
      if "ok x" "run_iterations C (Suc iters) b p x = (Inr (), st')" for x b p
      by (rule less.hyps [OF _ that]) (use False in auto)
    from less.prems(2) False obtain r st1 where t: "turn C first pending st = (Inr r, st1)"
      and k: "(case r of
          None \<Rightarrow> (Inr (), st1)
        | Some has_more \<Rightarrow>
            (let (pending', st2) = in_world (cf_steering C) st1
             in if has_more \<or> pending' \<noteq> [] then run_iterations C (Suc iters) False pending' st2
                else let (follow_ups, st3) = in_world (cf_follow_up C) st2
                     in if follow_ups \<noteq> [] then run_iterations C (Suc iters) False follow_ups st3
                        else (Inr (), emit_event C (Agent_End (lp_new st3)) st3))) = (Inr (), st')"
      by (auto simp: run_iterations.simps [of C iters] elim!: and_then_InrD)
    have ok1: "ok st1" using ok_turn [OF less.prems(1), of first pending] t by simp
    note moved = turn_account [OF assms t]
    show ?thesis
    proof (cases r)
      case None
      with k have "st1 = st'" by simp
      with t None turn_stopped show ?thesis by blast
    next
      case (Some has_more)
      obtain p st2 where p: "in_world (cf_steering C) st1 = (p, st2)" by (rule prod.exhaust)
      obtain f st3 where f: "in_world (cf_follow_up C) st2 = (f, st3)" by (rule prod.exhaust)
      have ok2: "ok st2" by (rule ok_in_world [OF ok1 steering_ok p])
      have ok3: "ok st3" by (rule ok_in_world [OF ok2 follow_up_ok f])
      note p_acc = poll_accounted [OF disjI1 [OF p]] and f_acc = poll_accounted [OF disjI2 [OF f]]
      have k': "(if has_more \<or> p \<noteq> [] then run_iterations C (Suc iters) False p st2
          else if f \<noteq> [] then run_iterations C (Suc iters) False f st3
          else (Inr (), emit_event C (Agent_End (lp_new st3)) st3)) = (Inr (), st')"
        using k by (simp add: Some p f cong: if_cong)
      consider (steered) "run_iterations C (Suc iters) False p st2 = (Inr (), st')"
        | (followed) "p = []" "run_iterations C (Suc iters) False f st3 = (Inr (), st')"
        | (over) "p = []" "f = []" "st' = emit_event C (Agent_End (lp_new st3)) st3"
        using k' by (metis (full_types) prod.inject)
      then show ?thesis
      proof cases
        case steered
        have "accounted st pending + recorded (lp_world st2) \<subseteq># accounted st2 p + recorded (lp_world st)"
          using moved p_acc by simp
        then show ?thesis using step [OF ok2 steered] drained_later by blast
      next
        case followed
        have "accounted st pending + recorded (lp_world st3) \<subseteq># accounted st3 f + recorded (lp_world st)"
          using moved p_acc f_acc followed(1) by simp
        then show ?thesis using step [OF ok3 followed(2)] drained_later by blast
      next
        case over
        have "accounted st pending + recorded (lp_world st3) \<subseteq># accounted st3 [] + recorded (lp_world st)"
          using moved p_acc f_acc over(1,2) by simp
        with p f ok1 over have "drained st pending st'" unfolding drained_def by blast
        then show ?thesis ..
      qed
    qed
  qed
qed

lemma start_account:
  assumes "balance.ok a b \<lparr>lp_ctx = c, lp_new = n, lp_trace = [], lp_world = w\<rparr>"
  shows "balance.ok a b (fold (emit_message C) ms (emit_event C Turn_Start (emit_event C Agent_Start
    \<lparr>lp_ctx = c, lp_new = n, lp_trace = [], lp_world = w\<rparr>)))"
  by (intro balance.ok_fold_message balance.ok_emit assms)

lemma run_agent_loop_drains:
  assumes "proper_streams C" "honest" "Q [] w" "run_agent_loop C prompts ctx w = (Inr (), st)"
  shows "failed_run (lp_new st) \<or>
    (\<exists>st1 st2 st3. ok st1 \<and> in_world (cf_steering C) st1 = ([], st2) \<and>
      in_world (cf_follow_up C) st2 = ([], st3) \<and> st = emit_event C (Agent_End (lp_new st3)) st3 \<and>
      mset prompts + queued w + recorded (lp_world st3) \<subseteq># mset (lp_new st3) + queued (lp_world st3) + recorded w)"
proof -
  let ?base = "\<lparr>lp_ctx = ctx @ prompts, lp_new = prompts, lp_trace = [], lp_world = w\<rparr>"
  let ?st0 = "fold (emit_message C) prompts (emit_event C Turn_Start (emit_event C Agent_Start ?base))"
  obtain p st1 where p: "in_world (cf_steering C) ?st0 = (p, st1)" by (rule prod.exhaust)
  have "ok ?st0" by (intro ok_fold_message ok_emit) (simp add: ok_def assms(3))
  then have ok1: "ok st1" by (rule ok_in_world [OF _ steering_ok p])
  have "balance.ok (recorded w) (queued w) ?st0" by (rule start_account) (simp add: balance.ok_def)
  then have "queued (lp_world ?st0) + recorded w = queued w + recorded (lp_world ?st0)"
    using assms(2) unfolding balance.ok_def by simp
  moreover have "lp_new ?st0 = prompts"
    using fold_emit_message [of C prompts "emit_event C Turn_Start (emit_event C Agent_Start ?base)"] by simp
  ultimately have "accounted ?base [] + recorded (lp_world ?st0) \<subseteq># accounted ?st0 [] + recorded w"
    by (simp add: accounted_def ac_simps)
  then have first: "accounted ?base [] + recorded (lp_world st1) \<subseteq># accounted st1 p + recorded (lp_world ?base)"
    using poll_accounted [OF disjI1 [OF p]] by simp
  have "run_iterations C 0 True p st1 = (Inr (), st)"
    using assms(4) p by (simp add: run_agent_loop_def run_loop_def)
  from iterations_drain [OF assms(1,2) ok1 this] drained_later [OF _ first]
  have "failed_run (lp_new st) \<or> drained ?base [] st" by blast
  then show ?thesis unfolding drained_def accounted_def by simp
qed

end

end
