(* ===== verification/Agent_Class.thy ===== *)
theory Agent_Class
  imports Agent_Loop
begin

text \<open>
  \<open>packages/runtime/agent-core/src/agent.ts\<close>: the \<open>Agent\<close> that owns the conversation, the
  steering and follow-up queues and the streaming state, and drives the loop. Its state is
  the first component of the loop's world; the second is the caller's. The options of the
  constructor (tools, hooks, stream function, listeners) are a configuration \<open>B\<close> over that
  world, so they may call back into the agent.
\<close>

section \<open>State\<close>

record agent =
  ag_messages :: "message list"
  ag_streaming :: bool
  ag_stream_message :: "message option"
  ag_pending :: "id list"
  ag_error :: "string option"
  ag_steering_queue :: "message list"
  ag_follow_up_queue :: "message list"
  ag_steer_all :: bool
  ag_follow_all :: bool
  ag_skip_poll :: bool

type_synonym 'x world = "agent \<times> 'x"

definition on_agent :: "(agent \<Rightarrow> agent) \<Rightarrow> 'x world \<Rightarrow> 'x world" where
  "on_agent f w = (f (fst w), snd w)"

section \<open>Mutators and queues\<close>

definition append_message :: "message \<Rightarrow> agent \<Rightarrow> agent" where
  "append_message m a = a\<lparr>ag_messages := ag_messages a @ [m]\<rparr>"

definition replace_messages :: "message list \<Rightarrow> agent \<Rightarrow> agent" where
  "replace_messages ms a = a\<lparr>ag_messages := ms\<rparr>"

definition steer :: "message \<Rightarrow> agent \<Rightarrow> agent" where
  "steer m a = a\<lparr>ag_steering_queue := ag_steering_queue a @ [m]\<rparr>"

definition follow_up :: "message \<Rightarrow> agent \<Rightarrow> agent" where
  "follow_up m a = a\<lparr>ag_follow_up_queue := ag_follow_up_queue a @ [m]\<rparr>"

definition clear_all_queues :: "agent \<Rightarrow> agent" where
  "clear_all_queues a = a\<lparr>ag_steering_queue := [], ag_follow_up_queue := []\<rparr>"

definition has_queued_messages :: "agent \<Rightarrow> bool" where
  "has_queued_messages a \<longleftrightarrow> ag_steering_queue a \<noteq> [] \<or> ag_follow_up_queue a \<noteq> []"

definition dequeue_steering :: "agent \<Rightarrow> message list \<times> agent" where
  "dequeue_steering a =
     (if \<not> ag_steer_all a
      then (case ag_steering_queue a of
              [] \<Rightarrow> ([], a) | m # q \<Rightarrow> ([m], a\<lparr>ag_steering_queue := q\<rparr>))
      else (ag_steering_queue a, a\<lparr>ag_steering_queue := []\<rparr>))"

definition dequeue_follow_up :: "agent \<Rightarrow> message list \<times> agent" where
  "dequeue_follow_up a =
     (if \<not> ag_follow_all a
      then (case ag_follow_up_queue a of
              [] \<Rightarrow> ([], a) | m # q \<Rightarrow> ([m], a\<lparr>ag_follow_up_queue := q\<rparr>))
      else (ag_follow_up_queue a, a\<lparr>ag_follow_up_queue := []\<rparr>))"

definition reset :: "agent \<Rightarrow> agent" where
  "reset a = a\<lparr>ag_messages := [], ag_streaming := False, ag_stream_message := None,
     ag_pending := [], ag_error := None, ag_steering_queue := [], ag_follow_up_queue := []\<rparr>"

section \<open>Events\<close>

text \<open>The set of pending tool calls is a list without duplicates.\<close>

definition turn_error :: "message \<Rightarrow> string option" where
  "turn_error m = (case m of Assistant_Message a \<Rightarrow> as_error a | _ \<Rightarrow> None)"

definition process_event :: "event \<Rightarrow> agent \<Rightarrow> agent" where
  "process_event e a =
     (case e of
        Message_Start m \<Rightarrow> a\<lparr>ag_stream_message := Some m\<rparr>
      | Message_Update m _ \<Rightarrow> a\<lparr>ag_stream_message := Some m\<rparr>
      | Message_End m \<Rightarrow> append_message m (a\<lparr>ag_stream_message := None\<rparr>)
      | Tool_Start i _ _ \<Rightarrow> a\<lparr>ag_pending := List.insert i (ag_pending a)\<rparr>
      | Tool_End i _ _ _ \<Rightarrow> a\<lparr>ag_pending := removeAll i (ag_pending a)\<rparr>
      | Turn_End m _ \<Rightarrow> if truthy (turn_error m) then a\<lparr>ag_error := turn_error m\<rparr> else a
      | Agent_End _ \<Rightarrow> a\<lparr>ag_streaming := False, ag_stream_message := None\<rparr>
      | _ \<Rightarrow> a)"

section \<open>Running the loop\<close>

definition poll_steering :: "'x world \<Rightarrow> message list \<times> 'x world" where
  "poll_steering w =
     (if ag_skip_poll (fst w) then ([], on_agent (\<lambda>a. a\<lparr>ag_skip_poll := False\<rparr>) w)
      else (let (ms, a) = dequeue_steering (fst w) in (ms, (a, snd w))))"

definition poll_follow_up :: "'x world \<Rightarrow> message list \<times> 'x world" where
  "poll_follow_up w = (let (ms, a) = dequeue_follow_up (fst w) in (ms, (a, snd w)))"

text \<open>The configuration \<open>_runLoop\<close> builds: limits and retry settings stay at their defaults.\<close>

definition agent_config :: "'x world config \<Rightarrow> 'x world config" where
  "agent_config B = B\<lparr>
     cf_listener := \<lambda>e w. cf_listener B e (on_agent (process_event e) w),
     cf_steering := poll_steering, cf_follow_up := poll_follow_up,
     cf_max_iterations := None, cf_max_retries := None, cf_base_delay := None\<rparr>"

definition failure_message :: "bool \<Rightarrow> string \<times> string \<times> string \<Rightarrow> string \<Rightarrow> int \<Rightarrow> assistant" where
  "failure_message aborted model e now =
     \<lparr>as_content = [Text_Block ''''], as_api = fst model, as_provider = fst (snd model),
      as_model = snd (snd model), as_usage = zero_usage,
      as_stop = (if aborted then Stop_Aborted else Stop_Error), as_error = Some e, as_time = now\<rparr>"

definition run_agent ::
  "'x world config \<Rightarrow> string \<times> string \<times> string \<Rightarrow> message list option \<Rightarrow> bool \<Rightarrow> 'x world \<Rightarrow> 'x world" where
  "run_agent B model msgs skip_poll w =
     (let w1 = on_agent (\<lambda>a. a\<lparr>ag_streaming := True, ag_stream_message := None, ag_error := None,
                 ag_skip_poll := skip_poll\<rparr>) w;
          C = agent_config B;
          (r, st) = (case msgs of
                       Some ms \<Rightarrow> run_agent_loop C ms (ag_messages (fst w1)) w1
                     | None \<Rightarrow> run_agent_loop_continue C (ag_messages (fst w1)) w1);
          w2 = (case r of
                  Inr _ \<Rightarrow> lp_world st
                | Inl e \<Rightarrow>
                    (let m = Assistant_Message
                           (failure_message (cf_aborted B (lp_world st)) model e (cf_now B (lp_world st)))
                     in cf_listener B (Agent_End [m])
                          (on_agent (\<lambda>a. (append_message m a)\<lparr>ag_error := Some e\<rparr>) (lp_world st))))
      in on_agent (\<lambda>a. a\<lparr>ag_streaming := False, ag_stream_message := None, ag_pending := []\<rparr>) w2)"

text \<open>
  \<open>_runLoop\<close> throws when no model is configured. \<open>prompt\<close> with messages; \<open>Inl\<close> is the error it
  throws. \<open>resume\<close> is \<open>continue\<close>.
\<close>

definition start_run ::
  "'x world config \<Rightarrow> (string \<times> string \<times> string) option \<Rightarrow> message list option \<Rightarrow> bool \<Rightarrow> 'x world \<Rightarrow>
     (string + unit) \<times> 'x world" where
  "start_run B model msgs skip_poll w =
     (case model of
        None \<Rightarrow> (Inl ''No model configured'', w)
      | Some m \<Rightarrow> (Inr (), run_agent B m msgs skip_poll w))"

definition prompt ::
  "'x world config \<Rightarrow> (string \<times> string \<times> string) option \<Rightarrow> message list \<Rightarrow> 'x world \<Rightarrow> (string + unit) \<times> 'x world" where
  "prompt B model msgs w =
     (if ag_streaming (fst w)
      then (Inl (''Agent is already processing a prompt. Use steer() or followUp() to queue messages, '' @
                 ''or wait for completion.''), w)
      else if model = None then (Inl ''No model configured'', w)
      else start_run B model (Some msgs) False w)"

definition resume ::
  "'x world config \<Rightarrow> (string \<times> string \<times> string) option \<Rightarrow> 'x world \<Rightarrow> (string + unit) \<times> 'x world" where
  "resume B model w =
     (if ag_streaming (fst w)
      then (Inl ''Agent is already processing. Wait for completion before continuing.'', w)
      else if ag_messages (fst w) = [] then (Inl ''No messages to continue from'', w)
      else if is_assistant (last (ag_messages (fst w)))
      then (let (ms, a) = dequeue_steering (fst w)
            in if ms \<noteq> [] then start_run B model (Some ms) True (a, snd w)
               else (let (fs, a') = dequeue_follow_up a
                     in if fs \<noteq> [] then start_run B model (Some fs) False (a', snd w)
                        else (Inl ''Cannot continue from message role: assistant'', (a', snd w))))
      else start_run B model None False w)"

section \<open>The conversation follows the events\<close>

text \<open>The caller's functions leave a field of the agent alone.\<close>

definition keeps :: "(agent \<Rightarrow> 'a) \<Rightarrow> 'x world config \<Rightarrow> bool" where
  "keeps field B \<longleftrightarrow>
     (\<forall>e w. field (fst (cf_listener B e w)) = field (fst w)) \<and>
     (\<forall>f ms w. cf_transform B = Some f \<longrightarrow> field (fst (snd (f ms w))) = field (fst w)) \<and>
     (\<forall>ms w. field (fst (snd (cf_llm B ms w))) = field (fst w)) \<and>
     (\<forall>n w. field (fst (cf_sleep B n w)) = field (fst w)) \<and>
     (\<forall>g m c a ms w. cf_before B = Some g \<longrightarrow> field (fst (snd (g m c a ms w))) = field (fst w)) \<and>
     (\<forall>h m c a r b ms w. cf_after B = Some h \<longrightarrow> field (fst (snd (h m c a r b ms w))) = field (fst w)) \<and>
     (\<forall>t \<in> set (cf_tools B). \<forall>a i w. field (fst (snd (tl_execute t a i w))) = field (fst w))"

lemma on_agent_simps [simp]: "fst (on_agent f w) = f (fst w)" "snd (on_agent f w) = snd w"
  by (simp_all add: on_agent_def)

lemma process_event_messages:
  "ag_messages (process_event e a) =
     ag_messages a @ (case ended_message e of None \<Rightarrow> [] | Some m \<Rightarrow> [m])"
  by (cases e) (simp_all add: process_event_def append_message_def)

lemma poll_messages [simp]:
  "ag_messages (fst (snd (poll_steering w))) = ag_messages (fst w)"
  "ag_messages (fst (snd (poll_follow_up w))) = ag_messages (fst w)"
  by (auto simp: poll_steering_def poll_follow_up_def dequeue_steering_def dequeue_follow_up_def
      Let_def split: list.split)

lemma agent_config_simps [simp]:
  "cf_tools (agent_config B) = cf_tools B"
  "cf_listener (agent_config B) e w = cf_listener B e (on_agent (process_event e) w)"
  "cf_steering (agent_config B) = poll_steering"
  "cf_follow_up (agent_config B) = poll_follow_up"
  "cf_transform (agent_config B) = cf_transform B"
  "cf_llm (agent_config B) = cf_llm B"
  "cf_aborted (agent_config B) = cf_aborted B"
  "cf_sleep (agent_config B) = cf_sleep B"
  "cf_now (agent_config B) = cf_now B"
  "cf_max_iterations (agent_config B) = None"
  "cf_max_retries (agent_config B) = None"
  "cf_base_delay (agent_config B) = None"
  "cf_sequential (agent_config B) = cf_sequential B"
  "cf_before (agent_config B) = cf_before B"
  "cf_after (agent_config B) = cf_after B"
  by (simp_all add: agent_config_def)

lemma keepsD:
  assumes "keeps field B"
  shows "field (fst (cf_listener B e w)) = field (fst w)"
    and "cf_transform B = Some f \<Longrightarrow> field (fst (snd (f ms w))) = field (fst w)"
    and "field (fst (snd (cf_llm B ms w))) = field (fst w)"
    and "field (fst (cf_sleep B n w)) = field (fst w)"
    and "cf_before B = Some g \<Longrightarrow> field (fst (snd (g m c a ms w))) = field (fst w)"
    and "cf_after B = Some h \<Longrightarrow> field (fst (snd (h m c a x b ms w))) = field (fst w)"
    and "t \<in> set (cf_tools B) \<Longrightarrow> field (fst (snd (tl_execute t a i w))) = field (fst w)"
  using assms unfolding keeps_def by (simp_all del: split_paired_All)

text \<open>
  The agent's functions keep the loop's contract for: the conversation is the one before the
  run followed by the messages reported as ended.
\<close>

interpretation conversation: loop_invariant "agent_config B"
  "\<lambda>tr w. keeps ag_messages B \<longrightarrow> ag_messages (fst w) = base @ ended tr" for B base
  by unfold_locales (simp_all add: keepsD process_event_messages split: option.split)

lemma process_event_skip [simp]: "ag_skip_poll (process_event e a) = ag_skip_poll a"
  by (cases e) (simp_all add: process_event_def append_message_def)

lemma poll_skip:
  "\<not> ag_skip_poll (fst (snd (poll_steering w)))"
  "ag_skip_poll (fst (snd (poll_follow_up w))) = ag_skip_poll (fst w)"
  by (auto simp: poll_steering_def poll_follow_up_def dequeue_steering_def dequeue_follow_up_def
      Let_def split: list.split)

text \<open>
  The messages in the queues. The caller's functions account for what they queue when all they
  do to the queues is to add messages, and \<open>recorded\<close> tells which they have added so far.
\<close>

definition queued :: "'x world \<Rightarrow> message multiset" where
  "queued w = mset (ag_steering_queue (fst w)) + mset (ag_follow_up_queue (fst w))"

definition only_adds :: "('x \<Rightarrow> message multiset) \<Rightarrow> 'x world \<Rightarrow> 'x world \<Rightarrow> bool" where
  "only_adds recorded w w' \<longleftrightarrow> queued w' + recorded (snd w) = queued w + recorded (snd w')"

definition accounts :: "('x \<Rightarrow> message multiset) \<Rightarrow> 'x world config \<Rightarrow> bool" where
  "accounts recorded B \<longleftrightarrow>
     (\<forall>e w. only_adds recorded w (cf_listener B e w)) \<and>
     (\<forall>f ms w. cf_transform B = Some f \<longrightarrow> only_adds recorded w (snd (f ms w))) \<and>
     (\<forall>ms w. only_adds recorded w (snd (cf_llm B ms w))) \<and>
     (\<forall>n w. only_adds recorded w (cf_sleep B n w)) \<and>
     (\<forall>g m c a ms w. cf_before B = Some g \<longrightarrow> only_adds recorded w (snd (g m c a ms w))) \<and>
     (\<forall>h m c a r b ms w. cf_after B = Some h \<longrightarrow> only_adds recorded w (snd (h m c a r b ms w))) \<and>
     (\<forall>t \<in> set (cf_tools B). \<forall>a i w. only_adds recorded w (snd (tl_execute t a i w)))"

lemma accountsD:
  assumes "accounts recorded B"
  shows "only_adds recorded w (cf_listener B e w)"
    and "cf_transform B = Some f \<Longrightarrow> only_adds recorded w (snd (f ms w))"
    and "only_adds recorded w (snd (cf_llm B ms w))"
    and "only_adds recorded w (cf_sleep B n w)"
    and "cf_before B = Some g \<Longrightarrow> only_adds recorded w (snd (g m c a ms w))"
    and "cf_after B = Some h \<Longrightarrow> only_adds recorded w (snd (h m c a x b ms w))"
    and "t \<in> set (cf_tools B) \<Longrightarrow> only_adds recorded w (snd (tl_execute t a i w))"
  using assms unfolding accounts_def by (simp_all del: split_paired_All)

lemma queued_process_event [simp]: "queued (on_agent (process_event e) w) = queued w"
  by (cases e) (simp_all add: process_event_def append_message_def queued_def on_agent_def)

lemma queued_poll:
  "queued (snd (poll_steering w)) + mset (fst (poll_steering w)) = queued w"
  "queued (snd (poll_follow_up w)) + mset (fst (poll_follow_up w)) = queued w"
  "snd (snd (poll_steering w)) = snd w" "snd (snd (poll_follow_up w)) = snd w"
  by (auto simp: poll_steering_def poll_follow_up_def dequeue_steering_def dequeue_follow_up_def
      queued_def on_agent_def Let_def split: list.split)

lemma listener_account:
  "accounts recorded B \<Longrightarrow> queued (cf_listener B e (on_agent (process_event e) w)) + recorded (snd w) =
     queued w + recorded (snd (cf_listener B e (on_agent (process_event e) w)))"
  using accountsD(1) [of recorded B "on_agent (process_event e) w" e] by (simp add: only_adds_def)

text \<open>The first poll can be skipped, no later one is; and no queued message is lost.\<close>

interpretation polling: queue_account "agent_config B"
  "\<lambda>tr w. keeps ag_skip_poll B \<longrightarrow> \<not> ag_skip_poll (fst w)"
  "accounts recorded B" queued "\<lambda>w. recorded (snd w)" for B recorded
  by unfold_locales
    (simp_all add: keepsD poll_skip queued_poll listener_account accountsD(2-) [unfolded only_adds_def])

definition started :: "bool \<Rightarrow> 'x world \<Rightarrow> 'x world" where
  "started skip_poll = on_agent (\<lambda>a. a\<lparr>ag_streaming := True, ag_stream_message := None,
     ag_error := None, ag_skip_poll := skip_poll\<rparr>)"

lemma run_agent_outcome:
  assumes "keeps ag_messages B"
    and run: "(case msgs of
        Some ms \<Rightarrow> run_agent_loop (agent_config B) ms (ag_messages (fst w)) (started skip w)
      | None \<Rightarrow> run_agent_loop_continue (agent_config B) (ag_messages (fst w)) (started skip w)) = (r, st)"
  shows "ag_messages (fst (run_agent B model msgs skip w)) =
      ag_messages (fst w) @ ended (lp_trace st) @
      (case r of Inr _ \<Rightarrow> [] | Inl e \<Rightarrow>
         [Assistant_Message (failure_message (cf_aborted B (lp_world st)) model e (cf_now B (lp_world st)))])"
    and "\<not> ag_streaming (fst (run_agent B model msgs skip w))"
    and "ag_pending (fst (run_agent B model msgs skip w)) = []"
proof -
  have base: "ag_messages (fst (started skip w)) = ag_messages (fst w) @ ended []"
    by (simp add: started_def)
  have inv: "ag_messages (fst (lp_world st)) = ag_messages (fst w) @ ended (lp_trace st)"
  proof (cases msgs)
    case None
    from conversation.run_agent_loop_continue_ok [where B = B and base = "ag_messages (fst w)", OF impI [OF base] run [unfolded None option.case]]
    show ?thesis using assms(1) by simp
  next
    case (Some ms)
    from conversation.run_agent_loop_ok [where B = B and base = "ag_messages (fst w)", OF impI [OF base] run [unfolded Some option.case]]
    show ?thesis using assms(1) by simp
  qed
  have listener: "ag_messages (fst (cf_listener B e v)) = ag_messages (fst v)" for e v
    by (rule keepsD [OF assms(1)])
  have eq: "run_agent B model msgs skip w =
      on_agent (\<lambda>a. a\<lparr>ag_streaming := False, ag_stream_message := None, ag_pending := []\<rparr>)
        (case r of
           Inr _ \<Rightarrow> lp_world st
         | Inl e \<Rightarrow>
             (let m = Assistant_Message
                    (failure_message (cf_aborted B (lp_world st)) model e (cf_now B (lp_world st)))
              in cf_listener B (Agent_End [m])
                   (on_agent (\<lambda>a. (append_message m a)\<lparr>ag_error := Some e\<rparr>) (lp_world st))))"
    using run by (cases msgs) (simp_all add: run_agent_def Let_def started_def)
  show "ag_messages (fst (run_agent B model msgs skip w)) =
      ag_messages (fst w) @ ended (lp_trace st) @
      (case r of Inr _ \<Rightarrow> [] | Inl e \<Rightarrow>
         [Assistant_Message (failure_message (cf_aborted B (lp_world st)) model e (cf_now B (lp_world st)))])"
    unfolding eq by (simp add: inv listener append_message_def Let_def split: sum.split)
  show "\<not> ag_streaming (fst (run_agent B model msgs skip w))"
    "ag_pending (fst (run_agent B model msgs skip w)) = []"
    unfolding eq by simp_all
qed

section \<open>A demonstration agent\<close>

definition idle :: agent where
  "idle = \<lparr>ag_messages = [], ag_streaming = False, ag_stream_message = None, ag_pending = [],
     ag_error = None, ag_steering_queue = [], ag_follow_up_queue = [], ag_steer_all = False,
     ag_follow_all = False, ag_skip_poll = False\<rparr>"

text \<open>The caller's world counts the requests; response \<open>n\<close> is the \<open>n\<close>-th of a list.\<close>

definition scripted_agent :: "assistant list \<Rightarrow> nat world config" where
  "scripted_agent rs = \<lparr>cf_tools = [], cf_listener = \<lambda>_ w. w,
     cf_steering = \<lambda>w. ([], w), cf_follow_up = \<lambda>w. ([], w), cf_transform = None,
     cf_llm = \<lambda>_ w. (Inr ([SE_Start (rs ! snd w), SE_Done], rs ! snd w), (fst w, Suc (snd w))),
     cf_aborted = \<lambda>_. False, cf_sleep = \<lambda>_ w. w, cf_now = \<lambda>_. 0, cf_max_iterations = None,
     cf_max_retries = None, cf_base_delay = None, cf_sequential = False, cf_before = None,
     cf_after = None, cf_execution_order = \<lambda>_. []\<rparr>"

definition some_model :: "string \<times> string \<times> string" where
  "some_model = (''a'', ''p'', ''m'')"

lemma scripted_agent_keeps: "keeps field (scripted_agent rs)"
  by (simp add: keeps_def scripted_agent_def)

definition unlucky :: "assistant list" where
  "unlucky = [reply [Text_Block ''x''] Stop_Error (Some ''503''), reply [Text_Block ''bye''] Stop_End None]"

lemma unlucky_transient: "is_transient_error (Some ''503'')"
  by code_simp

lemmas agent_eval = scripted_agent_def unlucky_def started_def idle_def on_agent_def append_message_def
  agent_config_def process_event_def turn_error_def poll_steering_def poll_follow_up_def
  dequeue_steering_def dequeue_follow_up_def

lemma unlucky_run:
  "\<exists>st. run_agent_loop (agent_config (scripted_agent unlucky)) [hello] [] (started False (idle, 0)) = (Inr (), st) \<and>
     lp_new st = [hello, Assistant_Message (unlucky ! 1)] \<and>
     ended (lp_trace st) = [hello, Assistant_Message (unlucky ! 0), Assistant_Message (unlucky ! 1)]"
  by (simp add: run_agent_loop_def run_loop_def run_iterations.simps [of _ 0] loop_eval agent_eval
      unlucky_transient Let_def truthy_def or_else_def numeral_2_eq_2 cong: and_then_cong)

text \<open>C26: A prompt to an agent that is not streaming and has a model runs the loop on the agent's
  conversation, and afterwards that conversation is the old one followed by every message the run reported as
  ended, in order, then by the failure message if the run threw. The agent is no longer
  streaming and has no pending tool call. (The caller's hooks do not edit the conversation.)\<close>

theorem prompt_extends_conversation:
  assumes "keeps ag_messages B" and "\<not> ag_streaming (fst w)"
    and "run_agent_loop (agent_config B) msgs (ag_messages (fst w)) (started False w) = (r, st)"
  shows "fst (prompt B (Some model) msgs w) = Inr () \<and>
    ag_messages (fst (snd (prompt B (Some model) msgs w))) =
      ag_messages (fst w) @ ended (lp_trace st) @
      (case r of Inr _ \<Rightarrow> [] | Inl e \<Rightarrow>
         [Assistant_Message (failure_message (cf_aborted B (lp_world st)) model e (cf_now B (lp_world st)))]) \<and>
    \<not> ag_streaming (fst (snd (prompt B (Some model) msgs w))) \<and> ag_pending (fst (snd (prompt B (Some model) msgs w))) = []"
proof -
  have run: "(case Some msgs of
        Some ms \<Rightarrow> run_agent_loop (agent_config B) ms (ag_messages (fst w)) (started False w)
      | None \<Rightarrow> run_agent_loop_continue (agent_config B) (ag_messages (fst w)) (started False w)) = (r, st)"
    using assms(3) by simp
  show ?thesis
    using run_agent_outcome [OF assms(1) run, of model] assms(2) by (simp add: prompt_def start_run_def)
qed

text \<open>The witness is also a failure that was retried: it stays in the agent's conversation although
  the run itself has dropped it.\<close>

theorem prompt_extends_conversation_witness:
  "ag_messages (fst (snd (prompt (scripted_agent unlucky) (Some some_model) [hello] (idle, 0)))) =
    [hello, Assistant_Message (unlucky ! 0), Assistant_Message (unlucky ! 1)]"
proof -
  obtain st where st: "run_agent_loop (agent_config (scripted_agent unlucky)) [hello]
      (ag_messages (fst (idle, 0 :: nat))) (started False (idle, 0)) = (Inr (), st)"
    "ended (lp_trace st) = [hello, Assistant_Message (unlucky ! 0), Assistant_Message (unlucky ! 1)]"
    using unlucky_run by (auto simp: idle_def)
  have "\<not> ag_streaming (fst (idle, 0 :: nat))" "ag_messages (fst (idle, 0 :: nat)) = []"
    by (simp_all add: idle_def)
  with prompt_extends_conversation [OF scripted_agent_keeps _ st(1), of some_model] st(2) show ?thesis
    by simp
qed

text \<open>C31: Queued messages are delivered. When the agent's run returns and its last message is neither
  an error nor an abort, then at the moment it reports its end both queues are empty, and its
  new messages contain the prompts, every message that was queued when it began, and every
  message that was queued with \<open>steer\<close> or \<open>followUp\<close> while it ran, each as often as it was
  queued. (Streams are in protocol order; the caller's functions touch the queues only to add
  messages, and \<open>recorded\<close> is their own record of what they added.)\<close>

theorem run_drains_queues:
  assumes "keeps ag_skip_poll B" and "accounts recorded B" and "proper_streams B"
    and "run_agent_loop (agent_config B) msgs (ag_messages (fst w)) (started False w) = (Inr (), st)"
    and "\<not> failed_run (lp_new st)"
  shows "\<exists>v. ag_steering_queue (fst v) = [] \<and> ag_follow_up_queue (fst v) = [] \<and>
    lp_world st = cf_listener B (Agent_End (lp_new st)) (on_agent (process_event (Agent_End (lp_new st))) v) \<and>
    mset msgs + queued w + recorded (snd v) \<subseteq># mset (lp_new st) + recorded (snd w)"
proof -
  have "keeps ag_skip_poll B \<longrightarrow> \<not> ag_skip_poll (fst (started False w))" by (simp add: started_def)
  from polling.run_agent_loop_drains [OF _ assms(2) this assms(4)] assms(3,5) obtain st1 st2 st3
    where d: "polling.ok B st1" "in_world poll_steering st1 = ([], st2)"
      "in_world poll_follow_up st2 = ([], st3)" "st = emit_event (agent_config B) (Agent_End (lp_new st3)) st3"
      "mset msgs + queued (started False w) + recorded (snd (lp_world st3)) \<subseteq>#
        mset (lp_new st3) + queued (lp_world st3) + recorded (snd (started False w))"
    by (auto simp: proper_streams_def)
  then have skip: "\<not> ag_skip_poll (fst (lp_world st1))" using assms(1) unfolding polling.ok_def by simp
  have "ag_steering_queue (fst (lp_world st2)) = []"
    using d(2) skip
    by (auto simp: in_world_def poll_steering_def dequeue_steering_def Let_def split: if_splits list.splits)
  then have empty: "ag_steering_queue (fst (lp_world st3)) = [] \<and> ag_follow_up_queue (fst (lp_world st3)) = []"
    using d(3)
    by (auto simp: in_world_def poll_follow_up_def dequeue_follow_up_def Let_def split: if_splits list.splits)
  moreover have "lp_world st = cf_listener B (Agent_End (lp_new st))
      (on_agent (process_event (Agent_End (lp_new st))) (lp_world st3))" "lp_new st = lp_new st3"
    using d(4) by (simp_all add: emit_event_def)
  moreover have "queued (started False w) = queued w" "snd (started False w) = snd w" "queued (lp_world st3) = {#}"
    using empty by (simp_all add: started_def queued_def)
  ultimately show ?thesis using d(5) by (intro exI [of _ "lp_world st3"]) simp
qed

text \<open>A tool that steers the agent, and says so in a record beside the count of requests.\<close>

definition nagging_agent :: "(nat \<times> message list) world config" where
  "nagging_agent = \<lparr>cf_tools = [\<lparr>tl_name = ''nag'', tl_validate = Inr, tl_execute = \<lambda>args _ w.
        (([], Inr \<lparr>to_content = [], to_details = JNull\<rparr>),
         (steer hello (fst w), (fst (snd w), hello # snd (snd w))))\<rparr>],
     cf_listener = \<lambda>_ w. w, cf_steering = \<lambda>w. ([], w), cf_follow_up = \<lambda>w. ([], w), cf_transform = None,
     cf_llm = \<lambda>_ w. (let r = (if fst (snd w) = 0 then reply [call_block ''1'' ''nag''] Stop_Tool_Use None
                               else reply [Text_Block ''bye''] Stop_End None)
                      in (Inr ([SE_Start r, SE_Done], r), (fst w, (Suc (fst (snd w)), snd (snd w))))),
     cf_aborted = \<lambda>_. False, cf_sleep = \<lambda>_ w. w, cf_now = \<lambda>_. 0, cf_max_iterations = None,
     cf_max_retries = None, cf_base_delay = None, cf_sequential = False, cf_before = None,
     cf_after = None, cf_execution_order = \<lambda>_. []\<rparr>"

lemma nagging_run:
  "\<exists>st r. run_agent_loop (agent_config nagging_agent) [hello] [] (started False (idle, (0, []))) = (Inr (), st) \<and>
     lp_new st = [hello, Assistant_Message (reply [call_block ''1'' ''nag''] Stop_Tool_Use None), Result_Message r, hello,
       Assistant_Message (reply [Text_Block ''bye''] Stop_End None)] \<and> snd (lp_world st) = (2, [hello])"
  by (simp add: run_agent_loop_def run_loop_def run_iterations.simps [of _ 0] run_iterations.simps [of _ "Suc 0"]
      nagging_agent_def steer_def inject_def loop_eval agent_eval Let_def truthy_def cong: and_then_cong)

theorem run_drains_queues_witness:
  "\<exists>st (v :: (nat \<times> message list) world). run_agent_loop (agent_config nagging_agent) [hello] [] (started False (idle, (0, []))) = (Inr (), st) \<and>
    ag_steering_queue (fst v) = [] \<and> snd v = (2, [hello]) \<and> {#hello, hello#} \<subseteq># mset (lp_new st)"
proof -
  obtain st r where st: "run_agent_loop (agent_config nagging_agent) [hello] (ag_messages (fst (idle, (0 :: nat, [] :: message list))))
      (started False (idle, (0, []))) = (Inr (), st)"
    "lp_new st = [hello, Assistant_Message (reply [call_block ''1'' ''nag''] Stop_Tool_Use None), Result_Message r, hello,
       Assistant_Message (reply [Text_Block ''bye''] Stop_End None)]" "snd (lp_world st) = (2, [hello])"
    using nagging_run by (auto simp: idle_def)
  have k: "keeps ag_skip_poll nagging_agent"
    by (simp add: keeps_def nagging_agent_def Let_def steer_def)
  have acc: "accounts (\<lambda>x. mset (snd x)) nagging_agent"
    by (simp add: accounts_def only_adds_def queued_def nagging_agent_def Let_def steer_def)
  have proper: "proper_streams nagging_agent"
    by (auto simp: proper_streams_def nagging_agent_def Let_def)
  have "\<not> failed_run (lp_new st)"
    unfolding st(2) failed_run_def by (simp add: stopped_def reply_def)
  from run_drains_queues [OF k acc proper st(1) this] obtain v where
    v: "ag_steering_queue (fst v) = []" "lp_world st = on_agent (process_event (Agent_End (lp_new st))) v"
    "mset [hello] + queued (idle, (0 :: nat, [] :: message list)) + mset (snd (snd v)) \<subseteq># mset (lp_new st)"
    by (auto simp: nagging_agent_def)
  then have "snd v = (2, [hello])" using st(3) by simp
  moreover have "{#hello, hello#} \<subseteq># mset (lp_new st)"
    using v(3) \<open>snd v = (2, [hello])\<close> by (simp add: queued_def idle_def)
  moreover have "ag_messages (fst (idle, (0 :: nat, [] :: message list))) = []" by (simp add: idle_def)
  with st(1) have "run_agent_loop (agent_config nagging_agent) [hello] [] (started False (idle, (0, []))) = (Inr (), st)"
    by simp
  ultimately show ?thesis using v(1) \<open>snd v = (2, [hello])\<close> by (intro exI [of _ st] exI [of _ v] conjI)
qed

end
