(* ===== verification/Transport_Types.thy ===== *)
theory Transport_Types
  imports Session_Store Agent_Loop
begin

text \<open>
  The messages between the runtime and its clients
  (\<open>packages/runtime/agent-runtime/src/transport/types.ts\<close>), with the codes of
  \<open>error-codes.ts\<close>. Optional flags that are absent are \<open>False\<close>.
\<close>

section \<open>From the server\<close>

record session_item =
  si_id :: id
  si_name :: string
  si_source :: string
  si_updated :: stamp

record prompt_section =
  ps_name :: string
  ps_key :: string
  ps_content :: string
  ps_lines :: nat
  ps_tokens :: "nat option"
  ps_source :: "json option"
  ps_included :: "bool option"
  ps_excluded :: "string option"

datatype wire_error = Parse_Error | Session_Missing | Agent_Busy | Agent_Init_Error | Tool_Failure |
  Mcp_Error | Command_Not_Found | Command_Error | Too_Many_Messages | Internal_Error

text \<open>
  \<open>Capability_State\<close> carries whether its scope is the session; \<open>Mode_Event\<close> whether the mode
  was entered or left.
\<close>

datatype server_message =
    Session_Sync id session "agent_message list" "message option" "nat option" bool "(id \<times> string) option"
  | Session_List "session_item list"
  | Agent_Event id event
  | Tool_Event id event
  | Cost_Event id json
  | Command_Result id string "string option" "json option" bool
  | Custom_Event id string "(string \<times> json) list"
  | Inject_Message id message
  | System_Prompt "prompt_section list" string
  | Capability_State id bool string json "id option"
  | Mode_Event id bool id string
  | Pong
  | Error_Message wire_error string
  | Bundle_Disabled id json

section \<open>From the client\<close>

datatype client_message =
    Prompt_Request id string
  | Steer_Request id string
  | Abort_Request id
  | Switch_Request id
  | New_Request "string option"
  | Delete_Request id
  | Command_Request id string "string option"
  | Sync_Request id "nat option"
  | Custom_Response id id "(string \<times> json) list"
  | Inspect_Request id
  | Action_Request id string json id
  | Ping

end
