(* ===== verification/Chat_Client.thy ===== *)
theory Chat_Client
  imports Transport_Types Json_Text
begin

text \<open>
  The client of a chat: the reducer (\<open>packages/runtime/agent-runtime/src/client/chat-reducer.ts\<close>)
  with the state it keeps, the handler of the server's messages (\<open>message-handler.ts\<close>), what the
  user's actions send (\<open>hooks/use-chat-session.ts\<close>) and the connection's own steps
  (\<open>agent-connection-provider.tsx\<close>).

  React runs the reducer some time after an action was dispatched. Dispatched actions are
  therefore a queue of their own, and \<open>flush\<close> is the step that reduces them; the updater of
  a streaming message reads the message being streamed at that time, not at dispatch. The
  lemmas show that the delay does not change what is displayed, and what a run displays.
\<close>

section \<open>State\<close>

datatype agent_status = Agent_Idle | Agent_Streaming | Executing_Tools

datatype connection_status = Connecting | Connected | Disconnected | Reconnecting

datatype tool_state =
    Tool_Executing string
  | Tool_Streaming string tool_outcome
  | Tool_Complete string tool_outcome bool

text \<open>
  A message of the list: one that arrived live, one from a stored session, or the reply to a
  command (its text, the command's name, whether it failed, and the time).
\<close>

datatype shown_body =
    Live message
  | Stored agent_message
  | Command_Reply string string bool int

record shown_message =
  cm_body :: shown_body
  cm_streaming :: bool
  cm_thinking :: "string option"

record chat_state =
  cs_messages :: "shown_message list"
  cs_connection :: connection_status
  cs_status :: agent_status
  cs_sessions :: "session_item list"
  cs_current :: "id option"
  cs_thinking :: "string option"
  cs_completed :: "string option"
  cs_tools :: "id \<rightharpoonup> tool_state"
  cs_costs :: "json list"
  cs_prompt :: "(prompt_section list \<times> string) option"
  cs_capabilities :: "id \<rightharpoonup> json"
  cs_mode :: "(id \<times> string) option"
  cs_error :: "string option"

definition initial_chat :: "id option \<Rightarrow> chat_state" where
  "initial_chat s = \<lparr>cs_messages = [], cs_connection = Connecting, cs_status = Agent_Idle,
     cs_sessions = [], cs_current = s, cs_thinking = None, cs_completed = None,
     cs_tools = Map.empty, cs_costs = [], cs_prompt = None, cs_capabilities = Map.empty,
     cs_mode = None, cs_error = None\<rparr>"

definition plain_message :: "shown_body \<Rightarrow> shown_message" where
  "plain_message b = \<lparr>cm_body = b, cm_streaming = False, cm_thinking = None\<rparr>"

definition streaming_message :: "message \<Rightarrow> shown_message" where
  "streaming_message m = \<lparr>cm_body = Live m, cm_streaming = True, cm_thinking = None\<rparr>"

text \<open>\<open>"role" in m && m.role === "assistant"\<close>; the other messages are of users or of extensions.\<close>

fun shown_assistant :: "shown_body \<Rightarrow> bool" where
  "shown_assistant (Live m) = is_assistant m"
| "shown_assistant (Stored m) = (am_role m = Assistant)"
| "shown_assistant (Command_Reply t n e ts) = True"

section \<open>The reducer\<close>

datatype thinking_change = Thinking_Start | Thinking_Delta string | Thinking_End

text \<open>
  The two updaters of the message list: replace the streaming message by the one being
  streamed, or by the final message.
\<close>

datatype updater = Show_Streamed | Show_Final message

datatype chat_action =
    Reset
  | Add_Message shown_message
  | Set_Connection connection_status
  | Set_Status agent_status
  | Set_Sessions "session_item list"
  | Set_Current "id option"
  | Set_Thinking "string option"
  | Set_Messages "shown_message list"
  | Set_Tools "id \<rightharpoonup> tool_state"
  | Set_Costs "json list"
  | Add_Cost json
  | Set_Prompt "prompt_section list" string
  | Set_Error "string option"
  | Sync "shown_message list" id agent_status "(id \<times> string) option"
  | End_Of_Agent
  | Update_Streaming updater "thinking_change option"
  | Start_Tool id string
  | Update_Tool id string tool_outcome
  | End_Tool id string tool_outcome bool shown_message
  | Set_Capability id json
  | Set_Mode "(id \<times> string) option"
  | Error_Received string

text \<open>\<open>r\<close> is the message being streamed (\<open>streamMessageRef\<close>) when the updater runs.\<close>

fun apply_updater :: "message option \<Rightarrow> updater \<Rightarrow> shown_message list \<Rightarrow> shown_message list" where
  "apply_updater r Show_Streamed ms =
     (case r of
        None \<Rightarrow> ms
      | Some m \<Rightarrow>
          if ms \<noteq> [] \<and> shown_assistant (cm_body (last ms)) \<and> cm_streaming (last ms)
          then butlast ms @ [streaming_message m] else ms)"
| "apply_updater r (Show_Final m) ms =
     (if ms \<noteq> [] \<and> cm_streaming (last ms) then butlast ms @ [plain_message (Live m)] else ms)"

text \<open>The new \<open>thinking\<close>, \<open>completedThinking\<close> and the text to attach to the last message.\<close>

fun change_thinking :: "thinking_change option \<Rightarrow> string option \<Rightarrow> string option \<Rightarrow>
    string option \<times> string option \<times> string option" where
  "change_thinking None th old = (th, old, None)"
| "change_thinking (Some Thinking_Start) th old = (Some [], None, None)"
| "change_thinking (Some (Thinking_Delta d)) th old = (Some (or_else th [] @ d), old, None)"
| "change_thinking (Some Thinking_End) th old = (None, th, th)"

definition attach_thinking :: "string option \<Rightarrow> shown_message list \<Rightarrow> shown_message list" where
  "attach_thinking t ms =
     (if truthy t \<and> ms \<noteq> [] \<and> shown_assistant (cm_body (last ms))
      then butlast ms @ [(last ms)\<lparr>cm_thinking := t\<rparr>] else ms)"

fun chat_reducer :: "message option \<Rightarrow> chat_action \<Rightarrow> chat_state \<Rightarrow> chat_state" where
  "chat_reducer r Reset s = initial_chat None"
| "chat_reducer r (Set_Messages ms) s = s\<lparr>cs_messages := ms\<rparr>"
| "chat_reducer r (Add_Message m) s = s\<lparr>cs_messages := cs_messages s @ [m]\<rparr>"
| "chat_reducer r (Set_Connection c) s = s\<lparr>cs_connection := c\<rparr>"
| "chat_reducer r (Set_Status x) s = s\<lparr>cs_status := x\<rparr>"
| "chat_reducer r (Set_Sessions xs) s = s\<lparr>cs_sessions := xs\<rparr>"
| "chat_reducer r (Set_Current i) s = s\<lparr>cs_current := i\<rparr>"
| "chat_reducer r (Set_Thinking t) s = s\<lparr>cs_thinking := t\<rparr>"
| "chat_reducer r (Set_Tools ts) s = s\<lparr>cs_tools := ts\<rparr>"
| "chat_reducer r (Set_Costs cs) s = s\<lparr>cs_costs := cs\<rparr>"
| "chat_reducer r (Add_Cost c) s = s\<lparr>cs_costs := cs_costs s @ [c]\<rparr>"
| "chat_reducer r (Set_Prompt ss raw) s = s\<lparr>cs_prompt := Some (ss, raw)\<rparr>"
| "chat_reducer r (Set_Error e) s = s\<lparr>cs_error := e\<rparr>"
| "chat_reducer r (Set_Capability c d) s = s\<lparr>cs_capabilities := (cs_capabilities s)(c \<mapsto> d)\<rparr>"
| "chat_reducer r (Sync ms i st mode) s =
     s\<lparr>cs_messages := ms, cs_current := Some i, cs_status := st, cs_tools := Map.empty,
       cs_costs := [], cs_thinking := None, cs_completed := None,
       cs_capabilities := Map.empty, cs_mode := mode, cs_error := None\<rparr>"
| "chat_reducer r (Set_Mode m) s = s\<lparr>cs_mode := m\<rparr>"
| "chat_reducer r End_Of_Agent s =
     s\<lparr>cs_status := Agent_Idle, cs_thinking := None, cs_tools := Map.empty\<rparr>"
| "chat_reducer r (Update_Streaming u tc) s =
     (case change_thinking tc (cs_thinking s) (cs_completed s) of
        (th, done_th, t) \<Rightarrow>
          s\<lparr>cs_messages := attach_thinking t (apply_updater r u (cs_messages s)),
            cs_thinking := th, cs_completed := done_th\<rparr>)"
| "chat_reducer r (Start_Tool i n) s =
     s\<lparr>cs_status := Executing_Tools, cs_tools := (cs_tools s)(i \<mapsto> Tool_Executing n)\<rparr>"
| "chat_reducer r (Update_Tool i n p) s = s\<lparr>cs_tools := (cs_tools s)(i \<mapsto> Tool_Streaming n p)\<rparr>"
| "chat_reducer r (End_Tool i n out e m) s =
     s\<lparr>cs_tools := (cs_tools s)(i \<mapsto> Tool_Complete n out e), cs_messages := cs_messages s @ [m]\<rparr>"
| "chat_reducer r (Error_Received m) s = s\<lparr>cs_error := Some m, cs_status := Agent_Idle\<rparr>"

definition reduce :: "message option \<Rightarrow> chat_action list \<Rightarrow> chat_state \<Rightarrow> chat_state" where
  "reduce r as s = fold (chat_reducer r) as s"

section \<open>The handler of server messages\<close>

text \<open>
  The references that the handler shares with the connection: the current socket and whether
  it is open, the session on display, the message being streamed, and what went out: messages
  sent, custom events and capability events delivered, session switches announced.
\<close>

record client =
  cl_chat :: chat_state
  cl_queue :: "chat_action list"
  cl_socket :: "nat option"
  cl_open :: bool
  cl_session :: "id option"
  cl_stream :: "message option"
  cl_sent :: "client_message list"
  cl_events :: "(string \<times> (string \<times> json) list) list"
  cl_notified :: "(id \<times> string \<times> json) list"
  cl_switches :: "id option list"
  cl_last_pong :: int
  cl_pong_due :: bool
  cl_attempts :: nat
  cl_retry_in :: "nat option"

text \<open>
  \<open>ce_request\<close> is \<open>onCustomRequest\<close>, whose promise is taken to settle at once;
  \<open>ce_subscribed\<close> tells which capabilities have subscribers.
\<close>

record client_env =
  ce_request :: "(string \<Rightarrow> (string \<times> json) list \<Rightarrow> string + (string \<times> json) list) option"
  ce_subscribed :: "id \<Rightarrow> bool"

definition dispatch :: "chat_action \<Rightarrow> client \<Rightarrow> client" where
  "dispatch a c =
     c\<lparr>cl_queue := cl_queue c @ [a],
       cl_switches := cl_switches c @ (case a of Sync ms i st mode \<Rightarrow> [Some i]
         | Set_Current i \<Rightarrow> [i] | Reset \<Rightarrow> [None] | _ \<Rightarrow> [])\<rparr>"

definition flush :: "client \<Rightarrow> client" where
  "flush c = c\<lparr>cl_chat := reduce (cl_stream c) (cl_queue c) (cl_chat c), cl_queue := []\<rparr>"

definition send_client :: "client_message \<Rightarrow> client \<Rightarrow> client" where
  "send_client m c = (if cl_open c then c\<lparr>cl_sent := cl_sent c @ [m]\<rparr> else c)"

definition thinking_change_of :: "json \<Rightarrow> thinking_change option" where
  "thinking_change_of ev =
     (let t = member ev ''type''
      in if t = Some (JStr ''thinking_start'') then Some Thinking_Start
         else if t = Some (JStr ''thinking_delta'')
         then Some (Thinking_Delta (case member ev ''delta'' of Some (JStr d) \<Rightarrow> d | _ \<Rightarrow> []))
         else if t = Some (JStr ''thinking_end'') then Some Thinking_End else None)"

fun handle_agent_event_msg :: "event \<Rightarrow> client \<Rightarrow> client" where
  "handle_agent_event_msg Agent_Start c = dispatch (Set_Status Agent_Streaming) c"
| "handle_agent_event_msg (Message_Start m) c =
     (if is_assistant m
      then dispatch (Add_Message (streaming_message m))
             ((dispatch (Set_Status Agent_Streaming) c)\<lparr>cl_stream := Some m\<rparr>)
      else c)"
| "handle_agent_event_msg (Message_Update m ev) c =
     dispatch (Update_Streaming Show_Streamed (thinking_change_of ev)) (c\<lparr>cl_stream := Some m\<rparr>)"
| "handle_agent_event_msg (Message_End m) c =
     (if is_assistant m
      then dispatch (Update_Streaming (Show_Final m) None) (c\<lparr>cl_stream := None\<rparr>)
      else c)"
| "handle_agent_event_msg (Agent_End ms) c = dispatch End_Of_Agent c"
| "handle_agent_event_msg _ c = c"

definition result_message :: "id \<Rightarrow> string \<Rightarrow> tool_outcome \<Rightarrow> bool \<Rightarrow> int \<Rightarrow> message" where
  "result_message i n out e now =
     Result_Message \<lparr>tr_call_id = i, tr_name = n, tr_content = to_content out,
       tr_details = to_details out, tr_is_error = e, tr_time = now\<rparr>"

fun handle_tool_event_msg :: "int \<Rightarrow> event \<Rightarrow> client \<Rightarrow> client" where
  "handle_tool_event_msg now (Tool_Start i n a) c = dispatch (Start_Tool i n) c"
| "handle_tool_event_msg now (Tool_Update i n a p) c = dispatch (Update_Tool i n p) c"
| "handle_tool_event_msg now (Tool_End i n out e) c =
     dispatch (End_Tool i n out e (plain_message (Live (result_message i n out e now)))) c"
| "handle_tool_event_msg now _ c = c"

text \<open>\<open>JSON.stringify(data, null, 2)\<close>; \<open>d\<close> is the depth.\<close>

definition indent :: "nat \<Rightarrow> string" where
  "indent d = CHR 0x0A # replicate (2 * d) CHR 0x20"

fun pretty :: "nat \<Rightarrow> json \<Rightarrow> string" where
  "pretty d (JArr xs) =
     (if xs = [] then ''[]''
      else ''['' @ join '','' (map (\<lambda>x. indent (Suc d) @ pretty (Suc d) x) xs) @ indent d @ '']'')"
| "pretty d (JObj ms) =
     (if ms = [] then [CHR 0x7B, CHR 0x7D]
      else [CHR 0x7B] @
        join '','' (map (\<lambda>(k, v). indent (Suc d) @ quote k @ '': '' @ pretty (Suc d) v) ms) @
        indent d @ [CHR 0x7D])"
| "pretty d j = stringify j"

definition command_text :: "string option \<Rightarrow> json option \<Rightarrow> string" where
  "command_text t dat =
     (case t of Some x \<Rightarrow> x
      | None \<Rightarrow> (case dat of None \<Rightarrow> [] | Some JNull \<Rightarrow> [] | Some j \<Rightarrow> pretty 0 j))"

definition normalize_section :: "prompt_section \<Rightarrow> prompt_section" where
  "normalize_section s =
     s\<lparr>ps_tokens := Some (or_else (ps_tokens s) 0),
       ps_source := Some (or_else (ps_source s) (JObj [(''type'', JStr ''custom'')])),
       ps_included := Some (or_else (ps_included s) True)\<rparr>"

definition request_id :: "(string \<times> json) list \<Rightarrow> string option" where
  "request_id dat = (case map_of dat ''_requestId'' of Some (JStr i) \<Rightarrow> Some i | _ \<Rightarrow> None)"

definition failure_reply :: "string \<Rightarrow> (string \<times> json) list" where
  "failure_reply m = [(''_error'', JBool True), (''message'', JStr m)]"

definition handle_custom_event :: "client_env \<Rightarrow> id \<Rightarrow> string \<Rightarrow> (string \<times> json) list \<Rightarrow> client \<Rightarrow> client" where
  "handle_custom_event E s name dat c =
     (if truthy (request_id dat)
      then send_client (Custom_Response s (the (request_id dat))
             (case ce_request E of
                None \<Rightarrow> failure_reply ''No onCustomRequest handler configured''
              | Some f \<Rightarrow> (case f name (filter (\<lambda>(k, _). k \<noteq> ''_requestId'') dat) of
                    Inl m \<Rightarrow> failure_reply m | Inr d \<Rightarrow> d))) c
      else c\<lparr>cl_events := cl_events c @ [(name, dat)]\<rparr>)"

fun handle_server_message :: "client_env \<Rightarrow> int \<Rightarrow> server_message \<Rightarrow> client \<Rightarrow> client" where
  "handle_server_message E now (Session_Sync s row ms streamed cursor more_pages mode) c =
     (let shown = map (plain_message \<circ> Stored) ms @
            (case streamed of None \<Rightarrow> [] | Some m \<Rightarrow> [streaming_message m]);
          c1 = (dispatch (Sync shown s (if streamed = None then Agent_Idle else Agent_Streaming) mode) c)
                 \<lparr>cl_session := Some s, cl_stream := streamed\<rparr>
      in if more_pages then send_client (Sync_Request s cursor) c1 else c1)"
| "handle_server_message E now (Session_List xs) c = dispatch (Set_Sessions xs) c"
| "handle_server_message E now (Agent_Event s e) c =
     (if cl_session c = Some s then handle_agent_event_msg e c else c)"
| "handle_server_message E now (Tool_Event s e) c =
     (if cl_session c = Some s then handle_tool_event_msg now e c else c)"
| "handle_server_message E now (Cost_Event s j) c =
     (if cl_session c = Some s then dispatch (Add_Cost j) c else c)"
| "handle_server_message E now (Command_Result s n t dat e) c =
     (if cl_session c = Some s
      then dispatch (Add_Message (plain_message (Command_Reply (command_text t dat) n e now))) c else c)"
| "handle_server_message E now (Inject_Message s m) c =
     (if cl_session c = Some s then dispatch (Add_Message (plain_message (Live m))) c else c)"
| "handle_server_message E now (Custom_Event s n dat) c =
     (if cl_session c = Some s then handle_custom_event E s n dat c else c)"
| "handle_server_message E now (System_Prompt ss raw) c =
     dispatch (Set_Prompt (map normalize_section ss) raw) c"
| "handle_server_message E now Pong c = c\<lparr>cl_last_pong := now, cl_pong_due := False\<rparr>"
| "handle_server_message E now (Capability_State cap per_session ev dat s) c =
     (if per_session \<and> (s = None \<or> s \<noteq> cl_session c) then c
      else
        let c1 = (if ce_subscribed E cap then c\<lparr>cl_notified := cl_notified c @ [(cap, ev, dat)]\<rparr> else c)
        in if ev = ''sync'' then dispatch (Set_Capability cap dat) c1 else c1)"
| "handle_server_message E now (Mode_Event s entered i n) c =
     (if cl_session c = Some s
      then dispatch (Set_Mode (if entered then Some (i, n) else None)) c else c)"
| "handle_server_message E now (Error_Message code m) c = dispatch (Error_Received m) c"
| "handle_server_message E now (Bundle_Disabled s j) c = c"

text \<open>Messages of a socket that is not the current one are ignored.\<close>

definition receive :: "client_env \<Rightarrow> int \<Rightarrow> nat \<Rightarrow> server_message \<Rightarrow> client \<Rightarrow> client" where
  "receive E now sock msg c = (if cl_socket c = Some sock then handle_server_message E now msg c else c)"

section \<open>What the user does\<close>

text \<open>
  The expression \<open>/^\/(\S+)(?:\s+(.*))?$/\<close>: the name, and the rest if there is one. The dot
  does not match line ends.
\<close>

definition match_command :: "string \<Rightarrow> (string \<times> string option) option" where
  "match_command t =
     (case t of
        CHR 0x2F # rest \<Rightarrow>
          (let name = takeWhile (\<lambda>c. \<not> js_space c) rest;
               tl = dropWhile (\<lambda>c. \<not> js_space c) rest;
               args = dropWhile js_space tl
           in if name = [] then None
              else if tl = [] then Some (name, None)
              else if CHR 0x0A \<in> set args \<or> CHR 0x0D \<in> set args then None
              else Some (name, Some args))
      | _ \<Rightarrow> None)"

definition known_commands :: "chat_state \<Rightarrow> string list" where
  "known_commands st =
     (case cs_capabilities st ''commands'' of
        Some j \<Rightarrow> (case member j ''commands'' of
            Some (JArr cs) \<Rightarrow> List.map_filter (\<lambda>x. case member x ''name'' of Some (JStr n) \<Rightarrow> Some n | _ \<Rightarrow> None) cs
          | _ \<Rightarrow> [])
      | None \<Rightarrow> [])"

definition user_text :: "string \<Rightarrow> int \<Rightarrow> shown_message" where
  "user_text t now = plain_message (Live (Other_Message
     (JObj [(''role'', JStr ''user''), (''content'', JStr t), (''timestamp'', JNum now)])))"

text \<open>The callbacks see the state of the last rendering, which is \<open>cl_chat\<close>.\<close>

definition send_message :: "int \<Rightarrow> string \<Rightarrow> client \<Rightarrow> client" where
  "send_message now t c =
     (if \<not> truthy (cs_current (cl_chat c)) then c
      else
        let s = the (cs_current (cl_chat c));
            c1 = dispatch (Set_Error None) c;
            shown = (\<lambda>x. dispatch (Set_Status Agent_Streaming) (dispatch (Add_Message (user_text t now)) x))
        in case match_command t of
             Some (n, args) \<Rightarrow>
               if n \<in> set (known_commands (cl_chat c))
               then shown (send_client (Command_Request s n (map_option trim args)) c1)
               else if cs_status (cl_chat c) = Agent_Idle
               then shown (send_client (Prompt_Request s t) c1)
               else send_client (Action_Request ''queue'' ''message'' (JObj [(''text'', JStr t)]) s) c1
           | None \<Rightarrow>
               if cs_status (cl_chat c) = Agent_Idle
               then shown (send_client (Prompt_Request s t) c1)
               else send_client (Action_Request ''queue'' ''message'' (JObj [(''text'', JStr t)]) s) c1)"

definition steer_message :: "int \<Rightarrow> string \<Rightarrow> client \<Rightarrow> client" where
  "steer_message now t c =
     (if \<not> truthy (cs_current (cl_chat c)) then c
      else dispatch (Set_Status Agent_Streaming) (dispatch (Add_Message (user_text t now))
             (send_client (Steer_Request (the (cs_current (cl_chat c))) t)
               (dispatch (Set_Error None) c))))"

definition abort_run :: "client \<Rightarrow> client" where
  "abort_run c =
     (if truthy (cs_current (cl_chat c))
      then send_client (Abort_Request (the (cs_current (cl_chat c)))) c else c)"

text \<open>Messages without anything to show are left out of the rendered list.\<close>

fun shows_block :: "block \<Rightarrow> bool" where
  "shows_block (Text_Block t) = (t \<noteq> [])"
| "shows_block (Tool_Call_Block tc) = True"
| "shows_block (Other_Block j) = False"

definition json_shows :: "json \<Rightarrow> bool" where
  "json_shows j =
     (member j ''type'' = Some (JStr ''toolCall'') \<or>
      member j ''type'' = Some (JStr ''text'') \<and>
        (case member j ''text'' of Some (JStr t) \<Rightarrow> t \<noteq> [] | _ \<Rightarrow> False))"

fun content_shows :: "json \<Rightarrow> bool" where
  "content_shows (JStr t) = (t \<noteq> [])"
| "content_shows (JArr bs) = list_ex json_shows bs"
| "content_shows _ = True"

fun visible :: "shown_body \<Rightarrow> bool" where
  "visible (Live (Assistant_Message a)) = list_ex shows_block (as_content a)"
| "visible (Live (Other_Message j)) = True"
| "visible (Live (Result_Message r)) = True"
| "visible (Stored m) = (if am_role m = Assistant then content_shows (am_content m) else True)"
| "visible (Command_Reply t n e ts) = (t \<noteq> [])"

definition visible_messages :: "chat_state \<Rightarrow> shown_message list" where
  "visible_messages st = filter (visible \<circ> cm_body) (cs_messages st)"

section \<open>The connection\<close>

definition max_reconnect_delay :: nat where "max_reconnect_delay = 30000"

definition ping_interval_ms :: nat where "ping_interval_ms = 30000"

definition pong_timeout_ms :: nat where "pong_timeout_ms = 10000"

text \<open>
  \<open>mount\<close> is the first rendering with its effect; \<open>connect\<close> opens the socket \<open>sock\<close> (an empty
  URL opens none); in \<open>on_close\<close>, \<open>over\<close> says that the effect was cleaned up or the URL has
  changed. The pong timeout closes the socket, which is a later \<open>on_close\<close>.
\<close>

definition connect :: "string \<Rightarrow> nat \<Rightarrow> client \<Rightarrow> client" where
  "connect url sock c =
     (if url = [] then dispatch (Set_Connection Disconnected) c
      else (dispatch (Set_Connection Connecting) c)
             \<lparr>cl_socket := Some sock, cl_open := False, cl_retry_in := None\<rparr>)"

definition mount :: "string \<Rightarrow> id option \<Rightarrow> nat \<Rightarrow> client" where
  "mount url s sock =
     connect url sock ((dispatch Reset
       \<lparr>cl_chat = initial_chat s, cl_queue = [], cl_socket = None, cl_open = False, cl_session = s,
        cl_stream = None, cl_sent = [], cl_events = [], cl_notified = [], cl_switches = [],
        cl_last_pong = 0, cl_pong_due = False, cl_attempts = 0, cl_retry_in = None\<rparr>)
         \<lparr>cl_session := None, cl_stream := None, cl_attempts := 0\<rparr>)"

definition on_open :: "client \<Rightarrow> client" where
  "on_open c =
     (let c1 = (dispatch (Set_Connection Connected) c)\<lparr>cl_open := True\<rparr>;
          c2 = (if cl_attempts c > 0 \<and> truthy (cl_session c)
                then send_client (Switch_Request (the (cl_session c))) c1 else c1)
      in c2\<lparr>cl_attempts := 0\<rparr>)"

definition ping_tick :: "client \<Rightarrow> client" where
  "ping_tick c = (if cl_open c then (send_client Ping c)\<lparr>cl_pong_due := True\<rparr> else c)"

definition on_close :: "bool \<Rightarrow> bool \<Rightarrow> nat option \<Rightarrow> nat \<Rightarrow> client \<Rightarrow> client" where
  "on_close over auto_reconnect max_delay sock c =
     (let c1 = dispatch (Set_Connection Disconnected) c;
          c2 = (if cl_socket c = Some sock then c1\<lparr>cl_socket := None, cl_open := False\<rparr> else c1);
          c3 = c2\<lparr>cl_pong_due := False\<rparr>
      in if over \<or> \<not> auto_reconnect then c3
         else (dispatch (Set_Connection Reconnecting) c3)
                \<lparr>cl_attempts := Suc (cl_attempts c),
                 cl_retry_in := Some (min (1000 * 2 ^ cl_attempts c) (or_else max_delay max_reconnect_delay))\<rparr>)"

section \<open>Delayed reduction\<close>

datatype client_step = Receive int server_message | Flush

fun step_client :: "client_env \<Rightarrow> client_step \<Rightarrow> client \<Rightarrow> client" where
  "step_client E (Receive now m) c = handle_server_message E now m c"
| "step_client E Flush c = flush c"

text \<open>
  The state of the stream of a client that watches the session \<open>s\<close>: \<open>stream_after s b m\<close> is the
  session and whether a message is being streamed after the server message \<open>m\<close>, \<open>None\<close> when \<open>m\<close>
  breaks the order in which agents send: while a message is streamed, nothing else is added
  to the session's list and no other message starts.
\<close>

fun stream_after :: "id option \<Rightarrow> bool \<Rightarrow> server_message \<Rightarrow> (id option \<times> bool) option" where
  "stream_after s b (Session_Sync t row ms streamed cursor more_pages mode) =
     (case streamed of None \<Rightarrow> Some (Some t, False)
      | Some m \<Rightarrow> if is_assistant m then Some (Some t, True) else None)"
| "stream_after s b (Agent_Event t (Message_Start m)) =
     (if s \<noteq> Some t \<or> \<not> is_assistant m then Some (s, b) else if b then None else Some (s, True))"
| "stream_after s b (Agent_Event t (Message_Update m ev)) =
     (if s \<noteq> Some t then Some (s, b) else if b \<and> is_assistant m then Some (s, True) else None)"
| "stream_after s b (Agent_Event t (Message_End m)) =
     (if s \<noteq> Some t \<or> \<not> is_assistant m then Some (s, b) else if b then Some (s, False) else None)"
| "stream_after s b (Tool_Event t (Tool_End i n out e)) =
     (if s = Some t \<and> b then None else Some (s, b))"
| "stream_after s b (Command_Result t n txt dat e) = (if s = Some t \<and> b then None else Some (s, b))"
| "stream_after s b (Inject_Message t m) = (if s = Some t \<and> b then None else Some (s, b))"
| "stream_after s b m = Some (s, b)"

fun framed :: "id option \<Rightarrow> bool \<Rightarrow> server_message list \<Rightarrow> (id option \<times> bool) option" where
  "framed s b [] = Some (s, b)"
| "framed s b (m # ms) = (case stream_after s b m of None \<Rightarrow> None | Some (s', b') \<Rightarrow> framed s' b' ms)"

fun received :: "client_step list \<Rightarrow> (int \<times> server_message) list" where
  "received [] = []"
| "received (Receive now m # xs) = (now, m) # received xs"
| "received (Flush # xs) = received xs"

definition at_once :: "client_env \<Rightarrow> (int \<times> server_message) list \<Rightarrow> client \<Rightarrow> client" where
  "at_once E ms c = fold (\<lambda>(now, m) c. flush (handle_server_message E now m c)) ms c"

text \<open>A list that ends in a streaming response.\<close>

definition open_list :: "shown_message list \<Rightarrow> bool" where
  "open_list ms \<longleftrightarrow> ms \<noteq> [] \<and> shown_assistant (cm_body (last ms)) \<and> cm_streaming (last ms)"

definition closed_list :: "shown_message list \<Rightarrow> bool" where
  "closed_list ms \<longleftrightarrow> ms = [] \<or> \<not> cm_streaming (last ms)"

text \<open>States that agree but for the content of the message being streamed.\<close>

definition agree :: "bool \<Rightarrow> chat_state \<Rightarrow> chat_state \<Rightarrow> bool" where
  "agree b x y \<longleftrightarrow>
     (if b then open_list (cs_messages x) \<and> open_list (cs_messages y) \<and>
        butlast (cs_messages x) = butlast (cs_messages y) \<and>
        x\<lparr>cs_messages := []\<rparr> = y\<lparr>cs_messages := []\<rparr>
      else x = y \<and> closed_list (cs_messages x))"

lemma reduce_simps [simp]:
  "reduce r [] s = s"
  "reduce r (as @ bs) s = reduce r bs (reduce r as s)"
  "reduce r (a # as) s = reduce r as (chat_reducer r a s)"
  by (simp_all add: reduce_def)

fun silent :: "chat_action \<Rightarrow> bool" where
  "silent (Set_Connection c) = True" | "silent (Set_Status x) = True" | "silent (Set_Sessions xs) = True"
| "silent (Set_Current i) = True" | "silent (Set_Thinking t) = True" | "silent (Set_Tools ts) = True"
| "silent (Set_Costs cs) = True" | "silent (Add_Cost c) = True" | "silent (Set_Prompt ss raw) = True"
| "silent (Set_Error e) = True" | "silent (Set_Capability c d) = True" | "silent (Set_Mode m) = True"
| "silent End_Of_Agent = True" | "silent (Start_Tool i n) = True" | "silent (Update_Tool i n p) = True"
| "silent (Error_Received m) = True"
| "silent _ = False"

lemma silent_messages: "silent a \<Longrightarrow> cs_messages (chat_reducer r a x) = cs_messages x"
  by (cases a) simp_all

lemma silent_agree:
  assumes "silent a" "agree b x y" shows "agree b (chat_reducer r a x) (chat_reducer r' a y)"
proof (cases b)
  case True
  then have eq: "x\<lparr>cs_messages := []\<rparr> = y\<lparr>cs_messages := []\<rparr>" using assms(2) by (simp add: agree_def)
  obtain ms z where "x = z\<lparr>cs_messages := ms\<rparr>" by (metis chat_state.surjective chat_state.update_convs(1))
  have "(chat_reducer r a x)\<lparr>cs_messages := []\<rparr> = (chat_reducer r' a y)\<lparr>cs_messages := []\<rparr>"
    using assms(1) eq by (cases x; cases y; cases a) simp_all
  then show ?thesis using assms True by (simp add: agree_def silent_messages)
next
  case False
  then show ?thesis using assms by (cases a) (auto simp: agree_def)
qed


text \<open>What the handler dispatches does not depend on the state or the queue.\<close>

lemma handler_shift:
  "handle_server_message E now m (c\<lparr>cl_chat := x, cl_queue := q\<rparr>) =
     (handle_server_message E now m (c\<lparr>cl_queue := []\<rparr>))
       \<lparr>cl_chat := x, cl_queue := q @ cl_queue (handle_server_message E now m (c\<lparr>cl_queue := []\<rparr>))\<rparr>"
proof (cases m)
  case (Agent_Event s e)
  then show ?thesis by (cases e) (simp_all add: dispatch_def)
next
  case (Tool_Event s e)
  then show ?thesis by (cases e) (simp_all add: dispatch_def)
qed (auto simp: dispatch_def send_client_def handle_custom_event_def Let_def)

definition dispatched :: "client_env \<Rightarrow> int \<Rightarrow> server_message \<Rightarrow> client \<Rightarrow> chat_action list" where
  "dispatched E now m c = cl_queue (handle_server_message E now m (c\<lparr>cl_queue := []\<rparr>))"

definition good :: "message option \<Rightarrow> bool" where
  "good r \<longleftrightarrow> (case r of None \<Rightarrow> True | Some m \<Rightarrow> is_assistant m)"

text \<open>
  The kinds of reactions: the actions dispatched, whether a message is streamed before and
  after, the reference before and after, and what happens to the finished messages.
\<close>

inductive reacts :: "bool \<Rightarrow> message option \<Rightarrow> chat_action list \<Rightarrow>
    (shown_message list \<Rightarrow> shown_message list) \<Rightarrow> bool \<Rightarrow> message option \<Rightarrow> bool" where
  Silent: "list_all silent as \<Longrightarrow> \<forall>xs. f xs = xs \<Longrightarrow> reacts b r as f b r"
| Starts: "is_assistant m \<Longrightarrow> \<forall>xs. f xs = xs \<Longrightarrow>
    reacts False r [Set_Status Agent_Streaming, Add_Message (streaming_message m)] f True (Some m)"
| Updates: "is_assistant m \<Longrightarrow> \<forall>xs. f xs = xs \<Longrightarrow>
    reacts True r [Update_Streaming Show_Streamed tc] f True (Some m)"
| Ends: "\<forall>xs. f xs = xs @ [plain_message (Live m)] \<Longrightarrow>
    reacts True r [Update_Streaming (Show_Final m) None] f False None"
| Adds: "\<forall>xs. f xs = xs @ [x] \<Longrightarrow> \<not> cm_streaming x \<Longrightarrow> reacts False r [Add_Message x] f False r"
| Tool_Adds: "\<forall>xs. f xs = xs @ [x] \<Longrightarrow> \<not> cm_streaming x \<Longrightarrow> reacts False r [End_Tool i n out e x] f False r"
| Syncs: "\<forall>xs. f xs = ms \<Longrightarrow> \<not> list_ex cm_streaming ms \<Longrightarrow> reacts b r [Sync ms i st mode] f False None"
| Joins: "\<forall>xs. f xs = ms \<Longrightarrow> \<not> list_ex cm_streaming ms \<Longrightarrow> is_assistant m \<Longrightarrow>
    reacts b r [Sync (ms @ [streaming_message m]) i st mode] f True (Some m)"

fun show_message :: "int \<Rightarrow> id option \<Rightarrow> server_message \<Rightarrow> shown_message list \<Rightarrow> shown_message list" where
  "show_message now s (Session_Sync t row ms streamed cursor more_pages mode) xs =
     map (plain_message \<circ> Stored) ms"
| "show_message now s (Agent_Event t (Message_End m)) xs =
     (if s = Some t \<and> is_assistant m then xs @ [plain_message (Live m)] else xs)"
| "show_message now s (Tool_Event t (Tool_End i n out e)) xs =
     (if s = Some t then xs @ [plain_message (Live (result_message i n out e now))] else xs)"
| "show_message now s (Command_Result t n txt dat e) xs =
     (if s = Some t then xs @ [plain_message (Command_Reply (command_text txt dat) n e now)] else xs)"
| "show_message now s (Inject_Message t m) xs =
     (if s = Some t then xs @ [plain_message (Live m)] else xs)"
| "show_message now s m xs = xs"

lemma plain_not_streaming [simp]: "\<not> cm_streaming (plain_message b)"
  by (simp add: plain_message_def)

lemma handler_reacts:
  assumes "stream_after (cl_session c) b m = Some (s', b')"
  shows "cl_session (handle_server_message E now m c) = s' \<and>
    reacts b (cl_stream c) (dispatched E now m c) (show_message now (cl_session c) m) b'
      (cl_stream (handle_server_message E now m c))"
proof -
  note defs = dispatched_def dispatch_def send_client_def handle_custom_event_def Let_def
  show ?thesis
  proof (cases m)
    case (Agent_Event t e)
    show ?thesis
      by (cases e; insert assms Agent_Event)
        (auto simp: defs split: if_splits intro!: reacts.intros)
  next
    case (Tool_Event t e)
    show ?thesis
      by (cases e; insert assms Tool_Event)
        (auto simp: defs split: if_splits intro!: reacts.intros)
  next
    case (Session_Sync t row ms streamed cursor more_pages mode)
    show ?thesis
      using assms Session_Sync
      by (cases streamed) (auto simp: defs list_ex_iff split: if_splits intro!: reacts.intros)
  qed (use assms in \<open>auto simp: defs split: if_splits intro!: reacts.intros\<close>)
qed


lemma open_list_simps [simp]:
  "open_list (ms @ [streaming_message m]) = is_assistant m"
  "\<not> closed_list (ms @ [streaming_message m])"
  "closed_list (ms @ [x]) = (\<not> cm_streaming x)"
  "closed_list []"
  by (simp_all add: open_list_def closed_list_def streaming_message_def)

lemma closed_sync: "\<not> list_ex cm_streaming ms \<Longrightarrow> closed_list ms"
  by (cases ms rule: rev_cases) (auto simp: closed_list_def)

lemma open_listE:
  assumes "open_list ms"
  obtains xs x where "ms = xs @ [x]" "shown_assistant (cm_body x)" "cm_streaming x"
  using assms by (cases ms rule: rev_cases) (auto simp: open_list_def)

lemma apply_Show_Streamed:
  "good r \<Longrightarrow> open_list ms \<Longrightarrow> open_list (apply_updater r Show_Streamed ms) \<and>
     butlast (apply_updater r Show_Streamed ms) = butlast ms"
  by (cases r) (simp_all add: good_def open_list_def [of ms])

lemma attach_None [simp]: "attach_thinking None ms = ms"
  by (simp add: attach_thinking_def)

lemma attach_open:
  "open_list ms \<Longrightarrow> open_list (attach_thinking t ms) \<and> butlast (attach_thinking t ms) = butlast ms"
  by (auto simp: attach_thinking_def elim!: open_listE) (auto simp: open_list_def)

lemma silent_reduce: "list_all silent as \<Longrightarrow> agree b x y \<Longrightarrow> agree b (reduce r as x) (reduce r' as y)"
  by (induction as arbitrary: x y) (auto simp: silent_agree)

lemma silent_list: "list_all silent as \<Longrightarrow> cs_messages (reduce r as x) = cs_messages x"
  by (induction as arbitrary: x) (auto simp: silent_messages)

lemma agree_fields:
  assumes "agree True x y"
  shows "cs_connection x = cs_connection y" "cs_status x = cs_status y" "cs_sessions x = cs_sessions y"
    "cs_current x = cs_current y" "cs_thinking x = cs_thinking y" "cs_completed x = cs_completed y"
    "cs_tools x = cs_tools y" "cs_costs x = cs_costs y" "cs_prompt x = cs_prompt y"
    "cs_capabilities x = cs_capabilities y" "cs_mode x = cs_mode y" "cs_error x = cs_error y"
  using assms by (cases x; cases y; simp add: agree_def)+

lemma reacts_agree:
  assumes "reacts b r as f b' r'" "agree b x y" "good q" "good q'"
  shows "agree b' (reduce q as x) (reduce q' as y)"
  using assms
proof cases
  case (Updates m tc)
  obtain th old t where th: "change_thinking tc (cs_thinking x) (cs_completed x) = (th, old, t)"
    by (rule prod_cases3)
  then show ?thesis
    using Updates assms agree_fields [of x y] apply_Show_Streamed attach_open
    by (simp add: agree_def)
next
  case (Ends m)
  then show ?thesis
    using assms agree_fields [of x y]
    by (auto simp: agree_def elim!: open_listE intro!: chat_state.equality)
next
  case Silent
  then show ?thesis using assms silent_reduce by simp
next
  case Syncs
  then show ?thesis
    using assms agree_fields [of x y] by (cases b) (auto simp: agree_def closed_sync)
next
  case Joins
  then show ?thesis
    using assms agree_fields [of x y] by (cases b) (auto simp: agree_def)
qed (use assms in \<open>simp_all add: agree_def\<close>)

lemma reacts_good: "reacts b r as f b' r' \<Longrightarrow> good r \<Longrightarrow> good r'"
  by (erule reacts.cases) (simp_all add: good_def)

text \<open>The state does not depend on when the actions before were reduced.\<close>

lemma reacts_now:
  assumes "reacts b r as f b' r'" "agree b x y" "r' = r \<Longrightarrow> x = y"
  shows "reduce r' as x = reduce r' as y"
proof (cases "x = y")
  case False
  with assms(2) have b: "b" by (simp add: agree_def split: if_splits)
  have ne: "r' \<noteq> r" using False assms(3) by blast
  note eq = agree_fields [of x y]
  obtain xs u v where ms: "cs_messages x = xs @ [u]" "cs_messages y = xs @ [v]"
    "shown_assistant (cm_body u)" "shown_assistant (cm_body v)" "cm_streaming u" "cm_streaming v"
    using assms(2) b by (auto simp: agree_def elim!: open_listE)
  from assms(1) b ne show ?thesis
    using eq assms(2) ms by cases (auto intro!: chat_state.equality split: prod.splits)
qed simp

definition finished :: "bool \<Rightarrow> shown_message list \<Rightarrow> shown_message list" where
  "finished b ms = (if b then butlast ms else ms)"

lemma reacts_shows:
  assumes "reacts b r as f b' r'" "agree b x x" "good r"
  shows "finished b' (cs_messages (reduce r' as x)) = f (finished b (cs_messages x))"
  using assms
proof cases
  case (Updates m tc)
  obtain th old t where th: "change_thinking tc (cs_thinking x) (cs_completed x) = (th, old, t)"
    by (rule prod_cases3)
  have "good r'" by (rule reacts_good [OF assms(1,3)])
  then show ?thesis
    using Updates assms(2) th apply_Show_Streamed [of r' "cs_messages x"] attach_open
    by (simp add: finished_def agree_def)
qed (use assms in \<open>auto simp: finished_def agree_def silent_list elim!: open_listE\<close>)

section \<open>Runs of the client\<close>

definition same_refs :: "client \<Rightarrow> client \<Rightarrow> bool" where
  "same_refs c d \<longleftrightarrow> c\<lparr>cl_chat := cl_chat d, cl_queue := []\<rparr> = d"

definition delayed :: "bool \<Rightarrow> client \<Rightarrow> client \<Rightarrow> bool" where
  "delayed b c d \<longleftrightarrow> same_refs c d \<and> good (cl_stream c) \<and>
     cl_chat d = reduce (cl_stream c) (cl_queue c) (cl_chat c) \<and>
     (\<forall>q q'. good q \<longrightarrow> good q' \<longrightarrow>
        agree b (reduce q (cl_queue c) (cl_chat c)) (reduce q' (cl_queue c) (cl_chat c)))"

lemma same_refs_queue: "same_refs c d \<Longrightarrow> cl_queue d = []"
proof -
  assume "same_refs c d"
  then have "cl_queue d = cl_queue (c\<lparr>cl_chat := cl_chat d, cl_queue := []\<rparr>)"
    by (simp only: same_refs_def)
  then show ?thesis by simp
qed

lemma same_refs_flush: "same_refs c d \<Longrightarrow> same_refs (flush c) d"
  by (simp only: same_refs_def flush_def) simp

lemma delayed_flush:
  assumes "delayed b c d" shows "delayed b (flush c) d"
proof -
  let ?x = "reduce (cl_stream c) (cl_queue c) (cl_chat c)"
  have "good (cl_stream c)" using assms by (simp add: delayed_def)
  then have "agree b ?x ?x" using assms by (simp add: delayed_def)
  moreover have "cl_chat (flush c) = ?x" "cl_queue (flush c) = []" "cl_stream (flush c) = cl_stream c"
    by (simp_all add: flush_def)
  ultimately show ?thesis using assms same_refs_flush [of c d] by (simp add: delayed_def)
qed

lemma handler_queue:
  "cl_queue (handle_server_message E now m c) = cl_queue c @ dispatched E now m c"
  "cl_chat (handle_server_message E now m c) = cl_chat c"
  using handler_shift [where c = c and x = "cl_chat c" and q = "cl_queue c"] by (simp_all add: dispatched_def)

lemma handler_same_refs:
  assumes "same_refs c d" 
  shows "same_refs (handle_server_message E now m c) (flush (handle_server_message E now m d))"
    "dispatched E now m d = dispatched E now m c"
    "cl_stream (handle_server_message E now m d) = cl_stream (handle_server_message E now m c)"
proof -
  have d: "d = c\<lparr>cl_chat := cl_chat d, cl_queue := []\<rparr>" using assms by (simp add: same_refs_def)
  have 1: "handle_server_message E now m d =
      (handle_server_message E now m (c\<lparr>cl_queue := []\<rparr>))\<lparr>cl_chat := cl_chat d\<rparr>"
    using handler_shift [where c = c and x = "cl_chat d" and q = "[]"] d by simp
  have 2: "handle_server_message E now m c =
      (handle_server_message E now m (c\<lparr>cl_queue := []\<rparr>))\<lparr>cl_chat := cl_chat c,
         cl_queue := cl_queue c @ dispatched E now m c\<rparr>"
    using handler_shift [where c = c and x = "cl_chat c" and q = "cl_queue c"] by (simp add: dispatched_def)
  show "same_refs (handle_server_message E now m c) (flush (handle_server_message E now m d))"
    "cl_stream (handle_server_message E now m d) = cl_stream (handle_server_message E now m c)"
    unfolding 1 2 same_refs_def flush_def by simp_all
  show "dispatched E now m d = dispatched E now m c"
    using 1 d by (metis (no_types, lifting) client.select_convs(2) client.surjective client.update_convs(1)
        client.update_convs(2) dispatched_def)
qed


text \<open>One message: the delayed client follows the one that reduces at once.\<close>

lemma receive_step:
  assumes "delayed b c d" "stream_after (cl_session c) b m = Some (s', b')"
  shows "delayed b' (handle_server_message E now m c) (flush (handle_server_message E now m d)) \<and>
    cl_session (handle_server_message E now m c) = s' \<and>
    finished b' (cs_messages (cl_chat (flush (handle_server_message E now m d)))) =
      show_message now (cl_session c) m (finished b (cs_messages (cl_chat d)))"
proof -
  let ?c = "handle_server_message E now m c" and ?d = "handle_server_message E now m d"
  let ?as = "dispatched E now m c" and ?L = "\<lambda>q. reduce q (cl_queue c) (cl_chat c)"
  have refs: "same_refs c d" and good: "good (cl_stream c)" and chat: "cl_chat d = ?L (cl_stream c)"
    and agree: "\<And>q q'. good q \<Longrightarrow> good q' \<Longrightarrow> agree b (?L q) (?L q')"
    using assms(1) by (auto simp: delayed_def)
  note rx = handler_reacts [OF assms(2), of E now]
  have good': "good (cl_stream ?c)" using rx reacts_good good by blast
  have "cl_queue d = []" by (rule same_refs_queue [OF refs])
  then have d: "cl_chat (flush ?d) = reduce (cl_stream ?c) ?as (cl_chat d)"
    using handler_same_refs(2,3) [OF refs, of E now m] by (simp add: flush_def handler_queue)
  have now: "reduce (cl_stream ?c) ?as (?L (cl_stream ?c)) = reduce (cl_stream ?c) ?as (cl_chat d)"
    using rx agree [OF good' good] unfolding chat by (intro reacts_now) auto
  have "agree b' (reduce q ?as (?L q)) (reduce q' ?as (?L q'))" if "good q" "good q'" for q q'
    using reacts_agree [OF conjunct2 [OF rx] agree [OF that] that] .
  then have "delayed b' ?c (flush ?d)"
    using handler_same_refs(1) [OF refs] good' now by (simp add: delayed_def handler_queue d)
  moreover have "agree b (cl_chat d) (cl_chat d)" unfolding chat by (rule agree [OF good good])
  ultimately show ?thesis using rx reacts_shows good by (auto simp: d)
qed

fun show_all :: "id option \<Rightarrow> (int \<times> server_message) list \<Rightarrow> shown_message list \<Rightarrow> shown_message list" where
  "show_all s [] xs = xs"
| "show_all s ((now, m) # ms) xs =
     show_all (case m of Session_Sync t row ctx streamed cursor more_pages mode \<Rightarrow> Some t | _ \<Rightarrow> s) ms
       (show_message now s m xs)"

lemma stream_after_session:
  "stream_after s b m = Some (s', b') \<Longrightarrow>
     s' = (case m of Session_Sync t row ctx streamed cursor more_pages mode \<Rightarrow> Some t | _ \<Rightarrow> s)"
  by (cases "(s, b, m)" rule: stream_after.cases) (auto split: option.splits if_splits)

lemma steps_follow:
  assumes "delayed b c d" "framed (cl_session c) b (map snd (received steps)) = Some (s', b')"
  shows "delayed b' (fold (step_client E) steps c) (at_once E (received steps) d) \<and>
    finished b' (cs_messages (cl_chat (at_once E (received steps) d))) =
      show_all (cl_session c) (received steps) (finished b (cs_messages (cl_chat d)))"
  using assms
proof (induction steps arbitrary: b c d)
  case (Cons x xs)
  show ?case
  proof (cases x)
    case (Receive now m)
    then obtain s1 b1 where st: "stream_after (cl_session c) b m = Some (s1, b1)"
      "framed s1 b1 (map snd (received xs)) = Some (s', b')"
      using Cons.prems(2) by (auto split: option.splits)
    note step = receive_step [OF Cons.prems(1) st(1), of E now]
    then show ?thesis
      using Cons.IH [of b1 "handle_server_message E now m c" "flush (handle_server_message E now m d)"] st
        stream_after_session [OF st(1)] Receive
      by (simp add: at_once_def)
  next
    case Flush
    then show ?thesis using Cons.IH [OF delayed_flush [OF Cons.prems(1)]] Cons.prems(2)
      by (simp add: flush_def)
  qed
qed (simp_all add: at_once_def)

section \<open>What the client displays\<close>

definition at_rest :: "client \<Rightarrow> bool" where
  "at_rest c \<longleftrightarrow> cl_queue c = [] \<and> cl_stream c = None \<and> closed_list (cs_messages (cl_chat c))"

lemma at_rest_delayed: "at_rest c \<Longrightarrow> delayed False c c"
  by (simp add: at_rest_def delayed_def same_refs_def good_def agree_def)

lemma delayed_flush_chat: "delayed b c d \<Longrightarrow> cl_chat (flush c) = cl_chat d"
  by (simp add: delayed_def flush_def)

text \<open>C8: However late the reducer runs, the client ends up with the state it would have if every
  message were reduced at once. This holds for a client at rest (nothing queued, no response
  open) and for messages that come for its session in the order in which agents send them: a
  response is a start, updates and an end, and no tool result, command result or injected
  message of the session arrives in the middle of it (messages for other sessions may arrive
  at any time). The list is then the old list with the finished responses, tool results,
  command replies and injected messages of the watched session in the order of their arrival
  (a synchronisation replaces the list), and at most the message still being streamed after
  them. Without the order the claim fails, as \<open>reply_freezes_stream\<close> shows.\<close>

theorem client_shows_session:
  assumes "at_rest c" and "framed (cl_session c) False (map snd (received steps)) = Some (s, b)"
  shows "cl_chat (flush (fold (step_client E) steps c)) = cl_chat (at_once E (received steps) c) \<and>
    finished b (cs_messages (cl_chat (flush (fold (step_client E) steps c)))) =
      show_all (cl_session c) (received steps) (cs_messages (cl_chat c))"
proof -
  note run = steps_follow [OF at_rest_delayed [OF assms(1)] assms(2), of E]
  have "cl_chat (flush (fold (step_client E) steps c)) = cl_chat (at_once E (received steps) c)"
    by (rule delayed_flush_chat [OF conjunct1 [OF run]])
  then show ?thesis using run by (simp add: finished_def [of False])
qed

definition demo_reply :: "block list \<Rightarrow> message" where
  "demo_reply bs = Assistant_Message \<lparr>as_content = bs, as_api = ''a'', as_provider = ''p'', as_model = ''m'',
     as_usage = JNull, as_stop = Stop_Tool_Use, as_error = None, as_time = 0\<rparr>"

definition demo_client_env :: client_env where
  "demo_client_env = \<lparr>ce_request = None, ce_subscribed = \<lambda>_. False\<rparr>"

definition demo_client :: client where
  "demo_client =
     \<lparr>cl_chat = (initial_chat (Some ''s''))\<lparr>cs_messages := [user_text ''go'' 0]\<rparr>, cl_queue = [],
      cl_socket = Some 0, cl_open = True, cl_session = Some ''s'', cl_stream = None, cl_sent = [],
      cl_events = [], cl_notified = [], cl_switches = [], cl_last_pong = 0, cl_pong_due = False,
      cl_attempts = 0, cl_retry_in = None\<rparr>"

definition demo_outcome :: tool_outcome where
  "demo_outcome = \<lparr>to_content = [Text_Block ''ok''], to_details = JNull\<rparr>"

definition demo_steps :: "client_step list" where
  "demo_steps =
     [Receive 1 (Agent_Event ''s'' Agent_Start), Receive 1 (Agent_Event ''s'' (Message_Start (demo_reply []))),
      Receive 2 (Agent_Event ''s'' (Message_Update (demo_reply [Text_Block ''a'']) JNull)), Flush,
      Receive 3 (Agent_Event ''s'' (Message_Update (demo_reply [Text_Block ''ab'']) JNull)),
      Receive 4 (Agent_Event ''s'' (Message_End (demo_reply [Text_Block ''abc'']))),
      Receive 5 (Agent_Event ''other'' (Message_End (demo_reply [Text_Block ''no'']))),
      Receive 6 (Tool_Event ''s'' (Tool_End ''c'' ''t'' demo_outcome False))]"

theorem client_shows_session_witness:
  "cs_messages (cl_chat (flush (fold (step_client demo_client_env) demo_steps demo_client))) =
     [user_text ''go'' 0, plain_message (Live (demo_reply [Text_Block ''abc''])),
      plain_message (Live (result_message ''c'' ''t'' demo_outcome False 6))]"
proof -
  have rest: "at_rest demo_client"
    by (simp add: at_rest_def demo_client_def closed_list_def user_text_def)
  have frame: "framed (cl_session demo_client) False (map snd (received demo_steps)) = Some (Some ''s'', False)"
    by (simp add: demo_client_def demo_steps_def demo_reply_def)
  have "show_all (cl_session demo_client) (received demo_steps) (cs_messages (cl_chat demo_client)) =
     [user_text ''go'' 0, plain_message (Live (demo_reply [Text_Block ''abc''])),
      plain_message (Live (result_message ''c'' ''t'' demo_outcome False 6))]"
    by (simp add: demo_client_def demo_steps_def demo_reply_def)
  with conjunct2 [OF client_shows_session [OF rest frame, of demo_client_env]] show ?thesis by (simp add: finished_def)
qed

text \<open>A message of the watched session that arrives in the middle of a response.\<close>

lemma update_frozen:
  assumes "cl_session c = Some s" "cl_queue c = []" "cs_messages (cl_chat c) = xs @ [x]" "\<not> cm_streaming x"
  shows "\<exists>y. cs_messages (cl_chat (flush (handle_server_message E now (Agent_Event s (Message_Update m ev)) c))) =
      xs @ [y] \<and> cm_body y = cm_body x \<and> \<not> cm_streaming y"
  using assms by (cases "thinking_change_of ev") 
    (auto simp: flush_def dispatch_def attach_thinking_def split: prod.splits)

lemma updates_frozen:
  assumes "cl_session c = Some s" "cl_queue c = []" "cs_messages (cl_chat c) = xs @ [x]" "\<not> cm_streaming x"
  shows "\<exists>y. cs_messages (cl_chat (at_once E (map (\<lambda>(t, m, ev). (t, Agent_Event s (Message_Update m ev))) us) c)) =
      xs @ [y] \<and> cm_body y = cm_body x \<and> \<not> cm_streaming y \<and>
      cl_session (at_once E (map (\<lambda>(t, m, ev). (t, Agent_Event s (Message_Update m ev))) us) c) = Some s \<and>
      cl_queue (at_once E (map (\<lambda>(t, m, ev). (t, Agent_Event s (Message_Update m ev))) us) c) = []"
  using assms
proof (induction us arbitrary: c x)
  case (Cons u us)
  obtain t m ev where u: "u = (t, m, ev)" by (rule prod_cases3)
  let ?c = "flush (handle_server_message E t (Agent_Event s (Message_Update m ev)) c)"
  obtain y where y: "cs_messages (cl_chat ?c) = xs @ [y]" "cm_body y = cm_body x" "\<not> cm_streaming y"
    using update_frozen [OF Cons.prems] by blast
  have c: "cl_session ?c = Some s" "cl_queue ?c = []"
    using Cons.prems(1) by (simp_all add: flush_def dispatch_def)
  from Cons.IH [OF c y(1,3)] show ?case by (simp add: at_once_def u y(2) del: handle_server_message.simps)
qed (simp add: at_once_def)

text \<open>A command reply that arrives while a response is streamed freezes it: whatever updates
  follow, and when the response ends, the list keeps the response as it was shown when the reply
  came, still marked as streaming, and the final response is never shown.\<close>

theorem reply_freezes_stream:
  assumes "cl_session c = Some s" and "cl_queue c = []"
    and "cs_messages (cl_chat c) = xs @ [streaming_message m]"
  shows "map (\<lambda>x. (cm_body x, cm_streaming x)) (cs_messages (cl_chat (at_once E
      ((tb, Command_Result s n txt dat err) #
       map (\<lambda>(t, m, ev). (t, Agent_Event s (Message_Update m ev))) us @
       [(te, Agent_Event s (Message_End final))]) c))) =
    map (\<lambda>x. (cm_body x, cm_streaming x)) xs @
      [(Live m, True), (Command_Reply (command_text txt dat) n err tb, False)]"
proof -
  let ?c = "flush (handle_server_message E tb (Command_Result s n txt dat err) c)"
  have c: "cl_session ?c = Some s" "cl_queue ?c = []" "cs_messages (cl_chat ?c) =
      (xs @ [streaming_message m]) @ [plain_message (Command_Reply (command_text txt dat) n err tb)]"
    using assms by (simp_all add: flush_def dispatch_def)
  let ?us = "map (\<lambda>(t, m, ev). (t, Agent_Event s (Message_Update m ev))) us"
  obtain y where y: "cs_messages (cl_chat (at_once E ?us ?c)) = (xs @ [streaming_message m]) @ [y]"
    "cm_body y = Command_Reply (command_text txt dat) n err tb" "\<not> cm_streaming y"
    "cl_session (at_once E ?us ?c) = Some s" "cl_queue (at_once E ?us ?c) = []"
    using updates_frozen [OF c plain_not_streaming] by (auto simp: plain_message_def)
  have last: "cs_messages (cl_chat (flush (handle_server_message E te (Agent_Event s (Message_End final)) d))) =
      cs_messages (cl_chat d)"
    if "cl_session d = Some s" "cl_queue d = []" "cs_messages (cl_chat d) = zs @ [y]" for d zs
    using that y(3) by (simp add: flush_def dispatch_def)
  have "at_once E ((tb, Command_Result s n txt dat err) # ?us @ [(te, Agent_Event s (Message_End final))]) c =
      flush (handle_server_message E te (Agent_Event s (Message_End final)) (at_once E ?us ?c))"
    by (simp add: at_once_def del: handle_server_message.simps)
  then show ?thesis using last [OF y(4,5,1)] y(1,2,3)
    by (simp add: streaming_message_def del: handle_server_message.simps)
qed

theorem reply_freezes_stream_witness:
  "map (\<lambda>x. (cm_body x, cm_streaming x)) (cs_messages (cl_chat (at_once demo_client_env
      [(1, Command_Result ''s'' ''help'' (Some ''text'') None False),
       (2, Agent_Event ''s'' (Message_Update (demo_reply [Text_Block ''ab'']) JNull)),
       (3, Agent_Event ''s'' (Message_End (demo_reply [Text_Block ''abc''])))]
      (demo_client\<lparr>cl_chat := (initial_chat (Some ''s''))\<lparr>cs_messages :=
         [streaming_message (demo_reply [Text_Block ''a''])]\<rparr>\<rparr>)))) =
    [(Live (demo_reply [Text_Block ''a'']), True), (Command_Reply ''text'' ''help'' False 1, False)]"
proof -
  let ?c = "demo_client\<lparr>cl_chat := (initial_chat (Some ''s''))\<lparr>cs_messages :=
    [streaming_message (demo_reply [Text_Block ''a''])]\<rparr>\<rparr>"
  have "cl_session ?c = Some ''s''" "cl_queue ?c = []"
    "cs_messages (cl_chat ?c) = [] @ [streaming_message (demo_reply [Text_Block ''a''])]"
    by (simp_all add: demo_client_def)
  note at = reply_freezes_stream [OF this, of demo_client_env "1" "''help''" "Some ''text''" None False
      "[(2, demo_reply [Text_Block ''ab''], JNull)]" "3" "demo_reply [Text_Block ''abc'']"]
  from at
  show ?thesis by (simp add: command_text_def del: handle_server_message.simps)
qed

text \<open>The session of the properties is dropped before the first connection.\<close>

lemma mounted_without_session:
  assumes "url \<noteq> []"
  shows "cl_session (mount url s sock) = None \<and>
    cs_current (cl_chat (flush (on_open (mount url s sock)))) = None \<and>
    cl_sent (on_open (mount url s sock)) = []"
  using assms by (simp add: mount_def connect_def on_open_def flush_def dispatch_def initial_chat_def)

end
