(* ===== verification/Json_Parse.thy ===== *)
theory Json_Parse
  imports Json_Text
begin

text \<open>
  \<open>JSON.parse\<close> on the JSON values of the model: a recursive descent over the text, with fuel
  for the nesting. \<open>None\<close> is the syntax error it throws. As in \<open>Json_Text\<close> the text has code
  units below 256 and numbers are integers; a fraction, an exponent or an escape above
  \<open>\u00ff\<close> is outside the model. The main lemma is that parsing undoes printing.
\<close>

section \<open>Tokens\<close>

definition is_ws :: "char \<Rightarrow> bool" where
  "is_ws c \<longleftrightarrow> c = CHR 0x20 \<or> c = CHR 0x09 \<or> c = CHR 0x0A \<or> c = CHR 0x0D"

definition skip_ws :: "string \<Rightarrow> string" where
  "skip_ws s = dropWhile is_ws s"

definition is_dec :: "char \<Rightarrow> bool" where
  "is_dec c \<longleftrightarrow> 48 \<le> (of_char c :: nat) \<and> (of_char c :: nat) \<le> 57"

definition hex_value :: "char \<Rightarrow> nat option" where
  "hex_value c =
     (let n = of_char c
      in if 48 \<le> n \<and> n \<le> 57 then Some (n - 48)
         else if 65 \<le> n \<and> n \<le> 70 then Some (n - 55)
         else if 97 \<le> n \<and> n \<le> 102 then Some (n - 87)
         else None)"

definition unescape :: "char \<Rightarrow> char option" where
  "unescape c =
     (if c = CHR 0x22 \<or> c = CHR 0x5C \<or> c = CHR ''/'' then Some c
      else if c = CHR ''b'' then Some (CHR 0x08)
      else if c = CHR ''f'' then Some (CHR 0x0C)
      else if c = CHR ''n'' then Some (CHR 0x0A)
      else if c = CHR ''r'' then Some (CHR 0x0D)
      else if c = CHR ''t'' then Some (CHR 0x09)
      else None)"

text \<open>The four hexadecimal digits of \<open>\u\<close>, for code units below 256.\<close>

definition unicode_escape :: "string \<Rightarrow> (char \<times> string) option" where
  "unicode_escape s =
     (case s of
        a # b # c # d # rest \<Rightarrow>
          (case (hex_value a, hex_value b, hex_value c, hex_value d) of
             (Some 0, Some 0, Some h, Some l) \<Rightarrow> Some (char_of (16 * h + l), rest)
           | _ \<Rightarrow> None)
      | _ \<Rightarrow> None)"

text \<open>One character inside a string literal.\<close>

definition one_char :: "string \<Rightarrow> (char \<times> string) option" where
  "one_char s =
     (case s of
        [] \<Rightarrow> None
      | c # t \<Rightarrow>
          if c = CHR 0x5C
          then (case t of
                  [] \<Rightarrow> None
                | d # u \<Rightarrow>
                    if d = CHR ''u'' then unicode_escape u
                    else (case unescape d of None \<Rightarrow> None | Some x \<Rightarrow> Some (x, u)))
          else if of_char c < (32 :: nat) then None
          else Some (c, t))"

lemma one_char_shorter: "one_char s = Some (c, t) \<Longrightarrow> length t < length s"
  by (auto simp: one_char_def unicode_escape_def split: list.splits if_splits option.splits nat.splits)

text \<open>The characters up to the closing quote.\<close>

function string_chars :: "string \<Rightarrow> (string \<times> string) option" where
  "string_chars s =
     (case s of
        [] \<Rightarrow> None
      | c # t \<Rightarrow>
          if c = CHR 0x22 then Some ([], t)
          else (case one_char s of
                  None \<Rightarrow> None
                | Some (x, u) \<Rightarrow> map_option (\<lambda>(xs, v). (x # xs, v)) (string_chars u)))"
  by pat_completeness auto
termination by (relation "measure length") (auto dest: one_char_shorter)

declare string_chars.simps [simp del]

definition dec_value :: "string \<Rightarrow> nat" where
  "dec_value ds = foldl (\<lambda>n d. 10 * n + (of_char d - 48)) 0 ds"

definition number_token :: "string \<Rightarrow> (json \<times> string) option" where
  "number_token s =
     (let neg = (take 1 s = ''-''); t = (if neg then drop 1 s else s);
          ds = takeWhile is_dec t; rest = dropWhile is_dec t
      in if ds = [] \<or> hd ds = CHR ''0'' \<and> length ds > 1
           \<or> rest \<noteq> [] \<and> hd rest \<in> {CHR ''.'', CHR ''e'', CHR ''E''}
         then None
         else Some (JNum (if neg then - int (dec_value ds) else int (dec_value ds)), rest))"

section \<open>Values\<close>

text \<open>A member that occurs again replaces the value in place.\<close>

fun put_member :: "string \<times> json \<Rightarrow> (string \<times> json) list \<Rightarrow> (string \<times> json) list" where
  "put_member m [] = [m]"
| "put_member m (x # xs) = (if fst x = fst m then m # xs else x # put_member m xs)"

definition object_of :: "(string \<times> json) list \<Rightarrow> json" where
  "object_of ms = JObj (fold put_member ms [])"

fun parse_value :: "nat \<Rightarrow> string \<Rightarrow> (json \<times> string) option"
  and parse_elements :: "nat \<Rightarrow> string \<Rightarrow> (json list \<times> string) option"
  and parse_members :: "nat \<Rightarrow> string \<Rightarrow> ((string \<times> json) list \<times> string) option" where
  "parse_value 0 s = None"
| "parse_value (Suc n) s =
     (case skip_ws s of
        [] \<Rightarrow> None
      | c # t \<Rightarrow>
          if c = CHR 0x22 then map_option (\<lambda>(x, u). (JStr x, u)) (string_chars t)
          else if c = CHR ''['' then
            (case skip_ws t of
               [] \<Rightarrow> None
             | d # u \<Rightarrow>
                 if d = CHR '']'' then Some (JArr [], u)
                 else map_option (\<lambda>(xs, v). (JArr xs, v)) (parse_elements n (d # u)))
          else if c = CHR 0x7B then
            (case skip_ws t of
               [] \<Rightarrow> None
             | d # u \<Rightarrow>
                 if d = CHR 0x7D then Some (JObj [], u)
                 else map_option (\<lambda>(ms, v). (object_of ms, v)) (parse_members n (d # u)))
          else if take 4 (c # t) = ''true'' then Some (JBool True, drop 4 (c # t))
          else if take 5 (c # t) = ''false'' then Some (JBool False, drop 5 (c # t))
          else if take 4 (c # t) = ''null'' then Some (JNull, drop 4 (c # t))
          else number_token (c # t))"
| "parse_elements 0 s = None"
| "parse_elements (Suc n) s =
     (case parse_value n s of
        None \<Rightarrow> None
      | Some (x, t) \<Rightarrow>
          (case skip_ws t of
             [] \<Rightarrow> None
           | d # u \<Rightarrow>
               if d = CHR '','' then map_option (\<lambda>(xs, v). (x # xs, v)) (parse_elements n u)
               else if d = CHR '']'' then Some ([x], u)
               else None))"
| "parse_members 0 s = None"
| "parse_members (Suc n) s =
     (case skip_ws s of
        [] \<Rightarrow> None
      | c # t \<Rightarrow>
          if c \<noteq> CHR 0x22 then None
          else (case string_chars t of
                  None \<Rightarrow> None
                | Some (k, u) \<Rightarrow>
                    (case skip_ws u of
                       [] \<Rightarrow> None
                     | d # v \<Rightarrow>
                         if d \<noteq> CHR '':'' then None
                         else (case parse_value n v of
                                 None \<Rightarrow> None
                               | Some (x, w) \<Rightarrow>
                                   (case skip_ws w of
                                      [] \<Rightarrow> None
                                    | e # y \<Rightarrow>
                                        if e = CHR '','' then map_option (\<lambda>(ms, z). ((k, x) # ms, z)) (parse_members n y)
                                        else if e = CHR 0x7D then Some ([(k, x)], y)
                                        else None)))))"

definition parse_json :: "string \<Rightarrow> json option" where
  "parse_json s =
     (case parse_value (Suc (length s)) s of
        None \<Rightarrow> None
      | Some (j, rest) \<Rightarrow> if skip_ws rest = [] then Some j else None)"

section \<open>Parsing undoes printing\<close>

lemma of_char_char_of_small: "n < 256 \<Longrightarrow> (of_char (char_of n :: char) :: nat) = n"
  by simp

lemma skip_ws_Nil [simp]: "skip_ws [] = []"
  by (simp add: skip_ws_def)

lemma skip_ws_Cons [simp]: "\<not> is_ws c \<Longrightarrow> skip_ws (c # s) = c # s"
  by (simp add: skip_ws_def)

lemma of_char_bound: "(of_char (c :: char) :: nat) < 256"
  by (metis less_numeral_extra(1) of_char_mod_256 mod_less_divisor zero_less_numeral)

lemma hex_value_digit: "n < 16 \<Longrightarrow> hex_value (hex_digit n) = Some n"
  by (auto simp: hex_value_def hex_digit_def Let_def)

lemma hex_value_zero: "hex_value (CHR ''0'') = Some 0"
  by code_simp

lemma one_char_escape: "one_char (escape_char c @ r) = Some (c, r)"
proof -
  let ?n = "of_char c :: nat"
  have c: "char_of ?n = c" by simp
  consider "c \<in> {CHR 0x22, CHR 0x5C, CHR 0x08, CHR 0x0C, CHR 0x0A, CHR 0x0D, CHR 0x09}"
    | "c \<notin> {CHR 0x22, CHR 0x5C, CHR 0x08, CHR 0x0C, CHR 0x0A, CHR 0x0D, CHR 0x09}" "?n < 32"
    | "c \<notin> {CHR 0x22, CHR 0x5C, CHR 0x08, CHR 0x0C, CHR 0x0A, CHR 0x0D, CHR 0x09}" "\<not> ?n < 32"
    by blast
  then show ?thesis
  proof cases
    case 1
    then show ?thesis by (auto simp: one_char_def escape_char_def unescape_def)
  next
    case 2
    then have "escape_char c = [CHR 0x5C, CHR ''u'', CHR ''0'', CHR ''0'', hex_digit (?n div 16), hex_digit (?n mod 16)]"
      by (simp add: escape_char_def)
    moreover have "hex_value (hex_digit (?n div 16)) = Some (?n div 16)"
      "hex_value (hex_digit (?n mod 16)) = Some (?n mod 16)"
      using 2(2) by (simp_all add: hex_value_digit)
    ultimately show ?thesis by (simp add: one_char_def unicode_escape_def hex_value_zero c)
  next
    case 3
    then show ?thesis by (auto simp: one_char_def escape_char_def)
  qed
qed

lemma escape_char_head: "\<exists>d u. escape_char c = d # u \<and> d \<noteq> CHR 0x22"
  by (auto simp: escape_char_def)

lemma string_chars_escape:
  "string_chars (escape_char c @ r) = map_option (\<lambda>(xs, v). (c # xs, v)) (string_chars r)"
proof -
  obtain d u where d: "escape_char c = d # u" "d \<noteq> CHR 0x22" using escape_char_head by blast
  have "one_char ((d # u) @ r) = Some (c, r)" using one_char_escape [of c r] d(1) by simp
  then show ?thesis
    using d by (simp add: string_chars.simps [of "d # u @ r"])
qed

lemma string_chars_quoted: "string_chars (concat (map escape_char s) @ CHR 0x22 # r) = Some (s, r)"
proof (induction s)
  case Nil
  show ?case by (simp add: string_chars.simps)
next
  case (Cons c s)
  then show ?case by (simp add: string_chars_escape)
qed

lemma digit_dec: "is_dec (digit n)" "of_char (digit n) - 48 = n mod 10"
  by (simp_all add: is_dec_def digit_def)

lemma dec_value_snoc: "dec_value (ds @ [d]) = 10 * dec_value ds + (of_char d - 48)"
  by (simp add: dec_value_def)

lemma show_nat_dec: "list_all is_dec (show_nat n)"
  by (induction n rule: show_nat.induct) (subst show_nat.simps, auto simp: digit_dec)

lemma dec_value_show_nat: "dec_value (show_nat n) = n"
proof (induction n rule: show_nat.induct)
  case (1 n)
  show ?case
  proof (cases "n < 10")
    case True
    then show ?thesis by (simp add: show_nat.simps [of n] dec_value_def digit_dec)
  next
    case False
    then show ?thesis using 1 by (simp add: show_nat.simps [of n] dec_value_snoc digit_dec)
  qed
qed

lemma show_nat_head: "n > 0 \<Longrightarrow> hd (show_nat n) \<noteq> CHR ''0''"
proof (induction n rule: show_nat.induct)
  case (1 n)
  show ?case
  proof (cases "n < 10")
    case True
    have "digit n \<noteq> CHR ''0''"
    proof
      assume "digit n = CHR ''0''"
      then have "(of_char (digit n) :: nat) - 48 = of_char (CHR ''0'') - 48" by simp
      with True 1(2) show False by (simp add: digit_dec)
    qed
    with True show ?thesis by (simp add: show_nat.simps [of n])
  next
    case False
    then show ?thesis using 1 by (simp add: show_nat.simps [of n] hd_append)
  qed
qed

lemma show_nat_zero: "show_nat 0 = [CHR ''0'']"
  by code_simp

text \<open>What may follow a printed value inside a text.\<close>

definition ends_value :: "string \<Rightarrow> bool" where
  "ends_value r \<longleftrightarrow> r = [] \<or> hd r \<in> {CHR '','', CHR '']'', CHR 0x7D}"

lemma ends_value_simps [simp]:
  "ends_value []" "ends_value (CHR '','' # r)" "ends_value (CHR '']'' # r)" "ends_value (CHR 0x7D # r)"
  by (simp_all add: ends_value_def)

lemma digits_then_end:
  assumes "list_all is_dec ds" "ends_value r"
  shows "takeWhile is_dec (ds @ r) = ds" "dropWhile is_dec (ds @ r) = r"
proof -
  have "takeWhile is_dec r = [] \<and> dropWhile is_dec r = r"
    using assms(2) by (cases r) (auto simp: ends_value_def is_dec_def)
  then show "takeWhile is_dec (ds @ r) = ds" "dropWhile is_dec (ds @ r) = r"
    using assms(1) by (induction ds) auto
qed

lemma number_token_show:
  assumes "ends_value r"
  shows "number_token (show_int i @ r) = Some (JNum i, r)"
proof -
  have nat: "hd (show_nat n) = CHR ''0'' \<longrightarrow> length (show_nat n) \<le> 1" for n
    using show_nat_head [of n] by (cases "n = 0") (simp_all add: show_nat_zero)
  have r: "r = [] \<or> hd r \<notin> {CHR ''.'', CHR ''e'', CHR ''E''}"
    using assms by (auto simp: ends_value_def)
  note d = digits_then_end [OF show_nat_dec assms]
  show ?thesis
  proof (cases "i < 0")
    case True
    then show ?thesis using nat r by (simp add: number_token_def show_int_def d dec_value_show_nat Let_def linorder_not_less
          del: dropWhile_eq_Nil_conv takeWhile_eq_Nil_iff)
  next
    case False
    obtain c ds where c: "show_nat (nat i) = c # ds" by (cases "show_nat (nat i)") auto
    then have "is_dec c" using show_nat_dec [of "nat i"] by simp
    then have "c \<noteq> CHR ''-''" by (auto simp: is_dec_def)
    then have "take 1 (show_nat (nat i) @ r) \<noteq> ''-''" using c by simp
    with False show ?thesis using nat r
      by (simp add: number_token_def show_int_def d dec_value_show_nat Let_def linorder_not_less
          del: dropWhile_eq_Nil_conv takeWhile_eq_Nil_iff)
  qed
qed

fun distinct_keys :: "json \<Rightarrow> bool" where
  "distinct_keys (JArr xs) = list_all distinct_keys xs"
| "distinct_keys (JObj ms) \<longleftrightarrow> distinct (map fst ms) \<and> list_all (\<lambda>(k, v). distinct_keys v) ms"
| "distinct_keys _ = True"

lemma put_member_new: "fst m \<notin> fst ` set xs \<Longrightarrow> put_member m xs = xs @ [m]"
  by (induction xs) auto

lemma fold_put_member:
  "distinct (map fst (xs @ ms)) \<Longrightarrow> fold put_member ms xs = xs @ ms"
proof (induction ms arbitrary: xs)
  case (Cons m ms)
  then have "put_member m xs = xs @ [m]" by (intro put_member_new) auto
  with Cons show ?case by simp
qed simp

lemma object_of_distinct: "distinct (map fst ms) \<Longrightarrow> object_of ms = JObj ms"
  using fold_put_member [of "[]" ms] by (simp add: object_of_def)

lemma show_int_head: "\<exists>c ds. show_int i = c # ds \<and> (c = CHR ''-'' \<or> is_dec c)"
proof -
  obtain c ds where c: "show_nat (nat i) = c # ds" by (cases "show_nat (nat i)") auto
  moreover from c have "is_dec c" using show_nat_dec [of "nat i"] by simp
  ultimately show ?thesis by (auto simp: show_int_def)
qed

text \<open>The first character of a printed value, and the branch of the parser it selects.\<close>

lemma stringify_head:
  "\<exists>c t. stringify j = c # t \<and> \<not> is_ws c \<and> c \<noteq> CHR '']'' \<and> c \<noteq> CHR 0x7D"
proof (cases j)
  case (JNum i)
  obtain c ds where "show_int i = c # ds" "c = CHR ''-'' \<or> is_dec c" using show_int_head by blast
  then show ?thesis using JNum by (auto simp: is_ws_def is_dec_def)
qed (auto simp: is_ws_def quote_def)

lemma parse_number_value:
  assumes "ends_value r"
  shows "parse_value (Suc n) (show_int i @ r) = Some (JNum i, r)"
proof -
  obtain c ds where c: "show_int i = c # ds" "c = CHR ''-'' \<or> is_dec c" using show_int_head by blast
  then have "\<not> is_ws c" "c \<noteq> CHR 0x22" "c \<noteq> CHR ''['' " "c \<noteq> CHR 0x7B"
    "c \<noteq> CHR ''t''" "c \<noteq> CHR ''f''" "c \<noteq> CHR ''n''"
    by (auto simp: is_ws_def is_dec_def)
  then show ?thesis using number_token_show [OF assms, of i] c(1) by simp
qed

definition parses :: "json \<Rightarrow> bool" where
  "parses j \<longleftrightarrow> (\<forall>n r. length (stringify j) \<le> n \<longrightarrow> ends_value r \<longrightarrow>
     parse_value n (stringify j @ r) = Some (j, r))"

lemma parsesD:
  "parses j \<Longrightarrow> length (stringify j) \<le> n \<Longrightarrow> ends_value r \<Longrightarrow> parse_value n (stringify j @ r) = Some (j, r)"
  by (simp add: parses_def)

lemma parse_elements_printed:
  "xs \<noteq> [] \<Longrightarrow> list_all parses xs \<Longrightarrow> length (join '','' (map stringify xs)) < n \<Longrightarrow>
    parse_elements n (join '','' (map stringify xs) @ CHR '']'' # r) = Some (xs, r)"
proof (induction xs arbitrary: n)
  case (Cons x xs)
  then obtain m where n: "n = Suc m" by (cases n) auto
  show ?case
  proof (cases xs)
    case Nil
    then have "parse_value m (stringify x @ CHR '']'' # r) = Some (x, CHR '']'' # r)"
      using Cons.prems n by (intro parsesD) auto
    with Nil n show ?thesis by (simp add: is_ws_def)
  next
    case (Cons y ys)
    let ?rest = "join '','' (map stringify xs) @ CHR '']'' # r"
    have j: "join '','' (map stringify (x # xs)) = stringify x @ CHR '','' # join '','' (map stringify xs)"
      using Cons by simp
    have "parse_value m (stringify x @ CHR '','' # ?rest) = Some (x, CHR '','' # ?rest)"
      using Cons.prems n j by (intro parsesD) auto
    moreover have "parse_elements m ?rest = Some (xs, r)"
      using Cons.prems n j Cons by (intro Cons.IH) auto
    ultimately show ?thesis using n unfolding j by (simp add: is_ws_def)
  qed
qed simp

lemma quote_append: "quote k @ r = CHR 0x22 # concat (map escape_char k) @ CHR 0x22 # r"
  by (simp add: quote_def)

definition show_member :: "string \<times> json \<Rightarrow> string" where
  "show_member m = quote (fst m) @ CHR '':'' # stringify (snd m)"

lemma stringify_object:
  "stringify (JObj ms) = CHR 0x7B # join '','' (map show_member ms) @ [CHR 0x7D]"
proof -
  have "(\<lambda>(k, v). quote k @ CHR '':'' # stringify v) = show_member"
    by (auto simp: show_member_def fun_eq_iff)
  then show ?thesis by simp
qed

lemma parse_member:
  assumes "parses (snd m)" "length (show_member m) \<le> n" "ends_value r"
  obtains t where "show_member m @ r = CHR 0x22 # t" "string_chars t = Some (fst m, CHR '':'' # stringify (snd m) @ r)"
    "parse_value n (stringify (snd m) @ r) = Some (snd m, r)"
proof -
  have "parse_value n (stringify (snd m) @ r) = Some (snd m, r)"
    using assms by (intro parsesD) (auto simp: show_member_def)
  moreover have "show_member m @ r =
      CHR 0x22 # concat (map escape_char (fst m)) @ CHR 0x22 # CHR '':'' # stringify (snd m) @ r"
    by (simp add: show_member_def quote_append)
  ultimately show thesis using that string_chars_quoted by blast
qed

lemma parse_members_printed:
  "ms \<noteq> [] \<Longrightarrow> list_all (\<lambda>m. parses (snd m)) ms \<Longrightarrow> length (join '','' (map show_member ms)) < n \<Longrightarrow>
    parse_members n (join '','' (map show_member ms) @ CHR 0x7D # r) = Some (ms, r)"
proof (induction ms arbitrary: n)
  case (Cons m ms)
  then obtain l where n: "n = Suc l" by (cases n) auto
  show ?case
  proof (cases ms)
    case Nil
    obtain t where "show_member m @ CHR 0x7D # r = CHR 0x22 # t"
      "string_chars t = Some (fst m, CHR '':'' # stringify (snd m) @ CHR 0x7D # r)"
      "parse_value l (stringify (snd m) @ CHR 0x7D # r) = Some (snd m, CHR 0x7D # r)"
      by (rule parse_member [of m l "CHR 0x7D # r"]) (use Cons.prems n Nil in auto)
    with Nil n show ?thesis by (simp add: is_ws_def)
  next
    case (Cons y ys)
    let ?rest = "join '','' (map show_member ms) @ CHR 0x7D # r"
    have j: "join '','' (map show_member (m # ms)) = show_member m @ CHR '','' # join '','' (map show_member ms)"
      using Cons by simp
    obtain t where "show_member m @ CHR '','' # ?rest = CHR 0x22 # t"
      "string_chars t = Some (fst m, CHR '':'' # stringify (snd m) @ CHR '','' # ?rest)"
      "parse_value l (stringify (snd m) @ CHR '','' # ?rest) = Some (snd m, CHR '','' # ?rest)"
      by (rule parse_member [of m l "CHR '','' # ?rest"]) (use Cons.prems n j in auto)
    moreover have "parse_members l ?rest = Some (ms, r)"
      using Cons.prems n j Cons by (intro Cons.IH) auto
    ultimately show ?thesis using n unfolding j by (simp add: is_ws_def)
  qed
qed simp

lemma join_head: "xs \<noteq> [] \<Longrightarrow> hd xs = c # t \<Longrightarrow> \<exists>u. join sep xs = c # u"
  by (cases xs; cases "tl xs") auto

lemma distinct_keys_parses: "distinct_keys j \<Longrightarrow> parses j"
proof (induction j)
  case (JNum i)
  have "show_int i \<noteq> []" using show_int_head [of i] by auto
  then have "n \<noteq> 0" if "length (show_int i) \<le> n" for n using that by (cases n) auto
  then show ?case unfolding parses_def
    by (metis parse_number_value stringify.simps(3) not0_implies_Suc)
next
  case (JStr s)
  show ?case unfolding parses_def
  proof (intro allI impI)
    fix n r
    assume n: "length (stringify (JStr s)) \<le> n" "ends_value r"
    then obtain m where "n = Suc m" by (cases n) (auto simp: quote_def)
    then show "parse_value n (stringify (JStr s) @ r) = Some (JStr s, r)"
      by (simp add: quote_append string_chars_quoted is_ws_def)
  qed
next
  case (JArr xs)
  have all: "list_all parses xs" using JArr by (auto simp: list_all_iff)
  show ?case unfolding parses_def
  proof (intro allI impI)
    fix n r
    assume n: "length (stringify (JArr xs)) \<le> n" "ends_value r"
    then obtain m where m: "n = Suc m" by (cases n) auto
    show "parse_value n (stringify (JArr xs) @ r) = Some (JArr xs, r)"
    proof (cases xs)
      case Nil
      then show ?thesis using m by (simp add: is_ws_def)
    next
      case (Cons x ys)
      obtain c t where c: "stringify x = c # t" "\<not> is_ws c" "c \<noteq> CHR '']''"
        using stringify_head by blast
      obtain u where u: "join '','' (map stringify xs) = c # u"
        using join_head [of "map stringify xs" c t] Cons c(1) by auto
      have "parse_elements m ((c # u) @ CHR '']'' # r) = Some (xs, r)"
        unfolding u [symmetric] using n m all Cons by (intro parse_elements_printed) auto
      then show ?thesis using m c(2,3) by (simp add: u is_ws_def [of "CHR ''[''"])
    qed
  qed
next
  case (JObj ms)
  have all: "list_all (\<lambda>m. parses (snd m)) ms"
    using JObj by (fastforce simp: list_all_iff)
  have obj: "object_of ms = JObj ms" using JObj.prems by (intro object_of_distinct) simp
  show ?case unfolding parses_def stringify_object
  proof (intro allI impI)
    fix n r
    assume n: "length (CHR 0x7B # join '','' (map show_member ms) @ [CHR 0x7D]) \<le> n" "ends_value r"
    then obtain m where m: "n = Suc m" by (cases n) auto
    show "parse_value n ((CHR 0x7B # join '','' (map show_member ms) @ [CHR 0x7D]) @ r) = Some (JObj ms, r)"
    proof (cases ms)
      case Nil
      then show ?thesis using m by (simp add: is_ws_def)
    next
      case (Cons x ys)
      then have "hd (map show_member ms) = CHR 0x22 # tl (show_member x)"
        by (simp add: show_member_def quote_def)
      then obtain u where u: "join '','' (map show_member ms) = CHR 0x22 # u"
        using join_head [of "map show_member ms" "CHR 0x22"] Cons by blast
      have "parse_members m ((CHR 0x22 # u) @ CHR 0x7D # r) = Some (ms, r)"
        unfolding u [symmetric] using n m all Cons by (intro parse_members_printed) auto
      then show ?thesis using m by (simp add: u is_ws_def obj)
    qed
  qed
qed (auto simp: parses_def is_ws_def Suc_le_eq gr0_conv_Suc numeral_eq_Suc elim!: less_natE split: if_splits)

theorem parse_stringify: "distinct_keys j \<Longrightarrow> parse_json (stringify j) = Some j"
  using parsesD [OF distinct_keys_parses, of j "Suc (length (stringify j))" "[]"]
  by (simp add: parse_json_def)

end
