(* ===== verification/Session_Sync.thy ===== *)
theory Session_Sync
  imports Agent_Runtime Chat_Client Json_Parse
begin

text \<open>
  The runtime's side of a chat: connections and their hibernation
  (\<open>packages/runtime/agent-runtime/src/transport/cloudflare.ts\<close>), and in \<open>agent-runtime.ts\<close>
  the handlers of a connection that opens, sends a message or closes, the validation and rate
  limit of messages, the operations of every client message, slash commands, requests to the
  client and the handler of the agent's events, which logs messages and tells the clients.

  The lemmas show that clients and the log stay together: what a client displays after the
  events of a run is what the session's context holds.
\<close>

section \<open>Connections\<close>

record connection =
  cn_id :: id
  cn_session :: id
  cn_restored :: bool

text \<open>
  \<open>sv_connections\<close> is the transport's map, in the order of insertion, which is lost when the
  object hibernates; \<open>sv_sockets\<close> are the open sockets with the session in their attachment.
  \<open>sv_out\<close> is what was sent, \<open>sv_pending\<close> the requests to clients that wait for an answer
  and \<open>sv_answers\<close> the answers that were given.
\<close>

record 'cb chat_server =
  sv_runtime :: "'cb runtime"
  sv_connections :: "connection list"
  sv_sockets :: "(id \<times> id) list"
  sv_limits :: "id \<rightharpoonup> nat \<times> int"
  sv_out :: "(id \<times> server_message) list"
  sv_pending :: "id list"
  sv_answers :: "(id \<times> (string \<times> json) list) list"

type_synonym ('a, 'cb) served = "(runtime_error + 'a) \<times> 'cb chat_server"

definition in_runtime :: "('cb runtime \<Rightarrow> 'cb runtime) \<Rightarrow> 'cb chat_server \<Rightarrow> 'cb chat_server" where
  "in_runtime f sv = sv\<lparr>sv_runtime := f (sv_runtime sv)\<rparr>"

definition run_in :: "('cb runtime \<Rightarrow> ('a, 'cb) outcome) \<Rightarrow> 'cb chat_server \<Rightarrow> ('a, 'cb) served" where
  "run_in f sv = (case f (sv_runtime sv) of (r, rt) \<Rightarrow> (r, sv\<lparr>sv_runtime := rt\<rparr>))"

definition send_to :: "id \<Rightarrow> server_message \<Rightarrow> 'cb chat_server \<Rightarrow> 'cb chat_server" where
  "send_to k m sv = sv\<lparr>sv_out := sv_out sv @ [(k, m)]\<rparr>"

definition connections_for :: "id \<Rightarrow> 'cb chat_server \<Rightarrow> connection list" where
  "connections_for s sv = filter (\<lambda>c. cn_session c = s) (sv_connections sv)"

definition broadcast_to_session :: "id \<Rightarrow> server_message \<Rightarrow> 'cb chat_server \<Rightarrow> 'cb chat_server" where
  "broadcast_to_session s m sv =
     sv\<lparr>sv_out := sv_out sv @ map (\<lambda>c. (cn_id c, m)) (connections_for s sv)\<rparr>"

definition broadcast_all :: "server_message \<Rightarrow> 'cb chat_server \<Rightarrow> 'cb chat_server" where
  "broadcast_all m sv = sv\<lparr>sv_out := sv_out sv @ map (\<lambda>c. (cn_id c, m)) (sv_connections sv)\<rparr>"

definition set_session_id :: "id \<Rightarrow> id \<Rightarrow> 'cb chat_server \<Rightarrow> 'cb chat_server" where
  "set_session_id k s sv =
     sv\<lparr>sv_connections := map (\<lambda>c. if cn_id c = k then c\<lparr>cn_session := s\<rparr> else c) (sv_connections sv),
        sv_sockets := map (\<lambda>(i, t). if i = k then (i, s) else (i, t)) (sv_sockets sv)\<rparr>"

definition session_of :: "id \<Rightarrow> 'cb chat_server \<Rightarrow> id" where
  "session_of k sv = (case find (\<lambda>c. cn_id c = k) (sv_connections sv) of Some c \<Rightarrow> cn_session c | None \<Rightarrow> [])"

text \<open>The object leaves memory: everything but the stores and the sockets is gone.\<close>

definition hibernate :: "'cb chat_server \<Rightarrow> 'cb chat_server" where
  "hibernate sv = sv\<lparr>sv_connections := [], sv_limits := Map.empty, sv_pending := []\<rparr>"

section \<open>Environment\<close>

text \<open>
  A slash command: its description, whether it declares parameters, and its body, which gets
  the parsed argument. \<open>sy_stream\<close> is the message an agent is streaming, \<open>sy_abort\<close> aborts an
  agent, \<open>sy_connect\<close> runs the connect hooks, \<open>sy_action\<close> the action handlers of
  capabilities and of agent configuration (\<open>None\<close> when there is none), \<open>sy_cost\<close> the cost event
  of a response if it cost something; \<open>sy_time\<close> writes a timestamp.
\<close>

record 'cb command =
  cmd_description :: string
  cmd_parameters :: bool
  cmd_execute :: "json \<Rightarrow> id \<Rightarrow> 'cb runtime \<Rightarrow> (string + string option \<times> json option) \<times> 'cb runtime"

record 'cb sync_env =
  sy_env :: "'cb env"
  sy_stream :: "'cb runtime \<Rightarrow> id \<Rightarrow> message option"
  sy_abort :: "id \<Rightarrow> 'cb runtime \<Rightarrow> 'cb runtime"
  sy_connect :: "id \<Rightarrow> 'cb runtime \<Rightarrow> 'cb runtime"
  sy_modes :: "(id \<times> string) list"
  sy_mode_command :: "'cb command"
  sy_base_commands :: "id \<Rightarrow> (string \<times> 'cb command) list"
  sy_commands :: "id \<Rightarrow> (string \<times> 'cb command) list"
  sy_action :: "id \<Rightarrow> string \<Rightarrow> json \<Rightarrow> id \<Rightarrow> 'cb runtime \<Rightarrow> ((string + unit) \<times> 'cb runtime) option"
  sy_sections :: "(id \<times> string) option \<Rightarrow> prompt_section list"
  sy_prompt_text :: "prompt_section list \<Rightarrow> string"
  sy_cost :: "assistant \<Rightarrow> json option"
  sy_time :: "stamp \<Rightarrow> string"

section \<open>What is told to clients\<close>

definition active_mode_for_sync :: "'cb sync_env \<Rightarrow> 'cb runtime \<Rightarrow> id \<Rightarrow> (id \<times> string) option" where
  "active_mode_for_sync E rt s =
     (let i = read_active_mode_id (rt_store rt) s
      in if truthy i then find (\<lambda>(m, _). m = the i) (sy_modes E) else None)"

definition session_items :: "'cb runtime \<Rightarrow> session_item list" where
  "session_items rt =
     map (\<lambda>r. \<lparr>si_id = sid r, si_name = sname r, si_source = ssource r, si_updated = supdated r\<rparr>)
       (list_sessions (rt_store rt))"

definition send_session_list :: "id \<Rightarrow> 'cb chat_server \<Rightarrow> 'cb chat_server" where
  "send_session_list k sv = send_to k (Session_List (session_items (sv_runtime sv))) sv"

definition broadcast_session_list :: "'cb chat_server \<Rightarrow> 'cb chat_server" where
  "broadcast_session_list sv = broadcast_all (Session_List (session_items (sv_runtime sv))) sv"

definition clear_command :: "'cb command" where
  "clear_command = \<lparr>cmd_description = ''Clear conversation and start fresh'', cmd_parameters = False,
     cmd_execute = (\<lambda>a s rt. (Inr (Some ''Cleared'', None), rt))\<rparr>"

definition resolve_commands :: "'cb sync_env \<Rightarrow> id \<Rightarrow> (string \<times> 'cb command) list" where
  "resolve_commands E s =
     (let m0 = [(''clear'', clear_command)];
          m1 = (if sy_modes E \<noteq> [] then map_set ''mode'' (sy_mode_command E) m0 else m0);
          m2 = fold (\<lambda>(n, c) m. map_set n c m) (sy_base_commands E s) m1
      in fold (\<lambda>(n, c) m. if map_of m n = None then map_set n c m else m) (sy_commands E s) m2)"

text \<open>
  \<open>broadcastCoreState\<close>: for one session if the scope is the session and its id is not empty,
  otherwise for everybody.
\<close>

definition broadcast_core_state :: "id \<Rightarrow> json \<Rightarrow> id option \<Rightarrow> 'cb chat_server \<Rightarrow> 'cb chat_server" where
  "broadcast_core_state cap dat s sv =
     (let m = Capability_State cap (s \<noteq> None) ''sync'' dat (if truthy s then s else None)
      in if truthy s then broadcast_to_session (the s) m sv else broadcast_all m sv)"

definition send_command_list :: "'cb sync_env \<Rightarrow> id \<Rightarrow> id \<Rightarrow> 'cb chat_server \<Rightarrow> 'cb chat_server" where
  "send_command_list E k s sv =
     send_to k (Capability_State ''commands'' False ''sync''
       (JObj [(''commands'', JArr (map (\<lambda>(n, c). JObj [(''name'', JStr n),
          (''description'', JStr (cmd_description c))]) (resolve_commands E s)))]) None) sv"

definition broadcast_queue_state :: "'cb sync_env \<Rightarrow> id \<Rightarrow> 'cb chat_server \<Rightarrow> 'cb chat_server" where
  "broadcast_queue_state E s sv =
     broadcast_core_state ''queue''
       (JObj [(''items'', JArr (map (\<lambda>q. JObj [(''id'', JStr (qm_id q)), (''text'', JStr (qm_text q)),
          (''createdAt'', JStr (sy_time E (qm_created q)))]) (list_queue (rt_queue (sv_runtime sv)) s)))])
       (Some s) sv"

definition nullable :: "('a \<Rightarrow> json) \<Rightarrow> 'a option \<Rightarrow> json" where
  "nullable f x = (case x of None \<Rightarrow> JNull | Some y \<Rightarrow> f y)"

definition status_text :: "schedule_status \<Rightarrow> string" where
  "status_text s = (case s of Idle \<Rightarrow> ''idle'' | Running \<Rightarrow> ''running'' | Failed \<Rightarrow> ''failed'')"

definition broadcast_schedule_list :: "'cb sync_env \<Rightarrow> 'cb chat_server \<Rightarrow> 'cb chat_server" where
  "broadcast_schedule_list E sv =
     (let time = nullable (\<lambda>t. JStr (sy_time E t))
      in broadcast_core_state ''schedules''
        (JObj [(''schedules'', JArr (map (\<lambda>s. JObj [(''id'', JStr (sch_id s)), (''name'', JStr (sch_name s)),
           (''cron'', JStr (sch_cron s)), (''enabled'', JBool (sch_enabled s)),
           (''status'', JStr (status_text (sch_status s))), (''nextFireAt'', time (sch_next_fire s)),
           (''expiresAt'', time (sch_expires s)), (''lastFiredAt'', time (sch_last_fired s))])
           (list_schedules (sv_runtime sv))))]) None sv)"

text \<open>
  The synchronisation with the whole context, the cursor after the page of entries that
  follows \<open>after\<close>, and whether there are more pages.
\<close>

definition session_sync :: "'cb sync_env \<Rightarrow> id \<Rightarrow> session \<Rightarrow> message option \<Rightarrow> nat option \<Rightarrow> 'cb chat_server \<Rightarrow>
    server_message" where
  "session_sync E s row streamed after sv =
     (let rt = sv_runtime sv;
          (page, more_pages) = get_entries_paginated (rt_store rt) s None after
      in Session_Sync s row (or_else (build_context (rt_store rt) s (rt_now rt)) []) streamed
           (if page = [] then after else Some (eseq (last page))) more_pages (active_mode_for_sync E rt s))"

definition empty_sync :: "'cb sync_env \<Rightarrow> session \<Rightarrow> 'cb chat_server \<Rightarrow> server_message" where
  "empty_sync E row sv =
     Session_Sync (sid row) row [] None None False (active_mode_for_sync E (sv_runtime sv) (sid row))"

section \<open>Decoding client messages\<close>

text \<open>\<open>String(x)\<close>.\<close>

fun js_string :: "json \<Rightarrow> string" where
  "js_string JNull = ''null''"
| "js_string (JBool b) = (if b then ''true'' else ''false'')"
| "js_string (JNum i) = show_int i"
| "js_string (JStr t) = t"
| "js_string (JArr xs) = join '','' (map (\<lambda>x. if x = JNull then [] else js_string x) xs)"
| "js_string (JObj ms) = ''[object Object]''"

definition client_message_types :: "string list" where
  "client_message_types = [''prompt'', ''steer'', ''abort'', ''switch_session'', ''new_session'',
     ''delete_session'', ''command'', ''request_sync'', ''custom_response'',
     ''request_system_prompt'', ''capability_action'', ''ping'']"

definition has_string :: "json \<Rightarrow> string \<Rightarrow> bool" where
  "has_string j k = (case member j k of Some (JStr _) \<Rightarrow> True | _ \<Rightarrow> False)"

definition quoted :: "string \<Rightarrow> string" where
  "quoted t = [CHR 0x22] @ t @ [CHR 0x22]"

definition type_of :: "json \<Rightarrow> string" where
  "type_of j = (case member j ''type'' of None \<Rightarrow> ''undefined'' | Some t \<Rightarrow> js_string t)"

definition validate_client_message :: "json \<Rightarrow> string option" where
  "validate_client_message j =
     (if \<not> (case j of JObj _ \<Rightarrow> True | JArr _ \<Rightarrow> True | _ \<Rightarrow> False) then Some ''Message must be an object''
      else if \<not> has_string j ''type'' \<or> type_of j \<notin> set client_message_types
      then Some (''Unknown message type: '' @ type_of j)
      else if (type_of j = ''prompt'' \<or> type_of j = ''steer'') \<and> \<not> has_string j ''text''
      then Some (quoted (type_of j) @ '' message requires a '' @ quoted ''text'' @ '' string field'')
      else if type_of j = ''switch_session'' \<and> \<not> has_string j ''sessionId''
      then Some (quoted ''switch_session'' @ '' message requires a '' @ quoted ''sessionId'' @ '' string field'')
      else if type_of j = ''capability_action'' \<and>
        \<not> (has_string j ''capabilityId'' \<and> has_string j ''action'' \<and> has_string j ''sessionId'')
      then Some (quoted ''capability_action'' @ '' message requires '' @ quoted ''capabilityId'' @ '', '' @
        quoted ''action'' @ '', and '' @ quoted ''sessionId'' @ '' string fields'')
      else None)"

text \<open>Fields that are not validated and missing read as the empty string, which names no session.\<close>

definition field :: "json \<Rightarrow> string \<Rightarrow> string" where
  "field j k = (case member j k of Some (JStr t) \<Rightarrow> t | _ \<Rightarrow> [])"

definition string_field :: "json \<Rightarrow> string \<Rightarrow> string option" where
  "string_field j k = (case member j k of Some (JStr t) \<Rightarrow> Some t | _ \<Rightarrow> None)"

definition client_message_of :: "json \<Rightarrow> client_message" where
  "client_message_of j =
     (let t = type_of j; s = field j ''sessionId''
      in if t = ''prompt'' then Prompt_Request s (field j ''text'')
         else if t = ''steer'' then Steer_Request s (field j ''text'')
         else if t = ''abort'' then Abort_Request s
         else if t = ''switch_session'' then Switch_Request s
         else if t = ''new_session'' then New_Request (string_field j ''name'')
         else if t = ''delete_session'' then Delete_Request s
         else if t = ''command'' then Command_Request s (field j ''name'') (string_field j ''args'')
         else if t = ''request_sync''
         then Sync_Request s (case member j ''afterSeq'' of Some (JNum n) \<Rightarrow> Some (nat n) | _ \<Rightarrow> None)
         else if t = ''custom_response''
         then Custom_Response s (field j ''requestId'')
           (case member j ''data'' of Some (JObj ms) \<Rightarrow> ms | _ \<Rightarrow> [])
         else if t = ''request_system_prompt'' then Inspect_Request s
         else if t = ''capability_action''
         then Action_Request (field j ''capabilityId'') (field j ''action'') (or_else (member j ''data'') JNull) s
         else Ping)"

section \<open>Client messages\<close>

definition error_string :: "'cb sync_env \<Rightarrow> runtime_error \<Rightarrow> string" where
  "error_string E e = error_text (env_message (sy_env E)) e"

definition create_for :: "'cb sync_env \<Rightarrow> string option \<Rightarrow> 'cb runtime \<Rightarrow> (session, 'cb) outcome" where
  "create_for E name rt =
     (case create_session (rt_store rt) (env_new_id (sy_env E) rt) (rt_now rt) name None None of
        (r, d) \<Rightarrow> (map_sum Store_Failure id r, rt\<lparr>rt_store := d\<rparr>))"

text \<open>\<open>handleTransportOpen\<close>.\<close>

definition first_session :: "'cb sync_env \<Rightarrow> 'cb runtime \<Rightarrow> (id, 'cb) outcome" where
  "first_session E rt =
     (case list_sessions (rt_store rt) of
        r # rs \<Rightarrow> (Inr (sid r), rt)
      | [] \<Rightarrow> (case create_for E None rt of (r, rt1) \<Rightarrow> (map_sum id sid r, rt1)))"

definition handle_open :: "'cb sync_env \<Rightarrow> id \<Rightarrow> 'cb chat_server \<Rightarrow> (unit, 'cb) served" where
  "handle_open E k sv =
     (case run_in (first_session E) sv of
        (Inl e, sv1) \<Rightarrow> (Inl e, sv1)
      | (Inr s, sv1) \<Rightarrow>
          (let sv2 = set_session_id k s sv1;
               sv3 = (case get_session (rt_store (sv_runtime sv2)) s of
                        None \<Rightarrow> sv2
                      | Some row \<Rightarrow> send_to k (session_sync E s row (sy_stream E (sv_runtime sv2) s) None sv2) sv2)
           in (Inr (), in_runtime (sy_connect E s) (broadcast_queue_state E s (broadcast_schedule_list E
                (send_command_list E k s (send_session_list k sv3)))))))"

definition handle_upgrade :: "'cb sync_env \<Rightarrow> id \<Rightarrow> 'cb chat_server \<Rightarrow> (unit, 'cb) served" where
  "handle_upgrade E k sv =
     handle_open E k (sv\<lparr>sv_connections := sv_connections sv @ [\<lparr>cn_id = k, cn_session = [], cn_restored = False\<rparr>],
       sv_sockets := sv_sockets sv @ [(k, [])]\<rparr>)"

definition handle_clear :: "'cb sync_env \<Rightarrow> id \<Rightarrow> id \<Rightarrow> 'cb chat_server \<Rightarrow> (unit, 'cb) served" where
  "handle_clear E k s sv =
     (case run_in (create_for E None) (in_runtime (sy_abort E s) sv) of
        (Inl e, sv1) \<Rightarrow> (Inl e, sv1)
      | (Inr row, sv1) \<Rightarrow>
          (let sv2 = set_session_id k (sid row) sv1;
               sv3 = send_command_list E k (sid row) (send_to k (empty_sync E row sv2) sv2);
               sv4 = (if length (list_sessions (rt_store (sv_runtime sv3))) > 1
                      then in_runtime (\<lambda>rt. rt\<lparr>rt_store := delete_session (rt_store rt) s\<rparr>) sv3 else sv3)
           in (Inr (), broadcast_session_list sv4)))"

text \<open>\<open>JSON.parse\<close> with the text itself when it fails, and the member \<open>_raw\<close> of an object.\<close>

definition command_argument :: "bool \<Rightarrow> string option \<Rightarrow> json" where
  "command_argument declared raw =
     (let parsed = (if declared \<and> truthy raw
                    then Some (case parse_json (the raw) of Some j \<Rightarrow> j | None \<Rightarrow> JStr (the raw)) else None)
      in case parsed of
           None \<Rightarrow> JObj [(''_raw'', JStr (or_else raw []))]
         | Some JNull \<Rightarrow> JObj [(''_raw'', JStr (or_else raw []))]
         | Some (JObj ms) \<Rightarrow> JObj (map_set ''_raw'' (JStr (or_else raw [])) ms)
         | Some j \<Rightarrow> j)"

definition handle_command :: "'cb sync_env \<Rightarrow> id \<Rightarrow> id \<Rightarrow> string \<Rightarrow> string option \<Rightarrow> 'cb chat_server \<Rightarrow>
    (unit, 'cb) served" where
  "handle_command E k s name raw sv =
     (if name = ''clear'' then handle_clear E k s sv
      else (Inr (), case map_of (resolve_commands E s) name of
          None \<Rightarrow> send_to k (Error_Message Command_Not_Found (''Unknown command: /'' @ name)) sv
        | Some c \<Rightarrow>
            (case cmd_execute c (command_argument (cmd_parameters c) raw) s (sv_runtime sv) of
               (Inl e, rt) \<Rightarrow> send_to k (Command_Result s name (Some e) None True) (sv\<lparr>sv_runtime := rt\<rparr>)
             | (Inr (t, dat), rt) \<Rightarrow> send_to k (Command_Result s name t dat False) (sv\<lparr>sv_runtime := rt\<rparr>))))"

definition move_viewer :: "'cb sync_env \<Rightarrow> session \<Rightarrow> server_message \<Rightarrow> id \<Rightarrow> 'cb chat_server \<Rightarrow> 'cb chat_server" where
  "move_viewer E target m k sv = send_command_list E k (sid target) (send_to k m (set_session_id k (sid target) sv))"

definition handle_delete :: "'cb sync_env \<Rightarrow> id \<Rightarrow> 'cb chat_server \<Rightarrow> 'cb chat_server" where
  "handle_delete E s sv =
     (if length (list_sessions (rt_store (sv_runtime sv))) \<le> 1 then sv
      else
        let viewers = connections_for s sv;
            sv1 = in_runtime (\<lambda>rt. rt\<lparr>rt_queue := delete_all_queued (rt_queue rt) s,
                    rt_store := delete_session (rt_store rt) s\<rparr>) (in_runtime (sy_abort E s) sv);
            sv2 = (case list_sessions (rt_store (sv_runtime sv1)) of
                     [] \<Rightarrow> sv1
                   | target # rs \<Rightarrow> fold (\<lambda>c. move_viewer E target
                       (session_sync E (sid target) target None None sv1) (cn_id c)) viewers sv1)
        in broadcast_session_list sv2)"

definition handle_switch :: "'cb sync_env \<Rightarrow> id \<Rightarrow> id \<Rightarrow> 'cb chat_server \<Rightarrow> 'cb chat_server" where
  "handle_switch E k s sv =
     (let sv1 = set_session_id k s sv;
          sv2 = (case get_session (rt_store (sv_runtime sv1)) s of
                   None \<Rightarrow> sv1
                 | Some row \<Rightarrow> send_command_list E k s (send_to k
                     (session_sync E s row (sy_stream E (sv_runtime sv1) s) None sv1) sv1))
      in broadcast_queue_state E s (in_runtime (sy_connect E s) sv2))"

definition handle_new :: "'cb sync_env \<Rightarrow> id \<Rightarrow> string option \<Rightarrow> 'cb chat_server \<Rightarrow> (unit, 'cb) served" where
  "handle_new E k name sv =
     (case run_in (create_for E name) sv of
        (Inl e, sv1) \<Rightarrow> (Inl e, sv1)
      | (Inr row, sv1) \<Rightarrow>
          (let sv2 = set_session_id k (sid row) sv1
           in (Inr (), in_runtime (sy_connect E (sid row)) (broadcast_session_list
                (send_command_list E k (sid row) (send_to k (empty_sync E row sv2) sv2))))))"

definition handle_sync_request :: "'cb sync_env \<Rightarrow> id \<Rightarrow> id \<Rightarrow> nat option \<Rightarrow> 'cb chat_server \<Rightarrow> 'cb chat_server" where
  "handle_sync_request E k s after sv =
     (case get_session (rt_store (sv_runtime sv)) s of
        None \<Rightarrow> send_to k (Error_Message Session_Missing (''Session not found: '' @ s)) sv
      | Some row \<Rightarrow> send_to k (session_sync E s row (sy_stream E (sv_runtime sv) s) after sv) sv)"

definition answer_request :: "id \<Rightarrow> (string \<times> json) list \<Rightarrow> 'cb chat_server \<Rightarrow> 'cb chat_server" where
  "answer_request i dat sv =
     (if i \<in> set (sv_pending sv)
      then sv\<lparr>sv_pending := filter (\<lambda>j. j \<noteq> i) (sv_pending sv), sv_answers := sv_answers sv @ [(i, dat)]\<rparr>
      else sv)"

text \<open>\<open>requestFromClient\<close> and its timeout.\<close>

definition request_from_client :: "id \<Rightarrow> string \<Rightarrow> (string \<times> json) list \<Rightarrow> id \<Rightarrow> 'cb chat_server \<Rightarrow> 'cb chat_server" where
  "request_from_client s name dat i sv =
     broadcast_to_session s (Custom_Event s name (map_set ''_requestId'' (JStr i) dat))
       (sv\<lparr>sv_pending := sv_pending sv @ [i]\<rparr>)"

definition request_timeout :: "id \<Rightarrow> 'cb chat_server \<Rightarrow> 'cb chat_server" where
  "request_timeout i sv = sv\<lparr>sv_pending := filter (\<lambda>j. j \<noteq> i) (sv_pending sv)\<rparr>"

text \<open>
  The action of a client: the handlers of capabilities first, then the schedules and the queue
  of the runtime. What a queue action does to the table is in \<open>handle_queue_action\<close>; the new
  queue is announced unless the text became a prompt.
\<close>

definition queue_action_of :: "string \<Rightarrow> json \<Rightarrow> queue_action option" where
  "queue_action_of action dat =
     (if action = ''message'' then Some (Queue_Message (field dat ''text''))
      else if action = ''delete'' then Some (Queue_Delete (field dat ''queueId''))
      else if action = ''steer'' then Some (Queue_Steer (field dat ''queueId'')) else None)"

fun announces_queue :: "'cb sync_env \<Rightarrow> 'cb runtime \<Rightarrow> id \<Rightarrow> queue_action \<Rightarrow> bool" where
  "announces_queue E rt s (Queue_Message t) = env_streaming (sy_env E) rt s"
| "announces_queue E rt s (Queue_Delete i) = True"
| "announces_queue E rt s (Queue_Steer i) = (get_queued (rt_queue rt) i \<noteq> None)"

definition toggle_update :: schedule_update where
  "toggle_update = \<lparr>upd_name = None, upd_cron = None, upd_enabled = None, upd_prompt = None, upd_prefix = None,
     upd_timezone = None, upd_next_fire = None, upd_last_fired = None, upd_status = None,
     upd_error = None, upd_retention = None\<rparr>"

definition handle_action :: "'cb sync_env \<Rightarrow> id \<Rightarrow> string \<Rightarrow> json \<Rightarrow> id \<Rightarrow> 'cb chat_server \<Rightarrow> (unit, 'cb) served" where
  "handle_action E cap action dat s sv =
     (case sy_action E cap action dat s (sv_runtime sv) of
        Some r \<Rightarrow> (map_sum Thrown id (fst r), sv\<lparr>sv_runtime := snd r\<rparr>)
      | None \<Rightarrow>
          if cap = ''schedules'' then
            (if action = ''toggle''
             then (case run_in (\<lambda>rt. update_schedule (sy_env E) rt (field dat ''scheduleId'')
                      (toggle_update\<lparr>upd_enabled := Some (member dat ''enabled'' = Some (JBool True))\<rparr>)) sv of
                     (r, sv1) \<Rightarrow> (map_sum id (\<lambda>_. ()) r, sv1))
             else (Inr (), sv))
          else if cap = ''queue'' then
            (case queue_action_of action dat of
               None \<Rightarrow> (Inr (), sv)
             | Some a \<Rightarrow>
                 (case run_in (\<lambda>rt. handle_queue_action (sy_env E) rt s a) sv of
                    (Inl e, sv1) \<Rightarrow> (Inl e, sv1)
                  | (Inr _, sv1) \<Rightarrow>
                      (Inr (), if announces_queue E (sv_runtime sv) s a then broadcast_queue_state E s sv1 else sv1)))
          else (Inr (), sv))"

fun handle_client_message :: "'cb sync_env \<Rightarrow> id \<Rightarrow> client_message \<Rightarrow> 'cb chat_server \<Rightarrow> (unit, 'cb) served" where
  "handle_client_message E k (Prompt_Request s t) sv = run_in (\<lambda>rt. handle_prompt (sy_env E) rt s t) sv"
| "handle_client_message E k (Steer_Request s t) sv = run_in (\<lambda>rt. handle_steer (sy_env E) rt s t) sv"
| "handle_client_message E k (Abort_Request s) sv = (Inr (), in_runtime (sy_abort E s) sv)"
| "handle_client_message E k (Switch_Request s) sv = (Inr (), handle_switch E k s sv)"
| "handle_client_message E k (New_Request name) sv = handle_new E k name sv"
| "handle_client_message E k (Delete_Request s) sv = (Inr (), handle_delete E s sv)"
| "handle_client_message E k (Command_Request s n raw) sv = handle_command E k s n raw sv"
| "handle_client_message E k (Sync_Request s after) sv = (Inr (), handle_sync_request E k s after sv)"
| "handle_client_message E k (Custom_Response s i dat) sv = (Inr (), answer_request i dat sv)"
| "handle_client_message E k (Inspect_Request s) sv =
     (Inr (), let ss = sy_sections E (active_mode_for_sync E (sv_runtime sv) s)
              in send_to k (System_Prompt ss (sy_prompt_text E ss)) sv)"
| "handle_client_message E k (Action_Request cap action dat s) sv = handle_action E cap action dat s sv"
| "handle_client_message E k Ping sv = (Inr (), send_to k Pong sv)"

section \<open>Messages of a connection\<close>

definition rate_limit_max :: nat where "rate_limit_max = 30"

definition rate_limit_window_ms :: int where "rate_limit_window_ms = 10000"

definition connection_allowed :: "int \<Rightarrow> id \<Rightarrow> (id \<rightharpoonup> nat \<times> int) \<Rightarrow> bool \<times> (id \<rightharpoonup> nat \<times> int)" where
  "connection_allowed now k limits =
     (let (count, start) = (case limits k of
            None \<Rightarrow> (0, now)
          | Some (n, t) \<Rightarrow> if now - t > rate_limit_window_ms then (0, now) else (n, t))
      in (Suc count \<le> rate_limit_max, limits(k \<mapsto> (Suc count, start))))"

fun unlimited :: "client_message \<Rightarrow> bool" where
  "unlimited Ping = True"
| "unlimited (Sync_Request s a) = True"
| "unlimited _ = False"

fun speaks :: "client_message \<Rightarrow> bool" where
  "speaks (Prompt_Request s t) = True"
| "speaks (Steer_Request s t) = True"
| "speaks _ = False"

definition recovery_sync :: "'cb sync_env \<Rightarrow> id \<Rightarrow> 'cb chat_server \<Rightarrow> 'cb chat_server" where
  "recovery_sync E k sv =
     (let s = session_of k sv
      in case get_session (rt_store (sv_runtime sv)) s of
           None \<Rightarrow> sv
         | Some row \<Rightarrow> send_command_list E k s (send_to k (session_sync E s row None None sv) sv))"

text \<open>\<open>handleTransportMessage\<close>; \<open>recovered\<close> tells whether the connection was just restored.\<close>

definition decoded :: "string \<Rightarrow> string + client_message" where
  "decoded text =
     (case parse_json text of
        None \<Rightarrow> Inl ''Invalid message format''
      | Some j \<Rightarrow> (case validate_client_message j of Some e \<Rightarrow> Inl e | None \<Rightarrow> Inr (client_message_of j)))"

definition limited :: "id \<Rightarrow> client_message \<Rightarrow> 'cb chat_server \<Rightarrow> bool \<times> 'cb chat_server" where
  "limited k m sv =
     (if unlimited m then (False, sv)
      else case connection_allowed (rt_now (sv_runtime sv)) k (sv_limits sv) of
             (ok, limits) \<Rightarrow> (\<not> ok, sv\<lparr>sv_limits := limits\<rparr>))"

definition handle_text :: "'cb sync_env \<Rightarrow> id \<Rightarrow> bool \<Rightarrow> string \<Rightarrow> 'cb chat_server \<Rightarrow> 'cb chat_server" where
  "handle_text E k recovered text sv =
     (let sv0 = (if recovered then in_runtime (sy_connect E (session_of k sv)) sv else sv)
      in case decoded text of
           Inl e \<Rightarrow> send_to k (Error_Message Parse_Error e) sv0
         | Inr m \<Rightarrow>
             (case limited k m sv0 of
                (True, sv1) \<Rightarrow> send_to k (Error_Message Too_Many_Messages ''Too many messages - slow down'') sv1
              | (False, sv1) \<Rightarrow>
                  (case handle_client_message E k m
                      (if recovered \<and> \<not> speaks m then recovery_sync E k sv1 else sv1) of
                     (Inl e, sv2) \<Rightarrow> send_to k (Error_Message Internal_Error (error_string E e)) sv2
                   | (Inr _, sv2) \<Rightarrow> sv2)))"

text \<open>A message on a socket; after hibernation the connection is rebuilt from the attachment.\<close>

definition socket_message :: "'cb sync_env \<Rightarrow> id \<Rightarrow> string \<Rightarrow> 'cb chat_server \<Rightarrow> 'cb chat_server" where
  "socket_message E k text sv =
     (if k \<in> cn_id ` set (sv_connections sv) then handle_text E k False text sv
      else case map_of (sv_sockets sv) k of
             Some s \<Rightarrow>
               if s \<noteq> [] \<and> k \<noteq> []
               then handle_text E k True text
                      (sv\<lparr>sv_connections := sv_connections sv @ [\<lparr>cn_id = k, cn_session = s, cn_restored = False\<rparr>]\<rparr>)
               else sv
           | None \<Rightarrow> sv)"

definition socket_close :: "id \<Rightarrow> 'cb chat_server \<Rightarrow> 'cb chat_server" where
  "socket_close k sv =
     (let sv1 = sv\<lparr>sv_sockets := filter (\<lambda>(i, _). i \<noteq> k) (sv_sockets sv)\<rparr>
      in if k \<in> cn_id ` set (sv_connections sv)
         then sv1\<lparr>sv_connections := filter (\<lambda>c. cn_id c \<noteq> k) (sv_connections sv1),
                  sv_limits := (sv_limits sv1)(k := None)\<rparr>
         else sv1)"

section \<open>Events of the agent\<close>

text \<open>Blocks as the JSON they are stored and sent as.\<close>

fun block_json :: "block \<Rightarrow> json" where
  "block_json (Text_Block t) = text_block t"
| "block_json (Tool_Call_Block c) = JObj [(''type'', JStr ''toolCall''), (''id'', JStr (tc_id c)),
     (''name'', JStr (tc_name c)), (''arguments'', tc_args c)]"
| "block_json (Other_Block j) = j"

definition blocks_json :: "block list \<Rightarrow> json" where
  "blocks_json bs = JArr (map block_json bs)"

fun is_tool_event :: "event \<Rightarrow> bool" where
  "is_tool_event (Tool_Start i n a) = True"
| "is_tool_event (Tool_Update i n a p) = True"
| "is_tool_event (Tool_End i n r e) = True"
| "is_tool_event _ = False"

definition event_message :: "id \<Rightarrow> event \<Rightarrow> server_message" where
  "event_message s e = (if is_tool_event e then Tool_Event s e else Agent_Event s e)"

fun logged_entry :: "int \<Rightarrow> event \<Rightarrow> entry_data option" where
  "logged_entry now (Message_End (Assistant_Message a)) =
     Some (Message \<lparr>md_role = Assistant, md_content = blocks_json (as_content a), md_tool_call_id = None,
       md_tool_name = None, md_is_error = None, md_timestamp = Some now, md_metadata = None\<rparr>)"
| "logged_entry now (Tool_End i n r e) =
     Some (Message \<lparr>md_role = Tool_Result, md_content = blocks_json (to_content r), md_tool_call_id = Some i,
       md_tool_name = Some n, md_is_error = Some e, md_timestamp = Some now, md_metadata = None\<rparr>)"
| "logged_entry now _ = None"

definition append_in :: "'cb sync_env \<Rightarrow> id \<Rightarrow> entry_data \<Rightarrow> 'cb chat_server \<Rightarrow> (entry, 'cb) served" where
  "append_in E s dat sv =
     run_in (\<lambda>rt. case append_entry (rt_store rt) s dat (env_new_id (sy_env E) rt) (rt_now rt) of
        (r, d) \<Rightarrow> (map_sum Store_Failure id r, rt\<lparr>rt_store := d\<rparr>)) sv"

definition handle_cost :: "'cb sync_env \<Rightarrow> id \<Rightarrow> json \<Rightarrow> 'cb chat_server \<Rightarrow> (unit, 'cb) served" where
  "handle_cost E s cost sv =
     (case append_in E s (Custom ''cost'' cost) sv of
        (Inl e, sv1) \<Rightarrow> (Inl e, sv1)
      | (Inr _, sv1) \<Rightarrow> (Inr (), broadcast_to_session s (Cost_Event s cost) sv1))"

text \<open>
  \<open>handleAgentEvent\<close> without the hooks at the end of turns and runs. A message that cannot be
  logged throws.
\<close>

definition cost_of :: "'cb sync_env \<Rightarrow> event \<Rightarrow> json option" where
  "cost_of E e = (case e of Message_End (Assistant_Message a) \<Rightarrow> sy_cost E a | _ \<Rightarrow> None)"

definition handle_agent_event :: "'cb sync_env \<Rightarrow> id \<Rightarrow> event \<Rightarrow> 'cb chat_server \<Rightarrow> (unit, 'cb) served" where
  "handle_agent_event E s e sv =
     (let sv1 = broadcast_to_session s (event_message s e) sv
      in case logged_entry (rt_now (sv_runtime sv1)) e of
           None \<Rightarrow> (Inr (), sv1)
         | Some dat \<Rightarrow>
             (case append_in E s dat sv1 of
                (Inl x, sv2) \<Rightarrow> (Inl x, sv2)
              | (Inr _, sv2) \<Rightarrow>
                  (case cost_of E e of None \<Rightarrow> (Inr (), sv2) | Some cost \<Rightarrow> handle_cost E s cost sv2)))"

fun handle_agent_events :: "'cb sync_env \<Rightarrow> id \<Rightarrow> event list \<Rightarrow> 'cb chat_server \<Rightarrow> (unit, 'cb) served" where
  "handle_agent_events E s [] sv = (Inr (), sv)"
| "handle_agent_events E s (e # es) sv =
     (case handle_agent_event E s e sv of
        (Inl x, sv1) \<Rightarrow> (Inl x, sv1)
      | (Inr _, sv1) \<Rightarrow> handle_agent_events E s es sv1)"

section \<open>The log and the client\<close>

text \<open>What a message says, wherever it is kept: role, content and the tool call it answers.\<close>

type_synonym view = "role \<times> json \<times> string option \<times> string option \<times> bool option"

definition stored_view :: "agent_message \<Rightarrow> view" where
  "stored_view m = (am_role m, am_content m, am_tool_call_id m, am_tool_name m, am_is_error m)"

fun shown_view :: "shown_body \<Rightarrow> view" where
  "shown_view (Live (Assistant_Message a)) = (Assistant, blocks_json (as_content a), None, None, None)"
| "shown_view (Live (Result_Message r)) =
     (Tool_Result, blocks_json (tr_content r), Some (tr_call_id r), Some (tr_name r), Some (tr_is_error r))"
| "shown_view (Live (Other_Message j)) = (User, or_else (member j ''content'') JNull, None, None, None)"
| "shown_view (Stored m) = stored_view m"
| "shown_view (Command_Reply t n e ts) = (Assistant, JStr t, None, None, None)"

definition shown_views :: "shown_message list \<Rightarrow> view list" where
  "shown_views ms = map (\<lambda>m. shown_view (cm_body m)) ms"

definition stored_views :: "agent_message list \<Rightarrow> view list" where
  "stored_views ms = map stored_view ms"

fun event_view :: "event \<Rightarrow> view option" where
  "event_view (Message_End (Assistant_Message a)) = Some (Assistant, blocks_json (as_content a), None, None, None)"
| "event_view (Tool_End i n r e) = Some (Tool_Result, blocks_json (to_content r), Some i, Some n, Some e)"
| "event_view _ = None"

definition event_views :: "event list \<Rightarrow> view list" where
  "event_views es = List.map_filter event_view es"

lemma event_views_simps [simp]:
  "event_views [] = []"
  "event_views (e # es) = (case event_view e of None \<Rightarrow> [] | Some v \<Rightarrow> [v]) @ event_views es"
  by (simp_all add: event_views_def List.map_filter_def split: option.split)

definition wire :: "'cb sync_env \<Rightarrow> id \<Rightarrow> event list \<Rightarrow> server_message list" where
  "wire E s es =
     concat (map (\<lambda>e. event_message s e # (case cost_of E e of None \<Rightarrow> [] | Some j \<Rightarrow> [Cost_Event s j])) es)"

lemma stream_after_wire:
  "stream_after (Some s) b (event_message s e) = map_option (Pair (Some s)) (frame_step b e)"
  by (cases e) (auto simp: event_message_def)

lemma framed_wire: "framed (Some s) b (wire E s es) = map_option (Pair (Some s)) (frame b es)"
proof (induction es arbitrary: b)
  case (Cons e es)
  then show ?case
    by (cases "frame_step b e") (auto simp: wire_def stream_after_wire split: option.split)
qed (simp add: wire_def)

text \<open>Showing the messages of a list of events adds their views.\<close>

lemma show_event:
  "shown_views (show_message now (Some s) (event_message s e) xs) =
     shown_views xs @ (case event_view e of None \<Rightarrow> [] | Some v \<Rightarrow> [v])"
proof (cases e)
  case (Message_End m)
  then show ?thesis by (cases m) (auto simp: event_message_def plain_message_def shown_views_def)
qed (auto simp: event_message_def plain_message_def result_message_def shown_views_def)

lemma event_no_sync:
  "(case event_message s e of Session_Sync t row ctx streamed cursor more_pages mode \<Rightarrow> Some t | _ \<Rightarrow> Some s) = Some s"
  by (simp add: event_message_def)

lemma show_wire:
  "map snd ms = wire E s es \<Longrightarrow>
    shown_views (show_all (Some s) ms xs) = shown_views xs @ event_views es"
proof (induction es arbitrary: ms xs)
  case (Cons e es)
  obtain now rest where ms: "ms = (now, event_message s e) # rest"
    "map snd rest = (case cost_of E e of None \<Rightarrow> [] | Some j \<Rightarrow> [Cost_Event s j]) @ wire E s es"
    using Cons.prems by (cases ms) (auto simp: wire_def)
  show ?case
  proof (cases "cost_of E e")
    case None
    then show ?thesis
      using Cons.IH [of rest "show_message now (Some s) (event_message s e) xs"] ms show_event [of now s e xs]
      by (simp add: event_no_sync)
  next
    case (Some j)
    obtain now' rest' where "rest = (now', Cost_Event s j) # rest'" "map snd rest' = wire E s es"
      using ms(2) Some by (cases rest) auto
    then show ?thesis
      using Cons.IH [of rest' "show_message now (Some s) (event_message s e) xs"] ms show_event [of now s e xs]
      by (simp add: event_no_sync)
  qed
qed (simp add: wire_def)

text \<open>The messages for one connection.\<close>

definition inbox :: "id \<Rightarrow> 'cb chat_server \<Rightarrow> server_message list" where
  "inbox k sv = map snd (filter (\<lambda>x. fst x = k) (sv_out sv))"

definition watches :: "id \<Rightarrow> id \<Rightarrow> 'cb chat_server \<Rightarrow> bool" where
  "watches k s sv \<longleftrightarrow> (\<exists>c. filter (\<lambda>c. cn_id c = k) (sv_connections sv) = [c] \<and> cn_session c = s)"

lemma inbox_broadcast:
  assumes "watches k s sv" shows "inbox k (broadcast_to_session s m sv) = inbox k sv @ [m]"
proof -
  obtain c where c: "filter (\<lambda>c. cn_id c = k) (sv_connections sv) = [c]" "cn_session c = s"
    using assms by (auto simp: watches_def)
  have "filter (\<lambda>c. cn_id c = k) (filter (\<lambda>c. cn_session c = s) (sv_connections sv)) =
      filter (\<lambda>c. cn_session c = s) (filter (\<lambda>c. cn_id c = k) (sv_connections sv))"
    by (simp add: conj_commute)
  then have "filter (\<lambda>c. cn_id c = k) (connections_for s sv) = [c]" using c by (simp add: connections_for_def)
  then have "filter ((\<lambda>x. fst x = k) \<circ> (\<lambda>c. (cn_id c, m))) (connections_for s sv) = [c]" by (simp add: comp_def)
  then show ?thesis by (simp add: inbox_def broadcast_to_session_def filter_map)
qed


lemma watches_cong: "sv_connections sv' = sv_connections sv \<Longrightarrow> watches k s sv' = watches k s sv"
  by (simp add: watches_def)

section \<open>Logging the events\<close>

text \<open>New ids are those of no entry, and no compaction entry names them.\<close>

definition sync_ids_fresh :: "'cb sync_env \<Rightarrow> id set \<Rightarrow> bool" where
  "sync_ids_fresh E K \<longleftrightarrow> (\<forall>rt. env_new_id (sy_env E) rt \<noteq> [] \<and> env_new_id (sy_env E) rt \<notin> K \<and>
     env_new_id (sy_env E) rt \<notin> eid ` set (entries (rt_store rt)))"

lemma append_entry_fresh:
  assumes "get_session d s = Some r" "nid \<notin> eid ` set (entries d)"
  shows "\<exists>e d'. append_entry d s dat nid now = (Inr e, d')"
  using assms by (auto simp: append_entry_def insert_row_def Let_def split: option.split)

lemma has_session_iff: "get_session d s \<noteq> None \<longleftrightarrow> s \<in> set (map sid (sessions d))"
  by (auto simp: get_session_def get_row_def find_None_iff)

lemma append_keeps_sids:
  "append_entry d s dat i t = (Inr e, d') \<Longrightarrow> map sid (sessions d') = map sid (sessions d)"
  by (simp add: append_entry_row(6) update_rows_def)

definition log_ready :: "id \<Rightarrow> id set \<Rightarrow> 'cb chat_server \<Rightarrow> bool" where
  "log_ready s K sv \<longleftrightarrow> (let d = rt_store (sv_runtime sv)
     in wf_store d \<and> get_session d s \<noteq> None \<and> kept_ids (entries d) = K)"

definition context_views :: "id \<Rightarrow> int \<Rightarrow> 'cb chat_server \<Rightarrow> view list option" where
  "context_views s now sv = map_option stored_views (build_context (rt_store (sv_runtime sv)) s now)"

fun data_views :: "entry_data \<Rightarrow> view list" where
  "data_views (Message m) = [stored_view (to_agent_message 0 m)]"
| "data_views _ = []"

lemma stored_view_now: "stored_view (to_agent_message now m) = stored_view (to_agent_message 0 m)"
  by (simp add: stored_view_def to_agent_message_def Let_def)

text \<open>One appended entry: what changes and what does not.\<close>

definition adds_to_log :: "id \<Rightarrow> id set \<Rightarrow> int \<Rightarrow> view list \<Rightarrow> 'cb chat_server \<Rightarrow> 'cb chat_server \<Rightarrow> bool" where
  "adds_to_log s K now vs sv sv' \<longleftrightarrow>
     log_ready s K sv' \<and> sv_connections sv' = sv_connections sv \<and>
     context_views s now sv' = map_option (\<lambda>ws. ws @ vs) (context_views s now sv)"

lemma append_in_run:
  assumes "log_ready s K sv" "sync_ids_fresh E K" "\<nexists>sm k tb. dat = Compaction sm k tb"
  shows "\<exists>e sv'. append_in E s dat sv = (Inr e, sv') \<and> adds_to_log s K now (data_views dat) sv sv' \<and>
    sv_out sv' = sv_out sv"
proof -
  let ?rt = "sv_runtime sv"
  let ?nid = "env_new_id (sy_env E) ?rt"
  have ready: "wf_store (rt_store ?rt)" "get_session (rt_store ?rt) s \<noteq> None"
    "kept_ids (entries (rt_store ?rt)) = K" using assms(1) by (simp_all add: log_ready_def Let_def)
  have fresh: "?nid \<noteq> []" "?nid \<notin> K" "?nid \<notin> eid ` set (entries (rt_store ?rt))"
    using assms(2) by (auto simp: sync_ids_fresh_def)
  obtain e d where app: "append_entry (rt_store ?rt) s dat ?nid (rt_now ?rt) = (Inr e, d)"
    using append_entry_fresh [OF _ fresh(3)] ready(2) by blast
  have run: "append_in E s dat sv = (Inr e, sv\<lparr>sv_runtime := ?rt\<lparr>rt_store := d\<rparr>\<rparr>)"
    using app by (simp add: append_in_def run_in_def)
  note row = append_entry_row [OF app]
  have "get_session d s \<noteq> None"
    using ready(2) unfolding has_session_iff append_keeps_sids [OF app] .
  moreover have "wf_store d" by (rule wf_append [OF ready(1) fresh(1) app])
  moreover have "kept_ids (entries d) = K" using ready(3) row(4,5) assms(3) by (auto simp: kept_ids_def)
  moreover have "build_context d s now = map_option (\<lambda>ctx. ctx @
      (case dat of Message m \<Rightarrow> [to_agent_message now m] | _ \<Rightarrow> [])) (build_context (rt_store ?rt) s now)"
    using append_entry_context [OF ready(1) fresh(1) _ assms(3) app] fresh(2) ready(3) row(4)
    by (cases dat) (simp_all add: List.map_filter_def entry_message_def)
  then have "map_option stored_views (build_context d s now) =
      map_option (\<lambda>ws. ws @ data_views dat) (map_option stored_views (build_context (rt_store ?rt) s now))"
    by (cases dat; cases "build_context (rt_store ?rt) s now")
      (simp_all add: stored_views_def stored_view_now [of now])
  ultimately show ?thesis using run by (simp add: adds_to_log_def log_ready_def context_views_def)
qed

lemma adds_to_log_trans:
  "adds_to_log s K now vs sv sv1 \<Longrightarrow> adds_to_log s K now ws sv1 sv2 \<Longrightarrow>
    adds_to_log s K now (vs @ ws) sv sv2"
  by (cases "context_views s now sv") (simp_all add: adds_to_log_def)

lemma adds_to_log_out:
  "log_ready s K sv \<Longrightarrow> adds_to_log s K now [] sv (broadcast_to_session t m sv)"
  by (cases "build_context (rt_store (sv_runtime sv)) s now")
    (simp_all add: adds_to_log_def log_ready_def context_views_def broadcast_to_session_def)

lemma inbox_log:
  "adds_to_log s K now vs sv sv' \<Longrightarrow> watches k t sv' = watches k t sv"
  unfolding adds_to_log_def by (intro watches_cong) simp

lemma data_views_entry:
  "logged_entry now e = Some dat \<Longrightarrow> (\<nexists>sm k tb. dat = Compaction sm k tb) \<and>
     data_views dat = (case event_view e of None \<Rightarrow> [] | Some v \<Rightarrow> [v])"
  "logged_entry now e = None \<Longrightarrow> event_view e = None \<and> cost_of E e = None"
proof -
  have "logged_entry now e = Some dat \<Longrightarrow> (\<nexists>sm k tb. dat = Compaction sm k tb) \<and>
     data_views dat = (case event_view e of None \<Rightarrow> [] | Some v \<Rightarrow> [v])"
    by (cases "(now, e)" rule: logged_entry.cases)
      (auto simp: stored_view_def to_agent_message_def blocks_json_def)
  then show "logged_entry now e = Some dat \<Longrightarrow> (\<nexists>sm k tb. dat = Compaction sm k tb) \<and>
     data_views dat = (case event_view e of None \<Rightarrow> [] | Some v \<Rightarrow> [v])" .
  show "logged_entry now e = None \<Longrightarrow> event_view e = None \<and> cost_of E e = None"
    by (cases "(now, e)" rule: logged_entry.cases) (auto simp: cost_of_def)
qed

lemma agent_event_run:
  assumes "log_ready s K sv" "sync_ids_fresh E K" "watches k s sv"
  shows "\<exists>sv'. handle_agent_event E s e sv = (Inr (), sv') \<and> watches k s sv' \<and>
    adds_to_log s K now (event_views [e]) sv sv' \<and> inbox k sv' = inbox k sv @ wire E s [e]"
proof -
  let ?sv1 = "broadcast_to_session s (event_message s e) sv"
  have 1: "adds_to_log s K now [] sv ?sv1" by (rule adds_to_log_out [OF assms(1)])
  then have ready1: "log_ready s K ?sv1" by (simp add: adds_to_log_def)
  have w1: "watches k s ?sv1" using inbox_log [OF 1] assms(3) by simp
  have in1: "inbox k ?sv1 = inbox k sv @ [event_message s e]" by (rule inbox_broadcast [OF assms(3)])
  show ?thesis
  proof (cases "logged_entry (rt_now (sv_runtime ?sv1)) e")
    case None
    then show ?thesis
      using 1 w1 in1 data_views_entry(2) [OF None, of E]
      by (simp add: handle_agent_event_def Let_def wire_def)
  next
    case (Some dat)
    note dat = data_views_entry(1) [OF Some]
    obtain x sv2 where app: "append_in E s dat ?sv1 = (Inr x, sv2)"
      "adds_to_log s K now (data_views dat) ?sv1 sv2" "sv_out sv2 = sv_out ?sv1"
      using append_in_run [OF ready1 assms(2) conjunct1 [OF dat]] by blast
    have 2: "adds_to_log s K now (event_views [e]) sv sv2"
      using adds_to_log_trans [OF 1 app(2)] dat by simp
    have w2: "watches k s sv2" using inbox_log [OF 2] assms(3) by simp
    have in2: "inbox k sv2 = inbox k sv @ [event_message s e]" using in1 app(3) by (simp add: inbox_def)
    show ?thesis
    proof (cases "cost_of E e")
      case None
      then show ?thesis using Some app(1) 2 w2 in2 by (simp add: handle_agent_event_def Let_def wire_def)
    next
      case cost: (Some j)
      have ready2: "log_ready s K sv2" using 2 by (simp add: adds_to_log_def)
      obtain y sv3 where app3: "append_in E s (Custom ''cost'' j) sv2 = (Inr y, sv3)"
        "adds_to_log s K now [] sv2 sv3" "sv_out sv3 = sv_out sv2"
        using append_in_run [OF ready2 assms(2), of "Custom ''cost'' j" now] by auto
      let ?sv4 = "broadcast_to_session s (Cost_Event s j) sv3"
      have ready3: "log_ready s K sv3" using app3(2) by (simp add: adds_to_log_def)
      have 4: "adds_to_log s K now (event_views [e]) sv ?sv4"
        using adds_to_log_trans [OF adds_to_log_trans [OF 2 app3(2)] adds_to_log_out [OF ready3]] by simp
      have w3: "watches k s sv3" using inbox_log [OF app3(2)] w2 by simp
      have "inbox k ?sv4 = inbox k sv @ [event_message s e, Cost_Event s j]"
        using inbox_broadcast [OF w3, of "Cost_Event s j"] in2 app3(3) by (simp add: inbox_def)
      then show ?thesis
        using Some app(1) cost app3(1) 4 inbox_log [OF 4] assms(3)
        by (simp add: handle_agent_event_def Let_def handle_cost_def wire_def)
    qed
  qed
qed

lemma agent_events_run:
  assumes "log_ready s K sv" "sync_ids_fresh E K" "watches k s sv"
  shows "\<exists>sv'. handle_agent_events E s es sv = (Inr (), sv') \<and>
    adds_to_log s K now (event_views es) sv sv' \<and> inbox k sv' = inbox k sv @ wire E s es"
  using assms(1,3)
proof (induction es arbitrary: sv)
  case Nil
  then show ?case
    by (cases "context_views s now sv") (simp_all add: adds_to_log_def wire_def)
next
  case (Cons e es)
  obtain sv1 where 1: "handle_agent_event E s e sv = (Inr (), sv1)" "watches k s sv1"
    "adds_to_log s K now (event_views [e]) sv sv1" "inbox k sv1 = inbox k sv @ wire E s [e]"
    using agent_event_run [OF Cons.prems(1) assms(2) Cons.prems(2)] by blast
  have "log_ready s K sv1" using 1(3) by (simp add: adds_to_log_def)
  from Cons.IH [OF this 1(2)] obtain sv2 where
    2: "handle_agent_events E s es sv1 = (Inr (), sv2)" "adds_to_log s K now (event_views es) sv1 sv2"
    "inbox k sv2 = inbox k sv1 @ wire E s es" by blast
  show ?case
    using adds_to_log_trans [OF 1(3) 2(2)] 1 2 by (simp add: wire_def)
qed

text \<open>C3: Client and log agree after every run. When a run of the agent returns, its events can
  all be logged in the session, and a client that watched the session and agreed with its log
  before the run agrees with it afterwards, whenever its reducer runs: it displays exactly the
  messages that the session's context now holds, with the same roles, contents and tool calls.\<close>

theorem client_mirrors_log:
  assumes "proper_streams C" and "run_agent_loop C prompts ctx w = (Inr (), st)"
    and "reachable_store (rt_store (sv_runtime sv))" and "get_session (rt_store (sv_runtime sv)) s \<noteq> None"
    and "sync_ids_fresh E (kept_ids (entries (rt_store (sv_runtime sv))))" and "watches k s sv"
    and "at_rest c" and "cl_session c = Some s"
    and "context_views s now sv = Some (shown_views (cs_messages (cl_chat c)))"
  shows "\<exists>sv'. handle_agent_events E s (lp_trace st) sv = (Inr (), sv') \<and>
    (\<forall>steps. inbox k sv' = inbox k sv @ map snd (received steps) \<longrightarrow>
       context_views s now sv' =
         Some (shown_views (cs_messages (cl_chat (flush (fold (step_client F) steps c))))))"
proof -
  let ?K = "kept_ids (entries (rt_store (sv_runtime sv)))"
  have ready: "log_ready s ?K sv"
    using wf_reachable_store [OF assms(3)] assms(4) by (simp add: log_ready_def)
  obtain sv' where run: "handle_agent_events E s (lp_trace st) sv = (Inr (), sv')"
    "adds_to_log s ?K now (event_views (lp_trace st)) sv sv'" "inbox k sv' = inbox k sv @ wire E s (lp_trace st)"
    using agent_events_run [OF ready assms(5,6)] by blast
  have log: "context_views s now sv' =
      Some (shown_views (cs_messages (cl_chat c)) @ event_views (lp_trace st))"
    using run(2) assms(9) by (simp add: adds_to_log_def)
  have "shown_views (cs_messages (cl_chat (flush (fold (step_client F) steps c)))) =
      shown_views (cs_messages (cl_chat c)) @ event_views (lp_trace st)"
    if "inbox k sv' = inbox k sv @ map snd (received steps)" for steps
  proof -
    have ws: "map snd (received steps) = wire E s (lp_trace st)" using that run(3) by simp
    have "framed (cl_session c) False (map snd (received steps)) = Some (Some s, False)"
      using framed_wire [of s False E "lp_trace st"] run_framed [OF assms(1,2)] assms(8) ws by simp
    note shown = steps_follow [OF at_rest_delayed [OF assms(7)] this, of F]
    show ?thesis
      using delayed_flush_chat [OF conjunct1 [OF shown]] conjunct2 [OF shown]
        show_wire [OF ws, of "cs_messages (cl_chat c)"] assms(8) by (simp add: finished_def)
  qed
  then show ?thesis using run(1) log by auto
qed

definition demo_sync_env :: "bool sync_env" where
  "demo_sync_env = \<lparr>sy_env = demo_env, sy_stream = \<lambda>_ _. None, sy_abort = \<lambda>_ rt. rt, sy_connect = \<lambda>_ rt. rt,
     sy_modes = [], sy_mode_command = clear_command, sy_base_commands = \<lambda>_. [], sy_commands = \<lambda>_. [],
     sy_action = \<lambda>_ _ _ _ _. None, sy_sections = \<lambda>_. [], sy_prompt_text = \<lambda>_. [], sy_cost = \<lambda>_. Some JNull,
     sy_time = \<lambda>_. []\<rparr>"

definition demo_server :: "bool chat_server" where
  "demo_server = \<lparr>sv_runtime = \<lparr>rt_schedules = [], rt_callbacks = [], rt_timer_owners = Map.empty,
       rt_store = demo3, rt_queue = [], rt_wake = None, rt_now = 5000\<rparr>,
     sv_connections = [\<lparr>cn_id = ''k'', cn_session = ''s'', cn_restored = False\<rparr>],
     sv_sockets = [(''k'', ''s'')], sv_limits = Map.empty, sv_out = [], sv_pending = [], sv_answers = []\<rparr>"

definition demo_viewer :: client where
  "demo_viewer = demo_client\<lparr>cl_chat := (initial_chat (Some ''s''))\<lparr>cs_messages :=
     [user_text ''hi'' 0, user_text ''go'' 0]\<rparr>\<rparr>"

lemma demo_fresh: "sync_ids_fresh demo_sync_env {}"
proof -
  have "length (eid e) < length (env_new_id demo_env rt)" if "e \<in> set (entries (rt_store rt))" for e and rt :: "bool runtime"
    using member_le_sum_list [of "length (eid e)" "map (length \<circ> eid) (entries (rt_store rt))"] that
    by (force simp: demo_env_def)
  then have "env_new_id demo_env rt \<notin> eid ` set (entries (rt_store rt))" for rt :: "bool runtime" by fastforce
  moreover have "env_new_id demo_env rt \<noteq> []" for rt :: "bool runtime" by (simp add: demo_env_def)
  ultimately show ?thesis by (simp add: sync_ids_fresh_def demo_sync_env_def)
qed

lemma demo3_context: "build_context demo3 ''s'' now = Some [to_agent_message now (demo_msg ''hi''), to_agent_message now (demo_msg ''go'')]"
proof -
  have "context_of_path now (rev demo_path) = [to_agent_message now (demo_msg ''hi''), to_agent_message now (demo_msg ''go'')]"
    by (simp add: demo_path_def demo3_value context_of_path_def List.map_filter_def entry_message_def)
  then show ?thesis by (simp add: build_context_log_path demo_log_path)
qed

lemma demo_server_context: "context_views ''s'' 9 demo_server = Some (shown_views (cs_messages (cl_chat demo_viewer)))"
proof -
  have "rt_store (sv_runtime demo_server) = demo3" by (simp add: demo_server_def)
  then show ?thesis
    by (simp add: context_views_def demo3_context stored_views_def shown_views_def
      stored_view_def to_agent_message_def demo_msg_def demo_viewer_def user_text_def plain_message_def)
qed

theorem client_mirrors_log_witness:
  "\<exists>(st :: nat loop) sv'. handle_agent_events demo_sync_env ''s'' (lp_trace st) demo_server = (Inr (), sv') \<and>
    length (lp_new st) = 5 \<and>
    context_views ''s'' 9 sv' = Some (shown_views (cs_messages (cl_chat (flush
      (fold (step_client demo_client_env) (map (Receive 7) (inbox ''k'' sv')) demo_viewer)))))"
proof -
  obtain st where st: "run_agent_loop (scripted two_turns None) [hello] [] 0 = (Inr (), st)" "length (lp_new st) = 5"
    using two_turns_run by blast
  have store: "reachable_store (rt_store (sv_runtime demo_server))"
    using log_reachable_reachable [OF demo_reachable(4)] by (simp add: demo_server_def)
  have row: "get_session (rt_store (sv_runtime demo_server)) ''s'' \<noteq> None"
    by (simp add: demo_server_def demo3_value get_session_def get_row_def)
  have "kept_ids (entries (rt_store (sv_runtime demo_server))) = {}"
    by (simp add: demo_server_def demo3_value kept_ids_def)
  then have fresh: "sync_ids_fresh demo_sync_env (kept_ids (entries (rt_store (sv_runtime demo_server))))"
    using demo_fresh by simp
  have watch: "watches ''k'' ''s'' demo_server" by (simp add: watches_def demo_server_def)
  have rest: "at_rest demo_viewer"
    by (simp add: at_rest_def demo_viewer_def demo_client_def closed_list_def user_text_def)
  have at: "cl_session demo_viewer = Some ''s''" by (simp add: demo_viewer_def demo_client_def)
  obtain sv' where sv': "handle_agent_events demo_sync_env ''s'' (lp_trace st) demo_server = (Inr (), sv')"
    "\<And>steps. inbox ''k'' sv' = inbox ''k'' demo_server @ map snd (received steps) \<Longrightarrow>
       context_views ''s'' 9 sv' =
         Some (shown_views (cs_messages (cl_chat (flush (fold (step_client demo_client_env) steps demo_viewer)))))"
    using client_mirrors_log [OF scripted_proper st(1) store row fresh watch rest at demo_server_context,
        where F = demo_client_env] by blast
  have "map snd (received (map (Receive 7) ms)) = ms" for ms by (induction ms) simp_all
  moreover have inbox_start: "inbox ''k'' demo_server = []" by (simp add: inbox_def demo_server_def)
  ultimately have "inbox ''k'' sv' = inbox ''k'' demo_server @ map snd (received (map (Receive 7) (inbox ''k'' sv')))"
    by (simp only: inbox_start append_Nil)
  from sv'(2) [OF this] show ?thesis using sv'(1) st(2) by blast
qed

end
