(* ===== verification/Base64.thy ===== *)
theory Base64
  imports Main "HOL-Library.Word" "HOL-Library.Char_ord"
begin

text \<open>
  The platform's \<open>btoa\<close> and \<open>atob\<close> on binary strings (code units below 256), and the URL-safe
  variant without padding that capability tokens use. A binary string is split into groups
  of six bits; three bytes give four groups. \<open>atob\<close> is the forgiving decoder: it ignores
  ASCII white space, accepts missing padding, and fails (\<open>None\<close>) on any other character and
  on a length that leaves a remainder of one. The main lemma is that decoding undoes
  encoding.
\<close>

section \<open>Six-bit groups\<close>

definition alphabet :: string where
  "alphabet = ''ABCDEFGHIJKLMNOPQRSTUVWXYZabcdefghijklmnopqrstuvwxyz0123456789+/''"

definition group_char :: "nat \<Rightarrow> char" where
  "group_char n = alphabet ! n"

definition char_group :: "char \<Rightarrow> nat option" where
  "char_group c = (let i = length (takeWhile (\<lambda>x. x \<noteq> c) alphabet) in if i < 64 then Some i else None)"

fun groups :: "nat list \<Rightarrow> nat list" where
  "groups [] = []"
| "groups [a] = [a div 4, a mod 4 * 16]"
| "groups [a, b] = [a div 4, a mod 4 * 16 + b div 16, b mod 16 * 4]"
| "groups (a # b # c # s) = [a div 4, a mod 4 * 16 + b div 16, b mod 16 * 4 + c div 64, c mod 64] @ groups s"

fun ungroup :: "nat list \<Rightarrow> nat list" where
  "ungroup (a # b # c # d # s) = [a * 4 + b div 16, b mod 16 * 16 + c div 4, c mod 4 * 64 + d] @ ungroup s"
| "ungroup [a, b, c] = [a * 4 + b div 16, b mod 16 * 16 + c div 4]"
| "ungroup [a, b] = [a * 4 + b div 16]"
| "ungroup _ = []"

section \<open>The platform's functions\<close>

definition btoa :: "string \<Rightarrow> string" where
  "btoa s = map group_char (groups (map of_char s)) @
     replicate ((3 - length s mod 3) mod 3) (CHR ''='')"

definition is_ascii_space :: "char \<Rightarrow> bool" where
  "is_ascii_space c \<longleftrightarrow> c = CHR 0x20 \<or> c = CHR 0x09 \<or> c = CHR 0x0A \<or> c = CHR 0x0C \<or> c = CHR 0x0D"

definition drop_padding :: "string \<Rightarrow> string" where
  "drop_padding s =
     (if length s mod 4 = 0 \<and> s \<noteq> [] \<and> last s = CHR ''=''
      then (if butlast s \<noteq> [] \<and> last (butlast s) = CHR ''='' then butlast (butlast s) else butlast s)
      else s)"

fun char_groups :: "string \<Rightarrow> nat list option" where
  "char_groups [] = Some []"
| "char_groups (c # s) =
     (case char_group c of None \<Rightarrow> None | Some n \<Rightarrow> map_option ((#) n) (char_groups s))"

definition atob :: "string \<Rightarrow> string option" where
  "atob s =
     (let t = drop_padding (filter (\<lambda>c. \<not> is_ascii_space c) s)
      in if length t mod 4 = 1 then None
         else map_option (\<lambda>ns. map char_of (ungroup ns)) (char_groups t))"

section \<open>The URL-safe variant\<close>

type_synonym bytes = "8 word list"

definition byte_char :: "8 word \<Rightarrow> char" where
  "byte_char b = char_of (unat b)"

definition char_byte :: "char \<Rightarrow> 8 word" where
  "char_byte c = of_nat (of_char c)"

definition replace_char :: "char \<Rightarrow> char \<Rightarrow> string \<Rightarrow> string" where
  "replace_char a b s = map (\<lambda>c. if c = a then b else c) s"

definition strip_padding :: "string \<Rightarrow> string" where
  "strip_padding s = rev (dropWhile (\<lambda>c. c = CHR ''='') (rev s))"

definition base64url_encode :: "bytes \<Rightarrow> string" where
  "base64url_encode bs =
     strip_padding (replace_char (CHR ''/'') (CHR ''_'')
       (replace_char (CHR ''+'') (CHR ''-'') (btoa (map byte_char bs))))"

definition base64url_decode :: "string \<Rightarrow> bytes option" where
  "base64url_decode s =
     map_option (map char_byte)
       (atob (replace_char (CHR ''_'') (CHR ''/'') (replace_char (CHR ''-'') (CHR ''+'') s)))"

section \<open>Decoding undoes encoding\<close>

lemma alphabet_size: "length alphabet = 64"
  by code_simp

lemma char_group_of: "n < 64 \<Longrightarrow> char_group (group_char n) = Some n"
proof -
  have "list_all (\<lambda>n. char_group (group_char n) = Some n) [0..<64]" by code_simp
  then show "n < 64 \<Longrightarrow> char_group (group_char n) = Some n" by (auto simp: list_all_iff)
qed

text \<open>The URL-safe characters of a group, and the way back.\<close>

definition url_char :: "char \<Rightarrow> char" where
  "url_char c = (if c = CHR ''+'' then CHR ''-'' else if c = CHR ''/'' then CHR ''_'' else c)"

definition plain_char :: "char \<Rightarrow> char" where
  "plain_char c = (if c = CHR ''-'' then CHR ''+'' else if c = CHR ''_'' then CHR ''/'' else c)"

lemma group_chars:
  assumes "n < 64"
  shows "plain_char (url_char (group_char n)) = group_char n" "url_char (group_char n) \<noteq> CHR ''=''"
    "group_char n \<noteq> CHR ''=''" "\<not> is_ascii_space (group_char n)" "url_char (group_char n) \<noteq> CHR ''.''"
proof -
  have "list_all (\<lambda>n. plain_char (url_char (group_char n)) = group_char n \<and> url_char (group_char n) \<noteq> CHR ''='' \<and>
    group_char n \<noteq> CHR ''='' \<and> \<not> is_ascii_space (group_char n) \<and> url_char (group_char n) \<noteq> CHR ''.'') [0..<64]"
    by code_simp
  then show "plain_char (url_char (group_char n)) = group_char n" "url_char (group_char n) \<noteq> CHR ''=''"
    "group_char n \<noteq> CHR ''=''" "\<not> is_ascii_space (group_char n)" "url_char (group_char n) \<noteq> CHR ''.''"
    using assms by (auto simp: list_all_iff)
qed

lemma split_bits:
  fixes q x k :: nat
  assumes "x < k"
  shows "(q * k + x) div k = q" "(q * k + x) mod k = x"
  using assms by simp_all

lemma byte_parts:
  fixes b :: nat
  assumes "b < 256"
  shows "b div 4 < 64" "b div 16 < 16" "b div 64 < 4"
  using assms by (simp_all add: less_mult_imp_div_less)

lemma mod_parts: "(a :: nat) mod 4 < 4" "(a :: nat) mod 16 < 16" "(a :: nat) mod 64 < 64"
  by simp_all

lemma groups_small: "list_all (\<lambda>n. n < 256) bs \<Longrightarrow> list_all (\<lambda>n. n < 64) (groups bs)"
proof (induction bs rule: groups.induct)
  case (2 a)
  then show ?case using byte_parts [of a] mod_parts [of a] by simp
next
  case (3 a b)
  then show ?case using byte_parts [of a] byte_parts [of b] mod_parts [of a] mod_parts [of b] by simp
next
  case (4 a b c s)
  have "b < 256" "c < 256" using 4(2) by simp_all
  then have "a mod 4 * 16 + b div 16 < 64" "b mod 16 * 4 + c div 64 < 64"
    using byte_parts(2) [of b] byte_parts(3) [of c] mod_parts(1) [of a] mod_parts(2) [of b] by linarith+
  then show ?case using 4 byte_parts [of a] by simp
qed simp

lemma ungroup_groups: "list_all (\<lambda>n. n < 256) bs \<Longrightarrow> ungroup (groups bs) = bs"
proof (induction bs rule: groups.induct)
  case (2 a)
  have "a mod 4 * 16 div 16 = a mod 4" by simp
  then show ?case by simp
next
  case (3 a b)
  then have b: "b div 16 < 16" using byte_parts [of b] by simp
  have "b mod 16 * 4 div 4 = b mod 16" by simp
  then show ?case using split_bits [OF b, of "a mod 4"] by simp
next
  case (4 a b c s)
  then have b: "b div 16 < 16" and c: "c div 64 < 4" using byte_parts [of b] byte_parts [of c] by simp_all
  show ?case using 4 split_bits [OF b, of "a mod 4"] split_bits [OF c, of "b mod 16"] by simp
qed simp

lemma length_groups: "length (groups bs) mod 4 \<noteq> 1"
  by (induction bs rule: groups.induct) simp_all

lemma char_groups_map: "list_all (\<lambda>n. n < 64) ns \<Longrightarrow> char_groups (map group_char ns) = Some ns"
  by (induction ns) (simp_all add: char_group_of)

lemma strip_padding_append:
  assumes "\<forall>c \<in> set s. c \<noteq> CHR ''=''"
  shows "strip_padding (s @ replicate n (CHR ''='')) = s"
proof -
  have "dropWhile (\<lambda>c. c = CHR ''='') (rev s) = rev s"
    using assms by (cases s rule: rev_cases) auto
  moreover have "dropWhile (\<lambda>c. c = CHR ''='') (replicate n (CHR ''='') @ t) = dropWhile (\<lambda>c. c = CHR ''='') t" for t
    by (induction n) simp_all
  ultimately show ?thesis by (simp add: strip_padding_def)
qed

lemma url_chars: "replace_char (CHR ''/'') (CHR ''_'') (replace_char (CHR ''+'') (CHR ''-'') s) = map url_char s"
  by (auto simp: replace_char_def url_char_def)

lemma plain_chars: "replace_char (CHR ''_'') (CHR ''/'') (replace_char (CHR ''-'') (CHR ''+'') s) = map plain_char s"
  by (auto simp: replace_char_def plain_char_def)

lemma base64url_encode_groups:
  "base64url_encode bs = map (url_char \<circ> group_char) (groups (map unat bs))"
proof -
  let ?ns = "groups (map unat bs)"
  have codes: "map of_char (map byte_char bs) = map unat bs"
    by (induction bs) (simp_all add: byte_char_def unsigned_less [of _ , where 'b = 8, simplified])
  have "list_all (\<lambda>n. n < 64) ?ns"
    by (rule groups_small) (simp add: list_all_iff unsigned_less [where 'b = 8, simplified])
  then have "\<forall>c \<in> set (map (url_char \<circ> group_char) ?ns). c \<noteq> CHR ''=''"
    by (auto simp: list_all_iff group_chars)
  moreover have "url_char (CHR ''='') = CHR ''=''" by (simp add: url_char_def)
  ultimately show ?thesis
    unfolding base64url_encode_def url_chars btoa_def codes by (simp add: strip_padding_append)
qed

theorem base64url_decode_encode: "base64url_decode (base64url_encode bs) = Some bs"
proof -
  let ?ns = "groups (map unat bs)"
  have bytes: "list_all (\<lambda>n. n < 256) (map unat bs)"
    by (simp add: list_all_iff unsigned_less [where 'b = 8, simplified])
  have ns: "list_all (\<lambda>n. n < 64) ?ns" by (rule groups_small [OF bytes])
  have plain: "map plain_char (base64url_encode bs) = map group_char ?ns"
    using ns by (simp add: base64url_encode_groups list_all_iff group_chars)
  have blank: "filter (\<lambda>c. \<not> is_ascii_space c) (map group_char ?ns) = map group_char ?ns"
    using ns by (auto simp: filter_id_conv list_all_iff group_chars)
  have "last (map group_char ?ns) \<noteq> CHR ''=''" if "?ns \<noteq> []"
    using ns that by (auto simp: last_map list_all_iff group_chars dest!: last_in_set)
  then have pad: "drop_padding (map group_char ?ns) = map group_char ?ns"
    by (auto simp: drop_padding_def)
  have "map char_byte (map char_of (map unat bs)) = bs"
    by (induction bs) (simp_all add: char_byte_def unsigned_less [where 'b = 8, simplified])
  then show ?thesis
    using length_groups
    by (simp add: base64url_decode_def plain_chars plain atob_def blank pad char_groups_map [OF ns]
        ungroup_groups [OF bytes] Let_def)
qed

lemma base64url_no_dot: "CHR ''.'' \<notin> set (base64url_encode bs)"
proof -
  have "list_all (\<lambda>n. n < 64) (groups (map unat bs))"
    by (rule groups_small) (simp add: list_all_iff unsigned_less [where 'b = 8, simplified])
  then have "\<forall>n \<in> set (groups (map unat bs)). CHR ''.'' \<noteq> url_char (group_char n)"
    using group_chars(5) by (metis list_all_iff)
  then show ?thesis by (auto simp: base64url_encode_groups)
qed

end
