(* ===== verification/Bundle_Token.thy ===== *)
theory Bundle_Token
  imports Json_Parse Base64
begin

text \<open>
  Capability tokens: \<open>mintToken\<close> (\<open>packages/runtime/bundle-host/src/security/mint.ts\<close>),
  \<open>verifyToken\<close> and \<open>NonceTracker\<close> (\<open>packages/runtime/bundle-token/src/verify.ts\<close>), and the
  per-turn \<open>BudgetTracker\<close> (\<open>packages/runtime/bundle-host/src/budget-tracker.ts\<close>). A token is
  \<open>base64url(payload).base64url(hmac)\<close>. The HMAC and the text codec (\<open>TextEncoder\<close>,
  \<open>TextDecoder\<close>) of the platform are functions of a record; the derivation of the key pair is
  outside the model, so one key stands for both halves. The clock does not move during a
  call, as on the platform.
\<close>

section \<open>Minting\<close>

record 'k crypto =
  cr_hmac :: "'k \<Rightarrow> bytes \<Rightarrow> bytes"
  cr_encode :: "string \<Rightarrow> bytes"
  cr_decode :: "bytes \<Rightarrow> string"

text \<open>\<open>mo_sid\<close>: absent, null or a string; \<open>mo_session\<close> is the legacy option \<open>sessionId\<close>.\<close>

record mint_options =
  mo_agent :: string
  mo_sid :: "string option option"
  mo_session :: "string option"
  mo_scope :: "string list"
  mo_ttl :: "int option"

definition default_ttl_ms :: int where "default_ttl_ms = 60 * 1000"

definition resolved_sid :: "mint_options \<Rightarrow> string option" where
  "resolved_sid m = (case mo_sid m of Some s \<Rightarrow> s | None \<Rightarrow> mo_session m)"

definition token_payload :: "mint_options \<Rightarrow> int \<Rightarrow> string \<Rightarrow> json" where
  "token_payload m now nonce =
     (let sid = resolved_sid m
      in JObj ([(''aid'', JStr (mo_agent m)),
                (''sid'', case sid of None \<Rightarrow> JNull | Some s \<Rightarrow> JStr s)] @
               (case sid of None \<Rightarrow> [] | Some s \<Rightarrow> [(''sessionId'', JStr s)]) @
               [(''exp'', JNum (now + or_else (mo_ttl m) default_ttl_ms)),
                (''nonce'', JStr nonce),
                (''scope'', JArr (map JStr (mo_scope m)))]))"

definition mint_token :: "'k crypto \<Rightarrow> 'k \<Rightarrow> mint_options \<Rightarrow> int \<Rightarrow> string \<Rightarrow> string" where
  "mint_token P k m now nonce =
     (let payload = base64url_encode (cr_encode P (stringify (token_payload m now nonce)));
          signature = base64url_encode (cr_hmac P k (cr_encode P payload))
      in payload @ CHR ''.'' # signature)"

section \<open>The nonce tracker\<close>

text \<open>
  \<open>value <= now\<close>: a missing value is \<open>NaN\<close>, null is 0. Strings, arrays and objects, which
  JavaScript would convert, do not occur in minted payloads; they compare as \<open>NaN\<close> here.
\<close>

fun reached :: "json option \<Rightarrow> int \<Rightarrow> bool" where
  "reached (Some (JNum e)) now = (e \<le> now)"
| "reached (Some JNull) now = (0 \<le> now)"
| "reached (Some (JBool b)) now = ((if b then 1 else 0) \<le> now)"
| "reached _ now = False"

type_synonym nonces = "(json option \<times> json option) list"

definition evict_expired :: "int \<Rightarrow> nonces \<Rightarrow> nonces" where
  "evict_expired now t = filter (\<lambda>(_, e). \<not> reached e now) t"

definition default_max_nonces :: nat where "default_max_nonces = 10000"

definition try_consume :: "nat \<Rightarrow> int \<Rightarrow> json option \<Rightarrow> json option \<Rightarrow> nonces \<Rightarrow> bool \<times> nonces" where
  "try_consume max_size now nonce expires t0 =
     (let t1 = (if 10 * length t0 \<ge> 9 * max_size then evict_expired now t0 else t0)
      in if nonce \<in> fst ` set t1 then (False, t1)
         else
           let t2 = (if length t1 \<ge> max_size then evict_expired now t1 else t1)
           in if length t1 \<ge> max_size \<and> length t2 \<ge> max_size then (False, t2)
              else (True, t2 @ [(nonce, expires)]))"

section \<open>Verification\<close>

datatype token_error = Bad_Token | Token_Expired | Token_Replay | Malformed | Scope_Denied

text \<open>\<open>Throws\<close> is the type error of reading a member of \<open>null\<close>.\<close>

datatype verify_outcome = Valid json | Invalid token_error | Throws

definition in_scope :: "json \<Rightarrow> string \<Rightarrow> bool" where
  "in_scope payload s = (case member payload ''scope'' of Some (JArr xs) \<Rightarrow> JStr s \<in> set xs | _ \<Rightarrow> False)"

definition check_payload ::
  "string option \<Rightarrow> int \<Rightarrow> (nat \<times> nonces) option \<Rightarrow> json \<Rightarrow> verify_outcome \<times> (nat \<times> nonces) option" where
  "check_payload scope now tracker payload =
     (if payload = JNull then (Throws, tracker)
      else if reached (member payload ''exp'') now then (Invalid Token_Expired, tracker)
      else
        let (fresh, tracker') =
          (case tracker of
             None \<Rightarrow> (True, None)
           | Some (mx, t) \<Rightarrow>
               (let (b, t') = try_consume mx now (member payload ''nonce'') (member payload ''exp'') t
                in (b, Some (mx, t'))))
        in if \<not> fresh then (Invalid Token_Replay, tracker')
           else if truthy scope \<and> \<not> in_scope payload (the scope) then (Invalid Scope_Denied, tracker')
           else (Valid payload, tracker'))"

definition verify_token ::
  "'k crypto \<Rightarrow> 'k \<Rightarrow> string option \<Rightarrow> string \<Rightarrow> int \<Rightarrow> (nat \<times> nonces) option \<Rightarrow>
    verify_outcome \<times> (nat \<times> nonces) option" where
  "verify_token P k scope token now tracker =
     (if CHR ''.'' \<notin> set token then (Invalid Malformed, tracker)
      else
        let payload = takeWhile (\<lambda>c. c \<noteq> CHR ''.'') token;
            signature = drop 1 (dropWhile (\<lambda>c. c \<noteq> CHR ''.'') token)
        in case base64url_decode signature of
             None \<Rightarrow> (Invalid Bad_Token, tracker)
           | Some sig \<Rightarrow>
               if sig \<noteq> cr_hmac P k (cr_encode P payload) then (Invalid Bad_Token, tracker)
               else
                 (case base64url_decode payload of
                    None \<Rightarrow> (Invalid Malformed, tracker)
                  | Some bytes \<Rightarrow>
                      (case parse_json (cr_decode P bytes) of
                         None \<Rightarrow> (Invalid Malformed, tracker)
                       | Some j \<Rightarrow> check_payload scope now tracker j)))"

section \<open>Budgets\<close>

datatype budget_category =
    Sql | Kv | Broadcast | Alarm | Hook_After_Tool | Hook_Before_Inference | Hook_Before_Tool | Inspection

type_synonym budget_config = "budget_category \<Rightarrow> nat"

fun default_budget :: budget_config where
  "default_budget Sql = 100"
| "default_budget Kv = 50"
| "default_budget Broadcast = 200"
| "default_budget Alarm = 5"
| "default_budget Hook_After_Tool = 200"
| "default_budget Hook_Before_Inference = 100"
| "default_budget Hook_Before_Tool = 200"
| "default_budget Inspection = 50"

type_synonym counters = "string \<rightharpoonup> (budget_category \<rightharpoonup> nat)"

text \<open>\<open>Inl\<close> is \<open>BudgetExceededError\<close> with its category and limit.\<close>

definition budget_check ::
  "budget_config \<Rightarrow> string \<Rightarrow> budget_category \<Rightarrow> counters \<Rightarrow> (budget_category \<times> nat + unit) \<times> counters" where
  "budget_check cfg nonce c cs =
     (let categories = or_else (cs nonce) Map.empty; cs1 = cs(nonce \<mapsto> categories);
          current = or_else (categories c) 0
      in if current \<ge> cfg c then (Inl (c, cfg c), cs1)
         else (Inr (), cs1(nonce \<mapsto> categories(c \<mapsto> current + 1))))"

definition budget_cleanup :: "string \<Rightarrow> counters \<Rightarrow> counters" where
  "budget_cleanup nonce cs = cs(nonce := None)"

section \<open>Minted tokens verify\<close>

lemma token_payload_keys: "distinct_keys (token_payload m now nonce)"
  by (auto simp: token_payload_def Let_def list_all_iff split: option.split)

lemma token_payload_members:
  "member (token_payload m now nonce) ''exp'' = Some (JNum (now + or_else (mo_ttl m) default_ttl_ms))"
  "member (token_payload m now nonce) ''nonce'' = Some (JStr nonce)"
  "member (token_payload m now nonce) ''aid'' = Some (JStr (mo_agent m))"
  "member (token_payload m now nonce) ''sid'' = Some (case resolved_sid m of None \<Rightarrow> JNull | Some s \<Rightarrow> JStr s)"
  "member (token_payload m now nonce) ''scope'' = Some (JArr (map JStr (mo_scope m)))"
  "token_payload m now nonce \<noteq> JNull"
  by (simp_all add: token_payload_def Let_def split: option.split)

lemma split_token:
  assumes "CHR ''.'' \<notin> set p"
  shows "takeWhile (\<lambda>c. c \<noteq> CHR ''.'') (p @ CHR ''.'' # s) = p"
    "drop (Suc 0) (dropWhile (\<lambda>c. c \<noteq> CHR ''.'') (p @ CHR ''.'' # s)) = s"
  using assms by (induction p) auto

lemma verify_minted:
  assumes "\<And>s. cr_decode P (cr_encode P s) = s"
  shows "verify_token P k scope (mint_token P k m t nonce) now tracker =
    check_payload scope now tracker (token_payload m t nonce)"
  by (simp add: verify_token_def mint_token_def Let_def split_token base64url_no_dot
      base64url_decode_encode assms parse_stringify token_payload_keys)

text \<open>C5: A minted token verifies, with the payload it was minted from, under the same key, for every
  scope it carries, as long as less than its lifetime (a minute by default) has passed; with
  a nonce tracker, as long as its nonce has not been used and the tracker is not full.\<close>

theorem minted_token_verifies:
  assumes "\<And>s. cr_decode P (cr_encode P s) = s"
    and "now < t + or_else (mo_ttl m) default_ttl_ms"
    and "s \<in> set (mo_scope m)"
  shows "fst (verify_token P k (Some s) (mint_token P k m t nonce) now None) = Valid (token_payload m t nonce) \<and>
    (Some (JStr nonce) \<notin> fst ` set used \<and> length used < mx \<longrightarrow>
      fst (verify_token P k (Some s) (mint_token P k m t nonce) now (Some (mx, used))) =
      Valid (token_payload m t nonce))"
proof (intro conjI impI)
  have s: "in_scope (token_payload m t nonce) s"
    using assms(3) by (simp add: in_scope_def token_payload_members)
  then show "fst (verify_token P k (Some s) (mint_token P k m t nonce) now None) = Valid (token_payload m t nonce)"
    using assms(2) by (simp add: verify_minted assms(1) check_payload_def token_payload_members)
  assume used: "Some (JStr nonce) \<notin> fst ` set used \<and> length used < mx"
  have "length (evict_expired now used) \<le> length used" "fst ` set (evict_expired now used) \<subseteq> fst ` set used"
    by (auto simp: evict_expired_def)
  then have "fst (try_consume mx now (Some (JStr nonce)) e used)" for e
    using used unfolding try_consume_def Let_def by (auto dest: subsetD)
  then show "fst (verify_token P k (Some s) (mint_token P k m t nonce) now (Some (mx, used))) =
      Valid (token_payload m t nonce)"
    using s assms(2)
    by (simp add: verify_minted assms(1) check_payload_def token_payload_members case_prod_beta Let_def)
qed

text \<open>A codec and a checksum in place of the platform's.\<close>

definition toy_crypto :: "8 word crypto" where
  "toy_crypto = \<lparr>cr_hmac = \<lambda>k bs. [foldl (\<lambda>x b. 3 * x + b) k bs],
     cr_encode = map char_byte, cr_decode = map byte_char\<rparr>"

lemma toy_codec: "cr_decode toy_crypto (cr_encode toy_crypto s) = s"
proof -
  have "byte_char (char_byte c) = c" for c
    by (simp add: byte_char_def char_byte_def unat_of_nat take_bit_nat_def of_char_bound)
  then show ?thesis by (simp add: toy_crypto_def o_def)
qed

definition demo_mint :: mint_options where
  "demo_mint = \<lparr>mo_agent = ''agent'', mo_sid = Some (Some ''s1''), mo_session = None,
     mo_scope = [''spine'', ''llm''], mo_ttl = None\<rparr>"

theorem minted_token_verifies_witness:
  "fst (verify_token toy_crypto 7 (Some ''llm'') (mint_token toy_crypto 7 demo_mint 1000 ''n'') 60999 None) =
      Valid (token_payload demo_mint 1000 ''n'') \<and>
   fst (verify_token toy_crypto 7 (Some ''llm'') (mint_token toy_crypto 7 demo_mint 1000 ''n'') 60999 (Some (1, []))) =
      Valid (token_payload demo_mint 1000 ''n'')"
proof -
  have "(60999 :: int) < 1000 + or_else (mo_ttl demo_mint) default_ttl_ms"
    by (simp add: demo_mint_def default_ttl_ms_def)
  moreover have "''llm'' \<in> set (mo_scope demo_mint)" by (simp add: demo_mint_def)
  ultimately show ?thesis
    using minted_token_verifies [of toy_crypto 60999 1000 demo_mint "''llm''" 7 "''n''" "[]" 1] toy_codec by simp
qed

section \<open>What an accepted token proves\<close>

lemma check_payload_Valid:
  "check_payload scope now tr j = (Valid p, tr') \<Longrightarrow>
    p = j \<and> \<not> reached (member j ''exp'') now \<and> (truthy scope \<longrightarrow> in_scope j (the scope)) \<and>
    (case tr of None \<Rightarrow> tr' = None
     | Some (mx, t) \<Rightarrow> \<exists>t'. tr' = Some (mx, t') \<and>
         try_consume mx now (member j ''nonce'') (member j ''exp'') t = (True, t'))"
  by (auto simp: check_payload_def Let_def split: if_splits option.splits prod.splits)

lemma verify_token_cases:
  obtains (refused) e where "verify_token P k scope token now tr = (Invalid e, tr)"
  | (checked) p s j where "token = p @ CHR ''.'' # s" "CHR ''.'' \<notin> set p"
      "base64url_decode s = Some (cr_hmac P k (cr_encode P p))"
      "map_option (\<lambda>bs. parse_json (cr_decode P bs)) (base64url_decode p) = Some (Some j)"
      "verify_token P k scope token now tr = check_payload scope now tr j"
proof (cases "CHR ''.'' \<in> set token")
  case False
  then show ?thesis using refused by (simp add: verify_token_def)
next
  case True
  define p where "p = takeWhile (\<lambda>c. c \<noteq> CHR ''.'') token"
  define s where "s = drop 1 (dropWhile (\<lambda>c. c \<noteq> CHR ''.'') token)"
  have token: "token = p @ CHR ''.'' # s"
    using True unfolding p_def s_def by (induction token) auto
  have p: "CHR ''.'' \<notin> set p" unfolding p_def by (auto dest: set_takeWhileD)
  show ?thesis
  proof (cases "base64url_decode s = Some (cr_hmac P k (cr_encode P p)) \<and>
      (\<exists>j. map_option (\<lambda>bs. parse_json (cr_decode P bs)) (base64url_decode p) = Some (Some j))")
    case True
    then obtain j bs where j: "base64url_decode s = Some (cr_hmac P k (cr_encode P p))"
      "base64url_decode p = Some bs" "parse_json (cr_decode P bs) = Some j"
      by auto
    then have "verify_token P k scope token now tr = check_payload scope now tr j"
      using \<open>CHR ''.'' \<in> set token\<close> by (simp add: verify_token_def Let_def p_def s_def)
    with j show ?thesis using checked [OF token p] by simp
  next
    case False
    then have "\<exists>e. verify_token P k scope token now tr = (Invalid e, tr)"
      using \<open>CHR ''.'' \<in> set token\<close>
      by (auto simp: verify_token_def Let_def p_def s_def split: option.splits)
    then show ?thesis using refused by blast
  qed
qed

text \<open>An accepted token consists of a payload text and the key's HMAC of exactly that text, so
  nothing in it can be changed without the key; the payload it yields is the decoded text,
  has not expired, and carries the required scope.\<close>

theorem accepted_token_is_signed:
  assumes "fst (verify_token P k scope token now tr) = Valid j"
  shows "\<exists>p s bs. token = p @ CHR ''.'' # s \<and> base64url_decode s = Some (cr_hmac P k (cr_encode P p)) \<and>
    base64url_decode p = Some bs \<and> parse_json (cr_decode P bs) = Some j \<and>
    \<not> reached (member j ''exp'') now \<and> (truthy scope \<longrightarrow> in_scope j (the scope))"
proof (cases rule: verify_token_cases [of P k scope token now tr])
  case (refused e)
  then show ?thesis using assms by simp
next
  case (checked p s i)
  obtain tr' where "check_payload scope now tr i = (Valid j, tr')"
    using assms checked(5) by (metis prod.collapse)
  from check_payload_Valid [OF this] checked(1-4) show ?thesis by auto
qed

theorem accepted_token_is_signed_witness:
  "\<exists>p s bs. mint_token toy_crypto 7 demo_mint 1000 ''n'' = p @ CHR ''.'' # s \<and>
    base64url_decode s = Some (cr_hmac toy_crypto 7 (cr_encode toy_crypto p)) \<and>
    base64url_decode p = Some bs \<and> parse_json (cr_decode toy_crypto bs) = Some (token_payload demo_mint 1000 ''n'')"
proof -
  have "fst (verify_token toy_crypto 7 None (mint_token toy_crypto 7 demo_mint 1000 ''n'') 2000 None) =
      Valid (token_payload demo_mint 1000 ''n'')"
    by (simp add: verify_minted toy_codec check_payload_def token_payload_members demo_mint_def default_ttl_ms_def)
  from accepted_token_is_signed [OF this] show ?thesis by auto
qed

section \<open>A nonce is accepted once\<close>

text \<open>The verdicts on a sequence of tokens, each with the time it arrives.\<close>

fun verify_all ::
  "'k crypto \<Rightarrow> 'k \<Rightarrow> string option \<Rightarrow> (string \<times> int) list \<Rightarrow> (nat \<times> nonces) option \<Rightarrow> verify_outcome list" where
  "verify_all P k scope [] tr = []"
| "verify_all P k scope ((token, now) # rest) tr =
     (let (v, tr') = verify_token P k scope token now tr in v # verify_all P k scope rest tr')"

text \<open>A payload that cannot be accepted any more.\<close>

definition spent :: "json \<Rightarrow> int \<Rightarrow> nonces \<Rightarrow> bool" where
  "spent j now t \<longleftrightarrow> (member j ''nonce'', member j ''exp'') \<in> set t \<or> reached (member j ''exp'') now"

lemma reached_mono: "reached e now \<Longrightarrow> now \<le> now' \<Longrightarrow> reached e now'"
  by (cases "(e, now)" rule: reached.cases) (auto split: if_splits)

lemma spent_evict: "spent j now t \<Longrightarrow> spent j now (evict_expired now t)"
  by (auto simp: spent_def evict_expired_def)

lemma try_consume_cases:
  assumes "try_consume mx now n e t = (b, t')"
  obtains "t' = t" "\<not> b" | "t' = evict_expired now t" "\<not> b"
  | "t' = evict_expired now (evict_expired now t)" "\<not> b"
  | t0 where "t0 = t \<or> t0 = evict_expired now t \<or> t0 = evict_expired now (evict_expired now t)"
      "t' = t0 @ [(n, e)]" "b" "n \<notin> fst ` set t0" "length t0 < mx"
proof -
  have "n \<notin> fst ` set (evict_expired now x)" if "n \<notin> fst ` set x" for x
    using that by (auto simp: evict_expired_def)
  moreover have small: "length t < mx" if "\<not> 9 * mx \<le> 10 * length t" using that by linarith
  ultimately show thesis
    using assms that unfolding try_consume_def Let_def
    by (simp split: if_splits) (metis not_le small)+
qed

lemma spent_consume: "try_consume mx now n e t = (b, t') \<Longrightarrow> spent j now t \<Longrightarrow> spent j now t'"
  by (erule try_consume_cases) (auto simp: spent_evict, auto simp: spent_def evict_expired_def)

lemma spent_later: "spent j now t \<Longrightarrow> now \<le> now' \<Longrightarrow> spent j now' t"
  by (auto simp: spent_def intro: reached_mono)

lemma verify_keeps_spent:
  assumes "verify_token P k scope token now (Some (mx, t)) = (v, tr')" "spent j now t"
  obtains t' where "tr' = Some (mx, t')" "spent j now t'" "v \<noteq> Valid j"
proof (cases rule: verify_token_cases [of P k scope token now "Some (mx, t)"])
  case (refused e)
  then show ?thesis using that assms by auto
next
  case (checked p s i)
  have eq: "check_payload scope now (Some (mx, t)) i = (v, tr')" using checked(5) assms(1) by simp
  obtain b t2 where b: "try_consume mx now (member i ''nonce'') (member i ''exp'') t = (b, t2)"
    by (rule prod.exhaust)
  have tr': "tr' = Some (mx, t) \<or> tr' = Some (mx, t2)"
    using eq b by (auto simp: check_payload_def Let_def split: if_splits)
  have "v \<noteq> Valid j"
  proof
    assume "v = Valid j"
    with eq have i: "i = j" "\<not> reached (member j ''exp'') now" "b"
      using check_payload_Valid [of scope now "Some (mx, t)" i j tr'] b by auto
    then have "(member j ''nonce'', member j ''exp'') \<in> set (evict_expired now (evict_expired now t))"
      using assms(2) by (auto simp: spent_def evict_expired_def)
    then have "member j ''nonce'' \<in> fst ` set t \<and> member j ''nonce'' \<in> fst ` set (evict_expired now t) \<and>
        member j ''nonce'' \<in> fst ` set (evict_expired now (evict_expired now t))"
      by (force simp: evict_expired_def)
    with b i show False by (auto elim: try_consume_cases)
  qed
  then show ?thesis using that tr' assms(2) spent_consume [OF b assms(2)] by auto
qed

lemma verify_all_spent:
  "spent j now t \<Longrightarrow> sorted (map snd reqs) \<Longrightarrow> \<forall>r \<in> set reqs. now \<le> snd r \<Longrightarrow>
    Valid j \<notin> set (verify_all P k scope reqs (Some (mx, t)))"
proof (induction reqs arbitrary: t now)
  case (Cons r reqs)
  obtain token at where r: "r = (token, at)" by (cases r)
  obtain v tr' where v: "verify_token P k scope token at (Some (mx, t)) = (v, tr')" by (rule prod.exhaust)
  have "spent j at t" using Cons.prems r by (auto intro: spent_later)
  from verify_keeps_spent [OF v this] obtain t' where t': "tr' = Some (mx, t')" "spent j at t'" "v \<noteq> Valid j"
    by blast
  have "Valid j \<notin> set (verify_all P k scope reqs (Some (mx, t')))"
    using Cons.prems r by (intro Cons.IH [OF t'(2)]) auto
  with t' v r show ?case by simp
qed simp

lemma accepted_is_spent:
  assumes "verify_token P k scope token now (Some (mx, t)) = (Valid j, tr')"
  obtains t' where "tr' = Some (mx, t')" "spent j now t'"
proof (cases rule: verify_token_cases [of P k scope token now "Some (mx, t)"])
  case (refused e)
  then show ?thesis using assms by simp
next
  case (checked p s i)
  then have "check_payload scope now (Some (mx, t)) i = (Valid j, tr')" using assms by simp
  from check_payload_Valid [OF this] obtain t' where t': "tr' = Some (mx, t')"
    "try_consume mx now (member j ''nonce'') (member j ''exp'') t = (True, t')"
    by auto
  from t'(2) have "spent j now t'" by (rule try_consume_cases) (auto simp: spent_def)
  with t'(1) that show ?thesis by blast
qed

text \<open>C12: With a nonce tracker no payload is accepted twice, whatever arrives in between and however
  often the tracker evicts, as long as the clock does not run backwards: a nonce is only
  forgotten once its token has expired.\<close>

theorem token_used_once:
  assumes "sorted (map snd reqs)"
    and "i < i'" and "i' < length reqs" and "verify_all P k scope reqs (Some (mx, t)) ! i = Valid j"
  shows "verify_all P k scope reqs (Some (mx, t)) ! i' \<noteq> Valid j"
  using assms
proof (induction reqs arbitrary: t i i')
  case (Cons r reqs)
  obtain token at where r: "r = (token, at)" by (cases r)
  obtain v tr' where v: "verify_token P k scope token at (Some (mx, t)) = (v, tr')" by (rule prod.exhaust)
  have len: "length (verify_all P k scope q x) = length q" for q x
    by (induction q arbitrary: x) (auto simp: case_prod_beta Let_def)
  obtain l where l: "i' = Suc l" "l < length reqs" using Cons.prems by (cases i') auto
  show ?case
  proof (cases i)
    case 0
    then have "v = Valid j" using Cons.prems r v by simp
    with v obtain t' where t': "tr' = Some (mx, t')" "spent j at t'" by (auto elim: accepted_is_spent)
    have "Valid j \<notin> set (verify_all P k scope reqs (Some (mx, t')))"
      using Cons.prems r by (intro verify_all_spent [OF t'(2)]) auto
    then show ?thesis using l t' v r len by (metis (no_types, lifting) nth_Cons_Suc nth_mem verify_all.simps(2) case_prod_conv)
  next
    case (Suc m)
    have "\<exists>t'. tr' = Some (mx, t')"
    proof (cases rule: verify_token_cases [of P k scope token at "Some (mx, t)"])
      case (checked p s q)
      then show ?thesis using v by (auto simp: check_payload_def Let_def split: if_splits prod.splits)
    qed (use v in auto)
    then obtain t' where t': "tr' = Some (mx, t')" by blast
    have "verify_all P k scope reqs (Some (mx, t')) ! l \<noteq> Valid j"
      using Cons.prems Suc l r v t' by (intro Cons.IH [of m l]) auto
    then show ?thesis using l r v t' by simp
  qed
qed simp

theorem token_used_once_witness:
  "let token = mint_token toy_crypto 7 demo_mint 1000 ''n'';
       vs = verify_all toy_crypto 7 (Some ''llm'') [(token, 2000), (token, 3000)] (Some (10, []))
   in vs ! 0 = Valid (token_payload demo_mint 1000 ''n'') \<and> vs ! 1 \<noteq> Valid (token_payload demo_mint 1000 ''n'')"
proof -
  let ?token = "mint_token toy_crypto 7 demo_mint 1000 ''n''"
  let ?reqs = "[(?token, 2000), (?token, 3000 :: int)]"
  have "in_scope (token_payload demo_mint 1000 ''n'') ''llm''"
    by (simp add: in_scope_def token_payload_members demo_mint_def)
  then have first: "verify_all toy_crypto 7 (Some ''llm'') ?reqs (Some (10, [])) ! 0 = Valid (token_payload demo_mint 1000 ''n'')"
    by (simp add: verify_minted toy_codec check_payload_def token_payload_members demo_mint_def
        default_ttl_ms_def try_consume_def case_prod_beta Let_def)
  have "verify_all toy_crypto 7 (Some ''llm'') ?reqs (Some (10, [])) ! 1 \<noteq> Valid (token_payload demo_mint 1000 ''n'')"
    by (rule token_used_once [OF _ _ _ first]) simp_all
  with first show ?thesis unfolding Let_def by (rule conjI)
qed

text \<open>The tracker never holds more nonces than its size allows, each of them once.\<close>

lemma tracker_bounded:
  assumes "try_consume mx now n e t = (b, t')" "length t \<le> mx" "distinct (map fst t)"
  shows "length t' \<le> mx \<and> distinct (map fst t')"
proof -
  have ev: "length (evict_expired now x) \<le> length x \<and> (distinct (map fst x) \<longrightarrow> distinct (map fst (evict_expired now x)))" for x
    by (auto simp: evict_expired_def distinct_map_filter)
  show ?thesis
    using assms(1)
  proof (cases rule: try_consume_cases)
    case (4 t0)
    then have "distinct (map fst t0)" using assms(3) ev by metis
    with 4 show ?thesis by auto
  qed (use assms(2,3) ev le_trans in metis)+
qed

section \<open>Budgets are exact\<close>

datatype budget_op = Check string budget_category | Cleanup string

definition budget_step :: "budget_config \<Rightarrow> budget_op \<Rightarrow> counters \<Rightarrow> counters" where
  "budget_step cfg x cs =
     (case x of Check n c \<Rightarrow> snd (budget_check cfg n c cs) | Cleanup n \<Rightarrow> budget_cleanup n cs)"

text \<open>The calls of a category that a nonce has made since it was last cleaned up.\<close>

definition calls_since :: "budget_op list \<Rightarrow> string \<Rightarrow> budget_category \<Rightarrow> nat" where
  "calls_since ops n c =
     fold (\<lambda>x k. case x of Check m d \<Rightarrow> if m = n \<and> d = c then k + 1 else k
                      | Cleanup m \<Rightarrow> if m = n then 0 else k) ops 0"

definition used_budget :: "counters \<Rightarrow> string \<Rightarrow> budget_category \<Rightarrow> nat" where
  "used_budget cs n c = or_else (or_else (cs n) Map.empty c) 0"

lemma budget_check_used:
  "fst (budget_check cfg n c cs) = (if used_budget cs n c < cfg c then Inr () else Inl (c, cfg c))"
  "used_budget (snd (budget_check cfg n c cs)) m d =
     (if m = n \<and> d = c \<and> used_budget cs n c < cfg c then used_budget cs n c + 1 else used_budget cs m d)"
  by (auto simp: budget_check_def used_budget_def Let_def or_else_def)

lemma used_budget_fold:
  "used_budget (fold (budget_step cfg) ops Map.empty) n c = min (cfg c) (calls_since ops n c)"
proof (induction ops rule: rev_induct)
  case Nil
  show ?case by (simp add: used_budget_def calls_since_def)
next
  case (snoc x ops)
  show ?case
  proof (cases x)
    case (Check m d)
    with snoc show ?thesis by (auto simp: budget_step_def budget_check_used calls_since_def)
  next
    case (Cleanup m)
    with snoc show ?thesis
      by (auto simp: budget_step_def budget_cleanup_def used_budget_def calls_since_def)
  qed
qed

text \<open>C32: The budget of a token is exact: after any sequence of checks and clean-ups a check passes
  if and only if the token has made fewer calls of this category than the limit since its
  last clean-up; calls of other tokens or categories do not matter.\<close>

theorem budget_is_exact:
  "fst (budget_check cfg n c (fold (budget_step cfg) ops Map.empty)) =
     (if calls_since ops n c < cfg c then Inr () else Inl (c, cfg c))"
  by (simp add: budget_check_used used_budget_fold)

end
