(* ===== verification/Bundle_Registry.thy ===== *)
theory Bundle_Registry
  imports Json_Parse Base64
begin

text \<open>
  The registries of bundle versions: \<open>D1BundleRegistry\<close> (\<open>packages/runtime/bundle-registry\<close>),
  with its three tables and the key-value store of the bytes, and \<open>InMemoryBundleRegistry\<close>
  (\<open>packages/runtime/bundle-host/src/in-memory-registry.ts\<close>), with the validators both use
  when a version is made active. \<open>bundle_registry\<close> is the interface the dispatcher relies
  on; both registries are shown to keep it. The hash function and the moment at which a
  written value becomes visible are parameters.
\<close>

section \<open>Validators\<close>

text \<open>The loop all validators share: the first occurrences that satisfy the test.\<close>

fun collect :: "('a \<Rightarrow> bool) \<Rightarrow> 'a list \<Rightarrow> 'a list \<Rightarrow> 'a list" where
  "collect keep seen [] = []"
| "collect keep seen (x # xs) =
     (if \<not> keep x then collect keep seen xs
      else if x \<in> set seen then collect keep seen xs
      else x # collect keep (x # seen) xs)"

text \<open>Members of a declaration with a string \<open>id\<close>; other entries are skipped.\<close>

definition req_id :: "json \<Rightarrow> string option" where
  "req_id j = (case member j ''id'' of Some (JStr s) \<Rightarrow> Some s | _ \<Rightarrow> None)"

definition elements :: "json option \<Rightarrow> json list" where
  "elements j = (case j of Some (JArr xs) \<Rightarrow> xs | _ \<Rightarrow> [])"

definition validate_catalog :: "json list \<Rightarrow> string list \<Rightarrow> string list + unit" where
  "validate_catalog required known =
     (let missing = collect (\<lambda>x. x \<notin> set known) [] (List.map_filter req_id required)
      in if missing = [] then Inr () else Inl missing)"

definition validate_ids :: "string list \<Rightarrow> string list option \<Rightarrow> string list + unit" where
  "validate_ids declared known =
     (case known of
        None \<Rightarrow> Inr ()
      | Some ids \<Rightarrow>
          (let colliding = collect (\<lambda>x. x \<in> set ids) [] declared
           in if colliding = [] then Inr () else Inl colliding))"

text \<open>The keys \<open>METHOD:path\<close> decide; the collisions are reported as pairs.\<close>

definition route_key :: "string \<times> string \<Rightarrow> string" where
  "route_key r = fst r @ '':'' @ snd r"

fun collect_routes :: "string list \<Rightarrow> string list \<Rightarrow> (string \<times> string) list \<Rightarrow> (string \<times> string) list" where
  "collect_routes known seen [] = []"
| "collect_routes known seen (r # rs) =
     (if route_key r \<notin> set known then collect_routes known seen rs
      else if route_key r \<in> set seen then collect_routes known seen rs
      else r # collect_routes known (route_key r # seen) rs)"

definition validate_routes ::
  "(string \<times> string) list \<Rightarrow> (string \<times> string) list \<Rightarrow> (string \<times> string) list + unit" where
  "validate_routes declared known =
     (let collisions = collect_routes (map route_key known) [] declared
      in if collisions = [] then Inr () else Inl collisions)"

section \<open>Errors and options\<close>

datatype registry_error =
    Reserved_Scope string
  | Known_Ids_Required
  | Capability_Mismatch "string list" string
  | Route_Collision "(string \<times> string) list" string
  | Action_Collision "string list" string
  | Agent_Config_Collision "string list" string
  | Namespace_Collision "string list" string
  | Capability_Config_Collision "string list" string
  | Bundle_Too_Large nat
  | Readback_Timeout string
  | No_Previous_Version
  | Version_Conflict string

record active_options =
  so_rationale :: "string option"
  so_session :: "string option"
  so_skip :: bool
  so_known :: "string list option"
  so_routes :: "(string \<times> string) list option"
  so_agent_namespaces :: "string list option"
  so_namespaces :: "string list option"
  so_capability_configs :: "string list option"

definition reserved_scopes :: "string list" where
  "reserved_scopes = [''spine'', ''llm'']"

definition find_reserved :: "json list \<Rightarrow> string option" where
  "find_reserved required = find (\<lambda>x. x \<in> set reserved_scopes) (List.map_filter req_id required)"

text \<open>The checks both registries make before a version becomes active.\<close>

definition check_catalog :: "json list \<Rightarrow> string \<Rightarrow> active_options \<Rightarrow> registry_error + unit" where
  "check_catalog required v opts =
     (case find_reserved required of
        Some x \<Rightarrow> Inl (Reserved_Scope x)
      | None \<Rightarrow>
          if so_skip opts then Inr ()
          else (case so_known opts of
                  None \<Rightarrow> Inl Known_Ids_Required
                | Some known \<Rightarrow>
                    (case validate_catalog required known of
                       Inl missing \<Rightarrow> Inl (Capability_Mismatch missing v)
                     | Inr _ \<Rightarrow> Inr ())))"

section \<open>The D1 registry\<close>

record version_row =
  bv_id :: string
  bv_kv_key :: string
  bv_size :: nat
  bv_created :: int
  bv_by :: "string option"
  bv_metadata :: "string option"

record agent_bundle =
  ab_agent :: string
  ab_active :: "string option"
  ab_previous :: "string option"
  ab_updated :: int

record deployment =
  dp_id :: nat
  dp_agent :: string
  dp_version :: "string option"
  dp_at :: int
  dp_session :: "string option"
  dp_rationale :: "string option"

text \<open>\<open>d1_last_id\<close> is the counter of the \<open>AUTOINCREMENT\<close> column.\<close>

record d1 =
  d1_versions :: "version_row list"
  d1_agents :: "agent_bundle list"
  d1_deployments :: "deployment list"
  d1_last_id :: nat
  d1_kv :: "string \<rightharpoonup> bytes"

definition empty_d1 :: d1 where
  "empty_d1 = \<lparr>d1_versions = [], d1_agents = [], d1_deployments = [], d1_last_id = 0, d1_kv = Map.empty\<rparr>"

record bundle_version =
  vn_id :: string
  vn_kv_key :: string
  vn_size :: nat
  vn_created :: int
  vn_by :: "string option"
  vn_metadata :: "json option"

definition d1_get_agent_bundle :: "d1 \<Rightarrow> string \<Rightarrow> agent_bundle option" where
  "d1_get_agent_bundle d a = get_row ab_agent a (d1_agents d)"

definition d1_get_active :: "d1 \<Rightarrow> string \<Rightarrow> string option" where
  "d1_get_active d a = (case get_row ab_agent a (d1_agents d) of None \<Rightarrow> None | Some r \<Rightarrow> ab_active r)"

text \<open>A metadata column that does not parse makes the read throw; it is written by \<open>stringify\<close>.\<close>

definition d1_get_version :: "d1 \<Rightarrow> string \<Rightarrow> bundle_version option" where
  "d1_get_version d v =
     map_option (\<lambda>r. \<lparr>vn_id = bv_id r, vn_kv_key = bv_kv_key r, vn_size = bv_size r,
         vn_created = bv_created r, vn_by = bv_by r,
         vn_metadata = (if truthy (bv_metadata r) then parse_json (the (bv_metadata r)) else None)\<rparr>)
       (get_row bv_id v (d1_versions d))"

definition kv_key :: "string \<Rightarrow> string" where
  "kv_key v = ''bundle:'' @ v"

definition d1_get_bytes :: "d1 \<Rightarrow> string \<Rightarrow> bytes option" where
  "d1_get_bytes d v = d1_kv d (kv_key v)"

text \<open>\<open>metadata?.requiredCapabilities\<close>, \<open>metadata?.lifecycleHooks\<close> and so on.\<close>

definition meta_field :: "json option \<Rightarrow> string \<Rightarrow> json option" where
  "meta_field m k = (case m of None \<Rightarrow> None | Some j \<Rightarrow> member j k)"

definition d1_required :: "d1 \<Rightarrow> string \<Rightarrow> json list" where
  "d1_required d v =
     elements (case d1_get_version d v of None \<Rightarrow> None | Some b \<Rightarrow> meta_field (vn_metadata b) ''requiredCapabilities'')"

definition insert_deployment ::
  "d1 \<Rightarrow> string \<Rightarrow> string option \<Rightarrow> int \<Rightarrow> string option \<Rightarrow> string option \<Rightarrow> d1" where
  "insert_deployment d a v now session rationale =
     d\<lparr>d1_deployments := d1_deployments d @ [\<lparr>dp_id = Suc (d1_last_id d), dp_agent = a, dp_version = v,
          dp_at = now, dp_session = session, dp_rationale = rationale\<rparr>],
       d1_last_id := Suc (d1_last_id d)\<rparr>"

text \<open>\<open>INSERT .. ON CONFLICT(agent_id) DO UPDATE\<close>.\<close>

definition upsert_pointer :: "d1 \<Rightarrow> string \<Rightarrow> string option \<Rightarrow> int \<Rightarrow> d1" where
  "upsert_pointer d a v now =
     (case get_row ab_agent a (d1_agents d) of
        None \<Rightarrow> d\<lparr>d1_agents := d1_agents d @
                 [\<lparr>ab_agent = a, ab_active = v, ab_previous = None, ab_updated = now\<rparr>]\<rparr>
      | Some _ \<Rightarrow> d\<lparr>d1_agents := update_rows (\<lambda>r. ab_agent r = a)
                 (\<lambda>r. r\<lparr>ab_previous := ab_active r, ab_active := v, ab_updated := now\<rparr>) (d1_agents d)\<rparr>)"

definition d1_set_active ::
  "d1 \<Rightarrow> string \<Rightarrow> string option \<Rightarrow> active_options \<Rightarrow> int \<Rightarrow> (registry_error + unit) \<times> d1" where
  "d1_set_active d a v opts now =
     (case (case v of None \<Rightarrow> Inr () | Some x \<Rightarrow> check_catalog (d1_required d x) x opts) of
        Inl e \<Rightarrow> (Inl e, d)
      | Inr _ \<Rightarrow>
          (Inr (), insert_deployment (upsert_pointer d a v now) a v now (so_session opts) (so_rationale opts)))"

definition d1_rollback ::
  "d1 \<Rightarrow> string \<Rightarrow> string option \<Rightarrow> string option \<Rightarrow> int \<Rightarrow> (registry_error + unit) \<times> d1" where
  "d1_rollback d a rationale session now =
     (case get_row ab_agent a (d1_agents d) of
        None \<Rightarrow> (Inl No_Previous_Version, d)
      | Some cur \<Rightarrow>
          if \<not> truthy (ab_previous cur) then (Inl No_Previous_Version, d)
          else (Inr (), insert_deployment
                 (d\<lparr>d1_agents := update_rows (\<lambda>r. ab_agent r = a)
                     (\<lambda>r. r\<lparr>ab_active := ab_previous cur, ab_previous := ab_active cur, ab_updated := now\<rparr>)
                     (d1_agents d)\<rparr>)
                 a (ab_previous cur) now session (Some (or_else rationale ''rollback''))))"

definition d1_list_deployments :: "d1 \<Rightarrow> string \<Rightarrow> nat option \<Rightarrow> deployment list" where
  "d1_list_deployments d a limit =
     take (min (or_else limit 20) 100)
       (rev (sort_key dp_at (sort_key dp_id (filter (\<lambda>r. dp_agent r = a) (d1_deployments d)))))"

section \<open>Storing versions\<close>

definition max_bundle_size :: nat where "max_bundle_size = 25 * 1024 * 1024"

definition metadata_keys :: "string list" where
  "metadata_keys = [''id'', ''name'', ''description'', ''declaredModel'', ''capabilityIds'', ''authoredBy'',
     ''version'', ''buildTimestamp'', ''runtimeHash'', ''sourceName'', ''requiredCapabilities'']"

definition metadata_string_max :: nat where "metadata_string_max = 256"
definition metadata_description_max :: nat where "metadata_description_max = 1024"
definition metadata_ids_max :: nat where "metadata_ids_max = 32"

text \<open>One declared requirement; only an object with a non-empty string \<open>id\<close> is kept.\<close>

definition sanitize_requirement :: "json \<Rightarrow> json option" where
  "sanitize_requirement j =
     (case req_id j of
        Some s \<Rightarrow> if s \<noteq> [] then Some (JObj [(''id'', JStr (take metadata_string_max s))]) else None
      | None \<Rightarrow> None)"

definition json_string :: "json \<Rightarrow> string option" where
  "json_string j = (case j of JStr s \<Rightarrow> Some s | _ \<Rightarrow> None)"

definition sanitize_entry :: "string \<times> json \<Rightarrow> (string \<times> json) option" where
  "sanitize_entry m =
     (let (k, v) = m
      in if k \<notin> set metadata_keys then None
         else if k = ''capabilityIds'' then
           (case v of
              JArr xs \<Rightarrow> Some (k, JArr (map (\<lambda>s. JStr (take metadata_string_max s))
                                 (List.map_filter json_string (take metadata_ids_max xs))))
            | _ \<Rightarrow> None)
         else if k = ''requiredCapabilities'' then
           (case v of
              JArr xs \<Rightarrow>
                (let rs = List.map_filter sanitize_requirement (take metadata_ids_max xs)
                 in if rs \<noteq> [] then Some (k, JArr rs) else None)
            | _ \<Rightarrow> None)
         else if k = ''buildTimestamp'' then (case v of JNum n \<Rightarrow> Some (k, v) | _ \<Rightarrow> None)
         else if k = ''description'' then
           map_option (\<lambda>s. (k, JStr (take metadata_description_max s))) (json_string v)
         else map_option (\<lambda>s. (k, JStr (take metadata_string_max s))) (json_string v))"

definition members_of :: "json \<Rightarrow> (string \<times> json) list" where
  "members_of j = (case j of JObj ms \<Rightarrow> ms | _ \<Rightarrow> [])"

definition sanitize_metadata :: "json \<Rightarrow> json" where
  "sanitize_metadata raw = object_of (List.map_filter sanitize_entry (members_of raw))"

definition hex_byte :: "8 word \<Rightarrow> string" where
  "hex_byte b = [hex_digit (unat b div 16), hex_digit (unat b mod 16)]"

definition version_id :: "(bytes \<Rightarrow> bytes) \<Rightarrow> bytes \<Rightarrow> string" where
  "version_id hash bs = concat (map hex_byte (hash bs))"

definition readback_delays :: "nat list" where
  "readback_delays = [50, 100, 200, 400, 800, 1600, 2000]"

text \<open>\<open>sees ms\<close>: whether a read that many milliseconds after the write finds the bytes.\<close>

fun readback_loop :: "(nat \<Rightarrow> bool) \<Rightarrow> nat \<Rightarrow> nat list \<Rightarrow> bool" where
  "readback_loop sees waited [] = False"
| "readback_loop sees waited (d # ds) = (if sees (waited + d) then True else readback_loop sees (waited + d) ds)"

definition d1_create_version ::
  "(bytes \<Rightarrow> bytes) \<Rightarrow> (nat \<Rightarrow> bool) \<Rightarrow> d1 \<Rightarrow> bytes \<Rightarrow> string option \<Rightarrow> json option \<Rightarrow> int \<Rightarrow>
    (registry_error + bundle_version) \<times> d1" where
  "d1_create_version hash sees d bs creator metadata now =
     (if length bs > max_bundle_size then (Inl (Bundle_Too_Large (length bs)), d)
      else
        let v = version_id hash bs; key = kv_key v
        in case d1_get_version d v of
             Some b \<Rightarrow> (Inr b, d)
           | None \<Rightarrow>
               (let meta = map_option sanitize_metadata metadata;
                    d1 = d\<lparr>d1_kv := (d1_kv d)(key \<mapsto> bs)\<rparr>
                in if \<not> readback_loop sees 0 readback_delays then (Inl (Readback_Timeout key), d1)
                   else
                     case insert_row bv_id \<lparr>bv_id = v, bv_kv_key = key, bv_size = length bs, bv_created = now,
                            bv_by = creator, bv_metadata = map_option stringify meta\<rparr> (d1_versions d1) of
                       None \<Rightarrow> (Inl (Version_Conflict v), d1)
                     | Some rows \<Rightarrow>
                         (Inr \<lparr>vn_id = v, vn_kv_key = key, vn_size = length bs, vn_created = now,
                                vn_by = creator, vn_metadata = meta\<rparr>,
                          d1\<lparr>d1_versions := rows\<rparr>)))"

section \<open>The in-memory registry\<close>

record mem_version =
  mv_bytes :: bytes
  mv_metadata :: "json option"
  mv_created :: int

record mem_pointer =
  mp_active :: "string option"
  mp_previous :: "string option"
  mp_updated :: int

record mem_deployment =
  md_agent :: string
  md_version :: "string option"
  md_rationale :: "string option"
  md_session :: "string option"
  md_at :: int

record memory =
  mm_versions :: "string \<rightharpoonup> mem_version"
  mm_pointers :: "string \<rightharpoonup> mem_pointer"
  mm_deployments :: "mem_deployment list"

definition mem_seed :: "memory \<Rightarrow> string \<Rightarrow> bytes \<Rightarrow> json option \<Rightarrow> int \<Rightarrow> memory" where
  "mem_seed m v bs metadata now =
     m\<lparr>mm_versions := (mm_versions m)(v \<mapsto> \<lparr>mv_bytes = bs, mv_metadata = metadata, mv_created = now\<rparr>)\<rparr>"

definition mem_get_active :: "memory \<Rightarrow> string \<Rightarrow> string option" where
  "mem_get_active m a = (case mm_pointers m a of None \<Rightarrow> None | Some p \<Rightarrow> mp_active p)"

definition mem_set_pointer :: "memory \<Rightarrow> string \<Rightarrow> string option \<Rightarrow> int \<Rightarrow> memory" where
  "mem_set_pointer m a v now =
     m\<lparr>mm_pointers := (mm_pointers m)(a \<mapsto> \<lparr>mp_active = v, mp_previous = mem_get_active m a, mp_updated = now\<rparr>)\<rparr>"

definition mem_metadata :: "memory \<Rightarrow> string \<Rightarrow> json option" where
  "mem_metadata m v = (case mm_versions m v of None \<Rightarrow> None | Some x \<Rightarrow> mv_metadata x)"

text \<open>\<open>\{ method, path \}\<close>; an entry without both strings is skipped.\<close>

definition json_route :: "json \<Rightarrow> (string \<times> string) option" where
  "json_route j =
     (case (member j ''method'', member j ''path'') of
        (Some (JStr m), Some (JStr p)) \<Rightarrow> Some (m, p)
      | _ \<Rightarrow> None)"

definition strings :: "json list \<Rightarrow> string list" where
  "strings js = List.map_filter json_string js"

definition check_routes :: "json option \<Rightarrow> string \<Rightarrow> active_options \<Rightarrow> registry_error + unit" where
  "check_routes surfaces v opts =
     (case (meta_field surfaces ''httpRoutes'', so_routes opts) of
        (Some (JArr rs), Some known) \<Rightarrow>
          (case validate_routes (List.map_filter json_route rs) known of
             Inl cs \<Rightarrow> Inl (Route_Collision cs v)
           | Inr _ \<Rightarrow> Inr ())
      | _ \<Rightarrow> Inr ())"

definition check_ids ::
  "string list \<Rightarrow> string list option \<Rightarrow> (string list \<Rightarrow> registry_error) \<Rightarrow> registry_error + unit" where
  "check_ids declared known err =
     (case validate_ids declared known of Inl cs \<Rightarrow> Inl (err cs) | Inr _ \<Rightarrow> Inr ())"

definition or_fail :: "registry_error + unit \<Rightarrow> registry_error + unit \<Rightarrow> registry_error + unit" where
  "or_fail r next = (case r of Inl e \<Rightarrow> Inl e | Inr _ \<Rightarrow> next)"

text \<open>The collision checks that follow the catalog check, in the order of the code.\<close>

definition check_collisions :: "json option \<Rightarrow> string \<Rightarrow> active_options \<Rightarrow> registry_error + unit" where
  "check_collisions meta v opts =
     (let surfaces = meta_field meta ''surfaces'';
          ids = (\<lambda>k. List.map_filter req_id (elements (meta_field meta k)))
      in or_fail (check_routes surfaces v opts)
          (or_fail (check_ids (strings (elements (meta_field surfaces ''actionCapabilityIds''))) (so_known opts)
               (\<lambda>cs. Action_Collision cs v))
          (or_fail (check_ids (case meta_field meta ''agentConfigSchemas'' of None \<Rightarrow> [] | Some j \<Rightarrow> map fst (members_of j))
               (so_agent_namespaces opts) (\<lambda>cs. Agent_Config_Collision cs v))
          (or_fail (check_ids (ids ''configNamespaces'') (so_namespaces opts) (\<lambda>cs. Namespace_Collision cs v))
            (check_ids (ids ''capabilityConfigs'') (so_capability_configs opts) (\<lambda>cs. Capability_Config_Collision cs v))))))"

definition mem_set_active ::
  "memory \<Rightarrow> string \<Rightarrow> string option \<Rightarrow> active_options \<Rightarrow> int \<Rightarrow> (registry_error + unit) \<times> memory" where
  "mem_set_active m a v opts now =
     (case (case v of
              None \<Rightarrow> Inr ()
            | Some x \<Rightarrow>
                or_fail (check_catalog (elements (meta_field (mem_metadata m x) ''requiredCapabilities'')) x opts)
                  (if so_skip opts then Inr () else check_collisions (mem_metadata m x) x opts)) of
        Inl e \<Rightarrow> (Inl e, m)
      | Inr _ \<Rightarrow>
          (Inr (), (mem_set_pointer m a v now)\<lparr>mm_deployments := mm_deployments m @
             [\<lparr>md_agent = a, md_version = v, md_rationale = so_rationale opts,
               md_session = so_session opts, md_at = now\<rparr>]\<rparr>))"

definition mem_get_bytes :: "memory \<Rightarrow> string \<Rightarrow> bytes option" where
  "mem_get_bytes m v = map_option mv_bytes (mm_versions m v)"

definition mem_version_of :: "string \<Rightarrow> mem_version \<Rightarrow> string option \<Rightarrow> bundle_version" where
  "mem_version_of v x creator =
     \<lparr>vn_id = v, vn_kv_key = kv_key v, vn_size = length (mv_bytes x), vn_created = mv_created x,
      vn_by = creator, vn_metadata = mv_metadata x\<rparr>"

definition mem_create_version ::
  "(bytes \<Rightarrow> bytes) \<Rightarrow> memory \<Rightarrow> bytes \<Rightarrow> string option \<Rightarrow> json option \<Rightarrow> int \<Rightarrow> bundle_version \<times> memory" where
  "mem_create_version hash m bs creator metadata now =
     (let v = version_id hash bs
      in case mm_versions m v of
           Some x \<Rightarrow> (mem_version_of v x creator, m)
         | None \<Rightarrow>
             (mem_version_of v \<lparr>mv_bytes = bs, mv_metadata = metadata, mv_created = now\<rparr> creator,
              mem_seed m v bs metadata now))"

section \<open>The interface of the dispatcher\<close>

text \<open>
  A registry as the dispatcher sees it. \<open>rg_version\<close> is missing for registries that cannot
  read metadata; it yields nothing for an unknown version, otherwise its metadata or null.
\<close>

record 'r registry =
  rg_active :: "'r \<Rightarrow> string \<Rightarrow> string option"
  rg_set :: "'r \<Rightarrow> string \<Rightarrow> string option \<Rightarrow> active_options \<Rightarrow> int \<Rightarrow> (registry_error + unit) \<times> 'r"
  rg_version :: "('r \<Rightarrow> string \<Rightarrow> json option option) option"
  rg_bytes :: "'r \<Rightarrow> string \<Rightarrow> bytes option"

definition d1_registry :: "d1 registry" where
  "d1_registry = \<lparr>rg_active = d1_get_active, rg_set = d1_set_active,
     rg_version = Some (\<lambda>d v. map_option vn_metadata (d1_get_version d v)), rg_bytes = d1_get_bytes\<rparr>"

definition mem_registry :: "memory registry" where
  "mem_registry = \<lparr>rg_active = mem_get_active, rg_set = mem_set_active,
     rg_version = Some (\<lambda>m v. map_option mv_metadata (mm_versions m v)), rg_bytes = mem_get_bytes\<rparr>"

definition required_of :: "'r registry \<Rightarrow> 'r \<Rightarrow> string \<Rightarrow> json list" where
  "required_of R s v =
     (case rg_version R of
        None \<Rightarrow> []
      | Some f \<Rightarrow> elements (meta_field (case f s v of None \<Rightarrow> None | Some m \<Rightarrow> m) ''requiredCapabilities''))"

definition required_ids :: "'r registry \<Rightarrow> 'r \<Rightarrow> string \<Rightarrow> string list" where
  "required_ids R s v = List.map_filter req_id (required_of R s v)"

text \<open>
  What the dispatcher relies on. Setting a pointer either fails and changes nothing, or
  succeeds, and then only the pointer of this agent has changed; clearing a pointer always
  succeeds; a version becomes active only if it requires no reserved scope and, unless the
  check is skipped, only capabilities the caller knows.
\<close>

locale bundle_registry =
  fixes R :: "'r registry"
  assumes set_active: "rg_set R s a v opts now = (Inr (), s') \<Longrightarrow> rg_active R s' a = v"
    and set_failed: "rg_set R s a v opts now = (Inl e, s') \<Longrightarrow> s' = s"
    and set_clears: "fst (rg_set R s a None opts now) = Inr ()"
    and set_others: "rg_set R s a v opts now = (r, s') \<Longrightarrow> b \<noteq> a \<Longrightarrow> rg_active R s' b = rg_active R s b"
    and set_versions: "rg_set R s a v opts now = (r, s') \<Longrightarrow> required_of R s' = required_of R s"
    and set_checked: "rg_set R s a (Some x) opts now = (Inr (), s') \<Longrightarrow>
      check_catalog (required_of R s x) x opts = Inr ()"

lemma set_collect: "set (collect keep seen xs) = {x \<in> set xs. keep x} - set seen"
  by (induction keep seen xs rule: collect.induct) auto

lemma distinct_collect: "distinct (collect keep seen xs)"
  by (induction keep seen xs rule: collect.induct) (auto simp: set_collect)

lemma validate_catalog_ok: "validate_catalog req known = Inr () \<longleftrightarrow> set (List.map_filter req_id req) \<subseteq> set known"
proof -
  have "collect (\<lambda>x. x \<notin> set known) [] (List.map_filter req_id req) = [] \<longleftrightarrow>
      set (collect (\<lambda>x. x \<notin> set known) [] (List.map_filter req_id req)) = {}"
    by simp
  then show ?thesis by (auto simp: validate_catalog_def Let_def set_collect simp del: set_empty)
qed

lemma check_catalog_ok:
  "check_catalog req v opts = Inr () \<longleftrightarrow>
    set (List.map_filter req_id req) \<inter> set reserved_scopes = {} \<and>
    (so_skip opts \<or> (\<exists>known. so_known opts = Some known \<and> set (List.map_filter req_id req) \<subseteq> set known))"
proof (cases "find_reserved req")
  case None
  then have "set (List.map_filter req_id req) \<inter> set reserved_scopes = {}"
    by (auto simp: find_reserved_def find_None_iff)
  moreover have "validate_catalog req known = Inl missing \<Longrightarrow> \<not> set (List.map_filter req_id req) \<subseteq> set known" for known missing
    using validate_catalog_ok [of req known] by auto
  ultimately show ?thesis
    using None validate_catalog_ok [of req] by (auto simp: check_catalog_def split: option.splits sum.splits)
next
  case (Some x)
  then have "x \<in> set (List.map_filter req_id req)" "x \<in> set reserved_scopes"
    by (auto simp: find_reserved_def find_Some_iff in_set_conv_nth)
  with Some show ?thesis by (auto simp: check_catalog_def)
qed

lemma get_row_snoc_new:
  "get_row pk (pk r) t = None \<Longrightarrow> get_row pk k (t @ [r]) = (if k = pk r then Some r else get_row pk k t)"
  by (auto simp: get_row_append get_row_Cons get_row_Nil split: option.split)

lemma insert_deployment_simps [simp]:
  "d1_agents (insert_deployment d a v t s r) = d1_agents d"
  "d1_versions (insert_deployment d a v t s r) = d1_versions d"
  "d1_kv (insert_deployment d a v t s r) = d1_kv d"
  by (simp_all add: insert_deployment_def)

lemma upsert_pointer_simps [simp]:
  "d1_versions (upsert_pointer d a v t) = d1_versions d" "d1_kv (upsert_pointer d a v t) = d1_kv d"
  "d1_deployments (upsert_pointer d a v t) = d1_deployments d"
  by (simp_all add: upsert_pointer_def split: option.split)

lemma upsert_pointer_row:
  "get_row ab_agent b (d1_agents (upsert_pointer d a v t)) =
    (if b = a then Some \<lparr>ab_agent = a, ab_active = v, ab_previous = d1_get_active d a, ab_updated = t\<rparr>
     else get_row ab_agent b (d1_agents d))"
proof (cases "get_row ab_agent a (d1_agents d)")
  case None
  then show ?thesis
    using get_row_snoc_new [of ab_agent "\<lparr>ab_agent = a, ab_active = v, ab_previous = None, ab_updated = t\<rparr>" "d1_agents d" b]
    by (simp add: upsert_pointer_def d1_get_active_def)
next
  case (Some r)
  then have "ab_agent r = a" by (auto dest: get_row_SomeD)
  have "get_row ab_agent b (d1_agents (upsert_pointer d a v t)) =
      map_option (\<lambda>r. if ab_agent r = a then r\<lparr>ab_previous := ab_active r, ab_active := v, ab_updated := t\<rparr> else r)
        (get_row ab_agent b (d1_agents d))"
    using Some by (simp add: upsert_pointer_def table_simps)
  note eq = this
  show ?thesis
  proof (cases "b = a")
    case True
    then show ?thesis using eq Some \<open>ab_agent r = a\<close> by (simp add: d1_get_active_def)
  next
    case False
    then have "ab_agent q \<noteq> a" if "get_row ab_agent b (d1_agents d) = Some q" for q
      using get_row_SomeD [OF that] by simp
    then show ?thesis using eq False by (cases "get_row ab_agent b (d1_agents d)") simp_all
  qed
qed

lemma d1_active_upsert:
  "d1_get_active (upsert_pointer d a v t) b = (if b = a then v else d1_get_active d b)"
  by (simp add: d1_get_active_def [of "upsert_pointer d a v t"] upsert_pointer_row d1_get_active_def)

lemma d1_active_insert [simp]: "d1_get_active (insert_deployment d a v t s r) = d1_get_active d"
  by (simp add: fun_eq_iff d1_get_active_def)

lemma d1_version_simps [simp]:
  "d1_get_version (insert_deployment d a v t s r) = d1_get_version d"
  "d1_get_version (upsert_pointer d a v t) = d1_get_version d"
  by (simp_all add: fun_eq_iff d1_get_version_def)

lemma d1_required_eq: "required_of d1_registry d v = d1_required d v"
  by (simp add: required_of_def d1_required_def d1_registry_def meta_field_def split: option.split)

interpretation d1_store: bundle_registry d1_registry
proof
  show "rg_set d1_registry s a v opts now = (Inr (), s') \<Longrightarrow> rg_active d1_registry s' a = v" for s a v opts now s'
    by (auto simp: d1_registry_def d1_set_active_def d1_active_upsert split: sum.splits)
  show "rg_set d1_registry s a v opts now = (Inl e, s') \<Longrightarrow> s' = s" for s a v opts now e s'
    by (auto simp: d1_registry_def d1_set_active_def split: sum.splits)
  show "fst (rg_set d1_registry s a None opts now) = Inr ()" for s a opts now
    by (simp add: d1_registry_def d1_set_active_def)
  show "rg_set d1_registry s a v opts now = (r, s') \<Longrightarrow> b \<noteq> a \<Longrightarrow> rg_active d1_registry s' b = rg_active d1_registry s b"
    for s a v opts now r s' b
    by (auto simp: d1_registry_def d1_set_active_def d1_active_upsert split: sum.splits)
  show "rg_set d1_registry s a v opts now = (r, s') \<Longrightarrow> required_of d1_registry s' = required_of d1_registry s"
    for s a v opts now r s'
    by (auto simp: d1_required_eq d1_required_def d1_registry_def d1_set_active_def fun_eq_iff required_of_def split: sum.splits)
  show "rg_set d1_registry s a (Some x) opts now = (Inr (), s') \<Longrightarrow>
      check_catalog (required_of d1_registry s x) x opts = Inr ()" for s a x opts now s'
    unfolding d1_required_eq by (auto simp: d1_registry_def d1_set_active_def split: sum.splits)
qed

lemma mem_required_eq:
  "required_of mem_registry m v = elements (meta_field (mem_metadata m v) ''requiredCapabilities'')"
  by (simp add: required_of_def mem_registry_def mem_metadata_def split: option.split)

lemma or_fail_ok: "or_fail r n = Inr () \<longleftrightarrow> r = Inr () \<and> n = Inr ()"
  by (auto simp: or_fail_def split: sum.splits)

lemma mem_versions_pointer [simp]: "mm_versions (mem_set_pointer m a v now) = mm_versions m"
  by (simp add: mem_set_pointer_def)

interpretation mem_store: bundle_registry mem_registry
proof
  show "rg_set mem_registry s a v opts now = (Inr (), s') \<Longrightarrow> rg_active mem_registry s' a = v" for s a v opts now s'
    by (auto simp: mem_registry_def mem_set_active_def mem_get_active_def mem_set_pointer_def split: sum.splits)
  show "rg_set mem_registry s a v opts now = (Inl e, s') \<Longrightarrow> s' = s" for s a v opts now e s'
    by (auto simp: mem_registry_def mem_set_active_def split: sum.splits)
  show "fst (rg_set mem_registry s a None opts now) = Inr ()" for s a opts now
    by (simp add: mem_registry_def mem_set_active_def)
  show "rg_set mem_registry s a v opts now = (r, s') \<Longrightarrow> b \<noteq> a \<Longrightarrow> rg_active mem_registry s' b = rg_active mem_registry s b"
    for s a v opts now r s' b
    by (auto simp: mem_registry_def mem_set_active_def mem_get_active_def mem_set_pointer_def split: sum.splits)
  show "rg_set mem_registry s a v opts now = (r, s') \<Longrightarrow> required_of mem_registry s' = required_of mem_registry s"
    for s a v opts now r s'
    by (auto simp: mem_required_eq fun_eq_iff mem_registry_def mem_set_active_def required_of_def mem_metadata_def split: sum.splits)
  show "rg_set mem_registry s a (Some x) opts now = (Inr (), s') \<Longrightarrow>
      check_catalog (required_of mem_registry s x) x opts = Inr ()" for s a x opts now s'
    unfolding mem_required_eq
    by (auto simp: mem_registry_def mem_set_active_def or_fail_def split: sum.splits)
qed

section \<open>Stored versions can be read back\<close>

lemma put_member_keys: "fst ` set (put_member m xs) = insert (fst m) (fst ` set xs)"
  by (induction xs) auto

lemma put_member_distinct: "distinct (map fst xs) \<Longrightarrow> distinct (map fst (put_member m xs))"
proof (induction xs)
  case (Cons x xs)
  then show ?case using put_member_keys [of m xs] by (auto simp flip: set_map)
qed simp

lemma put_member_values: "set (put_member m xs) \<subseteq> insert m (set xs)"
  by (induction xs) auto

lemma fold_put_member_ok:
  "distinct (map fst xs) \<Longrightarrow> distinct (map fst (fold put_member ms xs)) \<and> set (fold put_member ms xs) \<subseteq> set ms \<union> set xs"
proof (induction ms arbitrary: xs)
  case (Cons m ms)
  from Cons.IH [OF put_member_distinct [OF Cons.prems]] put_member_values [of m xs] show ?case by fastforce
qed simp

lemma object_of_keys:
  assumes "\<forall>m \<in> set ms. distinct_keys (snd m)"
  shows "distinct_keys (object_of ms)"
  using fold_put_member_ok [of "[]" ms] assms by (fastforce simp: object_of_def list_all_iff)

lemma sanitize_entry_keys:
  "sanitize_entry (k, v) = Some (k', v') \<Longrightarrow> distinct_keys v' \<and> k' = k \<and> k \<in> set metadata_keys"
  by (auto simp: sanitize_entry_def list_all_iff map_filter_def sanitize_requirement_def Let_def
      split: if_splits json.splits option.splits)

lemma sanitize_metadata_keys: "distinct_keys (sanitize_metadata raw)"
  unfolding sanitize_metadata_def
  by (rule object_of_keys) (auto simp: map_filter_def dest: sanitize_entry_keys)

lemma sanitize_metadata_members:
  "member (sanitize_metadata raw) k = Some j \<Longrightarrow> k \<in> set metadata_keys"
proof -
  assume "member (sanitize_metadata raw) k = Some j"
  then have "(k, j) \<in> set (fold put_member (List.map_filter sanitize_entry (members_of raw)) [])"
    by (simp add: sanitize_metadata_def object_of_def map_of_SomeD)
  then have "(k, j) \<in> set (List.map_filter sanitize_entry (members_of raw))"
    using fold_put_member_ok [of "[]" "List.map_filter sanitize_entry (members_of raw)"] by auto
  then show "k \<in> set metadata_keys" by (auto simp: map_filter_def dest: sanitize_entry_keys)
qed

lemma stringify_not_Nil: "stringify j \<noteq> []"
  using stringify_head [of j] by auto

lemma d1_create_new:
  assumes "d1_create_version hash sees d bs creator meta now = (Inr b, d')" "d1_get_version d (version_id hash bs) = None"
  shows "d1_get_version d' = (d1_get_version d)(version_id hash bs \<mapsto> b) \<and>
    d1_kv d' = (d1_kv d)(kv_key (version_id hash bs) \<mapsto> bs) \<and>
    vn_metadata b = map_option sanitize_metadata meta \<and> vn_size b = length bs \<and> length bs \<le> max_bundle_size"
proof -
  let ?v = "version_id hash bs"
  let ?row = "\<lparr>bv_id = ?v, bv_kv_key = kv_key ?v, bv_size = length bs, bv_created = now, bv_by = creator,
    bv_metadata = map_option stringify (map_option sanitize_metadata meta)\<rparr>"
  from assms obtain rows where rows: "insert_row bv_id ?row (d1_versions d) = Some rows"
    and d': "d' = d\<lparr>d1_kv := (d1_kv d)(kv_key ?v \<mapsto> bs), d1_versions := rows\<rparr>"
    and b: "b = \<lparr>vn_id = ?v, vn_kv_key = kv_key ?v, vn_size = length bs, vn_created = now, vn_by = creator,
      vn_metadata = map_option sanitize_metadata meta\<rparr>"
    and small: "length bs \<le> max_bundle_size"
    by (auto simp: d1_create_version_def Let_def split: if_splits option.splits)
  have "d1_get_version d' w = ((d1_get_version d)(?v \<mapsto> b)) w" for w
    using get_row_insert [OF rows, of w]
    by (simp add: d1_get_version_def d' b parse_stringify sanitize_metadata_keys stringify_not_Nil
        split: option.split) (cases meta; simp add: parse_stringify sanitize_metadata_keys stringify_not_Nil)
  then show ?thesis using b d' small by auto
qed

text \<open>C34: A bundle version that has been created can be read back under the hash of its bytes, with its
  bytes and its sanitised metadata, and no other version changes. When the bytes are already
  stored the old version is returned as it is: the new metadata is ignored.\<close>

theorem created_version_reads_back:
  assumes "d1_create_version hash sees d bs creator meta now = (Inr b, d')"
  shows "d1_get_version d' (version_id hash bs) = Some b \<and>
    (\<forall>w. w \<noteq> version_id hash bs \<longrightarrow> d1_get_version d' w = d1_get_version d w) \<and>
    (case d1_get_version d (version_id hash bs) of
       None \<Rightarrow> d1_get_bytes d' (version_id hash bs) = Some bs \<and> vn_metadata b = map_option sanitize_metadata meta
     | Some old \<Rightarrow> b = old \<and> d' = d)"
proof (cases "d1_get_version d (version_id hash bs)")
  case None
  from d1_create_new [OF assms this] None show ?thesis by (simp add: d1_get_bytes_def)
next
  case (Some old)
  then have "b = old \<and> d' = d" using assms by (auto simp: d1_create_version_def Let_def split: if_splits)
  with Some show ?thesis by simp
qed

definition hooked_metadata :: json where
  "hooked_metadata = JObj [(''name'', JStr ''demo''), (''lifecycleHooks'', JObj [(''onAlarm'', JBool True)]),
     (''surfaces'', JObj [(''httpRoutes'', JArr [JObj [(''method'', JStr ''GET''), (''path'', JStr ''/x'')]])]),
     (''requiredCapabilities'', JArr [JObj [(''id'', JStr ''search'')]])]"

theorem created_version_reads_back_witness:
  "\<exists>b d'. d1_create_version id (\<lambda>t. t > 60) empty_d1 [1] None (Some hooked_metadata) 5 = (Inr b, d') \<and>
    d1_get_version d' ''01'' = Some b \<and> d1_get_bytes d' ''01'' = Some [1] \<and>
    vn_metadata b = Some (sanitize_metadata hooked_metadata)"
proof -
  have v: "version_id id [1] = ''01''" by code_simp
  have none: "d1_get_version empty_d1 ''01'' = None" by (simp add: empty_d1_def d1_get_version_def table_simps)
  obtain b d' where b: "d1_create_version id (\<lambda>t. t > 60) empty_d1 [1] None (Some hooked_metadata) 5 = (Inr b, d')"
    by (simp add: d1_create_version_def max_bundle_size_def Let_def v none readback_delays_def insert_row_def)
      (simp add: empty_d1_def)
  from created_version_reads_back [OF this] b none show ?thesis by (auto simp: v)
qed

definition empty_memory :: memory where
  "empty_memory = \<lparr>mm_versions = Map.empty, mm_pointers = Map.empty, mm_deployments = []\<rparr>"

text \<open>A host with one capability and one route.\<close>

definition host_options :: active_options where
  "host_options = \<lparr>so_rationale = None, so_session = None, so_skip = False, so_known = Some [''search''],
     so_routes = Some [(''GET'', ''/x'')], so_agent_namespaces = None, so_namespaces = None,
     so_capability_configs = None\<rparr>"

text \<open>The production registry keeps none of the fields that lifecycle dispatch and the collision
  guards read: a version created with them has no lifecycle hooks, surfaces or configuration
  declarations. The in-memory registry keeps them, so it refuses to activate a version whose
  route collides with the host's, and the production registry activates it.\<close>

theorem d1_registry_forgets_surfaces:
  "\<exists>b d c m. d1_create_version id (\<lambda>_. True) empty_d1 [1] None (Some hooked_metadata) 5 = (Inr b, d) \<and>
     mem_create_version id empty_memory [1] None (Some hooked_metadata) 5 = (c, m) \<and>
     meta_field (vn_metadata b) ''lifecycleHooks'' = None \<and> meta_field (vn_metadata b) ''surfaces'' = None \<and>
     meta_field (vn_metadata c) ''lifecycleHooks'' = Some (JObj [(''onAlarm'', JBool True)]) \<and>
     fst (d1_set_active d ''a'' (Some ''01'') host_options 6) = Inr () \<and>
     fst (mem_set_active m ''a'' (Some ''01'') host_options 6) = Inl (Route_Collision [(''GET'', ''/x'')] ''01'')"
proof -
  have v: "version_id id [1] = ''01''" by code_simp
  have none: "d1_get_version empty_d1 ''01'' = None" by (simp add: empty_d1_def d1_get_version_def table_simps)
  obtain b d where b: "d1_create_version id (\<lambda>_. True) empty_d1 [1] None (Some hooked_metadata) 5 = (Inr b, d)"
    by (simp add: d1_create_version_def max_bundle_size_def Let_def v none readback_delays_def insert_row_def)
      (simp add: empty_d1_def)
  have kept: "sanitize_metadata hooked_metadata =
      JObj [(''name'', JStr ''demo''), (''requiredCapabilities'', JArr [JObj [(''id'', JStr ''search'')]])]"
    by code_simp
  have d: "d1_get_version d ''01'' = Some b" "vn_metadata b = Some (sanitize_metadata hooked_metadata)"
    using d1_create_new [OF b] none by (simp_all add: v)
  have "fst (d1_set_active d ''a'' (Some ''01'') host_options 6) = Inr ()"
    by (simp add: d1_set_active_def d1_required_def d kept meta_field_def elements_def host_options_def
        check_catalog_def find_reserved_def reserved_scopes_def req_id_def map_filter_simps validate_catalog_def)
  moreover have "fst (mem_set_active (snd (mem_create_version id empty_memory [1] None (Some hooked_metadata) 5))
      ''a'' (Some ''01'') host_options 6) = Inl (Route_Collision [(''GET'', ''/x'')] ''01'')"
    by (simp add: mem_create_version_def empty_memory_def v Let_def mem_set_active_def mem_metadata_def mem_seed_def
        hooked_metadata_def meta_field_def elements_def host_options_def or_fail_def
        check_catalog_def find_reserved_def reserved_scopes_def req_id_def map_filter_simps validate_catalog_def
        check_collisions_def check_routes_def validate_routes_def json_route_def route_key_def)
  moreover have "vn_metadata (fst (mem_create_version id empty_memory [1] None (Some hooked_metadata) 5)) = Some hooked_metadata"
    by (simp add: mem_create_version_def empty_memory_def mem_version_of_def Let_def)
  ultimately show ?thesis
    using b d kept by (cases "mem_create_version id empty_memory [1] None (Some hooked_metadata) 5")
      (auto simp: meta_field_def hooked_metadata_def)
qed

section \<open>Promotion, rollback and the deployment log\<close>

text \<open>A version becomes active only after the catalog check: none of the capabilities it requires
  is a reserved scope, and unless the caller skips the check all of them are known to the
  host. A refused promotion changes nothing.\<close>

theorem promotion_is_checked:
  assumes "d1_set_active d a (Some v) opts now = (r, d')"
  shows "(case r of
      Inl e \<Rightarrow> d' = d
    | Inr _ \<Rightarrow> d1_get_active d' a = Some v \<and> (\<forall>b. b \<noteq> a \<longrightarrow> d1_get_active d' b = d1_get_active d b) \<and>
        set (required_ids d1_registry d v) \<inter> {''spine'', ''llm''} = {} \<and>
        (so_skip opts \<or> set (required_ids d1_registry d v) \<subseteq> set (or_else (so_known opts) [])))"
proof -
  have set: "rg_set d1_registry d a (Some v) opts now = (r, d')" using assms by (simp add: d1_registry_def)
  show ?thesis
  proof (cases r)
    case (Inl e)
    then show ?thesis using d1_store.set_failed set by simp
  next
    case (Inr u)
    then have ok: "rg_set d1_registry d a (Some v) opts now = (Inr (), d')" using set by simp
    have "check_catalog (required_of d1_registry d v) v opts = Inr ()" by (rule d1_store.set_checked [OF ok])
    then have "set (required_ids d1_registry d v) \<inter> {''spine'', ''llm''} = {}"
      "so_skip opts \<or> set (required_ids d1_registry d v) \<subseteq> set (or_else (so_known opts) [])"
      by (auto simp: check_catalog_ok reserved_scopes_def required_ids_def)
    moreover have "d1_get_active d' a = Some v" using d1_store.set_active [OF ok] by (simp add: d1_registry_def)
    moreover have "d1_get_active d' b = d1_get_active d b" if "b \<noteq> a" for b
      using d1_store.set_others [OF ok that] by (simp add: d1_registry_def)
    ultimately show ?thesis using Inr by simp
  qed
qed

theorem promotion_is_checked_witness:
  "d1_get_active (snd (d1_set_active empty_d1 ''a'' (Some ''v'') host_options 1)) ''a'' = Some ''v''"
proof -
  obtain d' where d': "d1_set_active empty_d1 ''a'' (Some ''v'') host_options 1 = (Inr (), d')"
    by (simp add: d1_set_active_def d1_required_def d1_get_version_def empty_d1_def table_simps elements_def
        check_catalog_def find_reserved_def map_filter_simps host_options_def validate_catalog_def)
  from promotion_is_checked [OF d'] d' show ?thesis by simp
qed

lemma rollback_row:
  assumes "get_row ab_agent a (d1_agents d) = Some cur" "truthy (ab_previous cur)"
  obtains d' where "d1_rollback d a rationale session now = (Inr (), d')"
    "get_row ab_agent a (d1_agents d') =
      Some (cur\<lparr>ab_active := ab_previous cur, ab_previous := ab_active cur, ab_updated := now\<rparr>)"
proof -
  have "ab_agent cur = a" using assms(1) by (auto dest: get_row_SomeD)
  obtain d' where d': "d1_rollback d a rationale session now = (Inr (), d')"
    using assms by (simp add: d1_rollback_def)
  then have "d1_agents d' = update_rows (\<lambda>r. ab_agent r = a)
      (\<lambda>r. r\<lparr>ab_active := ab_previous cur, ab_previous := ab_active cur, ab_updated := now\<rparr>) (d1_agents d)"
    using assms by (auto simp: d1_rollback_def)
  then show thesis using assms \<open>ab_agent cur = a\<close> by (intro that [OF d']) (simp add: table_simps)
qed

text \<open>A rollback activates the previous version, whatever it requires: nothing is checked. A second
  rollback restores the version that was active before the first.\<close>

theorem rollback_twice_restores:
  assumes "get_row ab_agent a (d1_agents d) = Some cur"
    and "truthy (ab_previous cur)" and "truthy (ab_active cur)"
  shows "\<exists>d' d''. d1_rollback d a reason session now = (Inr (), d') \<and> d1_get_active d' a = ab_previous cur \<and>
    d1_rollback d' a reason' session' now' = (Inr (), d'') \<and>
    get_row ab_agent a (d1_agents d'') = Some (cur\<lparr>ab_updated := now'\<rparr>)"
proof -
  obtain d' where d': "d1_rollback d a reason session now = (Inr (), d')"
    "get_row ab_agent a (d1_agents d') =
      Some (cur\<lparr>ab_active := ab_previous cur, ab_previous := ab_active cur, ab_updated := now\<rparr>)"
    by (rule rollback_row [OF assms(1,2)])
  obtain d'' where "d1_rollback d' a reason' session' now' = (Inr (), d'')"
    "get_row ab_agent a (d1_agents d'') = Some (cur\<lparr>ab_updated := now'\<rparr>)"
    by (rule rollback_row [OF d'(2), of reason' session' now']) (use assms(3) in simp_all)
  with d' show ?thesis by (auto simp: d1_get_active_def)
qed

definition two_versions :: d1 where
  "two_versions = empty_d1\<lparr>d1_agents :=
     [\<lparr>ab_agent = ''a'', ab_active = Some ''v2'', ab_previous = Some ''v1'', ab_updated = 0\<rparr>]\<rparr>"

theorem rollback_twice_restores_witness:
  "\<exists>d' d''. d1_rollback two_versions ''a'' None None 1 = (Inr (), d') \<and> d1_get_active d' ''a'' = Some ''v1'' \<and>
    d1_rollback d' ''a'' None None 2 = (Inr (), d'') \<and> d1_get_active d'' ''a'' = Some ''v2''"
proof -
  have "get_row ab_agent ''a'' (d1_agents two_versions) =
      Some \<lparr>ab_agent = ''a'', ab_active = Some ''v2'', ab_previous = Some ''v1'', ab_updated = 0\<rparr>"
    by (simp add: two_versions_def table_simps)
  from rollback_twice_restores [OF this, of None None 1 None None 2] show ?thesis
    by (auto simp: d1_get_active_def)
qed

text \<open>The operations of the registry, and the state they lead to.\<close>

datatype d1_op =
    Set_Active string "string option" active_options int
  | Rollback string "string option" "string option" int
  | Create_Version "bytes" "string option" "json option" "nat \<Rightarrow> bool" int

definition d1_step :: "(bytes \<Rightarrow> bytes) \<Rightarrow> d1_op \<Rightarrow> d1 \<Rightarrow> d1" where
  "d1_step hash x d =
     (case x of
        Set_Active a v opts now \<Rightarrow> snd (d1_set_active d a v opts now)
      | Rollback a rationale session now \<Rightarrow> snd (d1_rollback d a rationale session now)
      | Create_Version bs creator meta sees now \<Rightarrow> snd (d1_create_version hash sees d bs creator meta now))"

definition latest_deployment :: "d1 \<Rightarrow> string \<Rightarrow> string option" where
  "latest_deployment d a =
     (case rev (filter (\<lambda>p. dp_agent p = a) (d1_deployments d)) of [] \<Rightarrow> None | p # _ \<Rightarrow> dp_version p)"

lemma latest_insert:
  "latest_deployment (insert_deployment d a v t s r) b = (if b = a then v else latest_deployment d b)"
  by (simp add: latest_deployment_def insert_deployment_def)

lemma create_keeps_pointers:
  "d1_agents (snd (d1_create_version hash sees d bs c m now)) = d1_agents d \<and>
   d1_deployments (snd (d1_create_version hash sees d bs c m now)) = d1_deployments d"
  by (auto simp: d1_create_version_def Let_def split: option.split)

lemma latest_cong: "d1_deployments d' = d1_deployments d \<Longrightarrow> latest_deployment d' = latest_deployment d"
  by (simp add: fun_eq_iff latest_deployment_def)

lemma active_cong: "d1_agents d' = d1_agents d \<Longrightarrow> d1_get_active d' = d1_get_active d"
  by (simp add: fun_eq_iff d1_get_active_def)

lemma step_log_agrees:
  assumes "\<forall>a. latest_deployment d a = d1_get_active d a"
  shows "\<forall>a. latest_deployment (d1_step hash x d) a = d1_get_active (d1_step hash x d) a"
proof (cases x)
  case (Set_Active a v opts now)
  then show ?thesis
    using assms
    by (simp add: d1_step_def d1_set_active_def latest_insert d1_active_upsert
        latest_cong [OF upsert_pointer_simps(3)] split: sum.split)
next
  case (Create_Version bs c m sees now)
  note kept = create_keeps_pointers [of hash sees d bs c m now]
  have "latest_deployment (snd (d1_create_version hash sees d bs c m now)) = latest_deployment d"
    "d1_get_active (snd (d1_create_version hash sees d bs c m now)) = d1_get_active d"
    by (rule latest_cong active_cong, use kept in blast)+
  then show ?thesis using assms Create_Version by (simp add: d1_step_def)
next
  case (Rollback a rationale session now)
  show ?thesis
  proof (cases "\<exists>cur. get_row ab_agent a (d1_agents d) = Some cur \<and> truthy (ab_previous cur)")
    case False
    then have "d1_step hash x d = d"
      using Rollback by (auto simp: d1_step_def d1_rollback_def split: option.split)
    then show ?thesis using assms by simp
  next
    case True
    then obtain cur where cur: "get_row ab_agent a (d1_agents d) = Some cur" "truthy (ab_previous cur)" by blast
    let ?d = "d\<lparr>d1_agents := update_rows (\<lambda>r. ab_agent r = a)
        (\<lambda>r. r\<lparr>ab_active := ab_previous cur, ab_previous := ab_active cur, ab_updated := now\<rparr>) (d1_agents d)\<rparr>"
    have step: "d1_step hash x d =
        insert_deployment ?d a (ab_previous cur) now session (Some (or_else rationale ''rollback''))"
      using Rollback cur by (simp add: d1_step_def d1_rollback_def)
    have "d1_get_active ?d b = (if b = a then ab_previous cur else d1_get_active d b)" for b
    proof (cases "get_row ab_agent b (d1_agents d)")
      case None
      then show ?thesis using cur(1) by (auto simp: d1_get_active_def table_simps)
    next
      case (Some r)
      then have "ab_agent r = b" by (auto dest: get_row_SomeD)
      with Some show ?thesis by (simp add: d1_get_active_def table_simps)
    qed
    moreover have "latest_deployment ?d = latest_deployment d" by (rule latest_cong) simp
    ultimately show ?thesis using assms unfolding step by (simp add: latest_insert)
  qed
qed

text \<open>C40: In every state of the registry the log of deployments tells which version is active: an
  agent's pointer is the version of its latest deployment, and empty if it has none.\<close>

theorem log_tells_active_version:
  "latest_deployment (fold (d1_step hash) ops empty_d1) a = d1_get_active (fold (d1_step hash) ops empty_d1) a"
proof -
  have "\<forall>a. latest_deployment empty_d1 a = d1_get_active empty_d1 a"
    by (simp add: empty_d1_def latest_deployment_def d1_get_active_def table_simps)
  then have "\<forall>a. latest_deployment (fold (d1_step hash) ops d) a = d1_get_active (fold (d1_step hash) ops d) a"
    if "d = empty_d1" for d
    using that step_log_agrees by (induction ops rule: rev_induct) simp_all
  then show ?thesis by simp
qed

end
