(* ===== verification/Bundle_Dispatch.thy ===== *)
theory Bundle_Dispatch
  imports Bundle_Token Bundle_Registry
begin

text \<open>
  \<open>BundleDispatcher\<close> (\<open>packages/runtime/bundle-host/src/dispatcher.ts\<close>) and the loader
  configuration (\<open>loader-config.ts\<close>): the state of the dispatcher, the cached pointer in the
  durable object's storage, the registry and the events it broadcasts. The worker that runs
  a bundle is a function of the configuration it is loaded with; \<open>Inl\<close> is an error it
  throws (missing bytes, a failed load, a status that is not OK).
\<close>

section \<open>Bundle payloads\<close>

definition is_envelope :: "json \<Rightarrow> bool" where
  "is_envelope j \<longleftrightarrow> member j ''v'' = Some (JNum 1) \<and>
     (case member j ''mainModule'' of Some (JStr _) \<Rightarrow> True | _ \<Rightarrow> False) \<and>
     (case member j ''modules'' of Some (JObj _) \<Rightarrow> True | Some (JArr _) \<Rightarrow> True | _ \<Rightarrow> False)"

definition legacy_payload :: "string \<Rightarrow> json \<times> json" where
  "legacy_payload source = (JStr ''bundle.js'', JObj [(''bundle.js'', JStr source)])"

text \<open>The main module and the modules.\<close>

definition decode_bundle_payload :: "string \<Rightarrow> json \<times> json" where
  "decode_bundle_payload source =
     (if take 1 (trim_start source) = [CHR 0x7B]
      then (case parse_json source of
              None \<Rightarrow> legacy_payload source
            | Some j \<Rightarrow>
                if is_envelope j then (the (member j ''mainModule''), the (member j ''modules''))
                else legacy_payload source)
      else legacy_payload source)"

record loader_config =
  lc_main :: json
  lc_modules :: json
  lc_env :: "(string \<times> json) list"

text \<open>Later members win in an object spread.\<close>

definition spread :: "(string \<times> json) list \<Rightarrow> (string \<times> json) list \<Rightarrow> (string \<times> json) list" where
  "spread base extra = fold put_member extra base"

definition compose_loader_config ::
  "'k crypto \<Rightarrow> bytes \<Rightarrow> (string \<times> json) list \<Rightarrow> string \<Rightarrow> string \<Rightarrow> (string \<times> json) list \<Rightarrow> loader_config" where
  "compose_loader_config P bs env token v extras =
     (let (main, modules) = decode_bundle_payload (cr_decode P bs)
      in \<lparr>lc_main = main, lc_modules = modules,
          lc_env = spread (spread env [(''__BUNDLE_TOKEN'', JStr token), (''__BUNDLE_VERSION_ID'', JStr v)]) extras\<rparr>)"

section \<open>State\<close>

record dispatcher =
  dd_active :: "string option"
  dd_failures :: nat
  dd_validated :: "string option"

definition fresh_dispatcher :: dispatcher where
  "fresh_dispatcher = \<lparr>dd_active = None, dd_failures = 0, dd_validated = None\<rparr>"

text \<open>
  \<open>hs_cache\<close>: no storage given; otherwise the value under \<open>activeBundleVersionId\<close>, which is
  absent, null or an id. \<open>hs_disabled\<close> lists the \<open>bundle_disabled\<close> events.
\<close>

record 'r host =
  hs_disp :: dispatcher
  hs_reg :: 'r
  hs_cache :: "string option option option"
  hs_disabled :: "(string \<times> string list \<times> string) list"

record ('k, 'r) dispatch_config =
  dc_registry :: "'r registry"
  dc_agent :: string
  dc_host_ids :: "string list"
  dc_env :: "(string \<times> json) list"
  dc_max_failures :: "nat option"
  dc_broadcast :: bool
  dc_crypto :: "'k crypto"
  dc_key :: 'k

definition default_max_load_failures :: nat where "default_max_load_failures = 3"

definition put_cache :: "string option \<Rightarrow> 'r host \<Rightarrow> 'r host" where
  "put_cache p h = h\<lparr>hs_cache := map_option (\<lambda>_. Some p) (hs_cache h)\<rparr>"

definition set_disp :: "(dispatcher \<Rightarrow> dispatcher) \<Rightarrow> 'r host \<Rightarrow> 'r host" where
  "set_disp f h = h\<lparr>hs_disp := f (hs_disp h)\<rparr>"

definition clear_options :: "string option \<Rightarrow> string option \<Rightarrow> active_options" where
  "clear_options rationale session =
     \<lparr>so_rationale = rationale, so_session = session, so_skip = True, so_known = None, so_routes = None,
      so_agent_namespaces = None, so_namespaces = None, so_capability_configs = None\<rparr>"

section \<open>Operations\<close>

definition has_active_bundle :: "('k, 'r) dispatch_config \<Rightarrow> 'r host \<Rightarrow> bool \<times> 'r host" where
  "has_active_bundle C h =
     (let check = (\<lambda>p d. d\<lparr>dd_active := p,
                     dd_validated := (if p \<noteq> dd_validated d then None else dd_validated d)\<rparr>)
      in case hs_cache h of
           Some (Some cached) \<Rightarrow> (cached \<noteq> None, set_disp (check cached) h)
         | _ \<Rightarrow>
             (let active = rg_active (dc_registry C) (hs_reg h) (dc_agent C)
              in (active \<noteq> None, put_cache active (set_disp (check active) h))))"

text \<open>A failing registry is reported to the console and otherwise ignored.\<close>

definition clear_pointer ::
  "('k, 'r) dispatch_config \<Rightarrow> string option \<Rightarrow> string option \<Rightarrow> int \<Rightarrow> 'r host \<Rightarrow> 'r host" where
  "clear_pointer C rationale session now h =
     h\<lparr>hs_reg := snd (rg_set (dc_registry C) (hs_reg h) (dc_agent C) None (clear_options rationale session) now)\<rparr>"

definition auto_revert :: "('k, 'r) dispatch_config \<Rightarrow> int \<Rightarrow> 'r host \<Rightarrow> 'r host" where
  "auto_revert C now h =
     put_cache None (set_disp (\<lambda>_. fresh_dispatcher)
       (clear_pointer C (Some ''auto-revert: poison bundle'') None now h))"

definition mismatch_rationale :: "string list \<Rightarrow> string \<Rightarrow> string" where
  "mismatch_rationale missing v =
     ''catalog mismatch: missing ['' @ join '', '' missing @ ''] declared by version '' @ CHR 0x27 # v @ [CHR 0x27]"

definition disable_for_catalog_mismatch ::
  "('k, 'r) dispatch_config \<Rightarrow> string list \<Rightarrow> string \<Rightarrow> string \<Rightarrow> int \<Rightarrow> 'r host \<Rightarrow> 'r host" where
  "disable_for_catalog_mismatch C missing v session now h =
     (let h1 = put_cache None (set_disp (\<lambda>_. fresh_dispatcher)
                 (clear_pointer C (Some (mismatch_rationale missing v)) (Some session) now h))
      in if dc_broadcast C then h1\<lparr>hs_disabled := hs_disabled h1 @ [(v, missing, session)]\<rparr> else h1)"

definition validate_catalog_cached ::
  "('k, 'r) dispatch_config \<Rightarrow> string \<Rightarrow> 'r host \<Rightarrow> (string list + unit) \<times> 'r host" where
  "validate_catalog_cached C v h =
     (case rg_version (dc_registry C) of
        None \<Rightarrow> (Inr (), set_disp (\<lambda>d. d\<lparr>dd_validated := Some v\<rparr>) h)
      | Some _ \<Rightarrow>
          (case validate_catalog (required_of (dc_registry C) (hs_reg h) v) (dc_host_ids C) of
             Inr _ \<Rightarrow> (Inr (), set_disp (\<lambda>d. d\<lparr>dd_validated := Some v\<rparr>) h)
           | Inl missing \<Rightarrow> (Inl missing, h)))"

definition catalog_guard ::
  "('k, 'r) dispatch_config \<Rightarrow> string \<Rightarrow> 'r host \<Rightarrow> (string list + unit) \<times> 'r host" where
  "catalog_guard C v h =
     (if Some v \<noteq> dd_validated (hs_disp h) then validate_catalog_cached C v h else (Inr (), h))"

definition turn_scope :: "('k, 'r) dispatch_config \<Rightarrow> 'r host \<Rightarrow> string \<Rightarrow> string list" where
  "turn_scope C h v = [''spine'', ''llm''] @ required_ids (dc_registry C) (hs_reg h) v"

definition turn_token ::
  "('k, 'r) dispatch_config \<Rightarrow> 'r host \<Rightarrow> string \<Rightarrow> string \<Rightarrow> int \<Rightarrow> string \<Rightarrow> string" where
  "turn_token C h v session now nonce =
     mint_token (dc_crypto C) (dc_key C)
       \<lparr>mo_agent = dc_agent C, mo_sid = None, mo_session = Some session, mo_scope = turn_scope C h v, mo_ttl = None\<rparr>
       now nonce"

text \<open>\<open>None\<close> when the bytes are missing; then loading throws.\<close>

definition turn_config ::
  "('k, 'r) dispatch_config \<Rightarrow> 'r host \<Rightarrow> string \<Rightarrow> string \<Rightarrow> loader_config option" where
  "turn_config C h v token =
     map_option (\<lambda>bs.
        let (main, modules) = decode_bundle_payload (cr_decode (dc_crypto C) bs)
        in \<lparr>lc_main = main, lc_modules = modules, lc_env = spread (dc_env C) [(''__BUNDLE_TOKEN'', JStr token)]\<rparr>)
       (rg_bytes (dc_registry C) (hs_reg h) v)"

definition consume_event_stream :: "string \<Rightarrow> json list" where
  "consume_event_stream s =
     List.map_filter parse_json (filter (\<lambda>l. l \<noteq> []) (split_on (CHR 0x0A) (trim s)))"

text \<open>
  \<open>run\<close> is the loader and its worker: the response text, or the error thrown while loading or
  running. The configuration it is given is what the factory passed to \<open>loader.get\<close> would make.
  The loader calls that factory only when it holds no worker for the version; a warm worker is
  a \<open>run\<close> that ignores the configuration and goes on with an earlier one, token included.
\<close>

definition dispatch_turn ::
  "('k, 'r) dispatch_config \<Rightarrow> (loader_config option \<Rightarrow> string \<Rightarrow> string + string) \<Rightarrow> string \<Rightarrow> string \<Rightarrow>
    int \<Rightarrow> string \<Rightarrow> 'r host \<Rightarrow> (string + json list) \<times> 'r host" where
  "dispatch_turn C run session prompt now nonce h =
     (if \<not> truthy (dd_active (hs_disp h)) then (Inl ''no active bundle'', h)
      else
        let v = the (dd_active (hs_disp h));
            (guard, h1) = catalog_guard C v h
        in case guard of
             Inl missing \<Rightarrow>
               (Inl (''catalog mismatch: '' @ join '', '' missing),
                disable_for_catalog_mismatch C missing v session now h1)
           | Inr _ \<Rightarrow>
               (case run (turn_config C h1 v (turn_token C h1 v session now nonce)) prompt of
                  Inr text \<Rightarrow>
                    (Inr (consume_event_stream text), set_disp (\<lambda>d. d\<lparr>dd_failures := 0\<rparr>) h1)
                | Inl e \<Rightarrow>
                    (let h2 = set_disp (\<lambda>d. d\<lparr>dd_failures := dd_failures d + 1\<rparr>) h1;
                         h3 = (if dd_failures (hs_disp h2) \<ge> or_else (dc_max_failures C) default_max_load_failures
                               then auto_revert C now h2 else h2)
                     in (Inl (''bundle load failed: '' @ e), h3))))"

text \<open>The configuration of the worker an event is sent to; delivery changes nothing here.\<close>

definition client_event_config ::
  "('k, 'r) dispatch_config \<Rightarrow> string \<Rightarrow> int \<Rightarrow> string \<Rightarrow> 'r host \<Rightarrow> loader_config option" where
  "client_event_config C session now nonce h =
     (if \<not> truthy (dd_active (hs_disp h)) then None
      else let v = the (dd_active (hs_disp h))
           in map_option (\<lambda>bs. compose_loader_config (dc_crypto C) bs (dc_env C)
                  (turn_token C h v session now nonce) v [])
                (rg_bytes (dc_registry C) (hs_reg h) v))"

definition active_lifecycle_flags :: "('k, 'r) dispatch_config \<Rightarrow> 'r host \<Rightarrow> json option" where
  "active_lifecycle_flags C h =
     (if \<not> truthy (dd_active (hs_disp h)) then None
      else case rg_version (dc_registry C) of
             None \<Rightarrow> None
           | Some f \<Rightarrow>
               (case f (hs_reg h) (the (dd_active (hs_disp h))) of
                  None \<Rightarrow> None | Some m \<Rightarrow> meta_field m ''lifecycleHooks''))"

text \<open>An error of the registry is thrown before the state changes.\<close>

definition disable ::
  "('k, 'r) dispatch_config \<Rightarrow> string option \<Rightarrow> string option \<Rightarrow> int \<Rightarrow> 'r host \<Rightarrow>
    (registry_error + unit) \<times> 'r host" where
  "disable C rationale session now h =
     (let (r, s) = rg_set (dc_registry C) (hs_reg h) (dc_agent C) None
              (clear_options (Some (or_else rationale ''manual disable'')) session) now
      in case r of
           Inl e \<Rightarrow> (Inl e, h\<lparr>hs_reg := s\<rparr>)
         | Inr _ \<Rightarrow>
             (Inr (), put_cache None (set_disp (\<lambda>d. d\<lparr>dd_active := None, dd_failures := 0\<rparr>) (h\<lparr>hs_reg := s\<rparr>))))"

definition refresh_pointer :: "('k, 'r) dispatch_config \<Rightarrow> 'r host \<Rightarrow> 'r host" where
  "refresh_pointer C h =
     (let active = rg_active (dc_registry C) (hs_reg h) (dc_agent C)
      in put_cache active (set_disp (\<lambda>d. d\<lparr>dd_active := active, dd_validated := None\<rparr>) h))"

section \<open>The catalog guard\<close>

text \<open>
  The steps of a host: its own operations, and pointers or caches that change behind its back
  (another deployment, a rollback). Stored versions do not change.
\<close>

inductive dispatch_step :: "('k, 'r) dispatch_config \<Rightarrow> 'r host \<Rightarrow> 'r host \<Rightarrow> bool" for C where
  poll: "dispatch_step C h (snd (has_active_bundle C h))"
| turn: "dispatch_step C h (snd (dispatch_turn C run session prompt now nonce h))"
| refresh: "dispatch_step C h (refresh_pointer C h)"
| disable: "dispatch_step C h (snd (disable C rationale who now h))"
| elsewhere: "required_of (dc_registry C) s = required_of (dc_registry C) (hs_reg h) \<Longrightarrow>
    dispatch_step C h (h\<lparr>hs_reg := s, hs_cache := c\<rparr>)"

definition fresh_host :: "'r \<Rightarrow> string option option option \<Rightarrow> 'r host" where
  "fresh_host s c = \<lparr>hs_disp = fresh_dispatcher, hs_reg = s, hs_cache = c, hs_disabled = []\<rparr>"

text \<open>The version the dispatcher remembers as validated asks for nothing the host lacks.\<close>

definition guarded :: "('k, 'r) dispatch_config \<Rightarrow> 'r host \<Rightarrow> bool" where
  "guarded C h \<longleftrightarrow> (\<forall>v. dd_validated (hs_disp h) = Some v \<longrightarrow>
     set (required_ids (dc_registry C) (hs_reg h) v) \<subseteq> set (dc_host_ids C))"

lemma host_simps [simp]:
  "hs_disp (set_disp f h) = f (hs_disp h)" "hs_reg (set_disp f h) = hs_reg h" "hs_cache (set_disp f h) = hs_cache h"
  "hs_disp (put_cache p h) = hs_disp h" "hs_reg (put_cache p h) = hs_reg h"
  "hs_disp (clear_pointer C a b t h) = hs_disp h" "hs_cache (clear_pointer C a b t h) = hs_cache h"
  by (simp_all add: set_disp_def put_cache_def clear_pointer_def)

lemma guarded_none: "dd_validated (hs_disp h) = None \<Longrightarrow> guarded C h"
  by (simp add: guarded_def)

lemma guarded_same:
  "guarded C h \<Longrightarrow> dd_validated (hs_disp h') = dd_validated (hs_disp h) \<Longrightarrow>
    required_of (dc_registry C) (hs_reg h') = required_of (dc_registry C) (hs_reg h) \<Longrightarrow> guarded C h'"
  by (simp add: guarded_def required_ids_def)

lemma fresh_validated [simp]:
  "dd_validated (hs_disp (auto_revert C now h)) = None"
  "dd_validated (hs_disp (disable_for_catalog_mismatch C missing v session now h)) = None"
  by (simp_all add: auto_revert_def disable_for_catalog_mismatch_def fresh_dispatcher_def Let_def)

lemma validate_cached_guarded:
  assumes "validate_catalog_cached C v h = (g, h')" "guarded C h"
  shows "guarded C h'" "g = Inr () \<Longrightarrow> dd_validated (hs_disp h') = Some v"
    "hs_reg h' = hs_reg h" "dd_active (hs_disp h') = dd_active (hs_disp h)"
    "dd_failures (hs_disp h') = dd_failures (hs_disp h)" "hs_cache h' = hs_cache h"
proof -
  have "required_ids (dc_registry C) (hs_reg h) v = []" if "rg_version (dc_registry C) = None"
    using that by (simp add: required_ids_def required_of_def map_filter_simps)
  moreover have "validate_catalog (required_of (dc_registry C) (hs_reg h) v) (dc_host_ids C) = Inr u \<Longrightarrow>
      set (required_ids (dc_registry C) (hs_reg h) v) \<subseteq> set (dc_host_ids C)" for u
    using validate_catalog_ok [of "required_of (dc_registry C) (hs_reg h) v" "dc_host_ids C"]
    by (simp add: required_ids_def)
  ultimately show "guarded C h'" "g = Inr () \<Longrightarrow> dd_validated (hs_disp h') = Some v"
    "hs_reg h' = hs_reg h" "dd_active (hs_disp h') = dd_active (hs_disp h)"
    "dd_failures (hs_disp h') = dd_failures (hs_disp h)" "hs_cache h' = hs_cache h"
    using assms by (auto simp: validate_catalog_cached_def guarded_def split: option.splits sum.splits)
qed

text \<open>A turn first settles the guard; what follows depends on its outcome alone.\<close>

lemma dispatch_turn_cases:
  assumes "guarded C h"
  obtains (idle) "\<not> truthy (dd_active (hs_disp h))"
      "dispatch_turn C run session prompt now nonce h = (Inl ''no active bundle'', h)"
  | (mismatch) v missing e h1 where "dd_active (hs_disp h) = Some v" "hs_reg h1 = hs_reg h"
      "dispatch_turn C run session prompt now nonce h = (Inl e, disable_for_catalog_mismatch C missing v session now h1)"
  | (ran) v h1 where "dd_active (hs_disp h) = Some v" "v \<noteq> []" "guarded C h1" "hs_reg h1 = hs_reg h"
      "dd_validated (hs_disp h1) = Some v" "dd_active (hs_disp h1) = Some v"
      "dd_failures (hs_disp h1) = dd_failures (hs_disp h)" "hs_cache h1 = hs_cache h"
      "dispatch_turn C run session prompt now nonce h =
        (case run (turn_config C h1 v (turn_token C h1 v session now nonce)) prompt of
           Inr text \<Rightarrow> (Inr (consume_event_stream text), set_disp (\<lambda>d. d\<lparr>dd_failures := 0\<rparr>) h1)
         | Inl e \<Rightarrow>
             (Inl (''bundle load failed: '' @ e),
              (let h2 = set_disp (\<lambda>d. d\<lparr>dd_failures := dd_failures d + 1\<rparr>) h1
               in if dd_failures (hs_disp h2) \<ge> or_else (dc_max_failures C) default_max_load_failures
                  then auto_revert C now h2 else h2)))"
proof (cases "truthy (dd_active (hs_disp h))")
  case False
  then show ?thesis using idle by (simp add: dispatch_turn_def)
next
  case True
  then obtain v where v: "dd_active (hs_disp h) = Some v" "v \<noteq> []" by (auto simp: truthy_def split: option.splits)
  obtain g h1 where g: "catalog_guard C v h = (g, h1)"
    by (rule prod.exhaust)
  have h1: "guarded C h1 \<and> hs_reg h1 = hs_reg h \<and> dd_active (hs_disp h1) = dd_active (hs_disp h) \<and>
      dd_failures (hs_disp h1) = dd_failures (hs_disp h) \<and> hs_cache h1 = hs_cache h \<and>
      (g = Inr () \<longrightarrow> dd_validated (hs_disp h1) = Some v)"
  proof (cases "Some v = dd_validated (hs_disp h)")
    case True
    then have "g = Inr ()" "h1 = h" using g by (simp_all add: catalog_guard_def)
    then show ?thesis using assms True by simp
  next
    case False
    then have "validate_catalog_cached C v h = (g, h1)" using g by (simp add: catalog_guard_def)
    from validate_cached_guarded [OF this assms] show ?thesis by blast
  qed
  show ?thesis
  proof (cases g)
    case (Inl missing)
    have "dispatch_turn C run session prompt now nonce h =
        (Inl (''catalog mismatch: '' @ join '', '' missing), disable_for_catalog_mismatch C missing v session now h1)"
      by (simp add: dispatch_turn_def v g Inl)
    with mismatch v(1) h1 show ?thesis by blast
  next
    case (Inr u)
    have "dispatch_turn C run session prompt now nonce h =
        (case run (turn_config C h1 v (turn_token C h1 v session now nonce)) prompt of
           Inr text \<Rightarrow> (Inr (consume_event_stream text), set_disp (\<lambda>d. d\<lparr>dd_failures := 0\<rparr>) h1)
         | Inl e \<Rightarrow>
             (Inl (''bundle load failed: '' @ e),
              (let h2 = set_disp (\<lambda>d. d\<lparr>dd_failures := dd_failures d + 1\<rparr>) h1
               in if dd_failures (hs_disp h2) \<ge> or_else (dc_max_failures C) default_max_load_failures
                  then auto_revert C now h2 else h2)))"
      by (simp add: dispatch_turn_def v g Inr Let_def cong: sum.case_cong)
    moreover have "dd_active (hs_disp h1) = Some v" "dd_validated (hs_disp h1) = Some v" using h1 v(1) Inr by simp_all
    ultimately show ?thesis using ran [OF v, of h1] h1 by blast
  qed
qed

context bundle_registry
begin

lemma clear_pointer_required:
  "dc_registry C = R \<Longrightarrow> required_of R (hs_reg (clear_pointer C a b t h)) = required_of R (hs_reg h)"
  using set_versions [of "hs_reg h" "dc_agent C" None "clear_options a b" t]
  by (simp add: clear_pointer_def) (metis prod.collapse)

lemma guarded_step:
  assumes "dispatch_step C h h'" "dc_registry C = R" "guarded C h"
  shows "guarded C h'"
  using assms(1)
proof cases
  case poll
  then show ?thesis
    using assms(3)
    by (auto simp: has_active_bundle_def guarded_def Let_def split: option.splits)
next
  case (turn run session prompt now nonce)
  from assms(3) show ?thesis
  proof (cases rule: dispatch_turn_cases [of C h run session prompt now nonce])
    case idle
    then show ?thesis using turn assms(3) by simp
  next
    case (mismatch v missing e h1)
    then show ?thesis using turn by (simp add: guarded_none)
  next
    case (ran v h1)
    have "guarded C (set_disp (\<lambda>d. d\<lparr>dd_failures := n\<rparr>) h1)" "guarded C (set_disp (\<lambda>d. d\<lparr>dd_failures := dd_failures d + 1\<rparr>) h1)" for n
      by (rule guarded_same [OF ran(3)], simp_all)+
    then show ?thesis using turn ran(9) by (auto simp: guarded_none Let_def split: sum.splits)
  qed
next
  case refresh
  then show ?thesis by (simp add: guarded_none refresh_pointer_def Let_def)
next
  case (disable rationale who now)
  obtain r s where s: "rg_set R (hs_reg h) (dc_agent C) None
      (clear_options (Some (or_else rationale ''manual disable'')) who) now = (r, s)"
    by (rule prod.exhaust)
  have "required_of R s = required_of R (hs_reg h)" by (rule set_versions [OF s])
  then show ?thesis
    using disable assms(2) s
    by (intro guarded_same [OF assms(3)]) (auto simp: disable_def Let_def split: sum.splits)
next
  case (elsewhere s c)
  then show ?thesis using assms(2) by (intro guarded_same [OF assms(3)]) simp_all
qed

lemma reachable_guarded:
  assumes "(dispatch_step C)\<^sup>*\<^sup>* (fresh_host s0 c0) h" "dc_registry C = R"
  shows "guarded C h"
  using assms(1)
proof (induction rule: rtranclp_induct)
  case base
  show ?case by (simp add: guarded_none fresh_host_def fresh_dispatcher_def)
next
  case (step h h')
  then show ?case using guarded_step assms(2) by blast
qed

end

lemma guarded_turn_token:
  assumes "\<And>s. cr_decode (dc_crypto C) (cr_encode (dc_crypto C) s) = s"
    and "fst (verify_token (dc_crypto C) (dc_key C) (Some s) (turn_token C h v session now nonce) t None) = Valid j"
    and "s \<noteq> []"
  shows "s \<in> set (turn_scope C h v)"
proof -
  obtain p where p: "check_payload (Some s) t None (token_payload
      \<lparr>mo_agent = dc_agent C, mo_sid = None, mo_session = Some session, mo_scope = turn_scope C h v, mo_ttl = None\<rparr> now nonce) =
      (Valid j, p)"
    using assms(2) unfolding turn_token_def verify_minted [OF assms(1)] by (metis prod.collapse)
  from check_payload_Valid [OF p] assms(3) have "in_scope j s" "j = token_payload
      \<lparr>mo_agent = dc_agent C, mo_sid = None, mo_session = Some session, mo_scope = turn_scope C h v, mo_ttl = None\<rparr> now nonce"
    by auto
  then show ?thesis by (auto simp: in_scope_def token_payload_members)
qed

text \<open>C6: Whenever a turn is handed to a bundle, on any path of operations and of pointer changes behind
  the host's back, the capabilities the bundle requires are registered on the host, and the
  token it gets is accepted only by the two core services and by host capabilities.\<close>

theorem dispatched_bundle_is_allowed:
  assumes "dc_registry C = d1_registry" and "(dispatch_step C)\<^sup>*\<^sup>* (fresh_host d c) h"
    and "dispatch_turn C run session prompt now nonce h = (Inr events, h')"
    and "\<And>s. cr_decode (dc_crypto C) (cr_encode (dc_crypto C) s) = s"
  shows "\<exists>v. dd_active (hs_disp h) = Some v \<and>
    set (required_ids d1_registry (hs_reg h) v) \<subseteq> set (dc_host_ids C) \<and>
    (\<forall>s t j. s \<noteq> [] \<longrightarrow>
      fst (verify_token (dc_crypto C) (dc_key C) (Some s) (turn_token C h v session now nonce) t None) = Valid j \<longrightarrow>
      s \<in> {''spine'', ''llm''} \<union> set (dc_host_ids C))"
proof -
  have "guarded C h" by (rule d1_store.reachable_guarded [OF assms(2,1)])
  then show ?thesis
  proof (cases rule: dispatch_turn_cases [of C h run session prompt now nonce])
    case (ran v h1)
    then have ids: "set (required_ids d1_registry (hs_reg h) v) \<subseteq> set (dc_host_ids C)"
      using assms(1) by (auto simp: guarded_def)
    moreover have "s \<in> {''spine'', ''llm''} \<union> set (dc_host_ids C)"
      if "s \<noteq> []"
        "fst (verify_token (dc_crypto C) (dc_key C) (Some s) (turn_token C h v session now nonce) t None) = Valid j"
      for s t j
      using guarded_turn_token [OF assms(4) that(2,1)] ids assms(1) by (auto simp: turn_scope_def)
    ultimately show ?thesis using ran(1) by blast
  qed (use assms(3) in simp_all)
qed

definition demo_dispatch :: "(8 word, d1) dispatch_config" where
  "demo_dispatch = \<lparr>dc_registry = d1_registry, dc_agent = ''a'', dc_host_ids = [''search''], dc_env = [],
     dc_max_failures = None, dc_broadcast = True, dc_crypto = toy_crypto, dc_key = 7\<rparr>"

theorem dispatched_bundle_is_allowed_witness:
  "\<exists>h v. (dispatch_step demo_dispatch)\<^sup>*\<^sup>* (fresh_host two_versions None) h \<and> dd_active (hs_disp h) = Some v \<and>
    set (required_ids d1_registry (hs_reg h) v) \<subseteq> {''search''} \<and>
    fst (dispatch_turn demo_dispatch (\<lambda>_ _. Inr ''{}'') ''s'' ''p'' 9 ''n'' h) = Inr [JObj []]"
proof -
  define h where "h = snd (has_active_bundle demo_dispatch (fresh_host two_versions None))"
  have h: "dd_active (hs_disp h) = Some ''v2''" "hs_reg h = two_versions" "dd_validated (hs_disp h) = None"
    by (simp_all add: h_def has_active_bundle_def fresh_host_def fresh_dispatcher_def demo_dispatch_def d1_registry_def
        Let_def d1_get_active_def two_versions_def table_simps)
  have r: "(dispatch_step demo_dispatch)\<^sup>*\<^sup>* (fresh_host two_versions None) h"
    unfolding h_def by (rule r_into_rtranclp) (rule dispatch_step.poll)
  have none: "required_of d1_registry two_versions ''v2'' = []"
    by (simp add: d1_required_eq d1_required_def d1_get_version_def two_versions_def empty_d1_def table_simps elements_def)
  have g: "catalog_guard demo_dispatch ''v2'' h = (Inr (), set_disp (\<lambda>d. d\<lparr>dd_validated := Some ''v2''\<rparr>) h)"
  proof -
    have "validate_catalog [] [''search''] = Inr ()" by (simp add: validate_catalog_def map_filter_simps)
    with h none show ?thesis
      by (simp add: catalog_guard_def validate_catalog_cached_def demo_dispatch_def) (simp add: d1_registry_def)
  qed
  have events: "consume_event_stream ''{}'' = [JObj []]" by code_simp
  have t: "fst (dispatch_turn demo_dispatch (\<lambda>_ _. Inr ''{}'') ''s'' ''p'' 9 ''n'' h) = Inr [JObj []]"
    by (simp add: dispatch_turn_def h g events)
  then obtain h' where t': "dispatch_turn demo_dispatch (\<lambda>_ _. Inr ''{}'') ''s'' ''p'' 9 ''n'' h = (Inr [JObj []], h')"
    by (metis prod.collapse)
  have reg: "dc_registry demo_dispatch = d1_registry" "dc_crypto demo_dispatch = toy_crypto"
    "dc_host_ids demo_dispatch = [''search'']"
    by (simp_all add: demo_dispatch_def)
  from dispatched_bundle_is_allowed [OF reg(1) r t'] reg toy_codec r t show ?thesis by auto
qed

section \<open>Poison bundles\<close>

text \<open>Turns in which loading or running the bundle fails, each with its own error.\<close>

record failed_turn =
  ft_session :: string
  ft_prompt :: string
  ft_error :: string
  ft_now :: int
  ft_nonce :: string

definition fail_turn :: "('k, 'r) dispatch_config \<Rightarrow> failed_turn \<Rightarrow> 'r host \<Rightarrow> 'r host" where
  "fail_turn C f h =
     snd (dispatch_turn C (\<lambda>_ _. Inl (ft_error f)) (ft_session f) (ft_prompt f) (ft_now f) (ft_nonce f) h)"

definition serving :: "string \<Rightarrow> 'r host \<Rightarrow> bool" where
  "serving v h \<longleftrightarrow> dd_active (hs_disp h) = Some v \<and> dd_validated (hs_disp h) = Some v \<and> v \<noteq> []"

lemma fail_turn_running:
  assumes "serving v h" "dd_failures (hs_disp h) + 1 < or_else (dc_max_failures C) default_max_load_failures"
  shows "serving v (fail_turn C f h) \<and> dd_failures (hs_disp (fail_turn C f h)) = dd_failures (hs_disp h) + 1 \<and>
    hs_reg (fail_turn C f h) = hs_reg h \<and> hs_cache (fail_turn C f h) = hs_cache h"
proof -
  have "catalog_guard C v h = (Inr (), h)" using assms(1) by (simp add: catalog_guard_def serving_def)
  with assms show ?thesis by (simp add: fail_turn_def dispatch_turn_def serving_def Let_def)
qed

lemma fail_turn_last:
  assumes "serving v h" "\<not> dd_failures (hs_disp h) + 1 < or_else (dc_max_failures C) default_max_load_failures"
  shows "\<exists>h1. fail_turn C f h = auto_revert C (ft_now f) h1 \<and> hs_reg h1 = hs_reg h \<and> hs_cache h1 = hs_cache h"
proof -
  have "catalog_guard C v h = (Inr (), h)" using assms(1) by (simp add: catalog_guard_def serving_def)
  then have "fail_turn C f h = auto_revert C (ft_now f) (set_disp (\<lambda>d. d\<lparr>dd_failures := dd_failures d + 1\<rparr>) h)"
    using assms by (simp add: fail_turn_def dispatch_turn_def serving_def Let_def)
  then show ?thesis by (intro exI [of _ "set_disp (\<lambda>d. d\<lparr>dd_failures := dd_failures d + 1\<rparr>) h"]) simp
qed

lemma fail_turns_running:
  "serving v h \<Longrightarrow> dd_failures (hs_disp h) + length fs < or_else (dc_max_failures C) default_max_load_failures \<Longrightarrow>
    serving v (fold (fail_turn C) fs h) \<and>
    dd_failures (hs_disp (fold (fail_turn C) fs h)) = dd_failures (hs_disp h) + length fs \<and>
    hs_reg (fold (fail_turn C) fs h) = hs_reg h \<and> hs_cache (fold (fail_turn C) fs h) = hs_cache h"
proof (induction fs arbitrary: h)
  case (Cons f fs)
  then have "serving v (fail_turn C f h) \<and> dd_failures (hs_disp (fail_turn C f h)) = dd_failures (hs_disp h) + 1 \<and>
      hs_reg (fail_turn C f h) = hs_reg h \<and> hs_cache (fail_turn C f h) = hs_cache h"
    by (intro fail_turn_running) simp_all
  then show ?case using Cons.IH [of "fail_turn C f h"] Cons.prems(2) by simp
qed simp

text \<open>C29: A bundle that keeps failing is taken out: with a limit of \<open>m\<close> it stays active through \<open>m - 1\<close>
  consecutive failures, and the \<open>m\<close>-th clears the pointer in the registry, in the dispatcher
  and in the cache, and starts the count afresh.\<close>

theorem poison_bundle_is_reverted:
  assumes "dc_registry C = d1_registry" and "serving v h" and "dd_failures (hs_disp h) = 0"
    and "or_else (dc_max_failures C) default_max_load_failures = Suc m" and "length fs = m"
  shows "serving v (fold (fail_turn C) fs h) \<and>
    (let h' = fail_turn C f (fold (fail_turn C) fs h)
     in hs_disp h' = fresh_dispatcher \<and> d1_get_active (hs_reg h') (dc_agent C) = None \<and>
        hs_cache h' = map_option (\<lambda>_. Some None) (hs_cache h))"
proof -
  let ?h = "fold (fail_turn C) fs h"
  have run: "serving v ?h" "dd_failures (hs_disp ?h) = m" "hs_cache ?h = hs_cache h"
    using fail_turns_running [of v h fs C] assms(2-5) by simp_all
  then obtain h1 where h1: "fail_turn C f ?h = auto_revert C (ft_now f) h1" "hs_cache h1 = hs_cache ?h"
    using fail_turn_last [OF run(1), of C f] assms(4) by auto
  have "d1_get_active (snd (d1_set_active s a None opts now)) a = None" for s a opts now
    by (simp add: d1_set_active_def d1_active_upsert)
  then have "d1_get_active (hs_reg (fail_turn C f ?h)) (dc_agent C) = None"
    using assms(1) unfolding h1(1) by (simp add: auto_revert_def clear_pointer_def d1_registry_def)
  moreover have "hs_disp (fail_turn C f ?h) = fresh_dispatcher"
    unfolding h1(1) by (simp add: auto_revert_def)
  moreover have "hs_cache (fail_turn C f ?h) = map_option (\<lambda>_. Some None) (hs_cache h)"
    unfolding h1(1) using h1(2) run(3) by (simp add: auto_revert_def put_cache_def)
  ultimately show ?thesis using run(1) by (simp add: Let_def)
qed

theorem poison_bundle_is_reverted_witness:
  "let f = \<lparr>ft_session = ''s'', ft_prompt = ''p'', ft_error = ''e'', ft_now = 1, ft_nonce = ''n''\<rparr>;
       h = \<lparr>hs_disp = \<lparr>dd_active = Some ''v2'', dd_failures = 0, dd_validated = Some ''v2''\<rparr>,
            hs_reg = two_versions, hs_cache = Some (Some (Some ''v2'')), hs_disabled = []\<rparr>
   in dd_active (hs_disp (fold (fail_turn demo_dispatch) [f, f] h)) = Some ''v2'' \<and>
      dd_active (hs_disp (fold (fail_turn demo_dispatch) [f, f, f] h)) = None \<and>
      d1_get_active (hs_reg (fold (fail_turn demo_dispatch) [f, f, f] h)) ''a'' = None"
proof -
  let ?f = "\<lparr>ft_session = ''s'', ft_prompt = ''p'', ft_error = ''e'', ft_now = 1, ft_nonce = ''n''\<rparr>"
  let ?h = "\<lparr>hs_disp = \<lparr>dd_active = Some ''v2'', dd_failures = 0, dd_validated = Some ''v2''\<rparr>,
            hs_reg = two_versions, hs_cache = Some (Some (Some ''v2'')), hs_disabled = []\<rparr>"
  have "dc_registry demo_dispatch = d1_registry" "serving ''v2'' ?h" "dd_failures (hs_disp ?h) = 0"
    "or_else (dc_max_failures demo_dispatch) default_max_load_failures = Suc 2" "dc_agent demo_dispatch = ''a''"
    by (simp_all add: demo_dispatch_def serving_def default_max_load_failures_def)
  from poison_bundle_is_reverted [OF this(1-4), of "[?f, ?f]" ?f] this(5) show ?thesis
    by (simp add: Let_def serving_def fresh_dispatcher_def)
qed

end
