(* ===== verification/Transform_Messages.thy ===== *)
theory Transform_Messages
  imports Json_Text "HOL-Library.Sublist"
begin

text \<open>
  \<open>packages/runtime/ai/src/providers/transform-messages.ts\<close>: the history of a conversation
  is adapted to the model it is about to be sent to. A first pass converts the blocks of
  responses of other models and renames their tool calls, a second one drops failed
  responses and answers tool calls that have no result. The lemmas show that a call is
  always answered before the conversation goes on, that nothing else is changed, that a
  second repair changes nothing, and that renamed calls and results stay together.
\<close>

section \<open>Messages\<close>

text \<open>\<open>StopReason\<close>; arguments, usage and details of a message are opaque JSON here.\<close>

datatype ai_stop = Ai_Stop | Ai_Length | Ai_Tool_Use | Ai_Error | Ai_Aborted

record thinking_content =
  th_thinking :: string
  th_signature :: "string option"
  th_redacted :: bool

record ai_call =
  ac_id :: id
  ac_name :: string
  ac_args :: json
  ac_thought :: "string option"

datatype ai_block = AI_Text string "string option" | AI_Thinking thinking_content | AI_Call ai_call

record ai_assistant =
  aa_content :: "ai_block list"
  aa_api :: string
  aa_provider :: string
  aa_model :: string
  aa_response_id :: "string option"
  aa_usage :: json
  aa_stop :: ai_stop
  aa_error :: "string option"
  aa_time :: int

text \<open>Content of user messages and tool results: text, or an image (data, MIME type).\<close>

datatype ai_part = Part_Text string "string option" | Part_Image string string

datatype user_content = User_String string | User_Parts "ai_part list"

record ai_result =
  ai_call_id :: id
  ai_name :: string
  ai_content :: "ai_part list"
  ai_details :: "json option"
  ai_is_error :: bool
  ai_time :: int

datatype ai_message = AI_User user_content int | AI_Assistant ai_assistant | AI_Result ai_result

text \<open>The fields of \<open>Model\<close> that decide how a message is adapted.\<close>

record model_id =
  md_id :: string
  md_api :: string
  md_provider :: string

section \<open>First pass: blocks and identifiers\<close>

definition same_model :: "'m model_id_scheme \<Rightarrow> ai_assistant \<Rightarrow> bool" where
  "same_model M a = (aa_provider a = md_provider M \<and> aa_api a = md_api M \<and> aa_model a = md_id M)"

definition adapt_thinking :: "bool \<Rightarrow> thinking_content \<Rightarrow> ai_block list" where
  "adapt_thinking same t =
     (if th_redacted t then if same then [AI_Thinking t] else []
      else if same \<and> truthy (th_signature t) then [AI_Thinking t]
      else if blank (th_thinking t) then []
      else if same then [AI_Thinking t]
      else [AI_Text (th_thinking t) None])"

text \<open>
  \<open>toolCallIdMap\<close> maps original to normalised identifiers, the latest entry first. A call's
  thought signature is deleted when it is truthy.
\<close>

definition adapt_call :: "bool \<Rightarrow> (id \<Rightarrow> ai_assistant \<Rightarrow> id) option \<Rightarrow> ai_assistant \<Rightarrow> ai_call \<Rightarrow>
    (id \<times> id) list \<Rightarrow> ai_call \<times> (id \<times> id) list" where
  "adapt_call same norm a tc ids =
     (let tc1 = (if \<not> same \<and> truthy (ac_thought tc) then tc\<lparr>ac_thought := None\<rparr> else tc)
      in case norm of
           None \<Rightarrow> (tc1, ids)
         | Some f \<Rightarrow>
             if same then (tc1, ids)
             else let n = f (ac_id tc) a
                  in if n \<noteq> ac_id tc then (tc1\<lparr>ac_id := n\<rparr>, (ac_id tc, n) # ids) else (tc1, ids))"

fun adapt_blocks :: "bool \<Rightarrow> (id \<Rightarrow> ai_assistant \<Rightarrow> id) option \<Rightarrow> ai_assistant \<Rightarrow> ai_block list \<Rightarrow>
    (id \<times> id) list \<Rightarrow> ai_block list \<times> (id \<times> id) list" where
  "adapt_blocks same norm a [] ids = ([], ids)"
| "adapt_blocks same norm a (AI_Thinking t # bs) ids =
     (let (bs', ids') = adapt_blocks same norm a bs ids in (adapt_thinking same t @ bs', ids'))"
| "adapt_blocks same norm a (AI_Text s sig # bs) ids =
     (let (bs', ids') = adapt_blocks same norm a bs ids
      in (AI_Text s (if same then sig else None) # bs', ids'))"
| "adapt_blocks same norm a (AI_Call tc # bs) ids =
     (let (tc', ids1) = adapt_call same norm a tc ids;
          (bs', ids') = adapt_blocks same norm a bs ids1
      in (AI_Call tc' # bs', ids'))"

text \<open>A result is renamed when its call was; an empty identifier counts as no mapping.\<close>

definition adapt_result :: "ai_result \<Rightarrow> (id \<times> id) list \<Rightarrow> ai_result" where
  "adapt_result r ids =
     (case map_of ids (ai_call_id r) of
        None \<Rightarrow> r
      | Some n \<Rightarrow> if n \<noteq> [] \<and> n \<noteq> ai_call_id r then r\<lparr>ai_call_id := n\<rparr> else r)"

fun adapt_messages :: "'m model_id_scheme \<Rightarrow> (id \<Rightarrow> ai_assistant \<Rightarrow> id) option \<Rightarrow> ai_message list \<Rightarrow>
    (id \<times> id) list \<Rightarrow> ai_message list" where
  "adapt_messages M norm [] ids = []"
| "adapt_messages M norm (AI_User c t # ms) ids = AI_User c t # adapt_messages M norm ms ids"
| "adapt_messages M norm (AI_Result r # ms) ids =
     AI_Result (adapt_result r ids) # adapt_messages M norm ms ids"
| "adapt_messages M norm (AI_Assistant a # ms) ids =
     (let (bs, ids') = adapt_blocks (same_model M a) norm a (aa_content a) ids
      in AI_Assistant (a\<lparr>aa_content := bs\<rparr>) # adapt_messages M norm ms ids')"

section \<open>Second pass: orphaned calls and failed responses\<close>

fun calls_of :: "ai_block list \<Rightarrow> ai_call list" where
  "calls_of [] = []"
| "calls_of (AI_Call tc # bs) = tc # calls_of bs"
| "calls_of (AI_Text s sig # bs) = calls_of bs"
| "calls_of (AI_Thinking t # bs) = calls_of bs"

record repair_state =
  rs_result :: "ai_message list"
  rs_pending :: "ai_call list"
  rs_existing :: "id set"

text \<open>
  The clock gives the reading of \<open>Date.now()\<close> when a synthetic result is made, by the number
  of messages produced so far.
\<close>

definition synthetic_result :: "(nat \<Rightarrow> int) \<Rightarrow> ai_call \<Rightarrow> ai_message list \<Rightarrow> ai_message" where
  "synthetic_result clock tc out = AI_Result \<lparr>ai_call_id = ac_id tc, ai_name = ac_name tc,
     ai_content = [Part_Text ''No result provided'' None], ai_details = None,
     ai_is_error = True, ai_time = clock (length out)\<rparr>"

fun answer_orphans :: "(nat \<Rightarrow> int) \<Rightarrow> id set \<Rightarrow> ai_call list \<Rightarrow> ai_message list \<Rightarrow> ai_message list" where
  "answer_orphans clock seen [] out = out"
| "answer_orphans clock seen (tc # tcs) out =
     answer_orphans clock seen tcs
       (if ac_id tc \<in> seen then out else out @ [synthetic_result clock tc out])"

definition flush_pending :: "(nat \<Rightarrow> int) \<Rightarrow> repair_state \<Rightarrow> repair_state" where
  "flush_pending clock st =
     (if rs_pending st = [] then st
      else \<lparr>rs_result = answer_orphans clock (rs_existing st) (rs_pending st) (rs_result st),
            rs_pending = [], rs_existing = {}\<rparr>)"

definition track_calls :: "ai_assistant \<Rightarrow> repair_state \<Rightarrow> repair_state" where
  "track_calls a st =
     (if calls_of (aa_content a) = [] then st
      else st\<lparr>rs_pending := calls_of (aa_content a), rs_existing := {}\<rparr>)"

definition push_message :: "ai_message \<Rightarrow> repair_state \<Rightarrow> repair_state" where
  "push_message m st = st\<lparr>rs_result := rs_result st @ [m]\<rparr>"

fun repair_step :: "(nat \<Rightarrow> int) \<Rightarrow> ai_message \<Rightarrow> repair_state \<Rightarrow> repair_state" where
  "repair_step clock (AI_Assistant a) st =
     (let st1 = flush_pending clock st
      in if aa_stop a = Ai_Error \<or> aa_stop a = Ai_Aborted then st1
         else push_message (AI_Assistant a) (track_calls a st1))"
| "repair_step clock (AI_Result r) st =
     push_message (AI_Result r) (st\<lparr>rs_existing := insert (ai_call_id r) (rs_existing st)\<rparr>)"
| "repair_step clock (AI_User c t) st = push_message (AI_User c t) (flush_pending clock st)"

definition no_repair :: repair_state where
  "no_repair = \<lparr>rs_result = [], rs_pending = [], rs_existing = {}\<rparr>"

definition repair :: "(nat \<Rightarrow> int) \<Rightarrow> ai_message list \<Rightarrow> ai_message list" where
  "repair clock ms = rs_result (fold (repair_step clock) ms no_repair)"

definition transform_messages :: "'m model_id_scheme \<Rightarrow> (id \<Rightarrow> ai_assistant \<Rightarrow> id) option \<Rightarrow>
    (nat \<Rightarrow> int) \<Rightarrow> ai_message list \<Rightarrow> ai_message list" where
  "transform_messages M norm clock ms = repair clock (adapt_messages M norm ms [])"

section \<open>Every call is answered before the conversation goes on\<close>

primrec is_ai_result :: "ai_message \<Rightarrow> bool" where
  "is_ai_result (AI_User c t) = False"
| "is_ai_result (AI_Assistant a) = False"
| "is_ai_result (AI_Result r) = True"

primrec result_id :: "ai_message \<Rightarrow> id option" where
  "result_id (AI_User c t) = None"
| "result_id (AI_Assistant a) = None"
| "result_id (AI_Result r) = Some (ai_call_id r)"

primrec call_ids :: "ai_message \<Rightarrow> id set" where
  "call_ids (AI_User c t) = {}"
| "call_ids (AI_Assistant a) = ac_id ` set (calls_of (aa_content a))"
| "call_ids (AI_Result r) = {}"

definition answer_ids :: "ai_message list \<Rightarrow> id set" where
  "answer_ids ms = {i. Some i \<in> result_id ` set ms}"

text \<open>
  \<open>settled\<close>: the calls of each message are answered by the results that follow it at once.
  \<open>calls_answered\<close> asks this only of messages after which the conversation goes on.
\<close>

primrec settled :: "ai_message list \<Rightarrow> bool" where
  "settled [] = True"
| "settled (m # ms) = (call_ids m \<subseteq> answer_ids (takeWhile is_ai_result ms) \<and> settled ms)"

primrec calls_answered :: "ai_message list \<Rightarrow> bool" where
  "calls_answered [] = True"
| "calls_answered (m # ms) =
     ((dropWhile is_ai_result ms = [] \<or> call_ids m \<subseteq> answer_ids (takeWhile is_ai_result ms)) \<and>
      calls_answered ms)"

primrec replayable :: "ai_message \<Rightarrow> bool" where
  "replayable (AI_User c t) = True"
| "replayable (AI_Assistant a) = (aa_stop a \<noteq> Ai_Error \<and> aa_stop a \<noteq> Ai_Aborted)"
| "replayable (AI_Result r) = True"

lemma result_ids_simps [simp]:
  "answer_ids [] = {}"
  "answer_ids (m # ms) = set_option (result_id m) \<union> answer_ids ms"
  "answer_ids (xs @ ys) = answer_ids xs \<union> answer_ids ys"
  by (auto simp: answer_ids_def)

lemma result_ids_takeWhile: "answer_ids (takeWhile P xs) \<subseteq> answer_ids xs"
  by (induction xs) auto

lemma result_ids_takeWhile_append:
  "answer_ids (takeWhile P xs) \<subseteq> answer_ids (takeWhile P (xs @ ys))"
  by (induction xs) auto

lemma takeWhile_results: "list_all P xs \<Longrightarrow> takeWhile P (xs @ ys) = xs @ takeWhile P ys"
  by (induction xs) auto

lemma settled_append: "settled xs \<Longrightarrow> settled ys \<Longrightarrow> settled (xs @ ys)"
proof (induction xs)
  case Nil
  then show ?case by simp
next
  case (Cons m xs)
  with result_ids_takeWhile_append [of is_ai_result xs ys] show ?case by auto
qed

lemma settled_answered: "settled ms \<Longrightarrow> calls_answered ms"
  by (induction ms) auto

lemma call_ids_result [simp]: "is_ai_result m \<Longrightarrow> call_ids m = {}"
  by (cases m) auto

lemma settled_results: "list_all is_ai_result rs \<Longrightarrow> settled rs"
  by (induction rs) auto

lemma answered_open_end:
  "settled pre \<Longrightarrow> list_all is_ai_result rs \<Longrightarrow> calls_answered (pre @ m # rs)"
proof (induction pre)
  case Nil
  then have "dropWhile is_ai_result rs = []" by (induction rs) auto
  with Nil show ?case by (auto intro: settled_answered settled_results)
next
  case (Cons a pre)
  with result_ids_takeWhile_append [of is_ai_result pre "m # rs"] show ?case by auto
qed

lemma answered_snocD: "calls_answered (ms @ [m]) \<Longrightarrow> calls_answered ms"
proof (induction ms)
  case (Cons a ms)
  then show ?case
    by (cases "\<forall>x \<in> set ms. is_ai_result x")
      (auto simp: takeWhile_append dropWhile_append dropWhile_eq_Nil_conv)
qed simp

lemma answered_pending:
  "calls_answered (pre @ a # rs @ [m]) \<Longrightarrow> list_all is_ai_result rs \<Longrightarrow> \<not> is_ai_result m \<Longrightarrow>
   call_ids a \<subseteq> answer_ids rs"
proof (induction pre)
  case Nil
  have "\<forall>x \<in> set rs. is_ai_result x" using Nil.prems(2) by (simp add: list_all_iff)
  then have "takeWhile is_ai_result (rs @ [m]) = rs" "dropWhile is_ai_result (rs @ [m]) = [m]"
    using Nil.prems(3) by simp_all
  with Nil show ?case by simp
next
  case (Cons b pre)
  then show ?case by simp
qed

subsection \<open>What the state of the repair means\<close>

text \<open>
  When calls are pending, the result ends with their message and the results that have
  come since.
\<close>

definition tracks :: "repair_state \<Rightarrow> bool" where
  "tracks st =
     (if rs_pending st = [] then settled (rs_result st)
      else \<exists>pre a rs. rs_result st = pre @ AI_Assistant a # rs \<and> settled pre \<and>
             list_all is_ai_result rs \<and> calls_of (aa_content a) = rs_pending st \<and>
             rs_existing st = answer_ids rs)"

lemma answer_orphans_spec:
  "\<exists>rs. answer_orphans clock seen tcs out = out @ rs \<and> list_all is_ai_result rs \<and>
     ac_id ` set tcs \<subseteq> seen \<union> answer_ids rs \<and>
     list_all (\<lambda>m. \<exists>tc n. m = synthetic_result clock tc n \<and> tc \<in> set tcs \<and> ac_id tc \<notin> seen) rs"
proof (induction tcs arbitrary: out)
  case Nil
  then show ?case by simp
next
  case (Cons tc tcs)
  show ?case
  proof (cases "ac_id tc \<in> seen")
    case True
    then show ?thesis using Cons [of out] by (fastforce simp: list_all_iff)
  next
    case False
    let ?m = "synthetic_result clock tc out"
    obtain rs where rs: "answer_orphans clock seen tcs (out @ [?m]) = (out @ [?m]) @ rs"
      "list_all is_ai_result rs" "ac_id ` set tcs \<subseteq> seen \<union> answer_ids rs"
      "list_all (\<lambda>m. \<exists>tc n. m = synthetic_result clock tc n \<and> tc \<in> set tcs \<and> ac_id tc \<notin> seen) rs"
      using Cons [of "out @ [?m]"] by blast
    have "is_ai_result ?m" "result_id ?m = Some (ac_id tc)"
      by (simp_all add: synthetic_result_def)
    with rs False show ?thesis
      by (intro exI [of _ "?m # rs"]) (fastforce simp: list_all_iff)
  qed
qed

lemma answer_orphans_none:
  "ac_id ` set tcs \<subseteq> seen \<Longrightarrow> answer_orphans clock seen tcs out = out"
  by (induction tcs) auto

lemma flush_tracks:
  assumes "tracks st"
  shows "rs_pending (flush_pending clock st) = [] \<and> settled (rs_result (flush_pending clock st))"
proof (cases "rs_pending st = []")
  case True
  then show ?thesis using assms by (simp add: flush_pending_def tracks_def)
next
  case False
  then obtain pre a rs where st: "rs_result st = pre @ AI_Assistant a # rs" "settled pre"
    "list_all is_ai_result rs" "calls_of (aa_content a) = rs_pending st"
    "rs_existing st = answer_ids rs"
    using assms by (auto simp: tracks_def)
  obtain qs where qs: "answer_orphans clock (rs_existing st) (rs_pending st) (rs_result st) =
      rs_result st @ qs" "list_all is_ai_result qs"
      "ac_id ` set (rs_pending st) \<subseteq> rs_existing st \<union> answer_ids qs"
    using answer_orphans_spec by blast
  have all: "list_all is_ai_result (rs @ qs)" using st(3) qs(2) by simp
  have tw: "takeWhile is_ai_result (rs @ qs) = rs @ qs"
    using takeWhile_results [OF all, of "[]"] by simp
  have "settled (AI_Assistant a # (rs @ qs))"
    unfolding settled.simps tw using qs(3) st(4,5) settled_results [OF all] by simp
  then have "settled (pre @ AI_Assistant a # (rs @ qs))" using st(2) settled_append by blast
  then show ?thesis using False qs(1) st(1) by (simp add: flush_pending_def)
qed

lemma tracks_step:
  assumes "tracks st"
  shows "tracks (repair_step clock m st)"
proof (cases m)
  case (AI_User c t)
  then show ?thesis using flush_tracks [OF assms]
    by (auto simp: push_message_def tracks_def intro!: settled_append)
next
  case (AI_Assistant a)
  have "tracks (push_message (AI_Assistant a) (track_calls a st1))"
    if "rs_pending st1 = []" "settled (rs_result st1)" for st1
  proof (cases "calls_of (aa_content a) = []")
    case True
    with that show ?thesis
      by (auto simp: push_message_def tracks_def track_calls_def intro!: settled_append)
  next
    case False
    with that show ?thesis
      by (simp add: push_message_def tracks_def track_calls_def)
        (rule exI [of _ "rs_result st1"], rule exI [of _ a], rule exI [of _ "[]"], simp)
  qed
  then show ?thesis using flush_tracks [OF assms, of clock] AI_Assistant
    by (auto simp: tracks_def Let_def)
next
  case (AI_Result r)
  show ?thesis
  proof (cases "rs_pending st = []")
    case True
    then show ?thesis using AI_Result assms
      by (auto simp: push_message_def tracks_def intro!: settled_append)
  next
    case False
    then obtain pre a rs where st: "rs_result st = pre @ AI_Assistant a # rs" "settled pre"
      "list_all is_ai_result rs" "calls_of (aa_content a) = rs_pending st"
      "rs_existing st = answer_ids rs"
      using assms by (auto simp: tracks_def)
    let ?st = "repair_step clock m st"
    have "rs_result ?st = pre @ AI_Assistant a # (rs @ [AI_Result r])"
      "rs_pending ?st = rs_pending st" "rs_existing ?st = answer_ids (rs @ [AI_Result r])"
      using AI_Result st by (simp_all add: push_message_def)
    moreover have "list_all is_ai_result (rs @ [AI_Result r])" using st(3) by simp
    ultimately show ?thesis using st(2,4) False unfolding tracks_def by metis
  qed
qed

lemma tracks_repair: "tracks (fold (repair_step clock) ms no_repair)"
  by (rule fold_invariant [where Q = "\<lambda>_. True"]) (auto simp: tracks_step, simp add: tracks_def no_repair_def)

lemma tracks_answered: "tracks st \<Longrightarrow> calls_answered (rs_result st)"
  by (auto simp: tracks_def intro: settled_answered answered_open_end split: if_splits)

lemma repair_answered: "calls_answered (repair clock ms)"
  unfolding repair_def by (rule tracks_answered [OF tracks_repair])


subsection \<open>What the repair adds and drops\<close>

lemma flush_extends:
  "\<exists>qs. rs_result (flush_pending clock st) = rs_result st @ qs \<and>
     list_all (\<lambda>m. \<exists>tc n. m = synthetic_result clock tc n) qs"
proof (cases "rs_pending st = []")
  case True
  then show ?thesis by (simp add: flush_pending_def)
next
  case False
  obtain qs where "answer_orphans clock (rs_existing st) (rs_pending st) (rs_result st) =
      rs_result st @ qs"
    "list_all (\<lambda>m. \<exists>tc n. m = synthetic_result clock tc n \<and> tc \<in> set (rs_pending st) \<and>
       ac_id tc \<notin> rs_existing st) qs"
    using answer_orphans_spec by blast
  with False show ?thesis by (fastforce simp: flush_pending_def list_all_iff)
qed

lemma step_extends:
  "\<exists>qs. rs_result (repair_step clock m st) = rs_result st @ qs @ (if replayable m then [m] else []) \<and>
     list_all (\<lambda>m. \<exists>tc n. m = synthetic_result clock tc n) qs"
proof (cases m)
  case (AI_User c t)
  then show ?thesis using flush_extends [of clock st] by (auto simp: push_message_def)
next
  case (AI_Assistant a)
  then show ?thesis using flush_extends [of clock st]
    by (auto simp: push_message_def track_calls_def Let_def)
next
  case (AI_Result r)
  then show ?thesis by (auto simp: push_message_def intro!: exI [of _ "[]"])
qed

lemma synthetic_simps [simp]:
  "is_ai_result (synthetic_result clock tc n)" "replayable (synthetic_result clock tc n)"
  by (simp_all add: synthetic_result_def)

lemma repair_fold_extends:
  "\<exists>new. rs_result (fold (repair_step clock) ms st) = rs_result st @ new \<and>
     list_all replayable new \<and> subseq (filter replayable ms) new \<and>
     filter (\<lambda>m. \<not> is_ai_result m) new = filter (\<lambda>m. replayable m \<and> \<not> is_ai_result m) ms \<and>
     list_all (\<lambda>m. m \<in> set ms \<or> (\<exists>tc n. m = synthetic_result clock tc n)) new"
proof (induction ms arbitrary: st)
  case Nil
  then show ?case by simp
next
  case (Cons m ms)
  let ?m = "if replayable m then [m] else []"
  obtain qs where qs: "rs_result (repair_step clock m st) = rs_result st @ qs @ ?m"
    "list_all (\<lambda>m. \<exists>tc n. m = synthetic_result clock tc n) qs"
    using step_extends by blast
  obtain new where new: "rs_result (fold (repair_step clock) ms (repair_step clock m st)) =
      rs_result (repair_step clock m st) @ new"
    "list_all replayable new" "subseq (filter replayable ms) new"
    "filter (\<lambda>m. \<not> is_ai_result m) new = filter (\<lambda>m. replayable m \<and> \<not> is_ai_result m) ms"
    "list_all (\<lambda>m. m \<in> set ms \<or> (\<exists>tc n. m = synthetic_result clock tc n)) new"
    using Cons.IH by blast
  have "list_all replayable (qs @ ?m @ new)"
    using qs(2) new(2) by (fastforce simp: list_all_iff)
  moreover have "subseq (filter replayable (m # ms)) (qs @ ?m @ new)"
    using new(3) by (auto intro: list_emb_append2)
  moreover have "filter (\<lambda>m. \<not> is_ai_result m) qs = []"
    using qs(2) by (fastforce simp: list_all_iff filter_empty_conv)
  then have "filter (\<lambda>m. \<not> is_ai_result m) (qs @ ?m @ new) =
      filter (\<lambda>m. replayable m \<and> \<not> is_ai_result m) (m # ms)"
    using new(4) by simp
  moreover have "list_all (\<lambda>x. x \<in> set (m # ms) \<or> (\<exists>tc n. x = synthetic_result clock tc n))
      (qs @ ?m @ new)"
    using qs(2) new(5) by (auto simp: list_all_iff)
  ultimately show ?case using qs(1) new(1)
    by (intro exI [of _ "qs @ ?m @ new"]) simp
qed

lemma repair_extends:
  "list_all replayable (repair clock ms)"
  "subseq (filter replayable ms) (repair clock ms)"
  "filter (\<lambda>m. \<not> is_ai_result m) (repair clock ms) =
     filter (\<lambda>m. replayable m \<and> \<not> is_ai_result m) ms"
  "list_all (\<lambda>m. m \<in> set ms \<or> (\<exists>tc n. m = synthetic_result clock tc n)) (repair clock ms)"
  using repair_fold_extends [of clock ms no_repair]
  by (auto simp: repair_def no_repair_def)

lemma flush_answered:
  assumes "tracks st" "calls_answered (rs_result st @ [m])" "\<not> is_ai_result m"
  shows "rs_result (flush_pending clock st) = rs_result st"
proof (cases "rs_pending st = []")
  case True
  then show ?thesis by (simp add: flush_pending_def)
next
  case False
  then obtain pre a rs where st: "rs_result st = pre @ AI_Assistant a # rs" "settled pre"
    "list_all is_ai_result rs" "calls_of (aa_content a) = rs_pending st"
    "rs_existing st = answer_ids rs"
    using assms(1) by (auto simp: tracks_def)
  have "call_ids (AI_Assistant a) \<subseteq> answer_ids rs"
    using answered_pending [of pre "AI_Assistant a" rs m] assms(2,3) st(1,3) by simp
  then have "ac_id ` set (rs_pending st) \<subseteq> rs_existing st" using st(4,5) by simp
  then show ?thesis by (simp add: flush_pending_def answer_orphans_none)
qed

lemma repair_id:
  "calls_answered ms \<Longrightarrow> list_all replayable ms \<Longrightarrow> repair clock ms = ms"
proof (induction ms rule: rev_induct)
  case Nil
  then show ?case by (simp add: repair_def no_repair_def)
next
  case (snoc m ms)
  let ?st = "fold (repair_step clock) ms no_repair"
  have ms: "rs_result ?st = ms"
    using snoc answered_snocD by (simp add: repair_def)
  have flush: "rs_result (flush_pending clock ?st) = ms" if "\<not> is_ai_result m"
    using flush_answered [OF tracks_repair, of clock ms m clock] snoc.prems(1) ms that by simp
  show ?case
    using ms flush snoc.prems(2)
    by (cases m) (auto simp: repair_def push_message_def track_calls_def Let_def)
qed

subsection \<open>The adapted history\<close>

lemma adapt_users:
  "filter (\<lambda>m. \<exists>c t. m = AI_User c t) (adapt_messages M norm ms ids) =
   filter (\<lambda>m. \<exists>c t. m = AI_User c t) ms"
  by (induction M norm ms ids rule: adapt_messages.induct) (auto split: prod.split)

lemma length_adapt [simp]: "length (adapt_messages M norm ms ids) = length ms"
  by (induction M norm ms ids rule: adapt_messages.induct) (auto split: prod.split)

subsection \<open>The repaired history, by its definition\<close>

text \<open>
  What the second pass is to produce, without its state: every response is followed by the
  results that came after it and, if the conversation goes on, by one error for each of its
  calls that has none among these; failed responses are left out.
\<close>

primrec message_calls :: "ai_message \<Rightarrow> ai_call list" where
  "message_calls (AI_User c t) = []"
| "message_calls (AI_Assistant a) = calls_of (aa_content a)"
| "message_calls (AI_Result r) = []"

primrec missing_answers :: "(nat \<Rightarrow> int) \<Rightarrow> ai_message list \<Rightarrow> ai_call list \<Rightarrow> ai_message list" where
  "missing_answers clock out [] = []"
| "missing_answers clock out (tc # tcs) =
     (let r = synthetic_result clock tc out in r # missing_answers clock (out @ [r]) tcs)"

function answered_history :: "(nat \<Rightarrow> int) \<Rightarrow> ai_message list \<Rightarrow> ai_message list \<Rightarrow> ai_message list" where
  "answered_history clock out [] = out"
| "answered_history clock out (m # ms) =
     (if \<not> replayable m then answered_history clock out ms
      else let rs = takeWhile is_ai_result ms; rest = dropWhile is_ai_result ms;
               missing = filter (\<lambda>tc. ac_id tc \<notin> answer_ids rs) (message_calls m);
               out1 = out @ m # rs
           in answered_history clock (if rest = [] then out1 else out1 @ missing_answers clock out1 missing) rest)"
  by pat_completeness auto
termination
  by (relation "measure (\<lambda>(clock, out, ms). length ms)") (auto simp: le_imp_less_Suc length_dropWhile_le)

lemma answer_orphans_missing:
  "answer_orphans clock seen tcs out = out @ missing_answers clock out (filter (\<lambda>tc. ac_id tc \<notin> seen) tcs)"
  by (induction tcs arbitrary: out) (simp_all add: Let_def)

lemma fold_results:
  "list_all is_ai_result rs \<Longrightarrow> fold (repair_step clock) rs st =
     st\<lparr>rs_result := rs_result st @ rs, rs_existing := rs_existing st \<union> answer_ids rs\<rparr>"
proof (induction rs arbitrary: st)
  case (Cons m rs)
  then show ?case by (cases m) (simp_all add: push_message_def)
qed simp

lemma flush_first: "\<not> is_ai_result m \<Longrightarrow> repair_step clock m (flush_pending clock st) = repair_step clock m st"
  by (cases m) (simp_all add: flush_pending_def)

lemma fold_answered:
  "rs_pending st = [] \<Longrightarrow> rs_result (fold (repair_step clock) ms st) = answered_history clock (rs_result st) ms"
proof (induction clock "rs_result st" ms arbitrary: st rule: answered_history.induct)
  case (1 clock)
  then show ?case by simp
next
  case (2 clock m ms)
  show ?case
  proof (cases "replayable m")
    case False
    then obtain a where "m = AI_Assistant a" "aa_stop a = Ai_Error \<or> aa_stop a = Ai_Aborted" by (cases m) auto
    then have "repair_step clock m st = st" using 2(3) by (simp add: flush_pending_def)
    then show ?thesis using 2(1) [OF False refl 2(3)] False by simp
  next
    case True
    let ?rs = "takeWhile is_ai_result ms" and ?rest = "dropWhile is_ai_result ms"
    let ?st1 = "repair_step clock m st" and ?out = "rs_result st @ m # takeWhile is_ai_result ms"
    let ?missing = "filter (\<lambda>tc. ac_id tc \<notin> answer_ids ?rs) (message_calls m)"
    let ?st2 = "fold (repair_step clock) ?rs ?st1"
    have st1: "rs_result ?st1 = rs_result st @ [m]" "rs_pending ?st1 = message_calls m"
      "message_calls m \<noteq> [] \<Longrightarrow> rs_existing ?st1 = {}"
      using True 2(3) by (cases m; simp add: push_message_def flush_pending_def track_calls_def)+
    have "list_all is_ai_result ?rs" by (auto simp: list_all_iff dest: set_takeWhileD)
    from fold_results [OF this] have st2: "rs_result ?st2 = ?out" "rs_pending ?st2 = message_calls m"
      "message_calls m \<noteq> [] \<Longrightarrow> rs_existing ?st2 = answer_ids ?rs"
      using st1 by simp_all
    have run: "fold (repair_step clock) (m # ms) st = fold (repair_step clock) ?rest ?st2"
      by (metis comp_apply fold_append fold_simps(2) takeWhile_dropWhile_id)
    show ?thesis
    proof (cases ?rest)
      case Nil
      then show ?thesis
        using st2(1) True unfolding run Nil answered_history.simps Let_def by (simp add: Nil)
    next
      case (Cons r rest)
      let ?st3 = "flush_pending clock ?st2"
      have "\<not> is_ai_result r" using Cons by (metis hd_dropWhile list.distinct(1) list.sel(1))
      then have "fold (repair_step clock) ?rest ?st2 = fold (repair_step clock) ?rest ?st3"
        unfolding Cons by (simp add: flush_first)
      moreover have "rs_pending ?st3 = []" by (simp add: flush_pending_def)
      moreover have "rs_result ?st3 = ?out @ missing_answers clock ?out ?missing"
        using st2 by (auto simp: flush_pending_def answer_orphans_missing)
      ultimately show ?thesis
        using 2(2) [OF _ refl refl refl refl, of ?st3] True run Cons by (simp add: Let_def)
    qed
  qed
qed

lemma repair_is_answered_history: "repair clock ms = answered_history clock [] ms"
  using fold_answered [of no_repair] by (simp add: repair_def no_repair_def)

text \<open>C20: The history sent to a model answers every tool call of a response before the
  conversation goes on. It is the adapted history, in order and without failed and aborted
  responses, in which after the results that follow a response at once there stands one error
  result for each of its calls that has no result among these, unless nothing follows; no call
  that has a result gets an error, and nothing else is added.\<close>

theorem sent_history_answers_calls:
  "let sent = transform_messages M norm clock ms; adapted = adapt_messages M norm ms []
   in sent = answered_history clock [] adapted \<and>
      calls_answered sent \<and> list_all replayable sent \<and>
      filter (\<lambda>m. \<not> is_ai_result m) sent =
        filter (\<lambda>m. replayable m \<and> \<not> is_ai_result m) adapted \<and>
      subseq (filter replayable adapted) sent \<and>
      list_all (\<lambda>m. m \<in> set adapted \<or> (\<exists>tc n. m = synthetic_result clock tc n)) sent \<and>
      filter (\<lambda>m. \<exists>c t. m = AI_User c t) adapted = filter (\<lambda>m. \<exists>c t. m = AI_User c t) ms"
  unfolding transform_messages_def Let_def
  using repair_is_answered_history repair_answered repair_extends adapt_users by blast

text \<open>Repairing a history twice changes nothing: a history whose calls are answered and
  that holds no failed response is sent as it is.\<close>

theorem repair_idempotent: "repair clock' (repair clock ms) = repair clock ms"
  by (rule repair_id [OF repair_answered repair_extends(1)])

subsection \<open>Renamed calls\<close>

text \<open>All responses of the history come from other models than the one it is sent to.\<close>

definition foreign :: "'m model_id_scheme \<Rightarrow> ai_message list \<Rightarrow> bool" where
  "foreign M ms = list_all (\<lambda>m. case m of AI_Assistant a \<Rightarrow> \<not> same_model M a | _ \<Rightarrow> True) ms"

definition names_by :: "(id \<Rightarrow> id) \<Rightarrow> (id \<times> id) list \<Rightarrow> bool" where
  "names_by f ids = (\<forall>i n. map_of ids i = Some n \<longrightarrow> n = f i)"

lemma adapt_blocks_foreign:
  assumes "adapt_blocks False (Some (\<lambda>i a. f i)) a bs ids = (bs', ids')" "names_by f ids"
  shows "names_by f ids'" "map ac_id (calls_of bs') = map (f \<circ> ac_id) (calls_of bs)"
    "\<forall>i \<in> ac_id ` set (calls_of bs). f i \<noteq> i \<longrightarrow> map_of ids' i = Some (f i)"
    "\<forall>i n. map_of ids i = Some n \<longrightarrow> map_of ids' i = Some n"
proof -
  have "names_by f ids' \<and> map ac_id (calls_of bs') = map (f \<circ> ac_id) (calls_of bs) \<and>
    (\<forall>i \<in> ac_id ` set (calls_of bs). f i \<noteq> i \<longrightarrow> map_of ids' i = Some (f i)) \<and>
    (\<forall>i n. map_of ids i = Some n \<longrightarrow> map_of ids' i = Some n)"
    using assms
  proof (induction bs arbitrary: ids bs' ids')
    case Nil
    then show ?case by simp
  next
    case (Cons b bs)
    show ?case
    proof (cases b)
      case (AI_Text s sig)
      with Cons show ?thesis by (fastforce split: prod.splits)
    next
      case (AI_Thinking t)
      have "calls_of (adapt_thinking False t @ us) = calls_of us" for us
        by (simp add: adapt_thinking_def)
      with Cons AI_Thinking show ?thesis by (fastforce split: prod.splits)
    next
      case (AI_Call tc)
      obtain tc' ids1 where tc': "adapt_call False (Some (\<lambda>i a. f i)) a tc ids = (tc', ids1)"
        by (rule prod.exhaust)
      obtain cs ids2 where cs: "adapt_blocks False (Some (\<lambda>i a. f i)) a bs ids1 = (cs, ids2)"
        by (rule prod.exhaust)
      have ids1: "names_by f ids1" "ac_id tc' = f (ac_id tc)"
        "f (ac_id tc) \<noteq> ac_id tc \<Longrightarrow> map_of ids1 (ac_id tc) = Some (f (ac_id tc))"
        "\<forall>i n. map_of ids i = Some n \<longrightarrow> map_of ids1 i = Some n"
        using tc' Cons.prems(2)
        by (auto simp: adapt_call_def Let_def names_by_def split: if_splits)
      have "bs' = AI_Call tc' # cs" "ids' = ids2"
        using Cons.prems(1) AI_Call tc' cs by simp_all
      with Cons.IH [OF cs ids1(1)] ids1(2-4) AI_Call show ?thesis by auto
    qed
  qed
  then show "names_by f ids'" "map ac_id (calls_of bs') = map (f \<circ> ac_id) (calls_of bs)"
    "\<forall>i \<in> ac_id ` set (calls_of bs). f i \<noteq> i \<longrightarrow> map_of ids' i = Some (f i)"
    "\<forall>i n. map_of ids i = Some n \<longrightarrow> map_of ids' i = Some n" by blast+
qed

lemma adapt_result_id:
  assumes "names_by f ids"
  shows "ai_call_id (adapt_result r ids) \<in> {ai_call_id r, f (ai_call_id r)}"
    "map_of ids (ai_call_id r) = Some n \<Longrightarrow> n \<noteq> [] \<Longrightarrow> ai_call_id (adapt_result r ids) = n"
  using assms by (auto simp: adapt_result_def names_by_def split: option.split)

lemma adapted_results:
  assumes "names_by f ids" "\<forall>i n. i \<in> I \<longrightarrow> f i \<noteq> i \<longrightarrow> map_of ids i = Some (f i)"
    "\<forall>i \<in> I. f i \<noteq> []" "I \<subseteq> answer_ids (takeWhile is_ai_result ms)"
  shows "f ` I \<subseteq> answer_ids (takeWhile is_ai_result (adapt_messages M norm ms ids))"
  using assms(2-)
proof (induction ms arbitrary: I)
  case Nil
  then show ?case by simp
next
  case (Cons m ms)
  show ?case
  proof (cases m)
    case (AI_Result r)
    let ?I = "I - {ai_call_id r}"
    have "f ` ?I \<subseteq> answer_ids (takeWhile is_ai_result (adapt_messages M norm ms ids))"
      using Cons.prems AI_Result by (intro Cons.IH) auto
    moreover have "ai_call_id (adapt_result r ids) = f (ai_call_id r)" if "ai_call_id r \<in> I"
      using that Cons.prems(1,2) adapt_result_id [OF assms(1), of r]
      by (cases "f (ai_call_id r) = ai_call_id r") auto
    ultimately have "f i \<in> insert (ai_call_id (adapt_result r ids))
        (answer_ids (takeWhile is_ai_result (adapt_messages M norm ms ids)))" if "i \<in> I" for i
      using that by (cases "i = ai_call_id r") auto
    then show ?thesis using AI_Result by auto
  qed (use Cons.prems in auto)
qed

lemma adapt_settled:
  assumes "settled ms" "foreign M ms" "names_by f ids"
    "\<forall>i \<in> \<Union>(call_ids ` set ms). f i \<noteq> []"
  shows "settled (adapt_messages M (Some (\<lambda>i a. f i)) ms ids)"
  using assms
proof (induction ms arbitrary: ids)
  case Nil
  then show ?case by simp
next
  case (Cons m ms)
  show ?case
  proof (cases m)
    case (AI_Assistant a)
    then have other: "\<not> same_model M a" using Cons.prems(2) by (simp add: foreign_def)
    obtain bs ids' where bs: "adapt_blocks False (Some (\<lambda>i a. f i)) a (aa_content a) ids = (bs, ids')"
      by (rule prod.exhaust)
    note blocks = adapt_blocks_foreign [OF bs Cons.prems(3)]
    have "f ` call_ids m \<subseteq>
        answer_ids (takeWhile is_ai_result (adapt_messages M (Some (\<lambda>i a. f i)) ms ids'))"
      using AI_Assistant blocks(3) Cons.prems(1,4)
      by (intro adapted_results [OF blocks(1)]) auto
    moreover have "ac_id ` set (calls_of bs) = f ` call_ids m"
      using AI_Assistant arg_cong [OF blocks(2), of set] by (simp add: image_image)
    moreover have "settled (adapt_messages M (Some (\<lambda>i a. f i)) ms ids')"
      using Cons.prems by (intro Cons.IH [OF _ _ blocks(1)]) (simp_all add: foreign_def)
    ultimately show ?thesis using AI_Assistant other bs by simp
  qed (use Cons in \<open>auto simp: foreign_def\<close>)
qed

text \<open>When a history of other models' responses is sent on and its tool call identifiers
  are normalised, results stay with their calls: a history in which all calls are answered
  still is one, provided that no identifier is normalised to the empty string.\<close>

theorem renaming_keeps_answers:
  assumes "settled ms" "foreign M ms" "\<forall>i \<in> \<Union>(call_ids ` set ms). f i \<noteq> []"
  shows "settled (adapt_messages M (Some (\<lambda>i a. f i)) ms [])"
  by (rule adapt_settled [OF assms(1,2) _ assms(3)]) (simp add: names_by_def)

definition demo_history :: "ai_message list" where
  "demo_history =
     [AI_Assistant \<lparr>aa_content = [AI_Call \<lparr>ac_id = ''call|x'', ac_name = ''t'', ac_args = JObj [],
        ac_thought = None\<rparr>], aa_api = ''a'', aa_provider = ''p'', aa_model = ''m'',
        aa_response_id = None, aa_usage = JNull, aa_stop = Ai_Tool_Use, aa_error = None,
        aa_time = 1\<rparr>,
      AI_Result \<lparr>ai_call_id = ''call|x'', ai_name = ''t'', ai_content = [], ai_details = None,
        ai_is_error = False, ai_time = 2\<rparr>]"

theorem renaming_keeps_answers_witness:
  "settled (adapt_messages \<lparr>md_id = ''n'', md_api = ''a'', md_provider = ''q''\<rparr>
     (Some (\<lambda>i a. takeWhile (\<lambda>c. c \<noteq> CHR ''|'') i)) demo_history [])"
  by (rule renaming_keeps_answers)
    (simp_all add: demo_history_def foreign_def same_model_def answer_ids_def)

end
