(* ===== verification/Openai_Messages.thy ===== *)
theory Openai_Messages
  imports Transform_Messages Json_Parse "HOL-Library.Word"
begin

text \<open>
  \<open>packages/runtime/ai/src/providers/openai-completions.ts\<close>, the request side: the history is
  adapted (\<open>Transform_Messages\<close>) and turned into the message list of the OpenAI chat
  completions API, and the parameters of the request follow the compatibility settings of
  the provider. The lemmas show that a request is well-formed as the API demands: tool
  messages follow the assistant message whose calls they answer.

  \<open>sanitizeSurrogates\<close> of \<open>utils/sanitize-unicode.ts\<close> works on 16-bit code units and is
  modelled on those; the text of messages has code units below 256, on which it is the
  identity.
\<close>

section \<open>Sanitising text\<close>

type_synonym unit16 = "16 word"

definition high_surrogate :: "unit16 \<Rightarrow> bool" where
  "high_surrogate u = (0xD800 \<le> u \<and> u \<le> 0xDBFF)"

definition low_surrogate :: "unit16 \<Rightarrow> bool" where
  "low_surrogate u = (0xDC00 \<le> u \<and> u \<le> 0xDFFF)"

text \<open>
  Both alternatives of the pattern look at the text before replacement: a high surrogate is
  matched unless a low one follows, a low one unless a high one precedes.
\<close>

fun sanitize_from :: "bool \<Rightarrow> unit16 list \<Rightarrow> unit16 list" where
  "sanitize_from after_high [] = []"
| "sanitize_from after_high (u # us) =
     (if high_surrogate u \<and> \<not> (us \<noteq> [] \<and> low_surrogate (hd us)) \<or>
         low_surrogate u \<and> \<not> after_high
      then sanitize_from (high_surrogate u) us
      else u # sanitize_from (high_surrogate u) us)"

definition sanitize_surrogates :: "unit16 list \<Rightarrow> unit16 list" where
  "sanitize_surrogates us = sanitize_from False us"

section \<open>Compatibility settings\<close>

datatype thinking_format = Format_Openai | Format_Openrouter | Format_Zai | Format_Qwen |
  Format_Qwen_Chat_Template

datatype max_tokens_field = Max_Completion_Tokens | Max_Tokens

datatype thinking_level = Level_Minimal | Level_Low | Level_Medium | Level_High | Level_Xhigh

text \<open>The resolved settings (\<open>Required<OpenAICompletionsCompat>\<close>), and those of a model.\<close>

record compat =
  supports_store :: bool
  supports_developer_role :: bool
  supports_reasoning_effort :: bool
  reasoning_effort_map :: "thinking_level \<rightharpoonup> string"
  supports_usage_in_streaming :: bool
  max_tokens_field :: max_tokens_field
  requires_tool_result_name :: bool
  requires_assistant_after_tool_result :: bool
  requires_thinking_as_text :: bool
  thinking_format :: thinking_format
  open_router_routing :: json
  vercel_gateway_routing :: json
  supports_strict_mode :: bool

record model_compat =
  mc_supports_store :: "bool option"
  mc_supports_developer_role :: "bool option"
  mc_supports_reasoning_effort :: "bool option"
  mc_reasoning_effort_map :: "(thinking_level \<rightharpoonup> string) option"
  mc_supports_usage_in_streaming :: "bool option"
  mc_max_tokens_field :: "max_tokens_field option"
  mc_requires_tool_result_name :: "bool option"
  mc_requires_assistant_after_tool_result :: "bool option"
  mc_requires_thinking_as_text :: "bool option"
  mc_thinking_format :: "thinking_format option"
  mc_open_router_routing :: "json option"
  mc_vercel_gateway_routing :: "json option"
  mc_supports_strict_mode :: "bool option"

record model = model_id +
  md_base_url :: string
  md_reasoning :: bool
  md_images :: bool
  md_max_tokens :: nat
  md_compat :: "model_compat option"

definition is_zai :: "model \<Rightarrow> bool" where
  "is_zai M = (md_provider M = ''zai'' \<or> str_includes (md_base_url M) ''api.z.ai'')"

definition is_non_standard :: "model \<Rightarrow> bool" where
  "is_non_standard M =
     (md_provider M = ''cerebras'' \<or> str_includes (md_base_url M) ''cerebras.ai'' \<or>
      md_provider M = ''xai'' \<or> str_includes (md_base_url M) ''api.x.ai'' \<or>
      str_includes (md_base_url M) ''chutes.ai'' \<or> str_includes (md_base_url M) ''deepseek.com'' \<or>
      is_zai M \<or> md_provider M = ''opencode'' \<or> str_includes (md_base_url M) ''opencode.ai'')"

definition detect_compat :: "model \<Rightarrow> compat" where
  "detect_compat M =
     (let url = md_base_url M;
          grok = (md_provider M = ''xai'' \<or> str_includes url ''api.x.ai'');
          groq = (md_provider M = ''groq'' \<or> str_includes url ''groq.com'')
      in \<lparr>supports_store = \<not> is_non_standard M,
          supports_developer_role = \<not> is_non_standard M,
          supports_reasoning_effort = (\<not> grok \<and> \<not> is_zai M),
          reasoning_effort_map =
            (if groq \<and> md_id M = ''qwen/qwen3-32b'' then (\<lambda>l. Some ''default'') else (\<lambda>l. None)),
          supports_usage_in_streaming = True,
          max_tokens_field = (if str_includes url ''chutes.ai'' then Max_Tokens else Max_Completion_Tokens),
          requires_tool_result_name = False,
          requires_assistant_after_tool_result = False,
          requires_thinking_as_text = False,
          thinking_format =
            (if is_zai M then Format_Zai
             else if md_provider M = ''openrouter'' \<or> str_includes url ''openrouter.ai''
             then Format_Openrouter else Format_Openai),
          open_router_routing = JObj [],
          vercel_gateway_routing = JObj [],
          supports_strict_mode = True\<rparr>)"

definition get_compat :: "model \<Rightarrow> compat" where
  "get_compat M =
     (let d = detect_compat M
      in case md_compat M of
           None \<Rightarrow> d
         | Some c \<Rightarrow>
             \<lparr>supports_store = or_else (mc_supports_store c) (supports_store d),
              supports_developer_role = or_else (mc_supports_developer_role c) (supports_developer_role d),
              supports_reasoning_effort =
                or_else (mc_supports_reasoning_effort c) (supports_reasoning_effort d),
              reasoning_effort_map = or_else (mc_reasoning_effort_map c) (reasoning_effort_map d),
              supports_usage_in_streaming =
                or_else (mc_supports_usage_in_streaming c) (supports_usage_in_streaming d),
              max_tokens_field = or_else (mc_max_tokens_field c) (max_tokens_field d),
              requires_tool_result_name =
                or_else (mc_requires_tool_result_name c) (requires_tool_result_name d),
              requires_assistant_after_tool_result =
                or_else (mc_requires_assistant_after_tool_result c)
                  (requires_assistant_after_tool_result d),
              requires_thinking_as_text =
                or_else (mc_requires_thinking_as_text c) (requires_thinking_as_text d),
              thinking_format = or_else (mc_thinking_format c) (thinking_format d),
              open_router_routing = or_else (mc_open_router_routing c) (JObj []),
              vercel_gateway_routing =
                or_else (mc_vercel_gateway_routing c) (vercel_gateway_routing d),
              supports_strict_mode =
                or_else (mc_supports_strict_mode c) (supports_strict_mode d)\<rparr>)"

section \<open>Messages of the API\<close>

text \<open>Parts carry the \<open>cache_control\<close> mark of Anthropic-style caching.\<close>

datatype chat_part = Chat_Text string bool | Chat_Image string

datatype chat_content = Chat_Null | Chat_String string | Chat_Parts "chat_part list"

record chat_call =
  ck_id :: id
  ck_name :: string
  ck_arguments :: string

text \<open>
  \<open>cs_thinking\<close> is the property, named by the signature of the first thinking block, that
  returns the reasoning to the server (signatures are names of reasoning fields, none of
  the other properties of the message).
\<close>

record chat_assistant =
  cs_content :: chat_content
  cs_thinking :: "(string \<times> string) option"
  cs_calls :: "chat_call list"
  cs_reasoning :: "json list"

datatype chat_message =
    Chat_System bool string
  | Chat_User chat_content
  | Chat_Assistant chat_assistant
  | Chat_Tool id string "string option"

definition normalize_call_id :: "model \<Rightarrow> id \<Rightarrow> id" where
  "normalize_call_id M i =
     (if CHR ''|'' \<in> set i
      then take 40 (map (\<lambda>c. if c \<in> set ''abcdefghijklmnopqrstuvwxyzABCDEFGHIJKLMNOPQRSTUVWXYZ0123456789_-''
        then c else CHR ''_'') (hd (split_on (CHR ''|'') i)))
      else if md_provider M = ''openai'' then take 40 i
      else i)"

definition image_url :: "string \<Rightarrow> string \<Rightarrow> chat_part" where
  "image_url img mime = Chat_Image (''data:'' @ mime @ '';base64,'' @ img)"

primrec user_part :: "ai_part \<Rightarrow> chat_part" where
  "user_part (Part_Text s sig) = Chat_Text s False"
| "user_part (Part_Image img mime) = image_url img mime"

primrec is_image :: "chat_part \<Rightarrow> bool" where
  "is_image (Chat_Text s c) = False"
| "is_image (Chat_Image u) = True"

text \<open>A user message without parts is left out.\<close>

fun convert_user :: "model \<Rightarrow> user_content \<Rightarrow> chat_message list" where
  "convert_user M (User_String s) = [Chat_User (Chat_String s)]"
| "convert_user M (User_Parts ps) =
     (let parts = filter (\<lambda>p. md_images M \<or> \<not> is_image p) (map user_part ps)
      in if parts = [] then [] else [Chat_User (Chat_Parts parts)])"

fun text_blocks :: "ai_block list \<Rightarrow> string list" where
  "text_blocks [] = []"
| "text_blocks (AI_Text s sig # bs) = s # text_blocks bs"
| "text_blocks (AI_Thinking t # bs) = text_blocks bs"
| "text_blocks (AI_Call tc # bs) = text_blocks bs"

fun thinking_blocks :: "ai_block list \<Rightarrow> thinking_content list" where
  "thinking_blocks [] = []"
| "thinking_blocks (AI_Text s sig # bs) = thinking_blocks bs"
| "thinking_blocks (AI_Thinking t # bs) = t # thinking_blocks bs"
| "thinking_blocks (AI_Call tc # bs) = thinking_blocks bs"

definition chat_call_of :: "ai_call \<Rightarrow> chat_call" where
  "chat_call_of tc = \<lparr>ck_id = ac_id tc, ck_name = ac_name tc, ck_arguments = stringify (ac_args tc)\<rparr>"

text \<open>\<open>.filter(Boolean)\<close> drops the parsed signatures that are falsy.\<close>

primrec json_truthy :: "json \<Rightarrow> bool" where
  "json_truthy JNull = False"
| "json_truthy (JBool b) = b"
| "json_truthy (JNum n) = (n \<noteq> 0)"
| "json_truthy (JStr s) = (s \<noteq> [])"
| "json_truthy (JArr js) = True"
| "json_truthy (JObj ms) = True"

definition reasoning_details :: "ai_call list \<Rightarrow> json list" where
  "reasoning_details tcs =
     filter json_truthy (List.map_filter (\<lambda>tc.
       if truthy (ac_thought tc) then parse_json (the (ac_thought tc)) else None) tcs)"

text \<open>
  The content of an assistant message. \<open>Inl\<close> is the \<open>TypeError\<close> of \<open>unshift\<close> on a string: the
  text of the message is a plain string by then, and a non-empty string is truthy.
\<close>

definition assistant_text :: "compat \<Rightarrow> ai_block list \<Rightarrow> chat_content" where
  "assistant_text C bs =
     (let texts = filter (\<lambda>s. \<not> blank s) (text_blocks bs)
      in if texts \<noteq> [] then Chat_String (concat texts)
         else if requires_assistant_after_tool_result C then Chat_String [] else Chat_Null)"

definition assistant_thinking :: "compat \<Rightarrow> ai_block list \<Rightarrow> chat_content \<Rightarrow>
    string + chat_content \<times> (string \<times> string) option" where
  "assistant_thinking C bs content =
     (let ts = filter (\<lambda>t. \<not> blank (th_thinking t)) (thinking_blocks bs)
      in if ts = [] then Inr (content, None)
         else if requires_thinking_as_text C then
           (case content of
              Chat_String (c # s) \<Rightarrow> Inl ''textContent.unshift is not a function''
            | _ \<Rightarrow> Inr (Chat_Parts [Chat_Text (join [CHR 0x0A, CHR 0x0A] (map th_thinking ts)) False], None))
         else Inr (content,
           (if truthy (th_signature (hd ts))
            then Some (the (th_signature (hd ts)), join [CHR 0x0A] (map th_thinking ts)) else None)))"

primrec has_content :: "chat_content \<Rightarrow> bool" where
  "has_content Chat_Null = False"
| "has_content (Chat_String s) = (s \<noteq> [])"
| "has_content (Chat_Parts ps) = (ps \<noteq> [])"

definition convert_assistant :: "compat \<Rightarrow> ai_assistant \<Rightarrow>
    string + chat_message list" where
  "convert_assistant C a =
     (case assistant_thinking C (aa_content a) (assistant_text C (aa_content a)) of
        Inl e \<Rightarrow> Inl e
      | Inr (content, thinking) \<Rightarrow>
          let tcs = calls_of (aa_content a)
          in if \<not> has_content content \<and> tcs = [] then Inr []
             else Inr [Chat_Assistant \<lparr>cs_content = content, cs_thinking = thinking,
               cs_calls = map chat_call_of tcs, cs_reasoning = reasoning_details tcs\<rparr>])"


text \<open>
  A run of tool results: one tool message each, and one user message with all their images.
\<close>

fun text_parts :: "ai_part list \<Rightarrow> string list" where
  "text_parts [] = []"
| "text_parts (Part_Text s sig # ps) = s # text_parts ps"
| "text_parts (Part_Image img mime # ps) = text_parts ps"

fun image_parts :: "ai_part list \<Rightarrow> chat_part list" where
  "image_parts [] = []"
| "image_parts (Part_Text s sig # ps) = image_parts ps"
| "image_parts (Part_Image img mime # ps) = image_url img mime # image_parts ps"

definition tool_message :: "compat \<Rightarrow> ai_result \<Rightarrow> chat_message" where
  "tool_message C r =
     (let txt = join [CHR 0x0A] (text_parts (ai_content r))
      in Chat_Tool (ai_call_id r) (if txt \<noteq> [] then txt else ''(see attached image)'')
           (if requires_tool_result_name C \<and> ai_name r \<noteq> [] then Some (ai_name r) else None))"

definition bridge :: chat_message where
  "bridge = Chat_Assistant \<lparr>cs_content = Chat_String ''I have processed the tool results.'',
     cs_thinking = None, cs_calls = [], cs_reasoning = []\<rparr>"

definition result_images :: "model \<Rightarrow> ai_result list \<Rightarrow> chat_part list" where
  "result_images M rs = (if md_images M then concat (map (image_parts \<circ> ai_content) rs) else [])"

definition convert_results :: "model \<Rightarrow> compat \<Rightarrow> ai_result list \<Rightarrow> chat_message list" where
  "convert_results M C rs =
     map (tool_message C) rs @
     (if result_images M rs = [] then []
      else (if requires_assistant_after_tool_result C then [bridge] else []) @
        [Chat_User (Chat_Parts
           (Chat_Text ''Attached image(s) from tool result:'' False # result_images M rs))])"

text \<open>The results at the front of a list of messages, and the messages after them.\<close>

fun leading_results :: "ai_message list \<Rightarrow> ai_result list" where
  "leading_results (AI_Result r # ms) = r # leading_results ms"
| "leading_results ms = []"

fun after_results :: "ai_message list \<Rightarrow> ai_message list" where
  "after_results (AI_Result r # ms) = after_results ms"
| "after_results ms = ms"

lemma length_after_results: "length (after_results ms) \<le> length ms"
  by (induction ms rule: after_results.induct) auto

text \<open>
  The loop over the transformed messages; \<open>after_tool\<close> is \<open>lastRole === "toolResult"\<close>. A
  user or assistant message that is left out does not change it.
\<close>

fun then_messages :: "chat_message list \<Rightarrow> string + chat_message list \<Rightarrow> string + chat_message list" where
  "then_messages cs (Inl e) = Inl e"
| "then_messages cs (Inr ds) = Inr (cs @ ds)"

function convert_loop :: "model \<Rightarrow> compat \<Rightarrow> bool \<Rightarrow> ai_message list \<Rightarrow>
    string + chat_message list" where
  "convert_loop M C after_tool [] = Inr []"
| "convert_loop M C after_tool (AI_User c t # ms) =
     (let cs = convert_user M c
      in then_messages
           ((if requires_assistant_after_tool_result C \<and> after_tool then [bridge] else []) @ cs)
           (convert_loop M C (if cs = [] then after_tool else False) ms))"
| "convert_loop M C after_tool (AI_Assistant a # ms) =
     (case convert_assistant C a of
        Inl e \<Rightarrow> Inl e
      | Inr cs \<Rightarrow> then_messages cs
          (convert_loop M C (if cs = [] then after_tool else False) ms))"
| "convert_loop M C after_tool (AI_Result r # ms) =
     (let rs = r # leading_results ms
      in then_messages (convert_results M C rs)
           (convert_loop M C (result_images M rs = []) (after_results ms)))"
  by pat_completeness auto
termination
  by (relation "measure (\<lambda>(M, C, b, ms). length ms)")
    (auto simp: less_Suc_eq_le length_after_results)

text \<open>A non-empty system prompt comes first, in the role of developer if supported.\<close>

definition convert_messages :: "model \<Rightarrow> compat \<Rightarrow> (nat \<Rightarrow> int) \<Rightarrow>
    string option \<Rightarrow> ai_message list \<Rightarrow> string + chat_message list" where
  "convert_messages M C clock sys ms =
     then_messages
       (if truthy sys
        then [Chat_System (md_reasoning M \<and> supports_developer_role C) (the sys)] else [])
       (convert_loop M C False
         (transform_messages M (Some (\<lambda>i a. normalize_call_id M i)) clock ms))"

section \<open>Prompt caching\<close>

text \<open>The mark goes on the last text part of the last user or assistant message that has one.\<close>

fun mark_last_text :: "chat_part list \<Rightarrow> chat_part list option" where
  "mark_last_text [] = None"
| "mark_last_text (p # ps) =
     (case mark_last_text ps of
        Some ps' \<Rightarrow> Some (p # ps')
      | None \<Rightarrow> case p of Chat_Text s c \<Rightarrow> Some (Chat_Text s True # ps) | Chat_Image u \<Rightarrow> None)"

fun mark_content :: "chat_content \<Rightarrow> chat_content option" where
  "mark_content Chat_Null = None"
| "mark_content (Chat_String s) = Some (Chat_Parts [Chat_Text s True])"
| "mark_content (Chat_Parts ps) = map_option Chat_Parts (mark_last_text ps)"

fun mark_message :: "chat_message \<Rightarrow> chat_message option" where
  "mark_message (Chat_User c) = map_option Chat_User (mark_content c)"
| "mark_message (Chat_Assistant a) =
     map_option (\<lambda>c. Chat_Assistant (a\<lparr>cs_content := c\<rparr>)) (mark_content (cs_content a))"
| "mark_message (Chat_System d s) = None"
| "mark_message (Chat_Tool i s n) = None"

fun mark_messages :: "chat_message list \<Rightarrow> chat_message list option" where
  "mark_messages [] = None"
| "mark_messages (m # ms) =
     (case mark_messages ms of
        Some ms' \<Rightarrow> Some (m # ms')
      | None \<Rightarrow> map_option (\<lambda>m'. m' # ms) (mark_message m))"

definition add_cache_control :: "model \<Rightarrow> chat_message list \<Rightarrow> chat_message list" where
  "add_cache_control M ms =
     (if md_provider M \<noteq> ''openrouter'' \<or> \<not> prefix ''anthropic/'' (md_id M) then ms
      else or_else (mark_messages ms) ms)"

section \<open>Parameters of a request\<close>

record tool_schema =
  ts_name :: string
  ts_description :: string
  ts_parameters :: json

record completion_options =
  co_max_tokens :: "nat option"
  co_temperature :: "json option"
  co_tool_choice :: "json option"
  co_reasoning_effort :: "thinking_level option"

record params =
  pm_model :: string
  pm_messages :: "chat_message list"
  pm_include_usage :: bool
  pm_store :: "bool option"
  pm_max_tokens :: "nat option"
  pm_max_completion_tokens :: "nat option"
  pm_temperature :: "json option"
  pm_tools :: "(tool_schema \<times> bool option) list option"
  pm_tool_choice :: "json option"
  pm_enable_thinking :: "bool option"
  pm_template_thinking :: "bool option"
  pm_reasoning :: "string option"
  pm_reasoning_effort :: "string option"
  pm_provider :: "json option"
  pm_gateway :: "(string \<times> json) list option"

definition level_name :: "thinking_level \<Rightarrow> string" where
  "level_name l = (case l of Level_Minimal \<Rightarrow> ''minimal'' | Level_Low \<Rightarrow> ''low''
     | Level_Medium \<Rightarrow> ''medium'' | Level_High \<Rightarrow> ''high'' | Level_Xhigh \<Rightarrow> ''xhigh'')"

definition map_reasoning_effort :: "thinking_level \<Rightarrow> (thinking_level \<rightharpoonup> string) \<Rightarrow> string" where
  "map_reasoning_effort l m = or_else (m l) (level_name l)"

definition has_tool_history :: "ai_message list \<Rightarrow> bool" where
  "has_tool_history ms = list_ex (\<lambda>m. is_ai_result m \<or> call_ids m \<noteq> {}) ms"

definition convert_tools :: "tool_schema list \<Rightarrow> compat \<Rightarrow> (tool_schema \<times> bool option) list" where
  "convert_tools ts C = map (\<lambda>t. (t, if supports_strict_mode C then Some False else None)) ts"

definition gateway_options :: "json \<Rightarrow> (string \<times> json) list" where
  "gateway_options routing =
     concat (map (\<lambda>k. case member routing k of
       Some j \<Rightarrow> if json_truthy j then [(k, j)] else [] | None \<Rightarrow> []) [''only'', ''order''])"

definition enable_flag :: "completion_options \<Rightarrow> bool" where
  "enable_flag opts = (co_reasoning_effort opts \<noteq> None)"

text \<open>\<open>!!options?.reasoningEffort\<close> and the fields chosen by \<open>thinkingFormat\<close>.\<close>

definition reasoning_params :: "model \<Rightarrow> compat \<Rightarrow> completion_options \<Rightarrow> params \<Rightarrow> params" where
  "reasoning_params M C opts p =
     (if (thinking_format C = Format_Zai \<or> thinking_format C = Format_Qwen) \<and> md_reasoning M
      then p\<lparr>pm_enable_thinking := Some (enable_flag opts)\<rparr>
      else if thinking_format C = Format_Qwen_Chat_Template \<and> md_reasoning M
      then p\<lparr>pm_template_thinking := Some (enable_flag opts)\<rparr>
      else if thinking_format C = Format_Openrouter \<and> md_reasoning M
      then p\<lparr>pm_reasoning := Some (case co_reasoning_effort opts of
             Some l \<Rightarrow> map_reasoning_effort l (reasoning_effort_map C) | None \<Rightarrow> ''medium'')\<rparr>
      else case co_reasoning_effort opts of
        Some l \<Rightarrow>
          if md_reasoning M \<and> supports_reasoning_effort C
          then p\<lparr>pm_reasoning_effort := Some (map_reasoning_effort l (reasoning_effort_map C))\<rparr>
          else p
      | None \<Rightarrow> p)"

definition routing_params :: "model \<Rightarrow> params \<Rightarrow> params" where
  "routing_params M p =
     (let open_router = Option.bind (md_compat M) mc_open_router_routing;
          vercel = Option.bind (md_compat M) mc_vercel_gateway_routing;
          p1 = (case open_router of
                  Some j \<Rightarrow> if str_includes (md_base_url M) ''openrouter.ai'' \<and> json_truthy j
                            then p\<lparr>pm_provider := Some j\<rparr> else p
                | None \<Rightarrow> p)
      in case vercel of
           Some j \<Rightarrow>
             if str_includes (md_base_url M) ''ai-gateway.vercel.sh'' \<and> json_truthy j \<and>
                gateway_options j \<noteq> []
             then p1\<lparr>pm_gateway := Some (gateway_options j)\<rparr> else p1
         | None \<Rightarrow> p1)"

definition build_params :: "model \<Rightarrow> (nat \<Rightarrow> int) \<Rightarrow> string option \<Rightarrow>
    ai_message list \<Rightarrow> tool_schema list option \<Rightarrow> completion_options \<Rightarrow> string + params" where
  "build_params M clock sys ms tools opts =
     (let C = get_compat M
      in case convert_messages M C clock sys ms of
           Inl e \<Rightarrow> Inl e
         | Inr cs \<Rightarrow>
             let limit = (case co_max_tokens opts of Some n \<Rightarrow> if n \<noteq> 0 then Some n else None
                          | None \<Rightarrow> None)
             in Inr (routing_params M (reasoning_params M C opts
               \<lparr>pm_model = md_id M, pm_messages = add_cache_control M cs,
                pm_include_usage = supports_usage_in_streaming C,
                pm_store = (if supports_store C then Some False else None),
                pm_max_tokens = (if max_tokens_field C = Max_Tokens then limit else None),
                pm_max_completion_tokens =
                  (if max_tokens_field C = Max_Tokens then None else limit),
                pm_temperature = co_temperature opts,
                pm_tools = (case tools of
                    Some ts \<Rightarrow> Some (convert_tools ts C)
                  | None \<Rightarrow> if has_tool_history ms then Some [] else None),
                pm_tool_choice =
                  (case co_tool_choice opts of Some j \<Rightarrow> if json_truthy j then Some j else None
                   | None \<Rightarrow> None),
                pm_enable_thinking = None, pm_template_thinking = None, pm_reasoning = None,
                pm_reasoning_effort = None, pm_provider = None, pm_gateway = None\<rparr>)))"

section \<open>Sanitised text\<close>

text \<open>Text whose surrogates come in pairs.\<close>

fun paired :: "unit16 list \<Rightarrow> bool" where
  "paired [] = True"
| "paired [u] = (\<not> high_surrogate u \<and> \<not> low_surrogate u)"
| "paired (u # v # us) =
     (if high_surrogate u then low_surrogate v \<and> paired us
      else \<not> low_surrogate u \<and> paired (v # us))"

lemma high_not_low [simp]: "high_surrogate u \<Longrightarrow> \<not> low_surrogate u"
proof
  assume "high_surrogate u" "low_surrogate u"
  then have "(0xDC00 :: 16 word) \<le> 0xDBFF"
    unfolding high_surrogate_def low_surrogate_def using order_trans by blast
  then show False by simp
qed

lemma low_not_high [simp]: "low_surrogate u \<Longrightarrow> \<not> high_surrogate u"
  using high_not_low by blast

lemma sanitize_low:
  "low_surrogate v \<Longrightarrow> sanitize_from True (v # us) = v # sanitize_from False us"
  by simp

lemma paired_sanitize: "paired (sanitize_from False us)"
proof (induction "length us" arbitrary: us rule: less_induct)
  case less
  show ?case
  proof (cases us)
    case Nil
    then show ?thesis by simp
  next
    case (Cons u rest)
    show ?thesis
    proof (cases "high_surrogate u")
      case True
      show ?thesis
      proof (cases "rest \<noteq> [] \<and> low_surrogate (hd rest)")
        case pair: True
        then obtain v ws where v: "rest = v # ws" "low_surrogate v" by (cases rest) auto
        have "paired (sanitize_from False ws)" using less v(1) Cons by simp
        moreover have "sanitize_from False us = u # v # sanitize_from False ws"
          using Cons v True by simp
        ultimately show ?thesis using True v(2) by simp
      next
        case False
        have "sanitize_from False us = sanitize_from False rest"
        proof (cases rest)
          case Nil
          with Cons True show ?thesis by simp
        next
          case (Cons w ws)
          then show ?thesis using \<open>us = u # rest\<close> True False by simp
        qed
        then show ?thesis using less Cons by simp
      qed
    next
      case False
      have IH: "paired (sanitize_from False rest)" using less Cons by simp
      show ?thesis
      proof (cases "low_surrogate u")
        case True
        then show ?thesis using Cons False IH by simp
      next
        case plain: False
        have "sanitize_from False us = u # sanitize_from False rest"
          using Cons False plain by simp
        moreover have "paired (u # ys)" if "paired ys" for ys
          using that False plain by (cases ys) auto
        ultimately show ?thesis using IH by simp
      qed
    qed
  qed
qed

lemma sanitize_paired: "paired us \<Longrightarrow> sanitize_from False us = us"
proof (induction us rule: paired.induct)
  case (3 u v us)
  then show ?case by (cases "high_surrogate u") auto
qed auto

text \<open>Sanitised text has no unpaired surrogate; text without one is left as it is, and
  the result is a subsequence of the text.\<close>

theorem sanitized_text_is_paired:
  "paired (sanitize_surrogates us) \<and> (paired us = (sanitize_surrogates us = us)) \<and>
   subseq (sanitize_surrogates us) us"
proof -
  have "subseq (sanitize_from b us) us" for b
    by (induction us arbitrary: b) auto
  then show ?thesis
    unfolding sanitize_surrogates_def using paired_sanitize sanitize_paired by metis
qed

section \<open>Converted messages\<close>

lemma then_messages_Inr_iff:
  "then_messages cs r = Inr ds \<longleftrightarrow> (\<exists>es. r = Inr es \<and> ds = cs @ es)"
  by (cases r) auto

lemma then_messages_Inl_iff: "then_messages cs r = Inl e \<longleftrightarrow> r = Inl e"
  by (cases r) auto

primrec is_tool :: "chat_message \<Rightarrow> bool" where
  "is_tool (Chat_System d s) = False"
| "is_tool (Chat_User c) = False"
| "is_tool (Chat_Assistant a) = False"
| "is_tool (Chat_Tool i s n) = True"

primrec chat_call_ids :: "chat_message \<Rightarrow> id set" where
  "chat_call_ids (Chat_System d s) = {}"
| "chat_call_ids (Chat_User c) = {}"
| "chat_call_ids (Chat_Assistant a) = ck_id ` set (cs_calls a)"
| "chat_call_ids (Chat_Tool i s n) = {}"

primrec tool_ids :: "chat_message list \<Rightarrow> id set" where
  "tool_ids [] = {}"
| "tool_ids (m # ms) = (case m of Chat_Tool i s n \<Rightarrow> insert i (tool_ids ms) | _ \<Rightarrow> tool_ids ms)"

text \<open>Each assistant message is followed at once by tool messages for all of its calls.\<close>

primrec chat_settled :: "chat_message list \<Rightarrow> bool" where
  "chat_settled [] = True"
| "chat_settled (m # ms) =
     (chat_call_ids m \<subseteq> tool_ids (takeWhile is_tool ms) \<and> chat_settled ms)"

lemma chat_settled_no_calls:
  "list_all (\<lambda>m. chat_call_ids m = {}) cs \<Longrightarrow> chat_settled (cs @ ds) = chat_settled ds"
  by (induction cs) auto

lemma tool_ids_mono: "tool_ids (takeWhile P xs) \<subseteq> tool_ids (takeWhile P (xs @ ys))"
  by (induction xs) (auto split: chat_message.split)

lemma tool_ids_tools: "tool_ids (map (tool_message C) rs) = ai_call_id ` set rs"
  by (induction rs) (auto simp: tool_message_def Let_def)

lemma is_tool_tool_message [simp]: "is_tool (tool_message C r)"
  by (simp add: tool_message_def Let_def)

lemma tool_message_no_calls [simp]: "chat_call_ids (tool_message C r) = {}"
  by (simp add: tool_message_def Let_def)

lemma result_ids_leading: "answer_ids (takeWhile is_ai_result ms) = ai_call_id ` set (leading_results ms)"
  by (induction ms rule: leading_results.induct) auto

lemma settled_after_results: "settled ms \<Longrightarrow> settled (after_results ms)"
  by (induction ms rule: after_results.induct) auto

lemma convert_results_simps:
  "list_all (\<lambda>m. chat_call_ids m = {}) (convert_results M C rs)"
  "ai_call_id ` set rs \<subseteq> tool_ids (takeWhile is_tool (convert_results M C rs))"
proof -
  show "list_all (\<lambda>m. chat_call_ids m = {}) (convert_results M C rs)"
    by (auto simp: convert_results_def bridge_def list_all_iff)
  have "takeWhile is_tool (map (tool_message C) rs @ xs) = map (tool_message C) rs @ takeWhile is_tool xs"
    for xs by (induction rs) auto
  moreover have "tool_ids (map (tool_message C) rs) \<subseteq> tool_ids (map (tool_message C) rs @ xs)" for xs
    by (induction rs) (auto simp: tool_message_def Let_def)
  ultimately show "ai_call_id ` set rs \<subseteq> tool_ids (takeWhile is_tool (convert_results M C rs))"
    unfolding convert_results_def using tool_ids_tools by metis
qed

lemma convert_user_no_calls: "list_all (\<lambda>m. chat_call_ids m = {}) (convert_user M c)"
  by (cases c) (auto simp: Let_def)

lemma bridge_no_calls [simp]: "chat_call_ids bridge = {}"
  by (simp add: bridge_def)

lemma convert_assistant_cases:
  assumes "convert_assistant C a = Inr cs"
  shows "cs = [] \<and> calls_of (aa_content a) = [] \<or>
    (\<exists>b. cs = [Chat_Assistant b] \<and> chat_call_ids (Chat_Assistant b) = call_ids (AI_Assistant a))"
  using assms
  by (auto simp: convert_assistant_def chat_call_of_def image_image Let_def
      split: sum.splits prod.splits if_splits)

text \<open>The tool messages at the front of a conversion are those of the leading results.\<close>

lemma convert_leading:
  assumes "convert_loop M C b ms = Inr cs"
  shows "ai_call_id ` set (leading_results ms) \<subseteq> tool_ids (takeWhile is_tool cs)"
proof (cases ms)
  case (Cons m ms')
  show ?thesis
  proof (cases m)
    case (AI_Result r)
    let ?rs = "r # leading_results ms'"
    obtain ds where "cs = convert_results M C ?rs @ ds"
      using assms Cons AI_Result by (auto simp: then_messages_Inr_iff Let_def)
    then show ?thesis
      using convert_results_simps(2) [of ?rs M C] tool_ids_mono [of is_tool "convert_results M C ?rs" ds]
        Cons AI_Result by auto
  qed (use Cons in auto)
qed simp

lemma convert_loop_settled:
  "convert_loop M C b ms = Inr cs \<Longrightarrow> settled ms \<Longrightarrow> chat_settled cs"
proof (induction M C b ms arbitrary: cs rule: convert_loop.induct)
  case (1 M C b)
  then show ?case by simp
next
  case (2 M C b c t ms)
  let ?new = "(if requires_assistant_after_tool_result C \<and> b then [bridge] else []) @ convert_user M c"
  obtain ds where ds: "convert_loop M C (if convert_user M c = [] then b else False) ms = Inr ds"
    "cs = ?new @ ds"
    using "2.prems"(1) by (auto simp: then_messages_Inr_iff Let_def)
  have "chat_settled ds" using "2.IH" ds(1) "2.prems"(2) by simp
  moreover have "list_all (\<lambda>m. chat_call_ids m = {}) ?new" using convert_user_no_calls by auto
  ultimately show ?case using chat_settled_no_calls ds(2) by metis
next
  case (3 M C b a ms)
  obtain new where new: "convert_assistant C a = Inr new"
    using "3.prems"(1) by (auto split: sum.splits)
  obtain ds where ds: "convert_loop M C (if new = [] then b else False) ms = Inr ds" "cs = new @ ds"
    using "3.prems"(1) new by (auto simp: then_messages_Inr_iff)
  have "chat_settled ds" using "3.IH" [OF new] ds(1) "3.prems"(2) by simp
  moreover have "call_ids (AI_Assistant a) \<subseteq> ai_call_id ` set (leading_results ms)"
    using "3.prems"(2) unfolding settled.simps result_ids_leading by blast
  then have "call_ids (AI_Assistant a) \<subseteq> tool_ids (takeWhile is_tool ds)"
    using convert_leading [OF ds(1)] by blast
  ultimately show ?case using convert_assistant_cases [OF new] ds(2) by auto
next
  case (4 M C b r ms)
  let ?rs = "r # leading_results ms"
  obtain ds where ds: "convert_loop M C (result_images M ?rs = []) (after_results ms) = Inr ds"
    "cs = convert_results M C ?rs @ ds"
    using "4.prems"(1) by (auto simp: then_messages_Inr_iff Let_def)
  have "chat_settled ds" using "4.IH" ds(1) settled_after_results "4.prems"(2) by simp
  then show ?case using chat_settled_no_calls [OF convert_results_simps(1)] ds(2) by simp
qed

text \<open>A history that ends with the user's turn leaves no call open.\<close>

lemma answered_settled: "calls_answered (ms @ [m]) \<Longrightarrow> \<not> is_ai_result m \<Longrightarrow> call_ids m = {} \<Longrightarrow>
    settled (ms @ [m])"
proof (induction ms)
  case (Cons a ms)
  have "dropWhile is_ai_result (ms @ [m]) \<noteq> []" using Cons.prems(2) by simp
  with Cons show ?case by simp
qed simp

lemma repair_last_user: "\<exists>out. repair clock (ms @ [AI_User c t]) = out @ [AI_User c t]"
  by (simp add: repair_def push_message_def)

lemma adapt_append_user:
  "\<exists>out. adapt_messages M norm (ms @ [AI_User c t]) ids = out @ [AI_User c t]"
proof (induction ms arbitrary: ids)
  case Nil
  then show ?case by simp
next
  case (Cons m ms)
  then show ?case
  proof (cases m)
    case (AI_User c' t')
    obtain out where "adapt_messages M norm (ms @ [AI_User c t]) ids = out @ [AI_User c t]"
      using Cons by blast
    then show ?thesis using AI_User by (intro exI [of _ "AI_User c' t' # out"]) simp
  next
    case (AI_Assistant a)
    obtain bs ids' where bs: "adapt_blocks (same_model M a) norm a (aa_content a) ids = (bs, ids')"
      by (rule prod.exhaust)
    obtain out where "adapt_messages M norm (ms @ [AI_User c t]) ids' = out @ [AI_User c t]"
      using Cons by blast
    then show ?thesis using AI_Assistant bs
      by (intro exI [of _ "AI_Assistant (a\<lparr>aa_content := bs\<rparr>) # out"]) simp
  next
    case (AI_Result r)
    obtain out where "adapt_messages M norm (ms @ [AI_User c t]) ids = out @ [AI_User c t]"
      using Cons by blast
    then show ?thesis using AI_Result
      by (intro exI [of _ "AI_Result (adapt_result r ids) # out"]) simp
  qed
qed

lemma transform_user_settled: "settled (transform_messages M norm clock (ms @ [AI_User c t]))"
proof -
  obtain xs where xs: "adapt_messages M norm (ms @ [AI_User c t]) [] = xs @ [AI_User c t]"
    using adapt_append_user by blast
  obtain out where out: "repair clock (xs @ [AI_User c t]) = out @ [AI_User c t]"
    using repair_last_user by blast
  have "calls_answered (out @ [AI_User c t])" using repair_answered out by metis
  then show ?thesis using answered_settled out by (simp add: transform_messages_def xs)
qed

text \<open>C33: In the request for a conversation that ends with the user's turn, every assistant
  message is followed at once by tool messages answering all of its calls.\<close>

theorem request_answers_calls:
  assumes "convert_messages M C clock sys (ms @ [AI_User c t]) = Inr cs"
  shows "chat_settled cs"
proof -
  obtain ds where ds: "convert_loop M C False (transform_messages M
      (Some (\<lambda>i a. normalize_call_id M i)) clock (ms @ [AI_User c t])) = Inr ds"
    "cs = (if truthy sys then [Chat_System (md_reasoning M \<and> supports_developer_role C) (the sys)]
           else []) @ ds"
    using assms by (auto simp: convert_messages_def then_messages_Inr_iff)
  have "chat_settled ds" by (rule convert_loop_settled [OF ds(1) transform_user_settled])
  then show ?thesis using ds(2) by simp
qed

text \<open>When the conversion fails: reasoning that must be sent as text meets text.\<close>

primrec mixes_reasoning :: "ai_message \<Rightarrow> bool" where
  "mixes_reasoning (AI_User c t) = False"
| "mixes_reasoning (AI_Assistant a) =
     (list_ex (\<lambda>s. \<not> blank s) (text_blocks (aa_content a)) \<and>
      list_ex (\<lambda>t. \<not> blank (th_thinking t)) (thinking_blocks (aa_content a)))"
| "mixes_reasoning (AI_Result r) = False"

lemma convert_assistant_fails:
  "(\<exists>e. convert_assistant C a = Inl e) \<longleftrightarrow>
     requires_thinking_as_text C \<and> mixes_reasoning (AI_Assistant a)"
proof -
  let ?texts = "filter (\<lambda>s. \<not> blank s) (text_blocks (aa_content a))"
  let ?ts = "filter (\<lambda>t. \<not> blank (th_thinking t)) (thinking_blocks (aa_content a))"
  have "mixes_reasoning (AI_Assistant a) \<longleftrightarrow> ?texts \<noteq> [] \<and> ?ts \<noteq> []"
    by (auto simp: filter_empty_conv list_ex_iff)
  moreover have "\<exists>c s. concat ?texts = c # s" if ne: "?texts \<noteq> []"
  proof -
    obtain x xs where x: "?texts = x # xs" using ne by (auto simp: neq_Nil_conv)
    then have "x \<in> set ?texts" by simp
    then have "x \<noteq> []" by auto
    with x show ?thesis by (cases x) auto
  qed
  ultimately show ?thesis
    by (fastforce simp: convert_assistant_def assistant_thinking_def assistant_text_def Let_def
        split: chat_content.splits list.splits if_splits)
qed

lemma after_results_mixes:
  "list_ex mixes_reasoning (after_results ms) = list_ex mixes_reasoning ms"
  by (induction ms rule: after_results.induct) auto

lemma convert_loop_fails:
  "(\<exists>e. convert_loop M C b ms = Inl e) \<longleftrightarrow>
     requires_thinking_as_text C \<and> list_ex mixes_reasoning ms"
proof (induction M C b ms rule: convert_loop.induct)
  case (3 M C b a ms)
  show ?case
  proof (cases "convert_assistant C a")
    case (Inl e)
    then show ?thesis using convert_assistant_fails [of C a] by auto
  next
    case (Inr cs)
    then have "\<not> (requires_thinking_as_text C \<and> mixes_reasoning (AI_Assistant a))"
      using convert_assistant_fails [of C a] by auto
    with 3 Inr show ?thesis by (auto simp: then_messages_Inl_iff)
  qed
next
  case (4 M C b r ms)
  then show ?case by (simp add: then_messages_Inl_iff Let_def after_results_mixes)
qed (simp_all add: then_messages_Inl_iff Let_def)

text \<open>For a provider that wants reasoning as text, the conversion of a history fails
  exactly when a response that is sent has both text and reasoning: the text is a string by
  then, and the code calls \<open>unshift\<close> on it. For other providers it never fails.\<close>

theorem reasoning_as_text_fails:
  "(\<exists>e. convert_messages M C clock sys ms = Inl e) \<longleftrightarrow>
     requires_thinking_as_text C \<and> list_ex mixes_reasoning
       (transform_messages M (Some (\<lambda>i a. normalize_call_id M i)) clock ms)"
  using convert_loop_fails unfolding convert_messages_def then_messages_Inl_iff .

definition demo_model :: model where
  "demo_model = \<lparr>md_id = ''m'', md_api = ''openai-completions'', md_provider = ''p'',
     md_base_url = ''u'', md_reasoning = True, md_images = True, md_max_tokens = 100,
     md_compat = None\<rparr>"

definition demo_compat :: "compat" where
  "demo_compat = detect_compat demo_model"

theorem request_answers_calls_witness:
  "\<exists>cs. convert_messages demo_model demo_compat (\<lambda>n. 0) None
      ([AI_Assistant \<lparr>aa_content = [AI_Call \<lparr>ac_id = ''c'', ac_name = ''t'', ac_args = JObj [],
          ac_thought = None\<rparr>], aa_api = ''a'', aa_provider = ''p'', aa_model = ''m'',
          aa_response_id = None, aa_usage = JNull, aa_stop = Ai_Tool_Use, aa_error = None,
          aa_time = 1\<rparr>] @ [AI_User (User_String ''hi'') 2]) = Inr cs \<and>
      length cs = 3 \<and> chat_settled cs"
proof -
  let ?r = "convert_messages demo_model demo_compat (\<lambda>n. 0) None
      ([AI_Assistant \<lparr>aa_content = [AI_Call \<lparr>ac_id = ''c'', ac_name = ''t'', ac_args = JObj [],
          ac_thought = None\<rparr>], aa_api = ''a'', aa_provider = ''p'', aa_model = ''m'',
          aa_response_id = None, aa_usage = JNull, aa_stop = Ai_Tool_Use, aa_error = None,
          aa_time = 1\<rparr>] @ [AI_User (User_String ''hi'') 2])"
  have "\<exists>cs. ?r = Inr cs \<and> length cs = 3"
    by (simp add: convert_messages_def transform_messages_def repair_def no_repair_def
        push_message_def flush_pending_def track_calls_def synthetic_result_def
        adapt_call_def same_model_def normalize_call_id_def convert_assistant_def
        assistant_thinking_def assistant_text_def convert_results_def tool_message_def
        result_images_def demo_model_def demo_compat_def detect_compat_def reasoning_details_def
        map_filter_def chat_call_of_def is_zai_def Let_def)
  then show ?thesis using request_answers_calls by blast
qed

section \<open>Options of a request\<close>

text \<open>\<open>providers/simple-options.ts\<close> and \<open>supportsXhigh\<close> of \<open>models.ts\<close>.\<close>

definition supports_xhigh :: "model \<Rightarrow> bool" where
  "supports_xhigh M =
     (str_includes (md_id M) ''gpt-5.2'' \<or> str_includes (md_id M) ''gpt-5.3'' \<or>
      str_includes (md_id M) ''gpt-5.4'' \<or> str_includes (md_id M) ''opus-4-6'' \<or>
      str_includes (md_id M) ''opus-4.6'')"

definition clamp_reasoning :: "thinking_level option \<Rightarrow> thinking_level option" where
  "clamp_reasoning l = (if l = Some Level_Xhigh then Some Level_High else l)"

definition base_max_tokens :: "model \<Rightarrow> nat option \<Rightarrow> nat" where
  "base_max_tokens M requested =
     (case requested of
        Some n \<Rightarrow> if n \<noteq> 0 then n else min (md_max_tokens M) 32000
      | None \<Rightarrow> min (md_max_tokens M) 32000)"

definition simple_effort :: "model \<Rightarrow> thinking_level option \<Rightarrow> thinking_level option" where
  "simple_effort M l = (if supports_xhigh M then l else clamp_reasoning l)"

definition default_thinking_budget :: "thinking_level \<Rightarrow> nat" where
  "default_thinking_budget l = (case l of Level_Minimal \<Rightarrow> 1024 | Level_Low \<Rightarrow> 2048 | Level_Medium \<Rightarrow> 8192
     | _ \<Rightarrow> 16384)"

definition adjust_max_tokens_for_thinking :: "nat \<Rightarrow> nat \<Rightarrow> thinking_level \<Rightarrow>
    (thinking_level \<rightharpoonup> nat) \<Rightarrow> nat \<times> nat" where
  "adjust_max_tokens_for_thinking base limit l custom =
     (let level = (if l = Level_Xhigh then Level_High else l);
          budget = or_else (custom level) (default_thinking_budget level);
          max_tokens = min (base + budget) limit
      in (max_tokens, if max_tokens \<le> budget then max_tokens - 1024 else budget))"

text \<open>\<open>providers/github-copilot-headers.ts\<close>.\<close>

definition infer_copilot_initiator :: "ai_message list \<Rightarrow> string" where
  "infer_copilot_initiator ms =
     (if ms = [] then ''user''
      else case last ms of AI_User c t \<Rightarrow> ''user'' | _ \<Rightarrow> ''agent'')"

primrec is_image_part :: "ai_part \<Rightarrow> bool" where
  "is_image_part (Part_Text s sig) = False"
| "is_image_part (Part_Image img mime) = True"

fun message_has_image :: "ai_message \<Rightarrow> bool" where
  "message_has_image (AI_User (User_Parts ps) t) = list_ex is_image_part ps"
| "message_has_image (AI_User (User_String s) t) = False"
| "message_has_image (AI_Assistant a) = False"
| "message_has_image (AI_Result r) = list_ex is_image_part (ai_content r)"

definition has_copilot_vision_input :: "ai_message list \<Rightarrow> bool" where
  "has_copilot_vision_input ms = list_ex message_has_image ms"

definition copilot_headers :: "ai_message list \<Rightarrow> (string \<times> string) list" where
  "copilot_headers ms =
     [(''X-Initiator'', infer_copilot_initiator ms), (''Openai-Intent'', ''conversation-edits'')] @
     (if has_copilot_vision_input ms then [(''Copilot-Vision-Request'', ''true'')] else [])"

text \<open>The limit never exceeds the model's, and the thinking budget leaves room for output.\<close>

lemma thinking_budget_fits:
  assumes "adjust_max_tokens_for_thinking base limit l custom = (max_tokens, budget)"
  shows "max_tokens \<le> limit \<and> budget \<le> max_tokens \<and> (0 < budget \<longrightarrow> budget < max_tokens)"
  using assms by (auto simp: adjust_max_tokens_for_thinking_def Let_def split: if_splits)

end
