(* ===== verification/Openai_Stream.thy ===== *)
theory Openai_Stream
  imports Openai_Messages
begin

text \<open>
  \<open>packages/runtime/ai/src/providers/openai-completions.ts\<close>, the response side: the chunks of
  a streamed completion are accumulated into a message, and events tell the consumer about
  it. The lemmas show that the events describe the blocks of the message one after the
  other, that their deltas add up to the blocks, and that every stream ends in exactly one
  final event.

  The HTTP client is a function that gives the chunks, and an exception if one ends the
  stream; the incomplete-JSON parser of the package \<open>partial-json\<close> is a function too. Costs
  (floating point) and the mutable \<open>partial\<close> message the events carry are left out.
\<close>

section \<open>Chunks, usage and stop reasons\<close>

record raw_usage =
  ru_prompt :: "int option"
  ru_completion :: "int option"
  ru_cached :: "int option"
  ru_reasoning :: "int option"

record usage =
  us_input :: int
  us_output :: int
  us_cache_read :: int
  us_cache_write :: int
  us_total :: int

definition no_usage :: usage where
  "no_usage = \<lparr>us_input = 0, us_output = 0, us_cache_read = 0, us_cache_write = 0, us_total = 0\<rparr>"

definition parse_chunk_usage :: "raw_usage \<Rightarrow> usage" where
  "parse_chunk_usage r =
     (let cached = or_else (ru_cached r) 0;
          reasoning = or_else (ru_reasoning r) 0;
          inp = or_else (ru_prompt r) 0 - cached;
          out = or_else (ru_completion r) 0 + reasoning
      in \<lparr>us_input = inp, us_output = out, us_cache_read = cached, us_cache_write = 0,
          us_total = inp + out + cached\<rparr>)"

definition map_stop_reason :: "string \<Rightarrow> ai_stop \<times> string option" where
  "map_stop_reason reason =
     (if reason = ''stop'' \<or> reason = ''end'' then (Ai_Stop, None)
      else if reason = ''length'' then (Ai_Length, None)
      else if reason = ''function_call'' \<or> reason = ''tool_calls'' then (Ai_Tool_Use, None)
      else (Ai_Error, Some (''Provider finish_reason: '' @ reason)))"

record call_delta =
  cd_id :: "string option"
  cd_name :: "string option"
  cd_arguments :: "string option"

text \<open>An encrypted reasoning detail (\<open>type\<close>, \<open>id\<close>, \<open>data\<close> all there) and its JSON text.\<close>

record delta =
  dl_content :: "string option"
  dl_reasoning_content :: "string option"
  dl_reasoning :: "string option"
  dl_reasoning_text :: "string option"
  dl_calls :: "call_delta list"
  dl_details :: "(id \<times> string) list"

record choice =
  ch_usage :: "raw_usage option"
  ch_finish :: "string option"
  ch_delta :: "delta option"

record chunk =
  ck_response_id :: "string option"
  ck_usage :: "raw_usage option"
  ck_choice :: "choice option"

section \<open>The message under construction\<close>

text \<open>
  \<open>sc_partial\<close> is the property \<open>partialArgs\<close>, which a tool call has while it is received. The
  current block of the code is always the last block of the content.
\<close>

record stream_call =
  sc_id :: id
  sc_name :: string
  sc_args :: json
  sc_partial :: "string option"
  sc_thought :: "string option"

datatype stream_block = SB_Text string | SB_Thinking string string | SB_Call stream_call

datatype provider_event =
    Ev_Start
  | Ev_Text_Start nat | Ev_Text_Delta nat string | Ev_Text_End nat string
  | Ev_Thinking_Start nat | Ev_Thinking_Delta nat string | Ev_Thinking_End nat string
  | Ev_Call_Start nat | Ev_Call_Delta nat string | Ev_Call_End nat id string json

record stream_state =
  ss_content :: "stream_block list"
  ss_usage :: usage
  ss_stop :: ai_stop
  ss_error :: "string option"
  ss_response_id :: "string option"
  ss_events :: "provider_event list"

definition block_index :: "stream_state \<Rightarrow> nat" where
  "block_index st = length (ss_content st) - 1"

definition push_event :: "provider_event \<Rightarrow> stream_state \<Rightarrow> stream_state" where
  "push_event e st = st\<lparr>ss_events := ss_events st @ [e]\<rparr>"

definition set_block :: "stream_block \<Rightarrow> stream_state \<Rightarrow> stream_state" where
  "set_block b st = st\<lparr>ss_content := butlast (ss_content st) @ [b]\<rparr>"

text \<open>\<open>parseStreamingJson\<close>; the parser of incomplete text gives \<open>None\<close> when it throws or
  returns nothing.\<close>

definition parse_streaming_json :: "(string \<Rightarrow> json option) \<Rightarrow> string \<Rightarrow> json" where
  "parse_streaming_json partial s =
     (if blank s then JObj []
      else case parse_json s of
        Some j \<Rightarrow> j
      | None \<Rightarrow> (case partial s of Some j \<Rightarrow> j | None \<Rightarrow> JObj []))"

definition finish_block :: "(string \<Rightarrow> json option) \<Rightarrow> stream_state \<Rightarrow> stream_state" where
  "finish_block partial st =
     (if ss_content st = [] then st
      else case last (ss_content st) of
        SB_Text s \<Rightarrow> push_event (Ev_Text_End (block_index st) s) st
      | SB_Thinking s sig \<Rightarrow> push_event (Ev_Thinking_End (block_index st) s) st
      | SB_Call c \<Rightarrow>
          let c' = c\<lparr>sc_args := parse_streaming_json partial (or_else (sc_partial c) []),
                     sc_partial := None\<rparr>
          in push_event (Ev_Call_End (block_index st) (sc_id c') (sc_name c') (sc_args c'))
               (set_block (SB_Call c') st))"

definition open_block :: "(string \<Rightarrow> json option) \<Rightarrow> stream_block \<Rightarrow> (nat \<Rightarrow> provider_event) \<Rightarrow>
    stream_state \<Rightarrow> stream_state" where
  "open_block partial b start st =
     (let st1 = finish_block partial st; st2 = st1\<lparr>ss_content := ss_content st1 @ [b]\<rparr>
      in push_event (start (block_index st2)) st2)"

definition last_block :: "stream_state \<Rightarrow> stream_block option" where
  "last_block st = (if ss_content st = [] then None else Some (last (ss_content st)))"

definition add_text :: "(string \<Rightarrow> json option) \<Rightarrow> string \<Rightarrow> stream_state \<Rightarrow> stream_state" where
  "add_text partial d st =
     (let st1 = (case last_block st of Some (SB_Text s) \<Rightarrow> st
                 | _ \<Rightarrow> open_block partial (SB_Text []) Ev_Text_Start st)
      in case last_block st1 of
           Some (SB_Text s) \<Rightarrow>
             push_event (Ev_Text_Delta (block_index st1) d) (set_block (SB_Text (s @ d)) st1)
         | _ \<Rightarrow> st1)"

definition add_thinking :: "(string \<Rightarrow> json option) \<Rightarrow> string \<Rightarrow> string \<Rightarrow> stream_state \<Rightarrow> stream_state" where
  "add_thinking partial fld d st =
     (let st1 = (case last_block st of Some (SB_Thinking s sig) \<Rightarrow> st
                 | _ \<Rightarrow> open_block partial (SB_Thinking [] fld) Ev_Thinking_Start st)
      in case last_block st1 of
           Some (SB_Thinking s sig) \<Rightarrow>
             push_event (Ev_Thinking_Delta (block_index st1) d) (set_block (SB_Thinking (s @ d) sig) st1)
         | _ \<Rightarrow> st1)"

definition starts_call :: "call_delta \<Rightarrow> stream_state \<Rightarrow> bool" where
  "starts_call d st =
     (case last_block st of
        Some (SB_Call c) \<Rightarrow> truthy (cd_id d) \<and> Some (sc_id c) \<noteq> cd_id d
      | _ \<Rightarrow> True)"

definition add_call :: "(string \<Rightarrow> json option) \<Rightarrow> call_delta \<Rightarrow> stream_state \<Rightarrow> stream_state" where
  "add_call partial d st =
     (let st1 = (if starts_call d st
                 then open_block partial (SB_Call \<lparr>sc_id = or_else (cd_id d) [],
                   sc_name = or_else (cd_name d) [], sc_args = JObj [], sc_partial = Some [],
                   sc_thought = None\<rparr>) Ev_Call_Start st
                 else st)
      in case last_block st1 of
           Some (SB_Call c) \<Rightarrow>
             let c1 = (if truthy (cd_id d) then c\<lparr>sc_id := the (cd_id d)\<rparr> else c);
                 c2 = (if truthy (cd_name d) then c1\<lparr>sc_name := the (cd_name d)\<rparr> else c1);
                 args = or_else (cd_arguments d) [];
                 c3 = (if args \<noteq> []
                       then let p = or_else (sc_partial c2) [] @ args
                            in c2\<lparr>sc_partial := Some p, sc_args := parse_streaming_json partial p\<rparr>
                       else c2)
             in push_event (Ev_Call_Delta (block_index st1) args) (set_block (SB_Call c3) st1)
         | _ \<Rightarrow> st1)"

text \<open>The encrypted detail goes to the first tool call with its identifier.\<close>

fun set_thought :: "id \<Rightarrow> string \<Rightarrow> stream_block list \<Rightarrow> stream_block list" where
  "set_thought i detail [] = []"
| "set_thought i detail (SB_Call c # bs) =
     (if sc_id c = i then SB_Call (c\<lparr>sc_thought := Some detail\<rparr>) # bs
      else SB_Call c # set_thought i detail bs)"
| "set_thought i detail (b # bs) = b # set_thought i detail bs"

definition add_detail :: "id \<times> string \<Rightarrow> stream_state \<Rightarrow> stream_state" where
  "add_detail d st = st\<lparr>ss_content := set_thought (fst d) (snd d) (ss_content st)\<rparr>"

text \<open>The first of the three reasoning fields that is not empty.\<close>

definition found_reasoning :: "delta \<Rightarrow> (string \<times> string) option" where
  "found_reasoning d =
     (if truthy (dl_reasoning_content d) then Some (''reasoning_content'', the (dl_reasoning_content d))
      else if truthy (dl_reasoning d) then Some (''reasoning'', the (dl_reasoning d))
      else if truthy (dl_reasoning_text d) then Some (''reasoning_text'', the (dl_reasoning_text d))
      else None)"

definition add_delta :: "(string \<Rightarrow> json option) \<Rightarrow> delta \<Rightarrow> stream_state \<Rightarrow> stream_state" where
  "add_delta partial d st =
     (let st1 = (if truthy (dl_content d) then add_text partial (the (dl_content d)) st else st);
          st2 = (case found_reasoning d of
                   Some (fld, txt) \<Rightarrow> add_thinking partial fld txt st1 | None \<Rightarrow> st1);
          st3 = fold (add_call partial) (dl_calls d) st2
      in fold add_detail (dl_details d) st3)"

definition set_stop :: "string option \<Rightarrow> stream_state \<Rightarrow> stream_state" where
  "set_stop reason st =
     (if truthy reason
      then let (stop, err) = map_stop_reason (the reason)
           in st\<lparr>ss_stop := stop, ss_error := (if err \<noteq> None then err else ss_error st)\<rparr>
      else st)"

definition set_usage :: "raw_usage option \<Rightarrow> stream_state \<Rightarrow> stream_state" where
  "set_usage u st = (case u of Some r \<Rightarrow> st\<lparr>ss_usage := parse_chunk_usage r\<rparr> | None \<Rightarrow> st)"

text \<open>Everything in a chunk but its delta: identifier, usage and stop reason.\<close>

definition chunk_header :: "chunk \<Rightarrow> stream_state \<Rightarrow> stream_state" where
  "chunk_header k st =
     (let st1 = set_usage (ck_usage k)
            (if truthy (ss_response_id st) then st else st\<lparr>ss_response_id := ck_response_id k\<rparr>)
      in case ck_choice k of
           None \<Rightarrow> st1
         | Some ch \<Rightarrow> set_stop (ch_finish ch)
             (if ck_usage k = None then set_usage (ch_usage ch) st1 else st1))"

definition chunk_delta :: "chunk \<Rightarrow> delta option" where
  "chunk_delta k = Option.bind (ck_choice k) ch_delta"

definition process_chunk :: "(string \<Rightarrow> json option) \<Rightarrow> chunk \<Rightarrow> stream_state \<Rightarrow> stream_state" where
  "process_chunk partial k st =
     (case chunk_delta k of
        None \<Rightarrow> chunk_header k st | Some d \<Rightarrow> add_delta partial d (chunk_header k st))"

section \<open>The whole stream\<close>

text \<open>
  An exception is its message and the provider's raw metadata. \<open>Finished\<close> is the final event
  with its reason.
\<close>

type_synonym client_error = "string \<times> string option"

datatype stream_end = Ended_Done ai_stop | Ended_Error ai_stop

definition fresh_stream :: stream_state where
  "fresh_stream = \<lparr>ss_content = [], ss_usage = no_usage, ss_stop = Ai_Stop, ss_error = None,
     ss_response_id = None, ss_events = []\<rparr>"

definition fail_stream :: "bool \<Rightarrow> client_error \<Rightarrow> stream_state \<Rightarrow> stream_end \<times> stream_state" where
  "fail_stream was_aborted e st =
     (let stop = (if was_aborted then Ai_Aborted else Ai_Error)
      in (Ended_Error stop, st\<lparr>ss_stop := stop, ss_error := Some (fst e @
            (if truthy (snd e) then CHR 0x0A # the (snd e) else []))\<rparr>))"

text \<open>What happens after the chunks, when the loop over them has ended normally.\<close>

definition conclude :: "(string \<Rightarrow> json option) \<Rightarrow> bool \<Rightarrow> stream_state \<Rightarrow> stream_end \<times> stream_state" where
  "conclude partial was_aborted st =
     (let st1 = finish_block partial st
      in if was_aborted then fail_stream was_aborted (''Request was aborted'', None) st1
         else if ss_stop st1 = Ai_Aborted
         then fail_stream was_aborted (''Request was aborted'', None) st1
         else if ss_stop st1 = Ai_Error
         then fail_stream was_aborted
           (if truthy (ss_error st1) then the (ss_error st1)
            else ''Provider returned an error stop reason'', None) st1
         else (Ended_Done (ss_stop st1), st1))"

text \<open>
  \<open>client\<close> sends the request: an exception, or the chunks with the exception that ends them
  early. \<open>was_aborted\<close> is the state of the signal when the stream is over.
\<close>

definition stream_openai :: "(string \<Rightarrow> json option) \<Rightarrow>
    (params \<Rightarrow> client_error + chunk list \<times> client_error option) \<Rightarrow> bool \<Rightarrow> string \<Rightarrow>
    string + params \<Rightarrow> stream_end \<times> stream_state" where
  "stream_openai partial client was_aborted api_key request =
     (if api_key = []
      then fail_stream was_aborted
        (''API key is required. Pass it via config.apiKey or options.apiKey.'', None) fresh_stream
      else case request of
        Inl e \<Rightarrow> fail_stream was_aborted (e, None) fresh_stream
      | Inr ps \<Rightarrow>
          (case client ps of
             Inl e \<Rightarrow> fail_stream was_aborted e fresh_stream
           | Inr (chunks, broken) \<Rightarrow>
               let st = fold (process_chunk partial) chunks (push_event Ev_Start fresh_stream)
               in case broken of
                    Some e \<Rightarrow> fail_stream was_aborted e st
                  | None \<Rightarrow> conclude partial was_aborted st))"

section \<open>Text is kept\<close>

definition stream_text :: "stream_state \<Rightarrow> string" where
  "stream_text st = concat (map (\<lambda>b. case b of SB_Text s \<Rightarrow> s | _ \<Rightarrow> []) (ss_content st))"

definition stream_thinking :: "stream_state \<Rightarrow> string" where
  "stream_thinking st = concat (map (\<lambda>b. case b of SB_Thinking s sig \<Rightarrow> s | _ \<Rightarrow> []) (ss_content st))"

text \<open>The text and the reasoning a chunk brings.\<close>

definition chunk_text :: "chunk \<Rightarrow> string" where
  "chunk_text k = (case chunk_delta k of Some d \<Rightarrow> or_else (dl_content d) [] | None \<Rightarrow> [])"

definition chunk_thinking :: "chunk \<Rightarrow> string" where
  "chunk_thinking k = (case chunk_delta k of
     Some d \<Rightarrow> (case found_reasoning d of Some (fld, txt) \<Rightarrow> txt | None \<Rightarrow> []) | None \<Rightarrow> [])"

lemma content_simps [simp]:
  "ss_content (push_event e st) = ss_content st"
  "ss_content (set_block b st) = butlast (ss_content st) @ [b]"
  "ss_content (set_stop r st) = ss_content st"
  "ss_content (set_usage u st) = ss_content st"
  "ss_content (add_detail d st) = set_thought (fst d) (snd d) (ss_content st)"
  by (simp_all add: push_event_def set_block_def set_stop_def set_usage_def add_detail_def Let_def
      split: prod.split option.split)

text \<open>A measure of the content that only looks at the text or the reasoning of blocks.\<close>

definition weigh :: "(stream_block \<Rightarrow> string) \<Rightarrow> stream_state \<Rightarrow> string" where
  "weigh f st = concat (map f (ss_content st))"

lemma weigh_last:
  "last_block st = Some b \<Longrightarrow> weigh f st = concat (map f (butlast (ss_content st))) @ f b"
  by (cases "ss_content st" rule: rev_cases) (auto simp: weigh_def last_block_def)

lemma weigh_set_block:
  "last_block st = Some b \<Longrightarrow> f b' = f b @ x \<Longrightarrow> weigh f (push_event e (set_block b' st)) = weigh f st @ x"
  using weigh_last by (simp add: weigh_def)

lemma weigh_finish:
  assumes "\<And>c. f (SB_Call c) = []"
  shows "weigh f (finish_block partial st) = weigh f st"
  using assms
  by (cases "ss_content st" rule: rev_cases)
    (auto simp: weigh_def finish_block_def Let_def split: stream_block.split)

lemma weigh_open:
  assumes "\<And>c. f (SB_Call c) = []" "f b = []"
  shows "weigh f (open_block partial b start st) = weigh f st"
    "last_block (open_block partial b start st) = Some b"
  using weigh_finish [of f partial st] assms
  by (simp_all add: open_block_def Let_def weigh_def last_block_def)

lemma weigh_add_call:
  assumes "\<And>c. f (SB_Call c) = []"
  shows "weigh f (add_call partial d st) = weigh f st"
proof -
  define st1 where "st1 = (if starts_call d st
     then open_block partial (SB_Call \<lparr>sc_id = or_else (cd_id d) [],
       sc_name = or_else (cd_name d) [], sc_args = JObj [], sc_partial = Some [],
       sc_thought = None\<rparr>) Ev_Call_Start st
     else st)"
  have st1: "weigh f st1 = weigh f st"
    using weigh_open [of f] assms by (simp add: st1_def)
  have "weigh f (add_call partial d st) = weigh f st1"
  proof (cases "\<exists>c. last_block st1 = Some (SB_Call c)")
    case True
    then show ?thesis
      unfolding add_call_def st1_def [symmetric]
      by (auto simp: Let_def assms weigh_set_block [where x = "[]" and f = f])
  next
    case False
    then show ?thesis
      unfolding add_call_def st1_def [symmetric]
      by (auto simp: Let_def split: option.split stream_block.split)
  qed
  with st1 show ?thesis by simp
qed

lemma weigh_set_thought:
  assumes "\<And>c. f (SB_Call c) = []"
  shows "concat (map f (set_thought i detail bs)) = concat (map f bs)"
  using assms by (induction i detail bs rule: set_thought.induct) auto

lemma weigh_details:
  "(\<And>c. f (SB_Call c) = []) \<Longrightarrow> weigh f (fold add_detail ds st) = weigh f st"
  by (induction ds arbitrary: st) (auto simp: weigh_def weigh_set_thought)

lemma weigh_calls:
  "(\<And>c. f (SB_Call c) = []) \<Longrightarrow> weigh f (fold (add_call partial) ds st) = weigh f st"
  by (induction ds arbitrary: st) (auto simp: weigh_add_call)

lemma weigh_add_text:
  assumes "\<And>c. f (SB_Call c) = []" "f (SB_Text []) = []" "\<And>s. f (SB_Text (s @ d)) = f (SB_Text s) @ x"
  shows "weigh f (add_text partial d st) = weigh f st @ x"
proof (cases "\<exists>s. last_block st = Some (SB_Text s)")
  case True
  then show ?thesis using assms weigh_set_block [of st _ f _ x] by (auto simp: add_text_def)
next
  case False
  let ?st1 = "open_block partial (SB_Text []) Ev_Text_Start st"
  have "add_text partial d st = push_event (Ev_Text_Delta (block_index ?st1) d) (set_block (SB_Text d) ?st1)"
    using False weigh_open(2) [of "\<lambda>b. []"]
    by (auto simp: add_text_def Let_def split: option.split stream_block.split)
  then show ?thesis
    using weigh_open [of f "SB_Text []" partial Ev_Text_Start st] assms weigh_set_block [of ?st1 "SB_Text []" f "SB_Text d" x]
      assms(3) [of "[]"] by simp
qed

lemma weigh_add_thinking:
  assumes "\<And>c. f (SB_Call c) = []" "\<And>sig. f (SB_Thinking [] sig) = []"
    "\<And>s sig. f (SB_Thinking (s @ d) sig) = f (SB_Thinking s sig) @ x"
  shows "weigh f (add_thinking partial fld d st) = weigh f st @ x"
proof (cases "\<exists>s sig. last_block st = Some (SB_Thinking s sig)")
  case True
  then show ?thesis using assms weigh_set_block [of st _ f _ x] by (auto simp: add_thinking_def)
next
  case False
  let ?st1 = "open_block partial (SB_Thinking [] fld) Ev_Thinking_Start st"
  have "add_thinking partial fld d st =
      push_event (Ev_Thinking_Delta (block_index ?st1) d) (set_block (SB_Thinking d fld) ?st1)"
    using False weigh_open(2) [of "\<lambda>b. []"]
    by (auto simp: add_thinking_def Let_def split: option.split stream_block.split)
  then show ?thesis
    using weigh_open [of f "SB_Thinking [] fld" partial Ev_Thinking_Start st] assms
      weigh_set_block [of ?st1 "SB_Thinking [] fld" f "SB_Thinking d fld" x] assms(3) [of "[]" fld] by simp
qed

lemma header_simps [simp]:
  "ss_content (chunk_header k st) = ss_content st"
  "ss_events (chunk_header k st) = ss_events st"
  "weigh f (chunk_header k st) = weigh f st"
proof -
  have *: "ss_events (set_usage u s) = ss_events s" "ss_events (set_stop r s) = ss_events s" for u r s
    by (simp_all add: set_usage_def set_stop_def Let_def split: option.split prod.split)
  show "ss_content (chunk_header k st) = ss_content st"
    "ss_events (chunk_header k st) = ss_events st"
    by (simp_all add: chunk_header_def Let_def * split: option.split)
  then show "weigh f (chunk_header k st) = weigh f st" by (simp add: weigh_def)
qed

lemma stream_text_chunk: "stream_text (process_chunk partial k st) = stream_text st @ chunk_text k"
proof -
  let ?f = "\<lambda>b. case b of SB_Text s \<Rightarrow> s | _ \<Rightarrow> []"
  have f: "stream_text s = weigh ?f s" for s by (simp add: stream_text_def weigh_def)
  have "weigh ?f (add_delta partial d s) = weigh ?f s @ or_else (dl_content d) []" for d s
    by (cases "dl_content d")
      (auto simp: add_delta_def Let_def weigh_details weigh_calls weigh_add_text weigh_add_thinking
        split: option.split prod.split)
  then show ?thesis
    by (simp add: f process_chunk_def chunk_text_def split: option.split)
qed

lemma stream_thinking_chunk:
  "stream_thinking (process_chunk partial k st) = stream_thinking st @ chunk_thinking k"
proof -
  let ?f = "\<lambda>b. case b of SB_Thinking s sig \<Rightarrow> s | _ \<Rightarrow> []"
  have f: "stream_thinking s = weigh ?f s" for s by (simp add: stream_thinking_def weigh_def)
  have "weigh ?f (add_delta partial d s) =
      weigh ?f s @ (case found_reasoning d of Some (fld, txt) \<Rightarrow> txt | None \<Rightarrow> [])" for d s
    by (cases "dl_content d")
      (auto simp: add_delta_def Let_def weigh_details weigh_calls weigh_add_text [where x = "[]"]
        weigh_add_thinking split: option.split prod.split)
  then show ?thesis
    by (simp add: f process_chunk_def chunk_thinking_def split: option.split)
qed

text \<open>The text blocks of the message are, one after the other, the text the chunks brought,
  and its thinking blocks are their reasoning: nothing is lost, repeated or reordered.\<close>

theorem received_text_is_kept:
  "let st = fold (process_chunk partial) chunks (push_event Ev_Start fresh_stream)
   in stream_text st = concat (map chunk_text chunks) \<and>
      stream_thinking st = concat (map chunk_thinking chunks)"
proof -
  have "stream_text (fold (process_chunk partial) chunks st) =
      stream_text st @ concat (map chunk_text chunks)" for st
    by (induction chunks arbitrary: st) (simp_all add: stream_text_chunk)
  moreover have "stream_thinking (fold (process_chunk partial) chunks st) =
      stream_thinking st @ concat (map chunk_thinking chunks)" for st
    by (induction chunks arbitrary: st) (simp_all add: stream_thinking_chunk)
  ultimately show ?thesis
    by (simp add: fresh_stream_def stream_text_def stream_thinking_def push_event_def)
qed

section \<open>Events describe the blocks\<close>

text \<open>
  The events of a block with the deltas that made it. A closed block ends with its final
  value; the deltas of a tool call are the text of its arguments.
\<close>

fun open_events :: "nat \<Rightarrow> stream_block \<times> string list \<Rightarrow> provider_event list" where
  "open_events i (SB_Text s, ds) = Ev_Text_Start i # map (Ev_Text_Delta i) ds"
| "open_events i (SB_Thinking s sig, ds) = Ev_Thinking_Start i # map (Ev_Thinking_Delta i) ds"
| "open_events i (SB_Call c, ds) = Ev_Call_Start i # map (Ev_Call_Delta i) ds"

fun end_event :: "nat \<Rightarrow> stream_block \<Rightarrow> provider_event" where
  "end_event i (SB_Text s) = Ev_Text_End i s"
| "end_event i (SB_Thinking s sig) = Ev_Thinking_End i s"
| "end_event i (SB_Call c) = Ev_Call_End i (sc_id c) (sc_name c) (sc_args c)"

fun closed_events :: "nat \<Rightarrow> (stream_block \<times> string list) list \<Rightarrow> provider_event list" where
  "closed_events i [] = []"
| "closed_events i (b # bs) = open_events i b @ [end_event i (fst b)] @ closed_events (Suc i) bs"

fun deltas_agree :: "(string \<Rightarrow> json option) \<Rightarrow> bool \<Rightarrow> stream_block \<times> string list \<Rightarrow> bool" where
  "deltas_agree partial is_open (SB_Text s, ds) = (concat ds = s)"
| "deltas_agree partial is_open (SB_Thinking s sig, ds) = (concat ds = s)"
| "deltas_agree partial is_open (SB_Call c, ds) =
     (if is_open then sc_partial c = Some (concat ds)
      else sc_partial c = None \<and> sc_args c = parse_streaming_json partial (concat ds))"

text \<open>The thought signature of a call may arrive when its block has long ended.\<close>

fun unsigned :: "stream_block \<Rightarrow> stream_block" where
  "unsigned (SB_Call c) = SB_Call (c\<lparr>sc_thought := None\<rparr>)"
| "unsigned b = b"

text \<open>
  \<open>describes bs cur evs content\<close>: the content consists of the closed blocks \<open>bs\<close> and perhaps
  the open block \<open>cur\<close>, and the events tell exactly this.
\<close>

definition describes :: "(string \<Rightarrow> json option) \<Rightarrow> (stream_block \<times> string list) list \<Rightarrow>
    (stream_block \<times> string list) option \<Rightarrow> stream_state \<Rightarrow> bool" where
  "describes partial bs cur st =
     (map unsigned (ss_content st) = map fst bs @ (case cur of None \<Rightarrow> [] | Some b \<Rightarrow> [fst b]) \<and>
      ss_events st = Ev_Start # closed_events 0 bs @
        (case cur of None \<Rightarrow> [] | Some b \<Rightarrow> open_events (length bs) b) \<and>
      list_all (deltas_agree partial False) bs \<and>
      (case cur of None \<Rightarrow> True | Some b \<Rightarrow> deltas_agree partial True b))"

definition well_told :: "(string \<Rightarrow> json option) \<Rightarrow> stream_state \<Rightarrow> bool" where
  "well_told partial st =
     (describes partial [] None st \<or> (\<exists>bs b. describes partial bs (Some b) st))"

lemma closed_events_snoc:
  "closed_events i (bs @ [b]) =
     closed_events i bs @ open_events (i + length bs) b @ [end_event (i + length bs) (fst b)]"
  by (induction bs arbitrary: i) auto

lemma unsigned_simps [simp]:
  "unsigned b = SB_Text s \<longleftrightarrow> b = SB_Text s"
  "unsigned b = SB_Thinking s sig \<longleftrightarrow> b = SB_Thinking s sig"
  by (cases b; simp)+

lemma events_simps [simp]:
  "ss_events (push_event e st) = ss_events st @ [e]"
  "ss_events (set_block b st) = ss_events st"
  "ss_events (add_detail d st) = ss_events st"
  by (simp_all add: push_event_def set_block_def add_detail_def)

lemma block_index_simps [simp]:
  "block_index (push_event e st) = block_index st"
  by (simp add: block_index_def)

lemma describes_open_last:
  assumes "describes partial bs (Some (b, ds)) st"
  obtains b' where "last_block st = Some b'" "unsigned b' = b" "block_index st = length bs"
    "map unsigned (butlast (ss_content st)) = map fst bs"
    "ss_events st = Ev_Start # closed_events 0 bs @ open_events (length bs) (b, ds)"
    "list_all (deltas_agree partial False) bs" "deltas_agree partial True (b, ds)"
proof -
  have m: "map unsigned (ss_content st) = map fst bs @ [b]" using assms by (simp add: describes_def)
  then obtain xs x where c: "ss_content st = xs @ [x]"
    by (cases "ss_content st" rule: rev_cases) auto
  with m have "map unsigned xs = map fst bs" "unsigned x = b" by auto
  moreover from this have "length xs = length bs" using length_map by metis
  ultimately show ?thesis using assms c that [of x]
    by (simp add: last_block_def block_index_def describes_def)
qed

lemma finish_describes:
  assumes "describes partial bs (Some (b, ds)) st"
  shows "\<exists>bs'. describes partial bs' None (finish_block partial st)"
proof -
  obtain b' where b': "last_block st = Some b'" "unsigned b' = b" "block_index st = length bs"
    "map unsigned (butlast (ss_content st)) = map fst bs"
    "ss_events st = Ev_Start # closed_events 0 bs @ open_events (length bs) (b, ds)"
    "list_all (deltas_agree partial False) bs" "deltas_agree partial True (b, ds)"
    using describes_open_last [OF assms] .
  have ne: "ss_content st \<noteq> []" "last (ss_content st) = b'"
    using b'(1) by (auto simp: last_block_def split: if_splits)
  have content: "map unsigned (ss_content st) = map fst bs @ [b]"
    using assms by (simp add: describes_def)
  show ?thesis
  proof (cases b')
    case (SB_Call c)
    let ?c = "c\<lparr>sc_args := parse_streaming_json partial (concat ds), sc_partial := None\<rparr>"
    have "sc_partial c = Some (concat ds)" using SB_Call b'(2,7) by auto
    with SB_Call b' ne
    have "describes partial (bs @ [(unsigned (SB_Call ?c), ds)]) None (finish_block partial st)"
      by (auto simp: describes_def finish_block_def Let_def closed_events_snoc)
    then show ?thesis by blast
  next
    case (SB_Text s)
    with b' ne content have "describes partial (bs @ [(b, ds)]) None (finish_block partial st)"
      by (auto simp: describes_def finish_block_def closed_events_snoc)
    then show ?thesis by blast
  next
    case (SB_Thinking s sig)
    with b' ne content have "describes partial (bs @ [(b, ds)]) None (finish_block partial st)"
      by (auto simp: describes_def finish_block_def closed_events_snoc)
    then show ?thesis by blast
  qed
qed

lemma finish_well_told:
  assumes "well_told partial st"
  shows "\<exists>bs. describes partial bs None (finish_block partial st)"
proof (cases "describes partial [] None st")
  case True
  then have "finish_block partial st = st" by (simp add: describes_def finish_block_def)
  with True show ?thesis by auto
next
  case False
  with assms obtain bs b ds where "describes partial bs (Some (b, ds)) st"
    by (auto simp: well_told_def)
  then show ?thesis by (rule finish_describes)
qed

lemma open_describes:
  assumes "well_told partial st" "unsigned b = b" "deltas_agree partial True (b, [])"
    "\<And>i. open_events i (b, []) = [start i]"
  shows "\<exists>bs. describes partial bs (Some (b, [])) (open_block partial b start st)"
proof -
  obtain bs where bs: "describes partial bs None (finish_block partial st)"
    using finish_well_told [OF assms(1)] by blast
  have "length (ss_content (finish_block partial st)) = length bs"
    using bs by (metis (no_types, lifting) append_Nil2 describes_def length_map option.simps(4))
  then have "describes partial bs (Some (b, [])) (open_block partial b start st)"
    using bs assms(2-4) by (simp add: describes_def open_block_def Let_def block_index_def)
  then show ?thesis by blast
qed

lemma delta_describes:
  assumes "describes partial bs (Some (b, ds)) st"
    and "deltas_agree partial True (unsigned b', ds @ [d])"
    and "open_events (length bs) (unsigned b', ds @ [d]) = open_events (length bs) (b, ds) @ [e]"
  shows "describes partial bs (Some (unsigned b', ds @ [d])) (push_event e (set_block b' st))"
proof -
  obtain x where x: "last_block st = Some x" "unsigned x = b" "block_index st = length bs"
    "map unsigned (butlast (ss_content st)) = map fst bs"
    "ss_events st = Ev_Start # closed_events 0 bs @ open_events (length bs) (b, ds)"
    "list_all (deltas_agree partial False) bs" "deltas_agree partial True (b, ds)"
    using describes_open_last [OF assms(1)] .
  then show ?thesis using assms(2,3) by (simp add: describes_def)
qed

lemma add_text_well_told:
  assumes "well_told partial st"
  shows "well_told partial (add_text partial d st)"
proof -
  define st1 where "st1 = (case last_block st of Some (SB_Text s) \<Rightarrow> st
     | _ \<Rightarrow> open_block partial (SB_Text []) Ev_Text_Start st)"
  have "\<exists>bs s ds. describes partial bs (Some (SB_Text s, ds)) st1"
  proof (cases "\<exists>s. last_block st = Some (SB_Text s)")
    case True
    then obtain s where s: "last_block st = Some (SB_Text s)" by blast
    then have "\<not> describes partial [] None st" by (auto simp: describes_def last_block_def)
    with assms obtain bs b ds where d: "describes partial bs (Some (b, ds)) st"
      by (auto simp: well_told_def)
    then have "b = SB_Text s" by (rule describes_open_last) (use s in auto)
    with d s show ?thesis by (auto simp: st1_def)
  next
    case False
    then have "st1 = open_block partial (SB_Text []) Ev_Text_Start st"
      by (auto simp: st1_def split: option.split stream_block.split)
    with open_describes [OF assms, of "SB_Text []" Ev_Text_Start] show ?thesis by auto
  qed
  then obtain bs s ds where d1: "describes partial bs (Some (SB_Text s, ds)) st1" by blast
  obtain b' where b': "last_block st1 = Some b'" "unsigned b' = SB_Text s"
    "block_index st1 = length bs" "deltas_agree partial True (SB_Text s, ds)"
    using describes_open_last [OF d1] by metis
  have "add_text partial d st = push_event (Ev_Text_Delta (length bs) d) (set_block (SB_Text (s @ d)) st1)"
    using b' unfolding add_text_def st1_def [symmetric] by simp
  then show ?thesis using delta_describes [OF d1, of "SB_Text (s @ d)" d "Ev_Text_Delta (length bs) d"] b'(4)
    by (auto simp: well_told_def)
qed

lemma add_thinking_well_told:
  assumes "well_told partial st"
  shows "well_told partial (add_thinking partial fld d st)"
proof -
  define st1 where "st1 = (case last_block st of Some (SB_Thinking s sig) \<Rightarrow> st
     | _ \<Rightarrow> open_block partial (SB_Thinking [] fld) Ev_Thinking_Start st)"
  have "\<exists>bs s sig ds. describes partial bs (Some (SB_Thinking s sig, ds)) st1"
  proof (cases "\<exists>s sig. last_block st = Some (SB_Thinking s sig)")
    case True
    then obtain s sig where s: "last_block st = Some (SB_Thinking s sig)" by blast
    then have "\<not> describes partial [] None st" by (auto simp: describes_def last_block_def)
    with assms obtain bs b ds where d: "describes partial bs (Some (b, ds)) st"
      by (auto simp: well_told_def)
    then have "b = SB_Thinking s sig" by (rule describes_open_last) (use s in auto)
    with d s show ?thesis by (auto simp: st1_def)
  next
    case False
    then have "st1 = open_block partial (SB_Thinking [] fld) Ev_Thinking_Start st"
      by (auto simp: st1_def split: option.split stream_block.split)
    with open_describes [OF assms, of "SB_Thinking [] fld" Ev_Thinking_Start] show ?thesis by auto
  qed
  then obtain bs s sig ds where d1: "describes partial bs (Some (SB_Thinking s sig, ds)) st1" by blast
  obtain b' where b': "last_block st1 = Some b'" "unsigned b' = SB_Thinking s sig"
    "block_index st1 = length bs" "deltas_agree partial True (SB_Thinking s sig, ds)"
    using describes_open_last [OF d1] by metis
  have "add_thinking partial fld d st =
      push_event (Ev_Thinking_Delta (length bs) d) (set_block (SB_Thinking (s @ d) sig) st1)"
    using b' unfolding add_thinking_def st1_def [symmetric] by simp
  then show ?thesis
    using delta_describes [OF d1, of "SB_Thinking (s @ d) sig" d "Ev_Thinking_Delta (length bs) d"] b'(4)
    by (auto simp: well_told_def)
qed

lemma add_call_well_told:
  assumes "well_told partial st"
  shows "well_told partial (add_call partial d st)"
proof -
  let ?new = "SB_Call \<lparr>sc_id = or_else (cd_id d) [], sc_name = or_else (cd_name d) [],
     sc_args = JObj [], sc_partial = Some [], sc_thought = None\<rparr>"
  define st1 where "st1 = (if starts_call d st then open_block partial ?new Ev_Call_Start st else st)"
  have "\<exists>bs c ds. describes partial bs (Some (SB_Call c, ds)) st1"
  proof (cases "starts_call d st")
    case True
    with open_describes [OF assms, of ?new Ev_Call_Start] show ?thesis by (auto simp: st1_def)
  next
    case False
    then obtain c where c: "last_block st = Some (SB_Call c)"
      by (auto simp: starts_call_def split: option.splits stream_block.splits)
    then have "\<not> describes partial [] None st" by (auto simp: describes_def last_block_def)
    with assms obtain bs b ds where d: "describes partial bs (Some (b, ds)) st"
      by (auto simp: well_told_def)
    then have "b = unsigned (SB_Call c)" by (rule describes_open_last) (use c in auto)
    with d False show ?thesis by (auto simp: st1_def)
  qed
  then obtain bs c ds where d1: "describes partial bs (Some (SB_Call c, ds)) st1" by blast
  obtain b' where b': "last_block st1 = Some b'" "unsigned b' = SB_Call c"
    "block_index st1 = length bs" "deltas_agree partial True (SB_Call c, ds)"
    using describes_open_last [OF d1] by metis
  then obtain c0 where c0: "b' = SB_Call c0" "sc_partial c0 = Some (concat ds)"
    by (cases b') auto
  define c2 where "c2 = (let c1 = (if truthy (cd_id d) then c0\<lparr>sc_id := the (cd_id d)\<rparr> else c0)
     in if truthy (cd_name d) then c1\<lparr>sc_name := the (cd_name d)\<rparr> else c1)"
  define args where "args = or_else (cd_arguments d) []"
  define c3 where "c3 = (if args \<noteq> []
     then c2\<lparr>sc_partial := Some (or_else (sc_partial c2) [] @ args),
             sc_args := parse_streaming_json partial (or_else (sc_partial c2) [] @ args)\<rparr>
     else c2)"
  have "sc_partial c2 = Some (concat ds)" using c0(2) by (simp add: c2_def Let_def)
  then have "sc_partial c3 = Some (concat (ds @ [args]))" by (simp add: c3_def)
  moreover have "add_call partial d st =
      push_event (Ev_Call_Delta (length bs) args) (set_block (SB_Call c3) st1)"
    using b'(1,3) c0(1) unfolding add_call_def st1_def [symmetric]
    by (simp add: Let_def c2_def [unfolded Let_def, symmetric] args_def [symmetric]) (simp add: c3_def)
  ultimately show ?thesis
    using delta_describes [OF d1, of "SB_Call c3" args "Ev_Call_Delta (length bs) args"]
    by (auto simp: well_told_def)
qed

lemma add_detail_well_told:
  assumes "well_told partial st"
  shows "well_told partial (add_detail d st)"
proof -
  have "map unsigned (set_thought i x bs) = map unsigned bs" for i x bs
    by (induction i x bs rule: set_thought.induct) auto
  then have "describes partial bs cur (add_detail d st) = describes partial bs cur st" for bs cur
    by (simp add: describes_def)
  then show ?thesis using assms by (simp add: well_told_def)
qed

lemma process_chunk_well_told:
  assumes "well_told partial st"
  shows "well_told partial (process_chunk partial k st)"
proof -
  have header: "well_told partial (chunk_header k st)"
    using assms by (simp add: well_told_def describes_def)
  have calls: "well_told partial (fold (add_call partial) cs s)" if "well_told partial s" for cs s
    using that by (induction cs arbitrary: s) (auto simp: add_call_well_told)
  have details: "well_told partial (fold add_detail cs s)" if "well_told partial s" for cs s
    using that by (induction cs arbitrary: s) (auto simp: add_detail_well_told)
  have "well_told partial (add_delta partial d s)" if "well_told partial s" for d s
    using that
    by (simp add: add_delta_def Let_def details calls add_text_well_told add_thinking_well_told
        split: option.split prod.split)
  with header show ?thesis by (simp add: process_chunk_def split: option.split)
qed

lemma chunks_well_told:
  "well_told partial (fold (process_chunk partial) chunks (push_event Ev_Start fresh_stream))"
proof -
  have "well_told partial (fold (process_chunk partial) chunks st)" if "well_told partial st" for st
    using that by (induction chunks arbitrary: st) (auto simp: process_chunk_well_told)
  moreover have "well_told partial (push_event Ev_Start fresh_stream)"
    by (simp add: well_told_def describes_def fresh_stream_def)
  ultimately show ?thesis by blast
qed

lemma fail_stream_describes:
  "describes partial bs cur (snd (fail_stream a e st)) = describes partial bs cur st"
  "fst (fail_stream a e st) \<noteq> Ended_Done s"
  "ss_events (snd (fail_stream a e st)) = ss_events st"
  by (simp_all add: fail_stream_def Let_def describes_def)

text \<open>C16: Every stream ends, and its events tell the message: either nothing was sent because
  the request failed, or one start, then for each block in turn its start, its deltas and its
  end with the final value, the deltas adding up to the text, the reasoning or the arguments.
  Only a stream that breaks off leaves its last block open. A stream ends as done only with
  the stop reasons stop, length and tool use.\<close>

theorem events_tell_message:
  "case stream_openai partial client was_aborted key request of (result, st) \<Rightarrow>
     (ss_events st = [] \<and> ss_content st = [] \<and> (\<exists>s. result = Ended_Error s) \<or>
      (\<exists>bs. describes partial bs None st) \<or>
      (\<exists>bs b. describes partial bs (Some b) st \<and> (\<exists>s. result = Ended_Error s))) \<and>
     result \<noteq> Ended_Done Ai_Error \<and> result \<noteq> Ended_Done Ai_Aborted"
proof -
  have fail: "fst (fail_stream was_aborted e st) = Ended_Error (if was_aborted then Ai_Aborted else Ai_Error)"
    "ss_content (snd (fail_stream was_aborted e st)) = ss_content st" for e st
    by (simp_all add: fail_stream_def Let_def)
  have empty: "ss_events fresh_stream = []" "ss_content fresh_stream = []"
    by (simp_all add: fresh_stream_def)
  have conclude: "(\<exists>bs. describes partial bs None (snd (conclude partial was_aborted st))) \<and>
      fst (conclude partial was_aborted st) \<noteq> Ended_Done Ai_Error \<and>
      fst (conclude partial was_aborted st) \<noteq> Ended_Done Ai_Aborted" if "well_told partial st" for st
    using finish_well_told [OF that] by (simp add: conclude_def Let_def fail_stream_describes)
  have "well_told partial st \<Longrightarrow> (\<exists>bs. describes partial bs None st) \<or>
      (\<exists>bs b. describes partial bs (Some b) st)" for st
    by (auto simp: well_told_def)
  then show ?thesis
    using conclude [OF chunks_well_told] chunks_well_told
    by (simp add: stream_openai_def Let_def case_prod_beta fail empty fail_stream_describes
        split: sum.split option.split)
qed

end
