(* ===== verification/Spine_Service.thy ===== *)
theory Spine_Service
  imports Bundle_Token Agent_Runtime "HOL-Library.List_Lexorder" "HOL-Library.Char_ord"
begin

text \<open>
  The bridge through which a bundle reaches its host: \<open>SpineService\<close>
  (\<open>packages/runtime/bundle-host/src/services/spine-service.ts\<close>) verifies the token of a call
  and forwards it to the \<open>spine*\<close> method of the agent the token names
  (\<open>packages/runtime/agent-runtime/src/agent-runtime.ts\<close>), which charges the call to the
  token's budget and works on the agent's stores. A call is a value of a datatype; the
  agents are a function from their ids to their state. The lemmas show that a call touches
  only its own agent, and only the log of its own session, that budgets bound what a token
  can do, and what a bundle can learn from an error.

  Hooks of capabilities are functions on the state of an agent. How an error changes on its
  way from the agent to the service is the platform's and a parameter, as is which agent ids
  it accepts.
\<close>

section \<open>Scoped key-value storage\<close>

text \<open>\<open>capabilities/storage.ts\<close>: every key gets the prefix of its capability.\<close>

definition kv_prefix :: "id \<Rightarrow> string" where
  "kv_prefix cap = ''cap:'' @ cap @ '':''"

definition kv_get :: "id \<Rightarrow> string \<Rightarrow> (string \<times> json) list \<Rightarrow> json option" where
  "kv_get cap key kv = map_of kv (kv_prefix cap @ key)"

definition kv_put :: "id \<Rightarrow> string \<Rightarrow> json \<Rightarrow> (string \<times> json) list \<Rightarrow> (string \<times> json) list" where
  "kv_put cap key v kv = put_key (kv_prefix cap @ key) v kv"

definition kv_delete :: "id \<Rightarrow> string \<Rightarrow> (string \<times> json) list \<Rightarrow> (string \<times> json) list" where
  "kv_delete cap key kv = drop_key (kv_prefix cap @ key) kv"

text \<open>The platform lists keys in ascending order.\<close>

definition kv_list :: "id \<Rightarrow> string option \<Rightarrow> (string \<times> json) list \<Rightarrow> (string \<times> json) list" where
  "kv_list cap pre kv =
     map (\<lambda>(k, v). (drop (length (kv_prefix cap)) k, v))
       (order_by fst (filter (\<lambda>(k, v). starts_with k (kv_prefix cap @ or_else pre [])) kv))"

section \<open>Errors\<close>

datatype spine_code = Err_Bad_Token | Err_Token_Expired | Err_Token_Replay | Err_Malformed |
  Err_Scope_Denied | Err_Budget_Exceeded | Err_Not_Found | Err_Invalid_Argument |
  Err_Session_Required | Err_Internal

text \<open>
  A thrown value: a \<open>SpineError\<close>, an object with whatever code, name and message it has
  (\<open>None\<close> where the property is no string), or a value that is no object.
\<close>

datatype exn = Spine_Error spine_code string
  | Object_Thrown "string option" "string option" "string option"
  | Value_Thrown

definition sanitize :: "exn \<Rightarrow> spine_code \<times> string" where
  "sanitize e =
     (case e of
        Spine_Error c m \<Rightarrow> (c, m)
      | Object_Thrown code name message \<Rightarrow>
          (let msg = or_else message []
           in if code = Some ''ERR_BUDGET_EXCEEDED'' \<or> name = Some ''BudgetExceededError'' \<or>
                 str_includes msg ''ERR_BUDGET_EXCEEDED:''
              then (Err_Budget_Exceeded, if msg \<noteq> [] then msg else ''Budget exceeded'')
              else if str_includes msg ''ERR_SCOPE_DENIED:'' \<or> code = Some ''ERR_SCOPE_DENIED''
              then (Err_Scope_Denied, if msg \<noteq> [] then msg else ''Scope denied'')
              else if str_includes msg ''ERR_SESSION_REQUIRED'' \<or> code = Some ''ERR_SESSION_REQUIRED''
              then (Err_Session_Required, if msg \<noteq> [] then msg else ''Session required'')
              else (Err_Internal, ''An internal error occurred''))
      | Value_Thrown \<Rightarrow> (Err_Internal, ''An internal error occurred''))"

definition category_name :: "budget_category \<Rightarrow> string" where
  "category_name c = (case c of Sql \<Rightarrow> ''sql'' | Kv \<Rightarrow> ''kv'' | Broadcast \<Rightarrow> ''broadcast''
     | Alarm \<Rightarrow> ''alarm'' | Hook_After_Tool \<Rightarrow> ''hook_after_tool''
     | Hook_Before_Inference \<Rightarrow> ''hook_before_inference''
     | Hook_Before_Tool \<Rightarrow> ''hook_before_tool'' | Inspection \<Rightarrow> ''inspection'')"

definition budget_error :: "budget_category \<times> nat \<Rightarrow> exn" where
  "budget_error cl = Object_Thrown (Some ''ERR_BUDGET_EXCEEDED'') (Some ''BudgetExceededError'')
     (Some (''ERR_BUDGET_EXCEEDED: '' @ category_name (fst cl) @ '' budget exceeded (limit: '' @
       show_nat (snd cl) @ '')''))"

section \<open>Calls\<close>

datatype spine_call =
    Append_Entry entry_data
  | Get_Entries
  | Get_Session
  | Create_Session "string option" "string option" "string option"
  | List_Sessions
  | Build_Context
  | Get_Checkpoint
  | Kv_Get id string
  | Kv_Put id string json
  | Kv_Delete id string
  | Kv_List id "string option"
  | Schedule_Create schedule_config
  | Schedule_Update id schedule_update
  | Schedule_Delete id
  | Schedule_List
  | Alarm_Set int
  | Broadcast_Event json
  | Broadcast_Global json
  | Emit_Cost json
  | Record_Tool json
  | Before_Inference "json list"
  | Before_Tool json
  | Record_Sections id "json list" string
  | Get_Sections id "string option"

datatype spine_value =
    Unit_Value
  | Entry_Value entry
  | Entries_Value "entry list"
  | Session_Value "session option"
  | Sessions_Value "session list"
  | Context_Value "agent_message list option"
  | Checkpoint_Value "entry_data option"
  | Json_Value "json option"
  | Pairs_Value "(string \<times> json) list"
  | Schedule_Value schedule
  | Schedules_Value "schedule list"
  | Messages_Value "json list"
  | Block_Value "string option option"

fun session_scoped :: "spine_call \<Rightarrow> bool" where
  "session_scoped (Append_Entry d) = True"
| "session_scoped Get_Entries = True"
| "session_scoped Get_Session = True"
| "session_scoped Build_Context = True"
| "session_scoped Get_Checkpoint = True"
| "session_scoped (Broadcast_Event e) = True"
| "session_scoped (Emit_Cost e) = True"
| "session_scoped (Record_Tool e) = True"
| "session_scoped (Before_Inference ms) = True"
| "session_scoped (Before_Tool e) = True"
| "session_scoped (Record_Sections s xs v) = True"
| "session_scoped (Get_Sections s v) = True"
| "session_scoped _ = False"

fun spine_category :: "spine_call \<Rightarrow> budget_category" where
  "spine_category (Kv_Get c k) = Kv"
| "spine_category (Kv_Put c k v) = Kv"
| "spine_category (Kv_Delete c k) = Kv"
| "spine_category (Kv_List c p) = Kv"
| "spine_category (Schedule_Create c) = Alarm"
| "spine_category (Schedule_Update i u) = Alarm"
| "spine_category (Schedule_Delete i) = Alarm"
| "spine_category Schedule_List = Alarm"
| "spine_category (Alarm_Set t) = Alarm"
| "spine_category (Broadcast_Event e) = Broadcast"
| "spine_category (Broadcast_Global e) = Broadcast"
| "spine_category (Record_Tool e) = Hook_After_Tool"
| "spine_category (Before_Inference ms) = Hook_Before_Inference"
| "spine_category (Before_Tool e) = Hook_Before_Tool"
| "spine_category (Record_Sections s xs v) = Inspection"
| "spine_category (Get_Sections s v) = Inspection"
| "spine_category _ = Sql"

section \<open>The agent's side\<close>

text \<open>
  The state of an agent that its methods and hooks work on: the runtime's stores, the
  key-value store, and what was sent to the clients (of one session, or of all). The budget
  counters are private to the runtime and stand beside it.
\<close>

record 'cb spine_host =
  sh_runtime :: "'cb runtime"
  sh_kv :: "(string \<times> json) list"
  sh_outbox :: "(id option \<times> json) list"

record 'cb spine_env =
  se_new_id :: "'cb spine_host \<Rightarrow> id"
  se_budget :: budget_config
  se_active_version :: "string option"
  se_after_tool :: "(json \<Rightarrow> id \<Rightarrow> 'cb spine_host \<Rightarrow> (string + unit) \<times> 'cb spine_host) list"
  se_before_inference ::
    "(json list \<Rightarrow> id \<Rightarrow> 'cb spine_host \<Rightarrow> (string + json list) \<times> 'cb spine_host) list"
  se_before_tool ::
    "(json \<Rightarrow> id \<Rightarrow> 'cb spine_host \<Rightarrow> (string + (bool \<times> string option) option) \<times> 'cb spine_host) list"
  se_store_error :: "store_error \<Rightarrow> exn"
  se_duplicate_schedule :: exn

definition in_store :: "(store \<Rightarrow> store) \<Rightarrow> 'cb spine_host \<Rightarrow> 'cb spine_host" where
  "in_store f h = h\<lparr>sh_runtime := (sh_runtime h)\<lparr>rt_store := f (rt_store (sh_runtime h))\<rparr>\<rparr>"

definition in_schedules :: "(schedule list \<Rightarrow> schedule list) \<Rightarrow> 'cb spine_host \<Rightarrow> 'cb spine_host" where
  "in_schedules f h =
     h\<lparr>sh_runtime := (sh_runtime h)\<lparr>rt_schedules := f (rt_schedules (sh_runtime h))\<rparr>\<rparr>"

definition send_out :: "id option \<Rightarrow> json \<Rightarrow> 'cb spine_host \<Rightarrow> 'cb spine_host" where
  "send_out target msg h = h\<lparr>sh_outbox := sh_outbox h @ [(target, msg)]\<rparr>"

text \<open>\<open>\{...event, sessionId: sid\}\<close> for an event that is an object.\<close>

fun set_member :: "string \<Rightarrow> json \<Rightarrow> (string \<times> json) list \<Rightarrow> (string \<times> json) list" where
  "set_member k v [] = [(k, v)]"
| "set_member k v ((k', v') # ms) = (if k' = k then (k, v) # ms else (k', v') # set_member k v ms)"

definition stamp_session :: "id \<Rightarrow> json \<Rightarrow> json" where
  "stamp_session s event =
     JObj (set_member ''sessionId'' (JStr s) (case event of JObj ms \<Rightarrow> ms | _ \<Rightarrow> []))"

definition append_for :: "'cb spine_env \<Rightarrow> id \<Rightarrow> entry_data \<Rightarrow> 'cb spine_host \<Rightarrow>
    (exn + entry) \<times> 'cb spine_host" where
  "append_for E s dat h =
     (let rt = sh_runtime h;
          (r, d) = append_entry (rt_store rt) s dat (se_new_id E h) (rt_now rt)
      in (map_sum (se_store_error E) id r, in_store (\<lambda>_. d) h))"

text \<open>\<open>handleCostEvent\<close>.\<close>

definition handle_cost_event :: "'cb spine_env \<Rightarrow> id \<Rightarrow> json \<Rightarrow> 'cb spine_host \<Rightarrow>
    (exn + unit) \<times> 'cb spine_host" where
  "handle_cost_event E s cost h =
     (case append_for E s (Custom ''cost'' cost) h of
        (Inl e, h1) \<Rightarrow> (Inl e, h1)
      | (Inr _, h1) \<Rightarrow> (Inr (), send_out (Some s) (JObj [(''type'', JStr ''cost_event''),
            (''sessionId'', JStr s), (''event'', cost)]) h1))"

text \<open>The hook chains; an error of a hook is logged and the chain goes on.\<close>

fun run_after_tool :: "(json \<Rightarrow> id \<Rightarrow> 's \<Rightarrow> (string + unit) \<times> 's) list \<Rightarrow> json \<Rightarrow> id \<Rightarrow> 's \<Rightarrow> 's" where
  "run_after_tool [] ev s h = h"
| "run_after_tool (f # fs) ev s h = run_after_tool fs ev s (snd (f ev s h))"

fun run_before_inference :: "(json list \<Rightarrow> id \<Rightarrow> 's \<Rightarrow> (string + json list) \<times> 's) list \<Rightarrow>
    json list \<Rightarrow> id \<Rightarrow> 's \<Rightarrow> json list \<times> 's" where
  "run_before_inference [] ms s h = (ms, h)"
| "run_before_inference (f # fs) ms s h =
     (case f ms s h of
        (Inl e, h1) \<Rightarrow> run_before_inference fs ms s h1
      | (Inr ms1, h1) \<Rightarrow> run_before_inference fs ms1 s h1)"

fun run_before_tool :: "(json \<Rightarrow> id \<Rightarrow> 's \<Rightarrow> (string + (bool \<times> string option) option) \<times> 's) list \<Rightarrow>
    json \<Rightarrow> id \<Rightarrow> 's \<Rightarrow> string option option \<times> 's" where
  "run_before_tool [] ev s h = (None, h)"
| "run_before_tool (f # fs) ev s h =
     (case f ev s h of
        (Inr (Some (True, reason)), h1) \<Rightarrow> (Some reason, h1)
      | (_, h1) \<Rightarrow> run_before_tool fs ev s h1)"

definition inspection_cap :: id where "inspection_cap = ''_bundle-inspection''"

definition inspection_key :: "id \<Rightarrow> string \<Rightarrow> string" where
  "inspection_key s v = ''prompt-sections:'' @ s @ '':v='' @ v"

text \<open>\<open>spineGetCompactionCheckpoint\<close>: the data of the last compaction entry.\<close>

fun is_compaction :: "entry_data \<Rightarrow> bool" where
  "is_compaction (Compaction summary kept tokens) = True"
| "is_compaction _ = False"

definition compaction_checkpoint :: "store \<Rightarrow> id \<Rightarrow> entry_data option" where
  "compaction_checkpoint d s =
     find is_compaction (rev (map edata (get_entries d s)))"

definition record_sections :: "id \<Rightarrow> json list \<Rightarrow> string \<Rightarrow> 'cb spine_host \<Rightarrow> 'cb spine_host" where
  "record_sections s sections version h =
     (if version = [] then h
      else h\<lparr>sh_kv := kv_put inspection_cap (inspection_key s version) (JArr sections) (sh_kv h)\<rparr>)"

definition get_sections :: "'cb spine_env \<Rightarrow> id \<Rightarrow> string option \<Rightarrow> 'cb spine_host \<Rightarrow> json list" where
  "get_sections E s version h =
     (let v = (case version of None \<Rightarrow> se_active_version E | Some _ \<Rightarrow> version)
      in if truthy v
         then case kv_get inspection_cap (inspection_key s (the v)) (sh_kv h) of
                Some (JArr xs) \<Rightarrow> xs | _ \<Rightarrow> []
         else [])"

text \<open>The body of each \<open>spine*\<close> method for the session \<open>s\<close> (\<open>caller.sid ?? ""\<close>).\<close>

fun spine_body :: "'cb spine_env \<Rightarrow> id \<Rightarrow> spine_call \<Rightarrow> 'cb spine_host \<Rightarrow>
    (exn + spine_value) \<times> 'cb spine_host" where
  "spine_body E s (Append_Entry dat) h =
     (case append_for E s dat h of (r, h1) \<Rightarrow> (map_sum id Entry_Value r, h1))"
| "spine_body E s Get_Entries h = (Inr (Entries_Value (get_entries (rt_store (sh_runtime h)) s)), h)"
| "spine_body E s Get_Session h = (Inr (Session_Value (get_session (rt_store (sh_runtime h)) s)), h)"
| "spine_body E s (Create_Session name source sender) h =
     (case create_session (rt_store (sh_runtime h)) (se_new_id E h) (rt_now (sh_runtime h))
             name source sender of
        (r, d) \<Rightarrow> (map_sum (se_store_error E) (Session_Value \<circ> Some) r, in_store (\<lambda>_. d) h))"
| "spine_body E s List_Sessions h = (Inr (Sessions_Value (list_sessions (rt_store (sh_runtime h)))), h)"
| "spine_body E s Build_Context h =
     (Inr (Context_Value (build_context (rt_store (sh_runtime h)) s (rt_now (sh_runtime h)))), h)"
| "spine_body E s Get_Checkpoint h =
     (Inr (Checkpoint_Value (compaction_checkpoint (rt_store (sh_runtime h)) s)), h)"
| "spine_body E s (Kv_Get cap key) h = (Inr (Json_Value (kv_get cap key (sh_kv h))), h)"
| "spine_body E s (Kv_Put cap key v) h =
     (Inr Unit_Value, h\<lparr>sh_kv := kv_put cap key v (sh_kv h)\<rparr>)"
| "spine_body E s (Kv_Delete cap key) h =
     (Inr Unit_Value, h\<lparr>sh_kv := kv_delete cap key (sh_kv h)\<rparr>)"
| "spine_body E s (Kv_List cap pre) h = (Inr (Pairs_Value (kv_list cap pre (sh_kv h))), h)"
| "spine_body E s (Schedule_Create c) h =
     (case insert_schedule (rt_schedules (sh_runtime h)) c (se_new_id E h) (rt_now (sh_runtime h)) of
        None \<Rightarrow> (Inl (se_duplicate_schedule E), h)
      | Some (row, t) \<Rightarrow> (Inr (Schedule_Value row), in_schedules (\<lambda>_. t) h))"
| "spine_body E s (Schedule_Update i u) h =
     (Inr Unit_Value,
      in_schedules (\<lambda>t. snd (update_schedule_row t i u (rt_now (sh_runtime h)))) h)"
| "spine_body E s (Schedule_Delete i) h =
     (Inr Unit_Value, in_schedules (\<lambda>t. delete_schedule_row t i) h)"
| "spine_body E s Schedule_List h =
     (Inr (Schedules_Value (list_schedule_rows (rt_schedules (sh_runtime h)))), h)"
| "spine_body E s (Alarm_Set t) h =
     (Inr Unit_Value, h\<lparr>sh_runtime := (sh_runtime h)\<lparr>rt_wake := Some t\<rparr>\<rparr>)"
| "spine_body E s (Broadcast_Event e) h =
     (Inr Unit_Value, send_out (Some s) (stamp_session s e) h)"
| "spine_body E s (Broadcast_Global e) h = (Inr Unit_Value, send_out None e h)"
| "spine_body E s (Emit_Cost cost) h =
     (case handle_cost_event E s cost h of (r, h1) \<Rightarrow> (map_sum id (\<lambda>_. Unit_Value) r, h1))"
| "spine_body E s (Record_Tool ev) h = (Inr Unit_Value, run_after_tool (se_after_tool E) ev s h)"
| "spine_body E s (Before_Inference ms) h =
     (case run_before_inference (se_before_inference E) ms s h of
        (ms1, h1) \<Rightarrow> (Inr (Messages_Value ms1), h1))"
| "spine_body E s (Before_Tool ev) h =
     (case run_before_tool (se_before_tool E) ev s h of (b, h1) \<Rightarrow> (Inr (Block_Value b), h1))"
| "spine_body E s (Record_Sections s' sections v) h =
     (Inr Unit_Value, record_sections s' sections v h)"
| "spine_body E s (Get_Sections s' v) h = (Inr (Messages_Value (get_sections E s' v h)), h)"

record spine_caller =
  sc_agent :: string
  sc_session :: "string option"
  sc_nonce :: string

text \<open>\<open>withSpineBudget\<close>: the call is charged before its body runs.\<close>

definition spine_method :: "'cb spine_env \<Rightarrow> spine_caller \<Rightarrow> spine_call \<Rightarrow>
    counters \<times> 'cb spine_host \<Rightarrow> (exn + spine_value) \<times> counters \<times> 'cb spine_host" where
  "spine_method E c call st =
     (case budget_check (se_budget E) (sc_nonce c) (spine_category call) (fst st) of
        (Inl over, cs) \<Rightarrow> (Inl (budget_error over), cs, snd st)
      | (Inr _, cs) \<Rightarrow>
          (case spine_body E (or_else (sc_session c) []) call (snd st) of (r, h) \<Rightarrow> (r, cs, h)))"

section \<open>The service\<close>

text \<open>\<open>Broken\<close> is an exception of the verification itself, which is not sanitised.\<close>

datatype spine_reply = Answered spine_value | Refused spine_code string | Broken

fun token_code :: "token_error \<Rightarrow> spine_code \<times> string" where
  "token_code Bad_Token = (Err_Bad_Token, ''ERR_BAD_TOKEN'')"
| "token_code Token_Expired = (Err_Token_Expired, ''ERR_TOKEN_EXPIRED'')"
| "token_code Token_Replay = (Err_Token_Replay, ''ERR_TOKEN_REPLAY'')"
| "token_code Malformed = (Err_Malformed, ''ERR_MALFORMED'')"
| "token_code Scope_Denied = (Err_Scope_Denied, ''ERR_SCOPE_DENIED'')"

definition string_member :: "json option \<Rightarrow> string" where
  "string_member j = (case j of Some (JStr s) \<Rightarrow> s | _ \<Rightarrow> [])"

definition caller_of :: "json \<Rightarrow> spine_caller" where
  "caller_of p = \<lparr>sc_agent = string_member (member p ''aid''),
     sc_session = (if member p ''sid'' = Some JNull then None
                   else Some (string_member (member p ''sid''))),
     sc_nonce = string_member (member p ''nonce'')\<rparr>"

text \<open>
  The platform: which agent ids \<open>idFromString\<close> accepts, the error it throws otherwise, and
  what an error looks like when it has crossed the boundary of the agent.
\<close>

record platform =
  pf_valid_id :: "string \<Rightarrow> bool"
  pf_bad_id :: exn
  pf_across :: "exn \<Rightarrow> exn"

type_synonym 'cb agents = "string \<Rightarrow> counters \<times> 'cb spine_host"

text \<open>The dash of this message is a hyphen here.\<close>

definition session_required :: "spine_code \<times> string" where
  "session_required = (Err_Session_Required,
     ''Spine method requires a session - token was minted with sid: null'')"

definition spine_service :: "'k crypto \<Rightarrow> 'k \<Rightarrow> platform \<Rightarrow> 'cb spine_env \<Rightarrow> int \<Rightarrow> string \<Rightarrow> spine_call \<Rightarrow>
    'cb agents \<Rightarrow> spine_reply \<times> 'cb agents" where
  "spine_service P k F E now token call agents =
     (case fst (verify_token P k (Some ''spine'') token now None) of
        Invalid e \<Rightarrow> (case token_code e of (c, m) \<Rightarrow> (Refused c m, agents))
      | Throws \<Rightarrow> (Broken, agents)
      | Valid p \<Rightarrow>
          let c = caller_of p
          in if session_scoped call \<and> sc_session c = None
             then (case session_required of (code, m) \<Rightarrow> (Refused code m, agents))
             else if \<not> pf_valid_id F (sc_agent c)
             then (case sanitize (pf_bad_id F) of (code, m) \<Rightarrow> (Refused code m, agents))
             else (case spine_method E c call (agents (sc_agent c)) of
                     (Inr v, h) \<Rightarrow> (Answered v, agents(sc_agent c := h))
                   | (Inl e, h) \<Rightarrow>
                       (case sanitize (pf_across F e) of
                          (code, m) \<Rightarrow> (Refused code m, agents(sc_agent c := h)))))"

section \<open>Storage of capabilities\<close>

text \<open>Without colons in their ids, capabilities cannot meet in a key.\<close>

lemma colon_split:
  assumes "CHR '':'' \<notin> set a" "CHR '':'' \<notin> set b" "a @ CHR '':'' # x = b @ CHR '':'' # y"
  shows "a = b \<and> x = y"
  using assms
proof (induction a arbitrary: b)
  case Nil
  then show ?case by (cases b) auto
next
  case (Cons c a)
  then show ?case by (cases b) auto
qed

lemma kv_key_inj:
  assumes "CHR '':'' \<notin> set cap" "CHR '':'' \<notin> set cap'"
  shows "kv_prefix cap @ key = kv_prefix cap' @ key' \<longleftrightarrow> cap = cap' \<and> key = key'"
  using colon_split [OF assms, of key key'] by (auto simp: kv_prefix_def)

text \<open>With capability ids free of colons a value written by a capability is read back under
  its key, and no other key of any capability is affected; the same holds for deletion.\<close>

theorem capability_storage_isolated:
  assumes "CHR '':'' \<notin> set cap" "CHR '':'' \<notin> set cap'"
  shows "kv_get cap key (kv_put cap' key' v kv) =
      (if cap = cap' \<and> key = key' then Some v else kv_get cap key kv) \<and>
    kv_get cap key (kv_delete cap' key' kv) =
      (if cap = cap' \<and> key = key' then None else kv_get cap key kv)"
  using kv_key_inj [OF assms, of key key'] by (simp add: kv_get_def kv_put_def kv_delete_def)

theorem capability_storage_isolated_witness:
  "kv_get ''a'' ''b'' (kv_put ''c'' ''b'' JNull [(''cap:a:b'', JNum 1)]) = Some (JNum 1)"
proof -
  have "kv_get ''a'' ''b'' [(''cap:a:b'', JNum 1)] = Some (JNum 1)"
    by (simp add: kv_get_def kv_prefix_def)
  then show ?thesis
    using capability_storage_isolated [of "''a''" "''c''" "''b''" "''b''" JNull "[(''cap:a:b'', JNum 1)]"]
    by simp
qed

text \<open>Ids with colons collide: the capabilities \<open>a\<close> and \<open>a:b\<close> share keys, so one reads and
  overwrites what the other has stored.\<close>

theorem colon_ids_share_keys:
  "kv_get (a @ '':'' @ b) key kv = kv_get a (b @ '':'' @ key) kv \<and>
   kv_get (a @ '':'' @ b) key (kv_put a (b @ '':'' @ key) v kv) = Some v"
  by (simp add: kv_get_def kv_put_def kv_prefix_def)

section \<open>A call stays where its token says\<close>

abbreviation host_store :: "counters \<times> 'cb spine_host \<Rightarrow> store" where
  "host_store st \<equiv> rt_store (sh_runtime (snd st))"

fun hook_call :: "spine_call \<Rightarrow> bool" where
  "hook_call (Record_Tool e) = True"
| "hook_call (Before_Inference ms) = True"
| "hook_call (Before_Tool e) = True"
| "hook_call _ = False"

lemma spine_host_simps [simp]:
  "rt_store (sh_runtime (in_store f h)) = f (rt_store (sh_runtime h))"
  "rt_store (sh_runtime (in_schedules g h)) = rt_store (sh_runtime h)"
  "rt_store (sh_runtime (send_out t m h)) = rt_store (sh_runtime h)"
  "sh_outbox (in_store f h) = sh_outbox h" "sh_outbox (in_schedules g h) = sh_outbox h"
  "sh_outbox (send_out t m h) = sh_outbox h @ [(t, m)]"
  "rt_wake (sh_runtime (in_store f h)) = rt_wake (sh_runtime h)"
  "rt_wake (sh_runtime (in_schedules g h)) = rt_wake (sh_runtime h)"
  "rt_wake (sh_runtime (send_out t m h)) = rt_wake (sh_runtime h)"
  by (simp_all add: in_store_def in_schedules_def send_out_def)

lemma append_other_sessions:
  assumes "append_entry d s dat nid now = (r, d')" "s' \<noteq> s"
  shows "session_entries d' s' = session_entries d s'"
  using assms
  by (auto simp: append_entry_def session_entries_def Let_def split: option.splits dest!: insert_row_SomeD)

lemma create_entries:
  assumes "create_session d nid now n x y = (r, d')"
  shows "entries d' = entries d"
  using assms
  by (auto simp: create_session_def Let_def split: option.splits)

lemma append_for_confined:
  assumes "append_for E s dat h = (r, h')" "s' \<noteq> s"
  shows "session_entries (rt_store (sh_runtime h')) s' = session_entries (rt_store (sh_runtime h)) s'"
    "sh_outbox h' = sh_outbox h"
proof -
  obtain r0 d where d: "append_entry (rt_store (sh_runtime h)) s dat (se_new_id E h) (rt_now (sh_runtime h)) = (r0, d)"
    by (rule prod.exhaust)
  then have h': "h' = in_store (\<lambda>_. d) h" using assms(1) by (simp add: append_for_def)
  show "session_entries (rt_store (sh_runtime h')) s' = session_entries (rt_store (sh_runtime h)) s'"
    using append_other_sessions [OF d assms(2)] by (simp add: h')
  show "sh_outbox h' = sh_outbox h" by (simp add: h')
qed

lemma append_for_outbox: "append_for E s dat h = (r, h') \<Longrightarrow> sh_outbox h' = sh_outbox h"
  by (auto simp: append_for_def Let_def split: prod.splits)

definition confined :: "id \<Rightarrow> bool \<Rightarrow> 'cb spine_host \<Rightarrow> 'cb spine_host \<Rightarrow> bool" where
  "confined s own h h' =
     ((\<forall>s'. s' \<noteq> s \<longrightarrow> session_entries (rt_store (sh_runtime h')) s' =
         session_entries (rt_store (sh_runtime h)) s') \<and>
      (\<exists>new. sh_outbox h' = sh_outbox h @ new \<and> (own \<longrightarrow> fst ` set new \<subseteq> {Some s})))"

lemma confined_simps [simp]:
  "confined s own h h"
  "confined s own h (h\<lparr>sh_kv := kv\<rparr>)"
  "confined s own h (in_schedules f h)"
  "confined s own h (send_out (Some s) m h)"
  "confined s False h (send_out t m h)"
  "confined s own h (h\<lparr>sh_runtime := (sh_runtime h)\<lparr>rt_wake := w\<rparr>\<rparr>)"
  by (auto simp: confined_def)

lemma append_for_confines: "append_for E s dat h = (r, h') \<Longrightarrow> confined s own h h'"
  using append_for_confined append_for_outbox unfolding confined_def by fastforce

lemma cost_confines:
  assumes "handle_cost_event E s cost h = (r, h')"
  shows "confined s own h h'"
proof -
  obtain r0 h1 where h1: "append_for E s (Custom ''cost'' cost) h = (r0, h1)" by (rule prod.exhaust)
  have "confined s own h h1" by (rule append_for_confines [OF h1])
  moreover have "h' = h1 \<or> (\<exists>m. h' = send_out (Some s) m h1)"
    using assms h1 by (auto simp: handle_cost_event_def split: sum.splits)
  ultimately show ?thesis by (fastforce simp: confined_def)
qed

lemma spine_body_confined:
  assumes "spine_body E s call h = (r, h')" "\<not> hook_call call"
  shows "confined s (session_scoped call) h h'"
  using assms
proof (cases call)
  case (Append_Entry dat)
  then show ?thesis using assms(1) by (auto split: prod.splits intro: append_for_confines)
next
  case (Emit_Cost cost)
  then show ?thesis using assms(1) by (auto split: prod.splits intro: cost_confines)
next
  case (Create_Session a b c)
  then show ?thesis using assms(1)
    by (auto split: prod.splits simp: confined_def session_entries_def dest!: create_entries)
next
  case (Schedule_Create c)
  then show ?thesis using assms(1) by (auto split: option.splits)
qed (auto simp: record_sections_def)

text \<open>C13: A call of a bundle changes nothing unless its token verifies for the spine. If it
  does, only the agent of the token changes; unless the call runs hooks, of the session logs
  only that of the token's session does, and a call that belongs to a session sends messages
  to the clients of this session only.\<close>

theorem spine_call_is_confined:
  assumes "spine_service P k F E now token call agents = (reply, agents')"
  shows "agents' = agents \<or>
    (\<exists>p. fst (verify_token P k (Some ''spine'') token now None) = Valid p \<and>
       (\<forall>b. b \<noteq> sc_agent (caller_of p) \<longrightarrow> agents' b = agents b) \<and>
       (hook_call call \<or>
        confined (or_else (sc_session (caller_of p)) []) (session_scoped call)
          (snd (agents (sc_agent (caller_of p)))) (snd (agents' (sc_agent (caller_of p))))))"
proof (cases "fst (verify_token P k (Some ''spine'') token now None)")
  case (Valid p)
  let ?c = "caller_of p"
  let ?st = "agents (sc_agent ?c)"
  obtain r cs h where m: "spine_method E ?c call ?st = (r, cs, h)" by (metis prod.exhaust)
  have "agents' = agents \<or> agents' = agents(sc_agent ?c := (cs, h))"
    using assms Valid m by (auto simp: spine_service_def Let_def split: if_splits sum.splits prod.splits)
  moreover have "hook_call call \<or>
      confined (or_else (sc_session ?c) []) (session_scoped call) (snd ?st) h"
  proof (cases "fst (budget_check (se_budget E) (sc_nonce ?c) (spine_category call) (fst ?st))")
    case (Inl over)
    then show ?thesis using m by (auto simp: spine_method_def split: prod.splits)
  next
    case (Inr u)
    then have "spine_body E (or_else (sc_session ?c) []) call (snd ?st) = (r, h)"
      using m by (auto simp: spine_method_def split: prod.splits)
    then show ?thesis using spine_body_confined by blast
  qed
  ultimately show ?thesis using Valid by auto
qed (use assms in \<open>auto simp: spine_service_def split: prod.splits\<close>)


section \<open>Budgets\<close>

text \<open>
  A run of calls, each with its time and token. A call is charged to the nonce \<open>n\<close> of agent \<open>a\<close>
  in a category when the service hands it to that agent with that nonce.
\<close>

fun spine_run :: "'k crypto \<Rightarrow> 'k \<Rightarrow> platform \<Rightarrow> 'cb spine_env \<Rightarrow> (int \<times> string \<times> spine_call) list \<Rightarrow>
    'cb agents \<Rightarrow> 'cb agents" where
  "spine_run P k F E [] agents = agents"
| "spine_run P k F E ((now, token, call) # calls) agents =
     spine_run P k F E calls (snd (spine_service P k F E now token call agents))"

definition spine_charged :: "'k crypto \<Rightarrow> 'k \<Rightarrow> platform \<Rightarrow> string \<Rightarrow> string \<Rightarrow> budget_category \<Rightarrow>
    int \<times> string \<times> spine_call \<Rightarrow> bool" where
  "spine_charged P k F a n c x =
     (case x of (now, token, call) \<Rightarrow>
        case fst (verify_token P k (Some ''spine'') token now None) of
          Valid p \<Rightarrow> sc_agent (caller_of p) = a \<and> sc_nonce (caller_of p) = n \<and>
            spine_category call = c \<and> pf_valid_id F a \<and>
            \<not> (session_scoped call \<and> sc_session (caller_of p) = None)
        | _ \<Rightarrow> False)"

text \<open>
  A call takes effect unless its caller gets the refusal for a used up budget and the agent's
  stores, its messages to clients and the rest of its host are as before. \<open>let_through\<close> counts
  the calls of a run that take effect and are charged to a nonce in a category.
\<close>

definition budget_refusal :: "'cb spine_env \<Rightarrow> platform \<Rightarrow> budget_category \<Rightarrow> spine_reply" where
  "budget_refusal E F c =
     (case sanitize (pf_across F (budget_error (c, se_budget E c))) of (code, m) \<Rightarrow> Refused code m)"

definition takes_effect :: "'cb spine_env \<Rightarrow> platform \<Rightarrow> string \<Rightarrow> budget_category \<Rightarrow> 'cb agents \<Rightarrow>
    spine_reply \<times> 'cb agents \<Rightarrow> bool" where
  "takes_effect E F a c agents res \<longleftrightarrow>
     fst res \<noteq> budget_refusal E F c \<or> snd (snd res a) \<noteq> snd (agents a)"

fun let_through :: "'k crypto \<Rightarrow> 'k \<Rightarrow> platform \<Rightarrow> 'cb spine_env \<Rightarrow> string \<Rightarrow> string \<Rightarrow>
    budget_category \<Rightarrow> (int \<times> string \<times> spine_call) list \<Rightarrow> 'cb agents \<Rightarrow> nat" where
  "let_through P k F E a n c [] agents = 0"
| "let_through P k F E a n c ((now, token, call) # calls) agents =
     (let res = spine_service P k F E now token call agents
      in (if spine_charged P k F a n c (now, token, call) \<and> takes_effect E F a c agents res then 1 else 0) +
         let_through P k F E a n c calls (snd res))"

primrec unanswered :: "spine_reply \<Rightarrow> bool" where
  "unanswered (Answered v) = False"
| "unanswered (Refused code m) = True"
| "unanswered Broken = True"

lemma service_valid:
  assumes "fst (verify_token P k (Some ''spine'') token now None) = Valid p"
  shows "session_scoped call \<and> sc_session (caller_of p) = None \<Longrightarrow>
      spine_service P k F E now token call agents =
        (Refused (fst session_required) (snd session_required), agents)"
    and "\<not> (session_scoped call \<and> sc_session (caller_of p) = None) \<Longrightarrow>
      \<not> pf_valid_id F (sc_agent (caller_of p)) \<Longrightarrow>
      spine_service P k F E now token call agents =
        (Refused (fst (sanitize (pf_bad_id F))) (snd (sanitize (pf_bad_id F))), agents)"
    and "\<not> (session_scoped call \<and> sc_session (caller_of p) = None) \<Longrightarrow>
      pf_valid_id F (sc_agent (caller_of p)) \<Longrightarrow>
      spine_method E (caller_of p) call (agents (sc_agent (caller_of p))) = (r, h) \<Longrightarrow>
      spine_service P k F E now token call agents =
        ((case r of Inr v \<Rightarrow> Answered v
          | Inl e \<Rightarrow> Refused (fst (sanitize (pf_across F e))) (snd (sanitize (pf_across F e)))),
         agents(sc_agent (caller_of p) := h))"
  using assms by (auto simp: spine_service_def Let_def case_prod_beta split: sum.splits)

lemma service_invalid:
  assumes "\<nexists>p. fst (verify_token P k (Some ''spine'') token now None) = Valid p"
  shows "snd (spine_service P k F E now token call agents) = agents"
  using assms by (auto simp: spine_service_def case_prod_beta split: verify_outcome.split)

lemma service_used:
  "used_budget (fst (snd (spine_service P k F E now token call agents) a)) n c =
     used_budget (fst (agents a)) n c +
     (if spine_charged P k F a n c (now, token, call) \<and>
         fst (budget_check (se_budget E) n c (fst (agents a))) = Inr () then 1 else 0)"
proof (cases "fst (verify_token P k (Some ''spine'') token now None)")
  case (Valid p)
  let ?c = "caller_of p"
  note svc = service_valid [OF Valid, of call F E agents]
  show ?thesis
  proof (cases "session_scoped call \<and> sc_session ?c = None \<or> \<not> pf_valid_id F (sc_agent ?c)")
    case True
    then have "snd (spine_service P k F E now token call agents) = agents"
      using svc(1,2) by fastforce
    with True Valid show ?thesis by (auto simp: spine_charged_def)
  next
    case False
    let ?st = "agents (sc_agent ?c)"
    obtain r cs h where m: "spine_method E ?c call ?st = (r, cs, h)" by (metis prod.exhaust)
    have cs: "cs = snd (budget_check (se_budget E) (sc_nonce ?c) (spine_category call) (fst ?st))"
      using m by (auto simp: spine_method_def split: prod.splits sum.splits)
    have "snd (spine_service P k F E now token call agents) = agents(sc_agent ?c := (cs, h))"
      using svc(3) [OF _ _ m] False by simp
    then show ?thesis
      using Valid False by (auto simp: spine_charged_def cs budget_check_used)
  qed
qed (simp_all add: service_invalid spine_charged_def)

lemma over_budget_no_effect:
  assumes "spine_charged P k F a n c (now, token, call)"
    and "fst (budget_check (se_budget E) n c (fst (agents a))) \<noteq> Inr ()"
  shows "\<not> takes_effect E F a c agents (spine_service P k F E now token call agents)"
proof -
  obtain p where p: "fst (verify_token P k (Some ''spine'') token now None) = Valid p"
    "sc_agent (caller_of p) = a" "sc_nonce (caller_of p) = n" "spine_category call = c" "pf_valid_id F a"
    "\<not> (session_scoped call \<and> sc_session (caller_of p) = None)"
    using assms(1) by (auto simp: spine_charged_def split: verify_outcome.splits)
  obtain over cs where over: "budget_check (se_budget E) n c (fst (agents a)) = (Inl over, cs)"
    using assms(2) by (auto simp: budget_check_def Let_def split: if_splits)
  then have limit: "over = (c, se_budget E c)"
    using budget_check_used(1) [of "se_budget E" n c "fst (agents a)"] by (auto split: if_splits)
  have "spine_method E (caller_of p) call (agents (sc_agent (caller_of p))) =
      (Inl (budget_error over), cs, snd (agents a))"
    using over p by (simp add: spine_method_def)
  moreover have "pf_valid_id F (sc_agent (caller_of p))" using p by simp
  ultimately have "spine_service P k F E now token call agents =
      (Refused (fst (sanitize (pf_across F (budget_error over)))) (snd (sanitize (pf_across F (budget_error over)))),
       agents(a := (cs, snd (agents a))))"
    using service_valid(3) [OF p(1,6), of F E agents "Inl (budget_error over)" "(cs, snd (agents a))"] p(2) by simp
  with limit show ?thesis by (simp add: takes_effect_def budget_refusal_def case_prod_beta)
qed

lemma let_through_used:
  "used_budget (fst (agents a)) n c \<le> se_budget E c \<Longrightarrow>
   let_through P k F E a n c calls agents + used_budget (fst (agents a)) n c \<le> se_budget E c"
proof (induction calls arbitrary: agents)
  case (Cons x calls)
  obtain now token call where x: "x = (now, token, call)" by (metis prod.exhaust)
  let ?next = "snd (spine_service P k F E now token call agents)"
  let ?go = "spine_charged P k F a n c x \<and> fst (budget_check (se_budget E) n c (fst (agents a))) = Inr ()"
  have used: "used_budget (fst (?next a)) n c = used_budget (fst (agents a)) n c + (if ?go then 1 else 0)"
    unfolding x by (rule service_used)
  moreover have "?go \<Longrightarrow> used_budget (fst (agents a)) n c < se_budget E c"
    by (auto simp: budget_check_used split: if_splits)
  moreover have "takes_effect E F a c agents (spine_service P k F E now token call agents) \<Longrightarrow>
      spine_charged P k F a n c x \<Longrightarrow> ?go"
    using over_budget_no_effect [of P k F a n c now token call E agents] unfolding x by blast
  ultimately show ?case using Cons.IH [of ?next] Cons.prems by (cases ?go) (auto simp: x Let_def)
qed simp

lemma let_through_over:
  "se_budget E c < used_budget (fst (agents a)) n c \<Longrightarrow> let_through P k F E a n c calls agents = 0"
proof (induction calls arbitrary: agents)
  case (Cons x calls)
  obtain now token call where x: "x = (now, token, call)" by (metis prod.exhaust)
  have over: "fst (budget_check (se_budget E) n c (fst (agents a))) \<noteq> Inr ()"
    using Cons.prems by (simp add: budget_check_used)
  then have "used_budget (fst (snd (spine_service P k F E now token call agents) a)) n c =
      used_budget (fst (agents a)) n c"
    by (simp add: service_used)
  then show ?case
    using Cons over_budget_no_effect [of P k F a n c now token call E agents] over by (auto simp: x Let_def)
qed simp

lemma uncharged_unanswered:
  "unanswered (fst (spine_service P k F E now token call agents)) \<and>
     snd (spine_service P k F E now token call agents) = agents \<or>
   (\<exists>a n c. spine_charged P k F a n c (now, token, call))"
  by (auto simp: spine_service_def spine_charged_def Let_def case_prod_beta split: verify_outcome.split)

text \<open>C18: Budgets bound what a bundle gets done. For any sequence of calls, with any tokens and at
  any times, in each category at most as many of the calls charged to a token's nonce take
  effect as the budget allows: the others change nothing in the agent and are answered with
  the refusal for a used up budget. A call that is charged to no nonce is refused and changes
  nothing at all.\<close>

theorem spine_budget_bounds_token:
  "let_through P k F E a n c calls agents \<le> se_budget E c \<and>
   (unanswered (fst (spine_service P k F E now token call agents)) \<and>
      snd (spine_service P k F E now token call agents) = agents \<or>
    (\<exists>a n c. spine_charged P k F a n c (now, token, call)))"
  using let_through_used [of agents a n c E P k F calls] let_through_over [of E c agents a n P k F calls]
    uncharged_unanswered by (metis add_leD1 le_less_linear zero_le)

section \<open>What a bundle learns from errors\<close>

text \<open>
  The platform passes only plain errors across the boundary, and keeps their message in
  the message it builds.
\<close>

definition plain_boundary :: "platform \<Rightarrow> bool" where
  "plain_boundary F =
     ((\<forall>e. \<exists>code name msg. pf_across F e = Object_Thrown code name (Some msg)) \<and>
      (\<forall>code name m code' name' m'. pf_across F (Object_Thrown code name (Some m)) =
         Object_Thrown code' name' (Some m') \<longrightarrow> str_includes m' m) \<and>
      (\<exists>code name msg. pf_bad_id F = Object_Thrown code name (Some msg)))"

definition known_codes :: "spine_code set" where
  "known_codes = {Err_Bad_Token, Err_Token_Expired, Err_Malformed, Err_Scope_Denied,
     Err_Budget_Exceeded, Err_Session_Required, Err_Internal}"

lemma choose_code:
  "fst (if a then (Err_Budget_Exceeded, x) else if b then (Err_Scope_Denied, y)
     else if c then (Err_Session_Required, z) else (Err_Internal, t)) \<in>
     {Err_Budget_Exceeded, Err_Scope_Denied, Err_Session_Required, Err_Internal}"
  "fst (if a then (Err_Budget_Exceeded, x) else if b then (Err_Scope_Denied, y)
     else if c then (Err_Session_Required, z) else (Err_Internal, t)) = Err_Internal \<Longrightarrow>
   snd (if a then (Err_Budget_Exceeded, x) else if b then (Err_Scope_Denied, y)
     else if c then (Err_Session_Required, z) else (Err_Internal, t)) = t"
  by auto

lemma sanitize_object:
  "fst (sanitize (Object_Thrown code name m)) \<in>
     {Err_Budget_Exceeded, Err_Scope_Denied, Err_Session_Required, Err_Internal}"
  "fst (sanitize (Object_Thrown code name m)) = Err_Internal \<Longrightarrow>
     snd (sanitize (Object_Thrown code name m)) = ''An internal error occurred''"
  unfolding sanitize_def exn.case Let_def by (rule choose_code, erule choose_code)

lemma verify_no_replay: "fst (verify_token P k scope token now None) \<noteq> Invalid Token_Replay"
  by (auto simp: verify_token_def check_payload_def Let_def split: option.splits prod.splits if_splits)

lemma includes_trans: "str_includes a b \<Longrightarrow> str_includes b c \<Longrightarrow> str_includes a c"
  unfolding str_includes_def by (rule sublist_order.order_trans)

lemma budget_error_refused:
  assumes "plain_boundary F"
  shows "fst (sanitize (pf_across F (budget_error cl))) = Err_Budget_Exceeded"
proof -
  define m where "m = ''ERR_BUDGET_EXCEEDED: '' @ category_name (fst cl) @
     '' budget exceeded (limit: '' @ show_nat (snd cl) @ '')''"
  have e: "budget_error cl = Object_Thrown (Some ''ERR_BUDGET_EXCEEDED'') (Some ''BudgetExceededError'') (Some m)"
    by (simp add: budget_error_def m_def)
  obtain code name m' where x: "pf_across F (budget_error cl) = Object_Thrown code name (Some m')"
    using assms unfolding plain_boundary_def by blast
  then have "str_includes m' m"
    using assms e unfolding plain_boundary_def by metis
  moreover have "prefix ''ERR_BUDGET_EXCEEDED:'' m" by (simp add: m_def)
  then have "str_includes m ''ERR_BUDGET_EXCEEDED:''"
    unfolding str_includes_def by (rule prefix_imp_sublist)
  ultimately have "str_includes m' ''ERR_BUDGET_EXCEEDED:''" by (rule includes_trans)
  then show ?thesis by (simp add: x sanitize_def)
qed

text \<open>A refused call tells the bundle one of seven codes. An internal error comes with a
  fixed text, and a call over budget is always refused with the budget code.\<close>

theorem spine_errors_are_sanitised:
  assumes "plain_boundary F"
    and "spine_service P k F E now token call agents = (Refused code m, agents')"
  shows "code \<in> known_codes \<and> (code \<noteq> Err_Internal \<or> m = ''An internal error occurred'') \<and>
    (case fst (verify_token P k (Some ''spine'') token now None) of
       Valid p \<Rightarrow>
         spine_charged P k F (sc_agent (caller_of p)) (sc_nonce (caller_of p)) (spine_category call)
           (now, token, call) \<and>
         fst (budget_check (se_budget E) (sc_nonce (caller_of p)) (spine_category call)
           (fst (agents (sc_agent (caller_of p))))) \<noteq> Inr () \<longrightarrow>
         code = Err_Budget_Exceeded
     | _ \<Rightarrow> True)"
proof (cases "fst (verify_token P k (Some ''spine'') token now None)")
  case (Valid p)
  let ?c = "caller_of p"
  note svc = service_valid [OF Valid, of call F E agents]
  have sane: "fst (sanitize e) \<in> known_codes \<and>
      (fst (sanitize e) \<noteq> Err_Internal \<or> snd (sanitize e) = ''An internal error occurred'')"
    if "\<exists>c n x. e = Object_Thrown c n x" for e
    using that sanitize_object by (fastforce simp: known_codes_def)
  consider "session_scoped call \<and> sc_session ?c = None"
    | "\<not> (session_scoped call \<and> sc_session ?c = None)" "\<not> pf_valid_id F (sc_agent ?c)"
    | "\<not> (session_scoped call \<and> sc_session ?c = None)" "pf_valid_id F (sc_agent ?c)"
    by blast
  then show ?thesis
  proof cases
    case 1
    then show ?thesis using Valid assms(2) svc(1)
      by (auto simp: session_required_def known_codes_def spine_charged_def)
  next
    case 2
    have "\<exists>c n x. pf_bad_id F = Object_Thrown c n x"
      using assms(1) unfolding plain_boundary_def by blast
    with sane [of "pf_bad_id F"] show ?thesis using 2 Valid assms(2) svc(2) by (auto simp: spine_charged_def)
  next
    case 3
    obtain r h where me: "spine_method E ?c call (agents (sc_agent ?c)) = (r, h)"
      by (rule prod.exhaust)
    then obtain e where e: "r = Inl e" "code = fst (sanitize (pf_across F e))"
        "m = snd (sanitize (pf_across F e))"
      using assms(2) svc(3) [OF 3 me] by (cases r) auto
    have "\<exists>c n x. pf_across F e = Object_Thrown c n x"
      using assms(1) unfolding plain_boundary_def by blast
    note known = sane [OF this]
    have "code = Err_Budget_Exceeded"
      if over: "fst (budget_check (se_budget E) (sc_nonce ?c) (spine_category call)
        (fst (agents (sc_agent ?c)))) \<noteq> Inr ()"
    proof -
      obtain over where "fst (budget_check (se_budget E) (sc_nonce ?c) (spine_category call)
          (fst (agents (sc_agent ?c)))) = Inl over"
        using over by (cases "fst (budget_check (se_budget E) (sc_nonce ?c) (spine_category call)
          (fst (agents (sc_agent ?c))))") auto
      then have "e = budget_error over"
        using me e(1) by (auto simp: spine_method_def case_prod_beta)
      then show ?thesis using budget_error_refused [OF assms(1), of over] e(2) by simp
    qed
    with known show ?thesis using Valid e(2,3) by auto
  qed
next
  case (Invalid e)
  then show ?thesis using assms(2) verify_no_replay [of P k "Some ''spine''" token now]
    by (cases e) (auto simp: spine_service_def known_codes_def)
next
  case Throws
  then show ?thesis using assms(2) by (auto simp: spine_service_def)
qed

section \<open>Examples\<close>

definition demo_host :: "bool spine_host" where
  "demo_host = \<lparr>sh_runtime = demo_runtime [], sh_kv = [], sh_outbox = []\<rparr>"

definition demo_spine_env :: "bool spine_env" where
  "demo_spine_env = \<lparr>se_new_id = (\<lambda>h. ''e''), se_budget = (\<lambda>c. 1), se_active_version = None,
     se_after_tool = [], se_before_inference = [], se_before_tool = [],
     se_store_error = (\<lambda>e. Object_Thrown None None (Some ''store'')),
     se_duplicate_schedule = Object_Thrown None None (Some ''duplicate'')\<rparr>"

definition demo_platform :: platform where
  "demo_platform = \<lparr>pf_valid_id = (\<lambda>i. True),
     pf_bad_id = Object_Thrown None None (Some ''bad id''),
     pf_across = (\<lambda>e. Object_Thrown None (Some ''Error'') (Some (case e of
        Object_Thrown c n (Some m) \<Rightarrow> m | _ \<Rightarrow> [])))\<rparr>"

definition demo_agents :: "bool agents" where
  "demo_agents = (\<lambda>a. (Map.empty, demo_host))"

lemma demo_boundary: "plain_boundary demo_platform"
  by (simp add: plain_boundary_def demo_platform_def str_includes_def)

definition demo_token :: string where
  "demo_token = mint_token toy_crypto 7 demo_mint 1000 ''n''"

lemma demo_token_verifies:
  "fst (verify_token toy_crypto 7 (Some ''spine'') demo_token 2000 None) =
     Valid (token_payload demo_mint 1000 ''n'')"
  by (simp add: demo_token_def verify_minted toy_codec check_payload_def token_payload_members
      in_scope_def demo_mint_def default_ttl_ms_def Let_def)

lemma demo_caller:
  "caller_of (token_payload demo_mint 1000 ''n'') =
     \<lparr>sc_agent = ''agent'', sc_session = Some ''s1'', sc_nonce = ''n''\<rparr>"
  by (simp add: caller_of_def token_payload_members string_member_def demo_mint_def resolved_sid_def)

lemma demo_broadcast:
  "spine_service toy_crypto 7 demo_platform demo_spine_env 2000 demo_token (Broadcast_Event (JObj [])) demo_agents =
     (Answered Unit_Value, demo_agents(''agent'' :=
        (Map.empty(''n'' \<mapsto> Map.empty(Broadcast \<mapsto> 1)),
         send_out (Some ''s1'') (stamp_session ''s1'' (JObj [])) demo_host)))"
  by (simp add: spine_service_def demo_token_verifies demo_caller Let_def demo_platform_def
      spine_method_def demo_agents_def budget_check_def demo_spine_env_def)

theorem spine_call_is_confined_witness:
  "\<exists>agents'. snd (spine_service toy_crypto 7 demo_platform demo_spine_env 2000 demo_token
       (Broadcast_Event (JObj [])) demo_agents) = agents' \<and> agents' \<noteq> demo_agents \<and>
     agents' ''other'' = demo_agents ''other'' \<and>
     confined ''s1'' True (snd (demo_agents ''agent'')) (snd (agents' ''agent''))"
proof -
  let ?new = "demo_agents(''agent'' :=
        (Map.empty(''n'' \<mapsto> Map.empty(Broadcast \<mapsto> 1)),
         send_out (Some ''s1'') (stamp_session ''s1'' (JObj [])) demo_host))"
  have "fst (?new ''agent'') ''n'' \<noteq> fst (demo_agents ''agent'') ''n''"
    by (simp add: demo_agents_def)
  then have ne: "?new \<noteq> demo_agents" by metis
  from spine_call_is_confined [OF demo_broadcast] ne obtain p where
    p: "fst (verify_token toy_crypto 7 (Some ''spine'') demo_token 2000 None) = Valid p"
      "\<forall>b. b \<noteq> sc_agent (caller_of p) \<longrightarrow> ?new b = demo_agents b"
      "hook_call (Broadcast_Event (JObj [])) \<or>
        confined (or_else (sc_session (caller_of p)) []) (session_scoped (Broadcast_Event (JObj [])))
          (snd (demo_agents (sc_agent (caller_of p)))) (snd (?new (sc_agent (caller_of p))))"
    by blast
  then have c: "caller_of p = \<lparr>sc_agent = ''agent'', sc_session = Some ''s1'', sc_nonce = ''n''\<rparr>"
    using demo_token_verifies demo_caller by simp
  have other: "?new ''other'' = demo_agents ''other''" using p(2) unfolding c by simp
  have conf: "confined ''s1'' True (snd (demo_agents ''agent'')) (snd (?new ''agent''))"
    using p(3) unfolding c by simp
  show ?thesis
    unfolding demo_broadcast snd_conv using ne other conf by blast
qed

theorem spine_errors_are_sanitised_witness:
  "\<exists>m agents'. spine_service toy_crypto 7 demo_platform demo_spine_env 2000 demo_token
       (Broadcast_Event (JObj []))
       (demo_agents(''agent'' := (Map.empty(''n'' \<mapsto> Map.empty(Broadcast \<mapsto> 1)), demo_host))) =
     (Refused Err_Budget_Exceeded m, agents')"
proof -
  let ?agents = "demo_agents(''agent'' := (Map.empty(''n'' \<mapsto> Map.empty(Broadcast \<mapsto> 1)), demo_host))"
  obtain reply agents' where r: "spine_service toy_crypto 7 demo_platform demo_spine_env 2000 demo_token
      (Broadcast_Event (JObj [])) ?agents = (reply, agents')" by (rule prod.exhaust)
  have "\<exists>e h. spine_method demo_spine_env (caller_of (token_payload demo_mint 1000 ''n''))
      (Broadcast_Event (JObj [])) (?agents ''agent'') = (Inl e, h)"
    by (simp add: spine_method_def demo_caller budget_check_def demo_spine_env_def)
  then have "\<exists>code m. reply = Refused code m"
    using r service_valid(3) [OF demo_token_verifies, of "Broadcast_Event (JObj [])" demo_platform demo_spine_env]
    by (auto simp: demo_caller demo_platform_def)
  then obtain code m where "reply = Refused code m" by blast
  with r have rr: "spine_service toy_crypto 7 demo_platform demo_spine_env 2000 demo_token
      (Broadcast_Event (JObj [])) ?agents = (Refused code m, agents')" by simp
  have "code = Err_Budget_Exceeded"
    using spine_errors_are_sanitised [OF demo_boundary rr]
    by (simp add: demo_token_verifies demo_caller spine_charged_def demo_platform_def budget_check_def demo_spine_env_def)
  with rr show ?thesis by blast
qed

section \<open>Snapshots, checkpoints and schedules\<close>

text \<open>A recorded prompt snapshot is read back for its session and version, whichever
  session the token of either call belongs to: the methods take the session as an argument
  and ignore the one that was verified.\<close>

theorem snapshot_ignores_token_session:
  assumes "v \<noteq> []"
  shows "fst (spine_body E s2 (Get_Sections s (Some v))
      (snd (spine_body E s1 (Record_Sections s sections v) h))) = Inr (Messages_Value sections)"
  using assms
  by (simp add: record_sections_def get_sections_def kv_get_def kv_put_def Let_def)

theorem snapshot_ignores_token_session_witness:
  "fst (spine_body demo_spine_env ''mine'' (Get_Sections ''theirs'' (Some ''v1''))
      (snd (spine_body demo_spine_env ''mine'' (Record_Sections ''theirs'' [JNull] ''v1'') demo_host))) =
    Inr (Messages_Value [JNull])"
  by (rule snapshot_ignores_token_session) simp

text \<open>Schedules that a bundle creates, changes or deletes leave the wake time as it was, so a
  schedule that should fire first is stored but nothing wakes the agent for it.\<close>

theorem spine_schedules_not_armed:
  assumes "wake_synced (sh_runtime h)"
    and "call \<in> {Schedule_Create c, Schedule_Update i u, Schedule_Delete i}"
    and "get_earliest_fire_time (rt_schedules (sh_runtime (snd (spine_body E s call h)))) \<noteq>
      get_earliest_fire_time (rt_schedules (sh_runtime h))"
  shows "\<not> wake_synced (sh_runtime (snd (spine_body E s call h))) \<and>
    rt_wake (sh_runtime (snd (spine_body E s call h))) = rt_wake (sh_runtime h)"
proof -
  have "rt_wake (sh_runtime (snd (spine_body E s call h))) = rt_wake (sh_runtime h)"
    using assms(2) by (auto split: option.split)
  then show ?thesis using assms(1,3) by (simp add: wake_synced_def)
qed

definition demo_new_schedule :: schedule_config where
  "demo_new_schedule = \<lparr>cfg_id = None, cfg_name = ''n'', cfg_cron = ''0 12 * * *'',
     cfg_enabled = None, cfg_handler = Prompt_Handler, cfg_prompt = None, cfg_prefix = None,
     cfg_owner = None, cfg_timezone = None, cfg_expires = None,
     cfg_next_fire = Some (Iso_Stamp 1000), cfg_retention = None\<rparr>"

theorem spine_schedules_not_armed_witness:
  "rt_wake (sh_runtime (snd (spine_body demo_spine_env ''s'' (Schedule_Create demo_new_schedule) demo_host))) = None \<and>
   \<not> wake_synced (sh_runtime (snd (spine_body demo_spine_env ''s'' (Schedule_Create demo_new_schedule) demo_host)))"
proof -
  have w: "wake_synced (sh_runtime demo_host)"
    by (simp add: wake_synced_def demo_host_def demo_runtime_def get_earliest_fire_time_def
        fire_stamps_def)
  have "get_earliest_fire_time (rt_schedules (sh_runtime (snd (spine_body demo_spine_env ''s''
        (Schedule_Create demo_new_schedule) demo_host)))) \<noteq>
      get_earliest_fire_time (rt_schedules (sh_runtime demo_host))"
    by (simp add: insert_schedule_def insert_row_def schedule_row_def demo_new_schedule_def
        demo_host_def demo_runtime_def get_earliest_fire_time_def demo_spine_env_def in_schedules_def
        list_schedule_rows_def Let_def fire_stamps_def order_by_def)
  from spine_schedules_not_armed [OF w _ this, of demo_new_schedule "''i''" no_update] show ?thesis
    by (simp add: demo_host_def demo_runtime_def)
qed

end
