(* ===== verification/Llm_Service.thy ===== *)
theory Llm_Service
  imports Bundle_Token
begin

text \<open>
  \<open>packages/runtime/bundle-host/src/services/llm-service.ts\<close>: inference for bundles. A call
  is verified and rate-limited, sent to a provider with the host's credentials, and its
  errors and costs are reported. What the service sends and what it charges are part of the
  result of a call, so the lemmas can say which calls reach a provider; they also say what a
  bundle can see of an error, and how many calls an agent has in a window.

  Providers answer through functions (the fetch of a URL, the Workers AI binding). Costs are
  kept in millionths of a dollar, where the code divides by a million.
\<close>

section \<open>Rate limiting\<close>

record rate_window =
  rw_count :: nat
  rw_reset :: int

definition rate_window_ms :: int where "rate_window_ms = 60000"

definition default_rate_limit :: nat where "default_rate_limit = 100"

definition rate_check :: "nat \<Rightarrow> int \<Rightarrow> string \<Rightarrow> (string \<rightharpoonup> rate_window) \<Rightarrow>
    bool \<times> (string \<rightharpoonup> rate_window)" where
  "rate_check limit now agent ws =
     (case ws agent of
        None \<Rightarrow> (True, ws(agent \<mapsto> \<lparr>rw_count = 1, rw_reset = now + rate_window_ms\<rparr>))
      | Some w \<Rightarrow>
          if rw_reset w \<le> now
          then (True, ws(agent \<mapsto> \<lparr>rw_count = 1, rw_reset = now + rate_window_ms\<rparr>))
          else if limit \<le> rw_count w then (False, ws)
          else (True, ws(agent \<mapsto> w\<lparr>rw_count := rw_count w + 1\<rparr>)))"

section \<open>Requests and responses\<close>

record infer_request =
  ir_provider :: string
  ir_model :: string
  ir_messages :: "json list"
  ir_tools :: "json list option"
  ir_max_tokens :: "nat option"
  ir_temperature :: "json option"

record infer_response =
  is_content :: json
  is_usage :: "(nat option \<times> nat option) option"
  is_tool_calls :: "json option"
  is_finish :: json

text \<open>The host's credentials; \<open>lk_ai\<close> is the Workers AI binding, which runs a model on inputs.\<close>

record llm_keys =
  lk_openrouter :: "string option"
  lk_anthropic :: "string option"
  lk_openai :: "string option"
  lk_ai :: "(string \<Rightarrow> json \<Rightarrow> string + json) option"

text \<open>
  What a request to a provider carries: URL, credential, body. A fetch fails with an error
  message or gives a status, the parsed body (\<open>Inl\<close> an error) and whether there is a stream.
\<close>

record outgoing =
  og_url :: string
  og_key :: string
  og_body :: json

text \<open>What leaves the host for a call: a request to a provider, or a run of the binding.\<close>

datatype contact = To_Provider outgoing | To_Workers_AI string json

record fetched =
  fd_status :: nat
  fd_json :: "string + json"
  fd_stream :: bool

type_synonym fetch = "outgoing \<Rightarrow> string + fetched"

definition is_ok :: "fetched \<Rightarrow> bool" where
  "is_ok f = (200 \<le> fd_status f \<and> fd_status f \<le> 299)"

definition optional :: "string \<Rightarrow> json option \<Rightarrow> (string \<times> json) list" where
  "optional k v = (case v of None \<Rightarrow> [] | Some j \<Rightarrow> [(k, j)])"

definition positive_tokens :: "infer_request \<Rightarrow> json option" where
  "positive_tokens r = (case ir_max_tokens r of Some n \<Rightarrow> if n \<noteq> 0 then Some (JNum (int n)) else None
     | None \<Rightarrow> None)"

text \<open>The OpenAI body; \<open>stream\<close> is absent from plain OpenAI calls.\<close>

definition openai_body :: "bool option \<Rightarrow> infer_request \<Rightarrow> json" where
  "openai_body stream r =
     JObj ([(''model'', JStr (ir_model r)), (''messages'', JArr (ir_messages r))] @
       optional ''stream'' (map_option JBool stream) @
       optional ''tools'' (map_option JArr (ir_tools r)) @
       optional ''max_tokens'' (positive_tokens r) @
       optional ''temperature'' (ir_temperature r))"

definition anthropic_body :: "bool \<Rightarrow> infer_request \<Rightarrow> json" where
  "anthropic_body stream r =
     JObj ([(''model'', JStr (ir_model r)), (''messages'', JArr (ir_messages r)),
            (''max_tokens'', JNum (int (or_else (ir_max_tokens r) 4096)))] @
       (if stream then [(''stream'', JBool True)] else []) @
       optional ''tools'' (map_option JArr (ir_tools r)) @
       (if stream then [] else optional ''temperature'' (ir_temperature r)))"

definition workers_ai_inputs :: "infer_request \<Rightarrow> json" where
  "workers_ai_inputs r =
     JObj ((''messages'', JArr (ir_messages r)) #
       optional ''max_tokens'' (map_option (\<lambda>n. JNum (int n)) (ir_max_tokens r)) @
       optional ''temperature'' (ir_temperature r))"

definition openrouter_url :: string where
  "openrouter_url = ''https://openrouter.ai/api/v1/chat/completions''"

definition openai_url :: string where
  "openai_url = ''https://api.openai.com/v1/chat/completions''"

definition anthropic_url :: string where
  "anthropic_url = ''https://api.anthropic.com/v1/messages''"

section \<open>Parsing responses\<close>

definition json_nat :: "json option \<Rightarrow> nat option" where
  "json_nat j = (case j of Some (JNum n) \<Rightarrow> if 0 \<le> n then Some (nat n) else None | _ \<Rightarrow> None)"

text \<open>\<open>??\<close>: absent and null fall back.\<close>

definition json_or :: "json option \<Rightarrow> json \<Rightarrow> json" where
  "json_or j d = (case j of None \<Rightarrow> d | Some JNull \<Rightarrow> d | Some x \<Rightarrow> x)"

definition usage_of :: "json \<Rightarrow> string \<Rightarrow> string \<Rightarrow> (nat option \<times> nat option) option" where
  "usage_of reply input output =
     (case member reply ''usage'' of
        Some (JObj u) \<Rightarrow> Some (json_nat (map_of u input), json_nat (map_of u output))
      | _ \<Rightarrow> None)"

definition first_element :: "json option \<Rightarrow> json" where
  "first_element j = (case j of Some (JArr (x # xs)) \<Rightarrow> x | _ \<Rightarrow> JNull)"

definition parse_openai_format :: "json \<Rightarrow> infer_response" where
  "parse_openai_format reply =
     (let choice = first_element (member reply ''choices'');
          message = or_else (member choice ''message'') JNull
      in \<lparr>is_content = json_or (member message ''content'') (JStr []),
          is_usage = usage_of reply ''prompt_tokens'' ''completion_tokens'',
          is_tool_calls = member message ''tool_calls'',
          is_finish = json_or (member choice ''finish_reason'') (JStr ''stop'')\<rparr>)"

definition blocks_of_type :: "string \<Rightarrow> json \<Rightarrow> json list" where
  "blocks_of_type t reply =
     (case member reply ''content'' of
        Some (JArr bs) \<Rightarrow> filter (\<lambda>b. member b ''type'' = Some (JStr t)) bs | _ \<Rightarrow> [])"

definition parse_anthropic_format :: "json \<Rightarrow> infer_response" where
  "parse_anthropic_format reply =
     \<lparr>is_content = JStr (concat (map (\<lambda>b. case member b ''text'' of Some (JStr s) \<Rightarrow> s | _ \<Rightarrow> [])
          (blocks_of_type ''text'' reply))),
      is_usage = usage_of reply ''input_tokens'' ''output_tokens'',
      is_tool_calls = (if blocks_of_type ''tool_use'' reply = [] then None
                       else Some (JArr (blocks_of_type ''tool_use'' reply))),
      is_finish = json_or (member reply ''stop_reason'') (JStr ''stop'')\<rparr>"

definition estimate_cost :: "infer_response \<Rightarrow> nat" where
  "estimate_cost r =
     (case is_usage r of None \<Rightarrow> 0
      | Some (inp, out) \<Rightarrow> or_else inp 0 * 3 + or_else out 0 * 15)"

section \<open>Calling a provider\<close>

definition status_error :: "nat \<Rightarrow> string" where
  "status_error s =
     (if s = 401 \<or> s = 403 then ''ERR_UPSTREAM_AUTH''
      else if s = 429 then ''ERR_UPSTREAM_RATE''
      else ''ERR_UPSTREAM_OTHER'')"

text \<open>The result of a call and what was sent for it.\<close>

definition call_provider :: "fetch \<Rightarrow> string option \<Rightarrow> string \<Rightarrow> json \<Rightarrow> (json \<Rightarrow> infer_response) \<Rightarrow>
    (string + infer_response) \<times> contact option" where
  "call_provider fetch key url body parse =
     (if \<not> truthy key then (Inl ''ERR_UPSTREAM_AUTH'', None)
      else
        let req = \<lparr>og_url = url, og_key = the key, og_body = body\<rparr>
        in ((case fetch req of
               Inl e \<Rightarrow> Inl e
             | Inr f \<Rightarrow> if is_ok f then map_sum id parse (fd_json f) else Inl (status_error (fd_status f))),
            Some (To_Provider req)))"

definition call_workers_ai :: "llm_keys \<Rightarrow> infer_request \<Rightarrow>
    (string + infer_response) \<times> contact option" where
  "call_workers_ai K r =
     (case lk_ai K of
        None \<Rightarrow> (Inl ''ERR_UPSTREAM_AUTH'', None)
      | Some run \<Rightarrow>
          (map_sum id (\<lambda>j. \<lparr>is_content = json_or (member j ''response'')
             (json_or (member j ''text'') (JStr [])), is_usage = None, is_tool_calls = None,
             is_finish = JStr ''stop''\<rparr>) (run (ir_model r) (workers_ai_inputs r)),
           Some (To_Workers_AI (ir_model r) (workers_ai_inputs r))))"

definition route_call :: "fetch \<Rightarrow> llm_keys \<Rightarrow> infer_request \<Rightarrow>
    (string + infer_response) \<times> contact option" where
  "route_call fetch K r =
     (if ir_provider r = ''openrouter''
      then call_provider fetch (lk_openrouter K) openrouter_url (openai_body (Some False) r) parse_openai_format
      else if ir_provider r = ''anthropic''
      then call_provider fetch (lk_anthropic K) anthropic_url (anthropic_body False r) parse_anthropic_format
      else if ir_provider r = ''openai''
      then call_provider fetch (lk_openai K) openai_url (openai_body None r) parse_openai_format
      else if ir_provider r = ''workers-ai'' then call_workers_ai K r
      else (Inl ''ERR_UNSUPPORTED_PROVIDER'', None))"

definition sanitize_upstream :: "string \<Rightarrow> string" where
  "sanitize_upstream m = (if starts_with m ''ERR_'' then m else ''ERR_UPSTREAM_OTHER'')"

text \<open>The codes of token errors, which are the messages of what is thrown.\<close>

definition token_message :: "token_error \<Rightarrow> string" where
  "token_message e = (case e of Bad_Token \<Rightarrow> ''ERR_BAD_TOKEN'' | Token_Expired \<Rightarrow> ''ERR_TOKEN_EXPIRED''
     | Token_Replay \<Rightarrow> ''ERR_TOKEN_REPLAY'' | Malformed \<Rightarrow> ''ERR_MALFORMED''
     | Scope_Denied \<Rightarrow> ''ERR_SCOPE_DENIED'')"

record 'a llm_result =
  lr_reply :: "string + 'a"
  lr_windows :: "string \<rightharpoonup> rate_window"
  lr_sent :: "contact option"
  lr_cost :: nat

definition refused :: "string \<Rightarrow> (string \<rightharpoonup> rate_window) \<Rightarrow> 'a llm_result" where
  "refused m ws = \<lparr>lr_reply = Inl m, lr_windows = ws, lr_sent = None, lr_cost = 0\<rparr>"

text \<open>The agent of a verified payload; \<open>Throws\<close> is the type error of a null payload.\<close>

definition with_agent :: "'k crypto \<Rightarrow> 'k \<Rightarrow> int \<Rightarrow> string \<Rightarrow> nat \<Rightarrow> (string \<rightharpoonup> rate_window) \<Rightarrow>
    ((string \<rightharpoonup> rate_window) \<Rightarrow> 'a llm_result) \<Rightarrow> 'a llm_result" where
  "with_agent P k now token limit ws body =
     (case fst (verify_token P k (Some ''llm'') token now None) of
        Invalid e \<Rightarrow> refused (token_message e) ws
      | Throws \<Rightarrow> refused ''TypeError'' ws
      | Valid p \<Rightarrow>
          let agent = (case member p ''aid'' of Some (JStr a) \<Rightarrow> a | _ \<Rightarrow> [])
          in case rate_check limit now agent ws of
               (False, ws1) \<Rightarrow> refused ''ERR_RATE_LIMITED'' ws1
             | (True, ws1) \<Rightarrow> body ws1)"

definition infer :: "'k crypto \<Rightarrow> 'k \<Rightarrow> fetch \<Rightarrow> llm_keys \<Rightarrow> nat \<Rightarrow> int \<Rightarrow> string \<Rightarrow> infer_request \<Rightarrow>
    (string \<rightharpoonup> rate_window) \<Rightarrow> infer_response llm_result" where
  "infer P k fetch K limit now token r ws =
     with_agent P k now token limit ws (\<lambda>ws1.
       \<lparr>lr_reply = map_sum sanitize_upstream id (fst (route_call fetch K r)), lr_windows = ws1,
        lr_sent = snd (route_call fetch K r),
        lr_cost = (case fst (route_call fetch K r) of Inl _ \<Rightarrow> 0 | Inr resp \<Rightarrow> estimate_cost resp)\<rparr>)"

definition provider_key :: "llm_keys \<Rightarrow> string \<Rightarrow> string option" where
  "provider_key K p =
     (if p = ''openrouter'' then lk_openrouter K
      else if p = ''anthropic'' then lk_anthropic K
      else if p = ''openai'' then lk_openai K else None)"

text \<open>\<open>inferStream\<close>; the reply stands for the provider's body stream.\<close>

definition stream_provider :: "fetch \<Rightarrow> outgoing \<Rightarrow> (string + unit) \<times> contact option" where
  "stream_provider fetch req =
     ((case fetch req of
         Inl e \<Rightarrow> Inl e
       | Inr f \<Rightarrow> if is_ok f \<and> fd_stream f then Inr () else Inl ''ERR_UPSTREAM_OTHER''), Some (To_Provider req))"

text \<open>The error for a missing key is thrown outside the handler, which would not change it.\<close>

definition stream_route :: "fetch \<Rightarrow> llm_keys \<Rightarrow> infer_request \<Rightarrow> (string + unit) \<times> contact option" where
  "stream_route fetch K r =
     (let p = ir_provider r; key = provider_key K p
      in if \<not> truthy key \<and> p \<noteq> ''workers-ai'' then (Inl ''ERR_UPSTREAM_AUTH'', None)
         else if p = ''openrouter'' \<or> p = ''openai''
         then stream_provider fetch \<lparr>og_url = (if p = ''openrouter'' then openrouter_url else openai_url),
           og_key = the key, og_body = openai_body (Some True) r\<rparr>
         else if p = ''anthropic''
         then stream_provider fetch \<lparr>og_url = anthropic_url, og_key = the key,
           og_body = anthropic_body True r\<rparr>
         else (Inl ''ERR_UNSUPPORTED_PROVIDER'', None))"

definition infer_stream :: "'k crypto \<Rightarrow> 'k \<Rightarrow> fetch \<Rightarrow> llm_keys \<Rightarrow> nat \<Rightarrow> int \<Rightarrow> string \<Rightarrow> infer_request \<Rightarrow>
    (string \<rightharpoonup> rate_window) \<Rightarrow> unit llm_result" where
  "infer_stream P k fetch K limit now token r ws =
     with_agent P k now token limit ws (\<lambda>ws1.
       \<lparr>lr_reply = map_sum sanitize_upstream id (fst (stream_route fetch K r)), lr_windows = ws1,
        lr_sent = snd (stream_route fetch K r), lr_cost = 0\<rparr>)"

section \<open>Which calls reach a provider\<close>

lemma refused_simps [simp]:
  "lr_reply (refused m ws) = Inl m" "lr_sent (refused m ws) = None" "lr_cost (refused m ws) = 0"
  "lr_windows (refused m ws) = ws"
  by (simp_all add: refused_def)

lemma with_agent_cases:
  obtains m ws1 where "with_agent P k now token limit ws body = refused m ws1"
      "starts_with m ''ERR_'' \<or> fst (verify_token P k (Some ''llm'') token now None) = Throws"
  | p a ws1 where "fst (verify_token P k (Some ''llm'') token now None) = Valid p"
      "a = (case member p ''aid'' of Some (JStr a) \<Rightarrow> a | _ \<Rightarrow> [])"
      "rate_check limit now a ws = (True, ws1)"
      "with_agent P k now token limit ws body = body ws1"
proof (cases "fst (verify_token P k (Some ''llm'') token now None)")
  case (Valid p)
  obtain b ws1 where b: "rate_check limit now (case member p ''aid'' of Some (JStr a) \<Rightarrow> a | _ \<Rightarrow> []) ws = (b, ws1)"
    by (rule prod.exhaust)
  show thesis
  proof (cases b)
    case True
    then show thesis using that(2) [OF Valid refl] b Valid by (simp add: with_agent_def)
  next
    case False
    then have "with_agent P k now token limit ws body = refused ''ERR_RATE_LIMITED'' ws1"
      using b Valid by (simp add: with_agent_def)
    then show thesis by (rule that(1)) (simp add: starts_with_def)
  qed
next
  case (Invalid e)
  then have "with_agent P k now token limit ws body = refused (token_message e) ws"
    by (simp add: with_agent_def)
  then show thesis
    by (rule that(1)) (cases e; simp add: starts_with_def token_message_def)
next
  case Throws
  then have "with_agent P k now token limit ws body = refused ''TypeError'' ws"
    by (simp add: with_agent_def)
  then show thesis by (rule that(1)) (simp add: Throws)
qed













lemma reply_code:
  assumes "\<And>ws1. lr_reply (body ws1) = map_sum sanitize_upstream id res"
  shows "case lr_reply (with_agent P k now token limit ws body) of
      Inl m \<Rightarrow> starts_with m ''ERR_'' \<or> fst (verify_token P k (Some ''llm'') token now None) = Throws
    | Inr v \<Rightarrow> \<exists>u. res = Inr u"
proof -
  have up: "starts_with (sanitize_upstream e) ''ERR_''" for e
    by (simp add: sanitize_upstream_def starts_with_def)
  show ?thesis
    by (rule with_agent_cases [of P k now token limit ws body])
      (use up assms in \<open>auto split: sum.split simp: map_sum_def\<close>)
qed

text \<open>Every error of an inference call starts with \<open>ERR_\<close>, unless the signed payload of its
  token is null; an error text of a provider's client reaches the bundle only if it starts
  so itself. Streaming through Workers AI is always refused.\<close>

theorem inference_errors_are_codes:
  "(case lr_reply (infer P k fetch K limit now token r ws) of
     Inl m \<Rightarrow> starts_with m ''ERR_'' \<or> fst (verify_token P k (Some ''llm'') token now None) = Throws
   | Inr _ \<Rightarrow> True) \<and>
   (case lr_reply (infer_stream P k fetch K limit now token r ws) of
     Inl m \<Rightarrow> starts_with m ''ERR_'' \<or> fst (verify_token P k (Some ''llm'') token now None) = Throws
   | Inr _ \<Rightarrow> ir_provider r \<noteq> ''workers-ai'')"
proof -
  have "\<exists>e. fst (stream_route fetch K r) = Inl e" if "ir_provider r = ''workers-ai''"
    using that by (simp add: stream_route_def)
  moreover have "case lr_reply (infer_stream P k fetch K limit now token r ws) of
      Inl m \<Rightarrow> starts_with m ''ERR_'' \<or> fst (verify_token P k (Some ''llm'') token now None) = Throws
    | Inr v \<Rightarrow> \<exists>u. fst (stream_route fetch K r) = Inr u"
    unfolding infer_stream_def by (rule reply_code) simp
  moreover have "case lr_reply (infer P k fetch K limit now token r ws) of
      Inl m \<Rightarrow> starts_with m ''ERR_'' \<or> fst (verify_token P k (Some ''llm'') token now None) = Throws
    | Inr v \<Rightarrow> \<exists>u. fst (route_call fetch K r) = Inr u"
    unfolding infer_def by (rule reply_code) simp
  ultimately show ?thesis by (fastforce split: sum.splits)
qed




end
