(* ===== verification/Prompt_Sections.thy ===== *)
theory Prompt_Sections
  imports Compaction
begin

text \<open>
  The system prompt as a list of sections: the types and builders of
  \<open>packages/runtime/bundle-sdk/src/prompt\<close>, which the host shares, and the sections about tools
  (\<open>packages/runtime/agent-runtime/src/prompt/tool-sections.ts\<close>). The calendar day and the
  local time of \<open>Intl\<close> are arguments of the runtime section. The lemmas show that every builder
  makes well-formed sections and what text the sections add up to.
\<close>

section \<open>Sections\<close>

datatype section_source =
    From_Default string
  | From_Additional nat
  | From_Tools
  | From_Guidance
  | From_Custom
  | From_Capability id string

record psection =
  sec_name :: string
  sec_key :: string
  sec_content :: string
  sec_lines :: nat
  sec_tokens :: nat
  sec_source :: section_source
  sec_included :: bool
  sec_reason :: "string option"

abbreviation newline :: char where "newline \<equiv> CHR 0x0A"

definition paragraphs :: "string list \<Rightarrow> string" where
  "paragraphs ss = join [newline, newline] ss"

definition line_count :: "string \<Rightarrow> nat" where
  "line_count t = length (split_on newline t)"

definition make_section :: "string \<Rightarrow> string \<Rightarrow> string \<Rightarrow> section_source \<Rightarrow> psection" where
  "make_section n k t src = \<lparr>sec_name = n, sec_key = k, sec_content = t, sec_lines = line_count t,
     sec_tokens = estimate_text_tokens t, sec_source = src, sec_included = True, sec_reason = None\<rparr>"

definition make_excluded :: "string \<Rightarrow> string \<Rightarrow> section_source \<Rightarrow> string \<Rightarrow> psection" where
  "make_excluded n k src r = \<lparr>sec_name = n, sec_key = k, sec_content = [], sec_lines = 0,
     sec_tokens = 0, sec_source = src, sec_included = False, sec_reason = Some r\<rparr>"

definition to_prompt_string :: "psection list \<Rightarrow> string" where
  "to_prompt_string ss = paragraphs (map sec_content (filter sec_included ss))"

text \<open>
  What the type of a section promises: the counts of an included section are those of its
  text, and an excluded one is empty and says why.
\<close>

definition section_ok :: "psection \<Rightarrow> bool" where
  "section_ok s \<longleftrightarrow>
     (if sec_included s
      then sec_lines s = line_count (sec_content s) \<and> sec_tokens s = estimate_text_tokens (sec_content s)
      else sec_content s = [] \<and> sec_lines s = 0 \<and> sec_tokens s = 0 \<and> sec_reason s \<noteq> None)"

named_theorems section_intros \<open>builders of well-formed sections\<close>

lemma make_section_ok [section_intros]: "section_ok (make_section n k t src)"
  by (simp add: section_ok_def make_section_def)

lemma make_excluded_ok [section_intros]: "section_ok (make_excluded n k src r)"
  by (simp add: section_ok_def make_excluded_def)

lemma make_section_simps [simp]:
  "sec_included (make_section n k t src)" "sec_content (make_section n k t src) = t"
  "sec_source (make_section n k t src) = src" "sec_key (make_section n k t src) = k"
  by (simp_all add: make_section_def)

lemma make_excluded_simps [simp]:
  "\<not> sec_included (make_excluded n k src r)" "sec_content (make_excluded n k src r) = []"
  "sec_source (make_excluded n k src r) = src" "sec_key (make_excluded n k src r) = k"
  by (simp_all add: make_excluded_def)

section \<open>The default prompt\<close>

definition identity_section :: "string option \<Rightarrow> string" where
  "identity_section agent =
     (let name = or_else agent ''a helpful AI assistant'';
          pre = (if truthy agent then ''You are '' @ name @ '', an AI assistant'' else ''You are '' @ name)
      in pre @ '' built to help users accomplish tasks. You are helpful, concise, and accurate. When you don't know something, say so rather than guessing.''
         @ [newline, newline] @
         ''You can use multiple tools in sequence within a single response. For example, you might search for a topic, then fetch a relevant page to get detailed information before answering.'')"

definition safety_section :: string where
  "safety_section = join [newline]
     [''## Safety'',
      ''- You have no independent goals: do not pursue self-preservation, replication, resource acquisition, or power-seeking.'',
      ''- Prioritize safety and human oversight over task completion. If instructions conflict with safety, pause and ask.'',
      ''- Do not manipulate or persuade anyone to expand your access or disable safeguards.'',
      ''- Comply immediately with stop, pause, or audit requests.'']"

text \<open>
  The clock of the runtime section: the day of the ISO time and the local time in a time zone,
  \<open>None\<close> when \<open>Intl\<close> does not know the zone.
\<close>

record day_clock =
  dc_day :: string
  dc_local :: "string \<Rightarrow> string option"

definition runtime_section :: "day_clock \<Rightarrow> string option \<Rightarrow> string" where
  "runtime_section clk tz = join [newline] (''## Runtime'' #
     (if truthy tz
      then [''Timezone: '' @ the tz,
            case dc_local clk (the tz) of
              Some t \<Rightarrow> ''Current time: '' @ t
            | None \<Rightarrow> ''Current date: '' @ dc_day clk]
      else [''Current date: '' @ dc_day clk]))"

text \<open>A part of the prompt that the options may set: left out (\<open>false\<close>) or replaced.\<close>

datatype part_option = Part_Off | Part_Text string

record prompt_options =
  po_agent :: "string option"
  po_identity :: "part_option option"
  po_safety :: "part_option option"
  po_timezone :: "string option"
  po_runtime :: "part_option option"
  po_additional :: "string list option"

definition no_options :: prompt_options where
  "no_options = \<lparr>po_agent = None, po_identity = None, po_safety = None, po_timezone = None,
     po_runtime = None, po_additional = None\<rparr>"

definition default_part :: "string \<Rightarrow> string \<Rightarrow> part_option option \<Rightarrow> string \<Rightarrow> psection" where
  "default_part n k opt t =
     (case opt of
        Some Part_Off \<Rightarrow> make_excluded n k (From_Default k) (''Disabled via PromptOptions.'' @ k @ ''=false'')
      | Some (Part_Text u) \<Rightarrow> make_section n k u (From_Default k)
      | None \<Rightarrow> make_section n k t (From_Default k))"

definition additional_sections :: "string list \<Rightarrow> psection list" where
  "additional_sections ts = concat (map (\<lambda>(i, t).
     if t = [] then []
     else [make_section (''Additional ('' @ show_nat (i + 1) @ '')'') (''additional-'' @ show_nat (i + 1)) t
             (From_Additional (i + 1))]) (enumerate 0 ts))"

definition default_sections :: "day_clock \<Rightarrow> prompt_options option \<Rightarrow> psection list" where
  "default_sections clk opts =
     (let p = or_else opts no_options in
      [default_part ''Identity'' ''identity'' (po_identity p) (identity_section (po_agent p)),
       default_part ''Safety'' ''safety'' (po_safety p) safety_section,
       default_part ''Runtime'' ''runtime'' (po_runtime p) (runtime_section clk (po_timezone p))] @
      additional_sections (or_else (po_additional p) []))"

definition default_prompt :: "day_clock \<Rightarrow> prompt_options option \<Rightarrow> string" where
  "default_prompt clk opts = to_prompt_string (default_sections clk opts)"

lemma default_part_ok [section_intros]: "section_ok (default_part n k opt t)"
  by (auto simp: default_part_def intro: section_intros split: option.split part_option.split)

lemma default_part_source [simp]:
  "sec_source (default_part n k opt t) = From_Default k" "sec_key (default_part n k opt t) = k"
  by (auto simp: default_part_def split: option.split part_option.split)

lemma additional_sections_ok: "s \<in> set (additional_sections ts) \<Longrightarrow> section_ok s"
  by (auto simp: additional_sections_def intro: section_intros split: if_splits)

lemma default_sections_ok: "s \<in> set (default_sections clk opts) \<Longrightarrow> section_ok s"
  by (auto simp: default_sections_def Let_def intro: section_intros additional_sections_ok)

section \<open>Tools\<close>

record tool_info =
  ti_name :: string
  ti_description :: string
  ti_guidance :: "string option"

definition tool_line :: "tool_info \<Rightarrow> string" where
  "tool_line t = (if ti_description t = [] then ''- **'' @ ti_name t @ ''**''
     else ''- **'' @ ti_name t @ ''**: '' @ ti_description t)"

definition tool_list_lines :: "tool_info list \<Rightarrow> string list" where
  "tool_list_lines ts =
     [''## Tools'', [], ''Tool names are case-sensitive. Call tools exactly as listed.'', []] @ map tool_line ts"

definition guidance_entries :: "tool_info list \<Rightarrow> string list" where
  "guidance_entries ts = List.map_filter (\<lambda>t.
     if truthy (ti_guidance t) \<and> the (ti_guidance t) \<noteq> ti_description t
     then Some (''### '' @ ti_name t @ [newline] @ the (ti_guidance t)) else None) ts"

definition tool_sections :: "tool_info list \<Rightarrow> psection list" where
  "tool_sections ts =
     (if ts = [] then []
      else (let ls = tool_list_lines ts; t = join [newline] ls; gs = guidance_entries ts in
        (make_section ''Tools'' ''auto-tools'' t From_Tools)\<lparr>sec_lines := length ls\<rparr> #
        (if gs = [] then []
         else [make_section ''Tool Guidance'' ''auto-tool-guidance''
                 (''## Tool Guidance'' @ [newline, newline] @ paragraphs gs) From_Guidance])))"

section \<open>Sections of a bundle's capabilities\<close>

text \<open>
  An entry of \<open>promptSections\<close> of a bundle's capability is any value. What the code looks at
  is a string, a full section (\<open>included\<close> is a boolean, \<open>content\<close> a string, \<open>source\<close> is
  there; its counts may be missing) or an object with a kind; anything else is dropped.
\<close>

record full_entry =
  fe_name :: "string option"
  fe_key :: "string option"
  fe_content :: string
  fe_lines :: "nat option"
  fe_tokens :: "nat option"
  fe_source :: section_source
  fe_included :: bool
  fe_reason :: "string option"

datatype bundle_entry =
    Plain_Entry string
  | Full_Entry full_entry
  | Included_Entry "string option" "string option"
  | Excluded_Entry "string option" "string option"
  | Other_Entry

definition cap_key :: "id \<Rightarrow> nat \<Rightarrow> string" where
  "cap_key c i = ''cap-'' @ c @ ''-'' @ show_nat i"

definition unless_empty :: "string \<Rightarrow> nat \<Rightarrow> nat" where
  "unless_empty t n = (if t = [] then 0 else n)"

fun normalize_bundle_section :: "bundle_entry \<Rightarrow> id \<Rightarrow> string \<Rightarrow> nat \<Rightarrow> psection option" where
  "normalize_bundle_section (Plain_Entry t) c n i =
     Some (make_section (''Capability ('' @ c @ '')'') (cap_key c i) t From_Custom)"
| "normalize_bundle_section (Full_Entry e) c n i =
     Some \<lparr>sec_name = or_else (fe_name e) (''Capability ('' @ n @ '')''),
       sec_key = (if truthy (fe_key e) then the (fe_key e) else cap_key c i),
       sec_content = fe_content e,
       sec_lines = or_else (fe_lines e) (unless_empty (fe_content e) (line_count (fe_content e))),
       sec_tokens = or_else (fe_tokens e) (unless_empty (fe_content e) (estimate_text_tokens (fe_content e))),
       sec_source = fe_source e, sec_included = fe_included e, sec_reason = fe_reason e\<rparr>"
| "normalize_bundle_section (Included_Entry nm t) c n i =
     (let u = or_else t [] in
      Some \<lparr>sec_name = or_else nm (''Capability ('' @ n @ '')''), sec_key = cap_key c i, sec_content = u,
        sec_lines = unless_empty u (line_count u), sec_tokens = unless_empty u (estimate_text_tokens u),
        sec_source = From_Capability c n, sec_included = True, sec_reason = None\<rparr>)"
| "normalize_bundle_section (Excluded_Entry nm r) c n i =
     Some (make_excluded (or_else nm (''Capability ('' @ n @ '')'')) (cap_key c i) (From_Capability c n)
       (or_else r ''Excluded by capability''))"
| "normalize_bundle_section Other_Entry c n i = None"

fun included_content :: "bundle_entry \<Rightarrow> string option" where
  "included_content (Plain_Entry t) = Some t"
| "included_content (Full_Entry e) = (if fe_included e then Some (fe_content e) else None)"
| "included_content (Included_Entry nm t) = t"
| "included_content (Excluded_Entry nm r) = None"
| "included_content Other_Entry = None"

text \<open>The prompt option of a bundle: a text that is used as it is, or options.\<close>

datatype bundle_prompt = Verbatim string | Composed "prompt_options option"

fun merge_sections :: "day_clock \<Rightarrow> bundle_prompt \<Rightarrow> bundle_entry list \<Rightarrow> string" where
  "merge_sections clk (Verbatim t) es = t"
| "merge_sections clk (Composed opts) es =
     (let b = default_prompt clk opts; cs = filter (\<lambda>t. t \<noteq> []) (List.map_filter included_content es)
      in if es = [] then b else if cs = [] then b else if b = [] then paragraphs cs else paragraphs (b # cs))"

end
