(* ===== verification/Capability_Modes.thy ===== *)
theory Capability_Modes
  imports Prompt_Sections Session_Sync
begin

text \<open>
  What an agent offers its model: capabilities are resolved into tools, commands, prompt
  sections, hooks and HTTP handlers (\<open>packages/runtime/agent-runtime/src/capabilities/resolve.ts\<close>),
  a mode filters tools and sections (\<open>modes/\<close>), and the runtime assembles the prompt and the
  tool list of a turn and runs the hooks (\<open>agent-runtime.ts\<close>). The lemmas show what survives
  resolving, that nothing a mode excludes reaches the model, that prompts are made of
  well-formed sections, and that the mode shown to a client is the mode of the log.

  A capability's functions are functions of the context they get; hooks also read and change
  a world of any type and may throw (\<open>Inl\<close>).
\<close>

section \<open>Capabilities\<close>

text \<open>
  A context: its session, whose storage and whose broadcasts it carries (\<open>None\<close>: none) and the
  agent's configuration as the capability maps it.
\<close>

type_synonym config_values = "(string \<times> json) list"

record cap_context =
  cx_session :: id
  cx_storage :: "id option"
  cx_broadcast :: "id option"
  cx_config :: "json option"

type_synonym ('a, 'w) hook_run = "cap_context \<Rightarrow> 'w \<Rightarrow> (string + 'a) \<times> 'w"

datatype section_entry =
    Plain_Section string
  | Included_Section string "string option"
  | Excluded_Section string "string option"

record ('w, 's, 'h) capability =
  cp_id :: id
  cp_name :: string
  cp_mapping :: "(config_values \<Rightarrow> json) option"
  cp_tools :: "(cap_context \<Rightarrow> tool_info list) option"
  cp_commands :: "(cap_context \<Rightarrow> (string \<times> string) list) option"
  cp_sections :: "(cap_context \<Rightarrow> section_entry list) option"
  cp_mcp :: "json list"
  cp_schedules :: "(cap_context \<Rightarrow> 's list) option"
  cp_namespaces :: bool
  cp_http :: "(cap_context \<Rightarrow> (string \<times> string \<times> 'h) list) option"
  cp_before_inference :: "(agent_message list \<Rightarrow> (agent_message list, 'w) hook_run) option"
  cp_before_tool :: "(string \<times> json \<times> id \<Rightarrow> ((bool \<times> string option) option, 'w) hook_run) option"
  cp_after_tool :: "(string \<times> json \<times> bool \<Rightarrow> (unit, 'w) hook_run) option"
  cp_on_connect :: "(unit, 'w) hook_run option"
  cp_on_action :: "(string \<Rightarrow> json \<Rightarrow> (unit, 'w) hook_run) option"
  cp_after_turn :: "(string \<Rightarrow> (unit, 'w) hook_run) option"
  cp_dispose :: "('w \<Rightarrow> 'w) option"

text \<open>
  What resolving gives. Hooks take the configuration at the time they are called; handlers of
  HTTP requests are listed with method, path, capability and storage.
\<close>

record ('w, 's, 'h) resolved =
  rs_tools :: "tool_info list"
  rs_commands :: "(string \<times> string) list"
  rs_sections :: "psection list"
  rs_mcp :: "json list"
  rs_before_inference :: "(config_values \<Rightarrow> agent_message list \<Rightarrow> (agent_message list, 'w) hook_run) list"
  rs_before_tool :: "(config_values \<Rightarrow> string \<times> json \<times> id \<Rightarrow> ((bool \<times> string option) option, 'w) hook_run) list"
  rs_after_tool :: "(config_values \<Rightarrow> string \<times> json \<times> bool \<Rightarrow> (unit, 'w) hook_run) list"
  rs_on_connect :: "(id \<times> (config_values \<Rightarrow> (unit, 'w) hook_run)) list"
  rs_schedules :: "(id \<times> 's) list"
  rs_http :: "(string \<times> string \<times> 'h \<times> id \<times> id option) list"
  rs_actions :: "(id \<times> (string \<Rightarrow> json \<Rightarrow> (unit, 'w) hook_run)) list"
  rs_disposers :: "(id \<times> ('w \<Rightarrow> 'w)) list"

definition nothing_resolved :: "('w, 's, 'h) resolved" where
  "nothing_resolved = \<lparr>rs_tools = [], rs_commands = [], rs_sections = [], rs_mcp = [],
     rs_before_inference = [], rs_before_tool = [], rs_after_tool = [], rs_on_connect = [],
     rs_schedules = [], rs_http = [], rs_actions = [], rs_disposers = []\<rparr>"

section \<open>Resolving\<close>

text \<open>Entries whose key is taken are skipped.\<close>

definition add_named :: "('a \<Rightarrow> 'k) \<Rightarrow> 'a list \<Rightarrow> 'a list \<Rightarrow> 'a list" where
  "add_named key xs acc = fold (\<lambda>x ys. if key x \<in> key ` set ys then ys else ys @ [x]) xs acc"

definition capability_section :: "id \<Rightarrow> string \<Rightarrow> nat \<Rightarrow> nat \<Rightarrow> section_entry \<Rightarrow> psection" where
  "capability_section c n cnt i entry =
     (let key = cap_key c (i + 1); src = From_Capability c n;
          default_name = (if cnt = 1 then n else n @ '' ('' @ show_nat (i + 1) @ '')'')
      in case entry of
           Plain_Section t \<Rightarrow> make_section default_name key t src
         | Included_Section t nm \<Rightarrow> make_section (or_else nm default_name) key t src
         | Excluded_Section r nm \<Rightarrow> make_excluded (or_else nm default_name) key src r)"

definition capability_sections :: "id \<Rightarrow> string \<Rightarrow> section_entry list \<Rightarrow> psection list" where
  "capability_sections c n es = map (\<lambda>(i, e). capability_section c n (length es) i e) (enumerate 0 es)"

text \<open>The wrapper of a hook: the capability's own storage, broadcasts and configuration.\<close>

definition own_context :: "('w, 's, 'h) capability \<Rightarrow> id option \<Rightarrow> id option \<Rightarrow> config_values \<Rightarrow>
    cap_context \<Rightarrow> cap_context" where
  "own_context c sto bc cfg cx =
     cx\<lparr>cx_storage := sto, cx_broadcast := bc, cx_config := map_option (\<lambda>f. f cfg) (cp_mapping c)\<rparr>"

text \<open>Handlers are registered until one collides, which throws; the message has an em dash.\<close>

fun add_http :: "id \<Rightarrow> id option \<Rightarrow> (string \<times> string \<times> 'h) list \<Rightarrow>
    (string \<times> string \<times> 'h \<times> id \<times> id option) list \<Rightarrow> string + (string \<times> string \<times> 'h \<times> id \<times> id option) list" where
  "add_http c sto [] acc = Inr acc"
| "add_http c sto ((m, p, h) # hs) acc =
     (if m @ '':'' @ p \<in> (\<lambda>(m', p', _). m' @ '':'' @ p') ` set acc
      then Inl (''[capabilities] HTTP handler collision: '' @ m @ '' '' @ p @ '' from capability \"'' @ c @
             ''\" - already registered'')
      else add_http c sto hs (acc @ [(m, p, h, c, sto)]))"


text \<open>
  One turn of the loop over the capabilities. \<open>sto\<close> and \<open>bc\<close> are the scoped storage and
  broadcasts it is given, \<open>cfg\<close> the snapshot at the time of resolving. The wrapper of
  \<open>onConnect\<close> keeps the broadcasts of the context it is called with, the one of \<open>onAction\<close> also
  its configuration.
\<close>

definition resolve_capability :: "cap_context \<Rightarrow> id option \<Rightarrow> id option \<Rightarrow> config_values \<Rightarrow>
    ('w, 's, 'h) capability \<Rightarrow> ('w, 's, 'h) resolved \<Rightarrow> string + ('w, 's, 'h) resolved" where
  "resolve_capability ctx sto bc cfg c r =
     (let own = own_context c sto bc; cx = own cfg ctx
      in case add_http (cp_id c) sto (case cp_http c of None \<Rightarrow> [] | Some g \<Rightarrow> g cx) (rs_http r) of
           Inl e \<Rightarrow> Inl e
         | Inr http \<Rightarrow> Inr
       \<lparr>rs_tools = add_named ti_name (case cp_tools c of None \<Rightarrow> [] | Some g \<Rightarrow> g cx) (rs_tools r),
        rs_commands = add_named fst (case cp_commands c of None \<Rightarrow> [] | Some g \<Rightarrow> g cx) (rs_commands r),
        rs_sections = rs_sections r @
          (case cp_sections c of None \<Rightarrow> [] | Some g \<Rightarrow> capability_sections (cp_id c) (cp_name c) (g cx)),
        rs_mcp = rs_mcp r @ cp_mcp c,
        rs_before_inference = rs_before_inference r @
          (case cp_before_inference c of None \<Rightarrow> [] | Some h \<Rightarrow> [\<lambda>now ms k. h ms (own now k)]),
        rs_before_tool = rs_before_tool r @
          (case cp_before_tool c of None \<Rightarrow> [] | Some h \<Rightarrow> [\<lambda>now e k. h e (own now k)]),
        rs_after_tool = rs_after_tool r @
          (case cp_after_tool c of None \<Rightarrow> [] | Some h \<Rightarrow> [\<lambda>now e k. h e (own now k)]),
        rs_on_connect = rs_on_connect r @
          (case cp_on_connect c of None \<Rightarrow> []
           | Some h \<Rightarrow> [(cp_id c, \<lambda>now k. h (own now k\<lparr>cx_broadcast := cx_broadcast k\<rparr>))]),
        rs_schedules = rs_schedules r @
          (case cp_schedules c of None \<Rightarrow> [] | Some g \<Rightarrow> map (Pair (cp_id c)) (g cx)),
        rs_http = http,
        rs_actions = (case cp_on_action c of None \<Rightarrow> rs_actions r
           | Some h \<Rightarrow> map_set (cp_id c) (\<lambda>a d k. h a d (k\<lparr>cx_storage := sto\<rparr>)) (rs_actions r)),
        rs_disposers = rs_disposers r @ (case cp_dispose c of None \<Rightarrow> [] | Some d \<Rightarrow> [(cp_id c, d)])\<rparr>)"

text \<open>
  \<open>scoped\<close> and \<open>talks\<close> tell whether \<open>createStorage\<close> and \<open>createBroadcastState\<close> are given; without
  them there is no storage, and broadcasts are those of the context.
\<close>

fun resolve_loop :: "cap_context \<Rightarrow> bool \<Rightarrow> bool \<Rightarrow> config_values \<Rightarrow> ('w, 's, 'h) capability list \<Rightarrow>
    ('w, 's, 'h) resolved \<Rightarrow> string + ('w, 's, 'h) resolved" where
  "resolve_loop ctx scoped talks cfg [] r = Inr r"
| "resolve_loop ctx scoped talks cfg (c # cs) r =
     (case resolve_capability ctx (if scoped then Some (cp_id c) else None)
        (if talks then Some (cp_id c) else cx_broadcast ctx) cfg c r of
        Inl e \<Rightarrow> Inl e
      | Inr r' \<Rightarrow> resolve_loop ctx scoped talks cfg cs r')"

definition resolve_capabilities :: "('w, 's, 'h) capability list \<Rightarrow> cap_context \<Rightarrow> bool \<Rightarrow> bool \<Rightarrow> config_values \<Rightarrow>
    string + ('w, 's, 'h) resolved" where
  "resolve_capabilities cs ctx scoped talks cfg = resolve_loop ctx scoped talks cfg cs nothing_resolved"

section \<open>Modes\<close>

text \<open>
  A filter by names; \<open>allow\<close> and \<open>deny\<close> may be absent. The prompt of a mode may be a text or a
  function of the context (and of the base prompt).
\<close>

record name_filter =
  nf_allow :: "string list option"
  nf_deny :: "string list option"

record run_mode =
  md_id :: id
  md_name :: string
  md_description :: string
  md_capabilities :: "name_filter option"
  md_tools :: "name_filter option"
  md_append :: "(string + (cap_context \<Rightarrow> string)) option"
  md_override :: "(string + (string \<Rightarrow> cap_context \<Rightarrow> string)) option"

definition listed :: "string list option \<Rightarrow> bool" where
  "listed xs \<longleftrightarrow> (case xs of Some (_ # _) \<Rightarrow> True | _ \<Rightarrow> False)"

definition filter_conflict :: "name_filter option \<Rightarrow> bool" where
  "filter_conflict f \<longleftrightarrow> (case f of None \<Rightarrow> False | Some g \<Rightarrow> listed (nf_allow g) \<and> listed (nf_deny g))"

definition define_mode :: "run_mode \<Rightarrow> string + run_mode" where
  "define_mode m =
     (let msg = (\<lambda>f. ''defineMode: `'' @ f @ ''` filter cannot specify both `allow` and `deny`. Choose one.'')
      in if filter_conflict (md_capabilities m) then Inl (msg ''capabilities'')
         else if filter_conflict (md_tools m) then Inl (msg ''tools'') else Inr m)"

definition filter_tools :: "tool_info list \<Rightarrow> run_mode \<Rightarrow> tool_info list" where
  "filter_tools ts m =
     (case md_tools m of
        None \<Rightarrow> ts
      | Some f \<Rightarrow>
          if listed (nf_allow f) then filter (\<lambda>t. ti_name t \<in> set (the (nf_allow f))) ts
          else if listed (nf_deny f) then filter (\<lambda>t. ti_name t \<notin> set (the (nf_deny f))) ts
          else ts)"

definition dead_capabilities :: "id list \<Rightarrow> name_filter \<Rightarrow> id set" where
  "dead_capabilities ids f =
     (if listed (nf_allow f) then set ids - set (the (nf_allow f))
      else if listed (nf_deny f) then set (the (nf_deny f)) else {})"

definition exclude_sections :: "psection list \<Rightarrow> id set \<Rightarrow> id \<Rightarrow> psection list" where
  "exclude_sections ss dead m = map (\<lambda>s.
     case sec_source s of
       From_Capability c _ \<Rightarrow>
         if sec_included s \<and> c \<in> dead
         then s\<lparr>sec_content := [], sec_lines := 0, sec_tokens := 0, sec_included := False,
                sec_reason := Some (''Filtered by mode: '' @ m)\<rparr>
         else s
     | _ \<Rightarrow> s) ss"

definition section_capabilities :: "psection list \<Rightarrow> id list" where
  "section_capabilities ss =
     List.map_filter (\<lambda>s. case sec_source s of From_Capability c _ \<Rightarrow> Some c | _ \<Rightarrow> None) ss"

definition filter_tools_and_sections :: "tool_info list \<Rightarrow> psection list \<Rightarrow> run_mode option \<Rightarrow>
    tool_info list \<times> psection list" where
  "filter_tools_and_sections ts ss active =
     (case active of
        None \<Rightarrow> (ts, ss)
      | Some m \<Rightarrow> (filter_tools ts m,
          exclude_sections ss
            (case md_capabilities m of None \<Rightarrow> {} | Some f \<Rightarrow> dead_capabilities (section_capabilities ss) f)
            (md_id m)))"

record applied_mode =
  ap_tools :: "tool_info list"
  ap_sections :: "psection list"
  ap_append :: "string option"
  ap_override :: "(string \<Rightarrow> string) option"

definition offered_tools :: "cap_context \<Rightarrow> ('w, 's, 'h) capability \<Rightarrow> tool_info list" where
  "offered_tools ctx c = (case cp_tools c of None \<Rightarrow> [] | Some g \<Rightarrow> g ctx)"

definition config_tool_names :: "string list" where
  "config_tool_names = [''config_set'', ''config_get'', ''config_schema'']"

text \<open>A capability whose tools are all gone, or whose settings can no longer be changed.\<close>

definition muted :: "cap_context \<Rightarrow> tool_info list \<Rightarrow> ('w, 's, 'h) capability \<Rightarrow> bool" where
  "muted ctx ts c =
     (let alive = ti_name ` set ts; own = offered_tools ctx c
      in (own \<noteq> [] \<and> \<not> list_ex (\<lambda>t. ti_name t \<in> alive) own) \<or>
         (cp_tools c = None \<and> cp_namespaces c \<and> \<not> list_ex (\<lambda>n. n \<in> alive) config_tool_names))"

definition dead_by_mode :: "('w, 's, 'h) capability list \<Rightarrow> run_mode \<Rightarrow> id set" where
  "dead_by_mode cs m =
     (case md_capabilities m of None \<Rightarrow> {} | Some f \<Rightarrow> dead_capabilities (map cp_id cs) f)"

definition apply_mode :: "('w, 's, 'h) resolved \<Rightarrow> ('w, 's, 'h) capability list \<Rightarrow> tool_info list \<Rightarrow>
    run_mode option \<Rightarrow> cap_context \<Rightarrow> applied_mode" where
  "apply_mode r cs ts active ctx =
     (case active of
        None \<Rightarrow> \<lparr>ap_tools = ts, ap_sections = rs_sections r, ap_append = None, ap_override = None\<rparr>
      | Some m \<Rightarrow>
          (let dead = dead_by_mode cs m;
               gone = (\<Union>c \<in> {c \<in> set cs. cp_id c \<in> dead}. ti_name ` set (offered_tools ctx c));
               (ts2, ss2) = filter_tools_and_sections (filter (\<lambda>t. ti_name t \<notin> gone) ts) (rs_sections r) (Some m);
               mute = cp_id ` {c \<in> set cs. cp_id c \<notin> dead \<and> muted ctx ts2 c}
           in \<lparr>ap_tools = ts2, ap_sections = exclude_sections ss2 mute (md_id m),
               ap_append = map_option (\<lambda>a. case a of Inl t \<Rightarrow> t | Inr f \<Rightarrow> f ctx) (md_append m),
               ap_override = map_option (\<lambda>a. case a of Inl t \<Rightarrow> (\<lambda>_. t) | Inr f \<Rightarrow> (\<lambda>b. f b ctx)) (md_override m)\<rparr>))"


section \<open>The tools and the prompt of a turn\<close>

text \<open>
  What the agent itself supplies: its tools, the configuration tools with their descriptions,
  the tools for calling other agents, its modes, and the sections and text of its prompt.
\<close>

record surface =
  sf_tools :: "cap_context \<Rightarrow> tool_info list"
  sf_config_tools :: "tool_info list"
  sf_a2a_tools :: "id \<Rightarrow> tool_info list"
  sf_modes :: "run_mode list"
  sf_sections :: "cap_context \<Rightarrow> psection list"
  sf_prompt :: "cap_context \<Rightarrow> string"

definition enter_mode_tool :: tool_info where
  "enter_mode_tool = \<lparr>ti_name = ''enter_mode'',
     ti_description = ''Enter a named mode. Filters your tool surface and adjusts the system prompt '' @
       ''according to the mode's configuration. Mirrors the user-facing `/mode <id>` command.'',
     ti_guidance = None\<rparr>"

definition exit_mode_tool :: tool_info where
  "exit_mode_tool = \<lparr>ti_name = ''exit_mode'',
     ti_description = ''Exit the active mode and restore the default tool surface and system prompt. '' @
       ''No-op when no mode is active.'', ti_guidance = None\<rparr>"

definition collect_all_tools :: "surface \<Rightarrow> cap_context \<Rightarrow> ('w, 's, 'h) resolved \<Rightarrow> tool_info list" where
  "collect_all_tools S ctx r =
     sf_tools S ctx @ sf_config_tools S @ sf_a2a_tools S (cx_session ctx) @
     (if sf_modes S \<noteq> [] then [enter_mode_tool, exit_mode_tool] else []) @ rs_tools r"

definition resolve_base_sections :: "surface \<Rightarrow> cap_context \<Rightarrow> psection list" where
  "resolve_base_sections S ctx =
     (let ss = sf_sections S ctx; t = sf_prompt S ctx
      in if t \<noteq> to_prompt_string ss then [make_section ''System Prompt'' ''custom'' t From_Custom] else ss)"

definition assemble_all_sections :: "surface \<Rightarrow> cap_context \<Rightarrow> ('w, 's, 'h) capability list \<Rightarrow>
    ('w, 's, 'h) resolved \<Rightarrow> run_mode option \<Rightarrow> psection list" where
  "assemble_all_sections S ctx cs r active =
     (let b = resolve_base_sections S ctx;
          ap = apply_mode r cs (collect_all_tools S ctx r) active ctx;
          front = (case (active, ap_override ap) of
              (Some m, Some f) \<Rightarrow> [make_section ''System Prompt (mode override)'' (''mode-override-'' @ md_id m)
                 (f (to_prompt_string b)) From_Custom]
            | _ \<Rightarrow> b);
          rear = (if truthy (ap_append ap)
             then [make_section (''Mode: '' @ (case active of Some m \<Rightarrow> md_name m | None \<Rightarrow> []))
                     (''mode-append-'' @ (case active of Some m \<Rightarrow> md_id m | None \<Rightarrow> ''unknown''))
                     (the (ap_append ap)) From_Custom]
             else [])
      in front @ tool_sections (ap_tools ap) @ ap_sections ap @ rear)"

definition active_mode_of :: "run_mode list \<Rightarrow> store \<Rightarrow> id \<Rightarrow> run_mode option" where
  "active_mode_of ms d s =
     (let i = read_active_mode_id d s in if truthy i then find (\<lambda>m. md_id m = the i) ms else None)"

text \<open>What \<open>ensureAgent\<close> gives the agent of a session: the system prompt and the tools.\<close>

definition ensure_agent :: "surface \<Rightarrow> ('w, 's, 'h) capability list \<Rightarrow> config_values \<Rightarrow> store \<Rightarrow> id \<Rightarrow>
    string + string \<times> tool_info list" where
  "ensure_agent S cs cfg d s =
     (let ctx = \<lparr>cx_session = s, cx_storage = None, cx_broadcast = None, cx_config = None\<rparr>
      in case resolve_capabilities cs ctx True True cfg of
           Inl e \<Rightarrow> Inl e
         | Inr r \<Rightarrow>
             (let active = active_mode_of (sf_modes S) d s
              in Inr (to_prompt_string (assemble_all_sections S ctx cs r active),
                      ap_tools (apply_mode r cs (collect_all_tools S ctx r) active ctx))))"

text \<open>The inspection of the prompt, without a session.\<close>

definition inspect_sections :: "surface \<Rightarrow> ('w, 's, 'h) capability list \<Rightarrow> config_values \<Rightarrow> run_mode option \<Rightarrow>
    string + psection list" where
  "inspect_sections S cs cfg active =
     (let ctx = \<lparr>cx_session = ''__inspection__'', cx_storage = None, cx_broadcast = None, cx_config = None\<rparr>
      in map_sum id (\<lambda>r. assemble_all_sections S ctx cs r active) (resolve_capabilities cs ctx False False cfg))"

section \<open>Running hooks\<close>

definition hook_context :: "id \<Rightarrow> cap_context" where
  "hook_context s = \<lparr>cx_session = s, cx_storage = None, cx_broadcast = None, cx_config = None\<rparr>"

fun transform_context :: "(config_values \<Rightarrow> agent_message list \<Rightarrow> (agent_message list, 'w) hook_run) list \<Rightarrow>
    config_values \<Rightarrow> id \<Rightarrow> agent_message list \<Rightarrow> 'w \<Rightarrow> agent_message list \<times> 'w" where
  "transform_context [] cfg s ms w = (ms, w)"
| "transform_context (h # hs) cfg s ms w =
     (case h cfg ms (hook_context s) w of
        (Inl _, w1) \<Rightarrow> transform_context hs cfg s ms w1
      | (Inr ms1, w1) \<Rightarrow> transform_context hs cfg s ms1 w1)"

text \<open>The first hook that blocks decides; \<open>None\<close>: the tool runs.\<close>

fun before_tool_call :: "(config_values \<Rightarrow> string \<times> json \<times> id \<Rightarrow> ((bool \<times> string option) option, 'w) hook_run) list \<Rightarrow>
    config_values \<Rightarrow> id \<Rightarrow> string \<times> json \<times> id \<Rightarrow> 'w \<Rightarrow> string option option \<times> 'w" where
  "before_tool_call [] cfg s e w = (None, w)"
| "before_tool_call (h # hs) cfg s e w =
     (case h cfg e (hook_context s) w of
        (Inr (Some (True, reason)), w1) \<Rightarrow> (Some reason, w1)
      | (_, w1) \<Rightarrow> before_tool_call hs cfg s e w1)"

fun after_tool_call :: "(config_values \<Rightarrow> string \<times> json \<times> bool \<Rightarrow> (unit, 'w) hook_run) list \<Rightarrow>
    config_values \<Rightarrow> id \<Rightarrow> string \<times> json \<times> bool \<Rightarrow> 'w \<Rightarrow> 'w" where
  "after_tool_call [] cfg s e w = w"
| "after_tool_call (h # hs) cfg s e w = after_tool_call hs cfg s e (snd (h cfg e (hook_context s) w))"

fun fire_on_connect :: "(id \<times> (config_values \<Rightarrow> (unit, 'w) hook_run)) list \<Rightarrow> config_values \<Rightarrow> id \<Rightarrow> 'w \<Rightarrow> 'w" where
  "fire_on_connect [] cfg s w = w"
| "fire_on_connect ((c, h) # hs) cfg s w =
     fire_on_connect hs cfg s (snd (h cfg ((hook_context s)\<lparr>cx_broadcast := Some c\<rparr>) w))"

definition final_block_text :: "json \<Rightarrow> string" where
  "final_block_text b = (case (member b ''type'', member b ''text'') of
     (Some (JStr ty), Some (JStr t)) \<Rightarrow> if ty = ''text'' then t else []
   | _ \<Rightarrow> [])"

definition extract_final_text :: "agent_message list \<Rightarrow> string" where
  "extract_final_text ms =
     (case find (\<lambda>m. am_role m = Assistant) (rev ms) of
        None \<Rightarrow> []
      | Some m \<Rightarrow> (case am_content m of JStr t \<Rightarrow> t | JArr bs \<Rightarrow> concat (map final_block_text bs) | _ \<Rightarrow> []))"

fun dispatch_after_turn :: "('w, 's, 'h) capability list \<Rightarrow> id \<Rightarrow> string \<Rightarrow> 'w \<Rightarrow> 'w" where
  "dispatch_after_turn [] s t w = w"
| "dispatch_after_turn (c # cs) s t w =
     dispatch_after_turn cs s t
       (case cp_after_turn c of
          None \<Rightarrow> w
        | Some h \<Rightarrow> snd (h t ((hook_context s)\<lparr>cx_storage := Some (cp_id c), cx_broadcast := Some (cp_id c)\<rparr>) w))"

section \<open>HTTP handlers of capabilities\<close>

text \<open>
  \<open>decodeURIComponent\<close> for text whose characters are below 256: a percent sequence is a UTF-8
  byte, and two of them make a character from 128 on. \<open>None\<close> is the error it throws (and
  stands for the characters above 255, which are outside the model).
\<close>

fun percent_byte :: "string \<Rightarrow> (nat \<times> string) option" where
  "percent_byte (p # a # b # rest) =
     (if p = CHR 0x25
      then (case (hex_value a, hex_value b) of (Some x, Some y) \<Rightarrow> Some (16 * x + y, rest) | _ \<Rightarrow> None)
      else None)"
| "percent_byte _ = None"

lemma percent_byte_shorter: "percent_byte t = Some (n, rest) \<Longrightarrow> length rest < length t"
  by (induction t rule: percent_byte.induct) (auto split: if_splits option.splits)

function decode_uri :: "string \<Rightarrow> string option" where
  "decode_uri t =
     (case t of
        [] \<Rightarrow> Some []
      | c # cs \<Rightarrow>
          if c \<noteq> CHR 0x25 then map_option ((#) c) (decode_uri cs)
          else (case percent_byte t of
              None \<Rightarrow> None
            | Some (n, rest) \<Rightarrow>
                if n < 128 then map_option ((#) (char_of n)) (decode_uri rest)
                else if n = 0xC2 \<or> n = 0xC3
                then (case percent_byte rest of
                    None \<Rightarrow> None
                  | Some (m, rest') \<Rightarrow>
                      if 0x80 \<le> m \<and> m < 0xC0
                      then map_option ((#) (char_of ((n - 0xC0) * 64 + (m - 0x80)))) (decode_uri rest')
                      else None)
                else None))"
  by pat_completeness auto
termination
proof (relation "measure length", goal_cases)
  case (3 t c cs x n rest) then show ?case using percent_byte_shorter [of t n rest] by simp
next
  case (4 t c cs x n rest y m rest')
  then show ?case using percent_byte_shorter [of t n rest] percent_byte_shorter [of rest m rest'] by simp
qed simp_all

declare decode_uri.simps [simp del]

text \<open>\<open>Inl\<close>: a segment cannot be decoded; \<open>Inr None\<close>: no match.\<close>

fun match_segments :: "string list \<Rightarrow> string list \<Rightarrow> (string \<times> string) list \<Rightarrow>
    string + (string \<times> string) list option" where
  "match_segments (p # ps) (v # vs) acc =
     (if starts_with p '':''
      then if v = [] then Inr None
           else (case decode_uri v of
                   None \<Rightarrow> Inl ''URI malformed''
                 | Some u \<Rightarrow> match_segments ps vs (map_set (tl p) u acc))
      else if p \<noteq> v then Inr None else match_segments ps vs acc)"
| "match_segments _ _ acc = Inr (Some acc)"

definition match_path_pattern :: "string \<Rightarrow> string \<Rightarrow> string + (string \<times> string) list option" where
  "match_path_pattern pattern path =
     (let ps = split_on CHR ''/'' pattern; vs = split_on CHR ''/'' path
      in if length ps \<noteq> length vs then Inr None else match_segments ps vs [])"

text \<open>The handler of a request: method and path, with the capability, its storage and the parameters.\<close>

fun match_http_handler :: "(string \<times> string \<times> 'h \<times> id \<times> id option) list \<Rightarrow> string \<Rightarrow> string \<Rightarrow>
    string + ('h \<times> id \<times> id option \<times> (string \<times> string) list) option" where
  "match_http_handler [] meth path = Inr None"
| "match_http_handler ((m, p, h, c, sto) # hs) meth path =
     (if m \<noteq> meth then match_http_handler hs meth path
      else (case match_path_pattern p path of
              Inl e \<Rightarrow> Inl e
            | Inr None \<Rightarrow> match_http_handler hs meth path
            | Inr (Some ps) \<Rightarrow> Inr (Some (h, c, sto, ps))))"


section \<open>Changing the mode of a session\<close>

definition enter_mode_on_session :: "'cb sync_env \<Rightarrow> run_mode list \<Rightarrow> id \<Rightarrow> id \<Rightarrow> 'cb chat_server \<Rightarrow>
    (run_mode, 'cb) served" where
  "enter_mode_on_session E ms s i sv =
     (case find (\<lambda>m. md_id m = i) ms of
        None \<Rightarrow> (Inl (Thrown (''Unknown mode: '' @ i)), sv)
      | Some m \<Rightarrow>
          (case append_in E s (Mode_Enter (md_id m)) sv of
             (Inl e, sv1) \<Rightarrow> (Inl e, sv1)
           | (Inr _, sv1) \<Rightarrow> (Inr m, broadcast_to_session s (Mode_Event s True (md_id m) (md_name m)) sv1)))"

definition exit_mode_on_session :: "'cb sync_env \<Rightarrow> run_mode list \<Rightarrow> id \<Rightarrow> 'cb chat_server \<Rightarrow>
    (run_mode option, 'cb) served" where
  "exit_mode_on_session E ms s sv =
     (let i = read_active_mode_id (rt_store (sv_runtime sv)) s; m = find (\<lambda>m. md_id m = the i) ms
      in if \<not> truthy i then (Inr None, sv)
         else (case append_in E s (Mode_Exit (the i)) sv of
             (Inl e, sv1) \<Rightarrow> (Inl e, sv1)
           | (Inr _, sv1) \<Rightarrow> (Inr m, case m of
                 Some m' \<Rightarrow> broadcast_to_session s (Mode_Event s False (md_id m') (md_name m')) sv1
               | None \<Rightarrow> sv1)))"

definition mode_label :: "run_mode \<Rightarrow> string" where
  "mode_label m = md_name m @ '' ('' @ md_id m @ '').''"

definition mode_lines :: "string \<Rightarrow> string \<Rightarrow> run_mode list \<Rightarrow> string" where
  "mode_lines before between ms = join [newline] (map (\<lambda>m. before @ md_id m @ between @ md_description m) ms)"

text \<open>
  The command \<open>/mode\<close>, with the text of its result, and the tools \<open>enter_mode\<close> and
  \<open>exit_mode\<close>, whose result may be an error. The list of the command has em dashes.
\<close>

definition run_mode_command :: "'cb sync_env \<Rightarrow> run_mode list \<Rightarrow> json \<Rightarrow> id \<Rightarrow> 'cb chat_server \<Rightarrow>
    (string, 'cb) served" where
  "run_mode_command E ms arg s sv =
     (let t = trim (case member arg ''_raw'' of Some (JStr r) \<Rightarrow> r | _ \<Rightarrow> [])
      in if t = []
         then (case active_mode_of ms (rt_store (sv_runtime sv)) s of
                 None \<Rightarrow> (Inr ''No mode is active.'', sv)
               | Some m \<Rightarrow> (case exit_mode_on_session E ms s sv of
                     (Inl e, sv1) \<Rightarrow> (Inl e, sv1)
                   | (Inr _, sv1) \<Rightarrow> (Inr (''Exited mode: '' @ mode_label m), sv1)))
         else (case find (\<lambda>m. md_id m = t) ms of
                 None \<Rightarrow> (Inr (''Unknown mode \"'' @ t @ ''\". Available:'' @ [newline] @ mode_lines ''  /mode '' '' - '' ms), sv)
               | Some m \<Rightarrow> (case enter_mode_on_session E ms s (md_id m) sv of
                     (Inl e, sv1) \<Rightarrow> (Inl e, sv1)
                   | (Inr _, sv1) \<Rightarrow> (Inr (''Entered mode: '' @ mode_label m), sv1))))"

definition run_enter_mode :: "'cb sync_env \<Rightarrow> run_mode list \<Rightarrow> id \<Rightarrow> id \<Rightarrow> 'cb chat_server \<Rightarrow>
    (string + string, 'cb) served" where
  "run_enter_mode E ms s i sv =
     (case find (\<lambda>m. md_id m = i) ms of
        None \<Rightarrow> (Inr (Inl (''Unknown mode \"'' @ i @ ''\". Available:'' @ [newline] @ mode_lines ''- '' '': '' ms)), sv)
      | Some m \<Rightarrow> (case enter_mode_on_session E ms s (md_id m) sv of
            (Inl e, sv1) \<Rightarrow> (Inl e, sv1)
          | (Inr _, sv1) \<Rightarrow> (Inr (Inr (''Entered mode: '' @ mode_label m)), sv1)))"

definition run_exit_mode :: "'cb sync_env \<Rightarrow> run_mode list \<Rightarrow> id \<Rightarrow> 'cb chat_server \<Rightarrow>
    (string + string, 'cb) served" where
  "run_exit_mode E ms s sv =
     (case active_mode_of ms (rt_store (sv_runtime sv)) s of
        None \<Rightarrow> (Inr (Inr ''No mode is active.''), sv)
      | Some m \<Rightarrow> (case exit_mode_on_session E ms s sv of
            (Inl e, sv1) \<Rightarrow> (Inl e, sv1)
          | (Inr _, sv1) \<Rightarrow> (Inr (Inr (''Exited mode: '' @ mode_label m)), sv1)))"

text \<open>\<open>resolveActiveMode\<close>: the most recent mode change of the log decides.\<close>

definition resolve_active_mode :: "store \<Rightarrow> id \<Rightarrow> run_mode list \<Rightarrow> run_mode option option" where
  "resolve_active_mode d s ms =
     (case get_session d s of
        None \<Rightarrow> Some None
      | Some r \<Rightarrow>
          if \<not> truthy (sleaf r) then Some None
          else map_option (\<lambda>up. case find (\<lambda>e. case edata e of Mode_Enter _ \<Rightarrow> True | Mode_Exit _ \<Rightarrow> True | _ \<Rightarrow> False) up of
                   Some e \<Rightarrow> (case edata e of Mode_Enter i \<Rightarrow> find (\<lambda>m. md_id m = i) ms | _ \<Rightarrow> None)
                 | None \<Rightarrow> None)
               (path_up (get_entries d s) (the (sleaf r))))"

section \<open>What is resolved\<close>

lemma add_named_keys: "distinct (map key acc) \<Longrightarrow> distinct (map key (add_named key xs acc))"
proof (induction xs arbitrary: acc)
  case (Cons x xs)
  then show ?case unfolding add_named_def by (auto simp: image_iff)
qed (simp add: add_named_def)

lemma add_named_prefix: "\<exists>ys. add_named key xs acc = acc @ ys \<and> set ys \<subseteq> set xs"
proof (induction xs arbitrary: acc)
  case (Cons x xs)
  show ?case using Cons [of acc] Cons [of "acc @ [x]"] unfolding add_named_def by (auto split: if_splits)
qed (simp add: add_named_def)

text \<open>The first one offered is kept: looking up a name finds it in the concatenation.\<close>

lemma add_named_find:
  "find (\<lambda>x. key x = k) (add_named key xs acc) = find (\<lambda>x. key x = k) (acc @ xs)"
proof (induction xs arbitrary: acc)
  case (Cons x xs)
  have find_append: "find P (us @ vs) = (case find P us of None \<Rightarrow> find P vs | Some u \<Rightarrow> Some u)" for P us and vs :: "'a list"
    by (induction us) auto
  show ?case
  proof (cases "key x \<in> key ` set acc")
    case True
    then have "key x = k \<Longrightarrow> find (\<lambda>x. key x = k) acc \<noteq> None" by (auto simp: find_None_iff)
    with Cons [of acc] True show ?thesis by (auto simp: add_named_def find_append split: option.split)
  next
    case False
    with Cons [of "acc @ [x]"] show ?thesis by (simp add: add_named_def)
  qed
qed (simp add: add_named_def)

lemma add_http_keys:
  assumes "add_http c sto hs acc = Inr acc'"
    and "distinct (map (\<lambda>(m, p, _). m @ '':'' @ p) acc)"
  shows "distinct (map (\<lambda>(m, p, _). m @ '':'' @ p) acc')"
  using assms by (induction c sto hs acc rule: add_http.induct) (force split: if_splits)+

lemma add_http_shape:
  "add_http c sto hs acc = Inr acc' \<Longrightarrow> acc' = acc @ map (\<lambda>(m, p, h). (m, p, h, c, sto)) hs"
  by (induction c sto hs acc rule: add_http.induct) (auto split: if_splits)

definition capability_context :: "('w, 's, 'h) capability \<Rightarrow> cap_context \<Rightarrow> bool \<Rightarrow> bool \<Rightarrow> config_values \<Rightarrow> cap_context" where
  "capability_context c ctx scoped talks cfg =
     own_context c (if scoped then Some (cp_id c) else None)
       (if talks then Some (cp_id c) else cx_broadcast ctx) cfg ctx"

definition offered_handlers :: "('w, 's, 'h) capability \<Rightarrow> cap_context \<Rightarrow> (string \<times> string \<times> 'h) list" where
  "offered_handlers c cx = (case cp_http c of None \<Rightarrow> [] | Some g \<Rightarrow> g cx)"

definition offered_sections :: "('w, 's, 'h) capability \<Rightarrow> cap_context \<Rightarrow> psection list" where
  "offered_sections c cx =
     (case cp_sections c of None \<Rightarrow> [] | Some g \<Rightarrow> capability_sections (cp_id c) (cp_name c) (g cx))"

definition offered_commands :: "('w, 's, 'h) capability \<Rightarrow> cap_context \<Rightarrow> (string \<times> string) list" where
  "offered_commands c cx = (case cp_commands c of None \<Rightarrow> [] | Some g \<Rightarrow> g cx)"

lemmas offered_defs = offered_tools_def offered_handlers_def offered_sections_def offered_commands_def

text \<open>One capability: what is added to the lists the lemmas below speak of.\<close>

lemma resolve_capability_adds:
  assumes "resolve_capability ctx sto bc cfg c r = Inr r'"
  shows "rs_tools r' = add_named ti_name (offered_tools (own_context c sto bc cfg ctx) c) (rs_tools r)"
    and "rs_commands r' = add_named fst (offered_commands c (own_context c sto bc cfg ctx)) (rs_commands r)"
    and "rs_sections r' = rs_sections r @ offered_sections c (own_context c sto bc cfg ctx)"
    and "add_http (cp_id c) sto (offered_handlers c (own_context c sto bc cfg ctx)) (rs_http r) = Inr (rs_http r')"
  using assms by (auto simp: resolve_capability_def Let_def offered_defs split: sum.splits)

abbreviation route_keys :: "(string \<times> string \<times> 'h \<times> id \<times> id option) list \<Rightarrow> string list" where
  "route_keys hs \<equiv> map (\<lambda>(m, p, _). m @ '':'' @ p) hs"

lemma find_append: "find P (us @ vs) = (case find P us of None \<Rightarrow> find P vs | Some u \<Rightarrow> Some u)"
  by (induction us) auto

lemma resolve_loop_adds:
  "resolve_loop ctx scoped talks cfg cs r = Inr r' \<Longrightarrow>
    rs_sections r' = rs_sections r @
      concat (map (\<lambda>c. offered_sections c (capability_context c ctx scoped talks cfg)) cs) \<and>
    find (\<lambda>t. ti_name t = n) (rs_tools r') = find (\<lambda>t. ti_name t = n) (rs_tools r @
      concat (map (\<lambda>c. offered_tools (capability_context c ctx scoped talks cfg) c) cs)) \<and>
    (distinct (map ti_name (rs_tools r)) \<longrightarrow> distinct (map ti_name (rs_tools r'))) \<and>
    (distinct (map fst (rs_commands r)) \<longrightarrow> distinct (map fst (rs_commands r'))) \<and>
    (distinct (route_keys (rs_http r)) \<longrightarrow> distinct (route_keys (rs_http r'))) \<and>
    rs_http r' = rs_http r @ concat (map (\<lambda>c. map (\<lambda>(m, p, h). (m, p, h, cp_id c,
        if scoped then Some (cp_id c) else None)) (offered_handlers c (capability_context c ctx scoped talks cfg))) cs)"
proof (induction ctx scoped talks cfg cs r rule: resolve_loop.induct)
  case (2 ctx scoped talks cfg c cs r)
  let ?cx = "capability_context c ctx scoped talks cfg"
  obtain r1 where r1: "resolve_capability ctx (if scoped then Some (cp_id c) else None)
      (if talks then Some (cp_id c) else cx_broadcast ctx) cfg c r = Inr r1"
    "resolve_loop ctx scoped talks cfg cs r1 = Inr r'"
    using "2.prems" by (simp split: sum.splits)
  note adds = resolve_capability_adds [OF r1(1), folded capability_context_def]
  have keeps: "distinct (map ti_name (rs_tools r)) \<Longrightarrow> distinct (map ti_name (rs_tools r1))"
    "distinct (map fst (rs_commands r)) \<Longrightarrow> distinct (map fst (rs_commands r1))"
    "distinct (route_keys (rs_http r)) \<Longrightarrow> distinct (route_keys (rs_http r1))"
    using adds(1,2) add_named_keys [of ti_name] add_named_keys [of fst] add_http_keys [OF adds(4)] by (simp_all only:)
  have named: "find (\<lambda>t. ti_name t = n) (rs_tools r1) = find (\<lambda>t. ti_name t = n) (rs_tools r @ offered_tools ?cx c)"
    by (simp only: adds(1) add_named_find)
  note IH = "2.IH" [OF r1]
  show ?case
  proof (intro conjI)
    show "rs_http r' = rs_http r @ concat (map (\<lambda>c. map (\<lambda>(m, p, h). (m, p, h, cp_id c,
        if scoped then Some (cp_id c) else None)) (offered_handlers c (capability_context c ctx scoped talks cfg))) (c # cs))"
      using IH add_http_shape [OF adds(4)] by simp
    show "find (\<lambda>t. ti_name t = n) (rs_tools r') = find (\<lambda>t. ti_name t = n) (rs_tools r @
      concat (map (\<lambda>c. offered_tools (capability_context c ctx scoped talks cfg) c) (c # cs)))"
      using IH named by (simp add: find_append split: option.splits)
    show "rs_sections r' = rs_sections r @
        concat (map (\<lambda>c. offered_sections c (capability_context c ctx scoped talks cfg)) (c # cs))"
      using IH adds(3) by simp
  qed (use IH keeps in blast)+
qed simp

text \<open>Resolving keeps the first of each name. When capabilities resolve, every tool and every
  command has a name of its own, a name stands for the first tool of that name in the order of
  the capabilities, and every HTTP handler they offer is registered, under a method and path no
  other handler has, with the storage of its own capability.\<close>

theorem resolving_keeps_first:
  assumes "resolve_capabilities cs ctx True talks cfg = Inr r"
  shows "distinct (map ti_name (rs_tools r)) \<and> distinct (map fst (rs_commands r)) \<and>
    find (\<lambda>t. ti_name t = n) (rs_tools r) =
      find (\<lambda>t. ti_name t = n) (concat (map (\<lambda>c. offered_tools (capability_context c ctx True talks cfg) c) cs)) \<and>
    distinct (map (\<lambda>(m, p, _). m @ '':'' @ p) (rs_http r)) \<and>
    rs_http r = concat (map (\<lambda>c. map (\<lambda>(m, p, h). (m, p, h, cp_id c, Some (cp_id c)))
      (offered_handlers c (capability_context c ctx True talks cfg))) cs)"
proof -
  note all = resolve_loop_adds [OF assms [unfolded resolve_capabilities_def], of n]
  have base: "distinct (map ti_name (rs_tools nothing_resolved))" "distinct (map fst (rs_commands nothing_resolved))"
    "distinct (route_keys (rs_http nothing_resolved))" by (simp_all add: nothing_resolved_def)
  have names: "distinct (map ti_name (rs_tools r))" "distinct (map fst (rs_commands r))" "distinct (route_keys (rs_http r))"
    using all base by blast+
  have "rs_http r = concat (map (\<lambda>c. map (\<lambda>(m, p, h). (m, p, h, cp_id c, Some (cp_id c)))
      (offered_handlers c (capability_context c ctx True talks cfg))) cs)"
    "find (\<lambda>t. ti_name t = n) (rs_tools r) =
      find (\<lambda>t. ti_name t = n) (concat (map (\<lambda>c. offered_tools (capability_context c ctx True talks cfg) c) cs))"
    using all by (simp_all add: nothing_resolved_def)
  with names show ?thesis by blast
qed

section \<open>What a mode lets through\<close>

definition permits :: "name_filter option \<Rightarrow> string \<Rightarrow> bool" where
  "permits f n \<longleftrightarrow>
     (case f of
        None \<Rightarrow> True
      | Some g \<Rightarrow>
          if listed (nf_allow g) then n \<in> set (the (nf_allow g))
          else if listed (nf_deny g) then n \<notin> set (the (nf_deny g)) else True)"

lemma filter_tools_permits: "filter_tools ts m = filter (\<lambda>t. permits (md_tools m) (ti_name t)) ts"
  by (auto simp: filter_tools_def permits_def split: option.split)

lemma dead_iff_not_permitted:
  "c \<in> set ids \<Longrightarrow> c \<in> dead_capabilities ids f \<longleftrightarrow> \<not> permits (Some f) c"
  by (simp add: dead_capabilities_def permits_def)

lemma exclude_sections_ok: "list_all section_ok ss \<Longrightarrow> list_all section_ok (exclude_sections ss dead m)"
  by (induction ss) (auto simp: exclude_sections_def section_ok_def split: section_source.split)

lemma exclude_sections_source [simp]: "map sec_source (exclude_sections ss dead m) = map sec_source ss"
  by (induction ss) (auto simp: exclude_sections_def split: section_source.split)

text \<open>An included section of the result was there, and its capability is not dead.\<close>

lemma excluded_sectionD:
  assumes "x \<in> set (exclude_sections ss dead m)" "sec_included x"
  shows "x \<in> set ss \<and> (\<forall>c n. sec_source x = From_Capability c n \<longrightarrow> c \<notin> dead)"
  using assms by (auto simp: exclude_sections_def split: section_source.splits if_splits)

definition source_permitted :: "name_filter option \<Rightarrow> psection \<Rightarrow> bool" where
  "source_permitted f x = (case sec_source x of From_Capability c _ \<Rightarrow> permits f c | _ \<Rightarrow> True)"

lemma mode_tools: "ap_tools (apply_mode r cs ts (Some m) ctx) =
    filter (\<lambda>t. ti_name t \<notin> (\<Union>c \<in> {c \<in> set cs. \<not> permits (md_capabilities m) (cp_id c)}.
      ti_name ` set (offered_tools ctx c)) \<and> permits (md_tools m) (ti_name t)) ts"
proof -
  have "cp_id c \<in> dead_by_mode cs m \<longleftrightarrow> \<not> permits (md_capabilities m) (cp_id c)" if "c \<in> set cs" for c
    using that dead_iff_not_permitted [of "cp_id c" "map cp_id cs"]
    by (simp add: dead_by_mode_def permits_def split: option.split)
  then have dead: "{c \<in> set cs. cp_id c \<in> dead_by_mode cs m} = {c \<in> set cs. \<not> permits (md_capabilities m) (cp_id c)}"
    by blast
  show ?thesis
    unfolding apply_mode_def Let_def filter_tools_and_sections_def filter_tools_permits option.case prod.case
      applied_mode.simps dead filter_filter ..
qed

lemma mode_sections:
  assumes "x \<in> set (ap_sections (apply_mode r cs ts (Some m) ctx))" "sec_included x"
  shows "x \<in> set (rs_sections r) \<and> source_permitted (md_capabilities m) x"
proof -
  obtain dead dead2 where x: "x \<in> set (exclude_sections (exclude_sections (rs_sections r) dead (md_id m)) dead2 (md_id m))"
    and dead: "dead = (case md_capabilities m of None \<Rightarrow> {} | Some f \<Rightarrow> dead_capabilities (section_capabilities (rs_sections r)) f)"
    using assms(1) by (simp add: apply_mode_def Let_def filter_tools_and_sections_def)
  have x1: "x \<in> set (exclude_sections (rs_sections r) dead (md_id m))" using excluded_sectionD [OF x assms(2)] by blast
  note x2 = excluded_sectionD [OF x1 assms(2)]
  have "permits (md_capabilities m) c" if src: "sec_source x = From_Capability c n" for c n
  proof -
    have "c \<in> set (section_capabilities (rs_sections r))"
      using x2 src by (force simp: section_capabilities_def List.map_filter_def image_iff)
    then show ?thesis
      using x2 src dead by (cases "md_capabilities m") (auto simp: dead_iff_not_permitted permits_def)
  qed
  then show ?thesis using x2 by (auto simp: source_permitted_def split: section_source.split)
qed


section \<open>The prompt of a turn\<close>

lemma split_on_append_sep: "split_on c (xs @ c # ys) = split_on c xs @ split_on c ys"
  by (induction xs) (auto split: list.split)

lemma line_count_join: "ls \<noteq> [] \<Longrightarrow> list_all (\<lambda>l. newline \<notin> set l) ls \<Longrightarrow> line_count (join [newline] ls) = length ls"
proof (induction "[newline]" ls rule: join.induct)
  case (3 x y xs)
  then show ?case by (simp add: line_count_def split_on_append_sep split_on_no_sep)
qed (simp_all add: line_count_def split_on_no_sep)

definition one_line :: "tool_info \<Rightarrow> bool" where
  "one_line t \<longleftrightarrow> newline \<notin> set (ti_name t) \<and> newline \<notin> set (ti_description t)"

lemma tool_list_lines_count:
  assumes "list_all one_line ts"
  shows "line_count (join [newline] (tool_list_lines ts)) = length (tool_list_lines ts)"
  using assms by (intro line_count_join)
    (auto simp: tool_list_lines_def tool_line_def one_line_def list_all_iff)

lemma tool_sections_ok: "list_all one_line ts \<Longrightarrow> list_all section_ok (tool_sections ts)"
  using tool_list_lines_count [of ts]
  by (auto simp: tool_sections_def Let_def make_section_ok) (simp add: make_section_def section_ok_def)

lemma capability_section_ok: "section_ok (capability_section c n k i e)"
  by (auto simp: capability_section_def Let_def intro: section_intros split: section_entry.split)

lemma offered_sections_ok: "list_all section_ok (offered_sections c cx)"
  by (auto simp: offered_sections_def capability_sections_def list_all_iff capability_section_ok split: option.split)

lemma resolved_sections:
  assumes "resolve_capabilities cs ctx scoped talks cfg = Inr r"
  shows "list_all section_ok (rs_sections r)"
  using resolve_loop_adds [OF assms [unfolded resolve_capabilities_def], of "[]"] offered_sections_ok
  by (auto simp: list_all_iff nothing_resolved_def)

lemma applied_sections_ok:
  "list_all section_ok (rs_sections r) \<Longrightarrow> list_all section_ok (ap_sections (apply_mode r cs ts active ctx))"
  by (cases active) (simp_all add: apply_mode_def Let_def filter_tools_and_sections_def exclude_sections_ok)

lemma applied_tools_subset: "set (ap_tools (apply_mode r cs ts active ctx)) \<subseteq> set ts"
proof (cases active)
  case (Some m) then show ?thesis by (simp only: mode_tools set_filter) blast
qed (simp add: apply_mode_def)

text \<open>C30: Sections are what their type promises. If the agent's own sections are well-formed and no
  name or description of a tool contains a line break (the tool list counts one line per tool),
  then whatever the capabilities, the mode and the configuration, every section of an assembled
  prompt is well-formed: an included one carries the number of lines and of estimated tokens of
  its text, an excluded one is empty with counts of zero and says why.\<close>

theorem assembled_sections_typed:
  assumes "resolve_capabilities cs ctx scoped talks cfg = Inr r"
    and "list_all section_ok (sf_sections S ctx)" and "list_all one_line (collect_all_tools S ctx r)"
  shows "list_all section_ok (assemble_all_sections S ctx cs r active)"
proof -
  let ?ap = "apply_mode r cs (collect_all_tools S ctx r) active ctx"
  have "list_all section_ok (resolve_base_sections S ctx)"
    using assms(2) by (simp add: resolve_base_sections_def Let_def make_section_ok)
  moreover have "list_all section_ok (tool_sections (ap_tools ?ap))"
    using assms(3) applied_tools_subset [of r cs "collect_all_tools S ctx r" active ctx]
    by (intro tool_sections_ok) (auto simp: list_all_iff)
  moreover note applied_sections_ok [OF resolved_sections [OF assms(1)], of cs "collect_all_tools S ctx r" active ctx]
  ultimately show ?thesis
    by (auto simp: assemble_all_sections_def Let_def make_section_ok split: option.split)
qed

lemma tool_sections_permitted: "list_all (source_permitted f) (tool_sections ts)"
  by (simp add: tool_sections_def Let_def source_permitted_def make_section_def)

lemma base_sections_permitted:
  "list_all (source_permitted f) (sf_sections S ctx) \<Longrightarrow> list_all (source_permitted f) (resolve_base_sections S ctx)"
  by (simp add: resolve_base_sections_def Let_def source_permitted_def)

lemma assembled_shape:
  assumes "list_all (source_permitted f) (sf_sections S ctx)"
  shows "\<exists>before after. assemble_all_sections S ctx cs r (Some m) =
      before @ tool_sections (ap_tools (apply_mode r cs (collect_all_tools S ctx r) (Some m) ctx)) @
      ap_sections (apply_mode r cs (collect_all_tools S ctx r) (Some m) ctx) @ after \<and>
    list_all (source_permitted f) before \<and> list_all (source_permitted f) after"
proof -
  let ?ap = "apply_mode r cs (collect_all_tools S ctx r) (Some m) ctx"
  obtain before where before: "(case ap_override ?ap of None \<Rightarrow> resolve_base_sections S ctx
      | Some g \<Rightarrow> [make_section ''System Prompt (mode override)'' (''mode-override-'' @ md_id m)
           (g (to_prompt_string (resolve_base_sections S ctx))) From_Custom]) = before"
    and 1: "list_all (source_permitted f) before"
    using base_sections_permitted [OF assms] by (simp add: source_permitted_def split: option.split)
  obtain after where after: "(if truthy (ap_append ?ap)
      then [make_section (''Mode: '' @ md_name m) (''mode-append-'' @ md_id m) (the (ap_append ?ap)) From_Custom]
      else []) = after" and 2: "list_all (source_permitted f) after"
    by (simp add: source_permitted_def)
  have "assemble_all_sections S ctx cs r (Some m) = before @ tool_sections (ap_tools ?ap) @ ap_sections ?ap @ after"
    unfolding assemble_all_sections_def Let_def prod.case option.case before after ..
  with 1 2 show ?thesis by blast
qed

text \<open>C10: A mode limits the turn. Suppose a mode is active in a session, and the agent's own
  base sections come from capabilities the mode permits. Then the agent of the turn gets exactly
  those of the agent's tools that the mode's tool filter permits and whose names no excluded
  capability offers when it is asked in the bare hook context, that is without its
  configuration. So no tool of an excluded capability is left whenever the names it offers under
  its configuration are among the names it offers without one (a capability whose tool names
  depend on its configuration can keep a tool: the code asks it in the bare context). The system
  prompt is the text of sections of which those included come from permitted capabilities and
  whose tool list is the list of exactly these tools.\<close>

theorem mode_limits_turn:
  assumes "active_mode_of (sf_modes S) d s = Some m" and "ensure_agent S cs cfg d s = Inr (prompt, tools)"
    and "list_all (source_permitted (md_capabilities m)) (sf_sections S (hook_context s))"
  shows "\<exists>r ss before after.
    resolve_capabilities cs (hook_context s) True True cfg = Inr r \<and>
    tools = filter (\<lambda>t. ti_name t \<notin> (\<Union>c \<in> {c \<in> set cs. \<not> permits (md_capabilities m) (cp_id c)}.
        ti_name ` set (offered_tools (hook_context s) c)) \<and> permits (md_tools m) (ti_name t))
      (collect_all_tools S (hook_context s) r) \<and>
    (\<forall>c ctx. c \<in> set cs \<longrightarrow> \<not> permits (md_capabilities m) (cp_id c) \<longrightarrow>
      ti_name ` set (offered_tools ctx c) \<subseteq> ti_name ` set (offered_tools (hook_context s) c) \<longrightarrow>
      ti_name ` set tools \<inter> ti_name ` set (offered_tools ctx c) = {}) \<and>
    prompt = to_prompt_string ss \<and> ss = before @ tool_sections tools @ after \<and>
    list_all (\<lambda>x. \<not> sec_included x \<or> source_permitted (md_capabilities m) x) ss"
proof -
  obtain r where r: "resolve_capabilities cs (hook_context s) True True cfg = Inr r"
    "prompt = to_prompt_string (assemble_all_sections S (hook_context s) cs r (Some m))"
    "tools = ap_tools (apply_mode r cs (collect_all_tools S (hook_context s) r) (Some m) (hook_context s))"
    using assms(1,2) by (auto simp: ensure_agent_def hook_context_def Let_def split: sum.splits)
  let ?ap = "apply_mode r cs (collect_all_tools S (hook_context s) r) (Some m) (hook_context s)"
  obtain before after where ss: "assemble_all_sections S (hook_context s) cs r (Some m) =
      before @ tool_sections tools @ ap_sections ?ap @ after"
    and ends: "list_all (source_permitted (md_capabilities m)) before" "list_all (source_permitted (md_capabilities m)) after"
    using assembled_shape [OF assms(3)] r(3) by blast
  have "list_all (\<lambda>x. \<not> sec_included x \<or> source_permitted (md_capabilities m) x) (ap_sections ?ap)"
    using mode_sections by (fastforce simp: list_all_iff)
  then have "list_all (\<lambda>x. \<not> sec_included x \<or> source_permitted (md_capabilities m) x)
      (before @ tool_sections tools @ ap_sections ?ap @ after)"
    using ends tool_sections_permitted [of "md_capabilities m" tools] by (auto simp: list_all_iff)
  moreover have "prompt = to_prompt_string (before @ tool_sections tools @ ap_sections ?ap @ after)"
    using r(2) ss by simp
  moreover note tools = trans [OF r(3) mode_tools]
  have "\<forall>c ctx. c \<in> set cs \<longrightarrow> \<not> permits (md_capabilities m) (cp_id c) \<longrightarrow>
      ti_name ` set (offered_tools ctx c) \<subseteq> ti_name ` set (offered_tools (hook_context s) c) \<longrightarrow>
      ti_name ` set tools \<inter> ti_name ` set (offered_tools ctx c) = {}"
  proof (intro allI impI)
    fix c ctx
    assume "c \<in> set cs" "\<not> permits (md_capabilities m) (cp_id c)"
      "ti_name ` set (offered_tools ctx c) \<subseteq> ti_name ` set (offered_tools (hook_context s) c)"
    moreover have "\<forall>t \<in> set tools. ti_name t \<notin> (\<Union>c \<in> {c \<in> set cs. \<not> permits (md_capabilities m) (cp_id c)}.
        ti_name ` set (offered_tools (hook_context s) c))"
      unfolding tools by simp
    ultimately show "ti_name ` set tools \<inter> ti_name ` set (offered_tools ctx c) = {}" by blast
  qed
  ultimately show ?thesis using tools
    by (intro exI [of _ r] exI [of _ "before @ tool_sections tools @ ap_sections ?ap @ after"]
        exI [of _ before] exI [of _ "ap_sections ?ap @ after"] conjI r(1) refl)
qed

section \<open>The mode of a session and of its clients\<close>

text \<open>The path that \<open>resolveActiveMode\<close> collects has the cached mode as its most recent one.\<close>

lemma mode_change_first:
  "(case find (\<lambda>e. case edata e of Mode_Enter _ \<Rightarrow> True | Mode_Exit _ \<Rightarrow> True | _ \<Rightarrow> False) up of
      Some e \<Rightarrow> (case edata e of Mode_Enter i \<Rightarrow> f i | _ \<Rightarrow> None)
    | None \<Rightarrow> None) = Option.bind (first_mode up) f"
  by (induction up) (auto split: entry_data.split)

text \<open>The cached mode is the mode of the log. In every store the runtime's operations reach,
  the mode that a turn reads from the session's row is the one found by walking the log back
  to the most recent mode change, provided no mode has the empty id.\<close>

theorem cached_mode_is_logged_mode:
  assumes "log_reachable d" and "list_all (\<lambda>m. md_id m \<noteq> []) ms"
  shows "resolve_active_mode d s ms = Some (active_mode_of ms d s)"
proof (cases "get_session d s")
  case None
  then show ?thesis by (simp add: resolve_active_mode_def active_mode_of_def read_active_mode_id_def)
next
  case (Some r)
  then have r: "r \<in> set (sessions d)" "sid r = s" using get_session_SomeD by auto
  obtain up where up: "log_path d s = Some up" using log_path_total [OF wf_log_reachable [OF assms(1)]] by blast
  then have first: "first_mode up = sactive_mode r"
    using synced_log_reachable [OF assms(1)] r by (auto simp: modes_synced_def)
  have "find (\<lambda>m. md_id m = []) ms = None" using assms(2) by (auto simp: find_None_iff list_all_iff)
  then have "Option.bind (first_mode up) (\<lambda>i. find (\<lambda>m. md_id m = i) ms) = active_mode_of ms d s"
    using Some first by (cases "sactive_mode r") (auto simp: active_mode_of_def read_active_mode_id_def truthy_def)
  moreover have "\<not> truthy (sleaf r) \<Longrightarrow> up = []" using up Some by (simp add: log_path_def)
  ultimately show ?thesis
    using Some up by (cases "truthy (sleaf r)") (auto simp: resolve_active_mode_def log_path_def mode_change_first)
qed

datatype mode_op = Do_Enter id | Do_Exit

fun run_mode_op :: "'cb sync_env \<Rightarrow> run_mode list \<Rightarrow> id \<Rightarrow> mode_op \<Rightarrow> 'cb chat_server \<Rightarrow> 'cb chat_server" where
  "run_mode_op E ms s (Do_Enter i) sv = snd (enter_mode_on_session E ms s i sv)"
| "run_mode_op E ms s Do_Exit sv = snd (exit_mode_on_session E ms s sv)"

lemma append_in_mode:
  assumes "append_in E s dat sv = (res, sv1)"
  shows "sv_connections sv1 = sv_connections sv \<and> sv_out sv1 = sv_out sv \<and>
    (case res of
       Inl _ \<Rightarrow> rt_store (sv_runtime sv1) = rt_store (sv_runtime sv)
     | Inr _ \<Rightarrow> read_active_mode_id (rt_store (sv_runtime sv1)) s =
         (case dat of Mode_Enter m \<Rightarrow> Some m | Mode_Exit _ \<Rightarrow> None
          | _ \<Rightarrow> read_active_mode_id (rt_store (sv_runtime sv)) s))"
proof -
  let ?rt = "sv_runtime sv"
  obtain r d where run: "append_entry (rt_store ?rt) s dat (env_new_id (sy_env E) ?rt) (rt_now ?rt) = (r, d)"
    by (cases "append_entry (rt_store ?rt) s dat (env_new_id (sy_env E) ?rt) (rt_now ?rt)")
  have sv1: "res = map_sum Store_Failure id r" "sv1 = sv\<lparr>sv_runtime := ?rt\<lparr>rt_store := d\<rparr>\<rparr>"
    using assms run by (auto simp: append_in_def run_in_def)
  show ?thesis
  proof (cases r)
    case (Inl e)
    then have "d = rt_store ?rt" using run by (auto simp: append_entry_def Let_def split: option.splits)
    then show ?thesis using sv1 Inl by simp
  next
    case (Inr e)
    then obtain row where row: "get_session (rt_store ?rt) s = Some row"
      using run by (auto simp: append_entry_def Let_def split: option.splits)
    then have "get_session d s = Some (bump_leaf (env_new_id (sy_env E) ?rt) (rt_now ?rt) dat row)"
      using get_session_append [OF run [unfolded Inr], of s] get_session_SomeD [OF row] by simp
    then show ?thesis
      using sv1 Inr row by (auto simp: read_active_mode_id_def bump_leaf_def Let_def split: entry_data.split)
  qed
qed

text \<open>The mode a sync would tell, and one change of it seen by a client.\<close>

abbreviation told_mode :: "run_mode list \<Rightarrow> id \<Rightarrow> 'cb chat_server \<Rightarrow> (id \<times> string) option" where
  "told_mode ms s sv \<equiv> map_option (\<lambda>m. (md_id m, md_name m)) (active_mode_of ms (rt_store (sv_runtime sv)) s)"

lemma told_mode_sync:
  assumes "sy_modes E = map (\<lambda>m. (md_id m, md_name m)) ms"
  shows "active_mode_for_sync E (sv_runtime sv) s = told_mode ms s sv"
proof -
  have "find (\<lambda>(m, _). m = i) (map (\<lambda>m. (md_id m, md_name m)) ms) =
      map_option (\<lambda>m. (md_id m, md_name m)) (find (\<lambda>m. md_id m = i) ms)" for i
    by (induction ms) auto
  then show ?thesis by (simp add: active_mode_for_sync_def active_mode_of_def assms Let_def)
qed

lemma mode_op_told:
  assumes "watches k s sv" and "list_all (\<lambda>m. md_id m \<noteq> []) ms"
  shows "watches k s (run_mode_op E ms s op sv) \<and>
    (\<exists>new. inbox k (run_mode_op E ms s op sv) = inbox k sv @ new \<and>
      (new = [] \<and> told_mode ms s (run_mode_op E ms s op sv) = told_mode ms s sv \<or>
       (\<exists>entered i n. new = [Mode_Event s entered i n] \<and>
          told_mode ms s (run_mode_op E ms s op sv) = (if entered then Some (i, n) else None))))"
proof -
  have tell: "watches k s (broadcast_to_session s m sv1) \<and> inbox k (broadcast_to_session s m sv1) = inbox k sv @ [m] \<and>
      sv_runtime (broadcast_to_session s m sv1) = sv_runtime sv1"
    if "sv_connections sv1 = sv_connections sv" "sv_out sv1 = sv_out sv" for sv1 :: "'a chat_server" and m
  proof -
    have "watches k s sv1" using assms(1) that(1) by (simp add: watches_def)
    moreover have "inbox k sv1 = inbox k sv" using that(2) by (simp add: inbox_def)
    ultimately show ?thesis using inbox_broadcast [of k s sv1 m] by (simp add: watches_def broadcast_to_session_def)
  qed
  have keep: "watches k s sv1 \<and> inbox k sv1 = inbox k sv"
    if "sv_connections sv1 = sv_connections sv" "sv_out sv1 = sv_out sv" for sv1 :: "'a chat_server"
    using that assms(1) by (simp add: watches_def inbox_def)
  show ?thesis
  proof (cases op)
    case (Do_Enter i)
    show ?thesis
    proof (cases "find (\<lambda>m. md_id m = i) ms")
      case None
      then show ?thesis using Do_Enter assms(1) by (simp add: enter_mode_on_session_def)
    next
      case (Some m)
      then have m: "md_id m = i" "i \<noteq> []" using assms(2) by (auto simp: find_Some_iff list_all_iff)
      obtain res sv1 where app: "append_in E s (Mode_Enter (md_id m)) sv = (res, sv1)" by fastforce
      note a = append_in_mode [OF app]
      show ?thesis
      proof (cases res)
        case (Inl e)
        then show ?thesis
          using Do_Enter Some app a keep [of sv1] by (simp add: enter_mode_on_session_def active_mode_of_def read_active_mode_id_def)
      next
        case (Inr e)
        then have "told_mode ms s sv1 = Some (md_id m, md_name m)"
          using a m Some by (simp add: active_mode_of_def truthy_def)
        then show ?thesis
          using Do_Enter Some app a Inr tell [of sv1] by (simp add: enter_mode_on_session_def) blast
      qed
    qed
  next
    case Do_Exit
    let ?i = "read_active_mode_id (rt_store (sv_runtime sv)) s"
    show ?thesis
    proof (cases "truthy ?i")
      case False
      then show ?thesis using Do_Exit assms(1) by (simp add: exit_mode_on_session_def)
    next
      case True
      obtain res sv1 where app: "append_in E s (Mode_Exit (the ?i)) sv = (res, sv1)" by fastforce
      note a = append_in_mode [OF app]
      show ?thesis
      proof (cases res)
        case (Inl e)
        then show ?thesis
          using Do_Exit True app a keep [of sv1] by (simp add: exit_mode_on_session_def active_mode_of_def)
      next
        case (Inr e)
        then have gone: "told_mode ms s sv1 = None" using a by (simp add: active_mode_of_def truthy_def)
        show ?thesis
        proof (cases "find (\<lambda>m. md_id m = the ?i) ms")
          case None
          then have "told_mode ms s sv = None" using True by (simp add: active_mode_of_def)
          then show ?thesis
            using Do_Exit True app a Inr None gone keep [of sv1] by (simp add: exit_mode_on_session_def)
        next
          case (Some m)
          then show ?thesis
            using Do_Exit True app a Inr gone tell [of sv1] by (simp add: exit_mode_on_session_def) blast
        qed
      qed
    qed
  qed
qed


lemma client_told:
  assumes "cl_session c = Some s" "cl_queue c = []"
  shows "cl_session (flush (handle_server_message F now (Mode_Event s entered i n) c)) = Some s \<and>
    cl_queue (flush (handle_server_message F now (Mode_Event s entered i n) c)) = [] \<and>
    cs_mode (cl_chat (flush (handle_server_message F now (Mode_Event s entered i n) c))) =
      (if entered then Some (i, n) else None)"
  using assms by (simp add: flush_def dispatch_def reduce_def)

text \<open>C38: Clients show the mode that is active. Whatever modes are entered and left in a session,
  known or unknown, a client that watches the session and showed its active mode shows the
  active mode again when it has handled what it was sent: the mode a new sync would tell.\<close>

theorem client_shows_active_mode:
  assumes "sy_modes E = map (\<lambda>m. (md_id m, md_name m)) ms" and "list_all (\<lambda>m. md_id m \<noteq> []) ms"
    and "watches k s sv" and "cl_session c = Some s" and "cl_queue c = []"
    and "cs_mode (cl_chat c) = active_mode_for_sync E (sv_runtime sv) s"
  shows "\<exists>new. inbox k (fold (run_mode_op E ms s) ops sv) = inbox k sv @ new \<and>
    cs_mode (cl_chat (fold (\<lambda>m c. flush (handle_server_message F now m c)) new c)) =
      active_mode_for_sync E (sv_runtime (fold (run_mode_op E ms s) ops sv)) s"
  using assms(3-6) unfolding told_mode_sync [OF assms(1)]
proof (induction ops arbitrary: sv c)
  case (Cons op ops)
  obtain new where op: "watches k s (run_mode_op E ms s op sv)" "inbox k (run_mode_op E ms s op sv) = inbox k sv @ new"
    and new: "new = [] \<and> told_mode ms s (run_mode_op E ms s op sv) = told_mode ms s sv \<or>
       (\<exists>entered i n. new = [Mode_Event s entered i n] \<and>
          told_mode ms s (run_mode_op E ms s op sv) = (if entered then Some (i, n) else None))"
    using mode_op_told [OF Cons.prems(1) assms(2), of E op] by blast
  let ?c = "fold (\<lambda>m c. flush (handle_server_message F now m c)) new c"
  have "cl_session ?c = Some s \<and> cl_queue ?c = [] \<and>
      cs_mode (cl_chat ?c) = told_mode ms s (run_mode_op E ms s op sv)"
    using new client_told [OF Cons.prems(2,3), of F now] Cons.prems by auto
  with Cons.IH [OF op(1), of ?c] obtain rest where
    "inbox k (fold (run_mode_op E ms s) ops (run_mode_op E ms s op sv)) = inbox k sv @ new @ rest"
    "cs_mode (cl_chat (fold (\<lambda>m c. flush (handle_server_message F now m c)) rest ?c)) =
      told_mode ms s (fold (run_mode_op E ms s) ops (run_mode_op E ms s op sv))"
    using op(2) by auto
  then show ?case by (intro exI [of _ "new @ rest"]) simp
qed simp


section \<open>The planning mode\<close>

definition plan_mode :: run_mode where
  "plan_mode = \<lparr>md_id = ''plan'', md_name = ''Planning'',
     md_description = ''Read-only exploration mode. Investigate the task and produce a plan before executing any changes.'',
     md_capabilities = None,
     md_tools = Some \<lparr>nf_allow = None, nf_deny = Some [''file_write'', ''file_edit'', ''file_delete'', ''file_move'',
       ''file_copy'', ''exec'', ''process'', ''show_preview'', ''hide_preview'', ''browser_click'', ''browser_type'',
       ''browser_navigate'']\<rparr>,
     md_append = Some (Inl (join [newline] [''# Planning mode'', [],
       ''You are operating in planning mode. Your goal is to investigate and produce a plan, not to execute changes. Rules:'', [],
       ''- Do not use write, edit, delete, move, or execution tools - they are filtered from your tool surface in this mode.'',
       ''- Use read-only tools (file_read, file_list, grep, browser_snapshot, etc.) to gather context.'',
       ''- Produce a concrete plan: files to touch, changes to make, risks, and verification steps.'',
       ''- When the plan is ready, stop and present it. Do not transition out of planning mode on your own - wait for the user to confirm and run `/mode` or `exit_mode`.''])),
     md_override = None\<rparr>"

lemma plan_mode_defined: "define_mode plan_mode = Inr plan_mode"
  by (simp add: define_mode_def plan_mode_def filter_conflict_def listed_def)

section \<open>Examples\<close>

definition plain_tool :: "string \<Rightarrow> tool_info" where
  "plain_tool n = \<lparr>ti_name = n, ti_description = ''d'', ti_guidance = None\<rparr>"

definition bare_capability :: "id \<Rightarrow> (unit, unit, nat) capability" where
  "bare_capability i = \<lparr>cp_id = i, cp_name = i, cp_mapping = None, cp_tools = None, cp_commands = None,
     cp_sections = None, cp_mcp = [], cp_schedules = None, cp_namespaces = False, cp_http = None,
     cp_before_inference = None, cp_before_tool = None, cp_after_tool = None, cp_on_connect = None,
     cp_on_action = None, cp_after_turn = None, cp_dispose = None\<rparr>"

definition files_capability :: "(unit, unit, nat) capability" where
  "files_capability = (bare_capability ''files'')\<lparr>cp_tools := Some (\<lambda>_. [plain_tool ''file_read'', plain_tool ''file_write'']),
     cp_sections := Some (\<lambda>_. [Plain_Section ''Files'']), cp_http := Some (\<lambda>_. [(''GET'', ''/files'', 1)])\<rparr>"

definition web_capability :: "(unit, unit, nat) capability" where
  "web_capability = (bare_capability ''web'')\<lparr>cp_tools := Some (\<lambda>_. [plain_tool ''fetch'', plain_tool ''file_read'']),
     cp_sections := Some (\<lambda>_. [Excluded_Section ''no key'' None]), cp_http := Some (\<lambda>_. [(''POST'', ''/web'', 2)])\<rparr>"

definition demo_surface :: surface where
  "demo_surface = \<lparr>sf_tools = \<lambda>_. [], sf_config_tools = [plain_tool ''config_get''], sf_a2a_tools = \<lambda>_. [],
     sf_modes = [plan_mode], sf_sections = \<lambda>_. [make_section ''Identity'' ''identity'' ''Hi'' (From_Default ''identity'')],
     sf_prompt = \<lambda>_. ''Hi''\<rparr>"

lemmas capability_eval = resolve_capabilities_def nothing_resolved_def files_capability_def web_capability_def
  bare_capability_def resolve_capability_def own_context_def add_named_def plain_tool_def
  capability_sections_def capability_section_def cap_key_def hook_context_def

lemma demo_resolved: "\<exists>r. resolve_capabilities [files_capability, web_capability] (hook_context s) True True cfg = Inr r \<and>
    map ti_name (rs_tools r) = [''file_read'', ''file_write'', ''fetch''] \<and>
    list_all one_line (rs_tools r) \<and> length (rs_http r) = 2"
  by (simp add: capability_eval one_line_def)

theorem resolving_keeps_first_witness:
  "\<exists>r :: (unit, unit, nat) resolved. distinct (map ti_name (rs_tools r)) \<and> map ti_name (rs_tools r) = [''file_read'', ''file_write'', ''fetch''] \<and>
    rs_http r = [(''GET'', ''/files'', 1, ''files'', Some ''files''), (''POST'', ''/web'', 2 :: nat, ''web'', Some ''web'')]"
proof -
  obtain r where r: "resolve_capabilities [files_capability, web_capability] (hook_context []) True True [] = Inr r"
    "map ti_name (rs_tools r) = [''file_read'', ''file_write'', ''fetch'']" using demo_resolved [of "[]" "[]"] by (elim exE conjE)
  have "map (\<lambda>c. map (\<lambda>(m, p, h). (m, p, h, cp_id c, Some (cp_id c)))
      (offered_handlers c (capability_context c (hook_context []) True True []))) [files_capability, web_capability] =
      [[(''GET'', ''/files'', 1, ''files'', Some ''files'')], [(''POST'', ''/web'', 2 :: nat, ''web'', Some ''web'')]]"
    by (simp add: offered_handlers_def files_capability_def web_capability_def bare_capability_def)
  with resolving_keeps_first [OF r(1)] r(2) show ?thesis by (intro exI [of _ r]) simp
qed


theorem assembled_sections_typed_witness:
  "\<exists>r. resolve_capabilities [files_capability, web_capability] (hook_context ''s'') True True [] = Inr r \<and>
    list_all section_ok (assemble_all_sections demo_surface (hook_context ''s'') [files_capability, web_capability] r
      (Some plan_mode))"
proof -
  obtain r where r: "resolve_capabilities [files_capability, web_capability] (hook_context ''s'') True True [] = Inr r"
    "list_all one_line (rs_tools r)" using demo_resolved [of "''s''" "[]"] by (elim exE conjE)
  have "list_all one_line (collect_all_tools demo_surface (hook_context ''s'') r)"
    using r(2) by (simp add: collect_all_tools_def demo_surface_def one_line_def plain_tool_def
        enter_mode_tool_def exit_mode_tool_def)
  moreover have "list_all section_ok (sf_sections demo_surface (hook_context ''s''))"
    by (simp add: demo_surface_def make_section_ok)
  ultimately show ?thesis using assembled_sections_typed [OF r(1)] r(1) by blast
qed

lemma demo3_mode: "active_mode_of [plan_mode] demo3 ''s'' = Some plan_mode"
  by (simp add: active_mode_of_def read_active_mode_id_def demo3_value get_session_def get_row_def
      truthy_def plan_mode_def)

theorem mode_limits_turn_witness:
  "\<exists>prompt tools. ensure_agent demo_surface [files_capability, web_capability] [] demo3 ''s'' = Inr (prompt, tools) \<and>
    map ti_name tools = [''config_get'', ''enter_mode'', ''exit_mode'', ''file_read'', ''fetch'']"
proof -
  obtain r where r: "resolve_capabilities [files_capability, web_capability] (hook_context ''s'') True True [] = Inr r"
    "map ti_name (rs_tools r) = [''file_read'', ''file_write'', ''fetch'']"
    using demo_resolved [of "''s''" "[]"] by (elim exE conjE)
  have act: "active_mode_of (sf_modes demo_surface) demo3 ''s'' = Some plan_mode"
    by (simp add: demo_surface_def demo3_mode)
  obtain prompt tools where run: "ensure_agent demo_surface [files_capability, web_capability] [] demo3 ''s'' = Inr (prompt, tools)"
    using r(1) by (simp add: ensure_agent_def hook_context_def Let_def)
  have "list_all (source_permitted (md_capabilities plan_mode)) (sf_sections demo_surface (hook_context ''s''))"
    by (simp add: demo_surface_def source_permitted_def)
  from mode_limits_turn [OF act run this] r(1) have
    "tools = filter (\<lambda>t. permits (md_tools plan_mode) (ti_name t)) (collect_all_tools demo_surface (hook_context ''s'') r)"
    by (auto simp: permits_def plan_mode_def)
  then have "map ti_name tools = filter (permits (md_tools plan_mode))
      (map ti_name (collect_all_tools demo_surface (hook_context ''s'') r))"
    by (simp add: filter_map comp_def)
  also have "map ti_name (collect_all_tools demo_surface (hook_context ''s'') r) =
      [''config_get'', ''enter_mode'', ''exit_mode'', ''file_read'', ''file_write'', ''fetch'']"
    using r(2) by (simp add: collect_all_tools_def demo_surface_def plain_tool_def enter_mode_tool_def exit_mode_tool_def)
  finally show ?thesis using run by (simp add: permits_def plan_mode_def listed_def)
qed

theorem cached_mode_is_logged_mode_witness:
  "resolve_active_mode demo3 ''s'' [plan_mode] = Some (Some plan_mode)"
  using cached_mode_is_logged_mode [OF demo_reachable(4), of "[plan_mode]" "''s''"] demo3_mode
  by (simp add: plan_mode_def)

theorem client_shows_active_mode_witness:
  "\<exists>new. inbox ''k'' (fold (run_mode_op (demo_sync_env\<lparr>sy_modes := [(''plan'', ''Planning'')]\<rparr>) [plan_mode] ''s'')
      [Do_Exit, Do_Enter ''x'', Do_Enter ''plan''] demo_server) = new \<and>
    cs_mode (cl_chat (fold (\<lambda>m c. flush (handle_server_message demo_client_env 0 m c)) new
      (demo_viewer\<lparr>cl_chat := (cl_chat demo_viewer)\<lparr>cs_mode := Some (''plan'', ''Planning'')\<rparr>\<rparr>))) =
    active_mode_for_sync (demo_sync_env\<lparr>sy_modes := [(''plan'', ''Planning'')]\<rparr>)
      (sv_runtime (fold (run_mode_op (demo_sync_env\<lparr>sy_modes := [(''plan'', ''Planning'')]\<rparr>) [plan_mode] ''s'')
        [Do_Exit, Do_Enter ''x'', Do_Enter ''plan''] demo_server)) ''s''"
proof -
  let ?E = "demo_sync_env\<lparr>sy_modes := [(''plan'', ''Planning'')]\<rparr>"
  let ?c = "demo_viewer\<lparr>cl_chat := (cl_chat demo_viewer)\<lparr>cs_mode := Some (''plan'', ''Planning'')\<rparr>\<rparr>"
  have env: "sy_modes ?E = map (\<lambda>m. (md_id m, md_name m)) [plan_mode]" by (simp add: plan_mode_def)
  have "active_mode_for_sync ?E (sv_runtime demo_server) ''s'' = Some (''plan'', ''Planning'')"
    using demo3_mode by (simp only: told_mode_sync [OF env]) (simp add: demo_server_def plan_mode_def)
  then have mode: "cs_mode (cl_chat ?c) = active_mode_for_sync ?E (sv_runtime demo_server) ''s''" by simp
  have c: "cl_session ?c = Some ''s''" "cl_queue ?c = []" by (simp_all add: demo_viewer_def demo_client_def)
  have "watches ''k'' ''s'' demo_server" by (simp add: watches_def demo_server_def)
  from client_shows_active_mode [OF env _ this c mode, of "[Do_Exit, Do_Enter ''x'', Do_Enter ''plan'']" demo_client_env 0]
  show ?thesis by (simp add: inbox_def demo_server_def plan_mode_def)
qed

end
