(* ===== verification/Bundle_Stream.thy ===== *)
theory Bundle_Stream
  imports Json_Parse Agent_Loop
begin

text \<open>
  The streams a bundle reads from its model: \<open>packages/runtime/bundle-sdk/src/providers\<close>. Server-sent
  events are cut out of a text that arrives in pieces; their payloads carry text deltas and the
  pieces of tool calls, in the format of OpenAI or of Anthropic, which accumulators collect.
  An accumulator is an object that two maps share, so it lives in a list of its own and the maps
  hold its place. The lemmas show that it does not matter how the text is cut, and that the
  calls that come out are those that were sent.

  \<open>TextDecoder\<close> with \<open>stream: true\<close> gives text pieces whose concatenation is the whole text; the
  model starts from the pieces.
\<close>

section \<open>Server-sent events\<close>

fun split_boundary :: "string \<Rightarrow> (string \<times> string) option" where
  "split_boundary (a # b # cs) =
     (if a = CHR 0x0A \<and> b = CHR 0x0A then Some ([], cs)
      else map_option (\<lambda>(ev, rest). (a # ev, rest)) (split_boundary (b # cs)))"
| "split_boundary _ = None"

lemma split_boundary_eq: "split_boundary s = Some (ev, rest) \<Longrightarrow> s = ev @ [CHR 0x0A, CHR 0x0A] @ rest"
  by (induction s arbitrary: ev rest rule: split_boundary.induct) (auto split: if_splits)

function drain_events :: "string \<Rightarrow> string list \<times> string" where
  "drain_events s =
     (case split_boundary s of
        None \<Rightarrow> ([], s)
      | Some (ev, rest) \<Rightarrow> (case drain_events rest of (evs, buf) \<Rightarrow> (ev # evs, buf)))"
  by pat_completeness auto
termination
  by (relation "measure length") (auto dest!: split_boundary_eq)

declare drain_events.simps [simp del]

definition sse_data :: "string \<Rightarrow> string option" where
  "sse_data raw =
     (let ls = List.map_filter (\<lambda>l. if starts_with l ''data:''
          then Some (if length l > 5 \<and> l ! 5 = CHR '' '' then drop 6 l else drop 5 l) else None)
        (split_on CHR 0x0A raw)
      in if ls = [] then None else Some (join [CHR 0x0A] ls))"

text \<open>The payloads of a stream, given the buffer so far and the pieces still to come.\<close>

fun sse_payloads :: "string \<Rightarrow> string list \<Rightarrow> string list" where
  "sse_payloads buf [] = (if trim buf = [] then [] else case sse_data buf of None \<Rightarrow> [] | Some p \<Rightarrow> [p])"
| "sse_payloads buf (c # cs) =
     (case drain_events (buf @ c) of (evs, buf') \<Rightarrow> List.map_filter sse_data evs @ sse_payloads buf' cs)"

section \<open>Accumulators\<close>

record accumulator =
  ac_id :: string
  ac_name :: string
  ac_args :: string

record collecting =
  co_heap :: "accumulator list"
  co_ids :: "(string \<times> nat) list"
  co_index :: "(int \<times> nat) list"

definition nothing_collected :: collecting where
  "nothing_collected = \<lparr>co_heap = [], co_ids = [], co_index = []\<rparr>"

definition str_member :: "json \<Rightarrow> string \<Rightarrow> string option" where
  "str_member j k = (case member j k of Some (JStr t) \<Rightarrow> Some t | _ \<Rightarrow> None)"

definition int_member :: "json \<Rightarrow> string \<Rightarrow> int option" where
  "int_member j k = (case member j k of Some (JNum i) \<Rightarrow> Some i | _ \<Rightarrow> None)"

definition sub :: "json \<Rightarrow> string \<Rightarrow> json" where
  "sub j k = or_else (member j k) JNull"

definition first_choice :: "json \<Rightarrow> json" where
  "first_choice j = (case sub j ''choices'' of JArr (c # _) \<Rightarrow> c | JObj ms \<Rightarrow> sub (JObj ms) ''0'' | _ \<Rightarrow> JNull)"

definition openai_text :: "json \<Rightarrow> string" where
  "openai_text j = or_else (str_member (sub (first_choice j) ''delta'') ''content'') []"

text \<open>A falsy reason is none; a truthy one that is not known means stop.\<close>

definition json_falsy :: "json \<Rightarrow> bool" where
  "json_falsy j \<longleftrightarrow> j \<in> {JNull, JBool False, JNum 0, JStr []}"

definition openai_stop :: "json \<Rightarrow> stop_reason option" where
  "openai_stop j =
     (let f = sub (first_choice j) ''finish_reason''
      in if json_falsy f then None
         else Some (if f \<in> {JStr ''tool_calls'', JStr ''function_call''} then Stop_Tool_Use
                    else if f = JStr ''length'' then Stop_Length else Stop_End))"

text \<open>
  One delta of a call. The accumulator is found by its index, else by its id; a new one is
  entered under what the delta carries.
\<close>

definition absorb_delta :: "json \<Rightarrow> collecting \<Rightarrow> collecting" where
  "absorb_delta tc st =
     (let idx = int_member tc ''index''; i = str_member tc ''id''; fn = sub tc ''function'';
          by_index = Option.bind idx (map_of (co_index st));
          found = (if by_index = None \<and> truthy i then map_of (co_ids st) (the i) else by_index);
          (p, st1) = (case found of
              None \<Rightarrow>
                (let new = \<lparr>ac_id = or_else i [], ac_name = or_else (str_member fn ''name'') [], ac_args = []\<rparr>;
                     p = length (co_heap st)
                 in (p, \<lparr>co_heap = co_heap st @ [new],
                         co_ids = (if truthy i then map_set (the i) p (co_ids st) else co_ids st),
                         co_index = (case idx of None \<Rightarrow> co_index st | Some k \<Rightarrow> map_set k p (co_index st))\<rparr>))
            | Some p \<Rightarrow>
                (let a = co_heap st ! p;
                     renamed = truthy i \<and> the i \<noteq> ac_id a;
                     a1 = (if renamed then a\<lparr>ac_id := the i\<rparr> else a);
                     a2 = (if ac_name a1 = [] then a1\<lparr>ac_name := or_else (str_member fn ''name'') []\<rparr> else a1)
                 in (p, st\<lparr>co_heap := (co_heap st)[p := a2],
                         co_ids := (if renamed then map_set (the i) p (co_ids st) else co_ids st)\<rparr>)))
      in case str_member fn ''arguments'' of
           None \<Rightarrow> st1
         | Some t \<Rightarrow> st1\<lparr>co_heap := (co_heap st1)[p := (co_heap st1 ! p)\<lparr>ac_args := ac_args (co_heap st1 ! p) @ t\<rparr>]\<rparr>)"

text \<open>A delta that is null makes the code throw.\<close>

fun absorb_deltas :: "json list \<Rightarrow> collecting \<Rightarrow> collecting option" where
  "absorb_deltas [] st = Some st"
| "absorb_deltas (tc # tcs) st = (if tc = JNull then None else absorb_deltas tcs (absorb_delta tc st))"

fun absorb_choices :: "json list \<Rightarrow> collecting \<Rightarrow> collecting option" where
  "absorb_choices [] st = Some st"
| "absorb_choices (c # cs) st =
     Option.bind (case sub (sub c ''delta'') ''tool_calls'' of JArr tcs \<Rightarrow> absorb_deltas tcs st | _ \<Rightarrow> Some st)
       (absorb_choices cs)"

definition absorb_openai :: "json \<Rightarrow> collecting \<Rightarrow> collecting option" where
  "absorb_openai j st = (case sub j ''choices'' of JArr cs \<Rightarrow> absorb_choices cs st | _ \<Rightarrow> Some st)"

definition anthropic_text :: "json \<Rightarrow> string" where
  "anthropic_text j =
     (if str_member j ''type'' = Some ''content_block_delta'' \<and>
         str_member (sub j ''delta'') ''type'' = Some ''text_delta''
      then or_else (str_member (sub j ''delta'') ''text'') [] else [])"

definition anthropic_stop :: "json \<Rightarrow> stop_reason option" where
  "anthropic_stop j =
     (let r = sub (sub j ''delta'') ''stop_reason''
      in if str_member j ''type'' \<noteq> Some ''message_delta'' \<or> json_falsy r then None
         else Some (if r = JStr ''tool_use'' then Stop_Tool_Use
                    else if r = JStr ''max_tokens'' then Stop_Length else Stop_End))"

definition absorb_anthropic :: "json \<Rightarrow> collecting \<Rightarrow> collecting" where
  "absorb_anthropic j st =
     (if str_member j ''type'' = Some ''content_block_start''
      then (let b = sub j ''content_block''
            in case int_member j ''index'' of
                 Some k \<Rightarrow>
                   if str_member b ''type'' = Some ''tool_use''
                   then st\<lparr>co_heap := co_heap st @ [\<lparr>ac_id = or_else (str_member b ''id'') [],
                             ac_name = or_else (str_member b ''name'') [], ac_args = []\<rparr>],
                           co_index := map_set k (length (co_heap st)) (co_index st)\<rparr>
                   else st
               | None \<Rightarrow> st)
      else if str_member j ''type'' = Some ''content_block_delta''
      then (case Option.bind (int_member j ''index'') (map_of (co_index st)) of
              None \<Rightarrow> st
            | Some p \<Rightarrow>
                (case (str_member (sub j ''delta'') ''type'', str_member (sub j ''delta'') ''partial_json'') of
                   (Some ty, Some t) \<Rightarrow>
                     if ty = ''input_json_delta''
                     then st\<lparr>co_heap := (co_heap st)[p := (co_heap st ! p)\<lparr>ac_args := ac_args (co_heap st ! p) @ t\<rparr>]\<rparr>
                     else st
                 | _ \<Rightarrow> st))
      else st)"

section \<open>The stream\<close>

record parsed_call =
  pd_id :: string
  pd_name :: string
  pd_args :: json
  pd_raw :: string

definition finish_call :: "accumulator \<Rightarrow> parsed_call" where
  "finish_call a = \<lparr>pd_id = ac_id a, pd_name = ac_name a,
     pd_args = (case parse_json (ac_args a) of Some (JObj ms) \<Rightarrow> if ac_args a = [] then JObj [] else JObj ms
       | _ \<Rightarrow> JObj []),
     pd_raw = ac_args a\<rparr>"

text \<open>Accumulators under an id come first; each counts once, at its first place.\<close>

definition finalize_calls :: "collecting \<Rightarrow> parsed_call list" where
  "finalize_calls st =
     map (\<lambda>p. finish_call (co_heap st ! p)) (rev (remdups (rev (map snd (co_ids st) @ map snd (co_index st)))))"

definition parse_payload :: "string \<Rightarrow> json option" where
  "parse_payload p =
     (if p = ''[DONE]'' then None
      else (case parse_json p of Some j \<Rightarrow> if j = JNull then None else Some j | None \<Rightarrow> None))"

definition text_delta :: "json \<Rightarrow> string" where
  "text_delta j = (if openai_text j \<noteq> [] then openai_text j else anthropic_text j)"

definition next_stop :: "json \<Rightarrow> stop_reason \<Rightarrow> stop_reason" where
  "next_stop j s = (if s \<noteq> Stop_End then s
     else case openai_stop j of Some r \<Rightarrow> r | None \<Rightarrow> or_else (anthropic_stop j) s)"

text \<open>
  The text deltas that were yielded, and the calls with the stop reason; \<open>Inl\<close>: a payload made
  the code throw after these deltas.
\<close>

fun iterate_payloads :: "string list \<Rightarrow> collecting \<Rightarrow> stop_reason \<Rightarrow>
    string list \<times> (string + parsed_call list \<times> stop_reason)" where
  "iterate_payloads [] st s =
     (let calls = finalize_calls st
      in ([], Inr (calls, if calls \<noteq> [] \<and> s = Stop_End then Stop_Tool_Use else s)))"
| "iterate_payloads (p # ps) st s =
     (case parse_payload p of
        None \<Rightarrow> iterate_payloads ps st s
      | Some j \<Rightarrow>
          (let ds = (if text_delta j = [] then [] else [text_delta j])
           in case absorb_openai j st of
                None \<Rightarrow> (ds, Inl ''Cannot read properties of null (reading 'index')'')
              | Some st1 \<Rightarrow>
                  (case iterate_payloads ps (absorb_anthropic j st1) (next_stop j s) of
                     (ds', r) \<Rightarrow> (ds @ ds', r))))"

definition iterate_stream :: "string list \<Rightarrow> string list \<times> (string + parsed_call list \<times> stop_reason)" where
  "iterate_stream pieces = iterate_payloads (sse_payloads [] pieces) nothing_collected Stop_End"

section \<open>How the text is cut\<close>

lemma split_boundary_prefix:
  "split_boundary s = Some (ev, rest) \<Longrightarrow> split_boundary (s @ t) = Some (ev, rest @ t)"
  by (induction s arbitrary: ev rest rule: split_boundary.induct) (auto split: if_splits)

lemma drain_events_append:
  "drain_events (s @ t) =
    (case drain_events s of (evs, buf) \<Rightarrow> case drain_events (buf @ t) of (evs', buf') \<Rightarrow> (evs @ evs', buf'))"
proof (induction s rule: drain_events.induct)
  case (1 s)
  show ?case
  proof (cases "split_boundary s")
    case None
    then show ?thesis by (simp add: drain_events.simps [of s] split: prod.split)
  next
    case (Some r)
    obtain ev rest where r: "r = (ev, rest)" by (cases r)
    note IH = 1 [OF Some r [symmetric]]
    show ?thesis
      using IH Some r split_boundary_prefix [of s ev rest t]
      by (simp add: drain_events.simps [of s] drain_events.simps [of "s @ t"] split: prod.splits)
  qed
qed

lemma sse_payloads_concat: "sse_payloads buf (c # cs) = sse_payloads buf [concat (c # cs)]"
proof (induction cs arbitrary: buf c)
  case (Cons d cs)
  obtain evs buf' where 1: "drain_events (buf @ c) = (evs, buf')" by fastforce
  obtain evs2 buf2 where 2: "drain_events (buf' @ concat (d # cs)) = (evs2, buf2)" by fastforce
  have "drain_events (buf @ concat (c # d # cs)) = (evs @ evs2, buf2)"
    using drain_events_append [of "buf @ c" "concat (d # cs)"] 1 2 by simp
  then show ?case using 1 2 Cons [of buf' d] by (simp add: List.map_filter_def)
qed simp

lemma drain_nothing [simp]: "drain_events [] = ([], [])"
  by (simp add: drain_events.simps)

lemma iterate_stream_concat: "iterate_stream pieces = iterate_stream [concat pieces]"
proof (cases pieces)
  case Nil
  then show ?thesis by (simp add: iterate_stream_def List.map_filter_def)
next
  case (Cons c cs)
  then show ?thesis using sse_payloads_concat [of "[]" c cs] by (simp only: iterate_stream_def)
qed

text \<open>It does not matter how a stream is cut. Whenever two divisions of a response into pieces,
  also in the middle of an event or of the blank line that ends it, have the same text, the
  iterator yields the same text deltas, the same tool calls and the same stop reason.\<close>

theorem stream_ignores_cuts:
  "concat pieces = concat pieces' \<Longrightarrow> iterate_stream pieces = iterate_stream pieces'"
  using iterate_stream_concat [of pieces] iterate_stream_concat [of pieces'] by simp

lemma stream_ignores_cuts_witness:
  "iterate_stream [''data: '', ''{}'', [CHR 0x0A], CHR 0x0A # ''data: [DONE]''] =
   iterate_stream [''data: {}'' @ [CHR 0x0A, CHR 0x0A] @ ''data: [DONE]'']"
  by (rule stream_ignores_cuts) simp

section \<open>The calls that are sent are the calls that arrive\<close>

text \<open>
  What an OpenAI-style provider sends of its calls: the first delta of a call carries its index,
  id and name, the later ones its index; all may carry a part of the arguments.
\<close>

datatype sent_part = Open_Call id string string | More_Args string

fun delta_json :: "int \<times> sent_part \<Rightarrow> json" where
  "delta_json (k, Open_Call i n a) = JObj [(''index'', JNum k), (''id'', JStr i),
     (''function'', JObj [(''name'', JStr n), (''arguments'', JStr a)])]"
| "delta_json (k, More_Args a) = JObj [(''index'', JNum k), (''function'', JObj [(''arguments'', JStr a)])]"

text \<open>A chunk of the response says something, sends parts of calls, or announces the end.\<close>

datatype model_chunk = Says string | Calls "(int \<times> sent_part) list" | Finishes

fun chunk_json :: "model_chunk \<Rightarrow> json" where
  "chunk_json (Says t) = JObj [(''choices'', JArr [JObj [(''delta'', JObj [(''content'', JStr t)])]])]"
| "chunk_json (Calls ds) = JObj [(''choices'', JArr [JObj [(''delta'', JObj [(''tool_calls'', JArr (map delta_json ds))])]])]"
| "chunk_json Finishes = JObj [(''choices'', JArr [JObj [(''delta'', JObj []), (''finish_reason'', JStr ''tool_calls'')]])]"

fun chunk_deltas :: "model_chunk \<Rightarrow> (int \<times> sent_part) list" where
  "chunk_deltas (Calls ds) = ds"
| "chunk_deltas _ = []"

fun chunk_texts :: "model_chunk \<Rightarrow> string list" where
  "chunk_texts (Says t) = (if t = [] then [] else [t])"
| "chunk_texts _ = []"

definition frame_event :: "string \<Rightarrow> string" where
  "frame_event payload = ''data: '' @ payload @ [CHR 0x0A, CHR 0x0A]"

definition response_text :: "model_chunk list \<Rightarrow> string" where
  "response_text cs = concat (map (\<lambda>c. frame_event (stringify (chunk_json c))) cs) @ frame_event ''[DONE]''"

type_synonym sent_call = "int \<times> id \<times> string \<times> string"

fun send_delta :: "int \<times> sent_part \<Rightarrow> sent_call list \<Rightarrow> sent_call list" where
  "send_delta (k, Open_Call i n a) cs = cs @ [(k, i, n, a)]"
| "send_delta (k, More_Args a) cs = map (\<lambda>(j, i, n, r). (j, i, n, if j = k then r @ a else r)) cs"

definition sent_calls :: "(int \<times> sent_part) list \<Rightarrow> sent_call list" where
  "sent_calls ds = fold send_delta ds []"

text \<open>Indices and ids are not reused, ids are not empty, and only open calls go on.\<close>

fun proper_deltas :: "(int \<times> sent_part) list \<Rightarrow> int set \<Rightarrow> id set \<Rightarrow> bool" where
  "proper_deltas [] ks is = True"
| "proper_deltas ((k, Open_Call i n a) # ds) ks is =
     (k \<notin> ks \<and> i \<notin> is \<and> i \<noteq> [] \<and> proper_deltas ds (insert k ks) (insert i is))"
| "proper_deltas ((k, More_Args a) # ds) ks is = (k \<in> ks \<and> proper_deltas ds ks is)"

definition call_of :: "sent_call \<Rightarrow> accumulator" where
  "call_of c = (case c of (k, i, n, a) \<Rightarrow> \<lparr>ac_id = i, ac_name = n, ac_args = a\<rparr>)"

abbreviation "sent_index \<equiv> (fst :: sent_call \<Rightarrow> int)"
abbreviation "sent_id \<equiv> (\<lambda>c :: sent_call. fst (snd c))"

definition collects :: "sent_call list \<Rightarrow> collecting \<Rightarrow> bool" where
  "collects cs st \<longleftrightarrow> co_heap st = map call_of cs \<and>
     co_ids st = zip (map sent_id cs) [0..<length cs] \<and> co_index st = zip (map sent_index cs) [0..<length cs] \<and>
     distinct (map sent_index cs) \<and> distinct (map sent_id cs)"

lemma map_of_zip_upt: "distinct ks \<Longrightarrow> p < length ks \<Longrightarrow> map_of (zip ks [0..<length ks]) (ks ! p) = Some p"
  by (simp add: map_of_zip_nth)

lemma map_of_zip_notin: "k \<notin> set ks \<Longrightarrow> map_of (zip ks [0..<length ks]) k = None"
  by (auto simp: map_of_eq_None_iff dest: set_zip_leftD)

lemma absorb_delta_open:
  assumes "map_of (co_index st) k = None" "map_of (co_ids st) i = None" "i \<noteq> []"
  shows "absorb_delta (delta_json (k, Open_Call i n a)) st =
    \<lparr>co_heap = co_heap st @ [\<lparr>ac_id = i, ac_name = n, ac_args = a\<rparr>],
     co_ids = map_set i (length (co_heap st)) (co_ids st), co_index = map_set k (length (co_heap st)) (co_index st)\<rparr>"
  using assms by (simp add: absorb_delta_def Let_def int_member_def str_member_def sub_def truthy_def nth_append)

lemma absorb_open:
  assumes "collects cs st" "k \<notin> set (map sent_index cs)" "i \<notin> set (map sent_id cs)" "i \<noteq> []"
  shows "collects (send_delta (k, Open_Call i n a) cs) (absorb_delta (delta_json (k, Open_Call i n a)) st)"
proof -
  have st: "map_of (co_index st) k = None" "map_of (co_ids st) i = None"
    using assms map_of_zip_notin [of k "map sent_index cs"] map_of_zip_notin [of i "map sent_id cs"]
    by (simp_all add: collects_def)
  have "map_set k (length cs) (zip (map sent_index cs) [0..<length cs]) =
      zip (map sent_index cs) [0..<length cs] @ [(k, length cs)]"
    "map_set i (length cs) (zip (map sent_id cs) [0..<length cs]) = zip (map sent_id cs) [0..<length cs] @ [(i, length cs)]"
    using assms by (auto intro!: map_set_new dest!: set_zip_leftD)
  then show ?thesis
    using assms unfolding absorb_delta_open [OF st assms(4)] by (simp add: collects_def call_of_def)
qed

lemma absorb_delta_more:
  assumes "map_of (co_index st) k = Some p" "p < length (co_heap st)"
  shows "absorb_delta (delta_json (k, More_Args a)) st =
    st\<lparr>co_heap := (co_heap st)[p := (co_heap st ! p)\<lparr>ac_args := ac_args (co_heap st ! p) @ a\<rparr>]\<rparr>"
proof -
  obtain i n r where "co_heap st ! p = \<lparr>ac_id = i, ac_name = n, ac_args = r\<rparr>" by (cases "co_heap st ! p")
  then show ?thesis
    using assms by (cases st)
      (simp add: absorb_delta_def Let_def int_member_def str_member_def sub_def truthy_def)
qed

lemma absorb_more:
  assumes "collects cs st" "k \<in> set (map sent_index cs)"
  shows "collects (send_delta (k, More_Args a) cs) (absorb_delta (delta_json (k, More_Args a)) st)"
proof -
  obtain p where p: "p < length cs" "sent_index (cs ! p) = k" using assms(2) by (auto simp: in_set_conv_nth)
  have dist: "distinct (map sent_index cs)" using assms(1) by (simp add: collects_def)
  have found: "map_of (co_index st) k = Some p"
    using assms(1) p map_of_zip_upt [OF dist, of p] by (simp add: collects_def)
  have upd: "(map call_of cs)[p := (call_of (cs ! p))\<lparr>ac_args := ac_args (call_of (cs ! p)) @ a\<rparr>] =
      map call_of (send_delta (k, More_Args a) cs)"
  proof (rule nth_equalityI)
    fix q assume "q < length ((map call_of cs)[p := (call_of (cs ! p))\<lparr>ac_args := ac_args (call_of (cs ! p)) @ a\<rparr>])"
    then have q: "q < length cs" by simp
    then have "sent_index (cs ! q) = k \<longleftrightarrow> q = p"
      using dist p by (metis length_map nth_eq_iff_index_eq nth_map)
    then show "(map call_of cs)[p := (call_of (cs ! p))\<lparr>ac_args := ac_args (call_of (cs ! p)) @ a\<rparr>] ! q =
        map call_of (send_delta (k, More_Args a) cs) ! q"
      using q p(1) by (cases "cs ! q") (auto simp: call_of_def)
  qed simp
  have keep: "map sent_index (send_delta (k, More_Args a) cs) = map sent_index cs"
    "map sent_id (send_delta (k, More_Args a) cs) = map sent_id cs" "length (send_delta (k, More_Args a) cs) = length cs"
    by (auto simp: case_prod_beta)
  have "co_heap st ! p = call_of (cs ! p)" using assms(1) p by (simp add: collects_def)
  then have "absorb_delta (delta_json (k, More_Args a)) st =
      st\<lparr>co_heap := (co_heap st)[p := (call_of (cs ! p))\<lparr>ac_args := ac_args (call_of (cs ! p)) @ a\<rparr>]\<rparr>"
    using absorb_delta_more [OF found] p(1) assms(1) by (simp add: collects_def)
  then show ?thesis
    using assms(1) upd keep unfolding collects_def by (simp del: map_map send_delta.simps)
qed

lemma absorb_proper:
  "collects cs st \<Longrightarrow> proper_deltas ds (set (map sent_index cs)) (set (map sent_id cs)) \<Longrightarrow>
    \<exists>st'. absorb_deltas (map delta_json ds) st = Some st' \<and> collects (fold send_delta ds cs) st'"
proof (induction ds arbitrary: cs st)
  case (Cons d ds)
  obtain k e where d: "d = (k, e)" by (cases d)
  show ?case
  proof (cases e)
    case (Open_Call i n a)
    then have "collects (send_delta d cs) (absorb_delta (delta_json d) st)"
      using absorb_open [OF Cons.prems(1), of k i n a] Cons.prems(2) d by simp
    then show ?thesis using Cons.IH [of "send_delta d cs"] Cons.prems(2) d Open_Call by simp
  next
    case (More_Args a)
    then have "collects (send_delta d cs) (absorb_delta (delta_json d) st)"
      using absorb_more [OF Cons.prems(1), of k a] Cons.prems(2) d by simp
    moreover have "map sent_index (send_delta d cs) = map sent_index cs" "map sent_id (send_delta d cs) = map sent_id cs"
      using d More_Args by (auto simp: case_prod_beta)
    ultimately show ?thesis using Cons.IH [of "send_delta d cs"] Cons.prems(2) d More_Args
      by simp
  qed
qed simp

subsection \<open>From the text to the payloads\<close>

lemma hex_digit_printable: "n < 16 \<Longrightarrow> hex_digit n \<noteq> CHR 0x0A"
proof
  assume "n < 16" "hex_digit n = CHR 0x0A"
  moreover have "hex_value (CHR 0x0A) = None" by code_simp
  ultimately show False using hex_value_digit [of n] by simp
qed

lemma escape_char_no_newline: "CHR 0x0A \<notin> set (escape_char c)"
proof -
  have "hex_digit ((of_char c :: nat) div 16) \<noteq> CHR 0x0A" if "(of_char c :: nat) < 32"
    using that by (intro hex_digit_printable) simp
  moreover have "hex_digit ((of_char c :: nat) mod 16) \<noteq> CHR 0x0A" by (intro hex_digit_printable) simp
  ultimately show ?thesis by (auto simp: escape_char_def)
qed

lemma quote_no_newline: "CHR 0x0A \<notin> set (quote s)"
  using escape_char_no_newline by (auto simp: quote_def)

lemma join_no_newline: "list_all (\<lambda>x. CHR 0x0A \<notin> set x) (sep # xs) \<Longrightarrow> CHR 0x0A \<notin> set (join sep xs)"
  by (induction sep xs rule: join.induct) auto

lemma show_int_no_newline: "CHR 0x0A \<notin> set (show_int i)"
proof -
  have "\<not> is_dec (CHR 0x0A)" by code_simp
  then have "CHR 0x0A \<notin> set (show_nat n)" for n using show_nat_dec [of n] by (auto simp: list_all_iff)
  then show ?thesis by (simp add: show_int_def)
qed

lemma stringify_no_newline: "CHR 0x0A \<notin> set (stringify j)"
proof (induction j rule: stringify.induct)
  case (5 xs)
  then show ?case using join_no_newline [of "'',''" "map stringify xs"] by (auto simp: list_all_iff)
next
  case (6 ms)
  have "list_all (\<lambda>x. CHR 0x0A \<notin> set x) ('','' # map (\<lambda>(k, v). quote k @ CHR '':'' # stringify v) ms)"
    using 6 quote_no_newline by (fastforce simp: list_all_iff)
  from join_no_newline [OF this] show ?case by simp
qed (auto simp: show_int_no_newline quote_no_newline)

lemma split_boundary_frame: "CHR 0x0A \<notin> set p \<Longrightarrow> split_boundary (p @ CHR 0x0A # CHR 0x0A # r) = Some (p, r)"
proof (induction p)
  case (Cons c p)
  then show ?case by (cases p) auto
qed simp

lemma drain_frames:
  "list_all (\<lambda>p. CHR 0x0A \<notin> set p) ps \<Longrightarrow> drain_events (concat (map frame_event ps)) = (map (\<lambda>p. ''data: '' @ p) ps, [])"
proof (induction ps)
  case (Cons p ps)
  have "split_boundary (concat (map frame_event (p # ps))) = Some (''data: '' @ p, concat (map frame_event ps))"
    using split_boundary_frame [of "''data: '' @ p" "concat (map frame_event ps)"] Cons.prems
    by (simp add: frame_event_def)
  then show ?case
    using Cons by (simp add: drain_events.simps [of "frame_event p @ concat (map frame_event ps)"])
qed simp

lemma sse_data_frame: "CHR 0x0A \<notin> set p \<Longrightarrow> sse_data (''data: '' @ p) = Some p"
  using split_on_no_sep [of "CHR 0x0A" "''data: '' @ p"]
  by (simp add: sse_data_def List.map_filter_def starts_with_def)

lemma payloads_of_response:
  "sse_payloads [] [response_text cs] = map (\<lambda>c. stringify (chunk_json c)) cs @ [''[DONE]'']"
proof -
  let ?ps = "map (\<lambda>c. stringify (chunk_json c)) cs @ [''[DONE]'']"
  have ok: "list_all (\<lambda>p. CHR 0x0A \<notin> set p) ?ps" by (simp add: list_all_iff stringify_no_newline)
  have "response_text cs = concat (map frame_event ?ps)" by (simp add: response_text_def comp_def)
  then have "drain_events (response_text cs) = (map (\<lambda>p. ''data: '' @ p) ?ps, [])"
    using drain_frames [OF ok] by simp
  moreover have "List.map_filter sse_data (map (\<lambda>p. ''data: '' @ p) ps) = ps"
    if "list_all (\<lambda>p. CHR 0x0A \<notin> set p) ps" for ps
    using that by (induction ps) (simp_all add: List.map_filter_def sse_data_frame [simplified])
  ultimately show ?thesis using ok by (simp del: map_append add: trim_def trim_start_def)
qed

subsection \<open>From the payloads to the calls\<close>

lemma chunk_distinct_keys: "distinct_keys (chunk_json c)"
proof -
  have "distinct_keys (delta_json d)" for d by (cases d rule: delta_json.cases) auto
  then have "list_all distinct_keys (map delta_json ds)" for ds by (simp only: list_all_iff set_map ball_simps) blast
  then show ?thesis by (cases c) auto
qed

lemma parse_chunk: "parse_payload (stringify (chunk_json c)) = Some (chunk_json c)"
proof -
  have "parse_json (stringify (chunk_json c)) = Some (chunk_json c)" by (rule parse_stringify [OF chunk_distinct_keys])
  moreover have "stringify (chunk_json c) \<noteq> ''[DONE]''" "chunk_json c \<noteq> JNull" by (cases c; simp)+
  ultimately show ?thesis by (simp add: parse_payload_def)
qed

lemmas reading_defs = sub_def str_member_def first_choice_def openai_text_def anthropic_text_def text_delta_def
  openai_stop_def anthropic_stop_def next_stop_def absorb_openai_def absorb_anthropic_def json_falsy_def Let_def

lemma absorb_no_choices: "absorb_choices [] = Some"
  by (rule ext) simp

lemma chunk_text_delta: "(if text_delta (chunk_json c) = [] then [] else [text_delta (chunk_json c)]) = chunk_texts c"
  by (cases c) (simp_all add: reading_defs)

lemma absorb_chunk: "absorb_openai (chunk_json c) st = absorb_deltas (map delta_json (chunk_deltas c)) st"
  by (cases c) (simp_all add: absorb_openai_def sub_def absorb_no_choices)

lemma anthropic_skips_chunk: "absorb_anthropic (chunk_json c) st = st"
  by (cases c) (simp_all add: absorb_anthropic_def str_member_def)

lemma stop_of_chunk:
  "s \<in> {Stop_End, Stop_Tool_Use} \<Longrightarrow> next_stop (chunk_json c) s = (if c = Finishes then Stop_Tool_Use else s)"
  by (cases c) (auto simp: reading_defs)

lemma proper_append:
  "proper_deltas (ds @ es) (set (map sent_index cs)) (set (map sent_id cs)) \<longleftrightarrow>
     proper_deltas ds (set (map sent_index cs)) (set (map sent_id cs)) \<and>
     proper_deltas es (set (map sent_index (fold send_delta ds cs))) (set (map sent_id (fold send_delta ds cs)))"
proof (induction ds arbitrary: cs)
  case (Cons d ds)
  obtain k e where d: "d = (k, e)" by (cases d)
  show ?case
  proof (cases e)
    case (Open_Call i n a)
    then show ?thesis using Cons.IH [of "send_delta d cs"] d by simp
  next
    case (More_Args a)
    have "map sent_index (send_delta d cs) = map sent_index cs" "map sent_id (send_delta d cs) = map sent_id cs"
      using d More_Args by (auto simp: case_prod_beta)
    then show ?thesis using Cons.IH [of "send_delta d cs"] d More_Args by (simp del: send_delta.simps)
  qed
qed simp

lemma finalize_collected: "collects cs st \<Longrightarrow> finalize_calls st = map (finish_call \<circ> call_of) cs"
proof -
  assume c: "collects cs st"
  have "rev (remdups (rev ([0..<length cs] @ [0..<length cs]))) = [0..<length cs]"
    by (simp add: remdups_append distinct_remdups_id)
  then show ?thesis
    using c by (auto simp: finalize_calls_def collects_def intro!: nth_equalityI)
qed

lemma iterate_chunks:
  assumes "collects cs st" "s \<in> {Stop_End, Stop_Tool_Use}"
    "proper_deltas (concat (map chunk_deltas ms)) (set (map sent_index cs)) (set (map sent_id cs))"
  shows "iterate_payloads (map (\<lambda>c. stringify (chunk_json c)) ms @ [''[DONE]'']) st s =
    (concat (map chunk_texts ms),
     Inr (map (finish_call \<circ> call_of) (fold send_delta (concat (map chunk_deltas ms)) cs),
          if fold send_delta (concat (map chunk_deltas ms)) cs = [] \<and> Finishes \<notin> set ms \<and> s = Stop_End
          then Stop_End else Stop_Tool_Use))"
  using assms
proof (induction ms arbitrary: cs st s)
  case Nil
  then show ?case by (auto simp: parse_payload_def finalize_collected Let_def)
next
  case (Cons m ms)
  have p: "proper_deltas (chunk_deltas m) (set (map sent_index cs)) (set (map sent_id cs))"
    "proper_deltas (concat (map chunk_deltas ms)) (set (map sent_index (fold send_delta (chunk_deltas m) cs)))
       (set (map sent_id (fold send_delta (chunk_deltas m) cs)))"
    using Cons.prems(3) proper_append by auto
  obtain st' where st': "absorb_deltas (map delta_json (chunk_deltas m)) st = Some st'"
    "collects (fold send_delta (chunk_deltas m) cs) st'"
    using absorb_proper [OF Cons.prems(1) p(1)] by blast
  note IH = Cons.IH [OF st'(2) _ p(2), of "next_stop (chunk_json m) s"]
  show ?case
    using IH Cons.prems(2) st'(1) chunk_text_delta [of m] stop_of_chunk [OF Cons.prems(2), of m]
    by (auto simp: parse_chunk absorb_chunk anthropic_skips_chunk Let_def simp del: chunk_json.simps)
qed

lemma response_arrives:
  assumes "proper_deltas (concat (map chunk_deltas ms)) {} {}"
  shows "iterate_stream [response_text ms] =
    (concat (map chunk_texts ms),
     Inr (map (finish_call \<circ> call_of) (sent_calls (concat (map chunk_deltas ms))),
          if sent_calls (concat (map chunk_deltas ms)) = [] \<and> Finishes \<notin> set ms
          then Stop_End else Stop_Tool_Use))"
proof -
  have "collects [] nothing_collected" by (simp add: collects_def nothing_collected_def)
  from iterate_chunks [OF this, of Stop_End ms] assms show ?thesis
    by (simp add: iterate_stream_def payloads_of_response sent_calls_def del: sse_payloads.simps)
qed

text \<open>C23: The calls a provider streams are the calls that arrive. Suppose an OpenAI-style
  response in which each call opens with its id and name in its first part, indices and ids are
  not reused, and the stream either reaches its stop reason or contains no calls. Then for any
  order in which the later parts of several calls are interleaved, any division of the parts
  into chunks between texts, and any cutting of the resulting text into pieces, the iterator
  yields the texts that are not empty, and then exactly the calls that were opened, in the order
  in which they were opened, each with its id, its name and its whole argument text; the stop
  reason asks for tools exactly if the provider announced it.\<close>

theorem streamed_calls_arrive:
  assumes "proper_deltas (concat (map chunk_deltas ms)) {} {}" "concat pieces = response_text ms"
    and "Finishes \<in> set ms \<or> sent_calls (concat (map chunk_deltas ms)) = []"
  shows "iterate_stream pieces =
    (concat (map chunk_texts ms),
     Inr (map (finish_call \<circ> call_of) (sent_calls (concat (map chunk_deltas ms))),
          if Finishes \<in> set ms then Stop_Tool_Use else Stop_End))"
  using response_arrives [OF assms(1)] iterate_stream_concat [of pieces] assms(3) by (auto simp: assms(2))

lemma streamed_calls_arrive_witness:
  "iterate_stream [response_text [Says ''Hi'', Calls [(0, Open_Call ''a'' ''ls'' ''[''), (1, Open_Call ''b'' ''cat'' [])],
     Calls [(0, More_Args '']'')], Finishes]] =
   ([''Hi''], Inr (map finish_call [\<lparr>ac_id = ''a'', ac_name = ''ls'', ac_args = ''[]''\<rparr>,
     \<lparr>ac_id = ''b'', ac_name = ''cat'', ac_args = []\<rparr>], Stop_Tool_Use))"
  by (subst streamed_calls_arrive [of "[Says ''Hi'', Calls [(0, Open_Call ''a'' ''ls'' ''[''), (1, Open_Call ''b'' ''cat'' [])],
     Calls [(0, More_Args '']'')], Finishes]"]) (simp_all add: sent_calls_def call_of_def)

end
