(* ===== verification/Bundle_Turn.thy ===== *)
theory Bundle_Turn
  imports Bundle_Stream Capability_Modes
begin

text \<open>
  A turn of a bundle: \<open>runBundleTurn\<close> (\<open>packages/runtime/bundle-sdk/src/runtime.ts\<close>). A bundle
  runs outside its host; it reads the history, asks the model through the host, runs the tools
  it brings itself and tells the clients and the session's log what happened, up to 25 times.

  What the author of a bundle supplies, the model and the host are functions over a world of
  any type. Results are \<open>Inl\<close> of a message where the code throws. Broadcasts, log entries and
  reports whose failure the code swallows are functions on the world alone. The trace lists
  what the turn did, in order. Promises are awaited one after the other, so every step has its
  place in that order.
\<close>

section \<open>Bundles\<close>

type_synonym ('w, 'a) effect = "'w \<Rightarrow> (string + 'a) \<times> 'w"

text \<open>
  An element of a list of tools: any value. One without a text as its name or without a
  function to execute is not a tool. A tool returns a JSON value or \<open>undefined\<close> (\<open>None\<close>).
\<close>

record 'w offered_tool =
  ot_name :: "string option"
  ot_description :: "string option"
  ot_parameters :: "json option"
  ot_execute :: "(json \<Rightarrow> id \<Rightarrow> ('w, json option) effect) option"

text \<open>
  A capability. Before inference, a hook may return a new list of messages (\<open>None\<close>: something
  that is no list). What hooks after tools return or throw is ignored.
\<close>

record 'w bundle_capability =
  bc_id :: id
  bc_name :: string
  bc_tools :: "('w, 'w offered_tool list) effect"
  bc_sections :: "('w, bundle_entry list) effect"
  bc_before :: "(json list \<Rightarrow> ('w, json list option) effect) option"
  bc_after :: "(string \<Rightarrow> json \<Rightarrow> bool \<Rightarrow> string \<Rightarrow> 'w \<Rightarrow> 'w) option"

record 'w bundle_setup =
  bs_prompt :: bundle_prompt
  bs_model :: "('w, string \<times> string) effect"
  bs_capabilities :: "('w, 'w bundle_capability list) effect"
  bs_tools :: "('w, 'w offered_tool list) effect"

record bundle_mode =
  bm_id :: id
  bm_name :: string
  bm_tools :: "name_filter option"
  bm_capabilities :: "name_filter option"

text \<open>
  The environment of a bundle: its token, version and active mode; the model, which answers with
  pieces of text and may then fail; the history of the session; the host's hooks before
  inference, before a tool (whether to block, and why) and after a tool; broadcasts, the log,
  and the clock.
\<close>

record 'w bundle_env =
  be_token :: "string option"
  be_version :: "string option"
  be_mode :: "bundle_mode option"
  be_llm :: "(json \<Rightarrow> ('w, string list \<times> string option) effect) option"
  be_history :: "('w, json) effect"
  be_inspect :: "(psection list \<Rightarrow> string \<Rightarrow> 'w \<Rightarrow> 'w) option"
  be_before_inference :: "json list \<Rightarrow> ('w, json list) effect"
  be_before_tool :: "string \<Rightarrow> json \<Rightarrow> id \<Rightarrow> ('w, bool \<times> string option) effect"
  be_after_tool :: "string \<Rightarrow> json \<Rightarrow> bool \<Rightarrow> 'w \<Rightarrow> 'w"
  be_broadcast :: "event \<Rightarrow> 'w \<Rightarrow> 'w"
  be_append :: "entry_data \<Rightarrow> 'w \<Rightarrow> 'w"
  be_now :: "'w \<Rightarrow> int"
  be_clock :: day_clock

section \<open>Messages\<close>

text \<open>The messages a turn keeps: of the system, the user, the assistant with its calls, and of tools.\<close>

datatype turn_message =
    System_Says string
  | User_Says string
  | Assistant_Says string "(id \<times> string \<times> string) list"
  | Tool_Says id string

definition call_json :: "id \<times> string \<times> string \<Rightarrow> json" where
  "call_json c = (case c of (i, n, a) \<Rightarrow> JObj [(''id'', JStr i), (''type'', JStr ''function''),
     (''function'', JObj [(''name'', JStr n), (''arguments'', JStr a)])])"

fun turn_message_json :: "turn_message \<Rightarrow> json" where
  "turn_message_json (System_Says t) = JObj [(''role'', JStr ''system''), (''content'', JStr t)]"
| "turn_message_json (User_Says t) = JObj [(''role'', JStr ''user''), (''content'', JStr t)]"
| "turn_message_json (Assistant_Says t cs) = JObj ([(''role'', JStr ''assistant''), (''content'', JStr t)] @
     (if cs = [] then [] else [(''tool_calls'', JArr (map call_json cs))]))"
| "turn_message_json (Tool_Says i t) =
     JObj [(''role'', JStr ''tool''), (''tool_call_id'', JStr i), (''content'', JStr t)]"

definition text_of_block :: "json \<Rightarrow> string option" where
  "text_of_block b = (case b of JStr t \<Rightarrow> Some t
     | JObj ms \<Rightarrow> if member b ''type'' = Some (JStr ''text'') then str_member b ''text'' else None | _ \<Rightarrow> None)"

fun flatten_content :: "json \<Rightarrow> string" where
  "flatten_content (JStr t) = t"
| "flatten_content (JArr bs) = concat (List.map_filter text_of_block bs)"
| "flatten_content _ = []"

definition history_message :: "json \<Rightarrow> turn_message option" where
  "history_message j =
     (let t = flatten_content (or_else (member j ''content'') JNull); r = str_member j ''role''
      in if t = [] then None else if r = Some ''user'' then Some (User_Says t)
         else if r = Some ''assistant'' then Some (Assistant_Says t []) else None)"

fun history_to_messages :: "json \<Rightarrow> turn_message list" where
  "history_to_messages (JArr js) = List.map_filter history_message js"
| "history_to_messages _ = []"

definition advertisement :: "string \<Rightarrow> 'w offered_tool \<Rightarrow> json" where
  "advertisement n t = JObj [(''type'', JStr ''function''), (''function'', JObj [(''name'', JStr n),
     (''description'', JStr (or_else (ot_description t) [])),
     (''parameters'', or_else (ot_parameters t) (JObj [(''type'', JStr ''object''), (''properties'', JObj [])]))])]"

definition stringify_tool_result :: "json option \<Rightarrow> string" where
  "stringify_tool_result r =
     (case r of
        None \<Rightarrow> ''undefined''
      | Some j \<Rightarrow>
          (let parts = (case member j ''content'' of Some (JArr bs) \<Rightarrow> List.map_filter text_of_block bs | _ \<Rightarrow> [])
           in if parts \<noteq> [] then concat parts
              else (case j of JObj ms \<Rightarrow> stringify j | JArr js \<Rightarrow> stringify j | _ \<Rightarrow> js_string j)))"

section \<open>Modes and tools\<close>

definition name_allowed :: "name_filter option \<Rightarrow> string \<Rightarrow> bool" where
  "name_allowed f n =
     (case f of None \<Rightarrow> True
      | Some g \<Rightarrow> (listed (nf_allow g) \<longrightarrow> n \<in> set (the (nf_allow g))) \<and>
                  (listed (nf_deny g) \<longrightarrow> n \<notin> set (the (nf_deny g))))"

definition permitted_tools :: "bundle_mode option \<Rightarrow> 'w offered_tool list \<Rightarrow> 'w offered_tool list" where
  "permitted_tools m ts =
     filter (\<lambda>t. case ot_name t of None \<Rightarrow> True | Some n \<Rightarrow> name_allowed (Option.bind m bm_tools) n) ts"

text \<open>The tools that can be called, in order; of tools with the same name the last one is found.\<close>

definition real_tools :: "'w offered_tool list \<Rightarrow> (string \<times> 'w offered_tool) list" where
  "real_tools ts =
     List.map_filter (\<lambda>t. if ot_execute t = None then None else map_option (\<lambda>n. (n, t)) (ot_name t)) ts"

definition tool_named :: "'w offered_tool list \<Rightarrow> string \<Rightarrow> 'w offered_tool option" where
  "tool_named ts n = map_of (rev (real_tools ts)) n"

text \<open>What the capabilities contribute to a turn.\<close>

record 'w contribution =
  ct_tools :: "'w offered_tool list"
  ct_entries :: "bundle_entry list"
  ct_sections :: "psection list"
  ct_excluded :: "string list"
  ct_before :: "(json list \<Rightarrow> ('w, json list option) effect) list"
  ct_after :: "(string \<Rightarrow> json \<Rightarrow> bool \<Rightarrow> string \<Rightarrow> 'w \<Rightarrow> 'w) list"

definition normalized :: "'w bundle_capability \<Rightarrow> bundle_entry list \<Rightarrow> psection list" where
  "normalized c es =
     List.map_filter (\<lambda>(i, e). normalize_bundle_section e (bc_id c) (bc_name c) i) (zip [0..<length es] es)"

definition contribute :: "bundle_mode option \<Rightarrow> 'w bundle_capability \<Rightarrow> 'w offered_tool list \<Rightarrow>
    bundle_entry list \<Rightarrow> 'w contribution \<Rightarrow> 'w contribution" where
  "contribute m c ts es k =
     (let ok = name_allowed (Option.bind m bm_capabilities) (bc_id c); ns = normalized c es
      in \<lparr>ct_tools = ct_tools k @ (if ok then ts else []),
          ct_entries = ct_entries k @ (if ok then es else []),
          ct_sections = ct_sections k @ ns,
          ct_excluded = ct_excluded k @ (if ok then [] else map sec_key ns),
          ct_before = ct_before k @ (if ok then case bc_before c of None \<Rightarrow> [] | Some f \<Rightarrow> [f] else []),
          ct_after = ct_after k @ (if ok then case bc_after c of None \<Rightarrow> [] | Some f \<Rightarrow> [f] else [])\<rparr>)"

fun collect_contributions :: "bundle_mode option \<Rightarrow> 'w bundle_capability list \<Rightarrow> 'w contribution \<Rightarrow>
    ('w, 'w contribution) effect" where
  "collect_contributions m [] k w = (Inr k, w)"
| "collect_contributions m (c # cs) k w =
     (case bc_tools c w of
        (Inl e, w1) \<Rightarrow> (Inl e, w1)
      | (Inr ts, w1) \<Rightarrow>
          (case bc_sections c w1 of
             (Inl e, w2) \<Rightarrow> (Inl e, w2)
           | (Inr es, w2) \<Rightarrow> collect_contributions m cs (contribute m c ts es k) w2))"

definition inspection_section :: "bool \<Rightarrow> string list \<Rightarrow> string \<Rightarrow> psection \<Rightarrow> psection" where
  "inspection_section verbatim excluded mode_id s =
     (let drop_for = (\<lambda>reason. s\<lparr>sec_content := [], sec_lines := 0, sec_tokens := 0, sec_included := False,
            sec_reason := Some reason\<rparr>)
      in if verbatim then drop_for ''Suppressed by setup.prompt: string override''
         else if sec_key s \<in> set excluded then drop_for (''Filtered by mode: '' @ mode_id)
         else s)"

definition is_verbatim :: "bundle_prompt \<Rightarrow> bool" where
  "is_verbatim p = (case p of Verbatim t \<Rightarrow> True | Composed opts \<Rightarrow> False)"

section \<open>The state of a turn\<close>

text \<open>
  \<open>Asked\<close>: the model was sent a request, made from this conversation. \<open>Shown\<close>: an event was
  broadcast. \<open>Stored\<close>: an entry was sent to the log. \<open>Gated\<close>: the host was asked about a call;
  \<open>None\<close>: it could not be asked. \<open>Ran\<close>: the tool was executed.
\<close>

datatype turn_act =
    Inspected "psection list"
  | Asked "turn_message list" json
  | Shown event
  | Stored entry_data
  | Gated id string "(bool \<times> string option) option"
  | Ran id string json
  | Reported string bool

record 'w bundle_turn =
  tn_world :: 'w
  tn_trace :: "turn_act list"
  tn_conversation :: "turn_message list"
  tn_final :: "message list"

definition act :: "turn_act \<Rightarrow> ('w \<Rightarrow> 'w) \<Rightarrow> 'w bundle_turn \<Rightarrow> 'w bundle_turn" where
  "act a f st = st\<lparr>tn_world := f (tn_world st), tn_trace := tn_trace st @ [a]\<rparr>"

definition safe_broadcast :: "'w bundle_env \<Rightarrow> event \<Rightarrow> 'w bundle_turn \<Rightarrow> 'w bundle_turn" where
  "safe_broadcast E e = act (Shown e) (be_broadcast E e)"

definition store_entry :: "'w bundle_env \<Rightarrow> message_data \<Rightarrow> 'w bundle_turn \<Rightarrow> 'w bundle_turn" where
  "store_entry E d = act (Stored (Message d)) (be_append E (Message d))"

definition say :: "turn_message \<Rightarrow> 'w bundle_turn \<Rightarrow> 'w bundle_turn" where
  "say m st = st\<lparr>tn_conversation := tn_conversation st @ [m]\<rparr>"

definition persist_tool_result :: "'w bundle_env \<Rightarrow> id \<Rightarrow> string \<Rightarrow> string \<Rightarrow> bool \<Rightarrow> 'w bundle_turn \<Rightarrow> 'w bundle_turn" where
  "persist_tool_result E i n t err st =
     store_entry E \<lparr>md_role = Tool_Result, md_content = JArr [text_block t], md_tool_call_id = Some i,
       md_tool_name = Some n, md_is_error = Some err, md_timestamp = Some (be_now E (tn_world st)),
       md_metadata = None\<rparr> st"

definition tool_text :: "string \<Rightarrow> tool_outcome" where
  "tool_text t = \<lparr>to_content = [Text_Block t], to_details = JNull\<rparr>"

section \<open>Running a tool\<close>

definition call_id :: "nat \<Rightarrow> parsed_call \<Rightarrow> id" where
  "call_id iter c = (if pd_id c = [] then ''call_'' @ show_nat iter @ ''_'' @ pd_name c else pd_id c)"

text \<open>What the model is told of a call: its text, and whether it failed.\<close>

definition execute_tool :: "'w offered_tool list \<Rightarrow> id \<Rightarrow> parsed_call \<Rightarrow> 'w bundle_turn \<Rightarrow> (string \<times> bool) \<times> 'w bundle_turn" where
  "execute_tool ts i c st =
     (case Option.bind (tool_named ts (pd_name c)) ot_execute of
        None \<Rightarrow> ((''Unknown tool: '' @ pd_name c, True), st)
      | Some f \<Rightarrow>
          (case f (pd_args c) i (tn_world st) of
             (r, w) \<Rightarrow> ((case r of Inl e \<Rightarrow> (e, True) | Inr v \<Rightarrow> (stringify_tool_result v, False)),
               act (Ran i (pd_name c) (pd_args c)) (\<lambda>_. w) st)))"

definition ask_host :: "'w bundle_env \<Rightarrow> id \<Rightarrow> parsed_call \<Rightarrow> 'w bundle_turn \<Rightarrow> (bool \<times> string option) option \<times> 'w bundle_turn" where
  "ask_host E i c st =
     (case be_before_tool E (pd_name c) (pd_args c) i (tn_world st) of
        (r, w) \<Rightarrow> (case r of Inl e \<Rightarrow> None | Inr v \<Rightarrow> Some v,
          act (Gated i (pd_name c) (case r of Inl e \<Rightarrow> None | Inr v \<Rightarrow> Some v)) (\<lambda>_. w) st))"

definition blocks :: "(bool \<times> string option) option \<Rightarrow> bool" where
  "blocks v \<longleftrightarrow> (case v of Some (True, r) \<Rightarrow> True | _ \<Rightarrow> False)"

definition block_reason :: "(bool \<times> string option) option \<Rightarrow> string" where
  "block_reason v = or_else (Option.bind v snd) ''blocked by host hook''"

definition answer_call :: "'w bundle_env \<Rightarrow> id \<Rightarrow> string \<Rightarrow> string \<Rightarrow> bool \<Rightarrow> 'w bundle_turn \<Rightarrow> 'w bundle_turn" where
  "answer_call E i n t err st =
     say (Tool_Says i t) (persist_tool_result E i n t err (safe_broadcast E (Tool_End i n (tool_text t) err) st))"

fun run_after_hooks :: "(string \<Rightarrow> json \<Rightarrow> bool \<Rightarrow> string \<Rightarrow> 'w \<Rightarrow> 'w) list \<Rightarrow> parsed_call \<Rightarrow> bool \<Rightarrow> string \<Rightarrow> 'w \<Rightarrow> 'w" where
  "run_after_hooks [] c err t w = w"
| "run_after_hooks (h # hs) c err t w = run_after_hooks hs c err t (h (pd_name c) (pd_args c) err t w)"

definition run_tool_call :: "'w bundle_env \<Rightarrow> 'w contribution \<Rightarrow> nat \<Rightarrow> parsed_call \<Rightarrow> 'w bundle_turn \<Rightarrow> 'w bundle_turn" where
  "run_tool_call E k iter c st =
     (let i = call_id iter c; n = pd_name c; (v, st1) = ask_host E i c st;
          st2 = safe_broadcast E (Tool_Start i n (pd_args c)) st1
      in if blocks v then answer_call E i n (block_reason v) True st2
         else (let ((t, err), st3) = execute_tool (ct_tools k) i c st2;
                   st4 = act (Reported n err)
                     (\<lambda>w. be_after_tool E n (pd_args c) err (run_after_hooks (ct_after k) c err t w)) st3
               in answer_call E i n t err st4))"

fun run_tool_calls :: "'w bundle_env \<Rightarrow> 'w contribution \<Rightarrow> nat \<Rightarrow> parsed_call list \<Rightarrow> 'w bundle_turn \<Rightarrow> 'w bundle_turn" where
  "run_tool_calls E k iter [] st = st"
| "run_tool_calls E k iter (c # cs) st = run_tool_calls E k iter cs (run_tool_call E k iter c st)"

section \<open>Asking the model\<close>

fun run_before_hooks :: "(json list \<Rightarrow> ('w, json list option) effect) list \<Rightarrow> json list \<Rightarrow> ('w, json list) effect" where
  "run_before_hooks [] ms w = (Inr ms, w)"
| "run_before_hooks (h # hs) ms w =
     (case h ms w of
        (Inl e, w1) \<Rightarrow> (Inl e, w1)
      | (Inr r, w1) \<Rightarrow> run_before_hooks hs (or_else r ms) w1)"

definition prepare_messages :: "'w bundle_env \<Rightarrow> 'w contribution \<Rightarrow> json list \<Rightarrow> ('w, json list) effect" where
  "prepare_messages E k ms w =
     (case run_before_hooks (ct_before k) ms w of
        (Inl e, w1) \<Rightarrow> (Inl e, w1)
      | (Inr ms', w1) \<Rightarrow> be_before_inference E ms' w1)"

definition request_json :: "string \<times> string \<Rightarrow> json list \<Rightarrow> json list \<Rightarrow> json" where
  "request_json m ms ads = JObj ([(''provider'', JStr (fst m)), (''modelId'', JStr (snd m)), (''messages'', JArr ms)] @
     (if ads = [] then [] else [(''tools'', JArr ads)]))"

text \<open>The payloads of a stream that breaks off: an event that is not complete is lost.\<close>

fun complete_payloads :: "string \<Rightarrow> string list \<Rightarrow> string list" where
  "complete_payloads buf [] = []"
| "complete_payloads buf (c # cs) =
     (case drain_events (buf @ c) of (evs, buf') \<Rightarrow> List.map_filter sse_data evs @ complete_payloads buf' cs)"

definition read_stream :: "string list \<times> string option \<Rightarrow>
    string list \<times> (string + parsed_call list \<times> stop_reason)" where
  "read_stream s =
     (case s of
        (pieces, None) \<Rightarrow> iterate_stream pieces
      | (pieces, Some e) \<Rightarrow>
          (case iterate_payloads (complete_payloads [] pieces) nothing_collected Stop_End of
             (ds, Inl x) \<Rightarrow> (ds, Inl x)
           | (ds, Inr x) \<Rightarrow> (ds, Inl e)))"

definition partial_message :: "string \<times> string \<Rightarrow> int \<Rightarrow> block list \<Rightarrow> assistant" where
  "partial_message m now bs = \<lparr>as_content = bs, as_api = ''openai-completions'', as_provider = fst m,
     as_model = snd m, as_usage = zero_usage, as_stop = Stop_End, as_error = None, as_time = now\<rparr>"

definition text_delta_json :: "string \<Rightarrow> json" where
  "text_delta_json d = JObj [(''type'', JStr ''text_delta''), (''contentIndex'', JNum 0), (''delta'', JStr d)]"

text \<open>The texts arrive; \<open>t\<close> is the text so far. The partial message inside an update is the message it carries.\<close>

fun show_deltas :: "'w bundle_env \<Rightarrow> string \<times> string \<Rightarrow> int \<Rightarrow> string \<Rightarrow> string list \<Rightarrow> 'w bundle_turn \<Rightarrow> 'w bundle_turn" where
  "show_deltas E m now t [] st = st"
| "show_deltas E m now t (d # ds) st =
     show_deltas E m now (t @ d) ds
       (safe_broadcast E (Message_Update (Assistant_Message (partial_message m now [Text_Block (t @ d)]))
          (text_delta_json d)) st)"

definition block_of_call :: "parsed_call \<Rightarrow> block" where
  "block_of_call c = Tool_Call_Block \<lparr>tc_id = pd_id c, tc_name = pd_name c, tc_args = pd_args c\<rparr>"

definition final_message :: "string \<times> string \<Rightarrow> int \<Rightarrow> string \<Rightarrow> parsed_call list \<Rightarrow> stop_reason \<Rightarrow> assistant" where
  "final_message m now t cs s =
     (partial_message m now ((if t = [] then [] else [Text_Block t]) @ map block_of_call cs))\<lparr>as_stop := s\<rparr>"

definition spoken_call :: "parsed_call \<Rightarrow> id \<times> string \<times> string" where
  "spoken_call c = (pd_id c, pd_name c, if pd_raw c = [] then ''{}'' else pd_raw c)"

text \<open>The response is complete: it is shown, stored and becomes part of the conversation.\<close>

definition complete_response :: "'w bundle_env \<Rightarrow> string \<times> string \<Rightarrow> int \<Rightarrow> string \<Rightarrow> parsed_call list \<Rightarrow> stop_reason \<Rightarrow>
    'w bundle_turn \<Rightarrow> 'w bundle_turn" where
  "complete_response E m now t cs s st =
     (let a = final_message m now t cs s;
          st1 = safe_broadcast E (Message_End (Assistant_Message a)) (st\<lparr>tn_final := tn_final st @ [Assistant_Message a]\<rparr>);
          st2 = store_entry E \<lparr>md_role = Assistant, md_content = blocks_json (as_content a), md_tool_call_id = None,
            md_tool_name = None, md_is_error = None, md_timestamp = Some now, md_metadata = None\<rparr> st1
      in say (Assistant_Says t (map spoken_call cs)) st2)"

definition infer_round :: "'w bundle_env \<Rightarrow> 'w contribution \<Rightarrow> string \<times> string \<Rightarrow> json list \<Rightarrow>
    (json \<Rightarrow> ('w, string list \<times> string option) effect) \<Rightarrow> 'w bundle_turn \<Rightarrow> (string + parsed_call list \<times> stop_reason) \<times> 'w bundle_turn" where
  "infer_round E k m ads llm st =
     (case prepare_messages E k (map turn_message_json (tn_conversation st)) (tn_world st) of
        (Inl e, w) \<Rightarrow> (Inl e, st\<lparr>tn_world := w\<rparr>)
      | (Inr ms, w) \<Rightarrow>
          (let now = be_now E w; req = request_json m ms ads;
               st1 = safe_broadcast E (Message_Start (Assistant_Message (partial_message m now []))) (st\<lparr>tn_world := w\<rparr>);
               (r, w1) = llm req (tn_world st1);
               st2 = act (Asked (tn_conversation st1) req) (\<lambda>_. w1) st1
           in case r of
                Inl e \<Rightarrow> (Inl e, st2)
              | Inr s \<Rightarrow>
                  (case read_stream s of
                     (ds, Inl e) \<Rightarrow> (Inl e, show_deltas E m now [] ds st2)
                   | (ds, Inr (cs, stop)) \<Rightarrow>
                       (Inr (cs, stop), complete_response E m now (concat ds) cs stop (show_deltas E m now [] ds st2)))))"

text \<open>The rounds of a turn; \<open>n\<close> is the number of rounds left of the 25 a turn may have.\<close>

definition max_rounds :: nat where "max_rounds = 25"

fun turn_rounds :: "'w bundle_env \<Rightarrow> 'w contribution \<Rightarrow> string \<times> string \<Rightarrow> json list \<Rightarrow>
    (json \<Rightarrow> ('w, string list \<times> string option) effect) \<Rightarrow> nat \<Rightarrow> 'w bundle_turn \<Rightarrow> (string + unit) \<times> 'w bundle_turn" where
  "turn_rounds E k m ads llm 0 st = (Inl (''Bundle turn exceeded max inference iterations ('' @ show_nat max_rounds @ '')''), st)"
| "turn_rounds E k m ads llm (Suc n) st =
     (case infer_round E k m ads llm st of
        (Inl e, st1) \<Rightarrow> (Inl e, st1)
      | (Inr (cs, stop), st1) \<Rightarrow>
          if stop \<noteq> Stop_Tool_Use \<or> cs = [] then (Inr (), safe_broadcast E (Agent_End (tn_final st1)) st1)
          else turn_rounds E k m ads llm n (run_tool_calls E k (max_rounds - Suc n) cs st1))"

section \<open>The turn\<close>

definition no_contribution :: "'w offered_tool list \<Rightarrow> 'w contribution" where
  "no_contribution ts = \<lparr>ct_tools = ts, ct_entries = [], ct_sections = [], ct_excluded = [], ct_before = [], ct_after = []\<rparr>"

text \<open>What the bundle brings, in the order in which its functions are called.\<close>

definition gather :: "'w bundle_env \<Rightarrow> 'w bundle_setup \<Rightarrow> ('w, (string \<times> string) \<times> 'w contribution) effect" where
  "gather E S w =
     (case bs_model S w of
        (Inl e, w1) \<Rightarrow> (Inl e, w1)
      | (Inr m, w1) \<Rightarrow>
          (case bs_capabilities S w1 of
             (Inl e, w2) \<Rightarrow> (Inl e, w2)
           | (Inr cs, w2) \<Rightarrow>
               (case bs_tools S w2 of
                  (Inl e, w3) \<Rightarrow> (Inl e, w3)
                | (Inr ts, w3) \<Rightarrow>
                    (case collect_contributions (be_mode E) cs (no_contribution ts) w3 of
                       (Inl e, w4) \<Rightarrow> (Inl e, w4)
                     | (Inr k, w4) \<Rightarrow> (Inr (m, k\<lparr>ct_tools := permitted_tools (be_mode E) (ct_tools k)\<rparr>), w4)))))"

definition read_history :: "'w bundle_env \<Rightarrow> 'w \<Rightarrow> turn_message list \<times> 'w" where
  "read_history E w = (case be_history E w of (Inl e, w1) \<Rightarrow> ([], w1) | (Inr j, w1) \<Rightarrow> (history_to_messages j, w1))"

definition record_prompt_sections :: "'w bundle_env \<Rightarrow> 'w bundle_setup \<Rightarrow> 'w contribution \<Rightarrow> 'w bundle_turn \<Rightarrow> 'w bundle_turn" where
  "record_prompt_sections E S k st =
     (let ss = map (inspection_section (is_verbatim (bs_prompt S)) (ct_excluded k)
            (case be_mode E of None \<Rightarrow> ''unknown'' | Some m \<Rightarrow> bm_id m)) (ct_sections k)
      in case (be_inspect E, be_version E) of
           (Some f, Some v) \<Rightarrow> if v = [] then st else act (Inspected ss) (f ss v) st
         | _ \<Rightarrow> st)"

definition bundle_work :: "'w bundle_env \<Rightarrow> 'w bundle_setup \<Rightarrow> string \<Rightarrow> 'w \<Rightarrow> (string + unit) \<times> 'w bundle_turn" where
  "bundle_work E S prompt w =
     (case gather E S w of
        (Inl e, w1) \<Rightarrow> (Inl e, \<lparr>tn_world = w1, tn_trace = [], tn_conversation = [], tn_final = []\<rparr>)
      | (Inr (m, k), w1) \<Rightarrow>
          (let sys = merge_sections (be_clock E) (bs_prompt S) (ct_entries k);
               (hist, w2) = read_history E w1;
               st = \<lparr>tn_world = w2, tn_trace = [],
                 tn_conversation = (if sys = [] then [] else [System_Says sys]) @ hist @ [User_Says prompt], tn_final = []\<rparr>
           in if \<not> truthy (be_token E) then (Inl ''Missing __BUNDLE_TOKEN in bundle env'', st)
              else (case be_llm E of
                  None \<Rightarrow> (Inl ''Missing env.LLM service binding with inferStream method'', st)
                | Some llm \<Rightarrow>
                    turn_rounds E k m (map (\<lambda>(n, t). advertisement n t) (real_tools (ct_tools k))) llm max_rounds
                      (record_prompt_sections E S k st))))"

text \<open>An error is shown as a message; the stream the host reads then fails with it.\<close>

definition error_message :: "string \<Rightarrow> int \<Rightarrow> assistant" where
  "error_message e now = \<lparr>as_content = [Text_Block (''[Bundle error] '' @ e)], as_api = ''openai-completions'',
     as_provider = ''unknown'', as_model = ''unknown'', as_usage = zero_usage, as_stop = Stop_Error,
     as_error = Some e, as_time = now\<rparr>"

definition run_bundle_turn :: "'w bundle_env \<Rightarrow> 'w bundle_setup \<Rightarrow> string \<Rightarrow> 'w \<Rightarrow> (string + unit) \<times> 'w bundle_turn" where
  "run_bundle_turn E S prompt w =
     (case bundle_work E S prompt w of
        (Inr u, st) \<Rightarrow> (Inr u, st)
      | (Inl e, st) \<Rightarrow> (Inl e, safe_broadcast E (Agent_End [])
          (safe_broadcast E (Message_End (Assistant_Message (error_message e (be_now E (tn_world st))))) st)))"

section \<open>What a turn adds to its trace\<close>

definition shown_events :: "turn_act list \<Rightarrow> event list" where
  "shown_events as = List.map_filter (\<lambda>a. case a of Shown e \<Rightarrow> Some e | _ \<Rightarrow> None) as"

definition stored_data :: "turn_act list \<Rightarrow> entry_data list" where
  "stored_data as = List.map_filter (\<lambda>a. case a of Stored d \<Rightarrow> Some d | _ \<Rightarrow> None) as"

definition requests :: "turn_act list \<Rightarrow> turn_message list list" where
  "requests as = List.map_filter (\<lambda>a. case a of Asked c r \<Rightarrow> Some c | _ \<Rightarrow> None) as"

definition runs_tool :: "turn_act \<Rightarrow> bool" where
  "runs_tool a \<longleftrightarrow> (case a of Ran i n x \<Rightarrow> True | _ \<Rightarrow> False)"

lemma runs_tool_simps [simp]:
  "runs_tool (Ran i n x)" "\<not> runs_tool (Shown e)" "\<not> runs_tool (Stored d)" "\<not> runs_tool (Asked c r)"
  "\<not> runs_tool (Gated i n v)" "\<not> runs_tool (Reported n b)" "\<not> runs_tool (Inspected ss)"
  by (simp_all add: runs_tool_def)

definition ends_agent :: "event \<Rightarrow> bool" where
  "ends_agent e \<longleftrightarrow> (case e of Agent_End ms \<Rightarrow> True | _ \<Rightarrow> False)"

lemma ends_agent_simps [simp]:
  "ends_agent (Agent_End ms)" "\<not> ends_agent (Message_Start m)" "\<not> ends_agent (Message_Update m j)"
  "\<not> ends_agent (Message_End m)" "\<not> ends_agent (Tool_Start i n j)" "\<not> ends_agent (Tool_End i n out b)"
  by (simp_all add: ends_agent_def)

lemma trace_parts_append [simp]:
  "shown_events (as @ bs) = shown_events as @ shown_events bs" "stored_data (as @ bs) = stored_data as @ stored_data bs"
  "requests (as @ bs) = requests as @ requests bs"
  by (simp_all add: shown_events_def stored_data_def requests_def List.map_filter_def)

lemma trace_parts_simps [simp]:
  "shown_events [] = []" "stored_data [] = []" "requests [] = []"
  "shown_events (a # as) = (case a of Shown e \<Rightarrow> [e] | _ \<Rightarrow> []) @ shown_events as"
  "stored_data (a # as) = (case a of Stored d \<Rightarrow> [d] | _ \<Rightarrow> []) @ stored_data as"
  "requests (a # as) = (case a of Asked c r \<Rightarrow> [c] | _ \<Rightarrow> []) @ requests as"
  by (simp_all add: shown_events_def stored_data_def requests_def List.map_filter_def split: turn_act.split)

lemma shown_map [simp]: "shown_events (map Shown es) = es" "stored_data (map Shown es) = []" "requests (map Shown es) = []"
  by (induction es) simp_all

text \<open>The events frame their messages, and what they show is what is stored.\<close>

definition matched :: "turn_act list \<Rightarrow> bool" where
  "matched as \<longleftrightarrow> framed_events (shown_events as) \<and>
     event_views (shown_events as) = concat (map data_views (stored_data as))"

lemma event_views_append [simp]: "event_views (es @ fs) = event_views es @ event_views fs"
  by (simp add: event_views_def List.map_filter_def)

lemma matched_append: "matched as \<Longrightarrow> matched bs \<Longrightarrow> matched (as @ bs)"
  by (simp add: matched_def)

text \<open>Before a tool runs, the host was asked about this call and did not block it.\<close>

definition gated_runs :: "(string \<Rightarrow> bool) \<Rightarrow> turn_act list \<Rightarrow> bool" where
  "gated_runs ok as \<longleftrightarrow> (\<forall>before i n x after. as = before @ Ran i n x # after \<longrightarrow>
     (\<exists>earlier v. before = earlier @ [Gated i n v, Shown (Tool_Start i n x)] \<and> \<not> blocks v \<and> ok n))"

lemma gated_runs_none: "list_all (\<lambda>a. \<not> runs_tool a) as \<Longrightarrow> gated_runs ok as"
  by (auto simp: gated_runs_def)

lemma gated_runs_append:
  assumes "gated_runs ok as" "gated_runs ok bs" shows "gated_runs ok (as @ bs)"
  unfolding gated_runs_def
proof (intro allI impI)
  fix before i n x after
  assume eq: "as @ bs = before @ Ran i n x # after"
  then consider us where "as = before @ Ran i n x # us" | us where "bs = us @ Ran i n x # after" "before = as @ us"
    by (auto simp: append_eq_append_conv2 append_eq_Cons_conv)
  then show "\<exists>earlier v. before = earlier @ [Gated i n v, Shown (Tool_Start i n x)] \<and> \<not> blocks v \<and> ok n"
  proof cases
    case 1
    then show ?thesis using assms(1) unfolding gated_runs_def by blast
  next
    case 2
    then obtain earlier v where "us = earlier @ [Gated i n v, Shown (Tool_Start i n x)]" "\<not> blocks v" "ok n"
      using assms(2) unfolding gated_runs_def by blast
    then show ?thesis using 2 by (intro exI [of _ "as @ earlier"] exI [of _ v]) simp
  qed
qed

lemma gated_runs_one:
  assumes "\<not> blocks v" "ok n" "list_all (\<lambda>a. \<not> runs_tool a) as"
  shows "gated_runs ok ([Gated i n v, Shown (Tool_Start i n x), Ran i n x] @ as)"
  unfolding gated_runs_def
proof (intro allI impI)
  fix before j n' y after
  assume eq: "[Gated i n v, Shown (Tool_Start i n x), Ran i n x] @ as = before @ Ran j n' y # after"
  have "Ran j n' y \<notin> set as" using assms(3) by (auto simp: list_all_iff)
  then have "before = [Gated i n v, Shown (Tool_Start i n x)] \<and> Ran j n' y = Ran i n x"
    using eq by (auto simp: Cons_eq_append_conv)
  then show "\<exists>earlier v. before = earlier @ [Gated j n' v, Shown (Tool_Start j n' y)] \<and> \<not> blocks v \<and> ok n'"
    using assms(1,2) by (intro exI [of _ "[]"] exI [of _ v]) simp
qed

section \<open>Steps\<close>

lemma step_simps [simp]:
  "tn_trace (act a f st) = tn_trace st @ [a]" "tn_conversation (act a f st) = tn_conversation st"
  "tn_final (act a f st) = tn_final st"
  "tn_trace (safe_broadcast E e st) = tn_trace st @ [Shown e]"
  "tn_conversation (safe_broadcast E e st) = tn_conversation st" "tn_final (safe_broadcast E e st) = tn_final st"
  "tn_trace (say m st) = tn_trace st" "tn_conversation (say m st) = tn_conversation st @ [m]"
  "tn_final (say m st) = tn_final st"
  "tn_trace (store_entry E d st) = tn_trace st @ [Stored (Message d)]"
  "tn_conversation (store_entry E d st) = tn_conversation st" "tn_final (store_entry E d st) = tn_final st"
  by (simp_all add: act_def safe_broadcast_def say_def store_entry_def)

lemma answer_call_adds:
  "\<exists>d. tn_trace (answer_call E i n t err st) = tn_trace st @ [Shown (Tool_End i n (tool_text t) err), Stored (Message d)] \<and>
     matched [Shown (Tool_End i n (tool_text t) err), Stored (Message d)] \<and>
     tn_conversation (answer_call E i n t err st) = tn_conversation st @ [Tool_Says i t] \<and>
     tn_final (answer_call E i n t err st) = tn_final st"
  by (simp add: answer_call_def persist_tool_result_def matched_def tool_text_def framed_events_def
      blocks_json_def stored_view_def to_agent_message_def)

definition tool_phase :: "(string \<Rightarrow> bool) \<Rightarrow> turn_act list \<Rightarrow> bool" where
  "tool_phase ok as \<longleftrightarrow> matched as \<and> requests as = [] \<and> filter ends_agent (shown_events as) = [] \<and> gated_runs ok as"

lemma tool_phase_append: "tool_phase ok as \<Longrightarrow> tool_phase ok bs \<Longrightarrow> tool_phase ok (as @ bs)"
  by (simp add: tool_phase_def matched_append gated_runs_append)

lemma tool_phase_quiet:
  "matched as \<Longrightarrow> requests as = [] \<Longrightarrow> filter ends_agent (shown_events as) = [] \<Longrightarrow>
    list_all (\<lambda>a. \<not> runs_tool a) as \<Longrightarrow> tool_phase ok as"
  by (simp add: tool_phase_def gated_runs_none)

lemma matched_start [simp]: "matched (Gated i n v # Shown (Tool_Start i n x) # as) = matched as"
  by (simp add: matched_def framed_events_def)

text \<open>What one call adds: the host's verdict, the start, perhaps the run, and the answer.\<close>

lemma run_tool_call_adds:
  "\<exists>as t. tn_trace (run_tool_call E k iter c st) = tn_trace st @ as \<and>
     tool_phase (\<lambda>n. tool_named (ct_tools k) n \<noteq> None) as \<and>
     tn_conversation (run_tool_call E k iter c st) = tn_conversation st @ [Tool_Says (call_id iter c) t] \<and>
     tn_final (run_tool_call E k iter c st) = tn_final st"
proof -
  let ?i = "call_id iter c" and ?n = "pd_name c" and ?x = "pd_args c"
  obtain v st1 where ask: "ask_host E ?i c st = (v, st1)" by fastforce
  then have 1: "tn_trace st1 = tn_trace st @ [Gated ?i ?n v]" "tn_conversation st1 = tn_conversation st" "tn_final st1 = tn_final st"
    by (auto simp: ask_host_def split: prod.splits)
  define st2 where "st2 = safe_broadcast E (Tool_Start ?i ?n ?x) st1"
  have 2: "tn_trace st2 = tn_trace st @ [Gated ?i ?n v, Shown (Tool_Start ?i ?n ?x)]"
    "tn_conversation st2 = tn_conversation st" "tn_final st2 = tn_final st" by (simp_all add: st2_def 1)
  show ?thesis
  proof (cases "blocks v")
    case True
    then have run: "run_tool_call E k iter c st = answer_call E ?i ?n (block_reason v) True st2"
      by (simp add: run_tool_call_def ask st2_def Let_def)
    obtain d where d: "tn_trace (answer_call E ?i ?n (block_reason v) True st2) =
        tn_trace st2 @ [Shown (Tool_End ?i ?n (tool_text (block_reason v)) True), Stored (Message d)]"
      "matched [Shown (Tool_End ?i ?n (tool_text (block_reason v)) True), Stored (Message d)]"
      "tn_conversation (answer_call E ?i ?n (block_reason v) True st2) = tn_conversation st2 @ [Tool_Says ?i (block_reason v)]"
      "tn_final (answer_call E ?i ?n (block_reason v) True st2) = tn_final st2"
      using answer_call_adds by blast
    have "tool_phase ok [Gated ?i ?n v, Shown (Tool_Start ?i ?n ?x),
        Shown (Tool_End ?i ?n (tool_text (block_reason v)) True), Stored (Message d)]" for ok
      using d(2) by (intro tool_phase_quiet) simp_all
    then show ?thesis unfolding run using 2 d by fastforce
  next
    case False
    obtain t err st3 where ex: "execute_tool (ct_tools k) ?i c st2 = ((t, err), st3)" by (metis surj_pair)
    define st4 where "st4 = act (Reported ?n err)
      (\<lambda>w. be_after_tool E ?n ?x err (run_after_hooks (ct_after k) c err t w)) st3"
    have run: "run_tool_call E k iter c st = answer_call E ?i ?n t err st4"
      using False ex by (simp add: run_tool_call_def ask st2_def st4_def Let_def)
    obtain d where d: "tn_trace (answer_call E ?i ?n t err st4) =
        tn_trace st4 @ [Shown (Tool_End ?i ?n (tool_text t) err), Stored (Message d)]"
      "matched [Shown (Tool_End ?i ?n (tool_text t) err), Stored (Message d)]"
      "tn_conversation (answer_call E ?i ?n t err st4) = tn_conversation st4 @ [Tool_Says ?i t]"
      "tn_final (answer_call E ?i ?n t err st4) = tn_final st4"
      using answer_call_adds by blast
    let ?tail = "[Reported ?n err, Shown (Tool_End ?i ?n (tool_text t) err), Stored (Message d)]"
    have m: "matched ?tail" using d(2) by (simp add: matched_def)
    consider "st3 = st2" | w f where "st3 = act (Ran ?i ?n ?x) (\<lambda>_. w) st2" "tool_named (ct_tools k) ?n = Some f"
      using ex by (auto simp: execute_tool_def bind_eq_Some_conv split: option.splits prod.splits)
    then show ?thesis
    proof cases
      case 1
      have "tool_phase ok ([Gated ?i ?n v, Shown (Tool_Start ?i ?n ?x)] @ ?tail)" for ok
        using m by (intro tool_phase_quiet) simp_all
      then show ?thesis unfolding run using 2 d 1 st4_def by fastforce
    next
      case ran: 2
      have "tool_phase (\<lambda>n. tool_named (ct_tools k) n \<noteq> None)
          ([Gated ?i ?n v, Shown (Tool_Start ?i ?n ?x), Ran ?i ?n ?x] @ ?tail)"
        using m False ran(2) gated_runs_one [of v _ ?n ?tail ?i ?x]
        by (simp add: tool_phase_def matched_def framed_events_def)
      then show ?thesis unfolding run using 2 d ran(1) st4_def by fastforce
    qed
  qed
qed

fun answers_call :: "id \<times> string \<times> string \<Rightarrow> turn_message \<Rightarrow> bool" where
  "answers_call (i, n, a) (Tool_Says j t) = (if i = [] then starts_with j ''call_'' else j = i)"
| "answers_call c _ = False"

lemma call_id_answers: "answers_call (spoken_call c) (Tool_Says (call_id iter c) t)"
  by (simp add: spoken_call_def call_id_def starts_with_def)

lemma run_tool_calls_adds:
  "\<exists>as rs. tn_trace (run_tool_calls E k iter cs st) = tn_trace st @ as \<and>
     tool_phase (\<lambda>n. tool_named (ct_tools k) n \<noteq> None) as \<and>
     tn_conversation (run_tool_calls E k iter cs st) = tn_conversation st @ rs \<and>
     list_all2 answers_call (map spoken_call cs) rs \<and>
     tn_final (run_tool_calls E k iter cs st) = tn_final st"
proof (induction cs arbitrary: st)
  case Nil
  then show ?case by (simp add: tool_phase_def matched_def gated_runs_def)
next
  case (Cons c cs)
  obtain as t where 1: "tn_trace (run_tool_call E k iter c st) = tn_trace st @ as"
    "tool_phase (\<lambda>n. tool_named (ct_tools k) n \<noteq> None) as"
    "tn_conversation (run_tool_call E k iter c st) = tn_conversation st @ [Tool_Says (call_id iter c) t]"
    "tn_final (run_tool_call E k iter c st) = tn_final st"
    using run_tool_call_adds by blast
  obtain bs rs where 2: "tn_trace (run_tool_calls E k iter cs (run_tool_call E k iter c st)) = tn_trace (run_tool_call E k iter c st) @ bs"
    "tool_phase (\<lambda>n. tool_named (ct_tools k) n \<noteq> None) bs"
    "tn_conversation (run_tool_calls E k iter cs (run_tool_call E k iter c st)) = tn_conversation (run_tool_call E k iter c st) @ rs"
    "list_all2 answers_call (map spoken_call cs) rs"
    "tn_final (run_tool_calls E k iter cs (run_tool_call E k iter c st)) = tn_final (run_tool_call E k iter c st)"
    using Cons.IH by blast
  show ?case
    using 1 2 tool_phase_append [OF 1(2) 2(2)] call_id_answers
    by (intro exI [of _ "as @ bs"] exI [of _ "Tool_Says (call_id iter c) t # rs"]) simp
qed

section \<open>Rounds\<close>

fun update_events :: "string \<times> string \<Rightarrow> int \<Rightarrow> string \<Rightarrow> string list \<Rightarrow> event list" where
  "update_events m now t [] = []"
| "update_events m now t (d # ds) =
     Message_Update (Assistant_Message (partial_message m now [Text_Block (t @ d)])) (text_delta_json d) #
     update_events m now (t @ d) ds"

lemma show_deltas_adds:
  "tn_trace (show_deltas E m now t ds st) = tn_trace st @ map Shown (update_events m now t ds) \<and>
   tn_conversation (show_deltas E m now t ds st) = tn_conversation st \<and> tn_final (show_deltas E m now t ds st) = tn_final st"
  by (induction ds arbitrary: t st) simp_all

lemma update_events_frame:
  "frame True (update_events m now t ds) = Some True" "event_views (update_events m now t ds) = []"
  "filter ends_agent (update_events m now t ds) = []"
  by (induction ds arbitrary: t) simp_all

text \<open>Every response with calls is followed by the answers to its calls, in their order.\<close>

fun paired_calls :: "turn_message list \<Rightarrow> bool" where
  "paired_calls [] = True"
| "paired_calls (Assistant_Says t cs # ms) =
     (list_all2 answers_call cs (take (length cs) ms) \<and> paired_calls (drop (length cs) ms))"
| "paired_calls (Tool_Says i t # ms) = False"
| "paired_calls (System_Says t # ms) = paired_calls ms"
| "paired_calls (User_Says t # ms) = paired_calls ms"

lemma paired_append: "paired_calls xs \<Longrightarrow> paired_calls ys \<Longrightarrow> paired_calls (xs @ ys)"
proof (induction xs rule: paired_calls.induct)
  case (2 t cs ms)
  have "length cs \<le> length ms" using 2(2) by (auto dest: list_all2_lengthD)
  then show ?case using 2 by simp
qed simp_all

lemma paired_response: "list_all2 answers_call cs rs \<Longrightarrow> paired_calls (Assistant_Says t cs # rs)"
  using list_all2_lengthD [of answers_call cs rs] by simp

lemma paired_history: "paired_calls (history_to_messages j)"
proof (cases j)
  case (JArr js)
  have "paired_calls (List.map_filter history_message js)"
    by (induction js) (auto simp: List.map_filter_def history_message_def Let_def split: if_splits)
  then show ?thesis using JArr by simp
qed simp_all

text \<open>
  Every request that was sent is what the hooks of the bundle and then the host's bridge made
  of a complete conversation, with the model and the tools of the turn.
\<close>

definition sent_request :: "'w bundle_env \<Rightarrow> 'w contribution \<Rightarrow> string \<times> string \<Rightarrow> json list \<Rightarrow>
    turn_message list \<Rightarrow> json \<Rightarrow> bool" where
  "sent_request E k m ads c req \<longleftrightarrow> paired_calls c \<and>
     (\<exists>w w' ms. prepare_messages E k (map turn_message_json c) w = (Inr ms, w') \<and> req = request_json m ms ads)"

definition sent_well :: "'w bundle_env \<Rightarrow> 'w contribution \<Rightarrow> string \<times> string \<Rightarrow> json list \<Rightarrow> turn_act list \<Rightarrow> bool" where
  "sent_well E k m ads as \<longleftrightarrow> (\<forall>c req. Asked c req \<in> set as \<longrightarrow> sent_request E k m ads c req)"

lemma sent_well_append [simp]: "sent_well E k m ads (as @ bs) = (sent_well E k m ads as \<and> sent_well E k m ads bs)"
  by (auto simp: sent_well_def)

lemma sent_well_none [simp]: "requests as = [] \<Longrightarrow> sent_well E k m ads as"
  by (induction as) (auto simp: sent_well_def split: turn_act.splits)

lemma sent_well_simps [simp]:
  "sent_well E k m ads (Shown e # as) = sent_well E k m ads as"
  "sent_well E k m ads (Stored d # as) = sent_well E k m ads as"
  "sent_well E k m ads (Asked c req # as) = (sent_request E k m ads c req \<and> sent_well E k m ads as)"
  by (auto simp: sent_well_def)

lemma infer_round_adds:
  assumes "infer_round E k m ads llm st = (r, st')"
  shows "\<exists>as. tn_trace st' = tn_trace st @ as \<and> filter ends_agent (shown_events as) = [] \<and>
    list_all (\<lambda>a. \<not> runs_tool a) as \<and> (requests as = [] \<or> requests as = [tn_conversation st]) \<and>
    (paired_calls (tn_conversation st) \<longrightarrow> sent_well E k m ads as) \<and>
    (case r of Inl e \<Rightarrow> True
     | Inr (cs, stop) \<Rightarrow> matched as \<and> requests as = [tn_conversation st] \<and>
         (\<exists>t a. tn_conversation st' = tn_conversation st @ [Assistant_Says t (map spoken_call cs)] \<and>
           tn_final st' = tn_final st @ [Assistant_Message a]))"
proof (cases "prepare_messages E k (map turn_message_json (tn_conversation st)) (tn_world st)")
  case (Pair x w)
  show ?thesis
  proof (cases x)
    case (Inl e)
    then show ?thesis using assms Pair by (auto simp: infer_round_def)
  next
    case (Inr ms)
    define now where "now = be_now E w"
    define req where "req = request_json m ms ads"
    define st1 where "st1 = safe_broadcast E (Message_Start (Assistant_Message (partial_message m now []))) (st\<lparr>tn_world := w\<rparr>)"
    obtain s w1 where llm: "llm req (tn_world st1) = (s, w1)" by fastforce
    define st2 where "st2 = act (Asked (tn_conversation st1) req) (\<lambda>_. w1) st1"
    have 2: "tn_trace st2 = tn_trace st @ [Shown (Message_Start (Assistant_Message (partial_message m now []))),
        Asked (tn_conversation st) req]" "tn_conversation st2 = tn_conversation st" "tn_final st2 = tn_final st"
      by (simp_all add: st2_def st1_def)
    have sent: "paired_calls (tn_conversation st) \<Longrightarrow> sent_request E k m ads (tn_conversation st) req"
      using Pair Inr unfolding sent_request_def req_def by blast
    have run: "infer_round E k m ads llm st = (case s of
        Inl e \<Rightarrow> (Inl e, st2)
      | Inr s \<Rightarrow>
          (case read_stream s of
             (ds, Inl e) \<Rightarrow> (Inl e, show_deltas E m now [] ds st2)
           | (ds, Inr (cs, stop)) \<Rightarrow>
               (Inr (cs, stop), complete_response E m now (concat ds) cs stop (show_deltas E m now [] ds st2))))"
      using Pair Inr llm unfolding st2_def st1_def now_def req_def by (simp add: infer_round_def Let_def)
    show ?thesis
    proof (cases s)
      case (Inl e)
      then show ?thesis using run assms 2 sent by auto
    next
      case s: (Inr p)
      obtain ds q where rd: "read_stream p = (ds, q)" by fastforce
      note shown = show_deltas_adds [of E m now "[]" ds st2]
      show ?thesis
      proof (cases q)
        case (Inl e)
        then show ?thesis using run assms s rd 2 shown sent update_events_frame(3) [of m now "[]" ds] by (auto simp: list_all_iff)
      next
        case q: (Inr y)
        obtain cs stop where y: "y = (cs, stop)" by (cases y)
        let ?a = "final_message m now (concat ds) cs stop"
        let ?as = "[Shown (Message_Start (Assistant_Message (partial_message m now []))), Asked (tn_conversation st) req] @
          map Shown (update_events m now [] ds) @ [Shown (Message_End (Assistant_Message ?a)),
            Stored (Message \<lparr>md_role = Assistant, md_content = blocks_json (as_content ?a), md_tool_call_id = None,
            md_tool_name = None, md_is_error = None, md_timestamp = Some now, md_metadata = None\<rparr>)]"
        have res: "r = Inr (cs, stop)" "st' = complete_response E m now (concat ds) cs stop (show_deltas E m now [] ds st2)"
          using run assms s rd q y by simp_all
        have "matched ?as"
          using update_events_frame [of m now "[]" ds]
          by (simp add: matched_def stored_view_def to_agent_message_def)
        moreover have "tn_trace st' = tn_trace st @ ?as" using res 2 shown by (simp add: complete_response_def Let_def)
        moreover have "tn_conversation st' = tn_conversation st @ [Assistant_Says (concat ds) (map spoken_call cs)]"
          "tn_final st' = tn_final st @ [Assistant_Message ?a]"
          using res 2 shown by (simp_all add: complete_response_def Let_def)
        moreover have "filter ends_agent (shown_events ?as) = []" "requests ?as = [tn_conversation st]"
          "list_all (\<lambda>a. \<not> runs_tool a) ?as"
          using update_events_frame(3) [of m now "[]" ds] by (simp_all add: list_all_iff)
        moreover have "paired_calls (tn_conversation st) \<longrightarrow> sent_well E k m ads ?as" using sent by simp
        ultimately show ?thesis using res(1) by (intro exI [of _ ?as]) auto
      qed
    qed
  qed
qed

lemma turn_rounds_adds:
  assumes "turn_rounds E k m ads llm n st = (r, st')" "paired_calls (tn_conversation st)"
  shows "\<exists>as. tn_trace st' = tn_trace st @ as \<and> length (requests as) \<le> n \<and>
    gated_runs (\<lambda>n. tool_named (ct_tools k) n \<noteq> None) as \<and> sent_well E k m ads as \<and>
    (case r of Inl e \<Rightarrow> filter ends_agent (shown_events as) = []
     | Inr u \<Rightarrow> matched as \<and> (\<exists>es. shown_events as = es @ [Agent_End (tn_final st')] \<and> filter ends_agent es = []) \<and>
         length (tn_final st') = length (tn_final st) + length (requests as))"
  using assms
proof (induction n arbitrary: st)
  case 0
  then show ?case by (auto simp: gated_runs_def)
next
  case (Suc n)
  obtain q st1 where inf: "infer_round E k m ads llm st = (q, st1)" by fastforce
  then obtain as where as: "tn_trace st1 = tn_trace st @ as" "filter ends_agent (shown_events as) = []"
    "list_all (\<lambda>a. \<not> runs_tool a) as" "requests as = [] \<or> requests as = [tn_conversation st]"
    "paired_calls (tn_conversation st) \<longrightarrow> sent_well E k m ads as"
    "case q of Inl e \<Rightarrow> True
     | Inr (cs, stop) \<Rightarrow> matched as \<and> requests as = [tn_conversation st] \<and>
         (\<exists>t a. tn_conversation st1 = tn_conversation st @ [Assistant_Says t (map spoken_call cs)] \<and>
           tn_final st1 = tn_final st @ [Assistant_Message a])"
    using infer_round_adds [OF inf] by (elim exE conjE)
  note quiet = gated_runs_none [OF as(3)]
  show ?case
  proof (cases q)
    case (Inl e)
    then show ?thesis using Suc.prems inf as quiet by (intro exI [of _ as]) auto
  next
    case (Inr y)
    obtain cs stop where y: "y = (cs, stop)" by (cases y)
    obtain t a where q: "matched as" "requests as = [tn_conversation st]"
      "tn_conversation st1 = tn_conversation st @ [Assistant_Says t (map spoken_call cs)]"
      "tn_final st1 = tn_final st @ [Assistant_Message a]"
      using as(6) Inr y by auto
    show ?thesis
    proof (cases "stop \<noteq> Stop_Tool_Use \<or> cs = []")
      case True
      then have res: "r = Inr ()" "st' = safe_broadcast E (Agent_End (tn_final st1)) st1"
        using Suc.prems(1) inf Inr y by auto
      have "gated_runs ok (as @ [Shown (Agent_End (tn_final st1))])" for ok
        using as(3) by (intro gated_runs_none) simp
      moreover have "matched (as @ [Shown (Agent_End (tn_final st1))])"
        by (intro matched_append q(1)) (simp add: matched_def framed_events_def)
      ultimately show ?thesis
        using res as(1,2,5) q Suc.prems(2) by (intro exI [of _ "as @ [Shown (Agent_End (tn_final st1))]"]) simp
    next
      case False
      let ?st2 = "run_tool_calls E k (max_rounds - Suc n) cs st1"
      have run: "turn_rounds E k m ads llm n ?st2 = (r, st')" using False Suc.prems(1) inf Inr y by simp
      obtain bs rs where bs: "tn_trace ?st2 = tn_trace st1 @ bs" "tool_phase (\<lambda>n. tool_named (ct_tools k) n \<noteq> None) bs"
        "tn_conversation ?st2 = tn_conversation st1 @ rs" "list_all2 answers_call (map spoken_call cs) rs"
        "tn_final ?st2 = tn_final st1"
        using run_tool_calls_adds by blast
      have "paired_calls (tn_conversation ?st2)"
        using paired_append [OF Suc.prems(2) paired_response [OF bs(4), of t]] bs(3) q(3) by simp
      note IH = Suc.IH [OF run this]
      obtain ds where ds: "tn_trace st' = tn_trace ?st2 @ ds" "length (requests ds) \<le> n"
        "gated_runs (\<lambda>n. tool_named (ct_tools k) n \<noteq> None) ds" "sent_well E k m ads ds"
        "case r of Inl e \<Rightarrow> filter ends_agent (shown_events ds) = []
         | Inr u \<Rightarrow> matched ds \<and> (\<exists>es. shown_events ds = es @ [Agent_End (tn_final st')] \<and> filter ends_agent es = []) \<and>
             length (tn_final st') = length (tn_final ?st2) + length (requests ds)"
        using IH by (elim exE conjE)
      have "gated_runs (\<lambda>n. tool_named (ct_tools k) n \<noteq> None) (as @ bs @ ds)"
        using quiet bs(2) ds(3) by (intro gated_runs_append) (simp_all add: tool_phase_def)
      moreover have "sent_well E k m ads (as @ bs @ ds)" using as(5) bs(2) ds(4) Suc.prems(2) by (simp add: tool_phase_def)
      moreover have "length (requests (as @ bs @ ds)) \<le> Suc n" using q(2) bs(2) ds(2) by (simp add: tool_phase_def)
      moreover have "case r of Inl e \<Rightarrow> filter ends_agent (shown_events (as @ bs @ ds)) = []
         | Inr u \<Rightarrow> matched (as @ bs @ ds) \<and>
             (\<exists>es. shown_events (as @ bs @ ds) = es @ [Agent_End (tn_final st')] \<and> filter ends_agent es = []) \<and>
             length (tn_final st') = length (tn_final st) + length (requests (as @ bs @ ds))"
      proof (cases r)
        case (Inl e)
        then show ?thesis using as(2) bs(2) ds(5) by (simp add: tool_phase_def)
      next
        case (Inr u)
        then obtain es where "shown_events ds = es @ [Agent_End (tn_final st')]" "filter ends_agent es = []"
          using ds(5) by auto
        moreover have "matched (as @ bs @ ds)" using q(1) bs(2) ds(5) Inr by (intro matched_append) (simp_all add: tool_phase_def)
        ultimately show ?thesis
          using Inr as(2) bs(2,5) ds(5) q(2,4)
          by (auto simp: tool_phase_def intro!: exI [of _ "shown_events as @ shown_events bs @ es"])
      qed
      ultimately show ?thesis using as(1) bs(1) ds(1) by (intro exI [of _ "as @ bs @ ds"]) simp
    qed
  qed
qed

section \<open>The turn as a whole\<close>

text \<open>The tools a mode permits.\<close>

lemma tool_named_allowed: "tool_named (permitted_tools m ts) n \<noteq> None \<Longrightarrow> name_allowed (Option.bind m bm_tools) n"
proof -
  assume "tool_named (permitted_tools m ts) n \<noteq> None"
  then obtain t where "(n, t) \<in> set (real_tools (permitted_tools m ts))"
    unfolding tool_named_def by (auto dest!: map_of_SomeD)
  then show ?thesis
    by (auto simp: real_tools_def permitted_tools_def List.map_filter_def split: if_splits option.splits)
qed

lemma record_prompt_sections_adds:
  "\<exists>as. tn_trace (record_prompt_sections E S k st) = tn_trace st @ as \<and> tool_phase ok as \<and>
    list_all (\<lambda>a. \<not> runs_tool a) as \<and> shown_events as = [] \<and>
    tn_conversation (record_prompt_sections E S k st) = tn_conversation st \<and> tn_final (record_prompt_sections E S k st) = tn_final st"
proof (cases "\<exists>f v. be_inspect E = Some f \<and> be_version E = Some v \<and> v \<noteq> []")
  case True
  then show ?thesis
    by (auto simp: record_prompt_sections_def Let_def matched_def intro!: tool_phase_quiet)
next
  case False
  then have "record_prompt_sections E S k st = st" by (auto simp: record_prompt_sections_def Let_def split: option.split)
  then show ?thesis by (auto simp: matched_def intro!: exI [of _ "[]"] tool_phase_quiet)
qed

definition advertised :: "'w contribution \<Rightarrow> json list" where
  "advertised k = map (\<lambda>(n, t). advertisement n t) (real_tools (ct_tools k))"

definition sent_by :: "'w bundle_env \<Rightarrow> 'w bundle_setup \<Rightarrow> 'w \<Rightarrow> turn_act list \<Rightarrow> bool" where
  "sent_by E S w as \<longleftrightarrow>
     (case fst (gather E S w) of
        Inl e \<Rightarrow> requests as = []
      | Inr (m, k) \<Rightarrow> sent_well E k m (advertised k) as)"

lemma sent_by_none [simp]: "requests as = [] \<Longrightarrow> sent_by E S w as"
  by (simp add: sent_by_def split: sum.split prod.split)

lemma sent_by_append: "sent_by E S w as \<Longrightarrow> requests bs = [] \<Longrightarrow> sent_by E S w (as @ bs)"
  by (auto simp: sent_by_def split: sum.splits prod.splits)

lemma bundle_work_adds:
  assumes "bundle_work E S prompt w = (r, st)"
  shows "length (requests (tn_trace st)) \<le> max_rounds \<and> sent_by E S w (tn_trace st) \<and>
    gated_runs (name_allowed (Option.bind (be_mode E) bm_tools)) (tn_trace st) \<and>
    (case r of Inl e \<Rightarrow> filter ends_agent (shown_events (tn_trace st)) = []
     | Inr u \<Rightarrow> matched (tn_trace st) \<and>
         (\<exists>es. shown_events (tn_trace st) = es @ [Agent_End (tn_final st)] \<and> filter ends_agent es = []) \<and>
         length (tn_final st) = length (requests (tn_trace st)))"
proof -
  have quiet: ?thesis if "tn_trace st = []" "r = Inl e" for e
    using that by (simp add: gated_runs_def)
  show ?thesis
  proof (cases "gather E S w")
    case (Pair g w1)
    show ?thesis
    proof (cases g)
      case (Inl e)
      then show ?thesis using assms Pair by (intro quiet [of e]) (auto simp: bundle_work_def)
    next
      case (Inr y)
      obtain m k where y: "y = (m, k)" by (cases y)
      have tools: "\<exists>ts. ct_tools k = permitted_tools (be_mode E) ts"
        using Pair Inr y by (auto simp: gather_def split: prod.splits sum.splits)
      obtain hist w2 where h: "read_history E w1 = (hist, w2)" by fastforce
      let ?sys = "merge_sections (be_clock E) (bs_prompt S) (ct_entries k)"
      define st0 where "st0 = \<lparr>tn_world = w2, tn_trace = [],
        tn_conversation = (if ?sys = [] then [] else [System_Says ?sys]) @ hist @ [User_Says prompt], tn_final = []\<rparr>"
      have run: "bundle_work E S prompt w =
          (if \<not> truthy (be_token E) then (Inl ''Missing __BUNDLE_TOKEN in bundle env'', st0)
           else case be_llm E of
               None \<Rightarrow> (Inl ''Missing env.LLM service binding with inferStream method'', st0)
             | Some llm \<Rightarrow> turn_rounds E k m (map (\<lambda>(n, t). advertisement n t) (real_tools (ct_tools k))) llm max_rounds
                 (record_prompt_sections E S k st0))"
        unfolding st0_def using Pair Inr y h by (simp add: bundle_work_def Let_def)
      have "paired_calls hist" using h paired_history by (auto simp: read_history_def split: prod.splits sum.splits)
      then have p0: "paired_calls (tn_conversation st0)" by (auto simp: st0_def intro!: paired_append)
      show ?thesis
      proof (cases "truthy (be_token E) \<and> be_llm E \<noteq> None")
        case False
        then obtain e where "r = Inl e" "st = st0" using run assms by (auto split: if_splits)
        then show ?thesis by (intro quiet [of e]) (simp_all add: st0_def)
      next
        case True
        then obtain llm where llm: "be_llm E = Some llm" by blast
        let ?st1 = "record_prompt_sections E S k st0" and ?ok = "\<lambda>n. tool_named (ct_tools k) n \<noteq> None"
        have rounds: "turn_rounds E k m (map (\<lambda>(n, t). advertisement n t) (real_tools (ct_tools k))) llm max_rounds ?st1 = (r, st)"
          using run True llm assms by simp
        obtain as where as: "tn_trace ?st1 = as" "tool_phase ?ok as" "shown_events as = []"
          "tn_conversation ?st1 = tn_conversation st0" "tn_final ?st1 = []"
          using record_prompt_sections_adds [of E S k st0 ?ok] by (auto simp: st0_def)
        have "paired_calls (tn_conversation ?st1)" using p0 as(4) by simp
        note turn = turn_rounds_adds [OF rounds this]
        obtain bs where bs: "tn_trace st = tn_trace ?st1 @ bs" "length (requests bs) \<le> max_rounds" "gated_runs ?ok bs"
          "sent_well E k m (advertised k) bs"
          "case r of Inl e \<Rightarrow> filter ends_agent (shown_events bs) = []
           | Inr u \<Rightarrow> matched bs \<and> (\<exists>es. shown_events bs = es @ [Agent_End (tn_final st)] \<and> filter ends_agent es = []) \<and>
               length (tn_final st) = length (tn_final ?st1) + length (requests bs)"
          using turn unfolding advertised_def by (elim exE conjE)
        have sent: "sent_by E S w (as @ bs)"
          using bs(4) as(2) Pair Inr y by (simp add: sent_by_def tool_phase_def)
        have "gated_runs ?ok (as @ bs)" using as(2) bs(3) by (intro gated_runs_append) (simp_all add: tool_phase_def)
        then have "gated_runs (name_allowed (Option.bind (be_mode E) bm_tools)) (as @ bs)"
          using tools tool_named_allowed unfolding gated_runs_def by metis
        then show ?thesis
          using as bs sent by (cases r) (auto simp: tool_phase_def intro!: matched_append)
      qed
    qed
  qed
qed

lemma run_bundle_turn_adds:
  assumes "run_bundle_turn E S prompt w = (r, st)"
  shows "length (requests (tn_trace st)) \<le> max_rounds \<and> sent_by E S w (tn_trace st) \<and>
    gated_runs (name_allowed (Option.bind (be_mode E) bm_tools)) (tn_trace st) \<and>
    (case r of Inl e \<Rightarrow> \<exists>es now. shown_events (tn_trace st) =
         es @ [Message_End (Assistant_Message (error_message e now)), Agent_End []] \<and> filter ends_agent es = []
     | Inr u \<Rightarrow> matched (tn_trace st) \<and>
         (\<exists>es. shown_events (tn_trace st) = es @ [Agent_End (tn_final st)] \<and> filter ends_agent es = []) \<and>
         length (tn_final st) = length (requests (tn_trace st)))"
proof -
  obtain r' st' where work: "bundle_work E S prompt w = (r', st')" by fastforce
  note adds = bundle_work_adds [OF work]
  show ?thesis
  proof (cases r')
    case (Inl e)
    define now where "now = be_now E (tn_world st')"
    have st: "r = Inl e" "tn_trace st = tn_trace st' @ [Shown (Message_End (Assistant_Message (error_message e now))), Shown (Agent_End [])]"
      using assms work Inl by (auto simp: run_bundle_turn_def now_def)
    have "gated_runs (name_allowed (Option.bind (be_mode E) bm_tools)) (tn_trace st)"
      unfolding st(2) using adds by (intro gated_runs_append) (simp_all add: gated_runs_none)
    moreover have "sent_by E S w (tn_trace st)" unfolding st(2) using adds by (intro sent_by_append) simp_all
    ultimately show ?thesis using adds Inl st by auto
  next
    case (Inr u)
    then show ?thesis using adds assms work by (auto simp: run_bundle_turn_def)
  qed
qed

text \<open>C21: A turn of a bundle asks the model at most 25 times and always ends by telling its clients
  so, exactly once and as its last event: after a success with the responses of the turn, one
  for each time the model was asked, after a failure with none, preceded by a message that
  carries the error.\<close>

theorem bundle_turn_ends:
  "case run_bundle_turn E S prompt w of (r, st) \<Rightarrow>
     length (requests (tn_trace st)) \<le> 25 \<and>
     (\<exists>es. filter ends_agent es = [] \<and>
       (case r of
          Inl e \<Rightarrow> \<exists>now. shown_events (tn_trace st) = es @ [Message_End (Assistant_Message (error_message e now)), Agent_End []]
        | Inr u \<Rightarrow> shown_events (tn_trace st) = es @ [Agent_End (tn_final st)] \<and>
            length (tn_final st) = length (requests (tn_trace st))))"
proof -
  obtain r st where run: "run_bundle_turn E S prompt w = (r, st)" by fastforce
  show ?thesis
  proof (cases r)
    case (Inl e)
    then show ?thesis using run_bundle_turn_adds [OF run] by (fastforce simp: run max_rounds_def)
  next
    case (Inr u)
    then show ?thesis using run_bundle_turn_adds [OF run] by (auto simp: run max_rounds_def)
  qed
qed

text \<open>C35: Every request a bundle sends to the model is made from a complete conversation: one in
  which each response that called tools is followed by one answer for each of its calls, in
  their order and under their ids (under an id that starts with \<open>call_\<close> if the call came without
  one), and in which there is no answer without a call. The messages sent are what the bundle's
  hooks, in the order of its capabilities, and then the host's bridge make of this
  conversation; model and tools are those the turn began with.\<close>

theorem bundle_requests_are_paired:
  assumes "run_bundle_turn E S prompt w = (r, st)" and "tn_trace st = before @ Asked c req # after"
  shows "paired_calls c \<and>
    (\<exists>m k w1 v v' ms. gather E S w = (Inr (m, k), w1) \<and>
      prepare_messages E k (map turn_message_json c) v = (Inr ms, v') \<and> req = request_json m ms (advertised k))"
proof -
  have sent: "sent_by E S w (before @ Asked c req # after)" using run_bundle_turn_adds [OF assms(1)] assms(2) by simp
  obtain g w1 where g: "gather E S w = (g, w1)" by fastforce
  show ?thesis
  proof (cases g)
    case (Inl e)
    then show ?thesis using sent g by (simp add: sent_by_def)
  next
    case (Inr y)
    then obtain m k where "g = Inr (m, k)" by (cases y) simp
    then show ?thesis using sent g unfolding sent_by_def by (fastforce simp: sent_request_def)
  qed
qed

text \<open>C15: A bundle runs a tool only if the active mode permits its name and the host, asked about
  this very call just before, did not block it.\<close>

theorem bundle_tools_are_gated:
  assumes "run_bundle_turn E S prompt w = (r, st)" and "tn_trace st = before @ Ran i n x # after"
  shows "name_allowed (Option.bind (be_mode E) bm_tools) n \<and>
    (\<exists>earlier v. before = earlier @ [Gated i n v, Shown (Tool_Start i n x)] \<and> \<not> blocks v)"
proof -
  have "gated_runs (name_allowed (Option.bind (be_mode E) bm_tools)) (tn_trace st)"
    using run_bundle_turn_adds [OF assms(1)] by blast
  then show ?thesis using assms(2) unfolding gated_runs_def by blast
qed

lemma plain_wire:
  "wire (demo_sync_env\<lparr>sy_cost := \<lambda>a. None\<rparr>) s es = map (event_message s) es"
proof -
  have "cost_of (demo_sync_env\<lparr>sy_cost := \<lambda>a. None\<rparr>) e = None" for e
    by (cases e) (simp_all add: cost_of_def split: message.split)
  then show ?thesis by (simp add: wire_def)
qed

text \<open>C11: What a bundle shows is what it stores. When a turn of a bundle succeeds, a client that
  watches the session and receives the turn's events, whenever its reducer runs, displays
  what it displayed before followed by exactly the messages and tool results that were sent
  to the session's log, with the same roles, contents and calls.\<close>

theorem bundle_client_shows_log:
  assumes "run_bundle_turn E S prompt w = (Inr u, st)" and "at_rest c" and "cl_session c = Some s"
    and "map snd (received steps) = map (event_message s) (shown_events (tn_trace st))"
  shows "shown_views (cs_messages (cl_chat (flush (fold (step_client F) steps c)))) =
    shown_views (cs_messages (cl_chat c)) @ concat (map data_views (stored_data (tn_trace st)))"
proof -
  let ?es = "shown_events (tn_trace st)"
  have m: "matched (tn_trace st)" using run_bundle_turn_adds [OF assms(1)] by fastforce
  have ws: "map snd (received steps) = wire (demo_sync_env\<lparr>sy_cost := \<lambda>a. None\<rparr>) s ?es"
    using assms(4) by (simp add: plain_wire)
  have "framed (cl_session c) False (map snd (received steps)) = Some (Some s, False)"
    using framed_wire [of s False "demo_sync_env\<lparr>sy_cost := \<lambda>a. None\<rparr>" ?es] m assms(3) ws
    by (simp add: matched_def framed_events_def)
  note shown = steps_follow [OF at_rest_delayed [OF assms(2)] this, of F]
  show ?thesis
    using delayed_flush_chat [OF conjunct1 [OF shown]] conjunct2 [OF shown]
      show_wire [OF ws, of "cs_messages (cl_chat c)"] assms(3) m by (simp add: finished_def matched_def)
qed

section \<open>A turn\<close>

text \<open>A bundle with one tool, and a model that calls it once and then answers.\<close>

definition demo_bundle_env :: "nat bundle_env" where
  "demo_bundle_env = \<lparr>be_token = Some ''t'', be_version = None, be_mode = None,
     be_llm = Some (\<lambda>req w. (Inr ([response_text (if w = 0
       then [Calls [(0, Open_Call ''c'' ''ls'' ''{}'')], Finishes] else [Says ''a.txt''])], None), w + 1)),
     be_history = \<lambda>w. (Inr (JArr []), w), be_inspect = None, be_before_inference = \<lambda>ms w. (Inr ms, w),
     be_before_tool = \<lambda>n x i w. (Inr (False, None), w), be_after_tool = \<lambda>n x e w. w,
     be_broadcast = \<lambda>e w. w, be_append = \<lambda>d w. w, be_now = \<lambda>w. 0,
     be_clock = \<lparr>dc_day = ''Monday'', dc_local = \<lambda>z. None\<rparr>\<rparr>"

definition demo_bundle :: "nat bundle_setup" where
  "demo_bundle = \<lparr>bs_prompt = Verbatim ''You list files.'', bs_model = \<lambda>w. (Inr (''p'', ''m''), w),
     bs_capabilities = \<lambda>w. (Inr [], w),
     bs_tools = \<lambda>w. (Inr [\<lparr>ot_name = Some ''ls'', ot_description = None, ot_parameters = None,
       ot_execute = Some (\<lambda>x i w. (Inr (Some (JStr ''a.txt'')), w))\<rparr>], w)\<rparr>"

lemma demo_responses:
  "iterate_stream [response_text [Calls [(0, Open_Call ''c'' ''ls'' ''{}'')], Finishes]] =
     ([], Inr ([\<lparr>pd_id = ''c'', pd_name = ''ls'', pd_args = JObj [], pd_raw = ''{}''\<rparr>], Stop_Tool_Use))"
  "iterate_stream [response_text [Says ''a.txt'']] = ([''a.txt''], Inr ([], Stop_End))"
proof -
  have "parse_json ''{}'' = Some (JObj [])" using parse_stringify [of "JObj []"] by simp
  then show "iterate_stream [response_text [Calls [(0, Open_Call ''c'' ''ls'' ''{}'')], Finishes]] =
     ([], Inr ([\<lparr>pd_id = ''c'', pd_name = ''ls'', pd_args = JObj [], pd_raw = ''{}''\<rparr>], Stop_Tool_Use))"
    using response_arrives [of "[Calls [(0, Open_Call ''c'' ''ls'' ''{}'')], Finishes]"]
    by (simp add: sent_calls_def call_of_def finish_call_def)
  show "iterate_stream [response_text [Says ''a.txt'']] = ([''a.txt''], Inr ([], Stop_End))"
    using response_arrives [of "[Says ''a.txt'']"] by (simp add: sent_calls_def)
qed

definition demo_contribution :: "nat contribution" where
  "demo_contribution = no_contribution [\<lparr>ot_name = Some ''ls'', ot_description = None, ot_parameters = None,
       ot_execute = Some (\<lambda>x i w. (Inr (Some (JStr ''a.txt'')), w))\<rparr>]"

definition scripted_model :: "json \<Rightarrow> (nat, string list \<times> string option) effect" where
  "scripted_model req w = (Inr ([response_text (if w = 0
       then [Calls [(0, Open_Call ''c'' ''ls'' ''{}'')], Finishes] else [Says ''a.txt''])], None), w + 1)"

lemma demo_env_simps [simp]:
  "be_token demo_bundle_env = Some ''t''" "be_mode demo_bundle_env = None" "be_llm demo_bundle_env = Some scripted_model"
  "be_history demo_bundle_env w = (Inr (JArr []), w)" "be_inspect demo_bundle_env = None"
  "be_before_inference demo_bundle_env ms w = (Inr ms, w)" "be_before_tool demo_bundle_env n x i w = (Inr (False, None), w)"
  "be_after_tool demo_bundle_env n x e w = w" "be_broadcast demo_bundle_env ev w = w"
  "be_append demo_bundle_env d w = w" "be_now demo_bundle_env w = 0"
  by (simp_all add: demo_bundle_env_def fun_eq_iff scripted_model_def)

lemma demo_gather: "gather demo_bundle_env demo_bundle w = (Inr ((''p'', ''m''), demo_contribution), w)"
  by (simp add: gather_def demo_bundle_def demo_contribution_def no_contribution_def permitted_tools_def name_allowed_def)

lemma demo_round:
  "infer_round demo_bundle_env demo_contribution m ads scripted_model st =
     (case (if tn_world st = 0 then ([], [\<lparr>pd_id = ''c'', pd_name = ''ls'', pd_args = JObj [], pd_raw = ''{}''\<rparr>], Stop_Tool_Use)
            else ([''a.txt''], [], Stop_End)) of
        (ds, cs, stop) \<Rightarrow> (Inr (cs, stop), complete_response demo_bundle_env m 0 (concat ds) cs stop
          (show_deltas demo_bundle_env m 0 [] ds
            (act (Asked (tn_conversation st) (request_json m (map turn_message_json (tn_conversation st)) ads))
              (\<lambda>_. Suc (tn_world st))
              (safe_broadcast demo_bundle_env (Message_Start (Assistant_Message (partial_message m 0 []))) st)))))"
  by (simp add: infer_round_def prepare_messages_def demo_contribution_def no_contribution_def scripted_model_def
      read_stream_def demo_responses Let_def safe_broadcast_def act_def)

lemma demo_call:
  "run_tool_call demo_bundle_env demo_contribution iter \<lparr>pd_id = ''c'', pd_name = ''ls'', pd_args = JObj [], pd_raw = ''{}''\<rparr> st =
     answer_call demo_bundle_env ''c'' ''ls'' ''a.txt'' False
       (act (Reported ''ls'' False) (\<lambda>w. w) (act (Ran ''c'' ''ls'' (JObj [])) (\<lambda>_. tn_world st)
         (safe_broadcast demo_bundle_env (Tool_Start ''c'' ''ls'' (JObj []))
           (act (Gated ''c'' ''ls'' (Some (False, None))) (\<lambda>_. tn_world st) st))))"
  by (simp add: run_tool_call_def call_id_def ask_host_def Let_def blocks_def execute_tool_def tool_named_def
      real_tools_def demo_contribution_def no_contribution_def List.map_filter_def stringify_tool_result_def)
    (simp add: act_def safe_broadcast_def)

lemma demo_world [simp]:
  "tn_world (safe_broadcast demo_bundle_env ev st) = tn_world st" "tn_world (act a f st) = f (tn_world st)"
  "tn_world (show_deltas demo_bundle_env m now t ds st) = tn_world st"
  "tn_world (answer_call demo_bundle_env i n t e st) = tn_world st"
  "tn_world (complete_response demo_bundle_env m now t cs s st) = tn_world st"
proof -
  show *: "tn_world (safe_broadcast demo_bundle_env ev st) = tn_world st" for ev and st :: "nat bundle_turn"
    by (simp add: safe_broadcast_def act_def)
  show "tn_world (act a f st) = f (tn_world st)" by (simp add: act_def)
  show "tn_world (show_deltas demo_bundle_env m now t ds st) = tn_world st"
    by (induction ds arbitrary: t st) (simp_all add: *)
  show "tn_world (answer_call demo_bundle_env i n t e st) = tn_world st"
    by (simp add: answer_call_def persist_tool_result_def say_def store_entry_def * act_def)
  show "tn_world (complete_response demo_bundle_env m now t cs s st) = tn_world st"
    by (simp add: complete_response_def Let_def say_def store_entry_def * act_def)
qed

lemma demo_rounds:
  assumes "tn_world st0 = 0"
  shows "\<exists>st. turn_rounds demo_bundle_env demo_contribution m ads scripted_model (Suc (Suc n)) st0 = (Inr (), st) \<and>
     Ran ''c'' ''ls'' (JObj []) \<in> set (tn_trace st) \<and>
     (\<exists>c req. Asked c req \<in> set (tn_trace st) \<and> Tool_Says ''c'' ''a.txt'' \<in> set c)"
  using assms by (simp add: demo_round demo_call)
    (auto simp: answer_call_def persist_tool_result_def complete_response_def Let_def)

lemma demo_turn:
  "\<exists>st before after. run_bundle_turn demo_bundle_env demo_bundle ''ls?'' 0 = (Inr (), st) \<and>
     tn_trace st = before @ Ran ''c'' ''ls'' (JObj []) # after \<and>
     (\<exists>c req. Asked c req \<in> set (tn_trace st) \<and> Tool_Says ''c'' ''a.txt'' \<in> set c)"
proof -
  let ?st0 = "\<lparr>tn_world = 0 :: nat, tn_trace = [], tn_conversation = [System_Says ''You list files.'', User_Says ''ls?''], tn_final = []\<rparr>"
  let ?ads = "map (\<lambda>(n, t). advertisement n t) (real_tools (ct_tools demo_contribution))"
  have "bundle_work demo_bundle_env demo_bundle ''ls?'' 0 =
      turn_rounds demo_bundle_env demo_contribution (''p'', ''m'') ?ads scripted_model max_rounds ?st0"
    by (simp add: bundle_work_def demo_gather Let_def read_history_def List.map_filter_def truthy_def
        record_prompt_sections_def) (simp add: demo_bundle_def)
  moreover have "max_rounds = Suc (Suc 23)" by (simp add: max_rounds_def)
  moreover have w0: "tn_world ?st0 = 0" by simp
  then obtain st where "turn_rounds demo_bundle_env demo_contribution (''p'', ''m'') ?ads scripted_model
      (Suc (Suc 23)) ?st0 = (Inr (), st)" and ran: "Ran ''c'' ''ls'' (JObj []) \<in> set (tn_trace st)"
      and asked: "\<exists>c req. Asked c req \<in> set (tn_trace st) \<and> Tool_Says ''c'' ''a.txt'' \<in> set c"
    using demo_rounds [OF w0, of "(''p'', ''m'')" ?ads 23] by blast
  ultimately have "run_bundle_turn demo_bundle_env demo_bundle ''ls?'' 0 = (Inr (), st)"
    unfolding run_bundle_turn_def by (simp only: prod.case sum.case)
  moreover obtain before after where "tn_trace st = before @ Ran ''c'' ''ls'' (JObj []) # after"
    using ran by (meson in_set_conv_decomp)
  ultimately show ?thesis using asked by blast
qed

lemma bundle_requests_are_paired_witness:
  "\<exists>st c req. run_bundle_turn demo_bundle_env demo_bundle ''ls?'' 0 = (Inr (), st) \<and>
     Asked c req \<in> set (tn_trace st) \<and> Tool_Says ''c'' ''a.txt'' \<in> set c \<and> paired_calls c \<and>
     req = request_json (''p'', ''m'') (map turn_message_json c) (advertised demo_contribution)"
proof -
  obtain st c req where run: "run_bundle_turn demo_bundle_env demo_bundle ''ls?'' 0 = (Inr (), st)"
    and asked: "Asked c req \<in> set (tn_trace st)" "Tool_Says ''c'' ''a.txt'' \<in> set c"
    using demo_turn by (elim exE conjE)
  then obtain before after where "tn_trace st = before @ Asked c req # after" by (meson in_set_conv_decomp)
  from bundle_requests_are_paired [OF run this]
  have "paired_calls c" "req = request_json (''p'', ''m'') (map turn_message_json c) (advertised demo_contribution)"
    by (auto simp: demo_gather prepare_messages_def demo_contribution_def no_contribution_def)
  with run asked show ?thesis by (intro exI [of _ st] exI [of _ c] exI [of _ req] conjI)
qed

lemma bundle_tools_are_gated_witness:
  "\<exists>st before after. run_bundle_turn demo_bundle_env demo_bundle ''ls?'' 0 = (Inr (), st) \<and>
     tn_trace st = before @ Ran ''c'' ''ls'' (JObj []) # after \<and>
     (\<exists>earlier v. before = earlier @ [Gated ''c'' ''ls'' v, Shown (Tool_Start ''c'' ''ls'' (JObj []))] \<and> \<not> blocks v)"
proof -
  obtain st before after where run: "run_bundle_turn demo_bundle_env demo_bundle ''ls?'' 0 = (Inr (), st)"
    "tn_trace st = before @ Ran ''c'' ''ls'' (JObj []) # after"
    using demo_turn by (elim exE conjE)
  from bundle_tools_are_gated [OF run]
  have "\<exists>earlier v. before = earlier @ [Gated ''c'' ''ls'' v, Shown (Tool_Start ''c'' ''ls'' (JObj []))] \<and> \<not> blocks v" ..
  note gate = this
  show ?thesis by (rule exI [of _ st], rule exI [of _ before], rule exI [of _ after]) (intro conjI run gate)
qed

lemma received_map: "map snd (received (map (\<lambda>e. Receive 0 (f e)) es)) = map f es"
  by (induction es) simp_all

lemma bundle_client_shows_log_witness:
  "\<exists>st. run_bundle_turn demo_bundle_env demo_bundle ''ls?'' 0 = (Inr (), st) \<and>
     shown_views (cs_messages (cl_chat (flush (fold (step_client demo_client_env)
       (map (\<lambda>e. Receive 0 (event_message ''s'' e)) (shown_events (tn_trace st))) demo_viewer)))) =
     shown_views (cs_messages (cl_chat demo_viewer)) @ concat (map data_views (stored_data (tn_trace st)))"
proof -
  obtain st where st: "run_bundle_turn demo_bundle_env demo_bundle ''ls?'' 0 = (Inr (), st)"
    using demo_turn by (elim exE conjE)
  have "at_rest demo_viewer" "cl_session demo_viewer = Some ''s''"
    by (simp_all add: at_rest_def demo_viewer_def demo_client_def closed_list_def user_text_def)
  from bundle_client_shows_log [OF st this received_map] st show ?thesis by (intro exI [of _ st] conjI)
qed

end
