(* ===== verification/Agent_Config.thy ===== *)
theory Agent_Config
  imports Chat_Client Json_Parse
begin

text \<open>
  The configuration of an agent: \<open>packages/runtime/agent-runtime/src/config\<close> and the agent
  configuration of \<open>agent-runtime.ts\<close>. Values live in a key-value store; those of the agent's
  own namespaces are also kept in a snapshot from which the capabilities take their parts.
  The model can read and write them with tools, the client writes them with an action.

  TypeBox, which checks values against schemas and makes default values, is a record of
  functions that always return. Capabilities and bundles are functions over a world of any
  type; a hook that throws gives \<open>Some\<close> message.
\<close>

section \<open>Schemas, capabilities and namespaces\<close>

record schema_ops =
  so_check :: "json \<Rightarrow> json \<Rightarrow> bool"
  so_create :: "json \<Rightarrow> json"
  so_errors :: "json \<Rightarrow> json \<Rightarrow> (string \<times> string) list"

type_synonym snapshot = "string \<Rightarrow> json option"

record 'w config_capability =
  gc_id :: id
  gc_name :: string
  gc_description :: string
  gc_schema :: "json option"
  gc_default :: "json option"
  gc_on_change :: "(json \<Rightarrow> json \<Rightarrow> id \<Rightarrow> 'w \<Rightarrow> string option \<times> 'w) option"
  gc_mapping :: "(snapshot \<Rightarrow> string + json option) option"
  gc_on_agent_change :: "(json option \<Rightarrow> json option \<Rightarrow> id \<Rightarrow> 'w \<Rightarrow> string option \<times> 'w) option"

record 'w config_namespace =
  gn_id :: string
  gn_description :: string
  gn_schema :: json
  gn_pattern :: "(string \<Rightarrow> bool) option"
  gn_get :: "string \<Rightarrow> 'w \<Rightarrow> (string + json option) \<times> 'w"
  gn_set :: "string \<Rightarrow> json \<Rightarrow> 'w \<Rightarrow> (string + string option) \<times> 'w"

record stand_in =
  si_id :: id
  si_schema :: json
  si_default :: "json option"

text \<open>
  What an agent declares, and what its active bundle adds: schemas, stand-ins for the bundle's
  capabilities, and paths into the configuration (\<open>ge_bundle_agent_change\<close> and
  \<open>ge_bundle_change\<close> reach the bundle). \<open>ge_sync\<close> brings the schedules of the capabilities up
  to date.
\<close>

record 'w config_env =
  ge_ops :: schema_ops
  ge_host_schema :: "(string \<times> json) list"
  ge_bundle_schema :: "(string \<times> json) list"
  ge_capabilities :: "'w config_capability list"
  ge_stand_ins :: "stand_in list"
  ge_namespaces :: "'w config_namespace list"
  ge_paths :: "(id \<times> string) list"
  ge_bundle_change :: "(id \<Rightarrow> json \<Rightarrow> json \<Rightarrow> id \<Rightarrow> 'w \<Rightarrow> (bool \<times> string option) \<times> 'w) option"
  ge_bundle_agent_change :: "(id \<Rightarrow> json option \<Rightarrow> json option \<Rightarrow> id \<Rightarrow> 'w \<Rightarrow> string option \<times> 'w) option"
  ge_sync :: "'w \<Rightarrow> string option \<times> 'w"
  ge_iso_now :: "'w \<Rightarrow> string"

text \<open>
  The state: the key-value store, the snapshot, the sessions, the world, which changes the
  capabilities were told of, and the updates broadcast to the clients.
\<close>

record told =
  td_capability :: id
  td_old :: "json option"
  td_new :: "json option"

record 'w config_state =
  gs_kv :: snapshot
  gs_snapshot :: snapshot
  gs_loaded :: bool
  gs_store :: store
  gs_now :: int
  gs_world :: 'w
  gs_told :: "told list"
  gs_updates :: "(string \<times> json) list"

section \<open>The store\<close>

definition capability_key :: "id \<Rightarrow> string" where "capability_key c = ''config:capability:'' @ c"

definition agent_key :: "string \<Rightarrow> string" where "agent_key n = ''config:agent:'' @ n"

definition put_kv :: "string \<Rightarrow> json \<Rightarrow> 'w config_state \<Rightarrow> 'w config_state" where
  "put_kv k v st = st\<lparr>gs_kv := (gs_kv st)(k \<mapsto> v)\<rparr>"

text \<open>\<open>x ?? y\<close> replaces \<open>undefined\<close> and \<open>null\<close>.\<close>

definition nullish_or :: "json option \<Rightarrow> json \<Rightarrow> json" where
  "nullish_or x y = (case x of None \<Rightarrow> y | Some j \<Rightarrow> if j = JNull then y else j)"

definition stored_capability_config :: "'w config_capability \<Rightarrow> 'w config_state \<Rightarrow> json" where
  "stored_capability_config c st = nullish_or (gs_kv st (capability_key (gc_id c))) (nullish_or (gc_default c) (JObj []))"

section \<open>The snapshot\<close>

definition agent_schema :: "'w config_env \<Rightarrow> (string \<times> json) list" where
  "agent_schema E =
     (if ge_bundle_schema E = [] then ge_host_schema E
      else map (\<lambda>(n, s). (n, or_else (map_of (ge_host_schema E) n) s)) (ge_bundle_schema E) @
        filter (\<lambda>(n, s). n \<notin> fst ` set (ge_bundle_schema E)) (ge_host_schema E))"

text \<open>The members a spread of a stored value yields.\<close>

fun spread_members :: "json \<Rightarrow> (string \<times> json) list" where
  "spread_members (JObj ms) = ms"
| "spread_members (JArr xs) = zip (map show_nat [0..<length xs]) xs"
| "spread_members _ = []"

definition record_orphan :: "'w config_env \<Rightarrow> string \<Rightarrow> json \<Rightarrow> 'w config_state \<Rightarrow> 'w config_state" where
  "record_orphan E n v st =
     (let old = (case gs_kv st (agent_key ''__orphans'') of None \<Rightarrow> [] | Some j \<Rightarrow> spread_members j);
          orphan = JObj [(''persistedValue'', v), (''recordedAt'', JStr (ge_iso_now E (gs_world st))),
                (''schemaCheckFailed'', JBool True)]
      in put_kv (agent_key ''__orphans'') (JObj (map_set n orphan old)) st)"

definition load_namespace :: "'w config_env \<Rightarrow> string \<times> json \<Rightarrow> 'w config_state \<Rightarrow> 'w config_state" where
  "load_namespace E ns st =
     (case ns of (n, s) \<Rightarrow>
        (case gs_kv st (agent_key n) of
           None \<Rightarrow> st\<lparr>gs_snapshot := (gs_snapshot st)(n \<mapsto> so_create (ge_ops E) s)\<rparr>
         | Some v \<Rightarrow>
             if so_check (ge_ops E) s v then st\<lparr>gs_snapshot := (gs_snapshot st)(n \<mapsto> v)\<rparr>
             else record_orphan E n v (st\<lparr>gs_snapshot := (gs_snapshot st)(n \<mapsto> so_create (ge_ops E) s)\<rparr>)))"

definition ensure_agent_config_loaded :: "'w config_env \<Rightarrow> 'w config_state \<Rightarrow> 'w config_state" where
  "ensure_agent_config_loaded E st =
     (if gs_loaded st then st else (fold (load_namespace E) (agent_schema E) st)\<lparr>gs_loaded := True\<rparr>)"

section \<open>Telling the capabilities\<close>

fun object_member :: "json \<Rightarrow> string \<Rightarrow> json option" where
  "object_member (JObj ms) k = map_of ms k"
| "object_member (JArr xs) k = map_of (zip (map show_nat [0..<length xs]) xs) k"
| "object_member _ k = None"

text \<open>The rest of a path; \<open>length\<close> of an array is not followed.\<close>

fun follow :: "json option \<Rightarrow> string list \<Rightarrow> json option" where
  "follow j [] = j"
| "follow None (k # ks) = None"
| "follow (Some j) (k # ks) = follow (object_member j k) ks"

text \<open>A path is not empty (the loader drops empty ones) and starts at the snapshot, whose members are the namespaces.\<close>

definition evaluate_agent_config_path :: "snapshot \<Rightarrow> string \<Rightarrow> json option" where
  "evaluate_agent_config_path sn path =
     (case split_on CHR ''.'' path of [] \<Rightarrow> None | k # ks \<Rightarrow> follow (sn k) ks)"

text \<open>Equal values have equal texts, so the first test of \<open>sliceEqual\<close> decides nothing.\<close>

definition slice_equal :: "json option \<Rightarrow> json option \<Rightarrow> bool" where
  "slice_equal a b \<longleftrightarrow> map_option stringify a = map_option stringify b"

definition tell :: "id \<Rightarrow> json option \<Rightarrow> json option \<Rightarrow>
    (json option \<Rightarrow> json option \<Rightarrow> id \<Rightarrow> 'w \<Rightarrow> string option \<times> 'w) \<Rightarrow> id \<Rightarrow> 'w config_state \<Rightarrow> 'w config_state" where
  "tell c old new hook sess st =
     (if slice_equal old new then st
      else st\<lparr>gs_world := snd (hook old new sess (gs_world st)),
              gs_told := gs_told st @ [\<lparr>td_capability = c, td_old = old, td_new = new\<rparr>]\<rparr>)"

text \<open>A mapping that throws ends the whole operation.\<close>

definition tell_capability :: "snapshot \<Rightarrow> id \<Rightarrow> 'w config_capability \<Rightarrow> 'w config_state \<Rightarrow>
    string option \<times> 'w config_state" where
  "tell_capability prior sess c st =
     (case (gc_mapping c, gc_on_agent_change c) of
        (Some f, Some hook) \<Rightarrow>
          (case f prior of
             Inl e \<Rightarrow> (Some e, st)
           | Inr old \<Rightarrow>
               (case f (gs_snapshot st) of
                  Inl e \<Rightarrow> (Some e, st)
                | Inr new \<Rightarrow> (None, tell (gc_id c) old new hook sess st)))
      | _ \<Rightarrow> (None, st))"

fun tell_capabilities :: "snapshot \<Rightarrow> id \<Rightarrow> 'w config_capability list \<Rightarrow> 'w config_state \<Rightarrow>
    string option \<times> 'w config_state" where
  "tell_capabilities prior sess [] st = (None, st)"
| "tell_capabilities prior sess (c # cs) st =
     (case tell_capability prior sess c st of
        (Some e, st1) \<Rightarrow> (Some e, st1)
      | (None, st1) \<Rightarrow> tell_capabilities prior sess cs st1)"

definition tell_bundle :: "'w config_env \<Rightarrow> snapshot \<Rightarrow> id \<Rightarrow> id \<times> string \<Rightarrow> 'w config_state \<Rightarrow> 'w config_state" where
  "tell_bundle E prior sess p st =
     (case ge_bundle_agent_change E of
        None \<Rightarrow> st
      | Some send \<Rightarrow> tell (fst p) (evaluate_agent_config_path prior (snd p))
          (evaluate_agent_config_path (gs_snapshot st) (snd p)) (send (fst p)) sess st)"

text \<open>
  The error is that of a mapping, and then nobody further is told, or that of bringing the
  schedules up to date; in both cases nothing is broadcast.
\<close>

definition handle_agent_config_set :: "'w config_env \<Rightarrow> string \<Rightarrow> json \<Rightarrow> json \<Rightarrow> id \<Rightarrow> 'w config_state \<Rightarrow>
    string option \<times> 'w config_state" where
  "handle_agent_config_set E n old new sess st =
     (let prior = (gs_snapshot st)(n \<mapsto> old)
      in case tell_capabilities prior sess (ge_capabilities E) st of
           (Some e, st1) \<Rightarrow> (Some e, st1)
         | (None, st1) \<Rightarrow>
             (let st2 = fold (tell_bundle E prior sess) (ge_paths E) st1
              in case ge_sync E (gs_world st2) of
                   (Some e, w) \<Rightarrow> (Some e, st2\<lparr>gs_world := w\<rparr>)
                 | (None, w) \<Rightarrow> (None, st2\<lparr>gs_world := w, gs_updates := gs_updates st2 @ [(n, new)]\<rparr>)))"

text \<open>What both writers do with a value that was checked.\<close>

definition write_agent_config :: "'w config_env \<Rightarrow> string \<Rightarrow> json \<Rightarrow> json \<Rightarrow> id \<Rightarrow> 'w config_state \<Rightarrow>
    string option \<times> 'w config_state" where
  "write_agent_config E n s v sess st =
     (let old = or_else (gs_snapshot st n) (so_create (ge_ops E) s); st1 = put_kv (agent_key n) v st
      in handle_agent_config_set E n old v sess (st1\<lparr>gs_snapshot := (gs_snapshot st1)(n \<mapsto> v)\<rparr>))"

section \<open>The client's action\<close>

abbreviation in_quotes :: "string \<Rightarrow> string" where "in_quotes n \<equiv> [CHR 0x22] @ n @ [CHR 0x22]"

definition apply_agent_config_set :: "'w config_env \<Rightarrow> string \<Rightarrow> json \<Rightarrow> id \<Rightarrow> 'w config_state \<Rightarrow>
    string option \<times> 'w config_state" where
  "apply_agent_config_set E n v sess st =
     (case map_of (agent_schema E) n of
        None \<Rightarrow> (Some (''Unknown agent-level config namespace: '' @ n), st)
      | Some s \<Rightarrow>
          if \<not> so_check (ge_ops E) s v
          then (Some (''Invalid agent config payload for namespace '' @ in_quotes n), st)
          else write_agent_config E n s v sess (ensure_agent_config_loaded E st))"

section \<open>The tools\<close>

datatype config_reply = Reply_Text string | Reply_Error string

definition format_errors :: "schema_ops \<Rightarrow> json \<Rightarrow> json \<Rightarrow> string" where
  "format_errors V s v =
     (let es = so_errors V s v
      in if es = [] then ''Validation failed'' else join ''; '' (map (\<lambda>(p, m). p @ '': '' @ m) es))"

definition validation_error :: "schema_ops \<Rightarrow> json \<Rightarrow> json \<Rightarrow> config_reply" where
  "validation_error V s v = Reply_Error (''Validation error: '' @ format_errors V s v @ [CHR 0x0A] @
     ''Expected schema: '' @ pretty 0 s)"

definition find_namespace :: "string \<Rightarrow> 'w config_namespace list \<Rightarrow> 'w config_namespace option" where
  "find_namespace n ns =
     (case find (\<lambda>x. gn_id x = n) ns of
        Some x \<Rightarrow> Some x
      | None \<Rightarrow> find (\<lambda>x. case gn_pattern x of None \<Rightarrow> False | Some p \<Rightarrow> p n) ns)"

text \<open>\<open>/^capability:(.+)$/\<close>; a line break ends what the dot matches.\<close>

definition capability_of :: "string \<Rightarrow> id option" where
  "capability_of n =
     (let c = drop 11 n
      in if starts_with n ''capability:'' \<and> c \<noteq> [] \<and> CHR 0x0A \<notin> set c \<and> CHR 0x0D \<notin> set c then Some c else None)"

definition stand_in_capability :: "stand_in \<Rightarrow> 'w config_capability" where
  "stand_in_capability s = \<lparr>gc_id = si_id s, gc_name = si_id s, gc_description = ''Bundle-declared capability config'',
     gc_schema = Some (si_schema s), gc_default = si_default s, gc_on_change = None, gc_mapping = None,
     gc_on_agent_change = None\<rparr>"

definition config_capabilities :: "'w config_env \<Rightarrow> 'w config_capability list" where
  "config_capabilities E = ge_capabilities E @ map stand_in_capability (ge_stand_ins E)"

definition find_capability :: "'w config_env \<Rightarrow> id \<Rightarrow> 'w config_capability option" where
  "find_capability E c = find (\<lambda>x. gc_id x = c) (config_capabilities E)"

definition namespace_list :: "'w config_env \<Rightarrow> string list" where
  "namespace_list E = [''capability:{id}'', ''session''] @ map fst (agent_schema E) @ map gn_id (ge_namespaces E)"

definition unknown_namespace :: "'w config_env \<Rightarrow> string \<Rightarrow> config_reply" where
  "unknown_namespace E n =
     Reply_Error (''Unknown namespace: '' @ n @ ''. Available: '' @ join '', '' (namespace_list E))"

definition updated :: "string \<Rightarrow> config_reply" where
  "updated n = Reply_Text (''Configuration updated: '' @ n)"

definition config_get :: "'w config_env \<Rightarrow> id \<Rightarrow> string \<Rightarrow> 'w config_state \<Rightarrow> (string + config_reply) \<times> 'w config_state" where
  "config_get E sess n st =
     (case capability_of n of
        Some c \<Rightarrow>
          (case find_capability E c of
             None \<Rightarrow> (Inr (Reply_Error (''Unknown capability: '' @ c)), st)
           | Some cap \<Rightarrow> (Inr (Reply_Text (pretty 0 (stored_capability_config cap st))), st))
      | None \<Rightarrow>
          if n = ''session''
          then (Inr (Reply_Text (pretty 0 (JObj [(''name'', JStr
                 (case get_session (gs_store st) sess of None \<Rightarrow> [] | Some r \<Rightarrow> sname r))]))), st)
          else (case map_of (agent_schema E) n of
              Some s \<Rightarrow> (Inr (Reply_Text (pretty 0 (or_else (gs_snapshot st n) (so_create (ge_ops E) s)))), st)
            | None \<Rightarrow>
                (case find_namespace n (ge_namespaces E) of
                   None \<Rightarrow> (Inr (unknown_namespace E n), st)
                 | Some x \<Rightarrow>
                     (case gn_get x n (gs_world st) of
                        (Inl e, w) \<Rightarrow> (Inl e, st\<lparr>gs_world := w\<rparr>)
                      | (Inr v, w) \<Rightarrow> (Inr (Reply_Text (pretty 0
                          (nullish_or v (JObj [])))), st\<lparr>gs_world := w\<rparr>)))))"

text \<open>Models write objects as texts; a text that is JSON is read.\<close>

fun read_value :: "json \<Rightarrow> json" where
  "read_value (JStr t) = or_else (parse_json t) (JStr t)"
| "read_value j = j"

definition set_capability_config :: "'w config_env \<Rightarrow> id \<Rightarrow> string \<Rightarrow> id \<Rightarrow> json \<Rightarrow> 'w config_state \<Rightarrow>
    config_reply \<times> 'w config_state" where
  "set_capability_config E sess n c v st =
     (case find_capability E c of
        None \<Rightarrow> (Reply_Error (''Unknown capability: '' @ c), st)
      | Some cap \<Rightarrow>
          (case gc_schema cap of
             None \<Rightarrow> (Reply_Error (''Capability '' @ in_quotes c @ '' does not accept configuration.''), st)
           | Some s \<Rightarrow>
               if \<not> so_check (ge_ops E) s v then (validation_error (ge_ops E) s v, st)
               else (case (if c \<in> si_id ` set (ge_stand_ins E) then ge_bundle_change E else None) of
                   Some send \<Rightarrow>
                     (case send c (stored_capability_config cap st) v sess (gs_world st) of
                        ((ok, err), w) \<Rightarrow>
                          if ok then (updated n, put_kv (capability_key c) v (st\<lparr>gs_world := w\<rparr>))
                          else (Reply_Error (or_else err (''Bundle '' @ in_quotes c @ '' rejected config change'')),
                                st\<lparr>gs_world := w\<rparr>))
                 | None \<Rightarrow>
                     (case gc_on_change cap of
                        None \<Rightarrow> (updated n, put_kv (capability_key c) v st)
                      | Some hook \<Rightarrow>
                          (case hook (stored_capability_config cap st) v sess (gs_world st) of
                             (Some e, w) \<Rightarrow> (Reply_Error (''Error in '' @ gc_name cap @ '' onConfigChange: '' @ e), st\<lparr>gs_world := w\<rparr>)
                           | (None, w) \<Rightarrow> (updated n, put_kv (capability_key c) v (st\<lparr>gs_world := w\<rparr>)))))))"

definition rename_from_config :: "id \<Rightarrow> json \<Rightarrow> 'w config_state \<Rightarrow> config_reply \<times> 'w config_state" where
  "rename_from_config sess v st =
     (case member v ''name'' of
        Some (JStr t) \<Rightarrow>
          if t = [] \<or> length t > 200 then (Reply_Error ''Session name must be 1-200 characters.'', st)
          else (Reply_Text (''Session renamed to: '' @ t),
                st\<lparr>gs_store := rename_session (gs_store st) sess t (gs_now st)\<rparr>)
      | _ \<Rightarrow> (Reply_Error (''Expected '' @ [CHR 0x7B] @ '' name: '' @ quote ''...'' @ '' '' @ [CHR 0x7D] @ ''.''), st))"

definition set_in_namespace :: "'w config_env \<Rightarrow> 'w config_namespace \<Rightarrow> string \<Rightarrow> json \<Rightarrow> 'w config_state \<Rightarrow>
    config_reply \<times> 'w config_state" where
  "set_in_namespace E x n v st =
     (if gn_pattern x = None \<and> \<not> so_check (ge_ops E) (gn_schema x) v
      then (validation_error (ge_ops E) (gn_schema x) v, st)
      else (case gn_set x n v (gs_world st) of
          (Inl e, w) \<Rightarrow> (Reply_Error e, st\<lparr>gs_world := w\<rparr>)
        | (Inr (Some t), w) \<Rightarrow> (Reply_Text t, st\<lparr>gs_world := w\<rparr>)
        | (Inr None, w) \<Rightarrow> (updated n, st\<lparr>gs_world := w\<rparr>)))"

definition config_set :: "'w config_env \<Rightarrow> id \<Rightarrow> string \<Rightarrow> json \<Rightarrow> 'w config_state \<Rightarrow> config_reply \<times> 'w config_state" where
  "config_set E sess n raw st =
     (let v = read_value raw
      in case capability_of n of
           Some c \<Rightarrow> set_capability_config E sess n c v st
         | None \<Rightarrow>
             (case map_of (agent_schema E) n of
                Some s \<Rightarrow>
                  if \<not> so_check (ge_ops E) s v then (validation_error (ge_ops E) s v, st)
                  else (case write_agent_config E n s v sess st of
                      (Some e, st1) \<Rightarrow> (Reply_Error (''Error in agent config change dispatch: '' @ e), st1)
                    | (None, st1) \<Rightarrow> (updated n, st1))
              | None \<Rightarrow>
                  if n = ''session'' then rename_from_config sess v st
                  else (case find_namespace n (ge_namespaces E) of
                      None \<Rightarrow> (unknown_namespace E n, st)
                    | Some x \<Rightarrow> set_in_namespace E x n v st)))"

definition session_schema :: json where
  "session_schema = JObj [(''type'', JStr ''object''), (''properties'', JObj [(''name'',
     JObj [(''type'', JStr ''string''), (''minLength'', JNum 1), (''maxLength'', JNum 200)])]),
     (''required'', JArr [JStr ''name''])]"

definition resolve_schema :: "'w config_env \<Rightarrow> string \<Rightarrow> json option" where
  "resolve_schema E n =
     (if n = ''session'' then Some session_schema
      else case capability_of n of
          Some c \<Rightarrow> map_option (\<lambda>cap. or_else (gc_schema cap) (JObj [(''type'', JStr ''object''),
             (''description'', JStr (gc_name cap @ '' does not accept configuration.''))])) (find_capability E c)
        | None \<Rightarrow>
            (case map_of (agent_schema E) n of
               Some s \<Rightarrow> Some s
             | None \<Rightarrow> map_option gn_schema (find (\<lambda>x. gn_id x = n) (ge_namespaces E))))"

definition capability_entry :: "'w config_capability \<Rightarrow> json" where
  "capability_entry c = JObj [(''id'', JStr (gc_id c)), (''name'', JStr (gc_name c)),
     (''description'', JStr (gc_description c)), (''configSchema'', or_else (gc_schema c) JNull)]"

definition schema_listing :: "'w config_env \<Rightarrow> 'w config_state \<Rightarrow> json" where
  "schema_listing E st =
     (let caps = fold (\<lambda>c. map_set (gc_id c) (capability_entry c)) (config_capabilities E) [];
          base = [(''session'', session_schema), (''capabilities'', JObj caps)];
          own = fold (\<lambda>(n, s). map_set n (JObj ([(''description'', nullish_or (member s ''description'') (JStr n)),
            (''schema'', s)] @ (case gs_snapshot st n of None \<Rightarrow> [] | Some v \<Rightarrow> [(''value'', v)])))) (agent_schema E) base
      in JObj (fold (\<lambda>x. map_set (gn_id x) (JObj [(''description'', JStr (gn_description x)), (''schema'', gn_schema x)]))
           (ge_namespaces E) own))"

definition config_schema :: "'w config_env \<Rightarrow> string option \<Rightarrow> 'w config_state \<Rightarrow> config_reply" where
  "config_schema E n st =
     (if truthy n
      then (case resolve_schema E (the n) of
          None \<Rightarrow> Reply_Error (''Unknown namespace: '' @ the n)
        | Some s \<Rightarrow> Reply_Text (pretty 0 s))
      else Reply_Text (pretty 0 (schema_listing E st)))"

section \<open>What a write changes\<close>

text \<open>The parts of the state that telling the capabilities leaves alone.\<close>

definition same_config :: "'w config_state \<Rightarrow> 'w config_state \<Rightarrow> bool" where
  "same_config st st' \<longleftrightarrow> gs_kv st' = gs_kv st \<and> gs_snapshot st' = gs_snapshot st \<and> gs_loaded st' = gs_loaded st \<and>
     gs_store st' = gs_store st"

lemma same_config_refl [simp]: "same_config st st"
  by (simp add: same_config_def)

lemma same_config_trans: "same_config a b \<Longrightarrow> same_config b c \<Longrightarrow> same_config a c"
  by (simp add: same_config_def)

lemma same_config_world [simp]:
  "same_config st (st\<lparr>gs_world := w\<rparr>)" "same_config st (st\<lparr>gs_world := w, gs_updates := us\<rparr>)"
  by (simp_all add: same_config_def)

definition news :: "id \<Rightarrow> json option \<Rightarrow> json option \<Rightarrow> told list" where
  "news c old new = (if slice_equal old new then [] else [\<lparr>td_capability = c, td_old = old, td_new = new\<rparr>])"

lemma tell_effect: "same_config st (tell c old new h sess st) \<and> gs_told (tell c old new h sess st) = gs_told st @ news c old new
    \<and> gs_updates (tell c old new h sess st) = gs_updates st \<and>
    gs_world (tell c old new h sess st) = (if slice_equal old new then gs_world st else snd (h old new sess (gs_world st)))"
  by (simp add: tell_def news_def same_config_def)

text \<open>
  Who is to be told of a change from one snapshot to another, in terms of the snapshots alone:
  the capabilities whose part changed, up to one whose mapping throws; and what their hooks do
  to the world.
\<close>

fun telling :: "snapshot \<Rightarrow> snapshot \<Rightarrow> id \<Rightarrow> 'w config_capability list \<Rightarrow> 'w \<Rightarrow> told list \<times> string option \<times> 'w" where
  "telling prior sn sess [] w = ([], None, w)"
| "telling prior sn sess (c # cs) w =
     (case (gc_mapping c, gc_on_agent_change c) of
        (Some f, Some hook) \<Rightarrow>
          (case (f prior, f sn) of
             (Inr old, Inr new) \<Rightarrow>
               (case telling prior sn sess cs (if slice_equal old new then w else snd (hook old new sess w)) of
                  (ts, e, w1) \<Rightarrow> (news (gc_id c) old new @ ts, e, w1))
           | (Inl e, _) \<Rightarrow> ([], Some e, w)
           | (Inr _, Inl e) \<Rightarrow> ([], Some e, w))
      | _ \<Rightarrow> telling prior sn sess cs w)"

definition bundle_news :: "'w config_env \<Rightarrow> snapshot \<Rightarrow> snapshot \<Rightarrow> id \<times> string \<Rightarrow> told list" where
  "bundle_news E prior sn p =
     (if ge_bundle_agent_change E = None then []
      else news (fst p) (evaluate_agent_config_path prior (snd p)) (evaluate_agent_config_path sn (snd p)))"

definition bundle_effect :: "'w config_env \<Rightarrow> snapshot \<Rightarrow> snapshot \<Rightarrow> id \<Rightarrow> id \<times> string \<Rightarrow> 'w \<Rightarrow> 'w" where
  "bundle_effect E prior sn sess p w =
     (case ge_bundle_agent_change E of
        None \<Rightarrow> w
      | Some send \<Rightarrow>
          if slice_equal (evaluate_agent_config_path prior (snd p)) (evaluate_agent_config_path sn (snd p)) then w
          else snd (send (fst p) (evaluate_agent_config_path prior (snd p)) (evaluate_agent_config_path sn (snd p)) sess w))"

lemma tell_capabilities_effect:
  "case telling prior (gs_snapshot st) sess cs (gs_world st) of (ts, e, w) \<Rightarrow>
     fst (tell_capabilities prior sess cs st) = e \<and> same_config st (snd (tell_capabilities prior sess cs st)) \<and>
     gs_told (snd (tell_capabilities prior sess cs st)) = gs_told st @ ts \<and>
     gs_updates (snd (tell_capabilities prior sess cs st)) = gs_updates st \<and>
     gs_world (snd (tell_capabilities prior sess cs st)) = w"
proof (induction cs arbitrary: st)
  case (Cons c cs)
  show ?case
  proof (cases "gc_mapping c = None \<or> gc_on_agent_change c = None")
    case True
    then have "tell_capability prior sess c st = (None, st)" by (auto simp: tell_capability_def split: option.split)
    then show ?thesis using Cons [of st] True by (auto split: option.split)
  next
    case False
    then obtain f h where fh: "gc_mapping c = Some f" "gc_on_agent_change c = Some h"
      by (cases "gc_mapping c"; cases "gc_on_agent_change c") auto
    show ?thesis
    proof (cases "f prior")
      case (Inl e)
      then show ?thesis using fh by (simp add: tell_capability_def)
    next
      case old: (Inr old)
      show ?thesis
      proof (cases "f (gs_snapshot st)")
        case (Inl e)
        then show ?thesis using fh old by (simp add: tell_capability_def)
      next
        case new: (Inr new)
        let ?st = "tell (gc_id c) old new h sess st"
        have "tell_capability prior sess c st = (None, ?st)" using fh old new by (simp add: tell_capability_def)
        moreover have "gs_snapshot ?st = gs_snapshot st" using tell_effect [of st] by (simp add: same_config_def)
        ultimately show ?thesis
          using Cons [of ?st] tell_effect [of st "gc_id c" old new h sess] same_config_trans [of st ?st] fh old new
          by (auto split: prod.splits)
      qed
    qed
  qed
qed simp

lemma tell_bundle_effect:
  "same_config st (tell_bundle E prior sess p st) \<and>
   gs_told (tell_bundle E prior sess p st) = gs_told st @ bundle_news E prior (gs_snapshot st) p \<and>
   gs_updates (tell_bundle E prior sess p st) = gs_updates st \<and>
   gs_world (tell_bundle E prior sess p st) = bundle_effect E prior (gs_snapshot st) sess p (gs_world st)"
  using tell_effect [of st] by (auto simp: tell_bundle_def bundle_news_def bundle_effect_def split: option.split)

lemma tell_bundles_effect:
  "same_config st (fold (tell_bundle E prior sess) ps st) \<and>
   gs_told (fold (tell_bundle E prior sess) ps st) = gs_told st @ concat (map (bundle_news E prior (gs_snapshot st)) ps) \<and>
   gs_updates (fold (tell_bundle E prior sess) ps st) = gs_updates st \<and>
   gs_world (fold (tell_bundle E prior sess) ps st) = fold (bundle_effect E prior (gs_snapshot st) sess) ps (gs_world st)"
proof (induction ps arbitrary: st)
  case (Cons p ps)
  let ?st = "tell_bundle E prior sess p st"
  have "gs_snapshot ?st = gs_snapshot st" using tell_bundle_effect [of st] by (simp add: same_config_def)
  then show ?case using Cons [of ?st] tell_bundle_effect [of st E prior sess p] same_config_trans [of st ?st] by simp
qed simp

text \<open>What a change does: the error it ends with, who was told, what is broadcast, and the world.\<close>

definition change_effect :: "'w config_env \<Rightarrow> snapshot \<Rightarrow> snapshot \<Rightarrow> string \<Rightarrow> json \<Rightarrow> id \<Rightarrow> 'w \<Rightarrow>
    string option \<times> told list \<times> (string \<times> json) list \<times> 'w" where
  "change_effect E prior sn n v sess w =
     (case telling prior sn sess (ge_capabilities E) w of
        (ts, Some e, w1) \<Rightarrow> (Some e, ts, [], w1)
      | (ts, None, w1) \<Rightarrow>
          (case ge_sync E (fold (bundle_effect E prior sn sess) (ge_paths E) w1) of
             (e, w2) \<Rightarrow> (e, ts @ concat (map (bundle_news E prior sn) (ge_paths E)),
               if e = None then [(n, v)] else [], w2)))"

lemma handle_set_effect:
  assumes "handle_agent_config_set E n old new sess st = (e, st')"
    and "change_effect E ((gs_snapshot st)(n \<mapsto> old)) (gs_snapshot st) n new sess (gs_world st) = (e', ts, us, w)"
  shows "same_config st st' \<and> e = e' \<and> gs_told st' = gs_told st @ ts \<and> gs_updates st' = gs_updates st @ us \<and> gs_world st' = w"
proof -
  let ?prior = "(gs_snapshot st)(n \<mapsto> old)"
  obtain xs x v where tl: "telling ?prior (gs_snapshot st) sess (ge_capabilities E) (gs_world st) = (xs, x, v)"
    by (metis prod.exhaust)
  obtain y st1 where tc: "tell_capabilities ?prior sess (ge_capabilities E) st = (y, st1)" by fastforce
  have 1: "y = x" "same_config st st1" "gs_told st1 = gs_told st @ xs" "gs_updates st1 = gs_updates st" "gs_world st1 = v"
    using tell_capabilities_effect [where prior = ?prior and st = st and sess = sess and cs = "ge_capabilities E"] tl tc
    by simp_all
  show ?thesis
  proof (cases x)
    case (Some d)
    then show ?thesis using assms tl tc 1 by (auto simp: handle_agent_config_set_def change_effect_def)
  next
    case None
    define st2 where "st2 = fold (tell_bundle E ?prior sess) (ge_paths E) st1"
    have sn: "gs_snapshot st1 = gs_snapshot st" using 1(2) by (simp add: same_config_def)
    have 2: "same_config st1 st2" "gs_told st2 = gs_told st1 @ concat (map (bundle_news E ?prior (gs_snapshot st)) (ge_paths E))"
      "gs_updates st2 = gs_updates st1" "gs_world st2 = fold (bundle_effect E ?prior (gs_snapshot st) sess) (ge_paths E) v"
      using tell_bundles_effect [where st = st1 and E = E and prior = ?prior and sess = sess and ps = "ge_paths E"] sn 1(5) unfolding st2_def by simp_all
    obtain z u where z: "ge_sync E (gs_world st2) = (z, u)" by fastforce
    have "e = z" "st' = (if z = None then st2\<lparr>gs_world := u, gs_updates := gs_updates st2 @ [(n, new)]\<rparr> else st2\<lparr>gs_world := u\<rparr>)"
      using assms(1) tc 1(1) None z unfolding handle_agent_config_set_def Let_def st2_def [symmetric]
      by (auto simp flip: st2_def split: option.splits)
    moreover have "e' = z" "ts = xs @ concat (map (bundle_news E ?prior (gs_snapshot st)) (ge_paths E))"
      "us = (if z = None then [(n, new)] else [])" "w = u"
      using assms(2) tl None z 2(4) by (auto simp: change_effect_def)
    ultimately show ?thesis
      using 1 2 same_config_trans [OF 1(2) 2(1)] by (auto simp: same_config_def)
  qed
qed

lemma write_effect:
  assumes "write_agent_config E n s v sess st = (e, st')"
  shows "gs_kv st' = (gs_kv st)(agent_key n \<mapsto> v)" "gs_snapshot st' = (gs_snapshot st)(n \<mapsto> v)" "gs_loaded st' = gs_loaded st"
    "gs_store st' = gs_store st"
proof -
  note h = assms [unfolded write_agent_config_def Let_def]
  obtain e' ts us w where eff: "change_effect E ((gs_snapshot st)(n \<mapsto> or_else (gs_snapshot st n) (so_create (ge_ops E) s)))
      ((gs_snapshot st)(n \<mapsto> v)) n v sess (gs_world st) = (e', ts, us, w)"
    by (metis prod.exhaust)
  from handle_set_effect [OF h, of e' ts us w] eff
  show "gs_kv st' = (gs_kv st)(agent_key n \<mapsto> v)" "gs_snapshot st' = (gs_snapshot st)(n \<mapsto> v)" "gs_loaded st' = gs_loaded st"
    "gs_store st' = gs_store st"
    by (auto simp: same_config_def put_kv_def)
qed

section \<open>The snapshot mirrors the store\<close>

text \<open>The value of a namespace according to the store.\<close>

definition restored :: "schema_ops \<Rightarrow> snapshot \<Rightarrow> string \<Rightarrow> json \<Rightarrow> json" where
  "restored V kv n s =
     (case kv (agent_key n) of None \<Rightarrow> so_create V s
      | Some v \<Rightarrow> if so_check V s v then v else so_create V s)"

text \<open>
  The agent's own declarations hold for the life of the runtime; what bundles declare beside
  them may be different at every step.
\<close>

definition declares :: "schema_ops \<Rightarrow> (string \<times> json) list \<Rightarrow> 'w config_env \<Rightarrow> bool" where
  "declares V hs E \<longleftrightarrow> ge_ops E = V \<and> ge_host_schema E = hs \<and> distinct (map fst hs) \<and>
     distinct (map fst (ge_bundle_schema E))"

definition mirrors_store :: "schema_ops \<Rightarrow> (string \<times> json) list \<Rightarrow> 'w config_state \<Rightarrow> bool" where
  "mirrors_store V hs st \<longleftrightarrow> gs_loaded st \<longrightarrow>
     (\<forall>n s. map_of hs n = Some s \<longrightarrow> n \<noteq> ''__orphans'' \<longrightarrow> gs_snapshot st n = Some (restored V (gs_kv st) n s))"

lemma key_simps [simp]:
  "agent_key m = agent_key n \<longleftrightarrow> m = n" "capability_key c \<noteq> agent_key n" "agent_key n \<noteq> capability_key c"
  by (simp_all add: agent_key_def capability_key_def)

lemma restored_other: "k \<noteq> agent_key n \<Longrightarrow> restored V (kv(k \<mapsto> v)) n s = restored V kv n s"
  by (simp add: restored_def)

lemma load_namespace_effect:
  assumes "n \<noteq> ''__orphans''"
  shows "gs_kv (load_namespace E (m, s) st) (agent_key n) = gs_kv st (agent_key n)"
    "gs_snapshot (load_namespace E (m, s) st) n =
      (if n = m then Some (restored (ge_ops E) (gs_kv st) n s) else gs_snapshot st n)"
  using assms
  by (auto simp: load_namespace_def record_orphan_def put_kv_def restored_def Let_def split: option.split)

lemma load_all_effect:
  assumes "n \<noteq> ''__orphans''" "distinct (map fst ss)"
  shows "gs_kv (fold (load_namespace E) ss st) (agent_key n) = gs_kv st (agent_key n) \<and>
    gs_snapshot (fold (load_namespace E) ss st) n =
      (case map_of ss n of Some s \<Rightarrow> Some (restored (ge_ops E) (gs_kv st) n s) | None \<Rightarrow> gs_snapshot st n)"
  using assms(2)
proof (induction ss arbitrary: st)
  case (Cons x ss)
  obtain m s where x: "x = (m, s)" by (cases x)
  have kv: "gs_kv (load_namespace E x st) (agent_key n) = gs_kv st (agent_key n)"
    using load_namespace_effect(1) [OF assms(1)] x by simp
  then have "restored V (gs_kv (load_namespace E x st)) n t = restored V (gs_kv st) n t" for V t by (simp add: restored_def)
  moreover have "n = m \<Longrightarrow> map_of ss n = None" using Cons.prems x by (auto simp: map_of_eq_None_iff)
  ultimately show ?case
    using Cons.IH [of "load_namespace E x st"] Cons.prems x kv load_namespace_effect(2) [OF assms(1), of E m s st]
    by (auto split: option.split)
qed simp

lemma agent_schema_distinct: "declares V hs E \<Longrightarrow> distinct (map fst (agent_schema E))"
proof -
  assume "declares V hs E"
  then have d: "distinct (map fst (ge_host_schema E))" "distinct (map fst (ge_bundle_schema E))"
    by (simp_all add: declares_def)
  have "fst \<circ> (\<lambda>(n, s). (n, f n s)) = fst" for f :: "string \<Rightarrow> json \<Rightarrow> json" by (auto simp: fun_eq_iff)
  then have keys: "map fst (map (\<lambda>(n, s). (n, f n s)) xs) = map fst xs" for f :: "string \<Rightarrow> json \<Rightarrow> json" and xs by simp
  have "distinct (map fst (filter P (ge_host_schema E)))" for P using d(1) by (simp add: distinct_map_filter)
  then have host: "distinct (map fst (filter (\<lambda>(n, s). n \<notin> fst ` set (ge_bundle_schema E)) (ge_host_schema E)))" .
  have "set (map fst (ge_bundle_schema E)) \<inter>
      set (map fst (filter (\<lambda>(n, s). n \<notin> fst ` set (ge_bundle_schema E)) (ge_host_schema E))) = {}" by force
  then show ?thesis
    unfolding agent_schema_def using d host by (simp only: keys map_append distinct_append split: if_split) blast
qed

text \<open>An agent's own namespace keeps its schema whatever a bundle declares.\<close>

lemma host_schema_wins: "declares V hs E \<Longrightarrow> map_of hs n = Some s \<Longrightarrow> map_of (agent_schema E) n = Some s"
proof -
  assume d: "declares V hs E" and n: "map_of hs n = Some s"
  have hs: "ge_host_schema E = hs" using d by (simp add: declares_def)
  have merged: "map_of (map (\<lambda>(m, s'). (m, or_else (map_of hs m) s')) bs) n = (if n \<in> fst ` set bs then Some s else None)" for bs
    using n by (induction bs) auto
  have rest: "map_of (filter (\<lambda>(m, s'). m \<notin> fst ` set (ge_bundle_schema E)) hs) n = Some s"
    if "n \<notin> fst ` set (ge_bundle_schema E)"
    using n that by (induction hs) (force split: if_splits)+
  show ?thesis
    unfolding agent_schema_def hs using n rest
    by (cases "n \<in> fst ` set (ge_bundle_schema E)") (simp_all add: map_add_def merged)
qed

lemma load_restores:
  assumes "declares V hs E" "\<not> gs_loaded st" "map_of hs n = Some s" "n \<noteq> ''__orphans''"
  shows "gs_snapshot (ensure_agent_config_loaded E st) n = Some (restored V (gs_kv st) n s) \<and>
    restored V (gs_kv (ensure_agent_config_loaded E st)) n s = restored V (gs_kv st) n s"
proof -
  have v: "ge_ops E = V" using assms(1) by (simp add: declares_def)
  show ?thesis
    using load_all_effect [OF assms(4) agent_schema_distinct [OF assms(1)], of E st] host_schema_wins [OF assms(1,3)] assms(2)
    by (simp add: ensure_agent_config_loaded_def restored_def v)
qed

lemma load_mirrors:
  assumes "declares V hs E" "mirrors_store V hs st" shows "mirrors_store V hs (ensure_agent_config_loaded E st)"
proof (cases "gs_loaded st")
  case True
  then show ?thesis using assms(2) by (simp add: ensure_agent_config_loaded_def)
next
  case False
  then show ?thesis using load_restores [OF assms(1) False] by (simp add: mirrors_store_def)
qed

lemma write_mirrors:
  assumes "declares V hs E" "mirrors_store V hs st" "map_of (agent_schema E) n = Some s" "so_check (ge_ops E) s v"
    "write_agent_config E n s v sess st = (e, st')"
  shows "mirrors_store V hs st'"
  using assms(1-4) write_effect [OF assms(5)] host_schema_wins [OF assms(1), of n]
  by (auto simp: mirrors_store_def restored_def declares_def)

lemma mirrors_cong:
  "gs_snapshot st' = gs_snapshot st \<Longrightarrow> gs_loaded st' = gs_loaded st \<Longrightarrow>
   (\<And>n. gs_kv st' (agent_key n) = gs_kv st (agent_key n)) \<Longrightarrow> mirrors_store V hs st \<Longrightarrow> mirrors_store V hs st'"
  by (simp add: mirrors_store_def restored_def)

lemma capability_set_mirrors:
  "set_capability_config E sess n c v st = (r, st') \<Longrightarrow> mirrors_store V hs st \<Longrightarrow> mirrors_store V hs st'"
  by (rule mirrors_cong [of st' st])
    (auto simp: set_capability_config_def put_kv_def split: option.splits prod.splits if_splits)

section \<open>Histories\<close>

inductive config_step :: "'w config_env \<Rightarrow> 'w config_state \<Rightarrow> 'w config_state \<Rightarrow> bool" for E where
  load: "config_step E st (ensure_agent_config_loaded E st)"
| from_tool: "config_set E sess n v st = (r, st') \<Longrightarrow> config_step E st st'"
| from_client: "apply_agent_config_set E n v sess st = (e, st') \<Longrightarrow> config_step E st st'"
| read_tool: "config_get E sess n st = (g, st') \<Longrightarrow> config_step E st st'"

text \<open>
  A runtime starts with nothing loaded and whatever is in its store. At every step the bundle
  that is active may be another one, with other schemas, stand-ins, namespaces and hooks.
\<close>

inductive configured :: "schema_ops \<Rightarrow> (string \<times> json) list \<Rightarrow> 'w config_state \<Rightarrow> bool" for V hs where
  fresh: "\<not> gs_loaded st \<Longrightarrow> configured V hs st"
| further: "configured V hs st \<Longrightarrow> declares V hs E \<Longrightarrow> config_step E st st' \<Longrightarrow> configured V hs st'"

lemma config_set_mirrors:
  assumes "declares V hs E" "config_set E sess n v st = (r, st')" "mirrors_store V hs st" shows "mirrors_store V hs st'"
proof (cases "capability_of n")
  case (Some c)
  then show ?thesis using assms capability_set_mirrors [of E sess n c "read_value v" st r st'] by (simp add: config_set_def)
next
  case None
  show ?thesis
  proof (cases "map_of (agent_schema E) n")
    case (Some s)
    then show ?thesis
      using assms None write_mirrors [OF assms(1,3) Some]
      by (auto simp: config_set_def Let_def split: if_splits prod.splits option.splits)
  next
    case none: None
    then have "gs_snapshot st' = gs_snapshot st \<and> gs_loaded st' = gs_loaded st \<and> gs_kv st' = gs_kv st"
      using assms(2) None
      by (auto simp: config_set_def Let_def rename_from_config_def set_in_namespace_def
          split: if_splits prod.splits option.splits sum.splits json.splits)
    then show ?thesis using mirrors_cong [of st' st] assms(3) by simp
  qed
qed

lemma apply_mirrors:
  assumes "declares V hs E" "apply_agent_config_set E n v sess st = (e, st')" "mirrors_store V hs st"
  shows "mirrors_store V hs st'"
  using assms(2,3) write_mirrors [OF assms(1) load_mirrors [OF assms(1,3)]]
  by (auto simp: apply_agent_config_set_def split: option.splits if_splits)

lemma configured_mirrors: "configured V hs st \<Longrightarrow> mirrors_store V hs st"
proof (induction rule: configured.induct)
  case (fresh st)
  then show ?case by (simp add: mirrors_store_def)
next
  case (further st E st')
  from further(3) show ?case
  proof (cases rule: config_step.cases)
    case load
    then show ?thesis using load_mirrors [OF further(2,4)] by simp
  next
    case (from_tool sess n v r)
    then show ?thesis using config_set_mirrors [OF further(2)] further(4) by blast
  next
    case (from_client n v sess e)
    then show ?thesis using apply_mirrors [OF further(2)] further(4) by blast
  next
    case (read_tool sess n g)
    then have "gs_snapshot st' = gs_snapshot st \<and> gs_loaded st' = gs_loaded st \<and> gs_kv st' = gs_kv st"
      by (auto simp: config_get_def split: if_splits prod.splits option.splits sum.splits)
    then show ?thesis using mirrors_cong [of st' st] further(4) by simp
  qed
qed

text \<open>C28: An agent's own configuration survives a restart. Once the configuration is loaded, and
  however the model's tools and the clients read and write it, whichever bundles come and go
  meanwhile with declarations of their own: every namespace that the agent itself declares
  (other than the reserved \<open>__orphans\<close>) has the value that is stored for it if that satisfies
  the namespace's schema, and otherwise the schema's default; and a runtime that starts from
  the same store, again with any bundle, loads that very value. (For namespaces of bundles
  this fails, as \<open>late_namespace_reads_default\<close> shows.)\<close>

theorem agent_config_survives_restart:
  assumes "configured V hs st" and "gs_loaded st" and "declares V hs E"
    and "map_of hs n = Some s" and "n \<noteq> ''__orphans''"
  shows "\<exists>v. gs_snapshot st n = Some v \<and>
    v = (case gs_kv st (agent_key n) of None \<Rightarrow> so_create V s | Some x \<Rightarrow> if so_check V s x then x else so_create V s) \<and>
    gs_snapshot (ensure_agent_config_loaded E (st\<lparr>gs_snapshot := Map.empty, gs_loaded := False\<rparr>)) n = Some v"
proof -
  have now: "gs_snapshot st n = Some (restored V (gs_kv st) n s)"
    using configured_mirrors [OF assms(1)] assms(2,4,5) by (simp add: mirrors_store_def)
  let ?st = "st\<lparr>gs_snapshot := Map.empty, gs_loaded := False\<rparr>"
  have "gs_snapshot (ensure_agent_config_loaded E ?st) n = Some (restored V (gs_kv st) n s)"
    using load_restores [OF assms(3) _ assms(4,5), of ?st] by simp
  then show ?thesis using now by (simp add: restored_def)
qed

text \<open>C37: A client's write is checked, kept and announced. A value for an unknown namespace or one
  that does not satisfy its schema changes nothing. Any other is stored and becomes current.
  The capabilities whose part of the configuration changed are then told, in their order, with
  the old and the new part, then the bundle's, then the schedules are brought up to date, and
  last the new value is broadcast. A mapping that throws ends this before the capabilities
  after it are told, and an error of the schedules ends it before the broadcast; the write is
  then reported as failed although it is kept.\<close>

theorem client_write_is_announced:
  "case apply_agent_config_set E n v sess st of (e, st') \<Rightarrow>
     (case map_of (agent_schema E) n of
        None \<Rightarrow> e \<noteq> None \<and> st' = st
      | Some s \<Rightarrow>
          if \<not> so_check (ge_ops E) s v then e \<noteq> None \<and> st' = st
          else (let st0 = ensure_agent_config_loaded E st; sn = (gs_snapshot st0)(n \<mapsto> v);
                    prior = (gs_snapshot st0)(n \<mapsto> or_else (gs_snapshot st0 n) (so_create (ge_ops E) s));
                    (ts, thrown, w1) = telling prior sn sess (ge_capabilities E) (gs_world st0);
                    (failed, w2) = ge_sync E (fold (bundle_effect E prior sn sess) (ge_paths E) w1)
                in gs_kv st' = (gs_kv st0)(agent_key n \<mapsto> v) \<and> gs_snapshot st' = sn \<and>
                   (if thrown \<noteq> None
                    then e = thrown \<and> gs_told st' = gs_told st0 @ ts \<and> gs_updates st' = gs_updates st0 \<and> gs_world st' = w1
                    else e = failed \<and> gs_told st' = gs_told st0 @ ts @ concat (map (bundle_news E prior sn) (ge_paths E)) \<and>
                      gs_updates st' = gs_updates st0 @ (if failed = None then [(n, v)] else []) \<and> gs_world st' = w2)))"
proof -
  obtain e st' where run: "apply_agent_config_set E n v sess st = (e, st')" by fastforce
  show ?thesis
  proof (cases "map_of (agent_schema E) n")
    case None
    then show ?thesis by (simp add: apply_agent_config_set_def)
  next
    case (Some s)
    show ?thesis
    proof (cases "so_check (ge_ops E) s v")
      case False
      then show ?thesis using Some by (simp add: apply_agent_config_set_def)
    next
      case True
      let ?st0 = "ensure_agent_config_loaded E st"
      let ?sn = "(gs_snapshot ?st0)(n \<mapsto> v)"
      let ?prior = "(gs_snapshot ?st0)(n \<mapsto> or_else (gs_snapshot ?st0 n) (so_create (ge_ops E) s))"
      have w: "write_agent_config E n s v sess ?st0 = (e, st')" using run True Some by (simp add: apply_agent_config_set_def)
      obtain ts thrown w1 where tl: "telling ?prior ?sn sess (ge_capabilities E) (gs_world ?st0) = (ts, thrown, w1)"
        by (metis prod.exhaust)
      obtain failed w2 where sy: "ge_sync E (fold (bundle_effect E ?prior ?sn sess) (ge_paths E) w1) = (failed, w2)" by fastforce
      obtain e' ts' us w3 where eff: "change_effect E ?prior ?sn n v sess (gs_world ?st0) = (e', ts', us, w3)"
        by (metis prod.exhaust)
      have "gs_told st' = gs_told ?st0 @ ts' \<and> gs_updates st' = gs_updates ?st0 @ us \<and> gs_world st' = w3 \<and> e = e'"
        using handle_set_effect [OF w [unfolded write_agent_config_def Let_def], of e' ts' us w3] eff by (simp add: put_kv_def)
      then show ?thesis
        using write_effect [OF w] True Some eff tl sy
        by (auto simp: run Let_def change_effect_def split: option.splits)
    qed
  qed
qed

text \<open>Namespaces that are declared late are not loaded. When a bundle that becomes active after
  the configuration was loaded declares a namespace, the value the store holds for it is not
  read: the configuration shows the schema's default instead.\<close>

theorem late_namespace_reads_default:
  assumes "gs_loaded st" and "gs_snapshot st n = None" and "map_of (agent_schema E) n = Some s"
    and "capability_of n = None" and "n \<noteq> ''session''"
  shows "fst (config_get E sess n (ensure_agent_config_loaded E st)) = Inr (Reply_Text (pretty 0 (so_create (ge_ops E) s)))"
  using assms by (simp add: ensure_agent_config_loaded_def config_get_def)

section \<open>An agent\<close>

text \<open>Schemas that admit exactly the objects.\<close>

definition demo_ops :: schema_ops where
  "demo_ops = \<lparr>so_check = \<lambda>s v. (case v of JObj ms \<Rightarrow> True | _ \<Rightarrow> False), so_create = \<lambda>s. JObj [], so_errors = \<lambda>s v. []\<rparr>"

definition demo_config_env :: "unit config_env" where
  "demo_config_env = \<lparr>ge_ops = demo_ops, ge_host_schema = [(''bot'', JObj [])], ge_bundle_schema = [],
     ge_capabilities = [], ge_stand_ins = [], ge_namespaces = [], ge_paths = [], ge_bundle_change = None,
     ge_bundle_agent_change = None, ge_sync = \<lambda>w. (None, w), ge_iso_now = \<lambda>w. []\<rparr>"

definition demo_config_state :: "unit config_state" where
  "demo_config_state = \<lparr>gs_kv = [agent_key ''bot'' \<mapsto> JStr ''old'', agent_key ''late'' \<mapsto> JObj [(''a'', JNum 1)]],
     gs_snapshot = Map.empty, gs_loaded = False, gs_store = demo3, gs_now = 0, gs_world = (), gs_told = [], gs_updates = []\<rparr>"

lemma demo_bot_config: "agent_schema demo_config_env = [(''bot'', JObj [])]"
  "declares demo_ops [(''bot'', JObj [])] demo_config_env"
  by (simp_all add: agent_schema_def demo_config_env_def declares_def)

lemma agent_config_survives_restart_witness:
  "\<exists>v. gs_snapshot (snd (config_set demo_config_env ''s'' ''bot'' (JObj [(''x'', JNum 2)])
      (ensure_agent_config_loaded demo_config_env demo_config_state))) ''bot'' = Some v \<and>
    gs_snapshot (ensure_agent_config_loaded demo_config_env
      (snd (config_set demo_config_env ''s'' ''bot'' (JObj [(''x'', JNum 2)])
        (ensure_agent_config_loaded demo_config_env demo_config_state))\<lparr>gs_snapshot := Map.empty, gs_loaded := False\<rparr>)) ''bot'' = Some v"
proof -
  let ?st0 = "ensure_agent_config_loaded demo_config_env demo_config_state"
  obtain r st where st: "config_set demo_config_env ''s'' ''bot'' (JObj [(''x'', JNum 2)]) ?st0 = (r, st)" by fastforce
  have "configured demo_ops [(''bot'', JObj [])] demo_config_state" by (rule fresh) (simp add: demo_config_state_def)
  from further [OF further [OF this demo_bot_config(2) load] demo_bot_config(2) from_tool [OF st]]
  have reach: "configured demo_ops [(''bot'', JObj [])] st" .
  have "capability_of ''bot'' = None" by (simp add: capability_of_def starts_with_def)
  moreover have "so_check (ge_ops demo_config_env) (JObj []) (JObj [(''x'', JNum 2)])" by (simp add: demo_config_env_def demo_ops_def)
  ultimately have "\<exists>e. write_agent_config demo_config_env ''bot'' (JObj []) (JObj [(''x'', JNum 2)]) ''s'' ?st0 = (e, st)"
    using st by (auto simp: config_set_def demo_bot_config split: prod.splits option.splits)
  then have "gs_loaded st" using write_effect(3) by (fastforce simp: ensure_agent_config_loaded_def demo_config_state_def)
  from agent_config_survives_restart [OF reach this demo_bot_config(2), of "''bot''" "JObj []"] show ?thesis
    by (simp add: st)
qed

lemma late_namespace_reads_default_witness:
  "gs_kv demo_config_state (agent_key ''late'') = Some (JObj [(''a'', JNum 1)]) \<and>
   fst (config_get (demo_config_env\<lparr>ge_bundle_schema := [(''late'', JObj [])]\<rparr>) ''s'' ''late''
     (ensure_agent_config_loaded (demo_config_env\<lparr>ge_bundle_schema := [(''late'', JObj [])]\<rparr>)
       (ensure_agent_config_loaded demo_config_env demo_config_state))) = Inr (Reply_Text (pretty 0 (JObj [])))"
proof -
  let ?E = "demo_config_env\<lparr>ge_bundle_schema := [(''late'', JObj [])]\<rparr>"
  let ?st = "ensure_agent_config_loaded demo_config_env demo_config_state"
  have 1: "gs_loaded ?st" by (simp add: ensure_agent_config_loaded_def demo_config_state_def)
  have 2: "gs_snapshot ?st ''late'' = None"
    using load_all_effect [of "''late''" "[(''bot'', JObj [])]" demo_config_env demo_config_state]
    by (simp add: ensure_agent_config_loaded_def demo_bot_config demo_config_state_def)
  have 3: "map_of (agent_schema ?E) ''late'' = Some (JObj [])" by (simp add: agent_schema_def demo_config_env_def)
  have 4: "capability_of ''late'' = None" by (simp add: capability_of_def starts_with_def)
  have 5: "so_create (ge_ops ?E) (JObj []) = JObj []" by (simp add: demo_config_env_def demo_ops_def)
  have "gs_kv demo_config_state (agent_key ''late'') = Some (JObj [(''a'', JNum 1)])" by (simp add: demo_config_state_def)
  moreover have "''late'' \<noteq> ''session''" by simp
  ultimately show ?thesis using late_namespace_reads_default [OF 1 2 3 4, of "''s''"] unfolding 5 by blast
qed

end
