(* ===== verification/Spec2Isabelle.thy ===== *)
theory Spec2Isabelle
  imports Session_Store Task_Tracker A2A_Server Compaction Cron Agent_Runtime Rate_Limiter Agent_Class Session_Sync
    Bundle_Dispatch Openai_Stream Spine_Service Llm_Service Capability_Modes Bundle_Turn Agent_Config
begin

text \<open>
  A model of the CrabbyKit agent SDK (TypeScript, \<open>packages/\<close>) with the theorems that make
  it correct. An agent is a durable object: it keeps its sessions, schedules, queued messages
  and tasks in SQL tables, runs a loop that calls a model and executes tools, tells its
  clients over sockets, and may hand a turn to a bundle, untrusted code in a worker of its own
  that reaches its host only through services that verify a token.

  \<^bold>\<open>Parts and theories.\<close> Paths are below \<open>packages/\<close>; a definition has the name of the
  function it models, with a suffix where the name is taken.

  \<^item> Shared vocabulary: \<open>Prelude\<close> (ids, JSON values, SQL operations, the walk along parent
    pointers), \<open>Timestamps\<close> (the two text formats of timestamp columns and their order),
    \<open>Json_Text\<close> and \<open>Json_Parse\<close> (\<open>JSON.stringify\<close>, \<open>JSON.parse\<close>), \<open>Base64\<close>.
  \<^item> Tables of an agent: \<open>Session_Store\<close> (\<open>session/session-store.ts\<close>), \<open>Schedule_Store\<close>,
    \<open>Queue_Store\<close>, \<open>Rate_Limiter\<close> (\<open>runtime/agent-runtime/src\<close>), \<open>Task_Tracker\<close>
    (\<open>capabilities/task-tracker\<close>), \<open>A2A_Tasks\<close> (\<open>federation/a2a/src/server/task-store.ts\<close>).
    Each is a record or list of rows and one definition per method.
  \<^item> The loop: \<open>Tool_Repair\<close>, \<open>Agent_Loop\<close> and \<open>Agent_Class\<close> (\<open>runtime/agent-core/src\<close>).
    The model, the tools and the hooks are functions of a configuration over a world of any
    type; the result of every step carries the events it emitted.
  \<^item> What a model is sent and answers: \<open>Transform_Messages\<close>, \<open>Openai_Messages\<close>,
    \<open>Openai_Stream\<close> (\<open>runtime/ai/src/providers\<close>), \<open>Compaction\<close>
    (\<open>runtime/agent-runtime/src/compaction\<close>, \<open>capabilities/compaction-summary\<close>).
  \<^item> The runtime of an agent: \<open>Cron\<close>, \<open>Agent_Runtime\<close> (schedules, timers, the alarm, prompts
    and the queue of \<open>agent-runtime.ts\<close>), \<open>Session_Sync\<close> (its connections and the messages of
    clients, with the socket transport) and, at the other end, \<open>Transport_Types\<close> and
    \<open>Chat_Client\<close> (\<open>runtime/agent-runtime/src/client\<close>).
  \<^item> What an agent offers its model: \<open>Prompt_Sections\<close> (\<open>runtime/bundle-sdk/src/prompt\<close>,
    \<open>runtime/agent-runtime/src/prompt\<close>), \<open>Capability_Modes\<close> (\<open>capabilities/resolve.ts\<close>,
    \<open>modes\<close> and the assembly of a turn in \<open>agent-runtime.ts\<close>) and \<open>Agent_Config\<close>
    (\<open>runtime/agent-runtime/src/config\<close>).
  \<^item> Bundles: \<open>Bundle_Token\<close> (tokens, nonces, budgets), \<open>Bundle_Registry\<close> (both registries),
    \<open>Bundle_Dispatch\<close> (which bundle runs a turn), \<open>Spine_Service\<close> and \<open>Llm_Service\<close> (what a
    bundle can ask its host), and inside the bundle \<open>Bundle_Stream\<close> (the model's stream) and
    \<open>Bundle_Turn\<close> (\<open>runBundleTurn\<close>), both of \<open>runtime/bundle-sdk/src\<close>.
  \<^item> Federation: \<open>A2A_Server\<close> (\<open>federation/a2a/src/server\<close>).

  \<^bold>\<open>How the code is modelled.\<close> State is a record passed along and returned; what the code
  throws is a value (\<open>Inl\<close>, or \<open>None\<close> where there is one error); functions supplied by a user,
  a model or a platform are arguments or fields of a record and may read and change a world of
  any type. What cannot be seen in a state (events, broadcasts, requests, prompts of hooks) is
  recorded in a list that the operations extend. A promise that is awaited is a step in its
  place; where steps of several parties interleave, the sequence of steps is arbitrary.

  \<^bold>\<open>What the lemmas show.\<close>
  \<^item> The loop: it always ends, answers every tool call once, and its events, context and new
    messages fit together; queued messages are delivered; the agent's conversation follows the
    events; the edit distance of \<open>Tool_Repair\<close> is the recursive one.
  \<^item> Messages for a model: the history that is sent answers every call and is otherwise the
    adapted one; requests answer calls; the events of a stream tell its message.
  \<^item> Tables: the queue refines per-session FIFO lists; the log of a session is a tree whose
    paths are its contexts; blocking edges of tasks are acyclic; rate limits bound calls.
  \<^item> The runtime: the next fire time is the earliest, the alarm leaves only failed timers due;
    clients end up with the list of the log, however late their reducer runs; modes and
    configuration have the effects they announce.
  \<^item> Bundles: only valid, unused tokens within their budget and scope do anything, and only to
    their own agent and session; a failing bundle is reverted; a bundle's turn ends, pairs
    calls and answers, runs only tools that were permitted, and shows what it stores.
  \<^item> Federation: a settled task stays settled.

  \<^bold>\<open>Interfaces.\<close> A contract that several parts use is a locale, interpreted where it is provided:
  \<open>parent_log\<close> (rows that point to a parent: entries, tasks), \<open>dependency_graph\<close> (task edges)
  and \<open>refinement\<close> (a simulation: the queue) in \<open>Prelude\<close>; \<open>wall_clock\<close> (what the search for a fire
  time needs of a zone) in \<open>Cron\<close>; \<open>bundle_registry\<close> (both registries); and in \<open>Agent_Loop\<close> what
  the loop keeps if each step keeps it, \<open>turn_invariant\<close>, \<open>loop_invariant\<close>, \<open>queue_account\<close>, which
  \<open>Agent_Class\<close> interprets for its conversation and its queues.

  \<^bold>\<open>Bounds.\<close> Loops of the code with a limit have that limit: 100 iterations of the agent loop
  unless configured, 366 days of minutes in the search for a fire time, 25 requests of a
  bundle's turn; each theory proves that the loop returns. The descent of \<open>parse_json\<close> has the
  length of the text as fuel, which suffices because each level consumes a character. Walks
  along parent pointers (\<open>chain\<close>, \<open>walk_mode\<close>) may in principle not end and are partial; in every
  reachable store they return. Integers are unbounded where the code's numbers stay below
  \<open>2 ^ 53\<close>; hashes and signatures, which compute with bits, are parameters.

  \<^bold>\<open>Not modelled.\<close> Cryptography, \<open>TextDecoder\<close>, \<open>Intl\<close>, \<open>fetch\<close>, the Workers AI binding, TypeBox and
  the worker loader are parameters; TypeBox's functions always return. Text is made of code
  units below 256 where it is parsed or printed, and numbers of JSON are integers. Two
  interleavings are left out: \<open>tasks/cancel\<close> is one step although it awaits once between its
  check and its update, and an exception of the OpenAI stream comes between chunks and not in
  the middle of one. A worker that the loader keeps goes on with an earlier configuration and
  token: in \<open>Bundle_Dispatch\<close> it is a run function that ignores the configuration it is given.
  An expiry of a token that is text, an array or an object is taken as not reached; none is minted.
  User interfaces, vendors' SDKs, sandboxes, browsers, channels, vector stores, build tools
  and examples are left out, as they hold no state of this program or only pass calls on.
\<close>

end
